(* ===== verification/Prelude.thy ===== *)
theory Prelude
  imports Main "HOL-Library.Word" "HOL-Library.Sublist"
begin

text \<open>
  Shared vocabulary of the development: C characters and strings as \<open>char list\<close>s without
  the terminating NUL, the C library functions the source uses on them (\<open>isdigit\<close>,
  \<open>strtol\<close>, \<open>strstr\<close>, \<open>strtok\<close>, \<open>fgets\<close>, \<open>snprintf\<close>), searching a C array
  from index 0, and the interface locale that several components instantiate: a machine with
  events and an inductive invariant.

  Library collections: \<open>shell_defs\<close> unfolds small predicates, \<open>len_bounds\<close> holds the
  length facts of the string functions.
\<close>

named_theorems shell_defs
named_theorems len_bounds

type_synonym cstring = "char list"

section \<open>Characters (C locale)\<close>

abbreviation ord :: "char \<Rightarrow> nat" where
  "ord c \<equiv> of_char c"

definition NUL :: char where [shell_defs]: "NUL = CHR 0x00"
definition TAB :: char where [shell_defs]: "TAB = CHR 0x09"
definition NL :: char where [shell_defs]: "NL = CHR 0x0A"
definition CR :: char where [shell_defs]: "CR = CHR 0x0D"
definition DQ :: char where [shell_defs]: "DQ = CHR 0x22"
definition SQ :: char where [shell_defs]: "SQ = CHR 0x27"
definition BSLASH :: char where [shell_defs]: "BSLASH = CHR 0x5C"
definition BTICK :: char where [shell_defs]: "BTICK = CHR 0x60"

definition isdigit :: "char \<Rightarrow> bool" where
  [shell_defs]: "isdigit c \<longleftrightarrow> 48 \<le> ord c \<and> ord c \<le> 57"

definition isupper :: "char \<Rightarrow> bool" where
  [shell_defs]: "isupper c \<longleftrightarrow> 65 \<le> ord c \<and> ord c \<le> 90"

definition islower :: "char \<Rightarrow> bool" where
  [shell_defs]: "islower c \<longleftrightarrow> 97 \<le> ord c \<and> ord c \<le> 122"

definition isalpha :: "char \<Rightarrow> bool" where
  [shell_defs]: "isalpha c \<longleftrightarrow> isupper c \<or> islower c"

definition isalnum :: "char \<Rightarrow> bool" where
  [shell_defs]: "isalnum c \<longleftrightarrow> isalpha c \<or> isdigit c"

definition isspace :: "char \<Rightarrow> bool" where
  [shell_defs]: "isspace c \<longleftrightarrow> ord c = 32 \<or> (9 \<le> ord c \<and> ord c \<le> 13)"

definition isprint :: "char \<Rightarrow> bool" where
  [shell_defs]: "isprint c \<longleftrightarrow> 32 \<le> ord c \<and> ord c \<le> 126"

definition ispunct :: "char \<Rightarrow> bool" where
  [shell_defs]: "ispunct c \<longleftrightarrow> isprint c \<and> ord c \<noteq> 32 \<and> \<not> isalnum c"

definition tolower :: "char \<Rightarrow> char" where
  "tolower c = (if isupper c then char_of (ord c + 32) else c)"

definition toupper :: "char \<Rightarrow> char" where
  "toupper c = (if islower c then char_of (ord c - 32) else c)"

lemma of_char_less: "ord c < 256"
  by simp

lemma ord_inject [simp]: "ord c = ord d \<longleftrightarrow> c = d"
  by simp

lemma takeWhile_whole [simp]: "c \<notin> set s \<Longrightarrow> takeWhile (\<lambda>d. d \<noteq> c) s = s"
  by (induction s) auto

section \<open>C strings\<close>

text \<open>A byte buffer read as a C string stops at its first NUL.\<close>

definition c_str :: "char list \<Rightarrow> cstring" where
  "c_str bs = takeWhile (\<lambda>c. c \<noteq> NUL) bs"

lemma length_c_str [len_bounds]: "length (c_str bs) \<le> length bs"
  by (simp add: c_str_def length_takeWhile_le)

lemma c_str_id: "NUL \<notin> set bs \<Longrightarrow> c_str bs = bs"
  by (auto simp: c_str_def takeWhile_eq_all_conv)

lemma c_str_append_NUL: "NUL \<notin> set s \<Longrightarrow> c_str (s @ NUL # r) = s"
  by (induction s) (auto simp: c_str_def)

lemma c_str_no_nul [simp]: "NUL \<notin> set (c_str bs)"
  by (auto simp: c_str_def dest: set_takeWhileD)

text \<open>
  \<open>snprintf(buf, n, "%s", s)\<close>, and \<open>strncpy(buf, s, n - 1)\<close> into a buffer whose last byte
  is NUL, keep the first \<open>n - 1\<close> bytes.
\<close>

definition fit :: "nat \<Rightarrow> cstring \<Rightarrow> cstring" where
  "fit n s = take (n - 1) s"

lemma length_fit [len_bounds]: "length (fit n s) \<le> n - 1"
  by (simp add: fit_def)

lemma fit_id: "length s < n \<Longrightarrow> fit n s = s"
  by (simp add: fit_def)

lemma set_fit: "set (fit n s) \<subseteq> set s"
  by (simp add: fit_def set_take_subset)

lemma fit_fit [simp]: "fit n (fit n s) = fit n s"
  by (simp add: fit_def)

text \<open>\<open>strncat(buf, s, sizeof(buf) - strlen(buf) - 1)\<close> on a buffer of \<open>n\<close> bytes.\<close>

definition cat_fit :: "nat \<Rightarrow> cstring \<Rightarrow> cstring \<Rightarrow> cstring" where
  "cat_fit n buf s = buf @ take (n - length buf - 1) s"

lemma length_cat_fit [len_bounds]: "length buf < n \<Longrightarrow> length (cat_fit n buf s) < n"
  by (simp add: cat_fit_def)

lemma cat_fit_id: "length buf + length s < n \<Longrightarrow> cat_fit n buf s = buf @ s"
  by (simp add: cat_fit_def)

section \<open>Searching\<close>

text \<open>The first index of an array whose element satisfies a test (a C \<open>for\<close> with \<open>break\<close>).\<close>

fun first_idx :: "('a \<Rightarrow> bool) \<Rightarrow> 'a list \<Rightarrow> nat option" where
  "first_idx P [] = None"
| "first_idx P (x # xs) = (if P x then Some 0 else map_option Suc (first_idx P xs))"

lemma first_idx_None: "first_idx P xs = None \<longleftrightarrow> (\<forall>x\<in>set xs. \<not> P x)"
  by (induction xs) auto

lemma first_idx_Some:
  "first_idx P xs = Some i \<Longrightarrow> i < length xs \<and> P (xs ! i) \<and> (\<forall>j<i. \<not> P (xs ! j))"
proof (induction xs arbitrary: i)
  case (Cons x xs)
  then show ?case
    by (cases "P x") (auto simp: less_Suc_eq_0_disj nth_Cons split: nat.split)
qed simp

lemma first_idx_lt [dest]: "first_idx P xs = Some i \<Longrightarrow> i < length xs"
  by (simp add: first_idx_Some)

lemma first_idx_holds: "first_idx P xs = Some i \<Longrightarrow> P (xs ! i)"
  by (simp add: first_idx_Some)

lemma first_idx_find: "find P xs = map_option ((!) xs) (first_idx P xs)"
  by (induction xs) (auto simp: option.map_comp o_def)

lemma first_idx_unique:
  assumes "i < length xs" "P (xs ! i)" "\<And>k. k < length xs \<Longrightarrow> P (xs ! k) \<Longrightarrow> k = i"
  shows "first_idx P xs = Some i"
proof -
  have "first_idx P xs \<noteq> None"
    unfolding first_idx_None using assms(1,2) nth_mem by blast
  then obtain k where "first_idx P xs = Some k" by blast
  with first_idx_Some [OF this] assms(3) show ?thesis by simp
qed

lemma find_append_cases:
  "find P (xs @ ys) = (case find P xs of Some x \<Rightarrow> Some x | None \<Rightarrow> find P ys)"
  by (induction xs) auto

lemma find_unique:
  assumes "i < length xs" "P (xs ! i)" "\<And>k. k < length xs \<Longrightarrow> P (xs ! k) \<Longrightarrow> k = i"
  shows "find P xs = Some (xs ! i)"
proof -
  have "first_idx P xs = Some i" using assms by (rule first_idx_unique)
  then show ?thesis by (simp add: first_idx_find)
qed

lemma option_eqI:
  "(\<And>j. a = Some j \<longleftrightarrow> b = Some j) \<Longrightarrow> a = b"
  by (cases a; cases b) auto

lemma first_idx_cong:
  "(\<And>x. x \<in> set xs \<Longrightarrow> P x = Q x) \<Longrightarrow> first_idx P xs = first_idx Q xs"
  by (induction xs) auto

text \<open>\<open>strstr\<close>: the offset of the first occurrence.\<close>

fun strstr :: "cstring \<Rightarrow> cstring \<Rightarrow> nat option" where
  "strstr [] pat = (if pat = [] then Some 0 else None)"
| "strstr (c # s) pat =
     (if prefix pat (c # s) then Some 0 else map_option Suc (strstr s pat))"

lemma strstr_Some:
  "strstr s pat = Some i \<Longrightarrow> i + length pat \<le> length s \<and> s = take i s @ pat @ drop (i + length pat) s"
proof (induction s arbitrary: i)
  case (Cons c s)
  show ?case
  proof (cases "prefix pat (c # s)")
    case True
    with Cons.prems obtain zs where "i = 0" "c # s = pat @ zs" by (auto simp: prefix_def)
    then show ?thesis by (metis add_0 append_eq_conv_conj append_take_drop_id length_append
          le_add1 self_append_conv2 take0)
  next
    case False
    with Cons.prems obtain j where "i = Suc j" "strstr s pat = Some j" by auto
    with Cons.IH [of j] show ?thesis by simp
  qed
qed (auto split: if_splits)

lemma strstr_None_iff: "strstr s pat = None \<longleftrightarrow> \<not> sublist pat s"
  by (induction s) (auto simp: sublist_Cons_right)

lemma strstr_sublist: "(\<exists>i. strstr s pat = Some i) \<longleftrightarrow> sublist pat s"
  using strstr_None_iff [of s pat] by (cases "strstr s pat") auto

lemma strstr_Nil_pat [simp]: "strstr s [] = Some 0"
  by (cases s) auto

lemma strstr_at: "\<not> sublist pat (pre @ butlast pat) \<Longrightarrow> strstr (pre @ pat @ post) pat = Some (length pre)"
proof (induction pre)
  case Nil
  have "pat \<noteq> []" using Nil by auto
  then show ?case by (cases pat) auto
next
  case (Cons c pre)
  then have ns: "\<not> sublist pat (pre @ butlast pat)" "\<not> prefix pat (c # pre @ butlast pat)"
    by (auto simp: sublist_Cons_right)
  have "\<not> prefix pat (c # pre @ pat @ post)"
  proof
    assume "prefix pat (c # pre @ pat @ post)"
    moreover have "prefix (c # pre @ butlast pat) (c # pre @ pat @ post)"
      by (metis append_Cons append_assoc append_butlast_last_id append_self_conv2 butlast.simps(1) prefixI)
    moreover have "length pat \<le> length (c # pre @ butlast pat)" by simp
    ultimately show False using ns(2) by (metis prefix_length_prefix)
  qed
  with Cons.IH [OF ns(1)] show ?case by (cases pat) auto
qed

lemma strstr_none_before: "strstr s pat = Some k \<Longrightarrow> pat \<noteq> [] \<Longrightarrow> \<not> sublist pat (take k s)"
proof (induction s arbitrary: k)
  case (Cons c s)
  show ?case
  proof (cases "prefix pat (c # s)")
    case True
    then show ?thesis using Cons.prems by simp
  next
    case False
    then obtain j where j: "k = Suc j" "strstr s pat = Some j" using Cons.prems by auto
    have "\<not> prefix pat (c # take j s)"
      using False take_is_prefix [of j s] prefix_order.order_trans [of pat "c # take j s" "c # s"] by auto
    with Cons.IH [OF j(2) Cons.prems(2)] show ?thesis by (simp add: j(1) sublist_Cons_right)
  qed
qed (auto split: if_splits)

text \<open>\<open>strchr\<close>: the part before the first \<open>c\<close> and the part after it.\<close>

definition split_at :: "char \<Rightarrow> cstring \<Rightarrow> (cstring \<times> cstring) option" where
  "split_at c s = (if c \<in> set s
     then Some (takeWhile (\<lambda>d. d \<noteq> c) s, tl (dropWhile (\<lambda>d. d \<noteq> c) s)) else None)"

lemma split_at_Some:
  "split_at c s = Some (a, b) \<Longrightarrow> s = a @ c # b \<and> c \<notin> set a"
proof -
  assume "split_at c s = Some (a, b)"
  then have c: "c \<in> set s" and a: "a = takeWhile (\<lambda>d. d \<noteq> c) s"
    and b: "b = tl (dropWhile (\<lambda>d. d \<noteq> c) s)"
    by (auto simp: split_at_def split: if_splits)
  from c have ne: "dropWhile (\<lambda>d. d \<noteq> c) s \<noteq> []"
    by (simp add: dropWhile_eq_Nil_conv)
  then have "hd (dropWhile (\<lambda>d. d \<noteq> c) s) = c"
    using hd_dropWhile [OF ne] by simp
  with ne b have "dropWhile (\<lambda>d. d \<noteq> c) s = c # b"
    by (metis list.collapse)
  then have "s = a @ c # b"
    using a by (metis takeWhile_dropWhile_id)
  moreover have "c \<notin> set a"
  proof
    assume "c \<in> set a"
    then have "c \<in> set (takeWhile (\<lambda>d. d \<noteq> c) s)" by (simp only: a)
    from set_takeWhileD [OF this] show False by simp
  qed
  ultimately show ?thesis by blast
qed

lemma split_at_None: "split_at c s = None \<longleftrightarrow> c \<notin> set s"
  by (simp add: split_at_def)

lemma split_at_append [simp]: "c \<notin> set a \<Longrightarrow> split_at c (a @ c # b) = Some (a, b)"
  by (induction a) (auto simp: split_at_def)

section \<open>Tokens and lines\<close>

text \<open>\<open>strtok\<close>: the maximal non-empty runs of characters that are not delimiters.\<close>

fun tok_go :: "(char \<Rightarrow> bool) \<Rightarrow> cstring \<Rightarrow> cstring \<Rightarrow> cstring list" where
  "tok_go D cur [] = (if cur = [] then [] else [rev cur])"
| "tok_go D cur (c # s) =
     (if D c then (if cur = [] then tok_go D [] s else rev cur # tok_go D [] s)
      else tok_go D (c # cur) s)"

definition strtok :: "(char \<Rightarrow> bool) \<Rightarrow> cstring \<Rightarrow> cstring list" where
  "strtok D s = tok_go D [] s"

lemma tok_go_props:
  "(\<forall>c\<in>set cur. \<not> D c) \<Longrightarrow> t \<in> set (tok_go D cur s) \<Longrightarrow>
     t \<noteq> [] \<and> (\<forall>c\<in>set t. \<not> D c)"
proof (induction s arbitrary: cur)
  case (Cons c s)
  show ?case
  proof (cases "D c")
    case True
    then have "t \<in> set (tok_go D [] s) \<or> (cur \<noteq> [] \<and> t = rev cur)"
      using Cons.prems(2) by (simp split: if_splits) blast
    then show ?thesis
    proof
      assume "t \<in> set (tok_go D [] s)"
      then show ?thesis by (intro Cons.IH [of "[]"]) simp_all
    next
      assume "cur \<noteq> [] \<and> t = rev cur"
      then show ?thesis using Cons.prems(1) by simp
    qed
  next
    case False
    show ?thesis
    proof (rule Cons.IH [of "c # cur"])
      show "\<forall>d\<in>set (c # cur). \<not> D d" using False Cons.prems(1) by simp
      show "t \<in> set (tok_go D (c # cur) s)" using False Cons.prems(2) by simp
    qed
  qed
qed (simp split: if_splits)

lemma strtok_token:
  "t \<in> set (strtok D s) \<Longrightarrow> t \<noteq> [] \<and> (\<forall>c\<in>set t. \<not> D c)"
  unfolding strtok_def by (rule tok_go_props [of "[]"]) simp_all

text \<open>Strings with a separator between them.\<close>

fun joined :: "cstring \<Rightarrow> cstring list \<Rightarrow> cstring" where
  "joined sep [] = []"
| "joined sep [s] = s"
| "joined sep (s # t # ts) = s @ sep @ joined sep (t # ts)"

lemma joined_Cons: "ts \<noteq> [] \<Longrightarrow> joined sep (s # ts) = s @ sep @ joined sep ts"
  by (cases ts) auto

lemma tok_go_token: "list_all (\<lambda>c. \<not> D c) t \<Longrightarrow> tok_go D cur (t @ s) = tok_go D (rev t @ cur) s"
  by (induction t arbitrary: cur) auto

lemma strtok_joined:
  assumes "D d" "list_all (\<lambda>t. t \<noteq> [] \<and> list_all (\<lambda>c. \<not> D c) t) ts"
  shows "strtok D (joined [d] ts) = ts"
proof -
  have "tok_go D [] (joined [d] ts) = ts"
    using assms(2)
  proof (induction "[d]" ts rule: joined.induct)
    case (2 s)
    then show ?case using tok_go_token [of D s "[]" "[]"] by simp
  next
    case (3 s t ts)
    then show ?case using tok_go_token [of D s "[]" "d # joined [d] (t # ts)"] assms(1) by simp
  qed simp
  then show ?thesis by (simp add: strtok_def)
qed

text \<open>\<open>getline\<close>: the lines of a stream, each with its newline (the last may lack it).\<close>

fun lines_go :: "char list \<Rightarrow> char list \<Rightarrow> char list list" where
  "lines_go cur [] = (if cur = [] then [] else [rev cur])"
| "lines_go cur (c # s) =
     (if c = NL then rev (c # cur) # lines_go [] s else lines_go (c # cur) s)"

definition getlines :: "char list \<Rightarrow> char list list" where
  "getlines s = lines_go [] s"

lemma concat_lines_go: "concat (lines_go cur s) = rev cur @ s"
  by (induction s arbitrary: cur) auto

lemma concat_getlines [simp]: "concat (getlines s) = s"
  by (simp add: getlines_def concat_lines_go)

text \<open>
  \<open>fgets(buf, n, f)\<close> until end of file: as \<open>getline\<close>, but a line longer than \<open>n - 1\<close> bytes
  comes in pieces of \<open>n - 1\<close>. The counter is the number of bytes in the current piece.
\<close>

fun fgets_go :: "nat \<Rightarrow> char list \<Rightarrow> char list \<Rightarrow> char list list" where
  "fgets_go m cur [] = (if cur = [] then [] else [rev cur])"
| "fgets_go m cur (c # s) =
     (if c = NL \<or> m \<le> Suc (length cur) then rev (c # cur) # fgets_go m [] s
      else fgets_go m (c # cur) s)"

definition fgets_all :: "nat \<Rightarrow> char list \<Rightarrow> char list list" where
  "fgets_all n s = fgets_go (n - 1) [] s"

lemma concat_fgets_go: "concat (fgets_go m cur s) = rev cur @ s"
  by (induction s arbitrary: cur) auto

lemma concat_fgets_all [simp]: "concat (fgets_all n s) = s"
  by (simp add: fgets_all_def concat_fgets_go)

lemma fgets_go_nonempty: "[] \<notin> set (fgets_go m cur s)"
  by (induction s arbitrary: cur) auto

lemma fgets_all_nonempty: "[] \<notin> set (fgets_all n s)"
  by (simp add: fgets_all_def fgets_go_nonempty)

lemma fgets_go_line:
  "NL \<notin> set t \<Longrightarrow> length cur + length t + 1 \<le> m \<Longrightarrow>
   fgets_go m cur (t @ NL # s) = (rev cur @ t @ [NL]) # fgets_go m [] s"
proof (induction t arbitrary: cur)
  case (Cons c t)
  then show ?case using Cons.IH [of "c # cur"] by auto
qed simp

lemma fgets_all_terminated:
  "list_all (\<lambda>l. NL \<notin> set l \<and> length l + 2 \<le> n) ls \<Longrightarrow>
     fgets_all n (concat (map (\<lambda>l. l @ [NL]) ls)) = map (\<lambda>l. l @ [NL]) ls"
proof (induction ls)
  case (Cons l ls)
  then have "Suc (length l) \<le> n - Suc 0" by auto
  with Cons show ?case
    using fgets_go_line [of l "[]" "n - 1" "concat (map (\<lambda>l. l @ [NL]) ls)"] by (simp add: fgets_all_def)
qed (simp add: fgets_all_def)

text \<open>One \<open>fgets\<close> into \<open>n\<close> bytes: up to and with the newline, at most \<open>n - 1\<close> of them.\<close>

definition line_len :: "char list \<Rightarrow> nat" where
  "line_len s = (case first_idx (\<lambda>c. c = NL) s of None \<Rightarrow> length s | Some i \<Rightarrow> Suc i)"

definition fgets1 :: "nat \<Rightarrow> char list \<Rightarrow> (cstring \<times> char list) option" where
  "fgets1 n s = (if s = [] then None
     else let k = min (n - 1) (line_len s) in Some (c_str (take k s), drop k s))"

definition chomp :: "cstring \<Rightarrow> cstring" where
  "chomp s = (if s \<noteq> [] \<and> last s = NL then butlast s else s)"

lemma fgets1_shorter: "fgets1 n s = Some (t, r) \<Longrightarrow> 2 \<le> n \<Longrightarrow> length r < length s"
  by (auto simp: fgets1_def line_len_def Let_def split: if_splits option.splits)

section \<open>Numbers\<close>

text \<open>The \<open>%d\<close> conversion.\<close>

definition digit_char :: "nat \<Rightarrow> char" where
  "digit_char d = char_of (48 + d)"

fun show_nat :: "nat \<Rightarrow> cstring" where
  "show_nat n = (if n < 10 then [digit_char n] else show_nat (n div 10) @ [digit_char (n mod 10)])"

declare show_nat.simps [simp del]

definition show_int :: "int \<Rightarrow> cstring" where
  "show_int v = (if v < 0 then CHR ''-'' # show_nat (nat (- v)) else show_nat (nat v))"

lemma ord_digit_char [simp]: "d < 10 \<Longrightarrow> ord (digit_char d) = 48 + d"
  by (simp add: digit_char_def of_char_of)

lemma isdigit_digit_char [simp]: "d < 10 \<Longrightarrow> isdigit (digit_char d)"
  by (simp add: isdigit_def)

lemma show_nat_digits: "c \<in> set (show_nat n) \<Longrightarrow> isdigit c"
proof (induction n rule: show_nat.induct)
  case (1 n)
  then show ?case
    by (cases "n < 10") (auto simp: show_nat.simps [of n])
qed

lemma show_nat_nonempty [simp]: "show_nat n \<noteq> []"
  by (subst show_nat.simps) simp

lemma length_show_nat: "n < 10 ^ k \<Longrightarrow> 0 < k \<Longrightarrow> length (show_nat n) \<le> k"
proof (induction k arbitrary: n)
  case (Suc k)
  show ?case
  proof (cases "n < 10")
    case False
    with Suc.prems have k: "0 < k" by (cases k) auto
    from Suc.prems have "n div 10 < 10 ^ k" by simp
    with k have "length (show_nat (n div 10)) \<le> k" by (intro Suc.IH)
    with False show ?thesis by (simp add: show_nat.simps [of n])
  qed (simp add: show_nat.simps [of n])
qed simp

lemma length_show_int: "- (10 ^ k) < v \<Longrightarrow> v < 10 ^ k \<Longrightarrow> 0 < k \<Longrightarrow> length (show_int v) \<le> Suc k"
  using length_show_nat [of "nat (- v)" k] length_show_nat [of "nat v" k]
  by (auto simp: show_int_def nat_less_iff)

text \<open>The digits of \<open>strtol\<close>, its blanks and sign, and glibc's saturation.\<close>

fun digits_go :: "int \<Rightarrow> cstring \<Rightarrow> int \<times> cstring" where
  "digits_go acc [] = (acc, [])"
| "digits_go acc (c # s) =
     (if isdigit c then digits_go (acc * 10 + (int (ord c) - 48)) s else (acc, c # s))"

definition LONG_MAX :: int where "LONG_MAX = 9223372036854775807"
definition LONG_MIN :: int where "LONG_MIN = - 9223372036854775808"

definition clamp_long :: "int \<Rightarrow> int" where
  "clamp_long v = (if v > LONG_MAX then LONG_MAX else if v < LONG_MIN then LONG_MIN else v)"

definition strtol :: "cstring \<Rightarrow> int \<times> cstring" where
  "strtol s = (let t = dropWhile isspace s;
                   neg = (t \<noteq> [] \<and> hd t = CHR ''-'');
                   u = (if t \<noteq> [] \<and> (hd t = CHR ''-'' \<or> hd t = CHR ''+'') then tl t else t)
               in if u \<noteq> [] \<and> isdigit (hd u)
                  then (case digits_go 0 u of (v, r) \<Rightarrow> (clamp_long (if neg then - v else v), r))
                  else (0, s))"

definition atol :: "cstring \<Rightarrow> int" where
  "atol s = fst (strtol s)"

text \<open>The conversion of a \<open>long\<close> to a 32-bit \<open>int\<close>, and \<open>atoi\<close>.\<close>

definition to_int :: "int \<Rightarrow> int" where
  "to_int v = (v + 2147483648) mod 4294967296 - 2147483648"

definition atoi :: "cstring \<Rightarrow> int" where
  "atoi s = to_int (atol s)"

lemma to_int_id: "- 2147483648 \<le> v \<Longrightarrow> v < 2147483648 \<Longrightarrow> to_int v = v"
  by (simp add: to_int_def)

lemma to_int_range: "- 2147483648 \<le> to_int v \<and> to_int v < 2147483648"
proof -
  have "0 \<le> (v + 2147483648) mod 4294967296" "(v + 2147483648) mod 4294967296 < 4294967296"
    by simp_all
  then show ?thesis by (simp add: to_int_def)
qed

lemma digits_go_append:
  "(\<forall>c\<in>set ds. isdigit c) \<Longrightarrow> digits_go acc (ds @ r) = digits_go (fst (digits_go acc ds)) r"
  by (induction ds arbitrary: acc) auto

lemma digits_go_show_nat: "fst (digits_go 0 (show_nat n)) = int n"
proof (induction n rule: show_nat.induct)
  case (1 n)
  show ?case
  proof (cases "n < 10")
    case True
    then show ?thesis by (simp add: show_nat.simps [of n])
  next
    case False
    have "fst (digits_go 0 (show_nat n)) =
        fst (digits_go (int (n div 10)) [digit_char (n mod 10)])"
      using False "1.IH" digits_go_append [of "show_nat (n div 10)" 0 "[digit_char (n mod 10)]"]
      by (simp add: show_nat.simps [of n] show_nat_digits)
    also have "\<dots> = int (n div 10) * 10 + int (n mod 10)" by simp
    also have "\<dots> = int n" by presburger
    finally show ?thesis .
  qed
qed

lemma digits_go_snd: "(\<forall>c\<in>set ds. isdigit c) \<Longrightarrow> r = [] \<or> \<not> isdigit (hd r) \<Longrightarrow>
   digits_go acc (ds @ r) = (fst (digits_go acc ds), r)"
  by (induction ds arbitrary: acc) (cases r; auto)+

lemma digits_go_show_nat_rest:
  "r = [] \<or> \<not> isdigit (hd r) \<Longrightarrow> digits_go 0 (show_nat n @ r) = (int n, r)"
  using digits_go_snd [of "show_nat n" r 0] by (simp add: show_nat_digits digits_go_show_nat)

lemma isdigit_not_space: "isdigit c \<Longrightarrow> \<not> isspace c"
  by (auto simp: isdigit_def isspace_def)

lemma isdigit_not_sign: "isdigit c \<Longrightarrow> c \<noteq> CHR ''-'' \<and> c \<noteq> CHR ''+''"
  by (auto simp: isdigit_def)

lemma hd_show_nat_digit: "isdigit (hd (show_nat n))"
  by (rule show_nat_digits [of _ n]) simp

lemma strtol_show_int:
  assumes "LONG_MIN \<le> v" "v \<le> LONG_MAX" "r = [] \<or> \<not> isdigit (hd r)"
  shows "strtol (show_int v @ r) = (v, r)"
proof (cases "v < 0")
  case True
  have "dropWhile isspace (show_int v @ r) = CHR ''-'' # show_nat (nat (- v)) @ r"
    using True by (simp add: show_int_def isspace_def)
  with True assms show ?thesis
    by (simp add: strtol_def Let_def digits_go_show_nat_rest hd_show_nat_digit clamp_long_def)
next
  case False
  have "dropWhile isspace (show_nat (nat v) @ r) = show_nat (nat v) @ r"
    using hd_show_nat_digit [of "nat v"]
    by (cases "show_nat (nat v)") (auto dest: isdigit_not_space)
  with False assms show ?thesis
    using hd_show_nat_digit [of "nat v"] isdigit_not_sign [of "hd (show_nat (nat v))"]
    by (simp add: strtol_def Let_def show_int_def digits_go_show_nat_rest clamp_long_def)
qed

lemma atoi_show_int: "- 2147483648 \<le> v \<Longrightarrow> v < 2147483648 \<Longrightarrow> atoi (show_int v) = v"
  using strtol_show_int [of v "[]"] by (simp add: atoi_def atol_def to_int_id LONG_MIN_def LONG_MAX_def)

text \<open>Left-justified padding, the \<open>%-Ns\<close> conversion; right-justified, \<open>%Nd\<close>.\<close>

definition pad_right :: "nat \<Rightarrow> cstring \<Rightarrow> cstring" where
  "pad_right n s = s @ replicate (n - length s) (CHR '' '')"

definition pad_left :: "nat \<Rightarrow> cstring \<Rightarrow> cstring" where
  "pad_left n s = replicate (n - length s) (CHR '' '') @ s"

section \<open>Interfaces\<close>

text \<open>
  A deterministic component driven by events: its invariant holds at the start, and every
  event keeps it; then it holds after every run.
\<close>

locale event_machine =
  fixes start :: "'s"
    and step :: "'e \<Rightarrow> 's \<Rightarrow> 's"
    and inv :: "'s \<Rightarrow> bool"
  assumes inv_start: "inv start"
    and inv_step: "inv s \<Longrightarrow> inv (step e s)"
begin

lemma inv_run: "inv s \<Longrightarrow> inv (fold step es s)"
  by (induction es arbitrary: s) (auto intro: inv_step)

lemma inv_reachable: "inv (fold step es start)"
  by (intro inv_run inv_start)

end

end
