(* ===== verification/Json_Text.thy ===== *)
theory Json_Text
  imports Prelude
begin

text \<open>
  The hand-written JSON text functions of \<^verbatim>\<open>mcp_server.c\<close> and \<^verbatim>\<open>aishell_main.c\<close>:
  \<open>json_escape\<close> (and its copy \<open>job_escape_json\<close>), \<open>json_unescape\<close> and the field extractor
  \<open>json_str\<close>. Buffer sizes are the C parameters \<open>dstsz\<close> and \<open>outlen\<close>; the write index of the C
  loops is an argument, so that every bound test is the code's.
\<close>

section \<open>Escaping\<close>

definition esc_char :: "char \<Rightarrow> cstring" where
  "esc_char c =
     (if c = DQ then [BSLASH, DQ]
      else if c = BSLASH then [BSLASH, BSLASH]
      else if c = NL then [BSLASH, CHR ''n'']
      else if c = CR then [BSLASH, CHR ''r'']
      else if c = TAB then [BSLASH, CHR ''t'']
      else if 32 \<le> ord c then [c]
      else [])"

fun json_escape_go :: "nat \<Rightarrow> nat \<Rightarrow> cstring \<Rightarrow> cstring" where
  "json_escape_go i dstsz [] = []"
| "json_escape_go i dstsz (c # src) =
     (if i + 4 < dstsz
      then esc_char c @ json_escape_go (i + length (esc_char c)) dstsz src
      else [])"

definition json_escape :: "cstring \<Rightarrow> nat \<Rightarrow> cstring" where
  "json_escape src dstsz = json_escape_go 0 dstsz src"

definition job_escape_json :: "cstring \<Rightarrow> nat \<Rightarrow> cstring" where
  "job_escape_json src dstsz = json_escape_go 0 dstsz src"

lemma length_esc_char: "length (esc_char c) \<le> 2"
  by (simp add: esc_char_def)

lemma json_escape_go_bound:
  "i < dstsz \<Longrightarrow> i + length (json_escape_go i dstsz src) < max (i + 1) (dstsz - 2)"
proof (induction src arbitrary: i)
  case (Cons c src)
  show ?case
  proof (cases "i + 4 < dstsz")
    case True
    then have "i + length (esc_char c) < dstsz" using length_esc_char [of c] by simp
    from Cons.IH [OF this] True length_esc_char [of c] show ?thesis by simp
  qed simp
qed simp

lemma json_escape_length [len_bounds]: "0 < dstsz \<Longrightarrow> length (json_escape src dstsz) < max 1 (dstsz - 2)"
  using json_escape_go_bound [of 0 dstsz src] by (simp add: json_escape_def)

lemma json_escape_go_double [len_bounds]: "length (json_escape_go i dstsz src) \<le> 2 * length src"
proof (induction src arbitrary: i)
  case (Cons c src)
  from Cons.IH [of "i + length (esc_char c)"] length_esc_char [of c] show ?case by simp
qed simp

lemma job_escape_eq: "job_escape_json = json_escape"
  by (simp add: fun_eq_iff job_escape_json_def json_escape_def)

text \<open>
  The body of a JSON string: no raw quote or control character, and every backslash starts one
  of the escapes \<open>json_escape\<close> produces.
\<close>

fun json_body :: "cstring \<Rightarrow> bool" where
  "json_body [] = True"
| "json_body (c # s) =
     (if c = BSLASH
      then (case s of [] \<Rightarrow> False
            | d # r \<Rightarrow> d \<in> {DQ, BSLASH, CHR ''n'', CHR ''r'', CHR ''t''} \<and> json_body r)
      else c \<noteq> DQ \<and> 32 \<le> ord c \<and> json_body s)"

lemma json_body_append: "json_body (esc_char c) \<Longrightarrow> json_body s \<Longrightarrow> json_body (esc_char c @ s)"
  by (auto simp: esc_char_def shell_defs)

lemma json_body_esc_char: "json_body (esc_char c)"
  by (auto simp: esc_char_def shell_defs)

lemma json_body_escape_go: "json_body (json_escape_go i dstsz src)"
  by (induction src arbitrary: i) (auto intro: json_body_append json_body_esc_char)

section \<open>Unescaping\<close>

definition unesc_char :: "char \<Rightarrow> char option" where
  "unesc_char d =
     (if d = CHR ''n'' then Some NL else if d = CHR ''t'' then Some TAB
      else if d = CHR ''r'' then Some CR else if d = DQ then Some DQ
      else if d = BSLASH then Some BSLASH else None)"

text \<open>One turn of the loop: the bytes written and the rest of the source.\<close>

definition unesc_turn :: "nat \<Rightarrow> nat \<Rightarrow> char \<Rightarrow> cstring \<Rightarrow> cstring \<times> cstring" where
  "unesc_turn i dstsz c s =
     (case s of
        d # r \<Rightarrow>
          if c = BSLASH
          then (case unesc_char d of
                  Some e \<Rightarrow> ([e], r)
                | None \<Rightarrow> (if i + 2 < dstsz then [BSLASH, d] else [BSLASH], r))
          else ([c], s)
      | [] \<Rightarrow> ([c], s))"

lemma unesc_turn_shorter [termination_simp]:
  "(out, r) = unesc_turn i dstsz c s \<Longrightarrow> length r \<le> length s"
  by (auto simp: unesc_turn_def split: list.splits option.splits if_splits)

function json_unescape_go :: "nat \<Rightarrow> nat \<Rightarrow> cstring \<Rightarrow> cstring" where
  "json_unescape_go i dstsz [] = []"
| "json_unescape_go i dstsz (c # s) =
     (if i + 1 < dstsz
      then (case unesc_turn i dstsz c s of
              (out, r) \<Rightarrow> out @ json_unescape_go (i + length out) dstsz r)
      else [])"
  by pat_completeness auto
termination
  by (relation "measure (\<lambda>(i, n, s). length s)") (auto dest: unesc_turn_shorter)

definition json_unescape :: "cstring \<Rightarrow> nat \<Rightarrow> cstring" where
  "json_unescape src dstsz = json_unescape_go 0 dstsz src"

lemma unesc_turn_length: "i + 1 < dstsz \<Longrightarrow> unesc_turn i dstsz c s = (out, r) \<Longrightarrow> i + length out < dstsz"
  by (auto simp: unesc_turn_def split: list.splits option.splits if_splits)

lemma json_unescape_go_bound: "i < dstsz \<Longrightarrow> i + length (json_unescape_go i dstsz s) < dstsz"
proof (induction i dstsz s rule: json_unescape_go.induct)
  case (2 i dstsz c s)
  show ?case
  proof (cases "i + 1 < dstsz")
    case True
    obtain out r where t: "unesc_turn i dstsz c s = (out, r)" by force
    from True t have "i + length out < dstsz" by (rule unesc_turn_length)
    with "2.IH" [OF True t [symmetric]] True t show ?thesis by simp
  qed (use 2 in simp)
qed simp

lemma json_unescape_length [len_bounds]: "0 < dstsz \<Longrightarrow> length (json_unescape s dstsz) < dstsz"
  using json_unescape_go_bound [of 0 dstsz s] by (simp add: json_unescape_def)

text \<open>The characters \<open>json_escape\<close> keeps; the others are control characters, which it drops.\<close>

definition json_keeps :: "char \<Rightarrow> bool" where
  "json_keeps c \<longleftrightarrow> 32 \<le> ord c \<or> c = NL \<or> c = CR \<or> c = TAB"

lemma esc_char_cases:
  assumes "json_keeps c"
  obtains (pair) d where "esc_char c = [BSLASH, d]" "unesc_char d = Some c"
  | (single) "esc_char c = [c]" "c \<noteq> BSLASH"
proof (cases "c = DQ \<or> c = BSLASH \<or> c = NL \<or> c = CR \<or> c = TAB")
  case True
  then have "\<exists>d. esc_char c = [BSLASH, d] \<and> unesc_char d = Some c"
    by (elim disjE) (simp_all add: esc_char_def unesc_char_def shell_defs)
  then show ?thesis using pair by blast
next
  case False
  then have "32 \<le> ord c" using assms by (simp add: json_keeps_def)
  with False have "esc_char c = [c]" by (simp add: esc_char_def)
  with False show ?thesis using single by blast
qed

lemma unesc_turn_esc:
  assumes "json_keeps c" "esc_char c = e # es"
  shows "unesc_turn i n e (es @ s) = ([c], s)"
  using assms(1)
proof (cases rule: esc_char_cases)
  case (pair d)
  with assms(2) show ?thesis by (auto simp: unesc_turn_def)
next
  case single
  with assms(2) show ?thesis by (simp add: unesc_turn_def split: list.split)
qed

lemma unescape_escape_append:
  assumes "\<forall>c\<in>set src. json_keeps c" "i + 2 * length src + 4 \<le> m" "j + length src < n"
  shows "json_unescape_go j n (json_escape_go i m src @ t) = src @ json_unescape_go (j + length src) n t"
  using assms
proof (induction src arbitrary: i j)
  case (Cons c src)
  let ?r = "json_escape_go (i + length (esc_char c)) m src @ t"
  obtain e es where e: "esc_char c = e # es"
    using Cons.prems(1) by (cases "esc_char c") (auto simp: esc_char_def json_keeps_def split: if_splits)
  have len: "length (esc_char c) \<le> 2" by (rule length_esc_char)
  have esc: "json_escape_go i m (c # src) @ t = e # es @ ?r"
    using Cons.prems(2) e by simp
  have turn: "unesc_turn j n e (es @ ?r) = ([c], ?r)"
    using Cons.prems(1) e by (intro unesc_turn_esc) auto
  have "json_unescape_go (Suc j) n ?r = src @ json_unescape_go (Suc j + length src) n t"
    using Cons.prems len by (intro Cons.IH) auto
  then show ?case
    using Cons.prems(3) turn by (simp only: esc) simp
qed simp

lemma unescape_escape_go:
  assumes "\<forall>c\<in>set src. json_keeps c" "i + 2 * length src + 4 \<le> m" "j + length src < n"
  shows "json_unescape_go j n (json_escape_go i m src) = src"
  using unescape_escape_append [OF assms, of "[]"] by simp

text \<open>Up to its first quote, an escaped text has no quote; there, a backslash comes first.\<close>

lemma takeWhile_escape_go:
  "(\<forall>c\<in>set src. json_keeps c) \<Longrightarrow> i + 2 * length src + 4 \<le> m \<Longrightarrow>
   takeWhile (\<lambda>c. c \<noteq> DQ) (json_escape_go i m src @ DQ # r) =
     json_escape_go i m (takeWhile (\<lambda>c. c \<noteq> DQ) src) @ (if DQ \<in> set src then [BSLASH] else [])"
proof (induction src arbitrary: i)
  case (Cons c src)
  have len: "length (esc_char c) \<le> 2" by (rule length_esc_char)
  have IH: "takeWhile (\<lambda>c. c \<noteq> DQ) (json_escape_go (i + length (esc_char c)) m src @ DQ # r) =
     json_escape_go (i + length (esc_char c)) m (takeWhile (\<lambda>c. c \<noteq> DQ) src)
       @ (if DQ \<in> set src then [BSLASH] else [])"
    using Cons.prems len by (intro Cons.IH) auto
  show ?case
  proof (cases "c = DQ")
    case True
    then show ?thesis using Cons.prems by (simp add: esc_char_def) (simp add: shell_defs)
  next
    case False
    then have "DQ \<notin> set (esc_char c)" by (auto simp: esc_char_def shell_defs)
    then show ?thesis using False Cons.prems IH by (auto simp: takeWhile_append)
  qed
qed simp

section \<open>Field extraction\<close>

definition skip_blank :: "cstring \<Rightarrow> cstring" where
  "skip_blank s = dropWhile (\<lambda>c. c = CHR '' '' \<or> c = TAB) s"

definition json_str :: "cstring \<Rightarrow> cstring \<Rightarrow> nat \<Rightarrow> cstring option" where
  "json_str json key outlen =
     (let pat = fit 128 (DQ # key @ [DQ]) in
      case strstr json pat of
        None \<Rightarrow> None
      | Some k \<Rightarrow>
          (let p = skip_blank (drop (k + length pat) json) in
           if p = [] \<or> hd p \<noteq> CHR '':'' then None
           else
             (let v = skip_blank (tl p) in
              if v \<noteq> [] \<and> hd v = DQ
              then Some (fit outlen (takeWhile (\<lambda>c. c \<noteq> DQ) (tl v)))
              else Some (fit outlen
                     (takeWhile (\<lambda>c. c \<noteq> CHR '','' \<and> c \<noteq> CHR ''}'' \<and> c \<noteq> NL) v)))))"

lemma json_str_length [len_bounds]: "json_str json key n = Some v \<Longrightarrow> length v \<le> n - 1"
  using length_fit [of n]
  by (auto simp: json_str_def Let_def simp del: One_nat_def split: option.splits if_splits)

lemma json_str_member:
  assumes "strstr json (DQ # key @ [DQ]) = Some (length pre)" "length key + 2 < 128"
    "json = pre @ (DQ # key @ [DQ]) @ CHR '':'' # DQ # v @ DQ # post" "DQ \<notin> set v"
  shows "json_str json key n = Some (fit n v)"
proof -
  have pat: "fit 128 (DQ # key @ [DQ]) = DQ # key @ [DQ]"
    using assms(2) by (simp add: fit_id)
  have "drop (length pre + length (DQ # key @ [DQ])) json = CHR '':'' # DQ # v @ DQ # post"
    by (simp add: assms(3))
  moreover have "takeWhile (\<lambda>c. c \<noteq> DQ) (v @ DQ # post) = v"
    using assms(4) by (induction v) auto
  ultimately show ?thesis
    using assms(1) unfolding json_str_def pat
    by (simp add: skip_blank_def) (simp add: DQ_def TAB_def)
qed

end
