(* ===== verification/Job_Table.thy ===== *)
theory Job_Table
  imports Json_Text
begin

text \<open>
  The background-job table of \<^verbatim>\<open>aishell_main.c\<close>: \<open>job_table[MAX_JOBS]\<close> with \<open>job_count\<close>, every
  operation that takes \<open>job_table_mutex\<close>, and the three accessors of \<^verbatim>\<open>jobs_api.h\<close>. Each
  definition is one critical section (or one function whose critical sections are separate
  arguments where it unlocks in between), so that an interleaving of threads is a sequence of
  them. The kernel's answers (\<open>waitpid\<close>, \<open>kill\<close>) are arguments.
\<close>

section \<open>State\<close>

definition MAX_JOBS :: nat where "MAX_JOBS = 64"

datatype job_status = JOB_RUNNING | JOB_DONE | JOB_STOPPED
datatype job_type = JOB_TYPE_NONE | JOB_TYPE_PROCESS | JOB_TYPE_THREAD

record job =
  id :: nat
  job_type :: job_type
  pid :: int
  tid :: nat
  command :: cstring
  status :: job_status
  exit_code :: int

record jobs =
  job_table :: "job list"
  job_count :: nat

definition empty_job :: job where
  "empty_job = \<lparr>id = 0, job_type = JOB_TYPE_NONE, pid = 0, tid = 0, command = [],
     status = JOB_RUNNING, exit_code = 0\<rparr>"

definition init_jobs :: jobs where
  "init_jobs = \<lparr>job_table = replicate MAX_JOBS empty_job, job_count = 0\<rparr>"

definition is_free :: "job \<Rightarrow> bool" where
  [shell_defs]: "is_free j \<longleftrightarrow> job_type j = JOB_TYPE_NONE"

definition is_process :: "job \<Rightarrow> bool" where
  [shell_defs]: "is_process j \<longleftrightarrow> job_type j = JOB_TYPE_PROCESS"

definition is_thread :: "job \<Rightarrow> bool" where
  [shell_defs]: "is_thread j \<longleftrightarrow> job_type j = JOB_TYPE_THREAD"

text \<open>Overwrite the first slot that satisfies a test.\<close>

definition upd_first :: "(job \<Rightarrow> bool) \<Rightarrow> (job \<Rightarrow> job) \<Rightarrow> jobs \<Rightarrow> jobs" where
  "upd_first P f js = (case first_idx P (job_table js) of
      None \<Rightarrow> js
    | Some i \<Rightarrow> js\<lparr>job_table := (job_table js)[i := f (job_table js ! i)]\<rparr>)"

section \<open>Operations\<close>

text \<open>The wait status of a child, and the shell's exit code for it.\<close>

datatype wstatus = Exited int | Signalled int

fun wait_code :: "wstatus \<Rightarrow> int" where
  "wait_code (Exited c) = c"
| "wait_code (Signalled s) = 128 + s"

datatype wait_result = StillRunning | Reaped wstatus | NoChild | WaitError

definition jobs_add :: "int \<Rightarrow> cstring \<Rightarrow> jobs \<Rightarrow> int \<times> jobs" where
  "jobs_add p cmdstr js = (case first_idx is_free (job_table js) of
      None \<Rightarrow> (-1, js)
    | Some i \<Rightarrow> (int (Suc (job_count js)),
        js\<lparr>job_count := Suc (job_count js),
           job_table := (job_table js)[i := \<lparr>id = Suc (job_count js), job_type = JOB_TYPE_PROCESS,
             pid = p, tid = 0, command = fit 256 cmdstr, status = JOB_RUNNING, exit_code = 0\<rparr>]\<rparr>))"

definition jobs_reserve_thread_slot :: "cstring \<Rightarrow> jobs \<Rightarrow> int \<times> jobs" where
  "jobs_reserve_thread_slot cmdstr js = (case first_idx is_free (job_table js) of
      None \<Rightarrow> (-1, js)
    | Some i \<Rightarrow> (int (Suc (job_count js)),
        js\<lparr>job_count := Suc (job_count js),
           job_table := (job_table js)[i := \<lparr>id = Suc (job_count js), job_type = JOB_TYPE_THREAD,
             pid = 0, tid = 0, command = fit 256 cmdstr, status = JOB_RUNNING, exit_code = 0\<rparr>]\<rparr>))"

definition jobs_set_thread_tid :: "nat \<Rightarrow> nat \<Rightarrow> jobs \<Rightarrow> jobs" where
  "jobs_set_thread_tid jid t = upd_first (\<lambda>j. is_thread j \<and> id j = jid) (\<lambda>j. j\<lparr>tid := t\<rparr>)"

definition jobs_mark_done :: "int \<Rightarrow> int \<Rightarrow> jobs \<Rightarrow> jobs" where
  "jobs_mark_done p code = upd_first (\<lambda>j. is_process j \<and> pid j = p)
     (\<lambda>j. j\<lparr>status := JOB_DONE, exit_code := code\<rparr>)"

text \<open>The reaper's drain loop: one \<open>jobs_mark_done\<close> per child \<open>waitpid(-1)\<close> returns.\<close>

definition reaper_drain :: "(int \<times> wstatus) list \<Rightarrow> jobs \<Rightarrow> jobs" where
  "reaper_drain cs = fold (\<lambda>(p, ws). jobs_mark_done p (wait_code ws)) cs"

text \<open>The cleanup handler of a background built-in thread.\<close>

definition bg_builtin_cleanup :: "nat \<Rightarrow> int \<Rightarrow> jobs \<Rightarrow> jobs" where
  "bg_builtin_cleanup jid result js = (if 0 < jid
     then upd_first (\<lambda>j. is_thread j \<and> id j = jid)
            (\<lambda>j. j\<lparr>status := JOB_DONE, exit_code := result\<rparr>) js
     else js)"

text \<open>Giving a reserved slot back when \<open>pthread_create\<close> fails.\<close>

definition release_slot :: "nat \<Rightarrow> jobs \<Rightarrow> jobs" where
  "release_slot jid js = js\<lparr>job_table :=
     map (\<lambda>j. if id j = jid then j\<lparr>job_type := JOB_TYPE_NONE\<rparr> else j) (job_table js)\<rparr>"

text \<open>
  \<open>jobs_print_and_prune\<close>, slot by slot: the poll of a running process, the printed line, the
  tid to join later, the freed slot.
\<close>

definition poll_slot :: "wait_result \<Rightarrow> job \<Rightarrow> job" where
  "poll_slot w j = (if is_process j \<and> status j = JOB_RUNNING
     then (case w of
             Reaped ws \<Rightarrow> j\<lparr>status := JOB_DONE, exit_code := wait_code ws\<rparr>
           | NoChild \<Rightarrow> j\<lparr>status := JOB_DONE\<rparr>
           | _ \<Rightarrow> j)
     else j)"

definition job_label :: "job \<Rightarrow> cstring" where
  "job_label j = (case status j of
      JOB_RUNNING \<Rightarrow> ''Running''
    | JOB_STOPPED \<Rightarrow> ''Stopped''
    | JOB_DONE \<Rightarrow> ''Done('' @ show_int (exit_code j) @ '')'')"

definition job_line :: "job \<Rightarrow> cstring" where
  "job_line j = ''['' @ show_nat (id j) @ '']  '' @ pad_right 10 (fit 16 (job_label j)) @ '' ''
     @ pad_right 8 (if is_thread j then ''Thread'' else ''Process'') @ '' ''
     @ command j @ '' &'' @ [NL]"

definition prune_slot :: "wait_result \<Rightarrow> job \<Rightarrow> cstring list \<times> nat list \<times> job" where
  "prune_slot w j =
     (if is_free j then ([], [], j)
      else
        let j' = poll_slot w j in
        if status j' = JOB_DONE
        then ([job_line j'], (if is_thread j' \<and> tid j' \<noteq> 0 then [tid j'] else []),
              j'\<lparr>job_type := JOB_TYPE_NONE\<rparr>)
        else ([job_line j'], [], j'))"

fun prune_go :: "(nat \<Rightarrow> wait_result) \<Rightarrow> nat \<Rightarrow> job list \<Rightarrow> cstring list \<times> nat list \<times> job list" where
  "prune_go w i [] = ([], [], [])"
| "prune_go w i (j # js) =
     (case prune_slot (w i) j of (out, joins, j') \<Rightarrow>
      case prune_go w (Suc i) js of (outs, joinss, js') \<Rightarrow>
        (out @ outs, joins @ joinss, j' # js'))"

definition jobs_print_and_prune ::
  "(nat \<Rightarrow> wait_result) \<Rightarrow> jobs \<Rightarrow> cstring list \<times> nat list \<times> jobs" where
  "jobs_print_and_prune w js = (case prune_go w 0 (job_table js) of
     (out, joins, t) \<Rightarrow> (out, joins, js\<lparr>job_table := t\<rparr>))"

section \<open>The \<open>proc.*\<close> accessors and the \<open>kill\<close> built-in\<close>

definition status_name :: "job_status \<Rightarrow> cstring" where
  "status_name s = (case s of JOB_RUNNING \<Rightarrow> ''running'' | JOB_STOPPED \<Rightarrow> ''stopped''
     | JOB_DONE \<Rightarrow> ''done'')"

definition proc_entry :: "bool \<Rightarrow> job \<Rightarrow> cstring" where
  "proc_entry is_first j =
     (if is_first then '''' else '','') @ ''{'' @ DQ # ''job_id'' @ DQ # '':'' @ show_nat (id j)
     @ '','' @ DQ # ''pid'' @ DQ # '':'' @ show_int (pid j)
     @ '','' @ DQ # ''command'' @ DQ # '':'' @ DQ # job_escape_json (command j) 512 @ [DQ]
     @ '','' @ DQ # ''state'' @ DQ # '':'' @ DQ # status_name (status j) @ [DQ]
     @ '','' @ DQ # ''type'' @ DQ # '':'' @ DQ #
         (if is_process j then ''process'' else ''thread'') @ [DQ]
     @ '','' @ DQ # ''exit_code'' @ DQ # '':'' @ show_int (exit_code j) @ ''}''"

text \<open>\<open>off + elen + 4 < bufsz\<close> decides whether an entry still fits.\<close>

fun proc_list_go :: "nat \<Rightarrow> bool \<Rightarrow> cstring \<Rightarrow> job list \<Rightarrow> cstring" where
  "proc_list_go bufsz is_first buf [] = buf"
| "proc_list_go bufsz is_first buf (j # js) =
     (if is_free j then proc_list_go bufsz is_first buf js
      else if length buf + length (proc_entry is_first j) + 4 < bufsz
      then proc_list_go bufsz False (buf @ proc_entry is_first j) js
      else proc_list_go bufsz is_first buf js)"

definition proc_list_json :: "nat \<Rightarrow> jobs \<Rightarrow> cstring" where
  "proc_list_json bufsz js = proc_list_go bufsz True ''['' (job_table js) @ '']''"

definition SIGHUP :: int where "SIGHUP = 1"
definition SIGINT :: int where "SIGINT = 2"
definition SIGKILL :: int where "SIGKILL = 9"
definition SIGTERM :: int where "SIGTERM = 15"
definition SIGCONT :: int where "SIGCONT = 18"
definition SIGSTOP :: int where "SIGSTOP = 19"

definition signame_to_num :: "cstring \<Rightarrow> int" where
  "signame_to_num name =
     (if name = [] then SIGTERM
      else if name = ''SIGKILL'' \<or> name = ''9'' then SIGKILL
      else if name = ''SIGINT'' \<or> name = ''2'' then SIGINT
      else if name = ''SIGSTOP'' \<or> name = ''19'' then SIGSTOP
      else if name = ''SIGCONT'' \<or> name = ''18'' then SIGCONT
      else if name = ''SIGHUP'' \<or> name = ''1'' then SIGHUP
      else SIGTERM)"

text \<open>What \<open>proc_kill_json\<close> does: refuse, or signal one pid.\<close>

datatype kill_outcome = KillThread | KillNoJob | KillSend int int

definition proc_kill_json :: "int \<Rightarrow> cstring \<Rightarrow> jobs \<Rightarrow> kill_outcome" where
  "proc_kill_json jid signal_name js =
     (case find (\<lambda>j. \<not> is_free j \<and> int (id j) = jid) (job_table js) of
        None \<Rightarrow> KillNoJob
      | Some j \<Rightarrow>
          if is_thread j then KillThread
          else if pid j < 0 then KillNoJob
          else KillSend (pid j) (signame_to_num signal_name))"

text \<open>
  \<open>proc_wait_json\<close> has two critical sections. The first decides; the second, after a blocking
  \<open>waitpid\<close> during which other threads run, sees the table \<open>js2\<close> they left.
\<close>

datatype wait_decision = WaitNoJob | WaitThread | WaitDone int | WaitBlock int

definition proc_wait_begin :: "int \<Rightarrow> jobs \<Rightarrow> wait_decision" where
  "proc_wait_begin jid js =
     (case find (\<lambda>j. \<not> is_free j \<and> int (id j) = jid) (job_table js) of
        None \<Rightarrow> WaitNoJob
      | Some j \<Rightarrow>
          if is_thread j then WaitThread
          else if status j = JOB_DONE then WaitDone (exit_code j)
          else WaitBlock (pid j))"

definition proc_wait_finish :: "int \<Rightarrow> wait_result \<Rightarrow> jobs \<Rightarrow> int \<times> jobs" where
  "proc_wait_finish jid w js2 =
     (case w of
        Reaped ws \<Rightarrow> (wait_code ws,
          upd_first (\<lambda>j. int (id j) = jid)
            (\<lambda>j. j\<lparr>status := JOB_DONE, exit_code := wait_code ws\<rparr>) js2)
      | NoChild \<Rightarrow> ((case find (\<lambda>j. int (id j) = jid) (job_table js2) of
            None \<Rightarrow> 0 | Some j \<Rightarrow> exit_code j), js2)
      | _ \<Rightarrow> (0, js2))"

text \<open>
  The \<open>kill\<close> built-in. \<open>Inl\<close> carries the exit status of a call that is refused before
  \<open>kill(2)\<close>; \<open>Inr (p, s)\<close> is the call \<open>kill(p, s)\<close>.
\<close>

definition kill_target :: "cstring \<Rightarrow> jobs \<Rightarrow> int option" where
  "kill_target target js =
     (if target \<noteq> [] \<and> hd target = CHR ''%''
      then (case strtol (tl target) of (jid, rest) \<Rightarrow>
              if rest \<noteq> [] \<or> jid \<le> 0 then None
              else (case find (\<lambda>j. pid j \<noteq> 0 \<and> int (id j) = to_int jid) (job_table js) of
                      None \<Rightarrow> None
                    | Some j \<Rightarrow> if pid j = -1 then None else Some (pid j)))
      else (case strtol target of (p, rest) \<Rightarrow>
              if rest \<noteq> [] \<or> p \<le> 0 then None else Some (to_int p)))"

definition lsh_kill :: "cstring list \<Rightarrow> jobs \<Rightarrow> int + (int \<times> int)" where
  "lsh_kill argv js =
     (if length argv < 2 then Inl 1
      else if argv ! 1 \<noteq> [] \<and> hd (argv ! 1) = CHR ''-'' \<and> 3 \<le> length argv
      then (case strtol (tl (argv ! 1)) of (s, rest) \<Rightarrow>
              if rest = [] \<and> 0 < s \<and> s < 64
              then (case kill_target (argv ! 2) js of None \<Rightarrow> Inl 1 | Some p \<Rightarrow> Inr (p, s))
              else Inl 1)
      else (case kill_target (argv ! 1) js of None \<Rightarrow> Inl 1 | Some p \<Rightarrow> Inr (p, SIGTERM)))"

text \<open>The tids \<open>lsh_exit\<close> cancels and joins: every thread slot with a tid, done or not.\<close>

definition exit_tids :: "jobs \<Rightarrow> nat list" where
  "exit_tids js = map tid (filter (\<lambda>j. is_thread j \<and> tid j \<noteq> 0) (job_table js))"

section \<open>The table as a state machine\<close>

text \<open>Every critical section that writes the table, as an event.\<close>

datatype job_event =
    EvAdd int cstring
  | EvReserve cstring
  | EvSetTid nat nat
  | EvReap "(int \<times> wstatus) list"
  | EvCleanup nat int
  | EvRelease nat
  | EvPrune "nat \<Rightarrow> wait_result"
  | EvWait int wait_result

fun job_step :: "job_event \<Rightarrow> jobs \<Rightarrow> jobs" where
  "job_step (EvAdd p c) js = snd (jobs_add p c js)"
| "job_step (EvReserve c) js = snd (jobs_reserve_thread_slot c js)"
| "job_step (EvSetTid n t) js = jobs_set_thread_tid n t js"
| "job_step (EvReap cs) js = reaper_drain cs js"
| "job_step (EvCleanup n r) js = bg_builtin_cleanup n r js"
| "job_step (EvRelease n) js = release_slot n js"
| "job_step (EvPrune w) js = snd (snd (jobs_print_and_prune w js))"
| "job_step (EvWait n w) js = snd (proc_wait_finish n w js)"

text \<open>
  The invariant: 64 slots, identifiers not above the counter, non-zero identifiers at different
  slots different (freed slots keep theirs), every live slot numbered, thread slots without pid.
\<close>

definition jobs_wf :: "jobs \<Rightarrow> bool" where
  "jobs_wf js \<longleftrightarrow>
     length (job_table js) = MAX_JOBS \<and>
     (\<forall>j\<in>set (job_table js). id j \<le> job_count js \<and> (\<not> is_free j \<longrightarrow> 0 < id j)
        \<and> (is_thread j \<longrightarrow> pid j = 0)) \<and>
     (\<forall>i<MAX_JOBS. \<forall>k<MAX_JOBS. i \<noteq> k \<longrightarrow> id (job_table js ! i) \<noteq> 0 \<longrightarrow>
        id (job_table js ! i) \<noteq> id (job_table js ! k))"

text \<open>The client's view: the live job with a given number.\<close>

definition lookup_job :: "jobs \<Rightarrow> nat \<Rightarrow> job option" where
  "lookup_job js n = find (\<lambda>j. \<not> is_free j \<and> id j = n) (job_table js)"

lemma jobs_wf_init: "jobs_wf init_jobs"
  by (auto simp: jobs_wf_def init_jobs_def empty_job_def is_free_def is_thread_def MAX_JOBS_def)

lemma jobs_wfD:
  assumes "jobs_wf js"
  shows "length (job_table js) = MAX_JOBS"
    and "i < MAX_JOBS \<Longrightarrow> id (job_table js ! i) \<le> job_count js"
    and "i < MAX_JOBS \<Longrightarrow> \<not> is_free (job_table js ! i) \<Longrightarrow> 0 < id (job_table js ! i)"
    and "i < MAX_JOBS \<Longrightarrow> is_thread (job_table js ! i) \<Longrightarrow> pid (job_table js ! i) = 0"
    and "i < MAX_JOBS \<Longrightarrow> k < MAX_JOBS \<Longrightarrow> id (job_table js ! i) = id (job_table js ! k) \<Longrightarrow>
      0 < id (job_table js ! i) \<Longrightarrow> i = k"
proof -
  show "i < MAX_JOBS \<Longrightarrow> k < MAX_JOBS \<Longrightarrow> id (job_table js ! i) = id (job_table js ! k) \<Longrightarrow>
      0 < id (job_table js ! i) \<Longrightarrow> i = k"
    using assms unfolding jobs_wf_def by (metis less_numeral_extra(3))
qed (use assms in \<open>auto simp: jobs_wf_def\<close>)

text \<open>The invariant by index, the form its proofs use.\<close>

lemma jobs_wfI:
  assumes "length (job_table js) = MAX_JOBS"
    and "\<And>i. i < MAX_JOBS \<Longrightarrow> id (job_table js ! i) \<le> job_count js
      \<and> (\<not> is_free (job_table js ! i) \<longrightarrow> 0 < id (job_table js ! i))
      \<and> (is_thread (job_table js ! i) \<longrightarrow> pid (job_table js ! i) = 0)"
    and "\<And>i k. i < MAX_JOBS \<Longrightarrow> k < MAX_JOBS \<Longrightarrow> i \<noteq> k \<Longrightarrow> id (job_table js ! i) \<noteq> 0 \<Longrightarrow>
      id (job_table js ! i) \<noteq> id (job_table js ! k)"
  shows "jobs_wf js"
  unfolding jobs_wf_def using assms by (metis in_set_conv_nth)

text \<open>Rewriting slots without touching their numbers, types (freeing apart) and pids.\<close>

lemma jobs_wf_slotwise:
  assumes wf: "jobs_wf js" and len: "length t = MAX_JOBS"
    and same: "\<And>i. i < MAX_JOBS \<Longrightarrow> id (t ! i) = id (job_table js ! i)
      \<and> pid (t ! i) = pid (job_table js ! i)
      \<and> (job_type (t ! i) = job_type (job_table js ! i) \<or> is_free (t ! i))"
  shows "jobs_wf (js\<lparr>job_table := t\<rparr>)"
proof (rule jobs_wfI)
  let ?js' = "js\<lparr>job_table := t\<rparr>"
  fix i assume i: "i < MAX_JOBS"
  have "is_thread (t ! i) \<Longrightarrow> is_thread (job_table js ! i)"
    "\<not> is_free (t ! i) \<Longrightarrow> \<not> is_free (job_table js ! i)"
    using same [OF i] by (auto simp: is_thread_def is_free_def)
  then show "id (job_table ?js' ! i) \<le> job_count ?js'
      \<and> (\<not> is_free (job_table ?js' ! i) \<longrightarrow> 0 < id (job_table ?js' ! i))
      \<and> (is_thread (job_table ?js' ! i) \<longrightarrow> pid (job_table ?js' ! i) = 0)"
    using same [OF i] jobs_wfD [OF wf] i by simp
qed (use assms in \<open>auto simp: jobs_wf_def\<close>)

lemma jobs_wf_upd_first:
  assumes "jobs_wf js" "\<And>j. id (f j) = id j \<and> pid (f j) = pid j \<and> job_type (f j) = job_type j"
  shows "jobs_wf (upd_first P f js)"
proof (cases "first_idx P (job_table js)")
  case (Some i)
  then show ?thesis
    unfolding upd_first_def using assms jobs_wfD(1) [OF assms(1)]
    by (auto intro!: jobs_wf_slotwise simp: nth_list_update)
qed (use assms in \<open>simp add: upd_first_def\<close>)

lemma jobs_wf_new:
  assumes wf: "jobs_wf js" and i: "first_idx is_free (job_table js) = Some i"
    and j: "id j = Suc (job_count js)" "is_thread j \<longrightarrow> pid j = 0"
  shows "jobs_wf (js\<lparr>job_count := Suc (job_count js), job_table := (job_table js)[i := j]\<rparr>)"
proof (rule jobs_wfI)
  let ?js' = "js\<lparr>job_count := Suc (job_count js), job_table := (job_table js)[i := j]\<rparr>"
  have il: "i < length (job_table js)" using i by auto
  show "id (job_table ?js' ! a) \<le> job_count ?js'
      \<and> (\<not> is_free (job_table ?js' ! a) \<longrightarrow> 0 < id (job_table ?js' ! a))
      \<and> (is_thread (job_table ?js' ! a) \<longrightarrow> pid (job_table ?js' ! a) = 0)"
    if "a < MAX_JOBS" for a
    using that il jobs_wfD [OF wf] j by (auto simp: nth_list_update le_SucI)
  show "id (job_table ?js' ! a) \<noteq> id (job_table ?js' ! b)"
    if ab: "a < MAX_JOBS" "b < MAX_JOBS" "a \<noteq> b" and nz: "id (job_table ?js' ! a) \<noteq> 0" for a b
  proof -
    have "id (job_table js ! a) \<noteq> Suc (job_count js)" "id (job_table js ! b) \<noteq> Suc (job_count js)"
      using jobs_wfD(2) [OF wf ab(1)] jobs_wfD(2) [OF wf ab(2)] by simp_all
    with nz show ?thesis
      using ab il jobs_wfD(5) [OF wf ab(1,2)] j(1) by (cases "a = i"; cases "b = i") auto
  qed
qed (simp add: jobs_wfD(1) [OF wf])

lemma jobs_wf_add: "jobs_wf js \<Longrightarrow> jobs_wf (snd (jobs_add p c js))"
  by (auto simp: jobs_add_def is_thread_def intro!: jobs_wf_new split: option.split)

lemma jobs_wf_reserve: "jobs_wf js \<Longrightarrow> jobs_wf (snd (jobs_reserve_thread_slot c js))"
  by (auto simp: jobs_reserve_thread_slot_def intro!: jobs_wf_new split: option.split)

lemma jobs_wf_mark: "jobs_wf js \<Longrightarrow> jobs_wf (jobs_mark_done p c js)"
  by (simp add: jobs_mark_done_def jobs_wf_upd_first)

lemma jobs_wf_reap: "jobs_wf js \<Longrightarrow> jobs_wf (reaper_drain cs js)"
  by (induction cs arbitrary: js) (auto simp: reaper_drain_def jobs_wf_mark split: prod.split)

lemma jobs_wf_release: "jobs_wf js \<Longrightarrow> jobs_wf (release_slot n js)"
  unfolding release_slot_def
  by (rule jobs_wf_slotwise) (auto simp: jobs_wfD(1) is_free_def)

lemma prune_slot_job:
  "snd (snd (prune_slot w j)) =
     (if is_free j then j
      else if status (poll_slot w j) = JOB_DONE then (poll_slot w j)\<lparr>job_type := JOB_TYPE_NONE\<rparr>
      else poll_slot w j)"
  by (simp add: prune_slot_def Let_def)

lemma poll_slot_keeps [simp]:
  "id (poll_slot w j) = id j" "pid (poll_slot w j) = pid j" "tid (poll_slot w j) = tid j"
  "job_type (poll_slot w j) = job_type j" "command (poll_slot w j) = command j"
  by (auto simp: poll_slot_def split: wait_result.split)

lemma prune_go_eq:
  "prune_go w i t =
     (concat (map (\<lambda>(k, j). fst (prune_slot (w k) j)) (enumerate i t)),
      concat (map (\<lambda>(k, j). fst (snd (prune_slot (w k) j))) (enumerate i t)),
      map (\<lambda>(k, j). snd (snd (prune_slot (w k) j))) (enumerate i t))"
  by (induction t arbitrary: i) (simp_all split: prod.split)

lemma prune_go_length: "length (snd (snd (prune_go w i t))) = length t"
  by (simp add: prune_go_eq)

lemma prune_go_nth:
  "k < length t \<Longrightarrow> snd (snd (prune_go w i t)) ! k = snd (snd (prune_slot (w (i + k)) (t ! k)))"
  by (simp add: prune_go_eq nth_enumerate_eq)

lemma prune_table:
  "job_table (snd (snd (jobs_print_and_prune w js))) = snd (snd (prune_go w 0 (job_table js)))"
  "job_count (snd (snd (jobs_print_and_prune w js))) = job_count js"
  by (simp_all add: jobs_print_and_prune_def split: prod.split)

lemma jobs_wf_prune: "jobs_wf js \<Longrightarrow> jobs_wf (snd (snd (jobs_print_and_prune w js)))"
proof -
  assume wf: "jobs_wf js"
  have "jobs_wf (js\<lparr>job_table := snd (snd (prune_go w 0 (job_table js)))\<rparr>)"
    using wf jobs_wfD(1) [OF wf]
    by (intro jobs_wf_slotwise) (auto simp: prune_go_length prune_go_nth prune_slot_job is_free_def)
  then show ?thesis
    by (auto simp: jobs_print_and_prune_def split: prod.split)
qed

lemma jobs_wf_step: "jobs_wf js \<Longrightarrow> jobs_wf (job_step e js)"
  by (cases e)
    (auto simp: jobs_wf_add jobs_wf_reserve jobs_set_thread_tid_def jobs_wf_upd_first jobs_wf_reap
      bg_builtin_cleanup_def jobs_wf_release jobs_wf_prune proc_wait_finish_def
      split: wait_result.split)

interpretation jobs: event_machine init_jobs job_step jobs_wf
  by unfold_locales (auto intro: jobs_wf_init jobs_wf_step)

section \<open>What the operations do to the live jobs\<close>

text \<open>C3: After any sequence of critical sections on the job table (add, reserve, set tid, reap,
  thread cleanup, release, print-and-prune, wait) it has 64 slots, identifiers bounded by the
  counter and distinct, live slots numbered and thread slots without pid.\<close>

theorem jobs_reachable_wf: "jobs_wf (fold job_step es init_jobs)"
  by (rule jobs.inv_reachable)

lemma lookup_job_iff:
  "jobs_wf js \<Longrightarrow>
    lookup_job js n = Some j \<longleftrightarrow> j \<in> set (job_table js) \<and> \<not> is_free j \<and> id j = n"
proof
  assume wf: "jobs_wf js" and "j \<in> set (job_table js) \<and> \<not> is_free j \<and> id j = n"
  then obtain i where i: "i < MAX_JOBS" "job_table js ! i = j" "\<not> is_free j" "id j = n"
    by (metis in_set_conv_nth jobs_wfD(1))
  then have "0 < n" using jobs_wfD(3) [OF wf, of i] by auto
  have "k = i" if "k < MAX_JOBS" "id (job_table js ! k) = n" for k
    using that i \<open>0 < n\<close> jobs_wfD(5) [OF wf, of k i] by simp
  then have "\<forall>k<i. \<not> (\<not> is_free (job_table js ! k) \<and> id (job_table js ! k) = n)"
    using i(1) by (metis less_irrefl less_trans)
  then show "lookup_job js n = Some j"
    unfolding lookup_job_def find_Some_iff
    using i jobs_wfD(1) [OF wf] by (intro exI [of _ i] conjI) simp_all
qed (auto simp: lookup_job_def find_Some_iff)

lemma lookup_job_nth:
  "jobs_wf js \<Longrightarrow>
    lookup_job js n = Some j \<longleftrightarrow> (\<exists>i<MAX_JOBS. job_table js ! i = j \<and> \<not> is_free j \<and> id j = n)"
  by (auto simp: lookup_job_iff in_set_conv_nth jobs_wfD(1))

text \<open>The job a successful \<open>jobs_add\<close> installs.\<close>

definition new_process :: "int \<Rightarrow> cstring \<Rightarrow> jobs \<Rightarrow> job" where
  "new_process p cmdstr js = \<lparr>id = Suc (job_count js), job_type = JOB_TYPE_PROCESS,
     pid = p, tid = 0, command = fit 256 cmdstr, status = JOB_RUNNING, exit_code = 0\<rparr>"

lemma lookup_job_new:
  assumes wf: "jobs_wf js" and i: "first_idx is_free (job_table js) = Some i"
    and j: "id j = Suc (job_count js)" "\<not> is_free j" "is_thread j \<longrightarrow> pid j = 0"
  shows "lookup_job (js\<lparr>job_count := Suc (job_count js), job_table := (job_table js)[i := j]\<rparr>) n =
     (if n = Suc (job_count js) then Some j else lookup_job js n)"
proof (rule option_eqI)
  fix x
  let ?js' = "js\<lparr>job_count := Suc (job_count js), job_table := (job_table js)[i := j]\<rparr>"
  have wf': "jobs_wf ?js'" using wf i j(1,3) by (rule jobs_wf_new)
  have il: "i < MAX_JOBS" and free: "is_free (job_table js ! i)"
    using i jobs_wfD(1) [OF wf] first_idx_holds [OF i] by auto
  have old: "id (job_table js ! k) \<noteq> Suc (job_count js)" if "k < MAX_JOBS" for k
    using jobs_wfD(2) [OF wf that] by simp
  have "lookup_job ?js' n = Some x \<longleftrightarrow> (\<exists>k<MAX_JOBS. (if k = i then j else job_table js ! k) = x
      \<and> \<not> is_free x \<and> id x = n)"
    using il jobs_wfD(1) [OF wf] by (auto simp: lookup_job_nth [OF wf'] nth_list_update)
  also have "\<dots> \<longleftrightarrow> (if n = Suc (job_count js) then Some j else lookup_job js n) = Some x"
    using il free old j by (simp add: lookup_job_nth [OF wf]) metis
  finally show "lookup_job ?js' n = Some x \<longleftrightarrow>
      (if n = Suc (job_count js) then Some j else lookup_job js n) = Some x" .
qed

theorem jobs_add_spec:
  assumes "jobs_wf js" and "jobs_add p cmdstr js = (r, js')"
  shows "if \<forall>j\<in>set (job_table js). \<not> is_free j
    then r = -1 \<and> js' = js
    else r = int (Suc (job_count js)) \<and> lookup_job js (Suc (job_count js)) = None
      \<and> lookup_job js' = (lookup_job js)(Suc (job_count js) \<mapsto> new_process p cmdstr js)"
proof (cases "first_idx is_free (job_table js)")
  case None
  then have "\<forall>j\<in>set (job_table js). \<not> is_free j" by (simp only: first_idx_None)
  with None show ?thesis using assms(2) by (simp add: jobs_add_def)
next
  case (Some i)
  have "lookup_job js (Suc (job_count js)) = None"
    using assms(1) by (auto simp: jobs_wf_def lookup_job_def find_None_iff)
  moreover have "lookup_job js' = (lookup_job js)(Suc (job_count js) \<mapsto> new_process p cmdstr js)"
    using assms(2) lookup_job_new [OF assms(1) Some, of "new_process p cmdstr js"] Some
    by (auto simp: fun_eq_iff jobs_add_def new_process_def is_free_def is_thread_def)
  ultimately show ?thesis
    using Some assms(2) first_idx_None [of is_free "job_table js"]
    by (auto simp: jobs_add_def)
qed

theorem jobs_add_spec_witness:
  "case jobs_add 4823 ''sleep 5'' init_jobs of (r, js') \<Rightarrow>
     r = 1 \<and> lookup_job js' = (lookup_job init_jobs)(1 \<mapsto> new_process 4823 ''sleep 5'' init_jobs)"
proof -
  have free: "\<not> (\<forall>j\<in>set (job_table init_jobs). \<not> is_free j)"
    by (auto simp: init_jobs_def empty_job_def is_free_def MAX_JOBS_def)
  obtain r js' where eq: "jobs_add 4823 ''sleep 5'' init_jobs = (r, js')" by force
  show ?thesis
    using jobs_add_spec [OF jobs_wf_init eq] free eq by (simp add: init_jobs_def)
qed

subsection \<open>Pruning\<close>

definition slot_of :: "jobs \<Rightarrow> nat \<Rightarrow> nat" where
  "slot_of js n = (case first_idx (\<lambda>j. \<not> is_free j \<and> id j = n) (job_table js) of
     None \<Rightarrow> MAX_JOBS | Some i \<Rightarrow> i)"

lemma slot_of_unique:
  assumes wf: "jobs_wf js" and i: "i < MAX_JOBS" "\<not> is_free (job_table js ! i)" "id (job_table js ! i) = n"
  shows "slot_of js n = i"
proof -
  have "n \<noteq> 0" using jobs_wfD(3) [OF wf i(1,2)] i(3) by simp
  have "job_table js ! i \<in> set (job_table js)" using i(1) jobs_wfD(1) [OF wf] by simp
  with i(2,3) have "first_idx (\<lambda>j. \<not> is_free j \<and> id j = n) (job_table js) \<noteq> None"
    unfolding first_idx_None by blast
  then obtain k where k: "first_idx (\<lambda>j. \<not> is_free j \<and> id j = n) (job_table js) = Some k"
    by blast
  with first_idx_Some [OF k] have "k = i"
    using jobs_wfD(5) [OF wf, of k i] jobs_wfD(1) [OF wf] i \<open>n \<noteq> 0\<close> by auto
  with k show ?thesis by (simp add: slot_of_def)
qed

theorem jobs_prune_spec:
  assumes wf: "jobs_wf js" and prune: "jobs_print_and_prune w js = (out, joins, js')"
  shows "lookup_job js' n = (case lookup_job js n of
       None \<Rightarrow> None
     | Some j \<Rightarrow> (let j' = poll_slot (w (slot_of js n)) j
                  in if status j' = JOB_DONE then None else Some j'))"
proof (rule option_eqI)
  fix x
  have js': "js' = snd (snd (jobs_print_and_prune w js))" using prune by simp
  have wf': "jobs_wf js'" unfolding js' by (rule jobs_wf_prune [OF wf])
  have nth: "job_table js' ! i = snd (snd (prune_slot (w i) (job_table js ! i)))" if "i < MAX_JOBS" for i
    using that by (simp add: js' prune_table prune_go_nth jobs_wfD(1) [OF wf])
  have live: "\<not> is_free (job_table js' ! i) \<and> job_table js' ! i = x \<and> id x = n \<longleftrightarrow>
      \<not> is_free (job_table js ! i) \<and> status (poll_slot (w i) (job_table js ! i)) \<noteq> JOB_DONE
      \<and> poll_slot (w i) (job_table js ! i) = x \<and> id (job_table js ! i) = n"
    if "i < MAX_JOBS" for i
    by (auto simp: nth [OF that] prune_slot_job is_free_def)
  have "lookup_job js' n = Some x \<longleftrightarrow>
      (\<exists>i<MAX_JOBS. \<not> is_free (job_table js ! i) \<and> status (poll_slot (w i) (job_table js ! i)) \<noteq> JOB_DONE
         \<and> poll_slot (w i) (job_table js ! i) = x \<and> id (job_table js ! i) = n)"
    unfolding lookup_job_nth [OF wf'] using live by (metis (no_types, lifting))
  also have "\<dots> \<longleftrightarrow> (\<exists>j. lookup_job js n = Some j
      \<and> status (poll_slot (w (slot_of js n)) j) \<noteq> JOB_DONE \<and> poll_slot (w (slot_of js n)) j = x)"
    unfolding lookup_job_nth [OF wf] using slot_of_unique [OF wf] by (metis (no_types, lifting))
  finally show "lookup_job js' n = Some x \<longleftrightarrow> (case lookup_job js n of
       None \<Rightarrow> None
     | Some j \<Rightarrow> (let j' = poll_slot (w (slot_of js n)) j
                  in if status j' = JOB_DONE then None else Some j')) = Some x"
    by (auto simp: Let_def split: option.splits)
qed

subsection \<open>Signals\<close>

lemma kill_target_percent:
  assumes wf: "jobs_wf js" and i: "i < MAX_JOBS" "id (job_table js ! i) = n" "0 < n" "n < 2147483648"
    and pid: "0 < pid (job_table js ! i)"
  shows "kill_target (CHR ''%'' # show_nat n) js = Some (pid (job_table js ! i))"
proof -
  have st: "strtol (show_nat n) = (int n, [])"
    using strtol_show_int [of "int n" "[]"] assms(5) by (simp add: LONG_MIN_def LONG_MAX_def show_int_def)
  have "find (\<lambda>j. pid j \<noteq> 0 \<and> int (id j) = to_int (int n)) (job_table js) = Some (job_table js ! i)"
    using i pid jobs_wfD(1) [OF wf] jobs_wfD(5) [OF wf]
    by (intro find_unique) (auto simp: to_int_id)
  then show ?thesis using st pid assms(4) by (simp add: kill_target_def)
qed

theorem lsh_kill_after_prune:
  assumes wf: "jobs_wf js" and live: "lookup_job js n = Some j" "is_process j" "status j = JOB_DONE"
    and range: "n < 2147483648" "0 < pid j"
    and prune: "jobs_print_and_prune w js = (out, joins, js')"
  shows "lookup_job js' n = None
    \<and> proc_kill_json (int n) sig js' = KillNoJob
    \<and> lsh_kill [''kill'', CHR ''%'' # show_nat n] js' = Inr (pid j, SIGTERM)"
proof (intro conjI)
  have js': "js' = snd (snd (jobs_print_and_prune w js))" using prune by simp
  have wf': "jobs_wf js'" unfolding js' by (rule jobs_wf_prune [OF wf])
  show gone: "lookup_job js' n = None"
    using jobs_prune_spec [OF wf prune, of n] live by (simp add: poll_slot_def)
  then show "proc_kill_json (int n) sig js' = KillNoJob"
    by (simp add: proc_kill_json_def lookup_job_def)
  obtain i where i: "i < MAX_JOBS" "job_table js ! i = j" "\<not> is_free j" "id j = n"
    using live(1) by (auto simp: lookup_job_nth [OF wf])
  have t: "id (job_table js' ! i) = n" "pid (job_table js' ! i) = pid j"
    using i by (auto simp: js' prune_table prune_go_nth prune_slot_job jobs_wfD(1) [OF wf])
  have "0 < n" using jobs_wfD(3) [OF wf, of i] i by auto
  then show "lsh_kill [''kill'', CHR ''%'' # show_nat n] js' = Inr (pid j, SIGTERM)"
    using kill_target_percent [OF wf' i(1) t(1)] range t by (simp add: lsh_kill_def)
qed

theorem proc_entry_fits:
  assumes "id j < 2147483648" "-2147483648 \<le> pid j" "pid j < 2147483648"
    "-2147483648 \<le> exit_code j" "exit_code j < 2147483648"
  shows "length (proc_entry is_first j) < 640"
proof -
  have "length (job_escape_json (command j) 512) < 510"
    using json_escape_length [of 512] by (simp add: job_escape_eq)
  moreover have "length (show_nat (id j)) \<le> 10" using assms by (intro length_show_nat) auto
  moreover have "length (show_int (pid j)) \<le> Suc 10" using assms by (intro length_show_int) auto
  moreover have "length (show_int (exit_code j)) \<le> Suc 10" using assms by (intro length_show_int) auto
  moreover have "length (status_name (status j)) \<le> 7" by (simp add: status_name_def split: job_status.split)
  ultimately show ?thesis by (simp add: proc_entry_def)
qed

lemma upd_first_at: "first_idx P (job_table js) = Some i \<Longrightarrow>
    upd_first P f js = js\<lparr>job_table := (job_table js)[i := f (job_table js ! i)]\<rparr>"
  by (simp add: upd_first_def)

theorem proc_wait_interleaving:
  assumes wf: "jobs_wf js" and live: "lookup_job js n = Some j" "is_process j"
    and block: "proc_wait_begin (int n) js = WaitBlock p"
    and uniq: "\<forall>k\<in>set (job_table js). is_process k \<and> pid k = p \<longrightarrow> k = j"
  shows "proc_wait_finish (int n) (Reaped ws) js = (wait_code ws, jobs_mark_done p (wait_code ws) js)
    \<and> proc_wait_finish (int n) NoChild (jobs_mark_done p (wait_code ws) js) =
           (wait_code ws, jobs_mark_done p (wait_code ws) js)"
proof (intro conjI)
  obtain i where i: "i < MAX_JOBS" "job_table js ! i = j" "\<not> is_free j" "id j = n"
    using live(1) by (auto simp: lookup_job_nth [OF wf])
  have il: "i < length (job_table js)" using i jobs_wfD(1) [OF wf] by simp
  have n: "0 < n" using jobs_wfD(3) [OF wf, of i] i by auto
  have p: "pid j = p"
    using block live by (simp add: proc_wait_begin_def lookup_job_def is_process_def is_thread_def split: if_splits)
  have only: "k = i" if "k < length (job_table js)" "id (job_table js ! k) = n" for k
    using jobs_wfD(5) [OF wf, of k i] that i n jobs_wfD(1) [OF wf] by simp
  have a: "first_idx (\<lambda>j. is_process j \<and> pid j = p) (job_table js) = Some i"
  proof (rule first_idx_unique)
    show "is_process (job_table js ! i) \<and> pid (job_table js ! i) = p" using i p live(2) by simp
    fix k assume k: "k < length (job_table js)" "is_process (job_table js ! k) \<and> pid (job_table js ! k) = p"
    have "job_table js ! k \<in> set (job_table js)" using k(1) by simp
    then have "job_table js ! k = j" using uniq k(2) by simp
    with only [OF k(1)] i(4) show "k = i" by simp
  qed (rule il)
  have b: "first_idx (\<lambda>j. int (id j) = int n) (job_table js) = Some i"
  proof (rule first_idx_unique)
    show "k = i" if "k < length (job_table js)" "int (id (job_table js ! k)) = int n" for k
      using only [of k] that by simp
  qed (use il i in simp_all)
  let ?js2 = "jobs_mark_done p (wait_code ws) js"
  have js2: "?js2 = js\<lparr>job_table := (job_table js)[i := j\<lparr>status := JOB_DONE, exit_code := wait_code ws\<rparr>]\<rparr>"
    using upd_first_at [OF a] i(2) by (simp add: jobs_mark_done_def)
  show "proc_wait_finish (int n) (Reaped ws) js = (wait_code ws, ?js2)"
    using upd_first_at [OF b] i(2) by (simp add: proc_wait_finish_def js2)
  have f: "find (\<lambda>j. int (id j) = int n) (job_table ?js2) = Some (job_table ?js2 ! i)"
  proof (rule find_unique)
    fix k assume k: "k < length (job_table ?js2)" "int (id (job_table ?js2 ! k)) = int n"
    show "k = i"
    proof (rule ccontr)
      assume "k \<noteq> i"
      with k have "k < length (job_table js)" "id (job_table js ! k) = n" by (simp_all add: js2)
      with only \<open>k \<noteq> i\<close> show False by blast
    qed
  qed (use il i in \<open>simp_all add: js2\<close>)
  have "exit_code (job_table ?js2 ! i) = wait_code ws" using il by (simp add: js2)
  with f show "proc_wait_finish (int n) NoChild ?js2 = (wait_code ws, ?js2)"
    by (simp only: proc_wait_finish_def wait_result.case option.case)
qed

theorem proc_entry_fits_witness: "length (proc_entry True (new_process 4823 ''sleep 5'' init_jobs)) < 640"
  by (rule proc_entry_fits) (simp_all add: new_process_def init_jobs_def)

definition one_done :: jobs where
  "one_done = jobs_mark_done 4823 0 (snd (jobs_add 4823 ''true'' init_jobs))"

lemma one_done_eval:
  "one_done = \<lparr>job_table = \<lparr>id = 1, job_type = JOB_TYPE_PROCESS, pid = 4823, tid = 0,
      command = ''true'', status = JOB_DONE, exit_code = 0\<rparr> # replicate 63 empty_job, job_count = 1\<rparr>"
proof -
  have "replicate 64 empty_job = empty_job # replicate 63 empty_job" by (simp add: replicate_Suc [symmetric])
  then show ?thesis
    by (simp add: one_done_def init_jobs_def MAX_JOBS_def jobs_add_def jobs_mark_done_def upd_first_def
      is_free_def is_process_def empty_job_def fit_def)
qed

lemma one_done_wf: "jobs_wf one_done"
  unfolding one_done_def by (intro jobs_wf_mark jobs_wf_add jobs_wf_init)

theorem lsh_kill_after_prune_witness:
  "case jobs_print_and_prune (\<lambda>_. StillRunning) one_done of (out, joins, js') \<Rightarrow>
     lsh_kill [''kill'', ''%1''] js' = Inr (4823, SIGTERM)"
proof -
  let ?j = "hd (job_table one_done)"
  have j: "lookup_job one_done 1 = Some ?j" "is_process ?j" "status ?j = JOB_DONE" "pid ?j = 4823"
    by (simp_all add: lookup_job_def one_done_eval is_free_def is_process_def)
  obtain out joins js' where p: "jobs_print_and_prune (\<lambda>_. StillRunning) one_done = (out, joins, js')"
    by (metis surj_pair)
  have s: "show_nat 1 = ''1''" "show_nat (Suc 0) = ''1''" by code_simp+
  show ?thesis
    using lsh_kill_after_prune [OF one_done_wf j(1-3) _ _ p] j(4) p s by simp
qed

definition one_running :: jobs where
  "one_running = snd (jobs_add 4823 ''true'' init_jobs)"

lemma one_running_eval:
  "one_running = \<lparr>job_table = \<lparr>id = 1, job_type = JOB_TYPE_PROCESS, pid = 4823, tid = 0,
      command = ''true'', status = JOB_RUNNING, exit_code = 0\<rparr> # replicate 63 empty_job, job_count = 1\<rparr>"
proof -
  have "replicate 64 empty_job = empty_job # replicate 63 empty_job" by (simp add: replicate_Suc [symmetric])
  then show ?thesis
    by (simp add: one_running_def init_jobs_def MAX_JOBS_def jobs_add_def is_free_def empty_job_def fit_def)
qed

theorem proc_wait_interleaving_witness:
  "fst (proc_wait_finish 1 (Reaped (Signalled 9)) one_running) = 137
   \<and> fst (proc_wait_finish 1 NoChild (jobs_mark_done 4823 137 one_running)) = 137"
proof -
  have wf: "jobs_wf one_running" unfolding one_running_def by (intro jobs_wf_add jobs_wf_init)
  let ?j = "hd (job_table one_running)"
  have j: "lookup_job one_running 1 = Some ?j" "is_process ?j"
    "\<forall>k\<in>set (job_table one_running). is_process k \<and> pid k = 4823 \<longrightarrow> k = ?j"
    by (simp_all add: lookup_job_def one_running_eval is_free_def is_process_def empty_job_def)
  have b: "proc_wait_begin (int 1) one_running = WaitBlock 4823"
    by (simp add: proc_wait_begin_def one_running_eval is_free_def is_thread_def)
  show ?thesis using proc_wait_interleaving [OF wf j(1,2) b j(3), of "Signalled 9"] by simp
qed

theorem jobs_prune_spec_witness:
  "case jobs_print_and_prune (\<lambda>_. Reaped (Exited 3)) one_running of (out, joins, js') \<Rightarrow>
     lookup_job js' 1 = None"
proof -
  have wf: "jobs_wf one_running" unfolding one_running_def by (intro jobs_wf_add jobs_wf_init)
  obtain out joins js' where p: "jobs_print_and_prune (\<lambda>_. Reaped (Exited 3)) one_running = (out, joins, js')"
    by (metis surj_pair)
  show ?thesis
    using jobs_prune_spec [OF wf p, of 1] p
    by (simp add: lookup_job_def one_running_eval is_free_def poll_slot_def is_process_def)
qed

end
