(* ===== verification/Registry.thy ===== *)
theory Registry
  imports Prelude
begin

text \<open>
  The command registry (\<^verbatim>\<open>registry.c\<close>), the validation of suggested commands
  (\<^verbatim>\<open>validate.c\<close>) and the deterministic fallback of \<^verbatim>\<open>rag_retriever.c\<close>
  (\<open>heuristic_fallback_command\<close>). The registry is the array \<open>command_registry\<close> up to
  \<open>command_count\<close>; the \<open>run\<close> and \<open>print_usage\<close> pointers of a specification are not modelled.
  The clients reach the registry through the locale \<open>command_catalog\<close>.
\<close>

section \<open>The registry\<close>

definition MAX_COMMANDS :: nat where "MAX_COMMANDS = 64"

record cmd_spec =
  spec_name :: cstring
  summary :: "cstring option"
  long_help :: "cstring option"

definition register_command :: "cmd_spec \<Rightarrow> cmd_spec list \<Rightarrow> cmd_spec list" where
  "register_command spec reg = (if length reg < MAX_COMMANDS then reg @ [spec] else reg)"

definition find_command :: "cmd_spec list \<Rightarrow> cstring \<Rightarrow> cmd_spec option" where
  "find_command reg name = find (\<lambda>s. spec_name s = name) reg"

definition for_each_command :: "(cmd_spec \<Rightarrow> 'u \<Rightarrow> 'u) \<Rightarrow> cmd_spec list \<Rightarrow> 'u \<Rightarrow> 'u" where
  "for_each_command callback reg userdata = fold callback reg userdata"

text \<open>The part of a path after its last slash, and \<open>cmd_basename\<close>.\<close>

definition after_last :: "char \<Rightarrow> cstring \<Rightarrow> cstring" where
  "after_last c s = rev (takeWhile (\<lambda>d. d \<noteq> c) (rev s))"

definition cmd_basename :: "cstring \<Rightarrow> cstring" where
  "cmd_basename path = after_last (CHR ''/'') path"

lemma after_last_free: "c \<notin> set (after_last c s)"
proof
  assume "c \<in> set (after_last c s)"
  then have "c \<in> set (takeWhile (\<lambda>d. d \<noteq> c) (rev s))" by (simp add: after_last_def)
  from set_takeWhileD [OF this] show False by simp
qed

lemma after_last_id: "c \<notin> set s \<Longrightarrow> after_last c s = s"
  by (simp add: after_last_def)

lemma after_last_append: "c \<notin> set b \<Longrightarrow> after_last c (a @ c # b) = b"
  by (auto simp: after_last_def takeWhile_append takeWhile_eq_all_conv)

lemma find_command_name: "find_command reg n = Some s \<Longrightarrow> spec_name s = n"
  by (auto simp: find_command_def find_Some_iff)

lemma find_command_mem: "s \<in> set reg \<Longrightarrow> \<exists>s'. find_command reg (spec_name s) = Some s'"
proof -
  assume "s \<in> set reg"
  then have "find_command reg (spec_name s) \<noteq> None" by (auto simp: find_command_def find_None_iff)
  then show ?thesis by blast
qed

lemma find_command_register:
  "find_command (register_command s reg) n =
     (case find_command reg n of
        Some s' \<Rightarrow> Some s'
      | None \<Rightarrow> if length reg < MAX_COMMANDS \<and> spec_name s = n then Some s else None)"
  by (auto simp: register_command_def find_command_def find_append_cases split: option.splits)

section \<open>Validation of suggestions\<close>

datatype suggest_status =
  SUGGEST_OK | SUGGEST_EMPTY | SUGGEST_UNKNOWN_COMMAND | SUGGEST_MULTILINE_TRUNCATED

record validated =
  v_status :: suggest_status
  v_line :: cstring
  command_name :: cstring

definition blank :: "char \<Rightarrow> bool" where
  [shell_defs]: "blank c \<longleftrightarrow> c = CHR '' '' \<or> c = TAB"

definition trim_left :: "cstring \<Rightarrow> cstring" where
  "trim_left s = dropWhile blank s"

definition trim_right :: "cstring \<Rightarrow> cstring" where
  "trim_right s = rev (dropWhile blank (rev s))"

definition suggestion_token :: "cstring \<Rightarrow> cstring" where
  "suggestion_token line =
     (let tok = fit 64 (takeWhile (\<lambda>c. \<not> blank c) line); base = after_last (CHR ''/'') tok
      in if base = [] then tok else base)"

definition validate_suggestion :: "(cstring \<Rightarrow> 'a option) \<Rightarrow> cstring \<Rightarrow> validated" where
  "validate_suggestion catalog raw =
     (if raw = [] then \<lparr>v_status = SUGGEST_EMPTY, v_line = [], command_name = []\<rparr>
      else
        let copied = fit 1024 raw;
            multi = (NL \<in> set copied);
            line = trim_right (trim_left (takeWhile (\<lambda>c. c \<noteq> NL) copied)) in
        if line = [] then \<lparr>v_status = SUGGEST_EMPTY, v_line = [], command_name = []\<rparr>
        else
          let name = suggestion_token line in
          \<lparr>v_status = (if catalog name = None then SUGGEST_UNKNOWN_COMMAND
                       else if multi then SUGGEST_MULTILINE_TRUNCATED else SUGGEST_OK),
           v_line = line, command_name = name\<rparr>)"

lemma set_trim: "set (trim_right (trim_left s)) \<subseteq> set s"
  unfolding trim_right_def trim_left_def by (auto dest!: set_dropWhileD)

lemma length_trim [len_bounds]: "length (trim_right (trim_left s)) \<le> length s"
  unfolding trim_right_def trim_left_def
  by (metis length_dropWhile_le length_rev order_trans)

lemma trim_left_hd: "trim_left s \<noteq> [] \<Longrightarrow> \<not> blank (hd (trim_left s))"
  unfolding trim_left_def by (rule hd_dropWhile)

lemma trim_right_last: "trim_right s \<noteq> [] \<Longrightarrow> \<not> blank (last (trim_right s))"
  unfolding trim_right_def by (simp add: last_rev hd_dropWhile)

lemma trim_right_prefix: "prefix (trim_right s) s"
  unfolding trim_right_def by (metis rev_rev_ident suffix_dropWhile suffix_to_prefix)

lemma trim_ends:
  assumes "trim_right (trim_left s) \<noteq> []"
  shows "\<not> blank (hd (trim_right (trim_left s))) \<and> \<not> blank (last (trim_right (trim_left s)))"
proof
  let ?t = "trim_right (trim_left s)"
  from trim_right_prefix obtain z where z: "trim_left s = ?t @ z" by (metis prefix_def)
  then have "hd ?t = hd (trim_left s)" "trim_left s \<noteq> []" using assms by (metis hd_append2, auto)
  then show "\<not> blank (hd ?t)" using trim_left_hd by simp
  show "\<not> blank (last ?t)" using assms by (rule trim_right_last)
qed

lemma trim_id: "s \<noteq> [] \<Longrightarrow> \<not> blank (hd s) \<Longrightarrow> \<not> blank (last s) \<Longrightarrow> trim_right (trim_left s) = s"
proof -
  assume s: "s \<noteq> []" "\<not> blank (hd s)" "\<not> blank (last s)"
  then have "trim_left s = s" unfolding trim_left_def by (cases s) auto
  moreover have "dropWhile blank (rev s) = rev s"
    using s by (cases s rule: rev_cases) auto
  ultimately show ?thesis by (simp add: trim_right_def)
qed

text \<open>The line of a result, when there is one, is trimmed, single-line and short.\<close>

lemma validate_line:
  assumes "v_line (validate_suggestion catalog raw) = line" "line \<noteq> []"
  shows "NL \<notin> set line \<and> length line \<le> 1023 \<and> \<not> blank (hd line) \<and> \<not> blank (last line)
    \<and> set line \<subseteq> set raw"
proof -
  let ?first = "takeWhile (\<lambda>c. c \<noteq> NL) (fit 1024 raw)"
  have line: "line = trim_right (trim_left ?first)"
    using assms by (auto simp: validate_suggestion_def Let_def split: if_splits)
  have "set line \<subseteq> set ?first" unfolding line by (rule set_trim)
  moreover have "NL \<notin> set ?first" by (auto dest: set_takeWhileD)
  moreover have "set ?first \<subseteq> set raw" using set_fit [of 1024 raw] by (auto dest: set_takeWhileD)
  moreover have "length line \<le> 1023"
    unfolding line using length_trim [of ?first] length_takeWhile_le [of "\<lambda>c. c \<noteq> NL" "fit 1024 raw"]
      length_fit [of 1024 raw] by simp
  ultimately show ?thesis using trim_ends [of ?first] assms(2) line by auto
qed

lemma validate_clean:
  assumes "line \<noteq> []" "NL \<notin> set line" "length line < 1024" "\<not> blank (hd line)" "\<not> blank (last line)"
  shows "validate_suggestion catalog line =
      \<lparr>v_status = (if catalog (suggestion_token line) = None then SUGGEST_UNKNOWN_COMMAND else SUGGEST_OK),
       v_line = line, command_name = suggestion_token line\<rparr>"
  using assms by (simp add: validate_suggestion_def Let_def fit_id trim_id)

section \<open>The catalog interface\<close>

text \<open>
  What the clients rely on: looking a name up gives a specification of that name. The lemmas of
  the \<open>@\<close> pipeline are proved once for any such catalog.
\<close>

locale command_catalog =
  fixes catalog :: "cstring \<Rightarrow> 'spec option" and name_of :: "'spec \<Rightarrow> cstring"
  assumes catalog_name: "catalog n = Some s \<Longrightarrow> name_of s = n"
begin

lemma accepted_in_catalog:
  assumes "v_status (validate_suggestion catalog raw) \<in> {SUGGEST_OK, SUGGEST_MULTILINE_TRUNCATED}"
  shows "\<exists>s. catalog (command_name (validate_suggestion catalog raw)) = Some s
    \<and> name_of s = command_name (validate_suggestion catalog raw)"
  using assms catalog_name
  by (auto simp: validate_suggestion_def Let_def split: if_splits)

lemma accepted_nonempty:
  assumes "v_status (validate_suggestion catalog raw) \<in> {SUGGEST_OK, SUGGEST_MULTILINE_TRUNCATED}"
  shows "v_line (validate_suggestion catalog raw) \<noteq> []"
  using assms by (auto simp: validate_suggestion_def Let_def split: if_splits)

lemma revalidate:
  assumes "v_status (validate_suggestion catalog raw) \<in> {SUGGEST_OK, SUGGEST_MULTILINE_TRUNCATED}"
  shows "validate_suggestion catalog (v_line (validate_suggestion catalog raw)) =
    (validate_suggestion catalog raw)\<lparr>v_status := SUGGEST_OK\<rparr>"
proof -
  let ?line = "v_line (validate_suggestion catalog raw)"
  have ne: "?line \<noteq> []" using assms by (rule accepted_nonempty)
  from validate_line [OF refl ne]
  have ok: "NL \<notin> set ?line" "length ?line < 1024" "\<not> blank (hd ?line)" "\<not> blank (last ?line)"
    by auto
  note validate_clean [OF ne ok, of catalog]
  moreover have "command_name (validate_suggestion catalog raw) = suggestion_token ?line"
    using ne by (auto simp: validate_suggestion_def Let_def split: if_splits)
  moreover have "catalog (suggestion_token ?line) \<noteq> None"
    using assms by (auto simp: validate_suggestion_def Let_def split: if_splits)
  ultimately show ?thesis by simp
qed

end

interpretation registry: command_catalog "find_command reg" spec_name for reg
  by unfold_locales (rule find_command_name)

section \<open>The heuristic fallback\<close>

text \<open>
  The query's words: runs of letters, lower-cased, at most 63 characters each, at most 32. The
  buffer \<open>buf\<close> is the third argument (as in the code it is not emptied once 32 words are stored).
\<close>

fun heur_tokens :: "nat \<Rightarrow> cstring \<Rightarrow> cstring \<Rightarrow> cstring list" where
  "heur_tokens k buf [] = (if buf \<noteq> [] \<and> k < 32 then [buf] else [])"
| "heur_tokens k buf (c # s) =
     (if isalpha c
      then heur_tokens k (if length buf < 63 then buf @ [tolower c] else buf) s
      else if buf \<noteq> [] \<and> k < 32 then buf # heur_tokens (Suc k) [] s
      else heur_tokens k buf s)"

definition heuristic_any_token_in :: "cstring list \<Rightarrow> cstring option \<Rightarrow> bool" where
  "heuristic_any_token_in tokens text = (case text of
      None \<Rightarrow> False
    | Some t \<Rightarrow> (let lower = map tolower (fit 512 t)
               in list_ex (\<lambda>tok. strstr lower tok \<noteq> None) tokens))"

definition heuristic_score :: "cstring list \<Rightarrow> cmd_spec \<Rightarrow> nat" where
  "heuristic_score tokens spec =
     (if heuristic_any_token_in tokens (Some (spec_name spec)) then 3 else 0)
   + (if heuristic_any_token_in tokens (summary spec) then 2 else 0)
   + (if heuristic_any_token_in tokens (long_help spec) then 1 else 0)"

record heuristic_ctx =
  best_score :: nat
  best_cmd :: "cmd_spec option"
  first_cmd :: "cmd_spec option"

definition heuristic_score_cb :: "cstring list \<Rightarrow> cmd_spec \<Rightarrow> heuristic_ctx \<Rightarrow> heuristic_ctx" where
  "heuristic_score_cb tokens spec ctx =
     (let ctx = (if first_cmd ctx = None then ctx\<lparr>first_cmd := Some spec\<rparr> else ctx);
          score = heuristic_score tokens spec
      in if best_score ctx < score then ctx\<lparr>best_score := score, best_cmd := Some spec\<rparr> else ctx)"

definition heuristic_fallback_command :: "cmd_spec list \<Rightarrow> cstring \<Rightarrow> cstring option" where
  "heuristic_fallback_command reg query =
     (let ctx = for_each_command (heuristic_score_cb (heur_tokens 0 [] query)) reg
                  \<lparr>best_score = 0, best_cmd = None, first_cmd = None\<rparr>
      in case first_cmd ctx of
           None \<Rightarrow> None
         | Some f \<Rightarrow>
             (case best_cmd ctx of
                Some b \<Rightarrow> if 0 < best_score ctx then Some (spec_name b)
                  else Some (case find_command reg ''ls'' of Some d \<Rightarrow> spec_name d | None \<Rightarrow> spec_name f)
              | None \<Rightarrow> Some (case find_command reg ''ls'' of Some d \<Rightarrow> spec_name d | None \<Rightarrow> spec_name f)))"

text \<open>What the scan knows after a part of the registry.\<close>

definition ctx_ok :: "cstring list \<Rightarrow> cmd_spec list \<Rightarrow> heuristic_ctx \<Rightarrow> bool" where
  "ctx_ok tokens seen ctx \<longleftrightarrow>
     (seen = [] \<longleftrightarrow> first_cmd ctx = None) \<and>
     (\<forall>f. first_cmd ctx = Some f \<longrightarrow> f \<in> set seen) \<and>
     (\<forall>b. best_cmd ctx = Some b \<longrightarrow> b \<in> set seen \<and> heuristic_score tokens b = best_score ctx) \<and>
     (best_cmd ctx = None \<longrightarrow> best_score ctx = 0) \<and>
     (\<forall>s\<in>set seen. heuristic_score tokens s \<le> best_score ctx)"

lemma ctx_ok_step: "ctx_ok tokens seen ctx \<Longrightarrow> ctx_ok tokens (seen @ [s]) (heuristic_score_cb tokens s ctx)"
  by (auto simp: ctx_ok_def heuristic_score_cb_def Let_def)

lemma ctx_ok_fold:
  "ctx_ok tokens seen ctx \<Longrightarrow> ctx_ok tokens (seen @ reg) (fold (heuristic_score_cb tokens) reg ctx)"
proof (induction reg arbitrary: seen ctx)
  case (Cons s reg)
  from Cons.IH [OF ctx_ok_step [OF Cons.prems, of s]] show ?case by simp
qed simp

lemma ctx_ok_scan:
  "ctx_ok tokens reg (for_each_command (heuristic_score_cb tokens) reg
     \<lparr>best_score = 0, best_cmd = None, first_cmd = None\<rparr>)"
  using ctx_ok_fold [of tokens "[]" "\<lparr>best_score = 0, best_cmd = None, first_cmd = None\<rparr>" reg]
  by (simp add: for_each_command_def ctx_ok_def)

text \<open>Whatever the fallback names can be found.\<close>

lemma heuristic_found:
  "case heuristic_fallback_command reg query of None \<Rightarrow> reg = [] | Some name \<Rightarrow> find_command reg name \<noteq> None"
proof -
  let ?t = "heur_tokens 0 [] query"
  obtain ctx where ctx: "ctx = for_each_command (heuristic_score_cb ?t) reg
      \<lparr>best_score = 0, best_cmd = None, first_cmd = None\<rparr>" by simp
  have ok: "ctx_ok ?t reg ctx" unfolding ctx by (rule ctx_ok_scan)
  have found: "s \<in> set reg \<Longrightarrow> find_command reg (spec_name s) \<noteq> None" for s
    using find_command_mem [of s reg] by auto
  have ls: "find_command reg ''ls'' = Some d \<Longrightarrow> d \<in> set reg" for d
    by (auto simp: find_command_def find_Some_iff)
  show ?thesis
    using ok found ls unfolding heuristic_fallback_command_def Let_def ctx [symmetric]
    by (auto simp: ctx_ok_def split: option.splits)
qed

theorem heuristic_fallback_registered:
  "case heuristic_fallback_command reg query of
     None \<Rightarrow> reg = []
   | Some name \<Rightarrow> list_ex (\<lambda>s. spec_name s = name \<and>
        list_all (\<lambda>s'. heuristic_score (heur_tokens 0 [] query) s'
           \<le> heuristic_score (heur_tokens 0 [] query) s) reg) reg
      \<and> find_command reg name \<noteq> None"
proof -
  let ?t = "heur_tokens 0 [] query"
  obtain ctx where ctx: "ctx = for_each_command (heuristic_score_cb ?t) reg
      \<lparr>best_score = 0, best_cmd = None, first_cmd = None\<rparr>" by simp
  have ok: "ctx_ok ?t reg ctx" unfolding ctx by (rule ctx_ok_scan)
  have found: "s \<in> set reg \<Longrightarrow> find_command reg (spec_name s) \<noteq> None" for s
    using find_command_mem [of s reg] by auto
  have ls: "find_command reg ''ls'' = Some d \<Longrightarrow> d \<in> set reg" for d
    by (auto simp: find_command_def find_Some_iff)
  show ?thesis
  proof (cases "best_cmd ctx")
    case None
    then have "\<forall>s\<in>set reg. heuristic_score ?t s = 0" using ok by (auto simp: ctx_ok_def)
    with None ok show ?thesis
      unfolding heuristic_fallback_command_def Let_def ctx [symmetric]
      using found ls by (auto simp: ctx_ok_def list_ex_iff list_all_iff split: option.splits)
  next
    case (Some b)
    then have b: "b \<in> set reg" "\<forall>s\<in>set reg. heuristic_score ?t s \<le> heuristic_score ?t b"
      "heuristic_score ?t b = best_score ctx"
      using ok by (auto simp: ctx_ok_def)
    have "\<exists>f. first_cmd ctx = Some f \<and> f \<in> set reg" using ok b(1) by (auto simp: ctx_ok_def)
    with Some b show ?thesis
      unfolding heuristic_fallback_command_def Let_def ctx [symmetric]
      using found ls by (auto simp: list_ex_iff list_all_iff split: option.splits)
  qed
qed

section \<open>What acceptance means\<close>

theorem validate_accepts_catalog:
  assumes "validate_suggestion (find_command reg) raw = v"
    "v_status v = SUGGEST_OK \<or> v_status v = SUGGEST_MULTILINE_TRUNCATED"
  shows "(\<exists>s\<in>set reg. spec_name s = command_name v)
    \<and> v_line v \<noteq> [] \<and> NL \<notin> set (v_line v) \<and> length (v_line v) \<le> 1023
    \<and> \<not> blank (hd (v_line v)) \<and> \<not> blank (last (v_line v))
    \<and> validate_suggestion (find_command reg) (v_line v) = v\<lparr>v_status := SUGGEST_OK\<rparr>"
proof -
  have ok: "v_status (validate_suggestion (find_command reg) raw) \<in> {SUGGEST_OK, SUGGEST_MULTILINE_TRUNCATED}"
    using assms by simp
  note facts = registry.accepted_in_catalog [OF ok] registry.accepted_nonempty [OF ok]
    registry.revalidate [OF ok]
  then show ?thesis
    using validate_line [of "find_command reg" raw "v_line v"] assms(1)
    by (auto simp: find_command_def find_Some_iff)
qed

definition ls_spec :: cmd_spec where
  "ls_spec = \<lparr>spec_name = ''ls'', summary = Some ''list directory contents'', long_help = None\<rparr>"

theorem validate_accepts_catalog_witness:
  "command_name (validate_suggestion (find_command [ls_spec]) ('' /bin/ls -l'' @ NL # ''second'')) = ''ls''
   \<and> (\<exists>s\<in>set [ls_spec]. spec_name s = ''ls'')"
proof -
  let ?v = "validate_suggestion (find_command [ls_spec]) ('' /bin/ls -l'' @ NL # ''second'')"
  have v: "v_status ?v = SUGGEST_MULTILINE_TRUNCATED" "command_name ?v = ''ls''"
    by code_simp+
  show ?thesis
    using validate_accepts_catalog [OF refl, of "[ls_spec]" "'' /bin/ls -l'' @ NL # ''second''"] v by simp
qed

section \<open>The registered commands\<close>

text \<open>The names in the order of \<open>register_all_commands\<close>; a specification carries its texts.\<close>

definition builtin_names :: "cstring list" where
  "builtin_names =
    [''ls'', ''cat'', ''stat'', ''head'', ''tail'', ''cp'', ''mv'', ''rm'', ''mkdir'', ''rmdir'',
     ''touch'', ''rg'', ''ps'', ''kill'', ''wait'', ''jobs'', ''cd'', ''pwd'', ''echo'', ''env'',
     ''export'', ''unset'', ''type'', ''edit-replace-line'', ''edit-insert-line'',
     ''edit-delete-line'', ''edit-replace'', ''edit'', ''wc'', ''sort'', ''date'', ''find'', ''edit-show'',
     ''uniq'', ''cut'', ''tr'', ''grep'', ''diff'', ''tee'', ''du'', ''df'', ''ln'', ''chmod'',
     ''chown'', ''sleep'', ''which'', ''true'', ''false'', ''file'', ''md5sum'', ''sha256sum'',
     ''alias'', ''unalias'', ''history'', ''ping'', ''nc'', ''xargs'', ''read'', ''test'', ''['',
     ''server'']"

definition register_all_commands :: "(cstring \<Rightarrow> cmd_spec) \<Rightarrow> cmd_spec list" where
  "register_all_commands spec = fold register_command (map spec builtin_names) []"

lemma fold_register: "length reg + length ss \<le> MAX_COMMANDS \<Longrightarrow> fold register_command ss reg = reg @ ss"
  by (induction ss arbitrary: reg) (simp_all add: register_command_def)

lemma length_builtin_names: "length builtin_names = 61" by (simp add: builtin_names_def)

lemma find_map_spec: "distinct ns \<Longrightarrow> n \<in> set ns \<Longrightarrow> (\<And>m. spec_name (spec m) = m) \<Longrightarrow>
    find_command (map spec ns) n = Some (spec n)"
  by (induction ns) (auto simp: find_command_def)

theorem register_all_complete:
  assumes "\<And>n. spec_name (spec n) = n"
  shows "register_all_commands spec = map spec builtin_names
    \<and> (\<forall>n. find_command (register_all_commands spec) n =
           (if n \<in> set builtin_names then Some (spec n) else None))"
proof -
  have all: "register_all_commands spec = map spec builtin_names"
    by (simp add: register_all_commands_def fold_register length_builtin_names MAX_COMMANDS_def)
  have d: "distinct builtin_names" by (simp add: builtin_names_def)
  have "find_command (map spec builtin_names) n = None" if "n \<notin> set builtin_names" for n
    using that assms by (auto simp: find_command_def find_None_iff)
  with all d assms show ?thesis by (auto simp: find_map_spec)
qed

theorem register_all_complete_witness:
  "find_command (register_all_commands (\<lambda>n. \<lparr>spec_name = n, summary = None, long_help = None\<rparr>)) ''tr'' =
     Some \<lparr>spec_name = ''tr'', summary = None, long_help = None\<rparr>"
proof -
  let ?spec = "\<lambda>n. \<lparr>spec_name = n, summary = None, long_help = None\<rparr>"
  have "\<And>n. spec_name (?spec n) = n" by simp
  from conjunct2 [OF register_all_complete [OF this], THEN spec, of "''tr''"]
  show ?thesis by (simp add: builtin_names_def split: if_splits)
qed

end
