(* ===== verification/Shell_Store.thy ===== *)
theory Shell_Store
  imports Prelude
begin

text \<open>
  The interactive shell's tables of \<^verbatim>\<open>aishell_main.c\<close>: aliases (\<open>alias_set\<close>,
  \<open>alias_get\<close>, \<open>alias_del\<close>, \<open>alias_print_all\<close>), shell variables (\<open>var_set\<close>, \<open>var_get\<close>),
  the direct handling of \<open>alias\<close> lines (\<open>try_handle_alias_define\<close>), alias expansion in the
  REPL, and the history ring. A table is the used part of the C array, in order. The locale
  \<open>name_table\<close> states what the clients of both tables rely on.
\<close>

section \<open>Name tables\<close>

type_synonym table = "(cstring \<times> cstring) list"

locale name_table =
  fixes set_name :: "cstring \<Rightarrow> cstring \<Rightarrow> table \<Rightarrow> table"
    and get_name :: "table \<Rightarrow> cstring \<Rightarrow> cstring option"
    and ok :: "table \<Rightarrow> bool" and room :: "table \<Rightarrow> cstring \<Rightarrow> bool"
    and fits :: "cstring \<Rightarrow> bool" and stored :: "cstring \<Rightarrow> cstring"
  assumes ok_set: "ok t \<Longrightarrow> ok (set_name n v t)"
    and get_set: "ok t \<Longrightarrow> fits n \<Longrightarrow> room t n \<Longrightarrow>
      get_name (set_name n v t) m = (if m = n then Some (stored v) else get_name t m)"
    and room_set: "ok t \<Longrightarrow> fits n \<Longrightarrow> room t n \<Longrightarrow> room (set_name n v t) n"
    and stored_stored: "stored (stored v) = stored v"
begin

lemma get_set_same: "ok t \<Longrightarrow> fits n \<Longrightarrow> room t n \<Longrightarrow> get_name (set_name n v t) n = Some (stored v)"
  by (simp add: get_set)

lemma set_set: "ok t \<Longrightarrow> fits n \<Longrightarrow> room t n \<Longrightarrow>
    get_name (set_name n w (set_name n v t)) = get_name (set_name n w t)"
  by (auto simp: fun_eq_iff get_set ok_set room_set)

lemma set_get: "ok t \<Longrightarrow> fits n \<Longrightarrow> room t n \<Longrightarrow> get_name t n = Some v \<Longrightarrow> stored v = v \<Longrightarrow>
    get_name (set_name n v t) = get_name t"
  by (auto simp: fun_eq_iff get_set)

lemma set_commute: "ok t \<Longrightarrow> fits n \<Longrightarrow> fits k \<Longrightarrow> n \<noteq> k \<Longrightarrow> room t n \<Longrightarrow> room t k \<Longrightarrow>
    room (set_name n v t) k \<Longrightarrow> room (set_name k w t) n \<Longrightarrow>
    get_name (set_name k w (set_name n v t)) = get_name (set_name n v (set_name k w t))"
  by (auto simp: fun_eq_iff get_set ok_set)

end

text \<open>The slot a name is stored in: \<open>update_first\<close> rewrites the first entry of that name.\<close>

fun update_first :: "cstring \<Rightarrow> cstring \<Rightarrow> table \<Rightarrow> table option" where
  "update_first n v [] = None"
| "update_first n v ((k, w) # t) =
     (if k = n then Some ((k, v) # t) else map_option ((#) (k, w)) (update_first n v t))"

lemma update_first_None: "update_first n v t = None \<longleftrightarrow> n \<notin> fst ` set t"
proof (induction t)
  case (Cons e t)
  then show ?case by (cases e; cases "fst e = n") auto
qed simp

lemma update_first_Some:
  "update_first n v t = Some t' \<Longrightarrow> map fst t' = map fst t \<and> length t' = length t
     \<and> map_of t' = (map_of t)(n \<mapsto> v) \<and> set t' \<subseteq> insert (n, v) (set t)"
  by (induction t arbitrary: t') (fastforce split: if_splits)+

lemma map_of_append_new: "n \<notin> fst ` set t \<Longrightarrow> map_of (t @ [(n, v)]) = (map_of t)(n \<mapsto> v)"
proof -
  assume "n \<notin> fst ` set t"
  then have "map_of t n = None" by (simp add: map_of_eq_None_iff)
  then show ?thesis by (auto simp: fun_eq_iff map_add_def split: option.split)
qed

section \<open>Aliases\<close>

definition ALIAS_MAX :: nat where "ALIAS_MAX = 64"

definition alias_set :: "cstring \<Rightarrow> cstring \<Rightarrow> table \<Rightarrow> table" where
  "alias_set name value t = (case update_first name (fit 256 value) t of
      Some t' \<Rightarrow> t'
    | None \<Rightarrow> if length t < ALIAS_MAX then t @ [(fit 64 name, fit 256 value)] else t)"

definition alias_get :: "table \<Rightarrow> cstring \<Rightarrow> cstring option" where
  "alias_get t name = map_of t name"

definition alias_del :: "cstring \<Rightarrow> table \<Rightarrow> table" where
  "alias_del name t = (case first_idx (\<lambda>e. fst e = name) t of
      None \<Rightarrow> t
    | Some i \<Rightarrow> butlast (t[i := last t]))"

definition alias_line :: "cstring \<times> cstring \<Rightarrow> cstring" where
  "alias_line e = ''alias '' @ fst e @ ''='' @ SQ # snd e @ [SQ]"

definition alias_print_all :: "table \<Rightarrow> cstring list" where
  "alias_print_all t = map (\<lambda>e. alias_line e @ [NL]) t"

section \<open>Shell variables\<close>

definition MAX_VARS :: nat where "MAX_VARS = 64"

definition var_set :: "cstring \<Rightarrow> cstring \<Rightarrow> table \<Rightarrow> table" where
  "var_set name value t = (case update_first name (fit 256 value) t of
      Some t' \<Rightarrow> t'
    | None \<Rightarrow> if length t < MAX_VARS then t @ [(fit 64 name, fit 256 value)] else t)"

text \<open>\<open>var_get\<close> falls back to the process environment.\<close>

definition var_get :: "table \<Rightarrow> (cstring \<Rightarrow> cstring option) \<Rightarrow> cstring \<Rightarrow> cstring option" where
  "var_get t getenv name = (case map_of t name of Some v \<Rightarrow> Some v | None \<Rightarrow> getenv name)"

section \<open>Laws of the tables\<close>

definition table_ok :: "table \<Rightarrow> bool" where
  "table_ok t \<longleftrightarrow> length t \<le> 64 \<and> (\<forall>(n, v)\<in>set t. length n < 64 \<and> length v < 256)"

definition table_room :: "table \<Rightarrow> cstring \<Rightarrow> bool" where
  "table_room t n \<longleftrightarrow> n \<in> fst ` set t \<or> length t < 64"

definition name_fits :: "cstring \<Rightarrow> bool" where
  "name_fits n \<longleftrightarrow> length n < 64"

lemma alias_set_eq: "alias_set = var_set"
  by (simp add: fun_eq_iff alias_set_def var_set_def ALIAS_MAX_def MAX_VARS_def)

lemma var_set_lookup:
  "name_fits n \<Longrightarrow> table_room t n \<Longrightarrow> map_of (var_set n v t) = (map_of t)(n \<mapsto> fit 256 v)"
  by (auto simp: var_set_def table_room_def name_fits_def MAX_VARS_def fit_id update_first_None
      map_of_append_new simp del: map_of_append dest: update_first_Some split: option.split)

lemma var_set_ok: "table_ok t \<Longrightarrow> table_ok (var_set n v t)"
proof (cases "update_first n (fit 256 v) t")
  case None
  assume "table_ok t"
  with None show ?thesis
    using length_fit [of 64 n] length_fit [of 256 v]
    by (auto simp: var_set_def table_ok_def MAX_VARS_def)
next
  case (Some t')
  assume ok: "table_ok t"
  have "n \<in> fst ` set t" using Some update_first_None [of n "fit 256 v" t] by auto
  then have "length n < 64" using ok by (auto simp: table_ok_def)
  then show ?thesis
    using Some ok update_first_Some [OF Some] length_fit [of 256 v]
    by (auto simp: var_set_def table_ok_def)
qed

lemma var_set_room: "name_fits n \<Longrightarrow> table_room t n \<Longrightarrow> table_room (var_set n v t) n"
proof -
  assume "name_fits n" "table_room t n"
  then have "map_of (var_set n v t) n \<noteq> None" by (simp add: var_set_lookup)
  then show ?thesis by (auto simp: table_room_def map_of_eq_None_iff)
qed

interpretation aliases: name_table alias_set alias_get table_ok table_room name_fits "fit 256"
  by unfold_locales
    (auto simp: alias_set_eq alias_get_def var_set_ok var_set_lookup var_set_room)

interpretation vars: name_table var_set "\<lambda>t. var_get t env" table_ok table_room name_fits "fit 256"
  for env
  by unfold_locales (auto simp: var_get_def var_set_ok var_set_lookup var_set_room)

lemma alias_del_parts:
  "first_idx (\<lambda>e. fst e = n) (xs @ e # ys) = Some (length xs) \<Longrightarrow>
   alias_del n (xs @ e # ys) = (if ys = [] then xs else xs @ last ys # butlast ys)"
  by (simp add: alias_del_def butlast_append)

lemma alias_del_lookup:
  assumes "distinct (map fst t)"
  shows "alias_get (alias_del n t) = (alias_get t)(n := None)
    \<and> distinct (map fst (alias_del n t))"
proof (cases "first_idx (\<lambda>e. fst e = n) t")
  case None
  then have "n \<notin> fst ` set t" by (auto simp: first_idx_None)
  with None assms show ?thesis
    by (auto simp: alias_del_def alias_get_def fun_eq_iff map_of_eq_None_iff)
next
  case (Some i)
  from first_idx_Some [OF Some] have i: "i < length t" "fst (t ! i) = n" by auto
  then obtain xs v ys where t: "t = xs @ (n, v) # ys" "length xs = i"
    by (metis id_take_nth_drop length_take min.absorb4 prod.collapse)
  have "n \<notin> fst ` set xs" "n \<notin> fst ` set ys" using assms t(1) by auto
  then have "map_of xs n = None" "map_of ys n = None" by (simp_all add: map_of_eq_None_iff)
  then have base: "map_of (xs @ ys) = (map_of t)(n := None)"
    using t(1) by (auto simp: fun_eq_iff map_add_def split: option.split)
  show ?thesis
  proof (cases ys rule: rev_cases)
    case Nil
    then have "alias_del n t = xs @ ys"
      using alias_del_parts [of n xs "(n, v)" ys] Some t by simp
    with base assms t(1) show ?thesis by (auto simp: alias_get_def fun_eq_iff)
  next
    case (snoc zs l)
    then have del: "alias_del n t = xs @ l # zs"
      using alias_del_parts [of n xs "(n, v)" ys] Some t by simp
    have "map_of (xs @ l # zs) = map_of (xs @ ys)"
      using assms t(1) snoc by (subst map_of_inject_set) auto
    with base del assms t(1) snoc show ?thesis by (auto simp: alias_get_def)
  qed
qed

lemma update_first_distinct: "distinct (map fst t) \<Longrightarrow> name_fits n \<Longrightarrow> distinct (map fst (alias_set n v t))"
  by (auto simp: alias_set_def name_fits_def fit_id update_first_None dest: update_first_Some
      split: option.split)

section \<open>\<open>alias\<close> and \<open>unalias\<close> lines with quotes or equal signs\<close>

definition skip_spaces :: "cstring \<Rightarrow> cstring" where
  "skip_spaces s = dropWhile (\<lambda>c. c = CHR '' '') s"

text \<open>One argument: quotes are removed, blanks inside them kept, at most 511 characters stored.\<close>

fun alias_arg :: "char option \<Rightarrow> nat \<Rightarrow> cstring \<Rightarrow> cstring \<times> cstring" where
  "alias_arg q ai [] = ([], [])"
| "alias_arg q ai (c # s) =
     (if c = CHR '' '' \<and> q = None then ([], c # s)
      else if q = None \<and> (c = SQ \<or> c = DQ) then alias_arg (Some c) ai s
      else if q = Some c then alias_arg None ai s
      else if ai < 511 then (case alias_arg q (Suc ai) s of (a, r) \<Rightarrow> (c # a, r))
      else alias_arg q ai s)"

lemma alias_arg_rest: "alias_arg q ai s = (a, r) \<Longrightarrow> length r \<le> length s"
  by (induction q ai s arbitrary: a r rule: alias_arg.induct)
    (fastforce split: if_splits prod.splits)+

lemma alias_arg_shorter: "s \<noteq> [] \<Longrightarrow> hd s \<noteq> CHR '' '' \<Longrightarrow> alias_arg None 0 s = (a, r) \<Longrightarrow> length r < length s"
  by (cases s) (auto dest!: alias_arg_rest split: if_splits prod.splits)

lemma skip_spaces_hd: "skip_spaces p \<noteq> [] \<Longrightarrow> hd (skip_spaces p) \<noteq> CHR '' ''"
  unfolding skip_spaces_def by (rule hd_dropWhile)

lemma length_skip_spaces [len_bounds]: "length (skip_spaces p) \<le> length p"
  by (simp add: skip_spaces_def length_dropWhile_le)

text \<open>The loop over the arguments: exit status, new table, printed lines.\<close>

definition alias_one :: "cstring \<Rightarrow> int \<times> table \<times> cstring list \<Rightarrow> int \<times> table \<times> cstring list" where
  "alias_one arg st = (case st of (rc, t, out) \<Rightarrow>
     (case split_at (CHR ''='') arg of
        Some (n, v) \<Rightarrow> (rc, alias_set n v t, out)
      | None \<Rightarrow> (case alias_get t arg of
                   Some v \<Rightarrow> (rc, t, out @ [alias_line (arg, v) @ [NL]])
                 | None \<Rightarrow> (1, t, out))))"

function alias_loop :: "cstring \<Rightarrow> int \<times> table \<times> cstring list \<Rightarrow> int \<times> table \<times> cstring list" where
  "alias_loop p st =
     (if skip_spaces p = [] then st
      else (case alias_arg None 0 (skip_spaces p) of (arg, rest) \<Rightarrow>
              if arg = [] then st else alias_loop rest (alias_one arg st)))"
  by pat_completeness auto
termination
  apply (relation "measure (\<lambda>(p, st). length p)")
   apply simp
  subgoal for p st a r
    using alias_arg_shorter [OF _ skip_spaces_hd, of p a r] length_skip_spaces [of p] by simp
  done


declare alias_loop.simps [simp del]

text \<open>Names to remove are cut into pieces of 63 characters, as the code's buffer does.\<close>

function unalias_loop :: "cstring \<Rightarrow> int \<times> table \<Rightarrow> int \<times> table" where
  "unalias_loop p st =
     (let q = skip_spaces p; name = fit 64 (takeWhile (\<lambda>c. c \<noteq> CHR '' '') q) in
      if q = [] \<or> name = [] then st
      else unalias_loop (drop (length name) q)
             (case alias_get (snd st) name of
                None \<Rightarrow> (1, snd st)
              | Some _ \<Rightarrow> (fst st, alias_del name (snd st))))"
  by pat_completeness auto
termination
  by (relation "measure (\<lambda>(p, st). length p)")
    (auto simp: less_le_trans [OF _ length_skip_spaces] diff_less_mono2
      intro!: less_le_trans [OF _ length_skip_spaces])

declare unalias_loop.simps [simp del]

definition starts_word :: "cstring \<Rightarrow> cstring \<Rightarrow> bool" where
  "starts_word w p \<longleftrightarrow> prefix w p \<and> (length p = length w \<or> p ! length w = CHR '' '')"

definition try_handle_alias_define ::
  "cstring \<Rightarrow> table \<Rightarrow> (int \<times> table \<times> cstring list) option" where
  "try_handle_alias_define buf t =
     (let p = skip_spaces buf; is_alias = starts_word ''alias'' p;
          is_unalias = (\<not> is_alias \<and> starts_word ''unalias'' p) in
      if \<not> is_alias \<and> \<not> is_unalias then None
      else
        let q = skip_spaces (drop (if is_alias then 5 else 7) p) in
        if CHR ''='' \<notin> set q \<and> SQ \<notin> set q then None
        else if is_unalias then (case unalias_loop q (0, t) of (rc, t') \<Rightarrow> Some (rc, t', []))
        else if q = [] then Some (0, t, alias_print_all t)
        else Some (alias_loop q (0, t, [])))"

text \<open>One level of alias expansion of the first word (\<open>bnfc_repl\<close>, step 0).\<close>

definition expand_alias :: "table \<Rightarrow> cstring \<Rightarrow> cstring" where
  "expand_alias t buf =
     (let p = dropWhile (\<lambda>c. c = CHR '' '' \<or> c = TAB) buf;
          word = takeWhile (\<lambda>c. c \<noteq> CHR '' '' \<and> c \<noteq> TAB) p in
      if 0 < length word \<and> length word < 64
      then (case alias_get t word of
              Some v \<Rightarrow> v @ drop (length word) p
            | None \<Rightarrow> buf)
      else buf)"

subsection \<open>A printed alias, read back\<close>

definition plain_alias :: "cstring \<Rightarrow> cstring \<Rightarrow> bool" where
  "plain_alias n v \<longleftrightarrow> n \<noteq> [] \<and> length n < 64 \<and> length v < 256
     \<and> (\<forall>c\<in>set n. c \<noteq> CHR '' '' \<and> c \<noteq> SQ \<and> c \<noteq> DQ \<and> c \<noteq> CHR ''='') \<and> SQ \<notin> set v"

lemma alias_arg_plain:
  "(\<forall>c\<in>set n. c \<noteq> CHR '' '' \<and> c \<noteq> SQ \<and> c \<noteq> DQ) \<Longrightarrow> ai + length n \<le> 511 \<Longrightarrow>
   alias_arg None ai (n @ s) = (case alias_arg None (ai + length n) s of (a, r) \<Rightarrow> (n @ a, r))"
  by (induction n arbitrary: ai) (auto split: prod.split)

lemma alias_arg_quoted:
  "SQ \<notin> set v \<Longrightarrow> ai + length v \<le> 511 \<Longrightarrow>
   alias_arg (Some SQ) ai (v @ SQ # s) = (case alias_arg None (ai + length v) s of (a, r) \<Rightarrow> (v @ a, r))"
  by (induction v arbitrary: ai) (auto split: prod.split)

text \<open>C31: The line that alias prints for an ordinary alias, typed back, defines the same alias.\<close>

theorem alias_line_roundtrip:
  assumes "plain_alias n v"
  shows "try_handle_alias_define (alias_line (n, v)) t = Some (0, alias_set n v t, [])"
proof -
  let ?q = "n @ CHR ''='' # SQ # v @ [SQ]"
  have n: "n \<noteq> []" "length n < 64" "length v < 256" "SQ \<notin> set v" "CHR ''='' \<notin> set n"
    and plain: "\<forall>c\<in>set n. c \<noteq> CHR '' '' \<and> c \<noteq> SQ \<and> c \<noteq> DQ"
    using assms by (auto simp: plain_alias_def)
  have eq: "alias_arg None (length n) (CHR ''='' # SQ # v @ [SQ]) = (CHR ''='' # v, [])"
    using n alias_arg_quoted [of v "Suc (length n)" "[]"] by (simp add: shell_defs)
  have arg: "alias_arg None 0 ?q = (n @ CHR ''='' # v, [])"
    using alias_arg_plain [OF plain, of 0] n eq by simp
  have sk: "skip_spaces ?q = ?q" using n(1) plain by (cases n) (auto simp: skip_spaces_def)
  have loop: "alias_loop ?q (0, t, []) = (0, alias_set n v t, [])"
    using n arg sk by (subst alias_loop.simps) (simp add: alias_one_def alias_loop.simps skip_spaces_def)
  have "skip_spaces (alias_line (n, v)) = alias_line (n, v)"
    "starts_word ''alias'' (alias_line (n, v))" "drop 5 (alias_line (n, v)) = CHR '' '' # ?q"
    "skip_spaces (CHR '' '' # ?q) = ?q"
    using sk by (simp_all add: alias_line_def skip_spaces_def starts_word_def)
  then show ?thesis
    using loop n by (simp add: try_handle_alias_define_def Let_def)
qed

theorem alias_line_roundtrip_witness:
  "try_handle_alias_define (alias_line (''ll'', ''ls -l'')) [] = Some (0, [(''ll'', ''ls -l'')], [])"
proof -
  have "plain_alias ''ll'' ''ls -l''" by (simp add: plain_alias_def shell_defs)
  from alias_line_roundtrip [OF this, of "[]"] show ?thesis
    by (simp add: alias_set_def ALIAS_MAX_def fit_def)
qed

text \<open>A name of 64 or more characters is stored cut, so it is never found again.\<close>

theorem alias_long_name_lost:
  assumes "table_ok t" "64 \<le> length n"
  shows "alias_get (alias_set n v t) n = None
    \<and> (length t < 64 \<longrightarrow> length (alias_set n v t) = Suc (length t))"
proof -
  have "n \<notin> fst ` set t" using assms by (auto simp: table_ok_def)
  then have "update_first n (fit 256 v) t = None" by (simp add: update_first_None)
  moreover have "map_of t n = None" using \<open>n \<notin> fst ` set t\<close> by (simp add: map_of_eq_None_iff)
  moreover have "fit 64 n \<noteq> n" using length_fit [of 64 n] assms(2) by auto
  ultimately show ?thesis
    by (auto simp: alias_set_def alias_get_def ALIAS_MAX_def map_add_def)
qed

theorem alias_long_name_lost_witness:
  "alias_get (alias_set (replicate 64 CHR ''a'') ''ls'' []) (replicate 64 CHR ''a'') = None"
  using alias_long_name_lost [of "[]" "replicate 64 CHR ''a''" "''ls''"] by (simp add: table_ok_def)

text \<open>
  What the shell relies on: after \<open>alias_set\<close> the name has the stored value and every other
  name its old one; \<open>alias_del\<close> removes exactly its name.
\<close>

theorem alias_store_laws:
  assumes "table_ok t" "distinct (map fst t)" "name_fits n" "table_room t n"
  shows "alias_get (alias_set n v t) m = (if m = n then Some (fit 256 v) else alias_get t m)
    \<and> alias_get (alias_del n (alias_set n v t)) m = (if m = n then None else alias_get t m)
    \<and> table_ok (alias_set n v t) \<and> distinct (map fst (alias_set n v t))"
  using aliases.get_set [OF assms(1,3,4), of v m] aliases.ok_set [OF assms(1), of n v]
    update_first_distinct [OF assms(2,3), of v]
    alias_del_lookup [OF update_first_distinct [OF assms(2,3), of v], of n]
  by auto

theorem alias_store_laws_witness:
  "alias_get (alias_set ''g'' ''grep'' [(''ll'', ''ls'')]) ''ll'' = Some ''ls''
   \<and> alias_get (alias_del ''g'' (alias_set ''g'' ''grep'' [(''ll'', ''ls'')])) ''g'' = None"
  using alias_store_laws [of "[(''ll'', ''ls'')]" "''g''" "''grep''" "''ll''"]
    alias_store_laws [of "[(''ll'', ''ls'')]" "''g''" "''grep''" "''g''"]
  by (simp add: table_ok_def name_fits_def table_room_def alias_get_def)

end
