(* ===== verification/History.thy ===== *)
theory History
  imports Prelude
begin

text \<open>
  The command history of \<^verbatim>\<open>aishell_main.c\<close>: a ring of 100 lines of 1023 bytes with
  the next write position and the number of lines in use (\<open>hist_add\<close>, \<open>hist_get\<close>,
  \<open>hist_total\<close>, \<open>hist_clear_all\<close>), and the \<open>history\<close> command of
  \<^verbatim>\<open>cmd_history.c\<close>, whose options come parsed from the argtable library. The abstract
  specification is a list of at most 100 lines, oldest first; \<open>hist_view\<close> is the abstraction.
\<close>

definition HIST_MAX :: nat where "HIST_MAX = 100"
definition HIST_LINE :: nat where "HIST_LINE = 1024"

record hist =
  ring :: "cstring list"
  tail :: nat
  used :: nat

definition hist_init :: hist where
  "hist_init = \<lparr>ring = replicate HIST_MAX [], tail = 0, used = 0\<rparr>"

definition hist_add :: "cstring \<Rightarrow> hist \<Rightarrow> hist" where
  "hist_add line h =
     (if line = [] then h
      else if 0 < used h \<and> ring h ! nat ((int (tail h) - 1 + int HIST_MAX) mod int HIST_MAX) = line then h
      else \<lparr>ring = (ring h)[tail h := fit HIST_LINE line],
            tail = (tail h + 1) mod HIST_MAX,
            used = (if used h < HIST_MAX then used h + 1 else used h)\<rparr>)"

definition hist_get :: "hist \<Rightarrow> int \<Rightarrow> cstring" where
  "hist_get h i =
     (if i < 0 \<or> i \<ge> int (used h) then []
      else ring h ! nat (((int (tail h) - int (used h) + 2 * int HIST_MAX) mod int HIST_MAX + i)
                          mod int HIST_MAX))"

definition hist_total :: "hist \<Rightarrow> nat" where
  "hist_total h = used h"

definition hist_clear_all :: "hist \<Rightarrow> hist" where
  "hist_clear_all h = h\<lparr>tail := 0, used := 0\<rparr>"

definition history_line :: "hist \<Rightarrow> int \<Rightarrow> cstring" where
  "history_line h i = pad_left 5 (show_int (i + 1)) @ ''  '' @ hist_get h i @ [NL]"

text \<open>\<open>history_run\<close> after the argument library: \<open>-c\<close>, and \<open>-n N\<close> (\<open>None\<close> if absent).\<close>

definition history_run :: "bool \<Rightarrow> int option \<Rightarrow> hist \<Rightarrow> cstring list \<times> hist" where
  "history_run clear nlines h =
     (if clear then ([], hist_clear_all h)
      else let n = (case nlines of Some v \<Rightarrow> v | None \<Rightarrow> -1);
               total = int (hist_total h);
               start = (if n > 0 \<and> n < total then total - n else 0)
           in (map (history_line h) [start..total - 1], h))"

section \<open>The invariant and the abstract history\<close>

definition hist_ok :: "hist \<Rightarrow> bool" where
  "hist_ok h \<longleftrightarrow> length (ring h) = 100 \<and> tail h < 100 \<and> used h \<le> 100
     \<and> (\<forall>l\<in>set (ring h). length l < 1024)"

definition hist_view :: "hist \<Rightarrow> cstring list" where
  "hist_view h = map (hist_get h) [0..int (used h) - 1]"

definition spec_add :: "cstring \<Rightarrow> cstring list \<Rightarrow> cstring list" where
  "spec_add line xs =
     (if line = [] \<or> (xs \<noteq> [] \<and> last xs = line) then xs
      else drop (length xs + 1 - HIST_MAX) (xs @ [fit HIST_LINE line]))"

datatype hist_event = HAdd cstring | HClear

fun hist_step :: "hist_event \<Rightarrow> hist \<Rightarrow> hist" where
  "hist_step (HAdd l) h = hist_add l h"
| "hist_step HClear h = hist_clear_all h"

fun spec_step :: "hist_event \<Rightarrow> cstring list \<Rightarrow> cstring list" where
  "spec_step (HAdd l) xs = spec_add l xs"
| "spec_step HClear xs = []"

lemma hist_ok_init: "hist_ok hist_init"
  by (simp add: hist_ok_def hist_init_def HIST_MAX_def)

lemma hist_ok_step: "hist_ok h \<Longrightarrow> hist_ok (hist_step e h)"
proof (cases e)
  case (HAdd l)
  assume h: "hist_ok h"
  have "length (fit 1024 l) < 1024" using length_fit [of 1024 l] by simp
  with h HAdd show ?thesis
    by (auto simp: hist_ok_def hist_add_def HIST_MAX_def HIST_LINE_def dest!: set_update_subset_insert [THEN subsetD])
qed (simp add: hist_ok_def hist_clear_all_def)

interpretation history: event_machine hist_init hist_step hist_ok
  by unfold_locales (auto intro: hist_ok_init hist_ok_step)

text \<open>The ring position of the entry with index \<open>i\<close>.\<close>

definition pos :: "hist \<Rightarrow> nat \<Rightarrow> nat" where
  "pos h i = (tail h + 100 - used h + i) mod 100"

lemma hist_get_pos: "hist_ok h \<Longrightarrow> i < used h \<Longrightarrow> hist_get h (int i) = ring h ! pos h i"
proof -
  assume h: "hist_ok h" "i < used h"
  let ?x = "int (tail h) - int (used h) + int i"
  have "((int (tail h) - int (used h) + 200) mod 100 + int i) mod 100 = (?x + 2 * 100) mod 100"
    by (simp only: mod_add_left_eq) (simp add: algebra_simps)
  also have "\<dots> = (?x + 1 * 100) mod 100" by (simp only: mod_mult_self1)
  also have "?x + 1 * 100 = int (tail h + 100 - used h + i)"
    using h by (simp add: hist_ok_def of_nat_diff)
  also have "\<dots> mod 100 = int (pos h i)" by (simp add: pos_def zmod_int)
  finally have "((int (tail h) - int (used h) + 200) mod 100 + int i) mod 100 = int (pos h i)" .
  with h show ?thesis by (simp add: hist_get_def HIST_MAX_def)
qed

lemma length_hist_view [simp]: "length (hist_view h) = used h"
  by (simp add: hist_view_def)

lemma hist_view_nth: "hist_ok h \<Longrightarrow> i < used h \<Longrightarrow> hist_view h ! i = ring h ! pos h i"
  by (simp add: hist_view_def hist_get_pos)

lemma hist_last:
  "hist_ok h \<Longrightarrow> 0 < used h \<Longrightarrow>
   ring h ! nat ((int (tail h) - 1 + int HIST_MAX) mod int HIST_MAX) = last (hist_view h)"
proof -
  assume h: "hist_ok h" "0 < used h"
  then have "nat ((int (tail h) - 1 + 100) mod 100) = pos h (used h - 1)"
    by (simp add: pos_def hist_ok_def nat_mod_distrib nat_diff_distrib nat_add_distrib)
  moreover have "hist_view h \<noteq> []" using h length_hist_view [of h] by (metis less_nat_zero_code list.size(3))
  ultimately show ?thesis
    using h hist_view_nth [of h "used h - 1"] by (simp add: HIST_MAX_def last_conv_nth)
qed

lemma pos_shift:
  assumes "t < (100::nat)" "u \<le> 100"
  shows "((t + 1) mod 100 + 100 - (if u < 100 then u + 1 else u) + i) mod 100
    = (t + 100 - u + (i + (u + 1 - 100))) mod 100"
proof (cases "u < 100")
  case True
  then have d: "u + 1 - 100 = 0" by simp
  show ?thesis
  proof (cases "t = 99")
    case True
    then have "t + 100 - u + i = (99 - u + i) + 100" using \<open>u < 100\<close> by simp
    then have "(t + 100 - u + i) mod 100 = (99 - u + i) mod 100" by (simp only: mod_add_self2)
    then show ?thesis using d \<open>u < 100\<close> True by simp
  qed (use assms d True in \<open>simp add: ac_simps\<close>)
next
  case False
  then have "u = 100" using assms by simp
  then show ?thesis using mod_add_left_eq [of "t + 1" 100 i] by (simp add: algebra_simps)
qed

lemma pos_ne_tail:
  assumes "hist_ok h" "i < used h" "used h < 100 \<or> 0 < i"
  shows "pos h i \<noteq> tail h"
proof
  assume "pos h i = tail h"
  then have "(tail h + 100 - used h + i) mod 100 = tail h" by (simp add: pos_def)
  moreover have "tail h + 100 - used h + i < 200"
    using assms unfolding hist_ok_def by linarith
  ultimately have "tail h + 100 - used h + i = tail h \<or> tail h + 100 - used h + i = tail h + 100"
    by (simp add: mod_if split: if_splits)
  then show False using assms unfolding hist_ok_def by linarith
qed

lemma hist_step_refines:
  assumes "hist_ok h"
  shows "hist_view (hist_step e h) = spec_step e (hist_view h)"
proof (cases e)
  case HClear
  then show ?thesis by (simp add: hist_view_def hist_clear_all_def)
next
  case (HAdd l)
  show ?thesis
  proof (cases "l = [] \<or> (0 < used h \<and> last (hist_view h) = l)")
    case True
    then show ?thesis
      using HAdd hist_last [OF assms] length_hist_view [of h]
      by (cases "used h") (auto simp: hist_add_def spec_add_def simp flip: length_greater_0_conv)
  next
    case False
    have h': "hist_ok (hist_add l h)" using hist_ok_step [OF assms, of "HAdd l"] by simp
    have add: "hist_add l h = \<lparr>ring = (ring h)[tail h := fit 1024 l], tail = (tail h + 1) mod 100,
        used = (if used h < 100 then used h + 1 else used h)\<rparr>"
      using False hist_last [OF assms] by (auto simp: hist_add_def HIST_MAX_def HIST_LINE_def)
    have spec: "spec_add l (hist_view h) = drop (used h + 1 - 100) (hist_view h @ [fit 1024 l])"
      using False length_hist_view [of h]
      by (auto simp: spec_add_def HIST_MAX_def HIST_LINE_def simp flip: length_greater_0_conv)
    have "hist_view (hist_add l h) = drop (used h + 1 - 100) (hist_view h @ [fit 1024 l])"
    proof (rule nth_equalityI)
      show "length (hist_view (hist_add l h)) = length (drop (used h + 1 - 100) (hist_view h @ [fit 1024 l]))"
        using assms by (simp add: add hist_ok_def)
      fix i assume "i < length (hist_view (hist_add l h))"
      then have i: "i < used (hist_add l h)" by simp
      let ?d = "used h + 1 - 100"
      have p: "pos (hist_add l h) i = pos h (i + ?d)"
        using pos_shift [of "tail h" "used h" i] assms by (simp add: add pos_def hist_ok_def)
      have lt: "i + ?d < used h + 1" using assms i by (auto simp: add hist_ok_def split: if_splits)
      have tl: "pos h (used h) = tail h" using assms by (simp add: pos_def hist_ok_def)
      have "hist_view (hist_add l h) ! i = (ring h)[tail h := fit 1024 l] ! pos h (i + ?d)"
        using hist_view_nth [OF h' i] p by (simp add: add)
      also have "\<dots> = (hist_view h @ [fit 1024 l]) ! (i + ?d)"
      proof (cases "i + ?d = used h")
        case True
        then show ?thesis using assms tl by (simp add: nth_append hist_ok_def)
      next
        case False
        then have "i + ?d < used h" using lt by simp
        moreover have "pos h (i + ?d) \<noteq> tail h"
          using assms calculation by (rule pos_ne_tail) (use assms in \<open>auto simp: hist_ok_def\<close>)
        ultimately show ?thesis using assms by (simp add: nth_append hist_view_nth)
      qed
      also have "\<dots> = drop ?d (hist_view h @ [fit 1024 l]) ! i"
        using lt nth_drop [of ?d "hist_view h @ [fit 1024 l]" i] by (simp del: drop_append add: add.commute)
      finally show "hist_view (hist_add l h) ! i = drop ?d (hist_view h @ [fit 1024 l]) ! i" .
    qed
    then show ?thesis using HAdd spec by simp
  qed
qed

lemma hist_run_refines: "hist_ok h \<Longrightarrow>
    hist_view (fold hist_step es h) = fold spec_step es (hist_view h)"
  by (induction es arbitrary: h) (simp_all add: hist_step_refines hist_ok_step)

text \<open>C6: After any sequence of additions and clears the ring buffer shows exactly the list of the
  last 100 lines, without consecutive repetitions.\<close>

theorem history_refines_list:
  "hist_view (fold hist_step es hist_init) = fold spec_step es []"
  using hist_run_refines [OF hist_ok_init, of es] by (simp add: hist_init_def hist_view_def)

lemma history_lines: "map (history_line h) [int k..int (used h) - 1] =
    map (\<lambda>(i, l). pad_left 5 (show_int (int i)) @ ''  '' @ l @ [NL])
      (drop k (enumerate 1 (hist_view h)))"
proof (rule nth_equalityI)
  fix i assume "i < length (map (history_line h) [int k..int (used h) - 1])"
  then have i: "k + i < used h" by simp
  then have "hist_view h ! (k + i) = hist_get h (int k + int i)" by (simp add: hist_view_def)
  with i show "map (history_line h) [int k..int (used h) - 1] ! i =
      map (\<lambda>(i, l). pad_left 5 (show_int (int i)) @ ''  '' @ l @ [NL])
        (drop k (enumerate 1 (hist_view h))) ! i"
    by (simp add: history_line_def nth_enumerate_eq ac_simps)
qed simp

theorem history_prints_last:
  "fst (history_run False (Some N) (fold hist_step es hist_init)) =
     map (\<lambda>(i, l). pad_left 5 (show_int (int i)) @ ''  '' @ l @ [NL])
       (drop (if 0 < N then length (fold spec_step es []) - nat N else 0)
          (enumerate 1 (fold spec_step es [])))"
proof -
  let ?h = "fold hist_step es hist_init"
  have v: "hist_view ?h = fold spec_step es []"
    using hist_run_refines [OF hist_ok_init, of es] by (simp add: hist_init_def hist_view_def)
  have n: "length (fold spec_step es []) = used ?h" using length_hist_view [of ?h] v by simp
  let ?k = "if 0 < N then used ?h - nat N else 0"
  have "(if N > 0 \<and> N < int (used ?h) then int (used ?h) - N else 0) = int ?k"
    by (simp add: of_nat_diff)
  then have "fst (history_run False (Some N) ?h) = map (history_line ?h) [int ?k..int (used ?h) - 1]"
    by (simp only: history_run_def hist_total_def option.case if_False Let_def fst_conv)
  then show ?thesis by (simp only: history_lines v n)
qed

end
