(* ===== verification/Mcp_Tools.thy ===== *)
theory Mcp_Tools
  imports Json_Text Job_Table Registry
begin

text \<open>
  The tool handlers and the dispatcher of \<^verbatim>\<open>mcp_server.c\<close>. A handler is an interaction
  tree of type \<open>mcp\<close>: a leaf \<open>Reply s\<close> is the body it sends, every other node is one call of
  the operating system or of another component with its arguments, and a continuation that
  takes the result. Running a tree against an operating system means following the
  continuations, so a statement about all nodes of the tree holds whatever the system answers.
  The log calls (\<open>aishell_log\<close>) and the \<open>malloc\<close> failures, which send an error, are left out.
\<close>

section \<open>Texts\<close>

text \<open>JSON texts are written with backticks for the double quotes.\<close>

definition jq :: "cstring \<Rightarrow> cstring" where
  "jq s = map (\<lambda>c. if c = BTICK then DQ else c) s"

text \<open>The frame of \<open>send_framed\<close>: length, newline, body, newline.\<close>

definition send_framed :: "cstring \<Rightarrow> cstring" where
  "send_framed body = show_nat (length body) @ [NL] @ body @ [NL]"

text \<open>\<open>read_line\<close>: at most \<open>len - 1\<close> bytes up to a newline, without carriage returns.\<close>

fun read_line_go :: "nat \<Rightarrow> char list \<Rightarrow> cstring \<times> char list" where
  "read_line_go 0 inp = ([], inp)"
| "read_line_go (Suc m) [] = ([], [])"
| "read_line_go (Suc m) (c # inp) =
     (if c = NL then ([], inp)
      else if c = CR then read_line_go (Suc m) inp
      else (case read_line_go m inp of (l, r) \<Rightarrow> (c # l, r)))"

definition read_line :: "nat \<Rightarrow> char list \<Rightarrow> cstring \<times> char list" where
  "read_line len inp = read_line_go (len - 1) inp"

section \<open>Checks\<close>

definition ALLOWLIST :: "cstring list" where
  "ALLOWLIST =
    [''ls'', ''cat'', ''grep'', ''echo'', ''find'', ''du'', ''df'', ''ps'',
     ''wc'', ''sort'', ''uniq'', ''cut'', ''tr'', ''head'', ''tail'',
     ''pwd'', ''date'', ''which'', ''stat'', ''file'']"

definition is_allowed_command :: "cstring \<Rightarrow> bool" where
  "is_allowed_command cmd \<longleftrightarrow> cmd \<noteq> [] \<and> cmd \<in> set ALLOWLIST"

definition unsafe_patterns :: "cstring list" where
  "unsafe_patterns = ['';'', ''&&'', ''||'', [BTICK], ''$('', ''>&'']"

definition is_safe_args :: "cstring \<Rightarrow> bool" where
  "is_safe_args s \<longleftrightarrow> list_all (\<lambda>p. strstr s p = None) unsafe_patterns"

definition path_is_safe :: "cstring \<Rightarrow> bool" where
  "path_is_safe p \<longleftrightarrow> p \<noteq> [] \<and> strstr p ''..'' = None"

definition varname_start :: "char \<Rightarrow> bool" where
  "varname_start c \<longleftrightarrow> isalpha c \<or> c = CHR ''_''"

definition varname_char :: "char \<Rightarrow> bool" where
  "varname_char c \<longleftrightarrow> isalnum c \<or> c = CHR ''_''"

definition is_valid_varname :: "cstring \<Rightarrow> bool" where
  "is_valid_varname name \<longleftrightarrow>
     (case name of [] \<Rightarrow> False | c # s \<Rightarrow> varname_start c \<and> list_all varname_char s)"

text \<open>\<open>is_binary_file\<close> on the content of a readable file.\<close>

definition is_binary :: "char list \<Rightarrow> bool" where
  "is_binary bs \<longleftrightarrow> NUL \<in> set (take 512 bs)"

section \<open>Interaction trees\<close>

datatype fkind = KDir | KFile | KLink | KOther

record fstat =
  st_kind :: fkind
  st_size :: "64 word"
  st_mode :: nat
  st_mtime :: "64 word"
  st_tm :: "(nat \<times> nat \<times> nat \<times> nat \<times> nat \<times> nat) option"
  st_uid :: "32 word"
  st_gid :: "32 word"

text \<open>What \<open>fs.search\<close> sees of the file system while it walks it.\<close>

record snapshot =
  sn_dir :: "cstring \<Rightarrow> cstring list option"
  sn_stat :: "cstring \<Rightarrow> fkind option"
  sn_lstat :: "cstring \<Rightarrow> fkind option"
  sn_data :: "cstring \<Rightarrow> char list option"

datatype wmode = CreateOnly | Truncate | Append

datatype edit_call =
    EReplaceLine int cstring
  | EInsertLine int cstring
  | EDeleteLine int
  | EReplace cstring cstring

datatype mcp =
    Reply cstring
  | Popen cstring "char list option \<Rightarrow> mcp"
  | Status "64 word \<Rightarrow> 32 word \<Rightarrow> 64 word \<Rightarrow> mcp"
  | ReadRegistry "cmd_spec list \<Rightarrow> mcp"
  | OpenDir cstring "cstring + (cstring \<times> fstat option) list \<Rightarrow> mcp"
  | ReadAt cstring nat nat "cstring + char list \<Rightarrow> mcp"
  | OpenWrite cstring wmode cstring "cstring + 64 word \<Rightarrow> mcp"
  | StatPath cstring "cstring + fstat \<Rightarrow> mcp"
  | Regcomp cstring "(cstring \<Rightarrow> bool) option \<Rightarrow> mcp"
  | Walk cstring "snapshot \<Rightarrow> mcp"
  | ReadJobs "jobs \<Rightarrow> mcp"
  | SendSignal int int "cstring option \<Rightarrow> mcp"
  | WaitJob int int "32 word \<Rightarrow> mcp"
  | GetEnv cstring "cstring option \<Rightarrow> mcp"
  | SetEnv cstring cstring "cstring option \<Rightarrow> mcp"
  | SyncVar cstring cstring mcp
  | Environ "cstring list \<Rightarrow> mcp"
  | EditOp cstring edit_call "cstring + 32 word \<Rightarrow> mcp"

text \<open>An optional field keeps the default its buffer was initialised with.\<close>

definition json_field :: "cstring \<Rightarrow> cstring \<Rightarrow> nat \<Rightarrow> cstring \<Rightarrow> cstring" where
  "json_field json key n d = (case json_str json key n of Some v \<Rightarrow> v | None \<Rightarrow> d)"

definition missing :: "cstring \<Rightarrow> cstring" where
  "missing key = ''missing '' @ SQ # key @ [SQ]"

definition send_error :: "cstring \<Rightarrow> cstring \<Rightarrow> mcp" where
  "send_error tool msg = Reply (fit 512 (jq ''{`status`:`error`,`tool`:`'' @ tool @
     jq ''`,`message`:`'' @ json_escape msg 256 @ jq ''`}''))"

definition MCP_SERVER_PORT :: int where "MCP_SERVER_PORT = 9000"

section \<open>\<open>run_command\<close>, \<open>get_status\<close>, \<open>get_registry\<close>\<close>

definition run_command_reply :: "char list \<Rightarrow> cstring" where
  "run_command_reply out = fit 8448 (jq ''{`status`:`ok`,`tool`:`run_command`,`result`:`''
     @ json_escape (c_str (take 4095 out)) 8192 @ jq ''`}'')"

definition tool_run_command :: "cstring \<Rightarrow> mcp" where
  "tool_run_command json =
     (case json_str json ''command'' 128 of
        None \<Rightarrow> Reply (jq ''{`status`:`error`,`message`:`missing 'command' field`}'')
      | Some cmd_name \<Rightarrow>
          let cmd_args = json_field json ''args'' 512 [] in
          if \<not> is_allowed_command cmd_name
          then Reply (jq ''{`status`:`error`,`message`:`command not in allowlist`}'')
          else if cmd_args \<noteq> [] \<and> \<not> is_safe_args cmd_args
          then Reply (jq ''{`status`:`error`,`message`:`invalid characters in args`}'')
          else
            let cmd_line = fit 1024 (if cmd_args \<noteq> [] then cmd_name @ '' '' @ cmd_args @ '' 2>&1''
                                     else cmd_name @ '' 2>&1'') in
            Popen cmd_line (\<lambda>r. case r of
                None \<Rightarrow> Reply (jq ''{`status`:`error`,`message`:`popen failed`}'')
              | Some out \<Rightarrow>
                  Reply (run_command_reply out)))"

definition tool_get_status :: mcp where
  "tool_get_status = Status (\<lambda>uptime cli reqs.
     Reply (fit 512 (jq ''{`status`:`ok`,`tool`:`get_status`,`result`:{`server_port`:''
       @ show_int MCP_SERVER_PORT @ jq '',`uptime_seconds`:'' @ show_int (sint uptime)
       @ jq '',`connected_clients`:'' @ show_int (sint cli) @ jq '',`total_requests`:'' @ show_int (sint reqs)
       @ jq '',`log_file`:`aishell_calls.log`}}'')))"

definition rb_append :: "nat \<Rightarrow> cstring \<Rightarrow> cstring \<Rightarrow> cstring" where
  "rb_append cap s buf = (if length buf + length s + 1 < cap then buf @ s else buf)"

definition reg_entry :: "cmd_spec \<Rightarrow> cstring" where
  "reg_entry s = fit 512 (jq ''{`name`:`'' @ json_escape (spec_name s) 128
     @ jq ''`,`summary`:`'' @ json_escape (case summary s of Some t \<Rightarrow> t | None \<Rightarrow> []) 256 @ jq ''`}'')"

definition reg_cmd_cb :: "cmd_spec \<Rightarrow> cstring \<times> bool \<Rightarrow> cstring \<times> bool" where
  "reg_cmd_cb s rb = (case rb of (buf, is_first) \<Rightarrow>
     (rb_append 32768 (reg_entry s) (if is_first then buf else rb_append 32768 '','' buf), False))"

definition tool_get_registry :: mcp where
  "tool_get_registry = ReadRegistry (\<lambda>reg.
     let buf0 = rb_append 32768 (jq ''{`status`:`ok`,`tool`:`get_registry`,`commands`:['') [];
         (buf, f) = for_each_command reg_cmd_cb reg (buf0, True)
     in Reply (rb_append 32768 '']}'' buf))"

section \<open>The \<open>fs.*\<close> tools\<close>

definition show_octal4 :: "nat \<Rightarrow> cstring" where
  "show_octal4 m = [CHR ''0'', digit_char (m div 64 mod 8), digit_char (m div 8 mod 8), digit_char (m mod 8)]"

definition two_digits :: "nat \<Rightarrow> cstring" where
  "two_digits n = [digit_char (n div 10 mod 10), digit_char (n mod 10)]"

text \<open>The \<open>strftime\<close> format \<open>%Y-%m-%dT%H:%M:%SZ\<close>.\<close>

definition iso_time :: "nat \<times> nat \<times> nat \<times> nat \<times> nat \<times> nat \<Rightarrow> cstring" where
  "iso_time tm = (case tm of (y, mo, d, h, mi, sec) \<Rightarrow>
     show_nat y @ ''-'' @ two_digits mo @ ''-'' @ two_digits d @ ''T'' @ two_digits h @ '':''
     @ two_digits mi @ '':'' @ two_digits sec @ ''Z'')"

definition fs_list_entry :: "bool \<Rightarrow> cstring \<times> fstat option \<Rightarrow> cstring" where
  "fs_list_entry is_first e = (case e of (name, st) \<Rightarrow>
     let (type, size, mode, mtime) = (case st of
            None \<Rightarrow> (''unknown'', 0, ''0000'', '''')
          | Some s \<Rightarrow> (case st_kind s of KDir \<Rightarrow> ''dir'' | KLink \<Rightarrow> ''link'' | _ \<Rightarrow> ''file'',
              sint (st_size s), show_octal4 (st_mode s),
              (case st_tm s of None \<Rightarrow> [] | Some tm \<Rightarrow> fit 32 (iso_time tm))))
     in (if is_first then [] else '','') @ jq ''{`name`:`'' @ json_escape name 256
        @ jq ''`,`type`:`'' @ type @ jq ''`,`size`:'' @ show_int size
        @ jq '',`mode`:`'' @ mode @ jq ''`,`mtime`:`'' @ mtime @ jq ''`}'')"

fun fs_list_go :: "cstring \<Rightarrow> bool \<Rightarrow> (cstring \<times> fstat option) list \<Rightarrow> cstring" where
  "fs_list_go buf is_first [] = buf"
| "fs_list_go buf is_first (e # es) =
     (if fst e = ''.'' \<or> fst e = ''..'' then fs_list_go buf is_first es
      else if length buf + length (fs_list_entry is_first e) + 4 < 65536
      then fs_list_go (buf @ fs_list_entry is_first e) False es
      else fs_list_go buf is_first es)"

definition tool_fs_list :: "cstring \<Rightarrow> mcp" where
  "tool_fs_list json =
     (let path = json_field json ''path'' 512 ''.'' in
      if \<not> path_is_safe path then send_error ''fs.list'' ''path traversal rejected''
      else OpenDir path (\<lambda>r. case r of
          Inl e \<Rightarrow> send_error ''fs.list'' (fit 128 (''cannot open: '' @ e))
        | Inr es \<Rightarrow>
            Reply (fs_list_go (jq ''{`status`:`ok`,`tool`:`fs.list`,`result`:['') True es @ '']}'')))"

definition tool_fs_read :: "cstring \<Rightarrow> mcp" where
  "tool_fs_read json =
     (let path = json_field json ''path'' 512 [] in
      if path = [] then send_error ''fs.read'' (missing ''path'')
      else
        let offset_s = json_field json ''offset'' 32 ''0''; length_s = json_field json ''length'' 32 ''0'' in
        if \<not> path_is_safe path then send_error ''fs.read'' ''path traversal rejected''
        else
          let off = atoi offset_s; off = (if off < 0 then 0 else off);
              len = atoi length_s; len = (if len \<le> 0 \<or> 65536 < len then 65536 else len) in
          ReadAt path (nat off) (nat len) (\<lambda>r. case r of
              Inl e \<Rightarrow> send_error ''fs.read'' (fit 128 (''cannot open: '' @ e))
            | Inr raw \<Rightarrow> Reply (jq ''{`status`:`ok`,`tool`:`fs.read`,`bytes_read`:''
                @ show_nat (length raw) @ jq '',`content`:`''
                @ json_escape (c_str raw) (length raw * 6 + 32) @ jq ''`}'')))"

definition tool_fs_write :: "cstring \<Rightarrow> mcp" where
  "tool_fs_write json =
     (let path = json_field json ''path'' 512 [] in
      if path = [] then send_error ''fs.write'' (missing ''path'')
      else
        let raw_content = json_field json ''content'' 4096 [];
            mode = json_field json ''mode'' 32 ''overwrite'' in
        if \<not> path_is_safe path then send_error ''fs.write'' ''path traversal rejected''
        else OpenWrite path (if mode = ''create_only'' then CreateOnly else Truncate)
               (json_unescape raw_content 4096) (\<lambda>r. case r of
            Inl e \<Rightarrow> send_error ''fs.write'' (fit 128 (''open failed: '' @ e))
          | Inr nw \<Rightarrow> Reply (fit 128 (jq ''{`status`:`ok`,`tool`:`fs.write`,`bytes_written`:''
              @ show_int (sint nw) @ ''}''))))"

definition tool_fs_append :: "cstring \<Rightarrow> mcp" where
  "tool_fs_append json =
     (let path = json_field json ''path'' 512 [] in
      if path = [] then send_error ''fs.append'' (missing ''path'')
      else
        let raw_content = json_field json ''content'' 4096 [] in
        if \<not> path_is_safe path then send_error ''fs.append'' ''path traversal rejected''
        else OpenWrite path Append (json_unescape raw_content 4096) (\<lambda>r. case r of
            Inl e \<Rightarrow> send_error ''fs.append'' (fit 128 (''open failed: '' @ e))
          | Inr nw \<Rightarrow> Reply (fit 128 (jq ''{`status`:`ok`,`tool`:`fs.append`,`bytes_written`:''
              @ show_int (sint nw) @ ''}''))))"

definition show_bool :: "bool \<Rightarrow> cstring" where
  "show_bool b = (if b then ''true'' else ''false'')"

definition tool_fs_stat :: "cstring \<Rightarrow> mcp" where
  "tool_fs_stat json =
     (let path = json_field json ''path'' 512 [] in
      if path = [] then send_error ''fs.stat'' (missing ''path'')
      else if \<not> path_is_safe path then send_error ''fs.stat'' ''path traversal rejected''
      else StatPath path (\<lambda>r. case r of
          Inl e \<Rightarrow> send_error ''fs.stat'' (fit 128 (''stat failed: '' @ e))
        | Inr s \<Rightarrow> Reply (fit 512 (jq ''{`status`:`ok`,`tool`:`fs.stat`,`result`:{`size`:''
            @ show_int (sint (st_size s)) @ jq '',`mode`:`'' @ show_octal4 (st_mode s)
            @ jq ''`,`is_dir`:'' @ show_bool (st_kind s = KDir)
            @ jq '',`is_file`:'' @ show_bool (st_kind s = KFile)
            @ jq '',`is_link`:'' @ show_bool (st_kind s = KLink)
            @ jq '',`mtime`:'' @ show_int (sint (st_mtime s))
            @ jq '',`uid`:'' @ show_nat (unat (st_uid s)) @ jq '',`gid`:'' @ show_nat (unat (st_gid s)) @ ''}}''))))"

definition FS_SEARCH_MAX :: nat where "FS_SEARCH_MAX = 100"

record fss_ctx =
  fss_buf :: cstring
  fss_count :: nat
  fss_first :: bool

definition fss_entry :: "bool \<Rightarrow> cstring \<Rightarrow> nat \<Rightarrow> cstring \<Rightarrow> cstring" where
  "fss_entry is_first path lineno line = (if is_first then [] else '','') @ jq ''`'' @ json_escape path 512
     @ '':'' @ show_int (to_int (int lineno)) @ '':'' @ json_escape line 512 @ jq ''`''"

definition fss_append :: "cstring \<Rightarrow> nat \<Rightarrow> cstring \<Rightarrow> fss_ctx \<Rightarrow> fss_ctx" where
  "fss_append path lineno line c =
     (if FS_SEARCH_MAX \<le> fss_count c then c
      else
        let entry = fss_entry (fss_first c) path lineno line in
        if length (fss_buf c) + length entry + 8 < 131072
        then c\<lparr>fss_buf := fss_buf c @ entry, fss_first := False, fss_count := fss_count c + 1\<rparr>
        else c)"

text \<open>The text of one \<open>fgets\<close> result, without its newline.\<close>

definition line_text :: "cstring \<Rightarrow> cstring" where
  "line_text l = (let t = c_str l in if t \<noteq> [] \<and> last t = NL then butlast t else t)"

fun fss_lines :: "(cstring \<Rightarrow> bool) \<Rightarrow> cstring \<Rightarrow> nat \<Rightarrow> cstring list \<Rightarrow> fss_ctx \<Rightarrow> fss_ctx" where
  "fss_lines re path lineno [] c = c"
| "fss_lines re path lineno (l # ls) c =
     (if fss_count c < FS_SEARCH_MAX
      then fss_lines re path (lineno + 1) ls
             (if re (line_text l) then fss_append path (lineno + 1) (line_text l) c else c)
      else c)"

definition fss_file :: "snapshot \<Rightarrow> (cstring \<Rightarrow> bool) \<Rightarrow> cstring \<Rightarrow> fss_ctx \<Rightarrow> fss_ctx" where
  "fss_file sn re path c = (case sn_data sn path of
      None \<Rightarrow> c
    | Some bs \<Rightarrow> if is_binary bs then c else fss_lines re path 0 (fgets_all 1024 bs) c)"

text \<open>The recursion, at most 16 directories deep below the start; \<open>n\<close> is \<open>17 - depth\<close>.\<close>

fun fss_recurse :: "snapshot \<Rightarrow> (cstring \<Rightarrow> bool) \<Rightarrow> nat \<Rightarrow> cstring \<Rightarrow> fss_ctx \<Rightarrow> fss_ctx" where
  "fss_recurse sn re 0 path c = c"
| "fss_recurse sn re (Suc n) path c =
     (if FS_SEARCH_MAX \<le> fss_count c then c
      else (case sn_dir sn path of
          None \<Rightarrow> if sn_stat sn path = Some KFile then fss_file sn re path c else c
        | Some names \<Rightarrow>
            fold (\<lambda>name c.
              if FS_SEARCH_MAX \<le> fss_count c then c
              else if name \<noteq> [] \<and> hd name = CHR ''.'' then c
              else
                let child = fit 1024 (path @ ''/'' @ name) in
                (case sn_lstat sn child of
                   Some KDir \<Rightarrow> fss_recurse sn re n child c
                 | Some KFile \<Rightarrow> fss_file sn re child c
                 | _ \<Rightarrow> c)) names c))"

definition tool_fs_search :: "cstring \<Rightarrow> mcp" where
  "tool_fs_search json =
     (let path = json_field json ''path'' 512 ''.''; pattern = json_field json ''pattern'' 256 [] in
      if pattern = [] then send_error ''fs.search'' (missing ''pattern'')
      else if \<not> path_is_safe path then send_error ''fs.search'' ''path traversal rejected''
      else Regcomp pattern (\<lambda>re. case re of
          None \<Rightarrow> send_error ''fs.search'' ''invalid regex pattern''
        | Some re \<Rightarrow> Walk path (\<lambda>sn.
            let c = fss_recurse sn re 17 path
                      \<lparr>fss_buf = jq ''{`status`:`ok`,`tool`:`fs.search`,`results`:['',
                       fss_count = 0, fss_first = True\<rparr>
            in Reply (fss_buf c @ fit (131072 - length (fss_buf c))
                 (jq ''],`count`:'' @ show_nat (fss_count c) @ ''}'')))))"

section \<open>The \<open>proc.*\<close> tools\<close>

definition tool_proc_list :: mcp where
  "tool_proc_list = ReadJobs (\<lambda>js. let arr = proc_list_json 8192 js in
     Reply (fit (length arr + 64) (jq ''{`status`:`ok`,`tool`:`proc.list`,`result`:'' @ arr @ ''}'')))"

definition job_error :: "cstring \<Rightarrow> mcp" where
  "job_error msg = Reply (fit 256 (jq ''{`status`:`error`,`message`:`'' @ msg @ jq ''`}''))"

definition tool_proc_kill :: "cstring \<Rightarrow> mcp" where
  "tool_proc_kill json =
     (let id_s = json_field json ''job_id'' 32 []; sig_s = json_field json ''signal'' 32 ''SIGTERM'' in
      if id_s = [] then send_error ''proc.kill'' (missing ''job_id'')
      else let job_id = atoi id_s in
        ReadJobs (\<lambda>js. case proc_kill_json job_id sig_s js of
            KillThread \<Rightarrow> job_error (''job '' @ show_int job_id
              @ '' is a background thread, not a process '' @ [CHR 0xE2, CHR 0x80, CHR 0x94]
              @ '' cannot send signal'')
          | KillNoJob \<Rightarrow> job_error (''job '' @ show_int job_id @ '' not found'')
          | KillSend p s \<Rightarrow> SendSignal p s (\<lambda>e. case e of
                Some msg \<Rightarrow> job_error msg
              | None \<Rightarrow> Reply (fit 256 (jq ''{`status`:`ok`,`tool`:`proc.kill`,`result`:{`job_id`:''
                  @ show_int job_id @ jq '',`pid`:'' @ show_int p @ jq '',`signal`:`'' @ sig_s @ jq ''`}}'')))))"

definition wait_reply :: "int \<Rightarrow> int \<Rightarrow> mcp" where
  "wait_reply job_id ec = Reply (fit 256 (jq ''{`status`:`ok`,`tool`:`proc.wait`,`result`:{`job_id`:''
     @ show_int job_id @ jq '',`exit_code`:'' @ show_int ec @ ''}}''))"

definition tool_proc_wait :: "cstring \<Rightarrow> mcp" where
  "tool_proc_wait json =
     (let id_s = json_field json ''job_id'' 32 [] in
      if id_s = [] then send_error ''proc.wait'' (missing ''job_id'')
      else let job_id = atoi id_s in
        ReadJobs (\<lambda>js. case proc_wait_begin job_id js of
            WaitNoJob \<Rightarrow> job_error (''job '' @ show_int job_id @ '' not found'')
          | WaitThread \<Rightarrow> job_error ''cannot wait on detached background thread''
          | WaitDone ec \<Rightarrow> wait_reply job_id ec
          | WaitBlock p \<Rightarrow> WaitJob job_id p (\<lambda>ec. wait_reply job_id (sint ec))))"

section \<open>The \<open>env.*\<close> tools\<close>

definition tool_env_get :: "cstring \<Rightarrow> mcp" where
  "tool_env_get json =
     (let name = json_field json ''name'' 128 [] in
      if name = [] then send_error ''env.get'' (missing ''name'')
      else GetEnv name (\<lambda>v. Reply (fit 2048 (jq ''{`status`:`ok`,`tool`:`env.get`,`result`:{`name`:`''
        @ json_escape name 256 @ (case v of
            Some w \<Rightarrow> jq ''`,`value`:`'' @ json_escape w 1536 @ jq ''`}}''
          | None \<Rightarrow> jq ''`,`value`:null}}'')))))"

definition tool_env_set :: "cstring \<Rightarrow> mcp" where
  "tool_env_set json =
     (let name = json_field json ''name'' 128 [] in
      if name = [] then send_error ''env.set'' (missing ''name'')
      else (case json_str json ''value'' 1024 of
          None \<Rightarrow> send_error ''env.set'' (missing ''value'')
        | Some v \<Rightarrow>
            if \<not> is_valid_varname name then send_error ''env.set'' ''invalid variable name''
            else SetEnv name v (\<lambda>e. case e of
                Some msg \<Rightarrow> send_error ''env.set'' msg
              | None \<Rightarrow> SyncVar name v
                  (Reply (fit 1536 (jq ''{`status`:`ok`,`tool`:`env.set`,`result`:{`name`:`''
                    @ json_escape name 256 @ jq ''`,`value`:`'' @ json_escape v 1024 @ jq ''`}}''))))))"

definition env_entry :: "bool \<Rightarrow> cstring \<Rightarrow> cstring \<Rightarrow> cstring" where
  "env_entry is_first rawname rawval = (if is_first then [] else '','') @ jq ''`'' @ json_escape rawname 512
     @ jq ''`:`'' @ json_escape rawval 512 @ jq ''`''"

fun env_list_go :: "nat \<Rightarrow> cstring \<Rightarrow> bool \<Rightarrow> cstring list \<Rightarrow> cstring" where
  "env_list_go 0 buf is_first es = buf"
| "env_list_go (Suc n) buf is_first [] = buf"
| "env_list_go (Suc n) buf is_first (e # es) =
     (case split_at (CHR ''='') e of
        None \<Rightarrow> env_list_go n buf is_first es
      | Some (rawname, rawval) \<Rightarrow>
          if 256 \<le> length rawname then env_list_go n buf is_first es
          else
            if 65536 \<le> length buf + length (env_entry is_first rawname rawval) + 8 then buf
            else env_list_go n (buf @ env_entry is_first rawname rawval) False es)"

definition tool_env_list :: mcp where
  "tool_env_list = Environ (\<lambda>es.
     Reply (env_list_go 200 (jq ''{`status`:`ok`,`tool`:`env.list`,`result`:{'') True es @ ''}}''))"

section \<open>The \<open>edit.*\<close> tools\<close>

definition tool_edit_replace_line :: "cstring \<Rightarrow> mcp" where
  "tool_edit_replace_line json =
     (let path = json_field json ''path'' 512 []; line_s = json_field json ''line'' 32 [] in
      if path = [] then send_error ''edit.replace_line'' (missing ''path'')
      else if line_s = [] then send_error ''edit.replace_line'' (missing ''line'')
      else (case json_str json ''text'' 4096 of
          None \<Rightarrow> send_error ''edit.replace_line'' (missing ''text'')
        | Some txt \<Rightarrow> let n = atoi line_s in
            EditOp path (EReplaceLine n txt) (\<lambda>r. case r of
                Inl e \<Rightarrow> send_error ''edit.replace_line'' e
              | Inr _ \<Rightarrow> Reply (fit 256 (jq ''{`status`:`ok`,`tool`:`edit.replace_line`,`result`:{`line`:''
                  @ show_int n @ ''}}'')))))"

definition tool_edit_insert_line :: "cstring \<Rightarrow> mcp" where
  "tool_edit_insert_line json =
     (let path = json_field json ''path'' 512 []; line_s = json_field json ''line'' 32 [] in
      if path = [] then send_error ''edit.insert_line'' (missing ''path'')
      else if line_s = [] then send_error ''edit.insert_line'' (missing ''line'')
      else (case json_str json ''text'' 4096 of
          None \<Rightarrow> send_error ''edit.insert_line'' (missing ''text'')
        | Some txt \<Rightarrow> let n = atoi line_s in
            EditOp path (EInsertLine n txt) (\<lambda>r. case r of
                Inl e \<Rightarrow> send_error ''edit.insert_line'' e
              | Inr _ \<Rightarrow> Reply (fit 256 (jq ''{`status`:`ok`,`tool`:`edit.insert_line`,`result`:{`inserted_before_line`:''
                  @ show_int n @ ''}}'')))))"

definition tool_edit_delete_line :: "cstring \<Rightarrow> mcp" where
  "tool_edit_delete_line json =
     (let path = json_field json ''path'' 512 []; line_s = json_field json ''line'' 32 [] in
      if path = [] then send_error ''edit.delete_line'' (missing ''path'')
      else if line_s = [] then send_error ''edit.delete_line'' (missing ''line'')
      else let n = atoi line_s in
        EditOp path (EDeleteLine n) (\<lambda>r. case r of
            Inl e \<Rightarrow> send_error ''edit.delete_line'' e
          | Inr _ \<Rightarrow> Reply (fit 256 (jq ''{`status`:`ok`,`tool`:`edit.delete_line`,`result`:{`deleted_line`:''
              @ show_int n @ ''}}''))))"

definition tool_edit_replace :: "cstring \<Rightarrow> mcp" where
  "tool_edit_replace json =
     (let path = json_field json ''path'' 512 []; pattern = json_field json ''pattern'' 1024 [] in
      if path = [] then send_error ''edit.replace'' (missing ''path'')
      else if pattern = [] then send_error ''edit.replace'' (missing ''pattern'')
      else (case json_str json ''replacement'' 1024 of
          None \<Rightarrow> send_error ''edit.replace'' (missing ''replacement'')
        | Some repl \<Rightarrow>
            EditOp path (EReplace pattern repl) (\<lambda>r. case r of
                Inl e \<Rightarrow> send_error ''edit.replace'' e
              | Inr nrep \<Rightarrow> Reply (fit 256 (jq ''{`status`:`ok`,`tool`:`edit.replace`,`result`:{`replacements`:''
                  @ show_int (sint nrep) @ ''}}'')))))"

section \<open>\<open>list_tools\<close> and the dispatcher\<close>

text \<open>The advertised tools: name, description, parameters with type and rest, required ones.\<close>

type_synonym tool_decl = "cstring \<times> cstring \<times> (cstring \<times> cstring \<times> cstring) list \<times> cstring list"

definition tool_decls :: "tool_decl list" where
  "tool_decls = [
     (''run_command'', ''Run an allowlisted AiShell built-in command'',
       [(''command'', ''string'', ''''), (''args'', ''string'', '''')], [''command'']),
     (''list_tools'', ''List all available MCP tools'',
       [], []),
     (''get_status'', ''Get server status and metrics'',
       [], []),
     (''get_registry'', ''Get all registered shell commands'',
       [], []),
     (''fs.list'', ''List directory contents'',
       [(''path'', ''string'', '''')], [''path'']),
     (''fs.read'', ''Read file content (up to 64 KB)'',
       [(''path'', ''string'', ''''), (''offset'', ''integer'', ''''), (''length'', ''integer'', '''')], [''path'']),
     (''fs.write'', ''Write content to a file'',
       [(''path'', ''string'', ''''), (''content'', ''string'', ''''), (''mode'', ''string'', '',`enum`:[`overwrite`,`create_only`]'')], [''path'', ''content'']),
     (''fs.append'', ''Append content to a file'',
       [(''path'', ''string'', ''''), (''content'', ''string'', '''')], [''path'', ''content'']),
     (''fs.stat'', ''Get file or directory metadata'',
       [(''path'', ''string'', '''')], [''path'']),
     (''fs.search'', ''Recursive regex search in files (max 100 matches)'',
       [(''path'', ''string'', ''''), (''pattern'', ''string'', '''')], [''path'', ''pattern'']),
     (''proc.list'', ''List all shell background jobs (process and thread)'',
       [], []),
     (''proc.kill'', ''Send a signal to a background job by job_id'',
       [(''job_id'', ''integer'', ''''), (''signal'', ''string'', '',`description`:`Signal name (SIGTERM, SIGKILL, SIGINT, SIGHUP, SIGSTOP, SIGCONT) or number`'')], [''job_id'']),
     (''proc.wait'', ''Block until a background process job exits; returns exit_code'',
       [(''job_id'', ''integer'', '''')], [''job_id'']),
     (''env.get'', ''Get the value of an environment variable (null if unset)'',
       [(''name'', ''string'', '''')], [''name'']),
     (''env.set'', ''Set an environment variable (name must match [A-Za-z_][A-Za-z0-9_]*)'',
       [(''name'', ''string'', ''''), (''value'', ''string'', '''')], [''name'', ''value'']),
     (''env.list'', ''List all environment variables as a JSON object'',
       [], []),
     (''edit.replace_line'', ''Replace line N (1-indexed) in a file with new text'',
       [(''path'', ''string'', ''''), (''line'', ''integer'', ''''), (''text'', ''string'', '''')], [''path'', ''line'', ''text'']),
     (''edit.insert_line'', ''Insert text before line N (N=count+1 appends)'',
       [(''path'', ''string'', ''''), (''line'', ''integer'', ''''), (''text'', ''string'', '''')], [''path'', ''line'', ''text'']),
     (''edit.delete_line'', ''Delete line N from a file'',
       [(''path'', ''string'', ''''), (''line'', ''integer'', '''')], [''path'', ''line'']),
     (''edit.replace'', ''Global literal-string replace in a file'',
       [(''path'', ''string'', ''''), (''pattern'', ''string'', ''''), (''replacement'', ''string'', '''')], [''path'', ''pattern'', ''replacement''])]"

fun commas :: "cstring list \<Rightarrow> cstring" where
  "commas [] = []"
| "commas [s] = s"
| "commas (s # t # ts) = s @ '','' @ commas (t # ts)"

definition tool_text :: "tool_decl \<Rightarrow> cstring" where
  "tool_text d = (case d of (name, descr, props, req) \<Rightarrow>
     jq ''{`name`:`'' @ name @ jq ''`,`description`:`'' @ descr
     @ jq ''`,`parameters`:{`type`:`object`,`properties`:{''
     @ commas (map (\<lambda>(p, t, x). jq ''`'' @ p @ jq ''`:{`type`:`'' @ t @ jq ''`'' @ jq x @ ''}'') props)
     @ ''}'' @ (if req = [] then [] else jq '',`required`:['' @ commas (map (\<lambda>r. jq ''`'' @ r @ jq ''`'') req) @ '']'')
     @ ''}}'')"

definition tool_list_tools :: mcp where
  "tool_list_tools = Reply (jq ''{`status`:`ok`,`tool`:`list_tools`,`result`:[''
     @ commas (map tool_text tool_decls) @ '']}'')"

definition dispatch_tool :: "cstring \<Rightarrow> cstring \<Rightarrow> mcp option" where
  "dispatch_tool tool json =
     (if tool = ''run_command'' then Some (tool_run_command json)
      else if tool = ''list_tools'' then Some tool_list_tools
      else if tool = ''get_status'' then Some tool_get_status
      else if tool = ''get_registry'' then Some tool_get_registry
      else if tool = ''fs.list'' then Some (tool_fs_list json)
      else if tool = ''fs.read'' then Some (tool_fs_read json)
      else if tool = ''fs.write'' then Some (tool_fs_write json)
      else if tool = ''fs.append'' then Some (tool_fs_append json)
      else if tool = ''fs.stat'' then Some (tool_fs_stat json)
      else if tool = ''fs.search'' then Some (tool_fs_search json)
      else if tool = ''proc.list'' then Some tool_proc_list
      else if tool = ''proc.kill'' then Some (tool_proc_kill json)
      else if tool = ''proc.wait'' then Some (tool_proc_wait json)
      else if tool = ''env.get'' then Some (tool_env_get json)
      else if tool = ''env.set'' then Some (tool_env_set json)
      else if tool = ''env.list'' then Some tool_env_list
      else if tool = ''edit.replace_line'' then Some (tool_edit_replace_line json)
      else if tool = ''edit.insert_line'' then Some (tool_edit_insert_line json)
      else if tool = ''edit.delete_line'' then Some (tool_edit_delete_line json)
      else if tool = ''edit.replace'' then Some (tool_edit_replace json)
      else None)"

text \<open>
  \<open>handle_mcp_json\<close>: the tree of the answer, and whether the request was counted in
  \<open>g_total_requests\<close>.
\<close>

definition handle_mcp_json :: "bool \<Rightarrow> cstring \<Rightarrow> mcp \<times> bool" where
  "handle_mcp_json local first_line =
     (if \<not> local then (Reply (jq ''{`status`:`error`,`message`:`only localhost connections allowed`}''), False)
      else if first_line = [] \<or> hd first_line \<noteq> CHR ''{''
      then (Reply (jq ''{`status`:`error`,`message`:`invalid JSON`}''), False)
      else (case json_str first_line ''tool'' 64 of
          None \<Rightarrow> (Reply (jq ''{`status`:`error`,`message`:`missing 'tool' field`}''), False)
        | Some tool \<Rightarrow>
            (case dispatch_tool tool first_line of
               Some t \<Rightarrow> t
             | None \<Rightarrow> Reply (fit 128 (jq ''{`status`:`error`,`message`:`unknown tool ''
                 @ SQ # json_escape tool 64 @ [SQ] @ jq ''`}'')), True)))"

end
