(* ===== verification/Mcp_Client.thy ===== *)
theory Mcp_Client
  imports Mcp_Tools
begin

text \<open>
  The MCP client of \<^verbatim>\<open>mcp_client.c\<close>: its own escaping, the extraction of a string field
  from a reply (\<open>json_extract\<close>), the request of \<open>mcp_query\<close> and what it makes of the received
  bytes; then the exchange with the server's dispatcher. Connecting, sending and receiving are
  the network: \<open>mcp_query\<close> takes the received bytes.
\<close>

fun client_escape_go :: "nat \<Rightarrow> nat \<Rightarrow> cstring \<Rightarrow> cstring" where
  "client_escape_go i dstsz [] = []"
| "client_escape_go i dstsz (c # src) =
     (if i + 2 < dstsz
      then esc_char c @ client_escape_go (i + length (esc_char c)) dstsz src
      else [])"

definition client_escape :: "cstring \<Rightarrow> nat \<Rightarrow> cstring" where
  "client_escape src dstsz = client_escape_go 0 dstsz src"

lemma client_escape_go_eq: "client_escape_go i n s = json_escape_go i (n + 2) s"
  by (induction s arbitrary: i) simp_all

lemma client_escape_body: "json_body (client_escape s n)"
  by (simp add: client_escape_def client_escape_go_eq json_body_escape_go)

lemma client_escape_length: "0 < n \<Longrightarrow> length (client_escape s n) < max 1 n"
  using json_escape_go_bound [of 0 "n + 2" s] by (simp add: client_escape_def client_escape_go_eq)

definition extract_char :: "char \<Rightarrow> char" where
  "extract_char d = (case unesc_char d of Some e \<Rightarrow> e | None \<Rightarrow> d)"

fun json_extract_go :: "nat \<Rightarrow> nat \<Rightarrow> cstring \<Rightarrow> cstring" where
  "json_extract_go i outsz [] = []"
| "json_extract_go i outsz (c # s) =
     (if i < outsz - 1
      then (if c = BSLASH
            then (case s of
                    [] \<Rightarrow> [c]
                  | d # r \<Rightarrow> extract_char d # json_extract_go (Suc i) outsz r)
            else if c = DQ then []
            else c # json_extract_go (Suc i) outsz s)
      else [])"

definition json_extract :: "cstring \<Rightarrow> cstring \<Rightarrow> nat \<Rightarrow> cstring option" where
  "json_extract json key outsz =
     (let pat = fit 128 (DQ # key @ [DQ, CHR '':'', DQ]) in
      case strstr json pat of
        None \<Rightarrow> None
      | Some k \<Rightarrow> Some (json_extract_go 0 outsz (drop (k + length pat) json)))"

text \<open>An escaped value is read back, up to the size of the buffer.\<close>

lemma extract_escape_go:
  assumes "\<forall>c\<in>set src. json_keeps c" "i + 2 * length src + 4 \<le> m" "j + length src < n"
  shows "json_extract_go j n (json_escape_go i m src @ DQ # r) = src"
  using assms
proof (induction src arbitrary: i j)
  case (Cons c src)
  have IH: "json_extract_go (Suc j) n (json_escape_go (i + length (esc_char c)) m src @ DQ # r) = src"
    using Cons.prems length_esc_char [of c] by (intro Cons.IH) auto
  have keeps: "json_keeps c" using Cons.prems(1) by simp
  have len: "i + 4 < m" "j < n - 1" using Cons.prems by auto
  from keeps show ?case
  proof (cases rule: esc_char_cases)
    case (pair d)
    then show ?thesis using IH len by (simp add: extract_char_def)
  next
    case single
    moreover have "c \<noteq> DQ" using single keeps by (auto simp: esc_char_def split: if_splits)
    ultimately show ?thesis using IH len by simp
  qed
qed (simp add: shell_defs)

section \<open>The request and the reply\<close>

definition mcp_request :: "cstring \<Rightarrow> cstring" where
  "mcp_request query = fit 2048 (jq ''{`type`:`mcp`,`tool`:`run_command`,`params`:{`query`:`''
     @ client_escape query 1024 @ jq ''`,`shell`:`aishell`,`version`:`week8`}}'' @ [NL])"

record mcp_response =
  success :: bool
  result :: cstring
  command_used :: cstring
  error_msg :: cstring

definition no_response :: mcp_response where
  "no_response = \<lparr>success = False, result = [], command_used = [], error_msg = []\<rparr>"

text \<open>
  The outcome of the network part: no connection, a failed send or receive (with its error
  text), or the bytes received before the server closed the connection.
\<close>

datatype exchange = NoConnect | SendFailed cstring | RecvFailed cstring | Received "char list"

definition mcp_parse :: "cstring \<Rightarrow> mcp_response" where
  "mcp_parse raw =
     (let status_val = (case json_extract raw ''status'' 32 of Some v \<Rightarrow> v | None \<Rightarrow> []) in
      if status_val = ''ok''
      then no_response\<lparr>success := True,
             result := (case json_extract raw ''result'' 4096 of Some v \<Rightarrow> v | None \<Rightarrow> []),
             command_used := (case json_extract raw ''command_used'' 512 of Some v \<Rightarrow> v | None \<Rightarrow> [])\<rparr>
      else
        let msg = (case json_extract raw ''message'' 256 of Some v \<Rightarrow> v | None \<Rightarrow> []) in
        no_response\<lparr>error_msg := fit 256
          (if msg = [] then fit 256 (''server returned status: ''
             @ (if status_val \<noteq> [] then status_val else ''unknown'')) else msg)\<rparr>)"

definition mcp_query :: "cstring \<Rightarrow> (cstring \<Rightarrow> exchange) \<Rightarrow> mcp_response" where
  "mcp_query query net =
     (if query = [] then no_response\<lparr>error_msg := ''empty query''\<rparr>
      else (case net (mcp_request query) of
          NoConnect \<Rightarrow> no_response\<lparr>error_msg := ''cannot connect to MCP server at 127.0.0.1:9000''\<rparr>
        | SendFailed e \<Rightarrow> no_response\<lparr>error_msg := fit 256 (''send failed: '' @ e)\<rparr>
        | RecvFailed e \<Rightarrow> no_response\<lparr>error_msg := fit 256 (''recv failed: '' @ e)\<rparr>
        | Received bs \<Rightarrow>
            (let raw = take 8191 bs in
             if raw = [] then no_response\<lparr>error_msg := ''MCP server closed connection without response''\<rparr>
             else mcp_parse (c_str raw))))"

text \<open>
  A connection to the server: it reads one line and sends one framed answer. \<open>run\<close> follows a
  tree to its reply, as the operating system would.
\<close>

definition server_answer :: "(mcp \<Rightarrow> cstring) \<Rightarrow> char list \<Rightarrow> char list" where
  "server_answer run bytes =
     send_framed (run (fst (handle_mcp_json True (fst (read_line 4097 bytes)))))"

section \<open>What the server makes of the client's request\<close>

lemma read_line_go_line:
  "NL \<notin> set xs \<Longrightarrow> CR \<notin> set xs \<Longrightarrow> length xs \<le> m \<Longrightarrow> fst (read_line_go m (xs @ [NL])) = xs"
proof (induction xs arbitrary: m)
  case Nil
  then show ?case by (cases m) simp_all
next
  case (Cons c xs)
  then obtain k where "m = Suc k" by (cases m) auto
  with Cons show ?case by (auto simp: shell_defs split: prod.split)
      (metis Cons.IH Cons.prems fst_conv list.set_intros(2) set_ConsD Suc_le_mono length_Cons)
qed

lemma json_body_printable: "json_body s \<Longrightarrow> c \<in> set s \<Longrightarrow> 32 \<le> ord c"
proof (induction s rule: json_body.induct)
  case (2 d s)
  then show ?case by (auto simp: shell_defs split: if_splits list.splits)
qed simp

lemma json_body_dq_prev:
  "json_body s \<Longrightarrow> s = x @ DQ # y \<Longrightarrow> x \<noteq> [] \<and> last x = BSLASH"
proof (induction s arbitrary: x rule: json_body.induct)
  case (2 c s)
  show ?case
  proof (cases x)
    case Nil
    then show ?thesis using "2.prems" by (simp add: shell_defs)
  next
    case (Cons c' x')
    show ?thesis
    proof (cases "c = BSLASH")
      case True
      then obtain d r where s: "s = d # r" "json_body r" using "2.prems" by (cases s) auto
      show ?thesis
      proof (cases x')
        case Nil
        then show ?thesis using True Cons "2.prems" by simp
      next
        case (Cons d' x'')
        then have "r = x'' @ DQ # y" using s \<open>x = c' # x'\<close> "2.prems" by simp
        from "2.IH"(1) [OF True s(1) s(2) this] show ?thesis using Cons \<open>x = c' # x'\<close> by simp
      qed
    next
      case False
      then have "s = x' @ DQ # y" "json_body s" using Cons "2.prems" by auto
      from "2.IH"(2) [OF False this(2) this(1)] show ?thesis using Cons by simp
    qed
  qed
qed simp

lemma occurrence_nth:
  "strstr s pat = Some k \<Longrightarrow> i < length pat \<Longrightarrow> s ! (k + i) = pat ! i \<and> k + i < length s"
proof -
  assume a: "strstr s pat = Some k" "i < length pat"
  from strstr_Some [OF a(1)] have le: "k + length pat \<le> length s"
    and s: "s = take k s @ pat @ drop (k + length pat) s" by auto
  have "s ! (k + i) = (take k s @ pat @ drop (k + length pat) s) ! (k + i)" using s by simp
  also have "\<dots> = pat ! i" using a(2) le by (simp add: nth_append min_def)
  finally show ?thesis using a(2) le by simp
qed

text \<open>
  Where a quoted word ending in the character \<open>d\<close> can occur around an escaped text: not before
  it, not inside it, and behind it only across its closing quote.
\<close>

lemma quoted_word_position:
  assumes body: "json_body e" and b: "d \<notin> set b"
    and occ: "strstr (a @ e @ DQ # b) pat = Some k"
    and pat: "2 \<le> length pat" "last pat = DQ" "pat ! (length pat - 2) = d" "d \<noteq> BSLASH" "d \<noteq> DQ"
    and a: "\<not> sublist pat a"
  shows "drop (k + length pat) (a @ e @ DQ # b) = b"
proof -
  let ?s = "a @ e @ DQ # b" and ?j = "k + length pat - 1"
  have ne: "pat \<noteq> []" using pat(1) by auto
  have last: "?s ! ?j = DQ" "?j < length ?s"
    using occurrence_nth [OF occ, of "length pat - 1"] pat(1,2) last_conv_nth [OF ne] by auto
  have prev: "?s ! (?j - 1) = d"
    using occurrence_nth [OF occ, of "length pat - 2"] pat(1,3) by (auto simp: numeral_2_eq_2)
  have s: "take (k + length pat) ?s = take k ?s @ pat"
    using strstr_Some [OF occ] by (metis append_assoc append_eq_conv_conj length_append length_take min.absorb2 add_leD1)
  have "\<not> ?j < length a"
  proof
    assume "?j < length a"
    then have "k + length pat \<le> length a" using pat(1) by linarith
    then have "take k ?s @ pat = take (k + length pat) a" using s by simp
    then have "sublist pat (take (k + length pat) a)" by (metis sublist_appendI append_Nil2)
    with a show False by (meson sublist_order.order_trans sublist_take)
  qed
  moreover have "\<not> (length a \<le> ?j \<and> ?j < length a + length e)"
  proof
    assume j: "length a \<le> ?j \<and> ?j < length a + length e"
    let ?i = "?j - length a"
    have ei: "?i < length e" using j by linarith
    have "?s ! ?j = (e @ DQ # b) ! ?i" using j by (simp only: nth_append_right)
    then have ei2: "e ! ?i = DQ" using ei last by (simp only: nth_append_left)
    have "e = take ?i e @ DQ # drop (Suc ?i) e" using id_take_nth_drop [OF ei] ei2 by simp
    from json_body_dq_prev [OF body this] have "take ?i e \<noteq> [] \<and> last (take ?i e) = BSLASH" .
    then have i0: "0 < ?i" and eb: "e ! (?i - 1) = BSLASH" using ei by (auto simp: last_conv_nth)
    have ji: "?j - 1 = length a + (?i - 1)" using i0 j by linarith
    have "?i - 1 < length e" using ei by linarith
    then have "?s ! (?j - 1) = BSLASH" unfolding ji using eb by (simp only: nth_append_length_plus nth_append_left)
    with prev pat(4) show False by simp
  qed
  moreover have "\<not> length a + length e < ?j"
  proof
    assume j: "length a + length e < ?j"
    have "\<exists>i. ?j - 1 = length a + (length e + i)"
      using j by (intro exI [of _ "?j - 1 - length a - length e"]) linarith
    then obtain i where ji: "?j - 1 = length a + (length e + i)" by blast
    have "?s ! (?j - 1) = (DQ # b) ! i" unfolding ji by (simp only: nth_append_length_plus)
    moreover have "i < length (DQ # b)" using last(2) ji by simp
    ultimately have "d \<in> set (DQ # b)" using prev nth_mem by metis
    with b pat(5) show False by simp
  qed
  ultimately have "k + length pat = length a + length e + 1" using pat(1) by linarith
  then show ?thesis by simp
qed

definition req_front :: cstring where
  "req_front = jq ''{`type`:`mcp`,`tool`:`run_command`,`params`:{`query`:`''"

definition req_back :: cstring where
  "req_back = jq '',`shell`:`aishell`,`version`:`week8`}}''"

lemma mcp_request_eq: "mcp_request q = (req_front @ client_escape q 1024 @ DQ # req_back) @ [NL]"
proof -
  have "jq ''`,`shell`:`aishell`,`version`:`week8`}}'' = DQ # req_back"
    by (simp add: jq_def req_back_def shell_defs)
  moreover have "length req_front < 100" "length req_back < 100"
    by (simp_all add: req_front_def req_back_def jq_def)
  ultimately show ?thesis
    using client_escape_length [of 1024 q] by (simp add: mcp_request_def fit_id flip: req_front_def)
qed

lemma req_consts:
  "NL \<notin> set req_front" "CR \<notin> set req_front" "NL \<notin> set req_back" "CR \<notin> set req_back"
  "CHR ''d'' \<notin> set req_back" "hd req_front = CHR ''{''" "req_front \<noteq> []"
  "length req_front < 100" "length req_back < 100" "NL \<noteq> DQ" "CR \<noteq> DQ"
  by (simp_all add: req_front_def req_back_def jq_def shell_defs)

lemma req_back_cons: "req_back = CHR '','' # tl req_back"
  by (simp add: req_back_def jq_def shell_defs)

lemma request_line:
  "fst (read_line 4097 (mcp_request q)) = req_front @ client_escape q 1024 @ DQ # req_back"
proof -
  have "NL \<notin> set (client_escape q 1024)" "CR \<notin> set (client_escape q 1024)"
    using json_body_printable [OF client_escape_body, of _ q 1024] by (force simp: shell_defs)+
  then show ?thesis
    unfolding mcp_request_eq read_line_def
    using client_escape_length [of 1024 q]
    by (intro read_line_go_line) (simp_all add: req_consts, use req_consts in simp)
qed

lemma request_tool: "json_str (req_front @ r) ''tool'' 64 = Some ''run_command''"
  by (simp add: req_front_def jq_def json_str_def skip_blank_def fit_def Let_def shell_defs)

lemma request_no_command:
  "json_str (req_front @ client_escape q 1024 @ DQ # req_back) ''command'' 128 = None"
proof -
  let ?pat = "DQ # ''command'' @ [DQ]"
  have pat: "fit 128 ?pat = ?pat" by (simp add: fit_id)
  have "strstr req_front ?pat = None" by (simp add: req_front_def jq_def shell_defs)
  then have a: "\<not> sublist ?pat req_front" using strstr_None_iff by blast
  show ?thesis
  proof (cases "strstr (req_front @ client_escape q 1024 @ DQ # req_back) ?pat")
    case None
    then show ?thesis by (simp only: json_str_def Let_def pat option.case)
  next
    case (Some k)
    have "drop (k + length ?pat) (req_front @ client_escape q 1024 @ DQ # req_back) = req_back"
      by (rule quoted_word_position [OF client_escape_body req_consts(5) Some _ _ _ _ _ a])
        (simp_all add: shell_defs)
    moreover have "skip_blank req_back = req_back"
      by (subst req_back_cons, subst (2) req_back_cons) (simp add: skip_blank_def shell_defs)
    moreover have "hd req_back \<noteq> CHR '':''" by (subst req_back_cons) simp
    ultimately show ?thesis using Some by (simp only: json_str_def Let_def pat option.case) simp
  qed
qed

lemma answer_to_client:
  "handle_mcp_json True (fst (read_line 4097 (mcp_request q))) =
     (Reply (jq ''{`status`:`error`,`message`:`missing 'command' field`}''), True)"
proof -
  have d: "dispatch_tool ''run_command'' json = Some (tool_run_command json)" for json
    by (simp add: dispatch_tool_def)
  show ?thesis
    unfolding request_line handle_mcp_json_def
    by (simp add: request_tool d tool_run_command_def request_no_command req_consts)
qed

lemma mcp_query_received:
  "q \<noteq> [] \<Longrightarrow> server_answer run (mcp_request q) = bs \<Longrightarrow> take 8191 bs \<noteq> [] \<Longrightarrow>
   mcp_parse (c_str (take 8191 bs)) = r \<Longrightarrow>
   mcp_query q (\<lambda>bytes. Received (server_answer run bytes)) = r"
  by (simp add: mcp_query_def)

text \<open>Whatever the user asks, the exchange ends in the error of a missing field.\<close>

theorem mcp_query_never_served:
  "q \<noteq> [] \<Longrightarrow> (\<And>s. run (Reply s) = s) \<Longrightarrow>
   mcp_query q (\<lambda>bytes. Received (server_answer run bytes)) =
     no_response\<lparr>error_msg := ''missing 'command' field''\<rparr>"
proof -
  assume q: "q \<noteq> []" and run: "\<And>s. run (Reply s) = s"
  let ?m = "jq ''{`status`:`error`,`message`:`missing 'command' field`}''"
  have a: "server_answer run (mcp_request q) = send_framed ?m"
    by (simp add: server_answer_def answer_to_client run)
  have f: "send_framed ?m = ''54'' @ [NL] @ ?m @ [NL]"
    by (simp add: send_framed_def jq_def show_nat.simps digit_char_def) code_simp
  have p: "mcp_parse (c_str (take 8191 (send_framed ?m))) = no_response\<lparr>error_msg := ''missing 'command' field''\<rparr>"
    unfolding f
    by (simp add: jq_def c_str_def mcp_parse_def json_extract_def fit_def Let_def no_response_def
        extract_char_def shell_defs)
  have "take 8191 (send_framed ?m) \<noteq> []" by (simp add: f)
  then show ?thesis by (rule mcp_query_received [OF q a _ p])
qed

theorem mcp_query_never_served_witness:
  "mcp_query ''list files'' (\<lambda>bytes. Received (server_answer (\<lambda>t. case t of Reply s \<Rightarrow> s | _ \<Rightarrow> []) bytes)) =
     no_response\<lparr>error_msg := ''missing 'command' field''\<rparr>"
  by (rule mcp_query_never_served) simp_all

section \<open>The result of \<open>run_command\<close>, read by the client\<close>

lemma strstr_skip: "pat \<noteq> [] \<Longrightarrow> hd pat \<notin> set ds \<Longrightarrow>
    strstr (ds @ s) pat = map_option ((+) (length ds)) (strstr s pat)"
proof (induction ds)
  case Nil
  show ?case by (cases "strstr s pat") simp_all
next
  case (Cons d ds)
  then have "\<not> prefix pat (d # ds @ s)" by (cases pat) auto
  with Cons show ?case by (simp add: option.map_comp o_def)
qed

lemma json_extract_skip:
  "DQ \<notin> set ds \<Longrightarrow> json_extract (ds @ s) key n = json_extract s key n"
  by (simp add: json_extract_def Let_def strstr_skip fit_def option.case_eq_if option.map_sel)

lemma length_show_nat_pos: "n < 10 ^ 9 \<Longrightarrow> length (show_nat n) \<le> 9"
  by (rule length_show_nat) simp_all

lemma mcp_parse_ok:
  "json_extract raw ''status'' 32 = Some ''ok'' \<Longrightarrow> json_extract raw ''result'' 4096 = Some r \<Longrightarrow>
   success (mcp_parse raw) \<and> result (mcp_parse raw) = r"
  by (simp add: mcp_parse_def no_response_def)

text \<open>C34: The output of a command of up to 4000 printable bytes, escaped and framed by the server, is
  what the client reads as the result.\<close>

theorem run_command_result_roundtrip:
  assumes "\<forall>c\<in>set out. json_keeps c" "length out \<le> 4000"
  shows "success (mcp_parse (c_str (take 8191 (send_framed (run_command_reply out)))))
    \<and> result (mcp_parse (c_str (take 8191 (send_framed (run_command_reply out))))) = out"
proof -
  let ?e = "json_escape out 8192"
  let ?f = "jq ''{`status`:`ok`,`tool`:`run_command`,`result`:`''"
  let ?body = "?f @ ?e @ DQ # ''}''" and ?ds = "show_nat (length (?f @ ?e @ DQ # ''}'')) @ [NL]"
  have nul: "NUL \<notin> set out" using assms(1) by (auto simp: json_keeps_def shell_defs)
  have len: "length ?e \<le> 8000"
    using json_escape_go_double [of 0 8192 out] assms(2) by (simp add: json_escape_def)
  have "jq ''`}'' = DQ # ''}''" by (simp add: jq_def shell_defs)
  moreover have f: "length ?f < 60" by (simp add: jq_def)
  ultimately have reply: "run_command_reply out = ?body"
    using len assms(2) c_str_id [OF nul] by (simp add: run_command_reply_def fit_id)
  have frame: "send_framed ?body = ?ds @ ?body @ [NL]" by (simp add: send_framed_def)
  have "length ?ds \<le> 10"
    using length_show_nat_pos [of "length ?body"] len f by simp
  then have t: "take 8191 (send_framed ?body) = send_framed ?body"
    using len f by (simp add: frame)
  have dn: "NUL \<notin> set (show_nat n)" "DQ \<notin> set (show_nat n)" for n
    using show_nat_digits [of NUL n] show_nat_digits [of DQ n] by (auto simp: isdigit_def shell_defs)
  have "NUL \<notin> set ?e"
    using json_body_printable [OF json_body_escape_go, of NUL 0 8192 out]
    by (auto simp: json_escape_def NUL_def)
  moreover have "NUL \<notin> set ?f" by (simp add: jq_def shell_defs)
  ultimately have c: "c_str (send_framed ?body) = ?ds @ ?f @ ?e @ DQ # ''}'' @ [NL]"
    using dn(1) by (subst c_str_id) (simp_all add: frame, simp add: shell_defs)
  have ex: "json_extract (?ds @ s) key n = json_extract s key n" for s key n
    using dn(2) by (intro json_extract_skip) (simp add: shell_defs)
  have st: "json_extract (?f @ s) ''status'' 32 = Some ''ok''" for s
    by (simp add: jq_def json_extract_def fit_def Let_def extract_char_def shell_defs)
  have "strstr (?f @ s) (DQ # ''result'' @ [DQ, CHR '':'', DQ]) = Some 36" for s
    by (simp add: jq_def shell_defs)
  then have re: "json_extract (?f @ s) ''result'' 4096 = Some (json_extract_go 0 4096 s)" for s
    by (simp add: json_extract_def fit_def Let_def) (simp add: jq_def)
  have v: "json_extract_go 0 4096 (?e @ DQ # ''}'' @ [NL]) = out"
    unfolding json_escape_def by (rule extract_escape_go) (use assms in auto)
  have "json_extract (?ds @ ?f @ ?e @ DQ # ''}'' @ [NL]) ''status'' 32 = Some ''ok''"
    by (simp only: ex st)
  moreover have "json_extract (?ds @ ?f @ ?e @ DQ # ''}'' @ [NL]) ''result'' 4096 = Some out"
    by (simp only: ex re v)
  ultimately show ?thesis unfolding reply t c by (rule mcp_parse_ok)
qed

theorem run_command_result_roundtrip_witness:
  "result (mcp_parse (c_str (take 8191 (send_framed (run_command_reply (''a'' @ [NL] @ ''b'')))))) = ''a'' @ [NL] @ ''b''"
  using run_command_result_roundtrip [of "''a'' @ [NL] @ ''b''"] by (simp add: json_keeps_def shell_defs)

end
