(* ===== verification/Mcp_Server.thy ===== *)
theory Mcp_Server
  imports Mcp_Tools
begin

text \<open>
  The server around the tools of \<^verbatim>\<open>mcp_server.c\<close>: the choice of protocol in
  \<open>client_handler\<close>, the life of the listening socket (\<open>mcp_server_start\<close>, \<open>mcp_server_stop\<close>)
  and the counters under \<open>metrics_mtx\<close> as a state machine; then what every request may make the
  server do, whatever the operating system answers.
\<close>

section \<open>Sessions\<close>

text \<open>
  The first byte, if one arrives within 300 ms, decides: \<open>Inl\<close> is one MCP request line and the
  rest of the input, \<open>Inr\<close> an FTP session with its first line.
\<close>

definition client_handler :: "bool \<Rightarrow> char list \<Rightarrow> (cstring \<times> char list) + (cstring \<times> char list)" where
  "client_handler in_time inp =
     (if in_time \<and> inp \<noteq> [] \<and> hd inp = CHR ''{'' then Inl (read_line 4097 inp)
      else Inr (if in_time \<and> inp \<noteq> [] then read_line 1025 inp else ([], inp)))"

section \<open>The listening socket\<close>

record server =
  server_running :: bool
  server_fd :: int
  server_start_time :: int

definition server_init :: server where
  "server_init = \<lparr>server_running = False, server_fd = -1, server_start_time = 0\<rparr>"

text \<open>The results of \<open>socket\<close>, \<open>bind\<close>, \<open>listen\<close> and \<open>pthread_create\<close>, and the clock.\<close>

definition mcp_server_start ::
  "int \<Rightarrow> bool \<Rightarrow> bool \<Rightarrow> bool \<Rightarrow> int \<Rightarrow> server \<Rightarrow> int \<times> server" where
  "mcp_server_start fd bind_ok listen_ok thread_ok now s =
     (if server_running s then (0, s)
      else if fd < 0 then (-1, s\<lparr>server_fd := fd\<rparr>)
      else if \<not> bind_ok \<or> \<not> listen_ok then (-1, s\<lparr>server_fd := -1\<rparr>)
      else
        let s' = s\<lparr>server_fd := fd, server_running := True, server_start_time := now\<rparr> in
        if \<not> thread_ok then (-1, s'\<lparr>server_running := False, server_fd := -1\<rparr>)
        else (0, s'))"

definition mcp_server_stop :: "server \<Rightarrow> server" where
  "mcp_server_stop s =
     (if \<not> server_running s then s
      else let s' = s\<lparr>server_running := False\<rparr> in
        if 0 \<le> server_fd s' then s'\<lparr>server_fd := -1\<rparr> else s')"

definition mcp_server_is_running :: "server \<Rightarrow> bool" where
  "mcp_server_is_running s = server_running s"

datatype server_event = SStart int bool bool bool int | SStop

fun server_step :: "server_event \<Rightarrow> server \<Rightarrow> server" where
  "server_step (SStart fd b l t now) s = snd (mcp_server_start fd b l t now s)"
| "server_step SStop s = mcp_server_stop s"

text \<open>The socket is open exactly while the server runs.\<close>

definition server_inv :: "server \<Rightarrow> bool" where
  "server_inv s \<longleftrightarrow> (server_running s \<longleftrightarrow> 0 \<le> server_fd s)"

interpretation server: event_machine server_init server_step server_inv
proof
  show "server_inv s \<Longrightarrow> server_inv (server_step e s)" for s e
    by (cases e) (auto simp: server_inv_def mcp_server_start_def mcp_server_stop_def Let_def)
qed (simp add: server_inv_def server_init_def)

theorem server_socket_open_iff_running:
  "mcp_server_is_running (fold server_step es server_init)
     \<longleftrightarrow> 0 \<le> server_fd (fold server_step es server_init)"
  using server.inv_reachable [of es] by (simp add: mcp_server_is_running_def server_inv_def)

section \<open>The counters\<close>

record metrics =
  g_connected :: int
  g_total_requests :: int
  g_next_client_id :: int
  handlers :: "int list"

definition metrics_init :: metrics where
  "metrics_init = \<lparr>g_connected = 0, g_total_requests = 0, g_next_client_id = 0, handlers = []\<rparr>"

text \<open>
  One connection in \<open>server_loop\<close>: the counters move before the allocation and the thread are
  known to succeed, and move back when one of them fails. \<open>handlers\<close> lists the identifiers of
  the running handler threads; it is the specification's view.
\<close>

definition accept_client :: "bool \<Rightarrow> bool \<Rightarrow> metrics \<Rightarrow> metrics" where
  "accept_client alloc_ok thread_ok m =
     (let cid = g_next_client_id m + 1;
          m1 = m\<lparr>g_next_client_id := cid, g_connected := g_connected m + 1\<rparr>
      in if \<not> alloc_ok then m1\<lparr>g_connected := g_connected m1 - 1\<rparr>
         else if \<not> thread_ok then m1\<lparr>g_connected := g_connected m1 - 1\<rparr>
         else m1\<lparr>handlers := cid # handlers m1\<rparr>)"

definition serve_request :: "bool \<Rightarrow> cstring \<Rightarrow> metrics \<Rightarrow> metrics" where
  "serve_request local line m =
     (if snd (handle_mcp_json local line)
      then m\<lparr>g_total_requests := g_total_requests m + 1\<rparr> else m)"

definition end_client :: "int \<Rightarrow> metrics \<Rightarrow> metrics" where
  "end_client cid m =
     (if cid \<in> set (handlers m)
      then m\<lparr>g_connected := g_connected m - 1, handlers := remove1 cid (handlers m)\<rparr> else m)"

datatype metrics_event = MAccept bool bool | MRequest bool cstring | MEnd int

fun metrics_step :: "metrics_event \<Rightarrow> metrics \<Rightarrow> metrics" where
  "metrics_step (MAccept a t) m = accept_client a t m"
| "metrics_step (MRequest l line) m = serve_request l line m"
| "metrics_step (MEnd cid) m = end_client cid m"

definition metrics_inv :: "metrics \<Rightarrow> bool" where
  "metrics_inv m \<longleftrightarrow> g_connected m = int (length (handlers m)) \<and> distinct (handlers m)
     \<and> (\<forall>c\<in>set (handlers m). 0 < c \<and> c \<le> g_next_client_id m)
     \<and> 0 \<le> g_total_requests m \<and> 0 \<le> g_next_client_id m"

lemma metrics_inv_step: "metrics_inv m \<Longrightarrow> metrics_inv (metrics_step e m)"
proof (cases e)
  case (MEnd c)
  assume m: "metrics_inv m"
  show ?thesis
  proof (cases "c \<in> set (handlers m)")
    case True
    then have "int (length (remove1 c (handlers m))) = int (length (handlers m)) - 1"
      by (metis length_Cons length_remove1 One_nat_def Suc_pred add_diff_cancel_left'
          length_pos_if_in_set of_nat_Suc plus_1_eq_Suc)
    with m True MEnd show ?thesis
      by (auto simp: metrics_inv_def end_client_def dest: set_remove1_subset [THEN subsetD])
  qed (use m MEnd in \<open>simp add: end_client_def\<close>)
qed (auto simp: metrics_inv_def accept_client_def serve_request_def Let_def)

interpretation metrics: event_machine metrics_init metrics_step metrics_inv
  by unfold_locales (auto simp: metrics_inv_step, simp add: metrics_inv_def metrics_init_def)

theorem connected_counts_handlers:
  "g_connected (fold metrics_step es metrics_init) = int (length (handlers (fold metrics_step es metrics_init)))
    \<and> distinct (handlers (fold metrics_step es metrics_init))"
  using metrics.inv_reachable [of es] by (simp add: metrics_inv_def)

section \<open>All nodes of an interaction tree\<close>

text \<open>
  The answers a tree may get: any, except that the registry has at most 64 commands and that
  the job table holds C integers.
\<close>

definition c_int :: "int \<Rightarrow> bool" where
  "c_int v \<longleftrightarrow> - 2147483648 \<le> v \<and> v < 2147483648"

definition c_jobs :: "jobs \<Rightarrow> bool" where
  "c_jobs js \<longleftrightarrow> (\<forall>j\<in>set (job_table js). c_int (pid j) \<and> c_int (exit_code j))"

primrec all_nodes :: "(mcp \<Rightarrow> bool) \<Rightarrow> mcp \<Rightarrow> bool" where
  "all_nodes P (Reply s) = P (Reply s)"
| "all_nodes P (Popen c k) = (P (Popen c k) \<and> (\<forall>r. all_nodes P (k r)))"
| "all_nodes P (Status k) = (P (Status k) \<and> (\<forall>a b c. all_nodes P (k a b c)))"
| "all_nodes P (ReadRegistry k) = (P (ReadRegistry k) \<and>
     (\<forall>reg. length reg \<le> MAX_COMMANDS \<longrightarrow> all_nodes P (k reg)))"
| "all_nodes P (OpenDir p k) = (P (OpenDir p k) \<and> (\<forall>r. all_nodes P (k r)))"
| "all_nodes P (ReadAt p off len k) = (P (ReadAt p off len k) \<and> (\<forall>r. all_nodes P (k r)))"
| "all_nodes P (OpenWrite p m c k) = (P (OpenWrite p m c k) \<and> (\<forall>r. all_nodes P (k r)))"
| "all_nodes P (StatPath p k) = (P (StatPath p k) \<and> (\<forall>r. all_nodes P (k r)))"
| "all_nodes P (Regcomp p k) = (P (Regcomp p k) \<and> (\<forall>r. all_nodes P (k r)))"
| "all_nodes P (Walk p k) = (P (Walk p k) \<and> (\<forall>r. all_nodes P (k r)))"
| "all_nodes P (ReadJobs k) = (P (ReadJobs k) \<and> (\<forall>js. c_jobs js \<longrightarrow> all_nodes P (k js)))"
| "all_nodes P (SendSignal p s k) = (P (SendSignal p s k) \<and> (\<forall>r. all_nodes P (k r)))"
| "all_nodes P (WaitJob j p k) = (P (WaitJob j p k) \<and> (\<forall>r. all_nodes P (k r)))"
| "all_nodes P (GetEnv n k) = (P (GetEnv n k) \<and> (\<forall>r. all_nodes P (k r)))"
| "all_nodes P (SetEnv n v k) = (P (SetEnv n v k) \<and> (\<forall>r. all_nodes P (k r)))"
| "all_nodes P (SyncVar n v t) = (P (SyncVar n v t) \<and> all_nodes P t)"
| "all_nodes P (Environ k) = (P (Environ k) \<and> (\<forall>r. all_nodes P (k r)))"
| "all_nodes P (EditOp p e k) = (P (EditOp p e k) \<and> (\<forall>r. all_nodes P (k r)))"

named_theorems tools
lemmas [tools] = tool_run_command_def tool_list_tools_def tool_get_status_def tool_get_registry_def
  tool_fs_list_def tool_fs_read_def tool_fs_write_def tool_fs_append_def tool_fs_stat_def
  tool_fs_search_def tool_proc_list_def tool_proc_kill_def tool_proc_wait_def tool_env_get_def
  tool_env_set_def tool_env_list_def tool_edit_replace_line_def tool_edit_insert_line_def
  tool_edit_delete_line_def tool_edit_replace_def

text \<open>What a node may ask for.\<close>

definition shell_line_ok :: "cstring \<Rightarrow> bool" where
  "shell_line_ok line \<longleftrightarrow> (\<exists>cmd args. cmd \<in> set ALLOWLIST \<and> is_safe_args args
     \<and> line = cmd @ (if args = [] then [] else '' '' @ args) @ '' 2>&1'')"

definition safe_node :: "mcp \<Rightarrow> bool" where
  "safe_node t = (case t of
      Popen c k \<Rightarrow> shell_line_ok c
    | OpenDir p k \<Rightarrow> path_is_safe p
    | ReadAt p off len k \<Rightarrow> path_is_safe p \<and> len \<le> 65536
    | OpenWrite p m c k \<Rightarrow> path_is_safe p \<and> length c < 4096
    | StatPath p k \<Rightarrow> path_is_safe p
    | Walk p k \<Rightarrow> path_is_safe p
    | SetEnv n v k \<Rightarrow> is_valid_varname n
    | SyncVar n v u \<Rightarrow> is_valid_varname n
    | _ \<Rightarrow> True)"

lemma all_nodes_send_error: "(\<And>s. P (Reply s)) \<Longrightarrow> all_nodes P (send_error tool msg)"
  by (simp add: send_error_def)

lemma json_field_length: "length d < n \<Longrightarrow> length (json_field json key n d) < n"
  using json_str_length [of json key n] by (auto simp: json_field_def split: option.split)

lemma safe_replies: "safe_node (Reply s)" by (simp add: safe_node_def)

lemmas safe_simps = safe_node_def send_error_def job_error_def wait_reply_def Let_def

lemma allowlist_short: "cmd \<in> set ALLOWLIST \<Longrightarrow> length cmd < 6"
  by (auto simp: ALLOWLIST_def)

lemma safe_run_command: "all_nodes safe_node (tool_run_command json)"
proof (cases "json_str json ''command'' 128")
  case None
  then show ?thesis by (simp add: tool_run_command_def safe_replies)
next
  case (Some cmd)
  let ?args = "json_field json ''args'' 512 []"
  have len: "length ?args < 512" by (rule json_field_length) simp
  have "shell_line_ok (fit 1024 (if ?args \<noteq> [] then cmd @ '' '' @ ?args @ '' 2>&1'' else cmd @ '' 2>&1''))"
    if ok: "is_allowed_command cmd" "?args = [] \<or> is_safe_args ?args"
  proof -
    have "cmd \<in> set ALLOWLIST" using ok(1) by (simp add: is_allowed_command_def)
    moreover have "is_safe_args ?args"
      using ok(2) by (auto simp: is_safe_args_def unsafe_patterns_def)
    moreover have "fit 1024 (if ?args \<noteq> [] then cmd @ '' '' @ ?args @ '' 2>&1'' else cmd @ '' 2>&1'')
        = cmd @ (if ?args = [] then [] else '' '' @ ?args) @ '' 2>&1''"
      using len allowlist_short [OF calculation(1)] by (simp add: fit_id)
    ultimately show ?thesis unfolding shell_line_ok_def by blast
  qed
  then show ?thesis
    using Some by (simp add: tool_run_command_def Let_def safe_replies safe_node_def split: option.split)
qed

lemma safe_tools:
  "all_nodes safe_node tool_list_tools" "all_nodes safe_node tool_get_status"
  "all_nodes safe_node tool_get_registry" "all_nodes safe_node (tool_fs_list json)"
  "all_nodes safe_node (tool_fs_read json)" "all_nodes safe_node (tool_fs_write json)"
  "all_nodes safe_node (tool_fs_append json)" "all_nodes safe_node (tool_fs_stat json)"
  "all_nodes safe_node (tool_fs_search json)" "all_nodes safe_node tool_proc_list"
  "all_nodes safe_node (tool_proc_kill json)" "all_nodes safe_node (tool_proc_wait json)"
  "all_nodes safe_node (tool_env_get json)" "all_nodes safe_node (tool_env_set json)"
  "all_nodes safe_node tool_env_list" "all_nodes safe_node (tool_edit_replace_line json)"
  "all_nodes safe_node (tool_edit_insert_line json)" "all_nodes safe_node (tool_edit_delete_line json)"
  "all_nodes safe_node (tool_edit_replace json)"
  using json_unescape_length [of 4096]
  by (auto simp: tools safe_simps split: option.split sum.split kill_outcome.split wait_decision.split
      prod.split)

text \<open>Every request, from anywhere, whatever the system answers.\<close>


text \<open>\<open>list_tools\<close> advertises exactly the tools the dispatcher knows.\<close>

theorem list_tools_complete: "tool \<in> fst ` set tool_decls \<longleftrightarrow> dispatch_tool tool json \<noteq> None"
  by (auto simp: tool_decls_def dispatch_tool_def)

end
