(* ===== verification/Mcp_Exchange.thy ===== *)
theory Mcp_Exchange
  imports Mcp_Client Mcp_Server
begin

text \<open>
  Requests as a client writes them, and what the handlers of \<^verbatim>\<open>mcp_server.c\<close> make of their
  fields: the arguments of \<open>run_command\<close> reach the shell unchanged once they avoid six patterns,
  and the content of \<open>fs.write\<close> is cut at its first quote, because \<open>json_str\<close> does not know
  escapes although \<open>json_unescape\<close> does.
\<close>

definition write_request :: "cstring \<Rightarrow> cstring" where
  "write_request content = jq ''{`tool`:`fs.write`,`path`:`f`,`content`:`''
     @ json_escape content 5000 @ DQ # ''}''"

definition run_request :: "cstring \<Rightarrow> cstring" where
  "run_request args = jq ''{`tool`:`run_command`,`command`:`ls`,`args`:`'' @ args @ DQ # ''}''"

lemma escaped_no_field:
  assumes "strstr a (DQ # key @ [DQ]) = None" "length key + 2 < 128" "key \<noteq> []"
    "last key \<notin> {BSLASH, DQ, CHR ''}''}" "json_body e"
  shows "json_str (a @ e @ DQ # ''}'') key n = None"
proof (cases "strstr (a @ e @ DQ # ''}'') (DQ # key @ [DQ])")
  case None
  then show ?thesis using assms(2) by (simp add: json_str_def Let_def fit_id)
next
  case (Some k)
  have "drop (k + length (DQ # key @ [DQ])) (a @ e @ DQ # ''}'') = ''}''"
  proof (rule quoted_word_position [OF assms(5) _ Some])
    show "(DQ # key @ [DQ]) ! (length (DQ # key @ [DQ]) - 2) = last key"
      using assms(3) by (simp add: nth_append last_conv_nth)
    show "\<not> sublist (DQ # key @ [DQ]) a" using assms(1) strstr_None_iff by blast
  qed (use assms(4) in auto)
  then show ?thesis
    using Some assms(2) by (simp add: json_str_def Let_def fit_id skip_blank_def shell_defs)
qed

lemma fs_write_tree:
  "json_str json ''path'' 512 = Some p \<Longrightarrow> json_str json ''content'' 4096 = Some c \<Longrightarrow>
   json_str json ''mode'' 32 = None \<Longrightarrow> path_is_safe p \<Longrightarrow>
   \<exists>k. tool_fs_write json = OpenWrite p Truncate (json_unescape c 4096) k"
  by (auto simp: tool_fs_write_def json_field_def path_is_safe_def)

lemma handle_tool:
  "hd json = CHR ''{'' \<Longrightarrow> json \<noteq> [] \<Longrightarrow> json_str json ''tool'' 64 = Some tool \<Longrightarrow>
   dispatch_tool tool json = Some t \<Longrightarrow> handle_mcp_json True json = (t, True)"
  by (simp add: handle_mcp_json_def)

theorem fs_write_content_cut:
  assumes "\<forall>c\<in>set content. json_keeps c" "length content \<le> 2000"
  shows "\<exists>k. fst (handle_mcp_json True (write_request content)) =
    OpenWrite ''f'' Truncate
      (takeWhile (\<lambda>c. c \<noteq> DQ) content @ (if DQ \<in> set content then [BSLASH] else [])) k"
proof -
  let ?a = "jq ''{`tool`:`fs.write`,`path`:`f`,`content`:`''" and ?e = "json_escape content 5000"
  let ?t = "takeWhile (\<lambda>c. c \<noteq> DQ) content" and ?z = "if DQ \<in> set content then [BSLASH] else []"
  have a: "hd ?a = CHR ''{''" "?a \<noteq> []" by (simp_all add: jq_def shell_defs)
  have tool: "json_str (?a @ s) ''tool'' 64 = Some ''fs.write''" for s
    by (simp add: jq_def json_str_def skip_blank_def fit_def Let_def shell_defs)
  have path: "json_str (?a @ s) ''path'' 512 = Some ''f''" for s
    by (simp add: jq_def json_str_def skip_blank_def fit_def Let_def shell_defs)
  have "json_body ?e" by (simp add: json_escape_def json_body_escape_go)
  then have mode: "json_str (?a @ ?e @ DQ # ''}'') ''mode'' 32 = None"
    by (intro escaped_no_field) (simp_all add: jq_def shell_defs)
  have esc: "takeWhile (\<lambda>c. c \<noteq> DQ) (?e @ DQ # ''}'') = json_escape_go 0 5000 ?t @ ?z"
    unfolding json_escape_def using assms by (intro takeWhile_escape_go) auto
  have tl: "length ?t \<le> 2000" using assms(2) length_takeWhile_le [of _ content] by (meson le_trans)
  have "fit 4096 (json_escape_go 0 5000 t @ z) = json_escape_go 0 5000 t @ z"
    if "length t \<le> 2000" "length z \<le> 1" for t z
    using json_escape_go_double [of 0 5000 t] that by (simp add: fit_id)
  from this [OF tl, of ?z]
  have fit: "fit 4096 (json_escape_go 0 5000 ?t @ ?z) = json_escape_go 0 5000 ?t @ ?z" by (simp split: if_splits)
  have content: "json_str (?a @ ?e @ DQ # ''}'') ''content'' 4096 = Some (json_escape_go 0 5000 ?t @ ?z)"
    using fit esc by (simp add: jq_def json_str_def skip_blank_def Let_def shell_defs fit_def [of 128])
  have "json_unescape (json_escape_go 0 5000 ?t @ ?z) 4096 = ?t @ json_unescape_go (0 + length ?t) 4096 ?z"
    unfolding json_unescape_def
    by (rule unescape_escape_append) (use assms tl in \<open>auto dest: set_takeWhileD\<close>)
  moreover have "json_unescape_go (0 + length ?t) 4096 ?z = ?z"
    using tl by (simp add: unesc_turn_def)
  ultimately have un: "json_unescape (json_escape_go 0 5000 ?t @ ?z) 4096 = ?t @ ?z" by simp
  have d: "dispatch_tool ''fs.write'' json = Some (tool_fs_write json)" for json
    by (simp add: dispatch_tool_def)
  have s: "path_is_safe ''f''" by (simp add: path_is_safe_def)
  obtain k where "tool_fs_write (?a @ ?e @ DQ # ''}'') = OpenWrite ''f'' Truncate (?t @ ?z) k"
    using fs_write_tree [OF path content mode s] un by auto
  moreover have "handle_mcp_json True (?a @ ?e @ DQ # ''}'') = (tool_fs_write (?a @ ?e @ DQ # ''}''), True)"
    by (rule handle_tool) (use a tool d in simp_all)
  ultimately show ?thesis unfolding write_request_def by auto
qed

theorem fs_write_content_cut_witness:
  "\<exists>k. fst (handle_mcp_json True (write_request (''say '' @ DQ # ''hi'' @ [DQ]))) =
    OpenWrite ''f'' Truncate (''say '' @ [BSLASH]) k"
  using fs_write_content_cut [of "''say '' @ DQ # ''hi'' @ [DQ]"] by (simp add: json_keeps_def shell_defs)

theorem run_command_args_verbatim:
  assumes "DQ \<notin> set args" "args \<noteq> []" "length args < 512" "is_safe_args args"
  shows "\<exists>k. fst (handle_mcp_json True (run_request args)) = Popen (''ls '' @ args @ '' 2>&1'') k"
proof -
  let ?a = "jq ''{`tool`:`run_command`,`command`:`ls`,`args`:`''"
  have a: "hd ?a = CHR ''{''" "?a \<noteq> []" by (simp_all add: jq_def shell_defs)
  have tool: "json_str (?a @ s) ''tool'' 64 = Some ''run_command''" for s
    by (simp add: jq_def json_str_def skip_blank_def fit_def Let_def shell_defs)
  have command: "json_str (?a @ s) ''command'' 128 = Some ''ls''" for s
    by (simp add: jq_def json_str_def skip_blank_def fit_def Let_def shell_defs)
  have "takeWhile (\<lambda>c. c \<noteq> DQ) (args @ DQ # ''}'') = args" using assms(1) by (induction args) auto
  then have args: "json_str (?a @ args @ DQ # ''}'') ''args'' 512 = Some args"
    using assms(3) by (simp add: jq_def json_str_def skip_blank_def Let_def shell_defs fit_def)
  have d: "dispatch_tool ''run_command'' json = Some (tool_run_command json)" for json
    by (simp add: dispatch_tool_def)
  have al: "is_allowed_command ''ls''" by (simp add: is_allowed_command_def ALLOWLIST_def)
  have "\<exists>k. tool_run_command (?a @ args @ DQ # ''}'') = Popen (''ls '' @ args @ '' 2>&1'') k"
    using assms al by (simp add: tool_run_command_def json_field_def command args Let_def fit_id)
  moreover have "handle_mcp_json True (?a @ args @ DQ # ''}'') = (tool_run_command (?a @ args @ DQ # ''}''), True)"
    by (rule handle_tool) (use a tool d in simp_all)
  ultimately show ?thesis unfolding run_request_def by simp
qed

theorem run_command_args_verbatim_witness:
  "\<exists>k. fst (handle_mcp_json True (run_request ''| sh'')) = Popen ''ls | sh 2>&1'' k"
  using run_command_args_verbatim [of "''| sh''"]
  by (simp add: is_safe_args_def unsafe_patterns_def shell_defs)

end
