(* ===== verification/Mcp_Replies.thy ===== *)
theory Mcp_Replies
  imports Mcp_Server
begin

text \<open>
  The replies of the server as text: a scanner that tracks whether it is inside a quoted JSON
  string. Every reply ends outside of one, with every text from the request, the file system or
  the environment confined to its quotes, and none is cut by its buffer; the reply of
  \<open>proc.kill\<close> is the exception, because it repeats the signal field unescaped.
\<close>

datatype qstate = QOut | QIn | QEsc

fun qstep :: "char \<Rightarrow> qstate \<Rightarrow> qstate" where
  "qstep c QOut = (if c = DQ then QIn else QOut)"
| "qstep c QIn = (if c = DQ then QOut else if c = BSLASH then QEsc else QIn)"
| "qstep c QEsc = QIn"

abbreviation qscan :: "cstring \<Rightarrow> qstate \<Rightarrow> qstate" where
  "qscan s \<equiv> fold qstep s"

definition quoted :: "cstring \<Rightarrow> bool" where
  "quoted s \<longleftrightarrow> qscan s QOut = QOut"

definition quoted_node :: "mcp \<Rightarrow> bool" where
  "quoted_node t = (case t of Reply s \<Rightarrow> quoted s | _ \<Rightarrow> True)"

lemma qscan_body: "json_body s \<Longrightarrow> qscan s QIn = QIn"
proof (induction s rule: json_body.induct)
  case (2 c s)
  then show ?case by (auto simp: shell_defs split: list.splits if_splits)
qed simp

lemma qscan_escape [simp]: "qscan (json_escape s n) QIn = QIn" "qscan (job_escape_json s n) QIn = QIn"
  by (simp_all add: qscan_body json_escape_def job_escape_json_def json_body_escape_go)

definition plain :: "cstring \<Rightarrow> bool" where
  "plain s \<longleftrightarrow> DQ \<notin> set s \<and> BSLASH \<notin> set s"

lemma qscan_plain: "plain s \<Longrightarrow> qscan s QIn = QIn" "plain s \<Longrightarrow> qscan s QOut = QOut"
  by (induction s) (auto simp: plain_def)

lemma plain_digits: "(\<forall>c\<in>set s. isdigit c \<or> c = CHR ''-'') \<Longrightarrow> plain s"
  by (auto simp: plain_def isdigit_def shell_defs)

lemma plain_show [simp]: "plain (show_nat n)" "plain (show_int v)"
  by (auto intro!: plain_digits simp: show_int_def dest: show_nat_digits)

lemma qscan_show [simp]: "qscan (show_nat n) QIn = QIn" "qscan (show_nat n) QOut = QOut"
  "qscan (show_int v) QIn = QIn" "qscan (show_int v) QOut = QOut"
  by (simp_all add: qscan_plain)

lemma jq_length [simp]: "length (jq s) = length s"
  by (simp add: jq_def)

lemma length_show_int64: "length (show_int (sint (w :: 64 word))) \<le> 20"
  using length_show_int [of 19 "sint w"] sint_range_size [of w] by (simp add: word_size)

lemma length_show_int32: "length (show_int (sint (w :: 32 word))) \<le> 11"
  using length_show_int [of 10 "sint w"] sint_range_size [of w] by (simp add: word_size)

lemma length_show_cint: "c_int v \<Longrightarrow> length (show_int v) \<le> 11"
  using length_show_int [of 10 v] by (simp add: c_int_def)

lemma length_show_atoi: "length (show_int (atoi s)) \<le> 11"
  using to_int_range [of "atol s"] by (intro length_show_cint) (simp add: c_int_def atoi_def)

lemma length_show_uint32: "length (show_nat (unat (w :: 32 word))) \<le> 10"
proof (rule length_show_nat)
  have "unat w < 2 ^ LENGTH(32)" by (rule unsigned_less)
  then show "unat w < 10 ^ 10" by simp
qed simp

lemma escape_lt: "4 < n \<Longrightarrow> length (json_escape s n) < n - 2"
  using json_escape_length [of n s] by simp

lemmas reply_lengths = length_show_int64 length_show_int32 length_show_atoi length_show_uint32

lemma quoted_append: "quoted a \<Longrightarrow> quoted b \<Longrightarrow> quoted (a @ b)"
  by (simp add: quoted_def)

lemma quoted_send_error:
  "plain tool \<Longrightarrow> length tool \<le> 20 \<Longrightarrow> all_nodes quoted_node (send_error tool msg)"
  using escape_lt [of 256 msg]
  by (simp add: send_error_def quoted_node_def quoted_def fit_id) (simp add: qscan_plain jq_def shell_defs)

lemma plain_tool_names:
  "plain ''fs.list''" "plain ''fs.read''" "plain ''fs.write''" "plain ''fs.append''" "plain ''fs.stat''"
  "plain ''fs.search''" "plain ''proc.list''" "plain ''proc.kill''" "plain ''proc.wait''" "plain ''env.get''"
  "plain ''env.set''" "plain ''env.list''" "plain ''edit.replace_line''" "plain ''edit.insert_line''"
  "plain ''edit.delete_line''" "plain ''edit.replace''"
  by (simp_all add: plain_def shell_defs)

lemmas errors_quoted = plain_tool_names [THEN quoted_send_error, simplified]

lemma quoted_run_command: "all_nodes quoted_node (tool_run_command json)"
proof -
  have "quoted (run_command_reply out)" for out
    using escape_lt [of 8192 "c_str (take 4095 out)"]
    by (simp add: run_command_reply_def quoted_def fit_id) (simp add: jq_def shell_defs)
  then show ?thesis
    by (simp add: tool_run_command_def Let_def quoted_node_def quoted_def jq_def shell_defs split: option.split)
qed

lemma quoted_status: "all_nodes quoted_node tool_get_status"
proof -
  have "quoted (fit 512 (jq ''{`status`:`ok`,`tool`:`get_status`,`result`:{`server_port`:''
       @ show_int MCP_SERVER_PORT @ jq '',`uptime_seconds`:'' @ show_int (sint (a :: 64 word))
       @ jq '',`connected_clients`:'' @ show_int (sint (b :: 32 word)) @ jq '',`total_requests`:''
       @ show_int (sint (c :: 64 word)) @ jq '',`log_file`:`aishell_calls.log`}}''))" for a b c
    using reply_lengths(1) [of a] reply_lengths(2) [of b] reply_lengths(1) [of c]
      length_show_int [of 4 MCP_SERVER_PORT]
    by (simp add: quoted_def fit_id MCP_SERVER_PORT_def) (simp add: jq_def shell_defs)
  then show ?thesis by (simp add: tool_get_status_def quoted_node_def)
qed

text \<open>The registry: 64 entries of at most 413 characters fit into the 32768 bytes.\<close>

lemma reg_entry_quoted: "quoted (reg_entry s)" "length (reg_entry s) \<le> 413"
proof -
  let ?t = "case summary s of None \<Rightarrow> [] | Some t \<Rightarrow> t"
  have l: "length (json_escape (spec_name s) 128) < 126" "length (json_escape ?t 256) < 254"
    using escape_lt [of 128 "spec_name s"] escape_lt [of 256 ?t] by simp_all
  then show "quoted (reg_entry s)"
    by (simp add: reg_entry_def quoted_def fit_id) (simp add: jq_def shell_defs)
  show "length (reg_entry s) \<le> 413" using l by (simp add: reg_entry_def fit_def)
qed

lemma reg_scan:
  "quoted buf \<Longrightarrow> length buf + 414 * length reg < 32000 \<Longrightarrow>
   quoted (fst (fold reg_cmd_cb reg (buf, f))) \<and>
   length (fst (fold reg_cmd_cb reg (buf, f))) \<le> length buf + 414 * length reg"
proof (induction reg arbitrary: buf f)
  case (Cons s reg)
  let ?b = "if f then buf else buf @ '',''"
  have e: "length (reg_entry s) \<le> 413" "quoted (reg_entry s)" by (rule reg_entry_quoted)+
  have step: "reg_cmd_cb s (buf, f) = (?b @ reg_entry s, False)"
    using e Cons.prems by (auto simp: reg_cmd_cb_def rb_append_def)
  have "quoted '',''" by (simp add: quoted_def shell_defs)
  then have "quoted ?b" using Cons.prems(1) quoted_append by simp
  then have "quoted (?b @ reg_entry s)" using e(2) by (rule quoted_append)
  moreover have "length (?b @ reg_entry s) \<le> length buf + 414" using e(1) by simp
  ultimately show ?case
    using Cons.IH [of "?b @ reg_entry s" False] Cons.prems(2) step by fastforce
qed simp

lemma quoted_registry: "all_nodes quoted_node tool_get_registry"
proof -
  let ?f = "jq ''{`status`:`ok`,`tool`:`get_registry`,`commands`:[''"
  have "quoted (rb_append 32768 '']}'' (fst (fold reg_cmd_cb reg (?f, True))))" if "length reg \<le> 64" for reg
  proof -
    have "quoted ?f" by (simp add: quoted_def jq_def shell_defs)
    from reg_scan [OF this, of reg True] that
    have "quoted (fst (fold reg_cmd_cb reg (?f, True)))" "length (fst (fold reg_cmd_cb reg (?f, True))) < 32000"
      by simp_all
    moreover have "quoted '']}''" by (simp add: quoted_def shell_defs)
    ultimately show ?thesis by (simp add: rb_append_def quoted_append)
  qed
  moreover have "rb_append 32768 ?f [] = ?f" by (simp add: rb_append_def)
  ultimately show ?thesis
    by (simp add: tool_get_registry_def for_each_command_def quoted_node_def Let_def MAX_COMMANDS_def case_prod_beta)
qed

text \<open>\<open>fs.list\<close> and \<open>env.list\<close> append whole entries.\<close>

lemma plain_append: "plain a \<Longrightarrow> plain b \<Longrightarrow> plain (a @ b)"
  by (simp add: plain_def)

lemma plain_fit: "plain a \<Longrightarrow> plain (fit n a)"
  using set_fit [of n a] by (auto simp: plain_def)

lemma digit_char_plain: "d < 10 \<Longrightarrow> digit_char d \<noteq> DQ \<and> digit_char d \<noteq> BSLASH"
proof -
  assume "d < 10"
  then have "ord (digit_char d) \<noteq> ord DQ" "ord (digit_char d) \<noteq> ord BSLASH" by (simp_all add: shell_defs)
  then show ?thesis by metis
qed

lemma plain_time: "plain (iso_time tm)"
proof -
  have "plain (two_digits n)" for n
    using digit_char_plain [of "n div 10 mod 10"] digit_char_plain [of "n mod 10"]
    by (auto simp: two_digits_def plain_def)
  moreover have "plain ''-''" "plain '':''" "plain ''T''" "plain ''Z''" by (simp_all add: plain_def shell_defs)
  ultimately show ?thesis by (simp only: iso_time_def split: prod.split) (intro allI impI plain_append plain_show)
qed

lemma plain_octal: "plain (show_octal4 m)"
  using digit_char_plain [of "m div 64 mod 8"] digit_char_plain [of "m div 8 mod 8"] digit_char_plain [of "m mod 8"]
  by (auto simp: show_octal4_def plain_def less_trans [OF mod_less_divisor] shell_defs)

lemma fs_list_text_quoted:
  "plain type \<Longrightarrow> plain mode \<Longrightarrow> plain mtime \<Longrightarrow>
   quoted ((if f then [] else '','') @ jq ''{`name`:`'' @ json_escape name 256
        @ jq ''`,`type`:`'' @ type @ jq ''`,`size`:'' @ show_int sz
        @ jq '',`mode`:`'' @ mode @ jq ''`,`mtime`:`'' @ mtime @ jq ''`}'')"
  by (simp add: quoted_def) (simp add: qscan_plain jq_def shell_defs)

lemma plain_time_text: "plain (case t of None \<Rightarrow> [] | Some tm \<Rightarrow> fit 32 (iso_time tm))"
  by (cases t) (auto intro: plain_fit plain_time simp: plain_def [of "[]"])

lemma plain_kind: "plain (case k of KDir \<Rightarrow> ''dir'' | KLink \<Rightarrow> ''link'' | _ \<Rightarrow> ''file'')"
  by (cases k) (simp_all add: plain_def shell_defs)

lemma fs_list_entry_quoted: "quoted (fs_list_entry f e)"
proof -
  obtain name st where e: "e = (name, st)" by force
  have u: "plain ''unknown''" "plain ''0000''" "plain []" by (simp_all add: plain_def shell_defs)
  show ?thesis
  proof (cases st)
    case None
    then show ?thesis
      unfolding e fs_list_entry_def by (simp only: prod.case option.case Let_def fs_list_text_quoted u)
  next
    case (Some s)
    then show ?thesis
      unfolding e fs_list_entry_def
      by (simp only: prod.case option.case Let_def fs_list_text_quoted plain_octal plain_time_text plain_kind)
  qed
qed

lemma fs_list_quoted: "quoted buf \<Longrightarrow> quoted (fs_list_go buf f es)"
  by (induction buf f es rule: fs_list_go.induct) (auto intro: quoted_append fs_list_entry_quoted)

lemma quoted_fs_list: "all_nodes quoted_node (tool_fs_list json)"
proof -
  have "quoted (fs_list_go (jq ''{`status`:`ok`,`tool`:`fs.list`,`result`:['') True es @ '']}'')" for es
    by (intro quoted_append fs_list_quoted) (simp_all add: quoted_def jq_def shell_defs)
  then show ?thesis
    by (auto simp: tool_fs_list_def Let_def errors_quoted quoted_node_def split: sum.split)
qed

lemma env_entry_quoted: "quoted (env_entry f a b)"
  by (simp add: env_entry_def quoted_def) (simp add: jq_def shell_defs)

lemma env_list_quoted: "quoted buf \<Longrightarrow> quoted (env_list_go n buf f es)"
  by (induction n buf f es rule: env_list_go.induct)
    (auto simp: quoted_append env_entry_quoted split: option.split)

lemma quoted_env_list: "all_nodes quoted_node tool_env_list"
proof -
  have "quoted (env_list_go 200 (jq ''{`status`:`ok`,`tool`:`env.list`,`result`:{'') True es @ ''}}'')" for es
    by (intro quoted_append env_list_quoted) (simp_all add: quoted_def jq_def shell_defs)
  then show ?thesis by (simp add: tool_env_list_def quoted_node_def)
qed

text \<open>\<open>fs.search\<close>: at most 100 matches, each of at most 1034 characters.\<close>

definition fss_inv :: "fss_ctx \<Rightarrow> bool" where
  "fss_inv c \<longleftrightarrow> quoted (fss_buf c) \<and> fss_count c \<le> 100 \<and> length (fss_buf c) \<le> 50 + 1034 * fss_count c"

lemma fss_append_inv: "fss_inv c \<Longrightarrow> fss_inv (fss_append path n line c)"
proof -
  assume c: "fss_inv c"
  let ?e = "fss_entry (fss_first c) path n line"
  have l: "length (json_escape path 512) < 510" "length (json_escape line 512) < 510"
    using escape_lt [of 512 path] escape_lt [of 512 line] by simp_all
  have "length (show_int (to_int (int n))) \<le> 11"
    using to_int_range [of "int n"] by (intro length_show_cint) (simp add: c_int_def)
  with l have len: "length ?e \<le> 1034" by (simp add: fss_entry_def)
  have "quoted ?e" by (simp add: quoted_def fss_entry_def) (simp add: jq_def shell_defs)
  with c len show ?thesis
    by (auto simp: fss_append_def fss_inv_def FS_SEARCH_MAX_def Let_def quoted_append)
qed

lemma fss_lines_inv: "fss_inv c \<Longrightarrow> fss_inv (fss_lines re path n ls c)"
  by (induction re path n ls c rule: fss_lines.induct) (simp_all add: fss_append_inv)

lemma fss_file_inv: "fss_inv c \<Longrightarrow> fss_inv (fss_file sn re path c)"
  by (auto simp: fss_file_def fss_lines_inv split: option.split)

lemma fold_keeps: "(\<And>x c. P c \<Longrightarrow> P (f x c)) \<Longrightarrow> P c \<Longrightarrow> P (fold f xs c)"
  by (induction xs arbitrary: c) auto

lemma fss_recurse_inv: "fss_inv c \<Longrightarrow> fss_inv (fss_recurse sn re n path c)"
proof (induction n arbitrary: path c)
  case (Suc n)
  show ?case
  proof (cases "sn_dir sn path")
    case None
    with Suc.prems show ?thesis by (simp add: fss_file_inv)
  next
    case (Some names)
    have "fss_inv (fold (\<lambda>name c.
              if FS_SEARCH_MAX \<le> fss_count c then c
              else if name \<noteq> [] \<and> hd name = CHR ''.'' then c
              else
                let child = fit 1024 (path @ ''/'' @ name) in
                (case sn_lstat sn child of
                   Some KDir \<Rightarrow> fss_recurse sn re n child c
                 | Some KFile \<Rightarrow> fss_file sn re child c
                 | _ \<Rightarrow> c)) names c)"
    proof (rule fold_keeps [where P = fss_inv])
      show "fss_inv (if FS_SEARCH_MAX \<le> fss_count d then d
              else if name \<noteq> [] \<and> hd name = CHR ''.'' then d
              else
                let child = fit 1024 (path @ ''/'' @ name) in
                (case sn_lstat sn child of
                   Some KDir \<Rightarrow> fss_recurse sn re n child d
                 | Some KFile \<Rightarrow> fss_file sn re child d
                 | _ \<Rightarrow> d))" if "fss_inv d" for name d
        using that Suc.IH [OF that] fss_file_inv [OF that]
        by (simp add: Let_def split: option.split fkind.split)
    qed (rule Suc.prems)
    with Some Suc.prems show ?thesis by simp
  qed
qed simp

lemma quoted_search: "all_nodes quoted_node (tool_fs_search json)"
proof -
  let ?c0 = "\<lparr>fss_buf = jq ''{`status`:`ok`,`tool`:`fs.search`,`results`:['', fss_count = 0, fss_first = True\<rparr>"
  have "fss_inv ?c0" by (simp add: fss_inv_def quoted_def jq_def shell_defs)
  then have inv: "fss_inv (fss_recurse sn re 17 path ?c0)" for sn re path by (rule fss_recurse_inv)
  have "quoted (fss_buf c @ fit (131072 - length (fss_buf c)) (jq ''],`count`:'' @ show_nat (fss_count c) @ ''}''))"
    if "fss_inv c" for c
  proof -
    have "length (show_nat (fss_count c)) \<le> 3" using that by (intro length_show_nat) (simp_all add: fss_inv_def)
    moreover have "length (fss_buf c) \<le> 103450" using that by (simp add: fss_inv_def)
    ultimately have "fit (131072 - length (fss_buf c)) (jq ''],`count`:'' @ show_nat (fss_count c) @ ''}'')
        = jq ''],`count`:'' @ show_nat (fss_count c) @ ''}''" by (intro fit_id) simp
    moreover have "quoted (jq ''],`count`:'' @ show_nat (fss_count c) @ ''}'')"
      by (simp add: quoted_def) (simp add: jq_def shell_defs)
    ultimately show ?thesis using that by (simp add: fss_inv_def quoted_append)
  qed
  from this [OF inv] show ?thesis
    by (auto simp: tool_fs_search_def Let_def errors_quoted quoted_node_def simp del: fss_recurse.simps
        split: option.split)
qed

text \<open>The remaining tools.\<close>

lemma quoted_fs_read: "all_nodes quoted_node (tool_fs_read json)"
proof -
  have "quoted (jq ''{`status`:`ok`,`tool`:`fs.read`,`bytes_read`:'' @ show_nat n @ jq '',`content`:`''
      @ json_escape t m @ jq ''`}'')" for n t m
    by (simp add: quoted_def) (simp add: jq_def shell_defs)
  then show ?thesis
    by (simp add: tool_fs_read_def Let_def errors_quoted quoted_node_def split: sum.split)
qed

lemma quoted_fs_write: "all_nodes quoted_node (tool_fs_write json)" "all_nodes quoted_node (tool_fs_append json)"
proof -
  have "quoted (fit 128 (jq ''{`status`:`ok`,`tool`:`fs.write`,`bytes_written`:'' @ show_int (sint nw) @ ''}''))"
    "quoted (fit 128 (jq ''{`status`:`ok`,`tool`:`fs.append`,`bytes_written`:'' @ show_int (sint nw) @ ''}''))"
    for nw :: "64 word"
    using length_show_int64 [of nw] by (simp_all add: quoted_def fit_id) (simp_all add: jq_def shell_defs)
  then show "all_nodes quoted_node (tool_fs_write json)" "all_nodes quoted_node (tool_fs_append json)"
    by (simp_all add: tool_fs_write_def tool_fs_append_def Let_def errors_quoted quoted_node_def split: sum.split)
qed

lemma quoted_fs_stat: "all_nodes quoted_node (tool_fs_stat json)"
proof -
  have b: "plain (show_bool b)" "length (show_bool b) \<le> 5" for b
    by (simp_all add: show_bool_def plain_def shell_defs)
  have o: "length (show_octal4 m) = 4" for m by (simp add: show_octal4_def)
  have "quoted (fit 512 (jq ''{`status`:`ok`,`tool`:`fs.stat`,`result`:{`size`:''
            @ show_int (sint (st_size s)) @ jq '',`mode`:`'' @ show_octal4 (st_mode s)
            @ jq ''`,`is_dir`:'' @ show_bool b1 @ jq '',`is_file`:'' @ show_bool b2
            @ jq '',`is_link`:'' @ show_bool b3 @ jq '',`mtime`:'' @ show_int (sint (st_mtime s))
            @ jq '',`uid`:'' @ show_nat (unat (st_uid s)) @ jq '',`gid`:'' @ show_nat (unat (st_gid s)) @ ''}}''))"
    for s b1 b2 b3
    using length_show_int64 [of "st_size s"] length_show_int64 [of "st_mtime s"]
      length_show_uint32 [of "st_uid s"] length_show_uint32 [of "st_gid s"] b(2) [of b1] b(2) [of b2] b(2) [of b3]
      o [of "st_mode s"]
    by (simp add: quoted_def fit_id) (simp add: qscan_plain b plain_octal jq_def shell_defs)
  then show ?thesis
    by (auto simp: tool_fs_stat_def Let_def errors_quoted quoted_node_def split: sum.split)
qed

lemma quoted_proc_list: "all_nodes quoted_node tool_proc_list"
proof -
  have e: "quoted (proc_entry f j)" for f j
  proof -
    have "plain (status_name s)" for s by (cases s) (simp_all add: status_name_def plain_def shell_defs)
    then show ?thesis
      by (simp add: proc_entry_def quoted_def qscan_plain shell_defs)
  qed
  have g: "quoted buf \<Longrightarrow> quoted (proc_list_go n f buf js)" for n f buf js
    by (induction n f buf js rule: proc_list_go.induct) (simp_all add: e quoted_append)
  have "quoted (proc_list_json 8192 js)" for js
    unfolding proc_list_json_def by (intro quoted_append g) (simp_all add: quoted_def shell_defs)
  moreover have "quoted (jq ''{`status`:`ok`,`tool`:`proc.list`,`result`:'')" "quoted ''}''"
    by (simp_all add: quoted_def jq_def shell_defs)
  ultimately have "quoted (fit (length (proc_list_json 8192 js) + 64)
      (jq ''{`status`:`ok`,`tool`:`proc.list`,`result`:'' @ proc_list_json 8192 js @ ''}''))" for js
    by (subst fit_id) (simp, intro quoted_append)
  then show ?thesis by (simp add: tool_proc_list_def Let_def quoted_node_def)
qed

lemma quoted_job_error: "plain msg \<Longrightarrow> length msg \<le> 200 \<Longrightarrow> all_nodes quoted_node (job_error msg)"
  by (simp add: job_error_def quoted_node_def quoted_def fit_id) (simp add: qscan_plain jq_def shell_defs)

lemma quoted_wait_reply: "c_int ec \<Longrightarrow> all_nodes quoted_node (wait_reply (atoi s) ec)"
  using length_show_atoi [of s] length_show_cint [of ec]
  by (simp add: wait_reply_def quoted_node_def quoted_def fit_id) (simp add: jq_def shell_defs)

lemma quoted_proc_wait: "all_nodes quoted_node (tool_proc_wait json)"
proof -
  have "plain (''job '' @ show_int v @ '' not found'')" for v
    using plain_show(2) [of v] by (simp add: plain_def shell_defs)
  then have nf: "all_nodes quoted_node (job_error (''job '' @ show_int (atoi s) @ '' not found''))" for s
    using length_show_atoi [of s] by (intro quoted_job_error) simp_all
  have th: "all_nodes quoted_node (job_error ''cannot wait on detached background thread'')"
    by (intro quoted_job_error) (simp_all add: plain_def shell_defs)
  have bl: "all_nodes quoted_node (wait_reply (atoi s) (sint (w :: 32 word)))" for s w
    using sint_range_size [of w] by (intro quoted_wait_reply) (simp add: c_int_def word_size)
  have "c_int ec" if "c_jobs js" "proc_wait_begin v js = WaitDone ec" for js v ec
    using that by (auto simp: proc_wait_begin_def c_jobs_def find_Some_iff split: option.splits if_splits)
  then show ?thesis
    by (auto simp: tool_proc_wait_def Let_def errors_quoted nf [simplified] th bl quoted_wait_reply
        quoted_node_def [of "ReadJobs _"] quoted_node_def [of "WaitJob _ _ _"] split: wait_decision.split)
qed

lemma quoted_env: "all_nodes quoted_node (tool_env_get json)" "all_nodes quoted_node (tool_env_set json)"
proof -
  have "quoted (fit 2048 (jq ''{`status`:`ok`,`tool`:`env.get`,`result`:{`name`:`'' @ json_escape n 256
      @ jq ''`,`value`:`'' @ json_escape w 1536 @ jq ''`}}''))" for n w
    using escape_lt [of 256 n] escape_lt [of 1536 w]
    by (simp add: quoted_def fit_id) (simp add: jq_def shell_defs)
  moreover have "quoted (fit 2048 (jq ''{`status`:`ok`,`tool`:`env.get`,`result`:{`name`:`'' @ json_escape n 256
      @ jq ''`,`value`:null}}''))" for n
    using escape_lt [of 256 n] by (simp add: quoted_def fit_id) (simp add: jq_def shell_defs)
  ultimately show "all_nodes quoted_node (tool_env_get json)"
    by (simp add: tool_env_get_def Let_def errors_quoted quoted_node_def split: option.split)
  have "quoted (fit 1536 (jq ''{`status`:`ok`,`tool`:`env.set`,`result`:{`name`:`''
                    @ json_escape n 256 @ jq ''`,`value`:`'' @ json_escape v 1024 @ jq ''`}}''))" for n v
    using escape_lt [of 256 n] escape_lt [of 1024 v]
    by (simp add: quoted_def fit_id) (simp add: jq_def shell_defs)
  then show "all_nodes quoted_node (tool_env_set json)"
    by (simp add: tool_env_set_def Let_def errors_quoted quoted_node_def split: option.split)
qed

lemma quoted_edit:
  "all_nodes quoted_node (tool_edit_replace_line json)" "all_nodes quoted_node (tool_edit_insert_line json)"
  "all_nodes quoted_node (tool_edit_delete_line json)" "all_nodes quoted_node (tool_edit_replace json)"
proof -
  have "quoted (fit 256 (jq ''{`status`:`ok`,`tool`:`edit.replace_line`,`result`:{`line`:'' @ show_int v @ ''}}''))"
    "quoted (fit 256 (jq ''{`status`:`ok`,`tool`:`edit.insert_line`,`result`:{`inserted_before_line`:'' @ show_int v @ ''}}''))"
    "quoted (fit 256 (jq ''{`status`:`ok`,`tool`:`edit.delete_line`,`result`:{`deleted_line`:'' @ show_int v @ ''}}''))"
    "quoted (fit 256 (jq ''{`status`:`ok`,`tool`:`edit.replace`,`result`:{`replacements`:'' @ show_int v @ ''}}''))"
    if "length (show_int v) \<le> 11" for v
    using that by (simp_all add: quoted_def fit_id) (simp_all add: jq_def shell_defs)
  from this [OF length_show_atoi] this [OF length_show_int32]
  show "all_nodes quoted_node (tool_edit_replace_line json)" "all_nodes quoted_node (tool_edit_insert_line json)"
    "all_nodes quoted_node (tool_edit_delete_line json)" "all_nodes quoted_node (tool_edit_replace json)"
    by (simp_all add: tool_edit_replace_line_def tool_edit_insert_line_def tool_edit_delete_line_def
        tool_edit_replace_def Let_def errors_quoted quoted_node_def split: option.split sum.split)
qed

lemma quoted_list_tools: "all_nodes quoted_node tool_list_tools"
proof -
  have c: "(\<And>s. s \<in> set ss \<Longrightarrow> quoted s) \<Longrightarrow> quoted (commas ss)" for ss
    by (induction ss rule: commas.induct) (auto intro!: quoted_append simp: quoted_def shell_defs)
  have "quoted (tool_text d)" if "d \<in> set tool_decls" for d
  proof -
    have "list_all (\<lambda>d. quoted (tool_text d)) tool_decls" by code_simp
    with that show ?thesis by (simp add: list_all_iff)
  qed
  then have "quoted (commas (map tool_text tool_decls))" by (intro c) auto
  moreover have "quoted (jq ''{`status`:`ok`,`tool`:`list_tools`,`result`:['')" "quoted '']}''"
    by (simp_all add: quoted_def jq_def shell_defs)
  ultimately show ?thesis by (simp add: tool_list_tools_def quoted_node_def quoted_append)
qed

text \<open>The exception, \<open>proc.kill\<close>: a signal name with a backslash breaks out of its string.\<close>


definition kill_request :: cstring where
  "kill_request = jq ''{`tool`:`proc.kill`,`job_id`:1,`signal`:`'' @ BSLASH # DQ # ''}''"

definition kill_jobs :: jobs where
  "kill_jobs = snd (jobs_add 4823 ''sleep 5'' init_jobs)"


theorem proc_kill_reply_breaks_out:
  "\<exists>k k' t. fst (handle_mcp_json True kill_request) = ReadJobs k
     \<and> k kill_jobs = SendSignal 4823 SIGTERM k' \<and> k' None = Reply t \<and> \<not> quoted t"
proof -
  have f: "json_str kill_request ''tool'' 64 = Some ''proc.kill''"
    "json_str kill_request ''job_id'' 32 = Some ''1''" "json_str kill_request ''signal'' 32 = Some [BSLASH]"
    "hd kill_request = CHR ''{''" "kill_request \<noteq> []"
    by (simp_all add: kill_request_def json_str_def jq_def skip_blank_def fit_def Let_def shell_defs)
  have at: "atoi ''1'' = 1" by code_simp
  have "replicate 64 empty_job = empty_job # replicate 63 empty_job" by (simp add: replicate_Suc [symmetric])
  then have j: "proc_kill_json 1 [BSLASH] kill_jobs = KillSend 4823 SIGTERM"
    by (simp add: kill_jobs_def init_jobs_def MAX_JOBS_def jobs_add_def is_free_def is_thread_def empty_job_def
        proc_kill_json_def signame_to_num_def shell_defs)
  let ?t = "fit 256 (jq ''{`status`:`ok`,`tool`:`proc.kill`,`result`:{`job_id`:''
     @ show_int 1 @ jq '',`pid`:'' @ show_int 4823 @ jq '',`signal`:`'' @ [BSLASH] @ jq ''`}}'')"
  have "show_int 1 = ''1''" "show_int 4823 = ''4823''" by (simp_all add: show_int_def show_nat.simps digit_char_def) (code_simp+)
  then have "\<not> quoted ?t" by (simp add: quoted_def fit_id) (simp add: jq_def shell_defs)
  then show ?thesis
    by (simp add: handle_mcp_json_def dispatch_tool_def tool_proc_kill_def json_field_def f at j Let_def)
qed

end
