(* ===== verification/Ftp.thy ===== *)
theory Ftp
  imports Prelude
begin

text \<open>
  The FTP service of \<^verbatim>\<open>ftp_handler.c\<close>: the session state, every command and the session loop.
  A command returns its actions in order (replies, connections, file system calls, the shell
  command of \<open>LIST\<close>) and the new session. What the operating system answers during one command
  is a record \<open>ftp_env\<close>; the loop takes one for every turn.
\<close>

section \<open>State\<close>

record ftp_session =
  data_ip :: cstring
  data_port :: int
  username :: cstring
  cwd :: cstring
  logged_in :: bool

datatype mkdir_result = MkdirOk | MkdirExists | MkdirFailed

record ftp_env =
  realpath :: "cstring \<Rightarrow> cstring option"
  connect_ok :: "int \<Rightarrow> bool"
  mkdir_result :: "cstring \<Rightarrow> mkdir_result"
  create_ok :: "cstring \<Rightarrow> bool"
  open_ok :: "cstring \<Rightarrow> bool"

datatype ftp_act =
    Say cstring
  | Connect int
  | PopenTo cstring
  | Mkdir cstring
  | Create cstring
  | OpenRead cstring
  | Upload cstring
  | Download cstring

definition crlf :: "cstring \<Rightarrow> ftp_act" where
  "crlf s = Say (s @ [CR, NL])"

section \<open>Lines\<close>

text \<open>
  \<open>ftp_read_line\<close> into the bytes \<open>buf\<close>. At end of input it returns without writing the
  terminating NUL, so what follows the received bytes is what the buffer held before.
\<close>

fun put_bytes :: "char list \<Rightarrow> char list \<Rightarrow> char list" where
  "put_bytes [] buf = buf"
| "put_bytes (c # cs) [] = []"
| "put_bytes (c # cs) (b # buf) = c # put_bytes cs buf"

fun ftp_recv :: "nat \<Rightarrow> char list \<Rightarrow> cstring \<times> bool \<times> char list" where
  "ftp_recv 0 inp = ([], True, inp)"
| "ftp_recv (Suc m) [] = ([], False, [])"
| "ftp_recv (Suc m) (c # inp) =
     (if c = NL then ([], True, inp)
      else if c = CR then ftp_recv (Suc m) inp
      else (case ftp_recv m inp of (l, t, r) \<Rightarrow> (c # l, t, r)))"

definition ftp_read_line :: "char list \<Rightarrow> char list \<Rightarrow> nat \<times> char list \<times> char list" where
  "ftp_read_line buf inp = (case ftp_recv (length buf - 1) inp of
     (l, terminated, rest) \<Rightarrow> (length l, put_bytes (if terminated then l @ [NUL] else l) buf, rest))"

section \<open>Checks\<close>

definition is_safe_filename :: "cstring \<Rightarrow> bool" where
  "is_safe_filename name \<longleftrightarrow> name \<noteq> [] \<and> length name \<le> 255 \<and> strstr name ''..'' = None"

definition path_escapes_cwd :: "ftp_env \<Rightarrow> ftp_session \<Rightarrow> cstring \<Rightarrow> bool" where
  "path_escapes_cwd env s path = (case realpath env path of
      None \<Rightarrow> False
    | Some resolved \<Rightarrow> take (length (cwd s)) resolved \<noteq> cwd s)"

definition build_path :: "ftp_session \<Rightarrow> cstring \<Rightarrow> cstring option" where
  "build_path s name =
     (if \<not> is_safe_filename name then None
      else let p = cwd s @ ''/'' @ name in if 512 \<le> length p then None else Some p)"

text \<open>
  \<open>open_data_connection\<close>: no attempt without a port, else one connection to 127.0.0.1.
\<close>

definition open_data_connection :: "ftp_env \<Rightarrow> ftp_session \<Rightarrow> ftp_act list \<times> bool" where
  "open_data_connection env s =
     (if data_port s \<le> 0 then ([], False)
      else ([Connect (data_port s)], connect_ok env (data_port s)))"

section \<open>Commands\<close>

type_synonym ftp_cmd = "ftp_session \<Rightarrow> cstring \<Rightarrow> ftp_act list \<times> ftp_session"

definition cmd_user :: ftp_cmd where
  "cmd_user s arg =
     (if arg = [] then ([crlf ''501 Syntax error in parameters.''], s)
      else
        let s' = s\<lparr>username := fit 64 arg, logged_in := True\<rparr> in
        ([Say (fit 128 (''230 User '' @ username s' @ '' logged in.'' @ [CR, NL]))], s'))"

text \<open>One \<open>%u\<close> of \<open>sscanf\<close>: blanks, an optional sign, digits; glibc's saturation and wrap.\<close>

definition scan_u :: "cstring \<Rightarrow> (int \<times> cstring) option" where
  "scan_u s =
     (let t = dropWhile isspace s;
          neg = (t \<noteq> [] \<and> hd t = CHR ''-'');
          u = (if t \<noteq> [] \<and> (hd t = CHR ''-'' \<or> hd t = CHR ''+'') then tl t else t)
      in if u \<noteq> [] \<and> isdigit (hd u)
         then (case digits_go 0 u of (v, r) \<Rightarrow>
           let w = (if 18446744073709551615 < v then 18446744073709551615
                    else if neg then - v else v)
           in Some (w mod 4294967296, r))
         else None)"

text \<open>The format \<open>%u,%u,%u,%u,%u,%u\<close>: the values if all \<open>n\<close> conversions succeed.\<close>

fun scan_list :: "nat \<Rightarrow> cstring \<Rightarrow> int list option" where
  "scan_list 0 s = Some []"
| "scan_list (Suc n) s =
     (case scan_u s of
        None \<Rightarrow> None
      | Some (v, r) \<Rightarrow>
          if n = 0 then Some [v]
          else if r \<noteq> [] \<and> hd r = CHR '',''
          then map_option ((#) v) (scan_list n (tl r)) else None)"

definition cmd_port :: ftp_cmd where
  "cmd_port s arg =
     (if arg = [] then ([crlf ''501 Syntax error in parameters.''], s)
      else (case scan_list 6 arg of
          None \<Rightarrow> ([crlf ''501 Syntax error in parameters.''], s)
        | Some vs \<Rightarrow>
            if list_ex (\<lambda>v. 255 < v) vs then ([crlf ''501 Invalid PORT parameters.''], s)
            else
              let port = vs ! 4 * 256 + vs ! 5 in
              if port \<le> 1023 then ([crlf ''504 Command not implemented for that parameter.''], s)
              else ([crlf ''200 Port command successful.''],
                    s\<lparr>data_ip := ''127.0.0.1'', data_port := port\<rparr>)))"

definition cmd_list :: "ftp_env \<Rightarrow> ftp_cmd" where
  "cmd_list env s arg =
     (if \<not> logged_in s then ([crlf ''530 Please login with USER.''], s)
      else if data_port s \<le> 0 then ([crlf ''425 Use PORT first.''], s)
      else (case (if arg = [] then Some (cwd s)
                  else (case build_path s arg of
                          None \<Rightarrow> None
                        | Some p \<Rightarrow> if path_escapes_cwd env s p then None else Some p)) of
          None \<Rightarrow> ([crlf ''550 Permission denied.''], s)
        | Some target \<Rightarrow>
            (case open_data_connection env s of (conn, ok) \<Rightarrow>
               if \<not> ok
               then ([crlf ''150 Opening data connection.''] @ conn
                      @ [crlf ''425 Can't open data connection.''], s)
               else ([crlf ''150 Opening data connection.''] @ conn
                      @ [PopenTo (fit 640 (''ls -la '' @ target @ '' 2>&1'')),
                         crlf ''226 Transfer complete.''], s\<lparr>data_port := 0\<rparr>))))"

definition cmd_mkd :: "ftp_env \<Rightarrow> ftp_cmd" where
  "cmd_mkd env s arg =
     (if \<not> logged_in s then ([crlf ''530 Please login with USER.''], s)
      else if arg = [] then ([crlf ''500 Syntax error.''], s)
      else (case build_path s arg of
          None \<Rightarrow> ([crlf ''550 Permission denied.''], s)
        | Some path \<Rightarrow>
            ([Mkdir path,
              (case mkdir_result env path of
                 MkdirExists \<Rightarrow> crlf ''550 Directory already exists.''
               | MkdirFailed \<Rightarrow> crlf ''550 Could not create directory.''
               | MkdirOk \<Rightarrow> Say (fit 640 (''257 '' @ DQ # path @ DQ # '' directory created.'' @ [CR, NL])))], s)))"

definition cmd_stor :: "ftp_env \<Rightarrow> ftp_cmd" where
  "cmd_stor env s arg =
     (if \<not> logged_in s then ([crlf ''530 Please login with USER.''], s)
      else if arg = [] then ([crlf ''500 Syntax error.''], s)
      else if data_port s \<le> 0 then ([crlf ''425 Use PORT first.''], s)
      else (case build_path s arg of
          None \<Rightarrow> ([crlf ''550 Permission denied.''], s)
        | Some path \<Rightarrow>
            if \<not> create_ok env path then ([Create path, crlf ''450 File unavailable.''], s)
            else (case open_data_connection env s of (conn, ok) \<Rightarrow>
              if \<not> ok then ([Create path] @ conn @ [crlf ''425 Can't open data connection.''], s)
              else ([Create path] @ conn
                     @ [crlf ''125 Data connection already open.'', Upload path,
                        crlf ''226 Transfer complete.''], s\<lparr>data_port := 0\<rparr>))))"

definition cmd_retr :: "ftp_env \<Rightarrow> ftp_cmd" where
  "cmd_retr env s arg =
     (if \<not> logged_in s then ([crlf ''530 Please login with USER.''], s)
      else if arg = [] then ([crlf ''500 Syntax error.''], s)
      else (case build_path s arg of
          None \<Rightarrow> ([crlf ''550 Permission denied.''], s)
        | Some path \<Rightarrow>
            if path_escapes_cwd env s path then ([crlf ''550 Permission denied.''], s)
            else if \<not> open_ok env path then ([OpenRead path, crlf ''550 File not found.''], s)
            else if data_port s \<le> 0 then ([OpenRead path, crlf ''425 Use PORT first.''], s)
            else (case open_data_connection env s of (conn, ok) \<Rightarrow>
              if \<not> ok then ([OpenRead path] @ conn @ [crlf ''425 Can't open data connection.''], s)
              else ([OpenRead path] @ conn
                     @ [crlf ''150 Opening data connection.'', Download path,
                        crlf ''226 Transfer complete.''], s\<lparr>data_port := 0\<rparr>))))"

section \<open>The session\<close>

definition ftp_start :: "cstring option \<Rightarrow> ftp_session" where
  "ftp_start home = \<lparr>data_ip = [], data_port = 0, username = [],
     cwd = fit 512 (case home of Some h \<Rightarrow> h | None \<Rightarrow> ''/tmp''), logged_in = False\<rparr>"

text \<open>The word before the first space, at most 31 characters, in upper case; the rest.\<close>

definition ftp_parse :: "cstring \<Rightarrow> cstring \<times> cstring" where
  "ftp_parse line = (case split_at (CHR '' '') line of
      Some (c, a) \<Rightarrow> (map toupper (take 31 c), dropWhile (\<lambda>d. d = CHR '' '') a)
    | None \<Rightarrow> (map toupper (take 31 line), []))"

definition ftp_dispatch :: "ftp_env \<Rightarrow> cstring \<Rightarrow> cstring \<Rightarrow> ftp_session \<Rightarrow> ftp_act list \<times> ftp_session" where
  "ftp_dispatch env cmd arg s =
     (if cmd = ''USER'' then cmd_user s arg
      else if cmd = ''PORT'' then cmd_port s arg
      else if cmd = ''LIST'' then cmd_list env s arg
      else if cmd = ''MKD'' then cmd_mkd env s arg
      else if cmd = ''STOR'' then cmd_stor env s arg
      else if cmd = ''RETR'' then cmd_retr env s arg
      else if cmd = ''NOOP'' then ([crlf ''200 OK.''], s)
      else if cmd = ''SYST'' then ([crlf ''215 UNIX Type: L8''], s)
      else if cmd = ''TYPE'' then ([crlf ''200 Type set to I.''], s)
      else if cmd = ''PWD'' then ([Say (fit 560 (''257 '' @ DQ # cwd s @ DQ # [CR, NL]))], s)
      else ([crlf ''500 Unknown command.''], s))"

text \<open>One turn of the loop on a line: the actions, the session, whether the session ends.\<close>

definition ftp_turn :: "ftp_env \<Rightarrow> cstring \<Rightarrow> ftp_session \<Rightarrow> ftp_act list \<times> ftp_session \<times> bool" where
  "ftp_turn env line s =
     (if 1024 \<le> length line then ([crlf ''500 Syntax error (command too long).''], s, False)
      else (case ftp_parse line of (cmd, arg) \<Rightarrow>
        if cmd = ''QUIT'' then ([crlf ''221 Goodbye.''], s, True)
        else (case ftp_dispatch env cmd arg s of (acts, s') \<Rightarrow> (acts, s', False))))"

text \<open>
  The loop: buffer, input, number of the turn. A buffered line is served first; otherwise a
  line is read, and an empty one ends the session as a closed connection does.
\<close>

lemma ftp_recv_shorter: "ftp_recv m inp = (l, t, r) \<Longrightarrow> length l + length r \<le> length inp"
  by (induction m inp arbitrary: l t r rule: ftp_recv.induct) (auto split: if_splits prod.splits)

lemma ftp_read_line_shorter:
  "ftp_read_line buf inp = (n, buf', r) \<Longrightarrow> n + length r \<le> length inp"
  using ftp_recv_shorter by (auto simp: ftp_read_line_def split: prod.splits)

lemma c_str_cleared [simp]: "c_str (buf[0 := NUL]) = []"
  by (cases buf) (simp_all add: c_str_def)

function ftp_loop ::
  "(nat \<Rightarrow> ftp_env) \<Rightarrow> nat \<Rightarrow> char list \<Rightarrow> char list \<Rightarrow> ftp_session \<Rightarrow> ftp_act list \<times> ftp_session" where
  "ftp_loop env i buf inp s =
     (case (if c_str buf = [] then ftp_read_line buf inp else (1, buf, inp)) of (n, buf1, inp1) \<Rightarrow>
        if n = 0 then ([], s)
        else (case ftp_turn (env i) (c_str buf1) s of (acts, s', quit) \<Rightarrow>
          if quit then (acts, s')
          else (case ftp_loop env (Suc i) (buf1[0 := NUL]) inp1 s' of
                  (acts', s'') \<Rightarrow> (acts @ acts', s''))))"
  by pat_completeness auto
termination
  by (relation "measure (\<lambda>(env, i, buf, inp, s). length inp + (if c_str buf = [] then 0 else 1))")
    (auto dest!: ftp_read_line_shorter [OF sym] split: if_splits)

declare ftp_loop.simps [simp del]

definition handle_ftp_session ::
  "(nat \<Rightarrow> ftp_env) \<Rightarrow> cstring option \<Rightarrow> cstring \<Rightarrow> char list \<Rightarrow> ftp_act list \<times> ftp_session" where
  "handle_ftp_session env home first_line inp =
     (case ftp_loop env 0 (put_bytes (fit 1025 first_line) (replicate 1025 NUL)) inp (ftp_start home) of
        (acts, s) \<Rightarrow> (crlf ''220 AiShell FTP Service (Week 9) ready.'' # acts, s))"

section \<open>The invariant of a session\<close>

definition ftp_inv :: "cstring option \<Rightarrow> ftp_session \<Rightarrow> bool" where
  "ftp_inv home s \<longleftrightarrow> cwd s = cwd (ftp_start home)
     \<and> (data_port s = 0 \<or> 1024 \<le> data_port s \<and> data_port s \<le> 65535 \<and> data_ip s = ''127.0.0.1'')
     \<and> (logged_in s \<longleftrightarrow> username s \<noteq> []) \<and> length (username s) < 64"

text \<open>What an action may touch, before or after the login.\<close>

definition under_cwd :: "cstring \<Rightarrow> cstring \<Rightarrow> bool" where
  "under_cwd d p \<longleftrightarrow> (\<exists>name. is_safe_filename name \<and> p = d @ ''/'' @ name \<and> length p < 512)"

definition act_ok :: "cstring \<Rightarrow> bool \<Rightarrow> ftp_act \<Rightarrow> bool" where
  "act_ok d login a = (case a of
      Say t \<Rightarrow> True
    | Connect p \<Rightarrow> login \<and> 1024 \<le> p \<and> p \<le> 65535
    | PopenTo c \<Rightarrow> login
    | Mkdir p \<Rightarrow> login \<and> under_cwd d p
    | Create p \<Rightarrow> login \<and> under_cwd d p
    | OpenRead p \<Rightarrow> login \<and> under_cwd d p
    | Upload p \<Rightarrow> login \<and> under_cwd d p
    | Download p \<Rightarrow> login \<and> under_cwd d p)"

lemma build_path_under: "build_path s name = Some p \<Longrightarrow> under_cwd (cwd s) p"
  by (auto simp: build_path_def under_cwd_def Let_def split: if_splits)

lemma scan_list_nonneg: "scan_list n s = Some vs \<Longrightarrow> length vs = n \<and> (\<forall>v\<in>set vs. 0 \<le> v)"
proof (induction n arbitrary: s vs)
  case (Suc n)
  then show ?case
    by (auto simp: scan_u_def Let_def split: option.splits if_splits prod.splits)
qed simp

lemma port_range:
  "scan_list 6 arg = Some vs \<Longrightarrow> \<not> list_ex (\<lambda>v. 255 < v) vs \<Longrightarrow>
   0 \<le> vs ! 4 * 256 + vs ! 5 \<and> vs ! 4 * 256 + vs ! 5 \<le> 65535"
proof -
  assume a: "scan_list 6 arg = Some vs" "\<not> list_ex (\<lambda>v. 255 < v) vs"
  from scan_list_nonneg [OF a(1)] have "vs ! 4 \<in> set vs" "vs ! 5 \<in> set vs" "\<forall>v\<in>set vs. 0 \<le> v" by auto
  with a(2) have "0 \<le> vs ! 4" "vs ! 4 \<le> 255" "0 \<le> vs ! 5" "vs ! 5 \<le> 255"
    by (auto simp: list_ex_iff not_less)
  then show ?thesis by linarith
qed

definition turn_ok :: "cstring option \<Rightarrow> ftp_session \<Rightarrow> ftp_act list \<times> ftp_session \<Rightarrow> bool" where
  "turn_ok home s r \<longleftrightarrow> ftp_inv home (snd r) \<and> (\<forall>a\<in>set (fst r). act_ok (cwd s) (logged_in s) a)"

lemma user_ok: "ftp_inv home s \<Longrightarrow> turn_ok home s (cmd_user s arg)"
  by (auto simp: turn_ok_def cmd_user_def ftp_inv_def act_ok_def crlf_def Let_def fit_def)

lemma port_ok: "ftp_inv home s \<Longrightarrow> turn_ok home s (cmd_port s arg)"
  using port_range [of arg]
  by (auto simp: turn_ok_def cmd_port_def ftp_inv_def act_ok_def crlf_def Let_def split: option.split)

lemma list_ok: "ftp_inv home s \<Longrightarrow> turn_ok home s (cmd_list env s arg)"
  by (auto simp: turn_ok_def cmd_list_def open_data_connection_def ftp_inv_def act_ok_def crlf_def Let_def
      split: option.splits if_splits)

lemma mkd_ok: "ftp_inv home s \<Longrightarrow> turn_ok home s (cmd_mkd env s arg)"
  using build_path_under [of s arg]
  by (auto simp: turn_ok_def cmd_mkd_def act_ok_def crlf_def split: option.splits mkdir_result.splits)

lemma stor_ok: "ftp_inv home s \<Longrightarrow> turn_ok home s (cmd_stor env s arg)"
  using build_path_under [of s arg]
  by (auto simp: turn_ok_def cmd_stor_def open_data_connection_def ftp_inv_def act_ok_def crlf_def split: option.splits if_splits)

lemma retr_ok: "ftp_inv home s \<Longrightarrow> turn_ok home s (cmd_retr env s arg)"
  using build_path_under [of s arg]
  by (auto simp: turn_ok_def cmd_retr_def open_data_connection_def ftp_inv_def act_ok_def crlf_def split: option.splits if_splits)

lemma dispatch_ok: "ftp_inv home s \<Longrightarrow> turn_ok home s (ftp_dispatch env cmd arg s)"
  by (simp add: ftp_dispatch_def user_ok port_ok list_ok mkd_ok stor_ok retr_ok)
    (simp add: turn_ok_def act_ok_def crlf_def)

lemma turn_inv:
  assumes "ftp_inv home s" "ftp_turn env line s = (acts, s', quit)"
  shows "turn_ok home s (acts, s')"
  using assms dispatch_ok [OF assms(1), of env "fst (ftp_parse line)" "snd (ftp_parse line)"]
  by (auto simp: ftp_turn_def turn_ok_def act_ok_def crlf_def split: if_splits prod.splits)

definition ftp_event :: "ftp_env \<times> cstring \<Rightarrow> ftp_session \<Rightarrow> ftp_session" where
  "ftp_event e s = fst (snd (ftp_turn (fst e) (snd e) s))"

lemma ftp_inv_start: "ftp_inv home (ftp_start home)"
  by (simp add: ftp_inv_def ftp_start_def)

interpretation ftp: event_machine "ftp_start home" ftp_event "ftp_inv home" for home
proof
  show "ftp_inv home (ftp_start home)" by (rule ftp_inv_start)
  show "ftp_inv home (ftp_event e s)" if inv: "ftp_inv home s" for s e
  proof -
    obtain acts s' quit where t: "ftp_turn (fst e) (snd e) s = (acts, s', quit)" by (metis surj_pair)
    from turn_inv [OF inv t] t show ?thesis by (simp add: ftp_event_def turn_ok_def)
  qed
qed

text \<open>Whatever the client sends, in any order of commands.\<close>

theorem ftp_state_invariant:
  "let s = fold ftp_event es (ftp_start home) in
     (data_port s = 0 \<or> 1024 \<le> data_port s \<and> data_port s \<le> 65535 \<and> data_ip s = ''127.0.0.1'')
     \<and> cwd s = cwd (ftp_start home) \<and> (logged_in s \<longleftrightarrow> username s \<noteq> []) \<and> length (username s) < 64"
  using ftp.inv_reachable [of home es] by (simp add: ftp_inv_def Let_def)

section \<open>Whole sessions\<close>

definition is_login_reply :: "ftp_act \<Rightarrow> bool" where
  "is_login_reply a \<longleftrightarrow> (\<exists>t. a = Say (''230 User '' @ t))"

definition is_say :: "ftp_act \<Rightarrow> bool" where
  "is_say a \<longleftrightarrow> (\<exists>t. a = Say t)"

text \<open>Nothing but replies before the first login reply.\<close>

definition gated :: "ftp_act list \<Rightarrow> bool" where
  "gated acts \<longleftrightarrow> list_all is_say (takeWhile (\<lambda>a. \<not> is_login_reply a) acts)"

lemma gated_append: "list_all is_say a \<Longrightarrow> gated b \<or> list_ex is_login_reply a \<Longrightarrow> gated (a @ b)"
  by (induction a) (auto simp: gated_def)

lemma turn_gated:
  assumes "\<not> logged_in s" "ftp_turn env line s = (acts, s', quit)"
  shows "list_all is_say acts \<and> (logged_in s' \<longrightarrow> list_ex is_login_reply acts)"
proof -
  have "list_all is_say (fst r) \<and> (logged_in (snd r) \<longrightarrow> list_ex is_login_reply (fst r))"
    if "r = ftp_dispatch env cmd arg s" for r cmd arg
    using assms(1) that
    by (auto simp: ftp_dispatch_def cmd_user_def cmd_port_def cmd_list_def cmd_mkd_def cmd_stor_def
        cmd_retr_def Let_def is_say_def crlf_def is_login_reply_def fit_def split: option.split)
  from this [OF refl, of "fst (ftp_parse line)" "snd (ftp_parse line)"] show ?thesis
    using assms by (auto simp: ftp_turn_def is_say_def crlf_def split: if_splits prod.splits)
qed

lemma loop_safe:
  "ftp_inv home s \<Longrightarrow> ftp_loop env i buf inp s = (acts, s') \<Longrightarrow>
   ftp_inv home s' \<and> (\<forall>a\<in>set acts. act_ok (cwd (ftp_start home)) True a)
   \<and> (\<not> logged_in s \<longrightarrow> gated acts)"
proof (induction env i buf inp s arbitrary: acts s' rule: ftp_loop.induct)
  case (1 env i buf inp s)
  obtain n buf1 inp1 where rd:
    "(if c_str buf = [] then ftp_read_line buf inp else (1, buf, inp)) = (n, buf1, inp1)" by (metis surj_pair)
  show ?case
  proof (cases "n = 0")
    case True
    then show ?thesis using 1 rd by (simp add: ftp_loop.simps [of env i buf inp s] gated_def)
  next
    case False
    obtain a1 s1 quit where t: "ftp_turn (env i) (c_str buf1) s = (a1, s1, quit)" by (metis surj_pair)
    have ok: "ftp_inv home s1" "\<forall>a\<in>set a1. act_ok (cwd (ftp_start home)) True a"
      using turn_inv [OF "1.prems"(1) t] "1.prems"(1)
      by (auto simp: turn_ok_def ftp_inv_def act_ok_def split: ftp_act.splits)
    have g: "\<not> logged_in s \<Longrightarrow> list_all is_say a1 \<and> (logged_in s1 \<longrightarrow> list_ex is_login_reply a1)"
      using turn_gated [OF _ t] .
    show ?thesis
    proof (cases quit)
      case True
      then have "acts = a1" "s' = s1"
        using "1.prems"(2) rd t False by (simp_all add: ftp_loop.simps [of env i buf inp s])
      then show ?thesis using ok g gated_append [of a1 "[]"] by (simp add: gated_def)
    next
      case nq: False
      obtain a2 s2 where l: "ftp_loop env (Suc i) (buf1[0 := NUL]) inp1 s1 = (a2, s2)" by (metis surj_pair)
      have IH: "ftp_inv home s2 \<and> (\<forall>a\<in>set a2. act_ok (cwd (ftp_start home)) True a)
          \<and> (\<not> logged_in s1 \<longrightarrow> gated a2)"
        using "1.IH" [OF rd [symmetric] refl False t [symmetric] refl nq ok(1) l] .
      have "acts = a1 @ a2" "s' = s2"
        using "1.prems"(2) rd t False nq l by (simp_all add: ftp_loop.simps [of env i buf inp s])
      then show ?thesis using IH ok g gated_append [of a1 a2] by auto
    qed
  qed
qed

text \<open>C4: In every FTP session nothing but replies happens before a successful USER, every connection
  goes to a port above 1023, and every file created, read or made lies under the session's
  directory, textually.\<close>

theorem ftp_session_safe:
  "let acts = fst (handle_ftp_session env home first_line inp) in
     gated acts \<and> list_all (act_ok (cwd (ftp_start home)) True) acts"
proof -
  obtain acts s where l: "ftp_loop env 0 (put_bytes (fit 1025 first_line) (replicate 1025 NUL)) inp
      (ftp_start home) = (acts, s)" by (metis surj_pair)
  have "gated acts" "\<forall>a\<in>set acts. act_ok (cwd (ftp_start home)) True a"
    using loop_safe [OF ftp_inv_start l] by (simp_all add: ftp_start_def)
  then show ?thesis
    using gated_append [of "[crlf ''220 AiShell FTP Service (Week 9) ready.'']" acts]
    by (simp add: handle_ftp_session_def l act_ok_def crlf_def is_say_def list_all_iff)
qed

text \<open>\<open>LIST\<close> hands a name with shell metacharacters to the shell unquoted.\<close>

theorem list_runs_argument:
  assumes "logged_in s" "0 < data_port s" "connect_ok env (data_port s)"
    "build_path s name = Some p" "realpath env p = None"
  shows "PopenTo (''ls -la '' @ cwd s @ ''/'' @ name @ '' 2>&1'') \<in> set (fst (cmd_list env s name))"
proof -
  have "length (cwd s @ ''/'' @ name) < 512" "p = cwd s @ ''/'' @ name" "name \<noteq> []"
    using assms(4) by (auto simp: build_path_def is_safe_filename_def Let_def split: if_splits)
  then show ?thesis
    using assms by (simp add: cmd_list_def open_data_connection_def path_escapes_cwd_def fit_id)
qed

definition demo_env :: ftp_env where
  "demo_env = \<lparr>realpath = (\<lambda>_. None), connect_ok = (\<lambda>_. True), mkdir_result = (\<lambda>_. MkdirOk),
     create_ok = (\<lambda>_. True), open_ok = (\<lambda>_. True)\<rparr>"

definition demo_session :: ftp_session where
  "demo_session = \<lparr>data_ip = ''127.0.0.1'', data_port = 2000, username = ''u'', cwd = ''/home/u'',
     logged_in = True\<rparr>"

theorem list_runs_argument_witness:
  "PopenTo ''ls -la /home/u/x;id 2>&1'' \<in> set (fst (cmd_list demo_env demo_session ''x;id''))"
  using list_runs_argument [of demo_session demo_env "''x;id''" "''/home/u/x;id''"]
  by (simp add: demo_session_def demo_env_def build_path_def is_safe_filename_def)

text \<open>\<open>STOR\<close> truncates the file before the data connection exists; a failed one empties it.\<close>

theorem stor_truncates_before_connect:
  assumes "logged_in s" "0 < data_port s" "\<not> connect_ok env (data_port s)" "build_path s name = Some p"
    "create_ok env p"
  shows "cmd_stor env s name =
    ([Create p, Connect (data_port s), crlf ''425 Can't open data connection.''], s)"
proof -
  have "name \<noteq> []" using assms(4) by (auto simp: build_path_def is_safe_filename_def)
  with assms show ?thesis by (simp add: cmd_stor_def open_data_connection_def)
qed

theorem stor_truncates_before_connect_witness:
  "fst (cmd_stor (demo_env\<lparr>connect_ok := \<lambda>_. False\<rparr>) demo_session ''a'') =
     [Create ''/home/u/a'', Connect 2000, crlf ''425 Can't open data connection.'']"
  using stor_truncates_before_connect [of demo_session "demo_env\<lparr>connect_ok := \<lambda>_. False\<rparr>" "''a''" "''/home/u/a''"]
  by (simp add: demo_session_def demo_env_def build_path_def is_safe_filename_def)

end
