(* ===== verification/Edit_Ops.thy ===== *)
theory Edit_Ops
  imports Prelude
begin

text \<open>
  Line editing of files: the helpers of \<^verbatim>\<open>edit_utils.c\<close>, the operations of
  \<^verbatim>\<open>cmd_edit.c\<close> that the \<open>edit\<close> command and the MCP server share, and the older commands
  \<^verbatim>\<open>cmd_edit_replace_line.c\<close>, \<^verbatim>\<open>cmd_edit_insert_line.c\<close>, \<^verbatim>\<open>cmd_edit_delete_line.c\<close>,
  \<^verbatim>\<open>cmd_edit_replace.c\<close>, \<^verbatim>\<open>cmd_edit_show.c\<close> after option parsing. The disk is a map from paths to
  contents together with what the system allows: creating a file, renaming, and the error text
  of \<open>strerror\<close>. Allocation failures are left out.
\<close>

section \<open>The disk\<close>

record disk =
  files :: "cstring \<Rightarrow> char list option"
  may_write :: "cstring \<Rightarrow> bool"
  may_rename :: "cstring \<Rightarrow> cstring \<Rightarrow> bool"
  errno_text :: cstring

definition tmp_path :: "cstring \<Rightarrow> cstring" where
  "tmp_path path = fit 4096 (path @ ''.tmp'')"

text \<open>Writing through a temporary file: \<open>None\<close> is the failure \<open>-1\<close>.\<close>

definition replace_file :: "cstring \<Rightarrow> char list \<Rightarrow> disk \<Rightarrow> disk option \<times> disk" where
  "replace_file path content d =
     (let tmp = tmp_path path in
      if \<not> may_write d tmp then (None, d)
      else if may_rename d tmp path
      then (let d' = d\<lparr>files := (files d)(tmp := None, path := Some content)\<rparr> in (Some d', d'))
      else (None, d\<lparr>files := (files d)(tmp := None)\<rparr>))"

definition edit_read_lines :: "cstring \<Rightarrow> disk \<Rightarrow> cstring list option" where
  "edit_read_lines path d = map_option (\<lambda>bs. map c_str (fgets_all 8192 bs)) (files d path)"

definition edit_write_lines :: "cstring \<Rightarrow> cstring list \<Rightarrow> disk \<Rightarrow> disk option \<times> disk" where
  "edit_write_lines path ls d = replace_file path (concat ls) d"

definition edit_ensure_newline :: "cstring \<Rightarrow> cstring" where
  "edit_ensure_newline txt = (if txt \<noteq> [] \<and> last txt = NL then txt else txt @ [NL])"

section \<open>The shared operations\<close>

text \<open>An operation returns the error text (the C code's \<open>errbuf\<close>) or its result, and the disk.\<close>

type_synonym 'a edit = "disk \<Rightarrow> (cstring + 'a) \<times> disk"

definition edit_path_safe :: "cstring \<Rightarrow> bool" where
  "edit_path_safe path \<longleftrightarrow> strstr path ''..'' = None"

definition traversal_msg :: "nat \<Rightarrow> cstring \<Rightarrow> cstring" where
  "traversal_msg errsz path = fit errsz (''path traversal rejected: '' @ SQ # path @ [SQ])"

definition range_msg :: "nat \<Rightarrow> int \<Rightarrow> nat \<Rightarrow> cstring" where
  "range_msg errsz n count = fit errsz (''line '' @ show_int n @ '' out of range (file has ''
     @ show_nat count @ '' line'' @ (if count = 1 then [] else ''s'') @ '')'')"

definition errno_msg :: "nat \<Rightarrow> cstring \<Rightarrow> disk \<Rightarrow> cstring" where
  "errno_msg errsz path d = fit errsz (path @ '': '' @ errno_text d)"

definition finish_write :: "nat \<Rightarrow> cstring \<Rightarrow> cstring list \<Rightarrow> unit edit" where
  "finish_write errsz path ls d = (case edit_write_lines path ls d of
      (Some d', _) \<Rightarrow> (Inr (), d')
    | (None, d') \<Rightarrow> (Inl (fit errsz (path @ '': write failed: '' @ errno_text d)), d'))"

definition edit_op_replace_line :: "nat \<Rightarrow> cstring \<Rightarrow> int \<Rightarrow> cstring \<Rightarrow> unit edit" where
  "edit_op_replace_line errsz path linenum txt d =
     (if \<not> edit_path_safe path then (Inl (traversal_msg errsz path), d)
      else (case edit_read_lines path d of
          None \<Rightarrow> (Inl (errno_msg errsz path d), d)
        | Some ls \<Rightarrow>
            if linenum < 1 \<or> int (length ls) < linenum then (Inl (range_msg errsz linenum (length ls)), d)
            else finish_write errsz path (ls[nat linenum - 1 := edit_ensure_newline txt]) d))"

definition edit_op_insert_line :: "nat \<Rightarrow> cstring \<Rightarrow> int \<Rightarrow> cstring \<Rightarrow> unit edit" where
  "edit_op_insert_line errsz path linenum txt d =
     (if \<not> edit_path_safe path then (Inl (traversal_msg errsz path), d)
      else
        let lines = edit_read_lines path d in
        if lines = None \<and> linenum \<noteq> 1 then (Inl (errno_msg errsz path d), d)
        else
          let ls = (case lines of Some l \<Rightarrow> l | None \<Rightarrow> []) in
          if linenum < 1 \<or> int (length ls) + 1 < linenum then (Inl (range_msg errsz linenum (length ls)), d)
          else
            let ins = nat linenum - 1 in
            finish_write errsz path (take ins ls @ edit_ensure_newline txt # drop ins ls) d)"

definition edit_op_delete_line :: "nat \<Rightarrow> cstring \<Rightarrow> int \<Rightarrow> unit edit" where
  "edit_op_delete_line errsz path linenum d =
     (if \<not> edit_path_safe path then (Inl (traversal_msg errsz path), d)
      else (case edit_read_lines path d of
          None \<Rightarrow> (Inl (errno_msg errsz path d), d)
        | Some ls \<Rightarrow>
            if linenum < 1 \<or> int (length ls) < linenum then (Inl (range_msg errsz linenum (length ls)), d)
            else finish_write errsz path (take (nat linenum - 1) ls @ drop (nat linenum) ls) d))"

definition EDIT_MAX_BYTES :: nat where "EDIT_MAX_BYTES = 10485760"

text \<open>The two loops of \<open>edit_op_replace\<close>: counting, and copying with the replacement.\<close>

lemma strstr_shrinks: "strstr s pat = Some k \<Longrightarrow> pat \<noteq> [] \<Longrightarrow> length s - (k + length pat) < length s"
  using strstr_Some [of s pat k] by (cases pat) auto

function count_hits :: "cstring \<Rightarrow> cstring \<Rightarrow> nat" where
  "count_hits pat p =
     (if pat = [] then 0
      else (case strstr p pat of
          None \<Rightarrow> 0
        | Some k \<Rightarrow> Suc (count_hits pat (drop (k + length pat) p))))"
  by pat_completeness auto
termination
  by (relation "measure (\<lambda>(pat, p). length p)") (auto dest: strstr_shrinks)

function copy_replaced :: "cstring \<Rightarrow> cstring \<Rightarrow> cstring \<Rightarrow> cstring" where
  "copy_replaced pat rep s =
     (if pat = [] then s
      else (case strstr s pat of
          None \<Rightarrow> s
        | Some k \<Rightarrow> take k s @ rep @ copy_replaced pat rep (drop (k + length pat) s)))"
  by pat_completeness auto
termination
  by (relation "measure (\<lambda>(pat, rep, s). length s)") (auto dest: strstr_shrinks)

declare count_hits.simps [simp del] copy_replaced.simps [simp del]

text \<open>The searches stop at a NUL byte of the file; the copy of the tail does not.\<close>

definition edit_op_replace :: "nat \<Rightarrow> cstring \<Rightarrow> cstring \<Rightarrow> cstring \<Rightarrow> nat edit" where
  "edit_op_replace errsz path pat rep d =
     (if \<not> edit_path_safe path then (Inl (traversal_msg errsz path), d)
      else (case files d path of
          None \<Rightarrow> (Inl (errno_msg errsz path d), d)
        | Some src \<Rightarrow>
            if EDIT_MAX_BYTES < length src
            then (Inl (fit errsz (''file too large ('' @ show_nat (length src) @ '' bytes); use a real editor'')), d)
            else if pat = [] then (Inl (fit errsz ''pattern must not be empty''), d)
            else
              let text = c_str src; n = count_hits pat text in
              if n = 0 then (Inr 0, d)
              else (case replace_file path (copy_replaced pat rep text @ drop (length text) src) d of
                  (Some d', _) \<Rightarrow> (Inr n, d')
                | (None, d') \<Rightarrow> (Inl (if may_write d (tmp_path path)
                      then fit errsz (''rename failed: '' @ errno_text d)
                      else fit errsz (tmp_path path @ '': '' @ errno_text d)), d'))))"

text \<open>The size of the buffer the copy goes to.\<close>

definition outsz :: "nat \<Rightarrow> nat \<Rightarrow> nat \<Rightarrow> nat \<Rightarrow> nat" where
  "outsz nr n patlen replen = nr + n * (if patlen < replen then replen - patlen else 0) + 1"

section \<open>The \<open>edit\<close> command\<close>

definition plural :: "nat \<Rightarrow> cstring" where
  "plural n = (if n = 1 then [] else ''s'')"

text \<open>Exit status, printed text and disk; the error texts go to the standard error.\<close>

definition edit_result :: "(cstring + 'a) \<times> disk \<Rightarrow> ('a \<Rightarrow> cstring) \<Rightarrow> int \<times> cstring \<times> cstring \<times> disk" where
  "edit_result r out = (case r of
      (Inl e, d) \<Rightarrow> (1, [], ''edit: '' @ e @ [NL], d)
    | (Inr v, d) \<Rightarrow> (0, out v, [], d))"

definition edit_usage_check_and_run :: "cstring list \<Rightarrow> disk \<Rightarrow> int \<times> cstring \<times> cstring \<times> disk" where
  "edit_usage_check_and_run argv d =
     (let argc = length argv in
      if argc < 2
      then (1, [], ''Usage: edit <subcommand> ...'' @ [NL] @ ''Subcommands:'' @ [NL]
              @ ''  replace-line FILE N TEXT'' @ [NL] @ ''  insert-line  FILE N TEXT'' @ [NL]
              @ ''  delete-line  FILE N'' @ [NL] @ ''  replace      FILE PATTERN REPLACEMENT'' @ [NL], d)
      else if argv ! 1 = ''replace-line'' then
        (if argc < 5 then (1, [], ''Usage: edit replace-line FILE N TEXT'' @ [NL], d)
         else edit_result (edit_op_replace_line 512 (argv ! 2) (atoi (argv ! 3)) (argv ! 4) d)
           (\<lambda>_. ''edit: replaced line '' @ show_int (atoi (argv ! 3)) @ '' in '' @ argv ! 2 @ [NL]))
      else if argv ! 1 = ''insert-line'' then
        (if argc < 5 then (1, [], ''Usage: edit insert-line FILE N TEXT'' @ [NL], d)
         else edit_result (edit_op_insert_line 512 (argv ! 2) (atoi (argv ! 3)) (argv ! 4) d)
           (\<lambda>_. ''edit: inserted line before '' @ show_int (atoi (argv ! 3)) @ '' in '' @ argv ! 2 @ [NL]))
      else if argv ! 1 = ''delete-line'' then
        (if argc < 4 then (1, [], ''Usage: edit delete-line FILE N'' @ [NL], d)
         else edit_result (edit_op_delete_line 512 (argv ! 2) (atoi (argv ! 3)) d)
           (\<lambda>_. ''edit: deleted line '' @ show_int (atoi (argv ! 3)) @ '' from '' @ argv ! 2 @ [NL]))
      else if argv ! 1 = ''replace'' then
        (if argc < 5 then (1, [], ''Usage: edit replace FILE PATTERN REPLACEMENT'' @ [NL], d)
         else edit_result (edit_op_replace 512 (argv ! 2) (argv ! 3) (argv ! 4) d)
           (\<lambda>n. ''edit: replaced '' @ show_nat n @ '' occurrence'' @ plural n @ '' of '' @ SQ # argv ! 3
              @ SQ # '' with '' @ SQ # argv ! 4 @ SQ # '' in '' @ argv ! 2 @ [NL]))
      else (1, [], ''edit: unknown subcommand '' @ SQ # argv ! 1 @ [SQ, NL], d))"

section \<open>The older commands\<close>

text \<open>Exit status and disk; the messages on the standard error are left out.\<close>

definition write_status :: "disk option \<times> disk \<Rightarrow> int \<times> disk" where
  "write_status r = (case r of (Some d', _) \<Rightarrow> (0, d') | (None, d') \<Rightarrow> (1, d'))"

definition edit_replace_line_run :: "int \<Rightarrow> cstring \<Rightarrow> cstring \<Rightarrow> disk \<Rightarrow> int \<times> disk" where
  "edit_replace_line_run n txt path d = (case edit_read_lines path d of
      None \<Rightarrow> (1, d)
    | Some ls \<Rightarrow>
        if n < 1 \<or> int (length ls) < n then (1, d)
        else write_status (edit_write_lines path (ls[nat n - 1 := edit_ensure_newline txt]) d))"

definition edit_insert_line_run :: "int \<Rightarrow> bool \<Rightarrow> cstring \<Rightarrow> cstring \<Rightarrow> disk \<Rightarrow> int \<times> disk" where
  "edit_insert_line_run n insert_after txt path d = (case edit_read_lines path d of
      None \<Rightarrow> (1, d)
    | Some ls \<Rightarrow>
        if n < 1 \<or> int (length ls) < n then (1, d)
        else
          let insert_pos = (if insert_after then nat n else nat n - 1) in
          write_status (edit_write_lines path
            (take insert_pos ls @ edit_ensure_newline txt # drop insert_pos ls) d))"

definition edit_delete_line_run :: "int \<Rightarrow> int option \<Rightarrow> cstring \<Rightarrow> disk \<Rightarrow> int \<times> disk" where
  "edit_delete_line_run first endline path d =
     (let last = (case endline of Some l \<Rightarrow> l | None \<Rightarrow> first) in
      if last < first then (1, d)
      else (case edit_read_lines path d of
          None \<Rightarrow> (1, d)
        | Some ls \<Rightarrow>
            if first < 1 \<or> int (length ls) < last then (1, d)
            else write_status (edit_write_lines path (take (nat first - 1) ls @ drop (nat last) ls) d)))"

text \<open>
  \<open>edit-replace\<close>. The regular expression is the library's: where the first match of a text
  starts and ends (\<open>rm_so\<close>, \<open>rm_eo\<close>, never \<open>rm_eo < rm_so\<close>), or \<open>None\<close>.
\<close>

type_synonym regex = "cstring \<Rightarrow> (nat \<times> nat) option"

function replace_in_line :: "regex \<Rightarrow> cstring \<Rightarrow> bool \<Rightarrow> bool \<Rightarrow> cstring \<Rightarrow> cstring" where
  "replace_in_line re repl global replaced p =
     (if p = [] then []
      else if \<not> global \<and> replaced then p
      else (case re p of
          None \<Rightarrow> p
        | Some (so, eo) \<Rightarrow> take so p @ repl @
            (if eo \<le> so then hd p # replace_in_line re repl global True (tl p)
             else replace_in_line re repl global True (drop eo p))))"
  by pat_completeness auto
termination
  by (relation "measure (\<lambda>(re, repl, g, r, p). length p)") auto

declare replace_in_line.simps [simp del]

definition edit_replace_run ::
  "regex option \<Rightarrow> cstring \<Rightarrow> bool \<Rightarrow> cstring \<Rightarrow> disk \<Rightarrow> int \<times> cstring \<times> disk" where
  "edit_replace_run re repl glob_flag path d = (case re of
      None \<Rightarrow> (1, [], d)
    | Some re \<Rightarrow>
        (case edit_read_lines path d of
           None \<Rightarrow> (1, [], d)
         | Some ls \<Rightarrow>
             let new = map (replace_in_line re repl glob_flag False) ls;
                 changed = length (filter (\<lambda>(l, l'). l \<noteq> l') (zip ls new)) in
             if changed = 0 then (0, ''no matches found'' @ [NL], d)
             else (case edit_write_lines path new d of
                 (Some d', _) \<Rightarrow> (0, show_nat changed @ '' line(s) modified'' @ [NL], d')
               | (None, d') \<Rightarrow> (1, [], d'))))"

text \<open>\<open>edit-show\<close>: numbered lines, the numbers as wide as the last one.\<close>

definition strip_newline :: "cstring \<Rightarrow> cstring" where
  "strip_newline l = (if l \<noteq> [] \<and> last l = NL then butlast l else l)"

definition edit_show_run :: "int option \<Rightarrow> int option \<Rightarrow> cstring \<Rightarrow> disk \<Rightarrow> int \<times> cstring list" where
  "edit_show_run startline endline path d = (case edit_read_lines path d of
      None \<Rightarrow> (1, [])
    | Some ls \<Rightarrow>
        let count = int (length ls);
            first = (case startline of Some f \<Rightarrow> f | None \<Rightarrow> 1);
            last = (case endline of Some l \<Rightarrow> l | None \<Rightarrow> -1);
            last = (if last = -1 then count else last);
            first = (if first < 1 then 1 else first);
            last = (if count < last then count else last)
        in if last < first then (1, [])
           else (0, map (\<lambda>i. pad_left (length (show_int last)) (show_int (i + 1)) @ ''  ''
                             @ strip_newline (ls ! nat i) @ [NL]) [first - 1..last - 1]))"

section \<open>Text files\<close>

text \<open>A complete line: no NUL, one newline, at its end, and shorter than the read buffer.\<close>

definition line_ok :: "cstring \<Rightarrow> bool" where
  "line_ok l \<longleftrightarrow> l \<noteq> [] \<and> last l = NL \<and> NL \<notin> set (butlast l) \<and> NUL \<notin> set l \<and> length l < 8192"

lemma fgets_all_lines: "list_all line_ok ls \<Longrightarrow> fgets_all 8192 (concat ls) = ls"
proof (induction ls)
  case (Cons l ls)
  then have l: "l = butlast l @ [NL]" "NL \<notin> set (butlast l)" "length (butlast l) + 1 \<le> 8191"
    by (auto simp: line_ok_def) (metis append_butlast_last_id)
  have "fgets_go 8191 [] (butlast l @ NL # concat ls) = (butlast l @ [NL]) # fgets_go 8191 [] (concat ls)"
    using fgets_go_line [of "butlast l" "[]" 8191 "concat ls"] l(2,3) by simp
  then have "fgets_go 8191 [] (l @ concat ls) = l # fgets_go 8191 [] (concat ls)"
    using l(1) by (metis append.assoc append_Cons append_Nil)
  with Cons show ?case by (simp add: fgets_all_def)
qed (simp add: fgets_all_def)

lemma read_lines_text:
  "files d path = Some (concat ls) \<Longrightarrow> list_all line_ok ls \<Longrightarrow> edit_read_lines path d = Some ls"
  by (auto simp: edit_read_lines_def fgets_all_lines list_all_iff line_ok_def c_str_id intro!: map_idI)

lemma ensure_newline_ok:
  "NL \<notin> set t \<Longrightarrow> NUL \<notin> set t \<Longrightarrow> length t < 8191 \<Longrightarrow> line_ok (edit_ensure_newline t)"
  by (auto simp: edit_ensure_newline_def line_ok_def shell_defs dest: last_in_set)

text \<open>What the line operations need of the file they edit.\<close>

locale line_file =
  fixes get_lines :: "'d \<Rightarrow> cstring list option"
    and put_lines :: "cstring list \<Rightarrow> 'd \<Rightarrow> 'd option \<times> 'd"
    and line :: "cstring \<Rightarrow> bool" and writable :: "'d \<Rightarrow> bool"
  assumes put_succeeds: "writable d \<Longrightarrow> \<exists>d'. put_lines ls d = (Some d', d') \<and> writable d'"
    and get_put: "list_all line ls \<Longrightarrow> put_lines ls d = (Some d', d') \<Longrightarrow> get_lines d' = Some ls"
begin

lemma put_get: "writable d \<Longrightarrow> list_all line ls \<Longrightarrow>
    \<exists>d'. put_lines ls d = (Some d', d') \<and> writable d' \<and> get_lines d' = Some ls"
  using put_succeeds [of d ls] get_put [of ls d] by blast

lemma put_twice: "writable d \<Longrightarrow> list_all line ls \<Longrightarrow> list_all line ls' \<Longrightarrow>
    \<exists>d1 d2. put_lines ls d = (Some d1, d1) \<and> put_lines ls' d1 = (Some d2, d2) \<and> get_lines d2 = Some ls'"
  using put_get [of d ls] put_get [of _ ls'] by blast

end

definition disk_writable :: "cstring \<Rightarrow> disk \<Rightarrow> bool" where
  "disk_writable path d \<longleftrightarrow> may_write d (tmp_path path) \<and> may_rename d (tmp_path path) path"

interpretation text_file: line_file "edit_read_lines path" "edit_write_lines path" line_ok "disk_writable path"
  for path
proof
  show "\<exists>d'. edit_write_lines path ls d = (Some d', d') \<and> disk_writable path d'" if "disk_writable path d" for ls d
    using that by (simp add: edit_write_lines_def replace_file_def Let_def disk_writable_def)
  show "edit_read_lines path d' = Some ls"
    if "list_all line_ok ls" "edit_write_lines path ls d = (Some d', d')" for ls d d'
  proof (rule read_lines_text)
    show "files d' path = Some (concat ls)"
      using that(2) by (auto simp: edit_write_lines_def replace_file_def Let_def split: if_splits)
  qed (rule that(1))
qed

section \<open>What the operations do to a text file\<close>

text \<open>A line operation on a text file: it succeeds and the file then has exactly these lines.\<close>

definition edits_to :: "cstring \<Rightarrow> (cstring + unit) \<times> disk \<Rightarrow> cstring list \<Rightarrow> bool" where
  "edits_to path r ls \<longleftrightarrow> fst r = Inr () \<and> edit_read_lines path (snd r) = Some ls
     \<and> disk_writable path (snd r)"

lemma finish_edits_to: "disk_writable path d \<Longrightarrow> list_all line_ok ls \<Longrightarrow> edits_to path (finish_write n path ls d) ls"
  using text_file.put_get [of path d ls] by (auto simp: finish_write_def edits_to_def)

lemma list_all_take_drop: "list_all P ls \<Longrightarrow> list_all P (take i ls) \<and> list_all P (drop j ls)"
  by (auto simp: list_all_iff dest: in_set_takeD in_set_dropD)

lemma list_all_update: "list_all P ls \<Longrightarrow> P x \<Longrightarrow> list_all P (ls[i := x])"
  by (auto simp: list_all_iff dest!: set_update_subset_insert [THEN subsetD])

text \<open>C12: On a text file with the line in range, replace, insert and delete succeed and leave exactly
  the list of lines with that line replaced, inserted before or removed.\<close>

theorem edit_ops_on_text_file:
  assumes "files d path = Some (concat ls)" "list_all line_ok ls" "edit_path_safe path"
    "disk_writable path d" "NL \<notin> set txt" "NUL \<notin> set txt" "length txt < 8191" "i < length ls"
  shows "edits_to path (edit_op_replace_line sz path (int i + 1) txt d) (ls[i := txt @ [NL]])
    \<and> edits_to path (edit_op_insert_line sz path (int i + 1) txt d) (take i ls @ (txt @ [NL]) # drop i ls)
    \<and> edits_to path (edit_op_delete_line sz path (int i + 1) d) (take i ls @ drop (Suc i) ls)"
proof -
  have r: "edit_read_lines path d = Some ls" by (rule read_lines_text [OF assms(1,2)])
  have t: "edit_ensure_newline txt = txt @ [NL]" using assms(5) by (auto simp: edit_ensure_newline_def dest: last_in_set)
  have ok: "line_ok (txt @ [NL])" using ensure_newline_ok [OF assms(5,6,7)] t by simp
  have n: "nat (int i + 1) = Suc i" by simp
  show ?thesis
    using assms(3,8) r t ok list_all_take_drop [OF assms(2)] list_all_update [OF assms(2) ok, of i]
    by (simp add: edit_op_replace_line_def edit_op_insert_line_def edit_op_delete_line_def Let_def n
        finish_edits_to [OF assms(4)])
qed

theorem edit_insert_delete_roundtrip:
  assumes "files d path = Some (concat ls)" "list_all line_ok ls" "edit_path_safe path"
    "disk_writable path d" "NL \<notin> set txt" "NUL \<notin> set txt" "length txt < 8191" "i \<le> length ls"
  shows "case edit_op_insert_line sz path (int i + 1) txt d of
      (Inr _, d1) \<Rightarrow> (case edit_op_delete_line sz path (int i + 1) d1 of
          (Inr _, d2) \<Rightarrow> files d2 path = files d path | _ \<Rightarrow> False)
    | _ \<Rightarrow> False"
proof -
  have r: "edit_read_lines path d = Some ls" by (rule read_lines_text [OF assms(1,2)])
  have t: "edit_ensure_newline txt = txt @ [NL]" using assms(5) by (auto simp: edit_ensure_newline_def dest: last_in_set)
  have ok: "line_ok (txt @ [NL])" using ensure_newline_ok [OF assms(5,6,7)] t by simp
  have n: "nat (int i + 1) = Suc i" by simp
  let ?ls = "take i ls @ (txt @ [NL]) # drop i ls"
  have "list_all line_ok ?ls" using list_all_take_drop [OF assms(2)] ok by simp
  from text_file.put_get [OF assms(4) this] obtain d1 where
    d1: "edit_write_lines path ?ls d = (Some d1, d1)" "disk_writable path d1" "edit_read_lines path d1 = Some ?ls"
    by blast
  have ins: "edit_op_insert_line sz path (int i + 1) txt d = (Inr (), d1)"
    using assms(3,8) r t d1(1) by (simp add: edit_op_insert_line_def Let_def n finish_write_def)
  have restored: "take i ?ls @ drop (Suc i) ?ls = ls" using assms(8) by simp
  obtain d2 where d2: "edit_write_lines path ls d1 = (Some d2, d2)" "files d2 path = Some (concat ls)"
    using d1(2) by (simp add: edit_write_lines_def replace_file_def Let_def disk_writable_def)
  have "edit_op_delete_line sz path (int i + 1) d1 = (Inr (), d2)"
    using assms(3,8) d1(3) restored d2(1)
    by (simp add: edit_op_delete_line_def n finish_write_def del: take_append drop_append)
  with ins d2(2) assms(1) show ?thesis by simp
qed

text \<open>An operation that reports an error changes no file but the temporary one.\<close>

lemma replace_file_failed:
  "replace_file path c d = (None, d') \<Longrightarrow> q \<noteq> tmp_path path \<Longrightarrow> files d' q = files d q"
  by (auto simp: replace_file_def Let_def split: if_splits)

lemma finish_failed: "finish_write sz path ls d = (Inl e, d') \<Longrightarrow> q \<noteq> tmp_path path \<Longrightarrow> files d' q = files d q"
  by (auto simp: finish_write_def edit_write_lines_def replace_file_failed split: prod.splits option.splits)

text \<open>C40: A line operation that reports an error has changed no file but its temporary one.\<close>

theorem edit_errors_keep_files:
  assumes "q \<noteq> tmp_path path"
  shows "\<forall>r \<in> {edit_op_replace_line sz path n txt d, edit_op_insert_line sz path n txt d,
                edit_op_delete_line sz path n d}.
           (\<exists>e. fst r = Inl e) \<longrightarrow> files (snd r) q = files d q"
proof -
  have f: "files (snd (finish_write sz path ls d)) q = files d q" if "fst (finish_write sz path ls d) = Inl e"
    for ls e
    using finish_failed [of sz path ls d e "snd (finish_write sz path ls d)" q] that assms
    by (metis prod.collapse)
  show ?thesis
    by (auto simp: edit_op_replace_line_def edit_op_insert_line_def edit_op_delete_line_def Let_def
        split: option.split dest!: f)
qed

section \<open>Literal replacement\<close>

text \<open>
  The text falls into the pieces between the occurrences; the result has the replacement where
  the text has the pattern.
\<close>

theorem edit_replace_correct:
  assumes "pat \<noteq> []"
  shows "\<exists>pieces. length pieces = Suc (count_hits pat s) \<and> s = joined pat pieces
    \<and> copy_replaced pat rep s = joined rep pieces \<and> (\<forall>p\<in>set pieces. \<not> sublist pat p)"
  using assms
proof (induction pat s rule: count_hits.induct)
  case (1 pat s)
  show ?case
  proof (cases "strstr s pat")
    case None
    then have "\<not> sublist pat s" by (simp add: strstr_None_iff)
    with None "1.prems" show ?thesis
      by (intro exI [of _ "[s]"]) (simp add: count_hits.simps [of pat s] copy_replaced.simps [of pat rep s])
  next
    case (Some k)
    from "1.IH" [OF "1.prems" Some "1.prems"] obtain ps where ps:
      "length ps = Suc (count_hits pat (drop (k + length pat) s))"
      "drop (k + length pat) s = joined pat ps"
      "copy_replaced pat rep (drop (k + length pat) s) = joined rep ps" "\<forall>p\<in>set ps. \<not> sublist pat p"
      by blast
    have ne: "ps \<noteq> []" using ps(1) by auto
    have "s = take k s @ pat @ drop (k + length pat) s" using strstr_Some [OF Some] by simp
    then have s: "s = joined pat (take k s # ps)" using ne ps(2) by (simp add: joined_Cons)
    have c: "copy_replaced pat rep s = joined rep (take k s # ps)"
      using ne Some "1.prems" ps(3) by (simp add: copy_replaced.simps [of pat rep s] joined_Cons)
    have l: "length (take k s # ps) = Suc (count_hits pat s)"
      using Some "1.prems" ps(1) by (simp add: count_hits.simps [of pat s])
    have "\<forall>p\<in>set (take k s # ps). \<not> sublist pat p"
      using ps(4) strstr_none_before [OF Some "1.prems"] by simp
    with s c l show ?thesis by blast
  qed
qed

theorem edit_replace_correct_witness:
  "copy_replaced ''ab'' ''-'' ''xabyab'' = ''x-y-'' \<and> count_hits ''ab'' ''xabyab'' = 2
   \<and> (\<exists>pieces. length pieces = Suc 2 \<and> ''xabyab'' = joined ''ab'' pieces)"
proof -
  have c: "copy_replaced ''ab'' ''-'' ''xabyab'' = ''x-y-''" "count_hits ''ab'' ''xabyab'' = 2"
    by (simp_all add: copy_replaced.simps count_hits.simps)
  have "''ab'' \<noteq> []" by simp
  from edit_replace_correct [OF this, of "''xabyab''" "''-''"] show ?thesis unfolding c by blast
qed

text \<open>The copy fits the buffer that was sized from the count.\<close>

lemma copy_replaced_length:
  "pat \<noteq> [] \<Longrightarrow> length (copy_replaced pat rep s) + count_hits pat s * length pat
     = length s + count_hits pat s * length rep"
proof (induction pat s rule: count_hits.induct)
  case (1 pat s)
  show ?case
  proof (cases "strstr s pat")
    case (Some k)
    have "k + length pat \<le> length s" using strstr_Some [OF Some] by simp
    with "1.IH" [OF "1.prems" Some "1.prems"] Some "1.prems" show ?thesis
      by (simp add: copy_replaced.simps [of pat rep s] count_hits.simps [of pat s])
  qed (use "1.prems" in \<open>simp add: copy_replaced.simps [of pat rep s] count_hits.simps [of pat s]\<close>)
qed

theorem edit_replace_fits_buffer:
  assumes "pat \<noteq> []"
  shows "length (copy_replaced pat rep (c_str src) @ drop (length (c_str src)) src)
    < outsz (length src) (count_hits pat (c_str src)) (length pat) (length rep)"
proof -
  let ?n = "count_hits pat (c_str src)" and ?c = "length (copy_replaced pat rep (c_str src))"
  have l: "?c + ?n * length pat = length (c_str src) + ?n * length rep"
    by (rule copy_replaced_length [OF assms])
  have "length (c_str src) \<le> length src" by (rule length_c_str)
  moreover have "?c \<le> length (c_str src) + ?n * (if length pat < length rep then length rep - length pat else 0)"
  proof (cases "length pat < length rep")
    case True
    then have "?n * length rep = ?n * length pat + ?n * (length rep - length pat)"
      by (metis add_mult_distrib2 le_add_diff_inverse less_imp_le)
    with l True show ?thesis by simp
  next
    case False
    then have "?n * length rep \<le> ?n * length pat" by simp
    with l have "?c \<le> length (c_str src)" by linarith
    with False show ?thesis by simp
  qed
  ultimately show ?thesis by (simp add: outsz_def)
qed

theorem edit_replace_fits_buffer_witness:
  "length (copy_replaced ''a'' ''bcd'' (c_str ''xax'') @ drop (length (c_str ''xax'')) ''xax'')
     < outsz (length ''xax'') (count_hits ''a'' (c_str ''xax'')) (length ''a'') (length ''bcd'')"
  by (rule edit_replace_fits_buffer) simp

text \<open>\<open>edit-replace\<close> with an empty match that is not at the start repeats the text before it.\<close>

theorem empty_match_repeats_text:
  assumes "p \<noteq> []" "re p = Some (length p, length p)"
  shows "replace_in_line re repl False False p = p @ repl @ p"
proof -
  have "replace_in_line re repl False True (tl p) = tl p"
    by (subst replace_in_line.simps) simp
  with assms show ?thesis by (simp add: replace_in_line.simps [of re repl False False p])
qed

theorem empty_match_repeats_text_witness:
  "replace_in_line (\<lambda>p. Some (length p, length p)) ''!'' False False ''end'' = ''end!end''"
  using empty_match_repeats_text [of "''end''" "\<lambda>p. Some (length p, length p)" "''!''"] by simp

section \<open>Witnesses\<close>

definition demo_disk :: disk where
  "demo_disk = \<lparr>files = (\<lambda>p. if p = ''f'' then Some (''a'' @ [NL] @ ''b'' @ [NL]) else None),
     may_write = (\<lambda>_. True), may_rename = (\<lambda>_ _. True), errno_text = ''error''\<rparr>"

lemma demo_disk_file: "files demo_disk ''f'' = Some (concat [''a'' @ [NL], ''b'' @ [NL]])"
  "list_all line_ok [''a'' @ [NL], ''b'' @ [NL]]" "edit_path_safe ''f''" "disk_writable ''f'' demo_disk"
  by (simp_all add: demo_disk_def line_ok_def edit_path_safe_def disk_writable_def shell_defs)

theorem edit_ops_on_text_file_witness:
  "edits_to ''f'' (edit_op_replace_line 512 ''f'' 2 ''c'' demo_disk) [''a'' @ [NL], ''c'' @ [NL]]"
  using edit_ops_on_text_file [OF demo_disk_file, of "''c''" 1 512] by (simp add: shell_defs)

theorem edit_insert_delete_roundtrip_witness:
  "case edit_op_insert_line 512 ''f'' 3 ''c'' demo_disk of
      (Inr _, d1) \<Rightarrow> (case edit_op_delete_line 512 ''f'' 3 d1 of
          (Inr _, d2) \<Rightarrow> files d2 ''f'' = files demo_disk ''f'' | _ \<Rightarrow> False)
    | _ \<Rightarrow> False"
proof -
  have three: "int 2 + 1 = (3 :: int)" by simp
  have "NL \<notin> set ''c''" "NUL \<notin> set ''c''" "length ''c'' < 8191" "2 \<le> length [''a'' @ [NL], ''b'' @ [NL]]"
    by (simp_all add: shell_defs)
  from edit_insert_delete_roundtrip [OF demo_disk_file this, of 512] show ?thesis by (simp only: three)
qed

theorem edit_errors_keep_files_witness:
  "files (snd (edit_op_delete_line 512 ''f'' 3 demo_disk)) ''f'' = files demo_disk ''f''"
  using edit_errors_keep_files [of "''f''" "''f''" 512 3 "''c''" demo_disk]
    read_lines_text [OF demo_disk_file(1,2)] demo_disk_file(3)
  by (simp add: tmp_path_def fit_def edit_op_delete_line_def)

end
