(* ===== verification/Arith.thy ===== *)
theory Arith
  imports Prelude
begin

text \<open>
  The arithmetic evaluator of \<^verbatim>\<open>aishell_main.c\<close> (\<open>ap_factor\<close>, \<open>ap_term\<close>, \<open>ap_expr\<close>,
  \<open>arith_eval\<close>, \<open>arith_has_vars\<close>). The parser state \<open>AParser\<close> is the rest of the text. Values are
  C \<open>long\<close>s: a result outside of their range is undefined in C and is the fault \<open>Overflow\<close> here,
  as is a name that does not fit its 64 byte buffer (\<open>NameTooLong\<close>). The recursive descent is
  run with fuel; \<open>parse_expr\<close> and its companions take enough of it and satisfy the equations of
  the C functions.
\<close>

datatype arith_fault = Fuel | Overflow | NameTooLong

type_synonym lookup = "cstring \<Rightarrow> cstring option"

definition ap_ws :: "cstring \<Rightarrow> cstring" where
  "ap_ws s = dropWhile (\<lambda>c. c = CHR '' '' \<or> c = TAB) s"

definition name_char :: "char \<Rightarrow> bool" where
  "name_char c \<longleftrightarrow> isalnum c \<or> c = CHR ''_''"

definition long_val :: "int \<Rightarrow> arith_fault + int" where
  "long_val v = (if LONG_MIN \<le> v \<and> v \<le> LONG_MAX then Inr v else Inl Overflow)"

definition with_rest :: "cstring \<Rightarrow> arith_fault + int \<Rightarrow> arith_fault + int \<times> cstring" where
  "with_rest r x = (case x of Inl f \<Rightarrow> Inl f | Inr v \<Rightarrow> Inr (v, r))"

definition arith_name :: "lookup \<Rightarrow> cstring \<Rightarrow> arith_fault + int \<times> cstring" where
  "arith_name look s =
     (let name = takeWhile name_char s in
      if 64 \<le> length name then Inl NameTooLong
      else Inr (case look name of Some v \<Rightarrow> atol v | None \<Rightarrow> 0, dropWhile name_char s))"

definition arith_number :: "cstring \<Rightarrow> arith_fault + int \<times> cstring" where
  "arith_number s = (case digits_go 0 s of (v, r) \<Rightarrow> with_rest r (long_val v))"

text \<open>C division truncates towards zero; a zero divisor gives 0.\<close>

definition c_div :: "int \<Rightarrow> int \<Rightarrow> int" where
  "c_div a b = (if b = 0 then 0 else sgn a * sgn b * (\<bar>a\<bar> div \<bar>b\<bar>))"

definition c_mod :: "int \<Rightarrow> int \<Rightarrow> int" where
  "c_mod a b = (if b = 0 then 0 else a - c_div a b * b)"

definition mul_op :: "char \<Rightarrow> int \<Rightarrow> int \<Rightarrow> arith_fault + int" where
  "mul_op c a b =
     (if c = CHR ''*'' then long_val (a * b)
      else if c = CHR ''/'' then long_val (c_div a b)
      else if a = LONG_MIN \<and> b = -1 then Inl Overflow else long_val (c_mod a b))"

definition add_op :: "char \<Rightarrow> int \<Rightarrow> int \<Rightarrow> arith_fault + int" where
  "add_op c a b = long_val (if c = CHR ''+'' then a + b else a - b)"

definition is_mul_op :: "char \<Rightarrow> bool" where
  "is_mul_op c \<longleftrightarrow> c = CHR ''*'' \<or> c = CHR ''/'' \<or> c = CHR ''%''"

text \<open>A minus directly before a closing parenthesis is not an operator.\<close>

definition at_add_op :: "cstring \<Rightarrow> bool" where
  "at_add_op s \<longleftrightarrow> s \<noteq> [] \<and> (hd s = CHR ''+'' \<or>
     (hd s = CHR ''-'' \<and> (tl s = [] \<or> hd (tl s) \<noteq> CHR '')'')))"

text \<open>The five functions call each other; a mode selects one, with its accumulator.\<close>

type_synonym arith_parser = "cstring \<Rightarrow> arith_fault + int \<times> cstring"

datatype mode = MFactor | MTerm | MTermLoop int | MExpr | MExprLoop int

definition factor_step :: "lookup \<Rightarrow> (mode \<Rightarrow> arith_parser) \<Rightarrow> arith_parser" where
  "factor_step look ap s0 =
     (case ap_ws s0 of
        [] \<Rightarrow> Inr (0, [])
      | c # s \<Rightarrow>
          if c = CHR ''-'' then
            (case ap MFactor s of
               Inl f \<Rightarrow> Inl f
             | Inr (v, r) \<Rightarrow> with_rest r (long_val (- v)))
          else if c = CHR ''+'' then ap MFactor s
          else if c = CHR ''('' then
            (case ap MExpr s of
               Inl f \<Rightarrow> Inl f
             | Inr (v, r) \<Rightarrow>
                 let r' = ap_ws r in Inr (v, if r' \<noteq> [] \<and> hd r' = CHR '')'' then tl r' else r'))
          else if c = CHR ''$'' then arith_name look s
          else if isalpha c \<or> c = CHR ''_'' then arith_name look (c # s)
          else arith_number (c # s))"

definition term_step :: "(mode \<Rightarrow> arith_parser) \<Rightarrow> arith_parser" where
  "term_step ap s = (case ap MFactor s of
      Inl f \<Rightarrow> Inl f
    | Inr (v, r) \<Rightarrow> ap (MTermLoop v) (ap_ws r))"

definition term_loop_step :: "(mode \<Rightarrow> arith_parser) \<Rightarrow> int \<Rightarrow> arith_parser" where
  "term_loop_step ap left s =
     (if s \<noteq> [] \<and> is_mul_op (hd s)
      then (case ap MFactor (ap_ws (tl s)) of
              Inl f \<Rightarrow> Inl f
            | Inr (right, r) \<Rightarrow>
                (case mul_op (hd s) left right of
                   Inl f \<Rightarrow> Inl f
                 | Inr v \<Rightarrow> ap (MTermLoop v) (ap_ws r)))
      else Inr (left, s))"

definition expr_step :: "(mode \<Rightarrow> arith_parser) \<Rightarrow> arith_parser" where
  "expr_step ap s = (case ap MTerm s of
      Inl f \<Rightarrow> Inl f
    | Inr (v, r) \<Rightarrow> ap (MExprLoop v) (ap_ws r))"

definition expr_loop_step :: "(mode \<Rightarrow> arith_parser) \<Rightarrow> int \<Rightarrow> arith_parser" where
  "expr_loop_step ap left s =
     (if at_add_op s
      then (case ap MTerm (ap_ws (tl s)) of
              Inl f \<Rightarrow> Inl f
            | Inr (right, r) \<Rightarrow>
                (case add_op (hd s) left right of
                   Inl f \<Rightarrow> Inl f
                 | Inr v \<Rightarrow> ap (MExprLoop v) (ap_ws r)))
      else Inr (left, s))"

definition mode_step :: "lookup \<Rightarrow> (mode \<Rightarrow> arith_parser) \<Rightarrow> mode \<Rightarrow> arith_parser" where
  "mode_step look ap m s = (case m of
      MFactor \<Rightarrow> factor_step look ap s
    | MTerm \<Rightarrow> term_step ap s
    | MTermLoop v \<Rightarrow> term_loop_step ap v s
    | MExpr \<Rightarrow> expr_step ap s
    | MExprLoop v \<Rightarrow> expr_loop_step ap v s)"

fun ap_run :: "lookup \<Rightarrow> nat \<Rightarrow> mode \<Rightarrow> arith_parser" where
  "ap_run look 0 m s = Inl Fuel"
| "ap_run look (Suc n) m s = mode_step look (ap_run look n) m s"

text \<open>The fuel every call needs, for a text of length \<open>k\<close>.\<close>

definition need :: "mode \<Rightarrow> nat \<Rightarrow> nat" where
  "need m k = 3 * k + (case m of MTerm \<Rightarrow> 2 | MExpr \<Rightarrow> 3 | _ \<Rightarrow> 1)"

definition parse :: "lookup \<Rightarrow> mode \<Rightarrow> arith_parser" where
  "parse look m s = ap_run look (need m (length s)) m s"

definition ap_expr :: "lookup \<Rightarrow> arith_parser" where
  "ap_expr look s = parse look MExpr s"

section \<open>Enough fuel\<close>

lemma length_ap_ws [len_bounds]: "length (ap_ws s) \<le> length s"
  by (simp add: ap_ws_def length_dropWhile_le)

lemma digits_go_rest: "digits_go acc s = (v, r) \<Longrightarrow> length r \<le> length s"
  by (induction acc s arbitrary: v r rule: digits_go.induct) (fastforce split: if_splits)+

lemma arith_name_rest: "arith_name look s = Inr (v, r) \<Longrightarrow> length r \<le> length s"
  by (auto simp: arith_name_def Let_def length_dropWhile_le split: if_splits)

lemma arith_number_rest: "arith_number s = Inr (v, r) \<Longrightarrow> length r \<le> length s"
  using digits_go_rest [of 0 s] by (auto simp: arith_number_def with_rest_def split: prod.splits sum.splits)

definition shorter :: "nat \<Rightarrow> arith_fault + int \<times> cstring \<Rightarrow> bool" where
  "shorter n x \<longleftrightarrow> (case x of Inl f \<Rightarrow> True | Inr (v, r) \<Rightarrow> length r \<le> n)"

definition fueled :: "arith_fault + 'a \<Rightarrow> bool" where
  "fueled x \<longleftrightarrow> x \<noteq> Inl Fuel"

lemma fueled_basic [simp]: "fueled (long_val v)" "fueled (Inr x)" "fueled (arith_name look s)"
  "fueled (arith_number s)" "fueled (mul_op c a b)" "fueled (add_op c a b)"
  by (auto simp: fueled_def long_val_def arith_name_def arith_number_def with_rest_def mul_op_def
      add_op_def Let_def split: prod.split)

lemma fueled_with_rest [simp]: "fueled (with_rest r x) = fueled x"
  by (auto simp: fueled_def with_rest_def split: sum.split)

text \<open>What a step needs of the recursive calls, on texts not longer than \<open>k\<close>.\<close>

lemma shorter_mono: "shorter k x \<Longrightarrow> k \<le> m \<Longrightarrow> shorter m x"
  by (auto simp: shorter_def split: sum.splits prod.splits)

lemma shorter_Inl [simp]: "shorter k (Inl f)"
  by (simp add: shorter_def)

lemma shorter_rest [simp]: "shorter k (with_rest r x) \<longleftrightarrow> (case x of Inl f \<Rightarrow> True | Inr v \<Rightarrow> length r \<le> k)"
  by (auto simp: shorter_def with_rest_def split: sum.splits)

lemma factor_step_shorter:
  assumes "\<And>m t. shorter (length t) (ap m t)"
  shows "shorter (length s) (factor_step look ap s)"
proof (cases "ap_ws s")
  case (Cons c t)
  have t: "Suc (length t) \<le> length s" using length_ap_ws [of s] Cons by simp
  have n: "shorter (length s) (arith_name look u)" "shorter (length s) (arith_number u)" if "length u \<le> length s" for u
    using that arith_name_rest [of look u] arith_number_rest [of u]
    by (fastforce simp: shorter_def split: sum.splits)+
  have p: "shorter (length s) (ap m t)" for m by (rule shorter_mono [OF assms]) (use t in simp)
  have neg: "shorter (length s) (case ap MFactor t of Inl f \<Rightarrow> Inl f | Inr (v, r) \<Rightarrow> with_rest r (long_val (- v)))"
    using p [of MFactor] by (auto simp: shorter_def [of _ "Inr _"] split: sum.split)
  have par: "shorter (length s) (case ap MExpr t of Inl f \<Rightarrow> Inl f | Inr (v, r) \<Rightarrow>
      let r' = ap_ws r in Inr (v, if r' \<noteq> [] \<and> hd r' = CHR '')'' then tl r' else r'))"
  proof (cases "ap MExpr t")
    case (Inr x)
    then have "length (snd x) \<le> length s" using p [of MExpr] by (simp add: shorter_def split: prod.splits)
    then have "length (ap_ws (snd x)) \<le> length s" using length_ap_ws [of "snd x"] by simp
    with Inr show ?thesis by (auto simp: shorter_def Let_def split: prod.split)
  qed simp
  show ?thesis using n [of t] n [of "c # t"] t neg par p [of MFactor] Cons by (simp add: factor_step_def)
qed (simp add: factor_step_def shorter_def)

lemma loop_shorter:
  assumes "\<And>m t. shorter (length t) (ap m t)" "length t \<le> k"
  shows "shorter k (case ap m t of Inl f \<Rightarrow> Inl f | Inr (v, r) \<Rightarrow> ap (g v) (ap_ws r))"
    and "shorter k (case ap m t of Inl f \<Rightarrow> Inl f | Inr (w, r) \<Rightarrow>
           (case h w of Inl f \<Rightarrow> Inl f | Inr v \<Rightarrow> ap (g v) (ap_ws r)))"
proof -
  have r: "shorter k (ap m' (ap_ws r))" if "ap m t = Inr (v, r)" for m' v r
  proof (rule shorter_mono [OF assms(1)])
    have "length r \<le> length t" using assms(1) [of t m] that by (simp add: shorter_def)
    then show "length (ap_ws r) \<le> k" using length_ap_ws [of r] assms(2) by simp
  qed
  show "shorter k (case ap m t of Inl f \<Rightarrow> Inl f | Inr (v, r) \<Rightarrow> ap (g v) (ap_ws r))"
    "shorter k (case ap m t of Inl f \<Rightarrow> Inl f | Inr (w, r) \<Rightarrow>
           (case h w of Inl f \<Rightarrow> Inl f | Inr v \<Rightarrow> ap (g v) (ap_ws r)))"
    using r by (auto split: sum.split prod.split)
qed

lemma ap_run_shorter: "shorter (length s) (ap_run look n m s)"
proof (induction n arbitrary: m s)
  case (Suc n)
  have "shorter (length s) (mode_step look (ap_run look n) m s)"
  proof (cases m)
    case MFactor
    then show ?thesis using factor_step_shorter [OF Suc.IH] by (simp add: mode_step_def)
  next
    case MTerm
    then show ?thesis using loop_shorter(1) [where ap = "ap_run look n", OF Suc.IH] by (simp add: mode_step_def term_step_def)
  next
    case (MTermLoop v)
    have "length (ap_ws (tl s)) \<le> length s" using length_ap_ws [of "tl s"] by simp
    from loop_shorter(2) [where ap = "ap_run look n", OF Suc.IH this] MTermLoop show ?thesis
      by (simp add: mode_step_def term_loop_step_def shorter_def [of _ "Inr _"])
  next
    case MExpr
    then show ?thesis using loop_shorter(1) [where ap = "ap_run look n", OF Suc.IH] by (simp add: mode_step_def expr_step_def)
  next
    case (MExprLoop v)
    have "length (ap_ws (tl s)) \<le> length s" using length_ap_ws [of "tl s"] by simp
    from loop_shorter(2) [where ap = "ap_run look n", OF Suc.IH this] MExprLoop show ?thesis
      by (simp add: mode_step_def expr_loop_step_def shorter_def [of _ "Inr _"])
  qed
  then show ?case by simp
qed simp

text \<open>A step only depends on calls that need less fuel.\<close>

locale arith_calls =
  fixes ap ap' :: "mode \<Rightarrow> arith_parser" and bound :: nat
  assumes agree: "need m (length t) < bound \<Longrightarrow> ap' m t = ap m t \<and> fueled (ap m t)"
    and shrinks: "shorter (length t) (ap m t)"
begin

lemma call_rest: "ap m t = Inr (v, r) \<Longrightarrow> length (ap_ws r) \<le> length t"
  using shrinks [of t m] length_ap_ws [of r] by (simp add: shorter_def)

lemma factor_agrees:
  assumes "bound = need MFactor (length s)"
  shows "factor_step look ap' s = factor_step look ap s \<and> fueled (factor_step look ap s)"
proof (cases "ap_ws s")
  case (Cons c t)
  have "Suc (length t) \<le> length s" using length_ap_ws [of s] Cons by simp
  then have "need m (length t) < bound" for m by (simp add: assms need_def split: mode.split)
  then have "ap' m t = ap m t \<and> fueled (ap m t)" for m by (rule agree)
  then show ?thesis
    using Cons by (auto simp: factor_step_def Let_def split: sum.split) (simp_all add: fueled_def)
qed (simp add: factor_step_def)

lemma then_agrees:
  assumes "need m (length t) < bound" "\<And>v. 3 * length t + 1 < bound" "g = MTermLoop \<or> g = MExprLoop"
  shows "(case ap' m t of Inl f \<Rightarrow> Inl f | Inr (w, r) \<Rightarrow>
           (case h w of Inl f \<Rightarrow> Inl f | Inr v \<Rightarrow> ap' (g v) (ap_ws r)))
       = (case ap m t of Inl f \<Rightarrow> Inl f | Inr (w, r) \<Rightarrow>
           (case h w of Inl f \<Rightarrow> Inl f | Inr v \<Rightarrow> ap (g v) (ap_ws r)))
     \<and> ((\<forall>w. fueled (h w)) \<longrightarrow> fueled (case ap m t of Inl f \<Rightarrow> Inl f | Inr (w, r) \<Rightarrow>
           (case h w of Inl f \<Rightarrow> Inl f | Inr v \<Rightarrow> ap (g v) (ap_ws r))))"
proof -
  have first: "ap' m t = ap m t" "fueled (ap m t)" using agree [OF assms(1)] by simp_all
  have second: "ap' (g v) (ap_ws r) = ap (g v) (ap_ws r) \<and> fueled (ap (g v) (ap_ws r))"
    if "ap m t = Inr (w, r)" for v w r
    using call_rest [OF that] assms(2,3) by (intro agree) (auto simp: need_def)
  show ?thesis
    using first second by (auto simp: fueled_def split: sum.split)
qed

end

lemma mode_step_agrees:
  assumes "\<And>m' t. need m' (length t) < need m (length s) \<Longrightarrow> ap' m' t = ap m' t \<and> fueled (ap m' t)"
    and "\<And>m' t. shorter (length t) (ap m' t)"
  shows "mode_step look ap' m s = mode_step look ap m s \<and> fueled (mode_step look ap m s)"
proof -
  have calls: "arith_calls ap ap' (need m (length s))" using assms by unfold_locales auto
  note ta = arith_calls.then_agrees [OF calls]
  show ?thesis
  proof (cases m)
    case MFactor
    then show ?thesis using arith_calls.factor_agrees [OF calls] by (simp add: mode_step_def)
  next
    case MTerm
    then show ?thesis
      using ta [of MFactor s MTermLoop Inr] unfolding sum.case
      by (simp add: mode_step_def term_step_def need_def)
  next
    case (MTermLoop v)
    have "s = [] \<or> Suc (length (ap_ws (tl s))) \<le> length s" using length_ap_ws [of "tl s"] by (cases s) auto
    then show ?thesis
      using ta [of MFactor "ap_ws (tl s)" MTermLoop "mul_op (hd s) v"] MTermLoop
      by (auto simp: mode_step_def term_loop_step_def need_def)
  next
    case MExpr
    then show ?thesis
      using ta [of MTerm s MExprLoop Inr] unfolding sum.case
      by (simp add: mode_step_def expr_step_def need_def)
  next
    case (MExprLoop v)
    have "s = [] \<or> Suc (length (ap_ws (tl s))) \<le> length s" using length_ap_ws [of "tl s"] by (cases s) auto
    moreover have "at_add_op s \<Longrightarrow> s \<noteq> []" by (simp add: at_add_op_def)
    ultimately show ?thesis
      using ta [of MTerm "ap_ws (tl s)" MExprLoop "add_op (hd s) v"] MExprLoop
      by (auto simp: mode_step_def expr_loop_step_def need_def)
  qed
qed

lemma ap_run_stable:
  "need m (length s) \<le> n \<Longrightarrow> ap_run look (Suc n) m s = ap_run look n m s \<and> fueled (ap_run look n m s)"
proof (induction n arbitrary: m s)
  case 0
  then show ?case by (simp add: need_def split: mode.splits)
next
  case (Suc n)
  have "mode_step look (ap_run look (Suc n)) m s = mode_step look (ap_run look n) m s
      \<and> fueled (mode_step look (ap_run look n) m s)"
  proof (rule mode_step_agrees)
    show "ap_run look (Suc n) m' t = ap_run look n m' t \<and> fueled (ap_run look n m' t)"
      if "need m' (length t) < need m (length s)" for m' t
      using that Suc.prems by (intro Suc.IH) simp
  qed (rule ap_run_shorter)
  then show ?case by (simp only: ap_run.simps)
qed

lemma ap_run_enough: "need m (length s) \<le> n \<Longrightarrow> ap_run look n m s = parse look m s"
proof (induction n rule: dec_induct)
  case base
  show ?case by (simp add: parse_def)
next
  case (step n)
  then show ?case using ap_run_stable [of m s n look] by simp
qed

text \<open>The contract for the parser itself: with fuel \<open>n\<close> it agrees with the unlimited one.\<close>

interpretation fuel_calls: arith_calls "parse look" "ap_run look n" "Suc n" for look n
proof
  show "ap_run look n m t = parse look m t \<and> fueled (parse look m t)"
    if "need m (length t) < Suc n" for m t
    using that ap_run_enough [of m t n look] ap_run_stable [of m t "need m (length t)" look]
    by (simp add: parse_def)
  show "shorter (length t) (parse look m t)" for m t
    unfolding parse_def by (rule ap_run_shorter)
qed

lemma parse_rest: "parse look m t = Inr (v, r) \<Longrightarrow> length (ap_ws r) \<le> length t"
  by (rule fuel_calls.call_rest)

text \<open>\<open>parse\<close> satisfies the C functions' equations, and the fuel never runs out.\<close>

lemma parse_eq: "parse look m s = mode_step look (parse look) m s"
proof -
  let ?n = "need m (length s)"
  have a: "mode_step look (parse look) m s = mode_step look (ap_run look ?n) m s
      \<and> fueled (mode_step look (ap_run look ?n) m s)"
  proof (rule mode_step_agrees)
    show "parse look m' t = ap_run look ?n m' t \<and> fueled (ap_run look ?n m' t)"
      if "need m' (length t) < ?n" for m' t
      using that ap_run_stable [of m' t ?n look] ap_run_enough [of m' t ?n look] by simp
  qed (rule ap_run_shorter)
  have b: "ap_run look (Suc ?n) m s = parse look m s" by (rule ap_run_enough) simp
  show ?thesis
    by (rule trans [OF b [symmetric, unfolded ap_run.simps] conjunct1 [OF a, symmetric]])
qed

lemma parse_fueled: "parse look m s \<noteq> Inl Fuel"
  using ap_run_stable [of m s "need m (length s)" look] by (simp add: parse_def fueled_def)

text \<open>C39: The recursive descent returns on every text: fuel linear in the length is enough, and more
  fuel does not change the result.\<close>

theorem ap_expr_terminates:
  "ap_run look (need MExpr (length s) + k) MExpr s = ap_expr look s \<and> ap_expr look s \<noteq> Inl Fuel"
  unfolding ap_expr_def by (intro conjI parse_fueled ap_run_enough) simp

section \<open>The grammar the parser accepts\<close>

text \<open>Expressions, left associative, with the usual precedence.\<close>

datatype fac = FNum nat | FVar cstring | FNeg fac | FPlus fac | FPar ex
  and ter = TFac fac | TOp ter char fac
  and ex = ETer ter | EOp ex char ter

primrec show_fac :: "fac \<Rightarrow> cstring" and show_ter :: "ter \<Rightarrow> cstring" and show_ex :: "ex \<Rightarrow> cstring" where
  "show_fac (FNum n) = show_nat n"
| "show_fac (FVar x) = CHR ''$'' # x"
| "show_fac (FNeg f) = CHR ''-'' # show_fac f"
| "show_fac (FPlus f) = CHR ''+'' # show_fac f"
| "show_fac (FPar e) = CHR ''('' # show_ex e @ '')''"
| "show_ter (TFac f) = show_fac f"
| "show_ter (TOp t c f) = show_ter t @ [CHR '' '', c, CHR '' ''] @ show_fac f"
| "show_ex (ETer t) = show_ter t"
| "show_ex (EOp e c t) = show_ex e @ [CHR '' '', c, CHR '' ''] @ show_ter t"

definition bind2 :: "arith_fault + int \<Rightarrow> arith_fault + int \<Rightarrow> (int \<Rightarrow> int \<Rightarrow> arith_fault + int) \<Rightarrow> arith_fault + int" where
  "bind2 x y f = (case x of Inl e \<Rightarrow> Inl e | Inr a \<Rightarrow> (case y of Inl e \<Rightarrow> Inl e | Inr b \<Rightarrow> f a b))"

primrec val_fac :: "lookup \<Rightarrow> fac \<Rightarrow> arith_fault + int"
  and val_ter :: "lookup \<Rightarrow> ter \<Rightarrow> arith_fault + int"
  and val_ex :: "lookup \<Rightarrow> ex \<Rightarrow> arith_fault + int" where
  "val_fac look (FNum n) = long_val (int n)"
| "val_fac look (FVar x) = Inr (case look x of Some v \<Rightarrow> atol v | None \<Rightarrow> 0)"
| "val_fac look (FNeg f) = (case val_fac look f of Inl e \<Rightarrow> Inl e | Inr v \<Rightarrow> long_val (- v))"
| "val_fac look (FPlus f) = val_fac look f"
| "val_fac look (FPar e) = val_ex look e"
| "val_ter look (TFac f) = val_fac look f"
| "val_ter look (TOp t c f) = bind2 (val_ter look t) (val_fac look f) (mul_op c)"
| "val_ex look (ETer t) = val_ter look t"
| "val_ex look (EOp e c t) = bind2 (val_ex look e) (val_ter look t) (add_op c)"

primrec ok_fac :: "fac \<Rightarrow> bool" and ok_ter :: "ter \<Rightarrow> bool" and ok_ex :: "ex \<Rightarrow> bool" where
  "ok_fac (FNum n) = True"
| "ok_fac (FVar x) = (list_all name_char x \<and> length x < 64)"
| "ok_fac (FNeg f) = ok_fac f"
| "ok_fac (FPlus f) = ok_fac f"
| "ok_fac (FPar e) = ok_ex e"
| "ok_ter (TFac f) = ok_fac f"
| "ok_ter (TOp t c f) = (ok_ter t \<and> is_mul_op c \<and> ok_fac f)"
| "ok_ex (ETer t) = ok_ter t"
| "ok_ex (EOp e c t) = (ok_ex e \<and> (c = CHR ''+'' \<or> c = CHR ''-'') \<and> ok_ter t)"

definition stops :: "cstring \<Rightarrow> bool" where
  "stops r \<longleftrightarrow> r = [] \<or> hd r = CHR '' '' \<or> hd r = CHR '')''"

definition after_ws :: "cstring \<Rightarrow> (char \<Rightarrow> bool) \<Rightarrow> bool" where
  "after_ws r P \<longleftrightarrow> ap_ws r = [] \<or> \<not> P (hd (ap_ws r))"

lemma stops_Cons [simp]: "stops (CHR '' '' # r)" "stops (CHR '')'' # r)" "stops []"
  by (simp_all add: stops_def)

lemma ap_ws_fac: "ap_ws (show_fac f @ r) = show_fac f @ r"
proof (cases f)
  case (FNum n)
  then show ?thesis
    using hd_show_nat_digit [of n] by (cases "show_nat n") (auto simp: ap_ws_def isdigit_def shell_defs)
qed (simp_all add: ap_ws_def TAB_def)

lemma ap_ws_ter: "ap_ws (show_ter t @ r) = show_ter t @ r"
  by (induction t arbitrary: r) (simp_all add: ap_ws_fac)

lemma ap_ws_idem [simp]: "ap_ws (ap_ws r) = ap_ws r"
  by (induction r) (auto simp: ap_ws_def)

lemma ap_ws_simps [simp]: "ap_ws (CHR '' '' # r) = ap_ws r" "ap_ws (CHR '')'' # r) = CHR '')'' # r"
  "ap_ws [] = []"
  by (simp_all add: ap_ws_def TAB_def)

lemmas parse_F = parse_eq [where m = MFactor, unfolded mode_step_def mode.case]
lemmas parse_T = parse_eq [where m = MTerm, unfolded mode_step_def mode.case]
lemmas parse_E = parse_eq [where m = MExpr, unfolded mode_step_def mode.case]
lemmas parse_TL = parse_eq [where m = "MTermLoop v" for v, unfolded mode_step_def mode.case]
lemmas parse_EL = parse_eq [where m = "MExprLoop v" for v, unfolded mode_step_def mode.case]

lemma stops_name: "stops r \<Longrightarrow> r = [] \<or> \<not> name_char (hd r) \<and> \<not> isdigit (hd r)"
  by (auto simp: stops_def name_char_def isalnum_def isalpha_def isupper_def islower_def isdigit_def)

lemma show_nat_cons: obtains c t where "show_nat n = c # t" "isdigit c"
  using show_nat_nonempty [of n] hd_show_nat_digit [of n] by (cases "show_nat n") auto

lemma parse_num: "stops r \<Longrightarrow> parse look MFactor (show_nat n @ r) = with_rest r (long_val (int n))"
proof -
  assume r: "stops r"
  obtain c t where c: "show_nat n = c # t" "isdigit c" by (rule show_nat_cons)
  have "ap_ws (show_nat n @ r) = c # t @ r" using ap_ws_fac [of "FNum n" r] c by simp
  moreover have "c \<noteq> CHR ''-''" "c \<noteq> CHR ''+''" "c \<noteq> CHR ''(''" "c \<noteq> CHR ''$''" "c \<noteq> CHR ''_''" "\<not> isalpha c"
    using c(2) by (auto simp: isdigit_def isalpha_def isupper_def islower_def)
  moreover have "digits_go 0 (c # t @ r) = (int n, r)"
    using digits_go_show_nat_rest [of r n] stops_name [OF r] c by (auto simp del: digits_go.simps)
  ultimately show ?thesis by (subst parse_F) (simp add: factor_step_def arith_number_def del: digits_go.simps)
qed

lemma parse_var: "stops r \<Longrightarrow> list_all name_char x \<Longrightarrow> length x < 64 \<Longrightarrow>
    parse look MFactor (CHR ''$'' # x @ r) = Inr (case look x of Some v \<Rightarrow> atol v | None \<Rightarrow> 0, r)"
proof -
  assume a: "stops r" "list_all name_char x" "length x < 64"
  have "takeWhile name_char (x @ r) = x" "dropWhile name_char (x @ r) = r"
    using a(2) stops_name [OF a(1)] by (cases r; auto simp: list_all_iff takeWhile_append dropWhile_append)+
  with a(3) show ?thesis
    by (subst parse_F) (simp add: factor_step_def arith_name_def ap_ws_def TAB_def)
qed

lemma term_loop_end: "after_ws r is_mul_op \<Longrightarrow> parse look (MTermLoop v) (ap_ws r) = Inr (v, ap_ws r)"
  by (subst parse_TL) (auto simp: term_loop_step_def after_ws_def)

text \<open>What a call does on a printed operand: evaluate it and go on with the rest.\<close>

definition cont :: "arith_fault + int \<Rightarrow> (int \<Rightarrow> arith_fault + int \<times> cstring) \<Rightarrow> arith_fault + int \<times> cstring" where
  "cont x k = (case x of Inl e \<Rightarrow> Inl e | Inr v \<Rightarrow> k v)"

lemma parse_shown:
  "ok_fac f \<Longrightarrow> stops r \<Longrightarrow> parse look MFactor (show_fac f @ r) = with_rest r (val_fac look f)"
  "ok_ter t \<Longrightarrow> stops r \<Longrightarrow> parse look MTerm (show_ter t @ r) =
     cont (val_ter look t) (\<lambda>v. parse look (MTermLoop v) (ap_ws r))"
  "ok_ex e \<Longrightarrow> stops r \<Longrightarrow> after_ws r is_mul_op \<Longrightarrow> parse look MExpr (show_ex e @ r) =
     cont (val_ex look e) (\<lambda>v. parse look (MExprLoop v) (ap_ws r))"
proof (induction f and t and e arbitrary: r and r and r)
  case (FNum n)
  then show ?case by (simp add: parse_num)
next
  case (FVar x)
  then show ?case by (simp add: parse_var with_rest_def)
next
  case (FNeg f)
  then show ?case
    by (subst parse_F) (simp add: factor_step_def ap_ws_def TAB_def with_rest_def split: sum.split)
next
  case (FPlus f)
  then show ?case by (subst parse_F) (simp add: factor_step_def ap_ws_def TAB_def)
next
  case (FPar e)
  have "parse look MExpr (show_ex e @ CHR '')'' # r) =
      cont (val_ex look e) (\<lambda>v. parse look (MExprLoop v) (CHR '')'' # r))"
    using FPar.IH [of "CHR '')'' # r"] FPar.prems(1) by (simp add: after_ws_def is_mul_op_def)
  moreover have "parse look (MExprLoop v) (CHR '')'' # r) = Inr (v, CHR '')'' # r)" for v
    by (subst parse_EL) (simp add: expr_loop_step_def at_add_op_def)
  ultimately show ?case
    by (subst parse_F) (simp add: factor_step_def ap_ws_def TAB_def with_rest_def cont_def Let_def split: sum.split)
next
  case (TFac f)
  then show ?case by (subst parse_T) (simp add: term_step_def with_rest_def cont_def split: sum.split)
next
  case (TOp t c f)
  have c: "is_mul_op c" "ok_ter t" "ok_fac f" using TOp.prems(1) by simp_all
  have cw: "ap_ws (c # s) = c # s" for s using c(1) by (auto simp: is_mul_op_def ap_ws_def TAB_def)
  have "parse look (MTermLoop a) (c # CHR '' '' # show_fac f @ r) =
      cont (bind2 (Inr a) (val_fac look f) (mul_op c)) (\<lambda>v. parse look (MTermLoop v) (ap_ws r))" for a
    using TOp.IH(2) [OF c(3) TOp.prems(2)] c(1)
    by (subst parse_TL) (simp add: term_loop_step_def ap_ws_fac bind2_def cont_def with_rest_def split: sum.split)
  with TOp.IH(1) [OF c(2), of "CHR '' '' # c # CHR '' '' # show_fac f @ r"] cw show ?case
    by (simp add: cont_def bind2_def split: sum.split)
next
  case (ETer t)
  then show ?case
    by (subst parse_E) (simp add: expr_step_def cont_def term_loop_end split: sum.split)
next
  case (EOp e c t)
  have c: "c = CHR ''+'' \<or> c = CHR ''-''" "ok_ex e" "ok_ter t" using EOp.prems(1) by simp_all
  have cw: "ap_ws (c # s) = c # s" for s using c(1) by (auto simp: ap_ws_def TAB_def)
  have "parse look (MExprLoop a) (c # CHR '' '' # show_ter t @ r) =
      cont (bind2 (Inr a) (val_ter look t) (add_op c)) (\<lambda>v. parse look (MExprLoop v) (ap_ws r))" for a
    using EOp.IH(2) [OF c(3) EOp.prems(2)] c(1) term_loop_end [OF EOp.prems(3)]
    by (subst parse_EL) (auto simp: expr_loop_step_def at_add_op_def ap_ws_ter bind2_def cont_def split: sum.split)
  moreover have "after_ws (CHR '' '' # c # s) is_mul_op" for s using c(1) cw by (auto simp: after_ws_def is_mul_op_def)
  ultimately show ?case
    using EOp.IH(1) [OF c(2), of "CHR '' '' # c # CHR '' '' # show_ter t @ r"] cw
    by (simp add: cont_def bind2_def split: sum.split)
qed

text \<open>C7: On the text of an expression over numbers, variables, unary and binary operators and
  parentheses, the evaluator returns the value the grammar gives it (left associative, usual
  precedence, faults included) and consumes all of it.\<close>

theorem ap_expr_value:
  assumes "ok_ex e"
  shows "ap_expr look (show_ex e) = with_rest [] (val_ex look e)"
proof -
  have "parse look (MExprLoop v) [] = Inr (v, [])" for v
    by (subst parse_EL) (simp add: expr_loop_step_def at_add_op_def)
  then show ?thesis
    using parse_shown(3) [OF assms, of "[]" look]
    by (simp add: ap_expr_def after_ws_def cont_def with_rest_def split: sum.split)
qed

definition demo_ex :: ex where
  "demo_ex = EOp (ETer (TFac (FNum 1))) CHR ''+'' (TOp (TFac (FNum 2)) CHR ''*'' (FNeg (FVar ''x'')))"

theorem ap_expr_value_witness:
  "ap_expr (\<lambda>_. Some ''3'') ''1 + 2 * -$x'' = Inr (-5, [])"
proof -
  have ok: "ok_ex demo_ex" by (simp add: demo_ex_def is_mul_op_def name_char_def shell_defs)
  have s: "show_ex demo_ex = ''1 + 2 * -$x''"
    by (simp add: demo_ex_def show_nat.simps digit_char_def) code_simp
  have "atol ''3'' = 3" by code_simp
  then have "val_ex (\<lambda>_. Some ''3'') demo_ex = Inr (-5)"
    by (simp add: demo_ex_def bind2_def long_val_def mul_op_def add_op_def LONG_MIN_def LONG_MAX_def)
  with ap_expr_value [OF ok, of "\<lambda>_. Some ''3''"] s show ?thesis by (simp add: with_rest_def)
qed

section \<open>\<open>$((\<close> \<open>...\<close> \<open>))\<close>\<close>

text \<open>The scan for the closing parentheses: the expression and what begins with them.\<close>

fun arith_scan :: "int \<Rightarrow> cstring \<Rightarrow> cstring \<times> cstring" where
  "arith_scan d [] = ([], [])"
| "arith_scan d (c # s) =
     (if c = CHR ''('' then (case arith_scan (d + 1) s of (e, r) \<Rightarrow> (c # e, r))
      else if c = CHR '')'' then
        (if d = 0 \<and> s \<noteq> [] \<and> hd s = CHR '')'' then ([], c # s)
         else (case arith_scan (d - 1) s of (e, r) \<Rightarrow> (c # e, r)))
      else (case arith_scan d s of (e, r) \<Rightarrow> (c # e, r)))"

definition arith_end :: "cstring \<Rightarrow> cstring" where
  "arith_end r = (if prefix ''))'' r then drop 2 r else r)"

text \<open>The value and the text after the closing parentheses.\<close>

definition arith_eval :: "lookup \<Rightarrow> cstring \<Rightarrow> arith_fault + int \<times> cstring" where
  "arith_eval look s = (case arith_scan 0 s of (expr, r) \<Rightarrow>
     (case ap_expr look expr of
        Inl f \<Rightarrow> Inl f
      | Inr (v, _) \<Rightarrow> Inr (v, arith_end r)))"

definition arith_has_vars :: "cstring \<Rightarrow> bool" where
  "arith_has_vars s = list_ex isalpha (fst (arith_scan 0 s))"

lemma arith_scan_append: "arith_scan d s = (e, r) \<Longrightarrow> s = e @ r"
  by (induction d s arbitrary: e r rule: arith_scan.induct) (auto split: if_splits prod.splits)

lemma arith_eval_rest: "arith_eval look s = Inr (v, r) \<Longrightarrow> length r \<le> length s"
  using arith_scan_append [of 0 s] by (auto simp: arith_eval_def arith_end_def split: prod.splits sum.splits)

end
