(* ===== verification/Expansion.thy ===== *)
theory Expansion
  imports Arith Shell_Store
begin

text \<open>
  The textual passes of \<^verbatim>\<open>aishell_main.c\<close> over an input line and the expansion of words:
  \<open>preprocess_arith\<close>, \<open>preprocess_cmd_subst\<close> (the output of a command is a parameter),
  \<open>preprocess_loop_syntax\<close>, \<open>preprocess_quotes\<close>, \<open>expand_vars\<close>, \<open>expand_and_unquote\<close>. A pass that
  evaluates arithmetic can meet the faults of \<open>Arith\<close>.
\<close>

section \<open>Expansion of a word\<close>

record shell_env =
  var_table :: table
  environ :: "cstring \<Rightarrow> cstring option"
  last_status :: int
  shell_pid :: int

definition shell_lookup :: "shell_env \<Rightarrow> lookup" where
  "shell_lookup env name = var_get (var_table env) (environ env) name"

definition value_of :: "shell_env \<Rightarrow> cstring \<Rightarrow> cstring" where
  "value_of env name = (case shell_lookup env name of Some v \<Rightarrow> v | None \<Rightarrow> [])"

text \<open>One turn at a dollar sign (already consumed): the text to append and the rest.\<close>

definition expand_dollar :: "shell_env \<Rightarrow> cstring \<Rightarrow> arith_fault + cstring \<times> cstring" where
  "expand_dollar env s =
     (if prefix ''(('' s then
        (case arith_eval (shell_lookup env) (drop 2 s) of
           Inl f \<Rightarrow> Inl f
         | Inr (v, r) \<Rightarrow> Inr (show_int v, r))
      else if s \<noteq> [] \<and> hd s = CHR ''?'' then Inr (show_int (last_status env), tl s)
      else if s \<noteq> [] \<and> hd s = CHR ''$'' then Inr (show_int (shell_pid env), tl s)
      else if s \<noteq> [] \<and> hd s = CHR ''{'' then
        (let name = fit 64 (takeWhile (\<lambda>c. c \<noteq> CHR ''}'') (tl s));
             r = drop (length name) (tl s)
         in Inr (value_of env name, if r \<noteq> [] \<and> hd r = CHR ''}'' then tl r else r))
      else
        (let name = takeWhile name_char s in
         if 64 \<le> length name then Inl NameTooLong
         else Inr (value_of env name, dropWhile name_char s)))"

lemma expand_dollar_rest: "expand_dollar env s = Inr (t, r) \<Longrightarrow> length r \<le> length s"
proof -
  assume a: "expand_dollar env s = Inr (t, r)"
  have "length r \<le> length (drop 2 s)" if "arith_eval (shell_lookup env) (drop 2 s) = Inr (v, r)" for v
    using arith_eval_rest [OF that] .
  moreover have "length (dropWhile name_char s) \<le> length s" by (rule length_dropWhile_le)
  ultimately show ?thesis
    using a by (auto simp: expand_dollar_def Let_def split: if_splits sum.splits prod.splits)
qed

text \<open>The buffer of 1024 bytes: every append is cut to what is left.\<close>

function expand_go :: "shell_env \<Rightarrow> cstring \<Rightarrow> cstring \<Rightarrow> arith_fault + cstring" where
  "expand_go env buf [] = Inr buf"
| "expand_go env buf (c # s) =
     (if c = CHR ''$'' then
        (case expand_dollar env s of
           Inl f \<Rightarrow> Inl f
         | Inr (t, r) \<Rightarrow> expand_go env (cat_fit 1024 buf t) r)
      else expand_go env (cat_fit 1024 buf [c]) s)"
  by pat_completeness auto
termination
  by (relation "measure (\<lambda>(env, buf, s). length s)") (auto dest: expand_dollar_rest)

definition expand_vars :: "shell_env \<Rightarrow> cstring \<Rightarrow> arith_fault + cstring" where
  "expand_vars env word = expand_go env [] word"

definition unquote :: "cstring \<Rightarrow> cstring" where
  "unquote s = map (\<lambda>c. if c = BTICK then CHR '' '' else c) s"

definition expand_and_unquote :: "shell_env \<Rightarrow> cstring \<Rightarrow> arith_fault + cstring" where
  "expand_and_unquote env word = (case expand_vars env word of Inl f \<Rightarrow> Inl f | Inr s \<Rightarrow> Inr (unquote s))"

section \<open>Passes over the line\<close>

text \<open>Arithmetic without letters is evaluated at once; the evaluator then needs no variables.\<close>

function preprocess_arith :: "lookup \<Rightarrow> cstring \<Rightarrow> arith_fault + cstring" where
  "preprocess_arith look [] = Inr []"
| "preprocess_arith look (c # s) =
     (if prefix ''$(('' (c # s) \<and> \<not> arith_has_vars (drop 2 s) then
        (case arith_eval look (drop 2 s) of
           Inl f \<Rightarrow> Inl f
         | Inr (v, r) \<Rightarrow>
             (case preprocess_arith look r of Inl f \<Rightarrow> Inl f | Inr t \<Rightarrow> Inr (show_int v @ t)))
      else (case preprocess_arith look s of Inl f \<Rightarrow> Inl f | Inr t \<Rightarrow> Inr (c # t)))"
  by pat_completeness auto
termination
  by (relation "measure (\<lambda>(look, s). length s)")
    (auto dest!: arith_eval_rest [OF sym] simp: less_Suc_eq_le, fastforce dest: arith_eval_rest)

text \<open>The matching parenthesis of a command substitution: the inner text and what follows.\<close>

fun subst_scan :: "nat \<Rightarrow> cstring \<Rightarrow> cstring \<times> cstring" where
  "subst_scan 0 s = ([], s)"
| "subst_scan (Suc d) [] = ([], [])"
| "subst_scan (Suc d) (c # s) =
     (case subst_scan (if c = CHR ''('' then Suc (Suc d) else if c = CHR '')'' then d else Suc d) s of
        (q, r) \<Rightarrow> (c # q, r))"

lemma subst_scan_append: "subst_scan d s = (q, r) \<Longrightarrow> s = q @ r"
  by (induction d s arbitrary: q r rule: subst_scan.induct) (auto split: prod.splits)

text \<open>The output of the command: trailing blanks dropped, the others become backticks.\<close>

definition subst_result :: "char list \<Rightarrow> cstring" where
  "subst_result out =
     (let t = rev (dropWhile (\<lambda>c. c = NL \<or> c = CR \<or> c = CHR '' '') (rev (take 4095 out)))
      in map (\<lambda>c. if c = CHR '' '' \<or> c = TAB \<or> c = NL \<or> c = CR then BTICK else c) t)"

text \<open>
  \<open>outsz\<close> is the size of the output buffer. The copy of a result checks it; the copy of an
  ordinary character does not. The last argument but one is what is already written. The length
  of the command is computed as \<open>q - inner - 1\<close>, which wraps when the line ends in \<open>$(\<close>: \<open>None\<close>
  is the copy of \<open>SIZE_MAX\<close> bytes that follows.
\<close>

function cmd_subst_go :: "(cstring \<Rightarrow> char list option) \<Rightarrow> nat \<Rightarrow> cstring \<Rightarrow> cstring \<Rightarrow> cstring option" where
  "cmd_subst_go run outsz o' [] = Some o'"
| "cmd_subst_go run outsz o' (c # s) =
     (if c = CHR ''$'' \<and> s \<noteq> [] \<and> hd s = CHR ''('' \<and> (tl s = [] \<or> hd (tl s) \<noteq> CHR ''('')
      then (case subst_scan 1 (tl s) of (q, r) \<Rightarrow>
        if q = [] then None
        else cmd_subst_go run outsz
          (case run (butlast q) of
             None \<Rightarrow> o'
           | Some out \<Rightarrow> o' @ take (outsz - 2 - length o') (subst_result out)) r)
      else cmd_subst_go run outsz (o' @ [c]) s)"
  by pat_completeness auto
termination
proof (relation "measure (\<lambda>(run, n, o', s). length s)", simp, goal_cases)
  case (1 run outsz o' c s q r)
  then have "length r \<le> length (tl s)" using subst_scan_append [of 1 "tl s" q r] by simp
  then show ?case by simp
qed simp

definition preprocess_cmd_subst :: "(cstring \<Rightarrow> char list option) \<Rightarrow> cstring \<Rightarrow> cstring option" where
  "preprocess_cmd_subst run line = cmd_subst_go run (length line * 8 + 512) [] line"

definition loop_keywords :: "cstring list" where
  "loop_keywords = [''done'', ''do'', ''elif'', ''else'', ''fi'', ''then'']"

definition at_keyword :: "cstring \<Rightarrow> bool" where
  "at_keyword p \<longleftrightarrow> list_ex (\<lambda>k. prefix k p \<and>
     (length p = length k \<or> p ! length k = CHR '' '' \<or> p ! length k = CHR '';'')) loop_keywords"

function preprocess_loop_syntax :: "cstring \<Rightarrow> cstring" where
  "preprocess_loop_syntax [] = []"
| "preprocess_loop_syntax (c # s) =
     (if c = CHR '';'' \<and> at_keyword (skip_spaces s)
      then CHR '' '' # preprocess_loop_syntax (skip_spaces s)
      else c # preprocess_loop_syntax s)"
  by pat_completeness auto
termination
  by (relation "measure length") (auto simp: less_Suc_eq_le length_skip_spaces)

text \<open>Quotes are stripped, blanks inside them become backticks.\<close>

fun quotes_go :: "char option \<Rightarrow> cstring \<Rightarrow> cstring" where
  "quotes_go q [] = []"
| "quotes_go q (c # s) =
     (if q = None \<and> (c = DQ \<or> c = SQ) then quotes_go (Some c) s
      else if q = Some c then quotes_go None s
      else if c = CHR '' '' \<and> q \<noteq> None then BTICK # quotes_go q s
      else c # quotes_go q s)"

definition preprocess_quotes :: "cstring \<Rightarrow> cstring" where
  "preprocess_quotes line = quotes_go None line"

section \<open>Quoted words\<close>

lemma quotes_inside: "q \<notin> set s \<Longrightarrow> quotes_go (Some q) (s @ q # r) =
    map (\<lambda>c. if c = CHR '' '' then BTICK else c) s @ quotes_go None r"
  by (induction s) auto

lemma preprocess_quotes_word: "q = DQ \<or> q = SQ \<Longrightarrow> q \<notin> set s \<Longrightarrow>
    preprocess_quotes (q # s @ q # r) = map (\<lambda>c. if c = CHR '' '' then BTICK else c) s @ preprocess_quotes r"
  by (auto simp: preprocess_quotes_def quotes_inside)

lemma expand_go_plain: "CHR ''$'' \<notin> set s \<Longrightarrow> length buf + length s < 1024 \<Longrightarrow>
    expand_go env buf s = Inr (buf @ s)"
  by (induction s arbitrary: buf) (auto simp: cat_fit_def)

lemma unquote_blanks: "BTICK \<notin> set s \<Longrightarrow> unquote (map (\<lambda>c. if c = CHR '' '' then BTICK else c) s) = s"
  by (auto simp: unquote_def intro!: map_idI)

theorem quoted_word_roundtrip:
  assumes "q = DQ \<or> q = SQ" "q \<notin> set s" "BTICK \<notin> set s" "CHR ''$'' \<notin> set s" "length s < 1024"
  shows "CHR '' '' \<notin> set (preprocess_quotes (q # s @ [q]))
    \<and> expand_and_unquote env (preprocess_quotes (q # s @ [q])) = Inr s"
proof -
  let ?w = "map (\<lambda>c. if c = CHR '' '' then BTICK else c) s"
  have w: "preprocess_quotes (q # s @ [q]) = ?w"
    using preprocess_quotes_word [OF assms(1,2), of "[]"] by (simp add: preprocess_quotes_def)
  have "CHR ''$'' \<notin> set ?w" "CHR '' '' \<notin> set ?w" using assms(4) by (auto simp: BTICK_def)
  moreover have "expand_vars env ?w = Inr ?w"
    using expand_go_plain [of ?w "[]" env] assms(5) \<open>CHR ''$'' \<notin> set ?w\<close> by (simp add: expand_vars_def)
  ultimately show ?thesis using w unquote_blanks [OF assms(3)] by (simp add: expand_and_unquote_def)
qed

theorem quoted_word_roundtrip_witness:
  "preprocess_quotes (DQ # ''a b'' @ [DQ]) = ''a`b''
   \<and> expand_and_unquote \<lparr>var_table = [], environ = (\<lambda>_. None), last_status = 0, shell_pid = 1\<rparr>
       (preprocess_quotes (DQ # ''a b'' @ [DQ])) = Inr ''a b''"
  using quoted_word_roundtrip [of DQ "''a b''"]
  by (simp add: shell_defs preprocess_quotes_def)

section \<open>Buffers of the passes\<close>

lemma length_quotes_go [len_bounds]: "length (quotes_go q s) \<le> length s"
  by (induction q s rule: quotes_go.induct) auto

lemma length_loop_syntax [len_bounds]: "length (preprocess_loop_syntax s) \<le> length s"
proof (induction s rule: preprocess_loop_syntax.induct)
  case (2 c s)
  have "length (skip_spaces s) \<le> length s" by (rule length_skip_spaces)
  with 2 show ?case by auto
qed simp

lemma expand_go_bound: "expand_go env buf s = Inr t \<Longrightarrow> length buf < 1024 \<Longrightarrow> length t < 1024"
proof (induction env buf s rule: expand_go.induct)
  case (2 env buf c s)
  from "2.prems"(2) have l: "length (cat_fit 1024 buf u) < 1024" for u by (rule length_cat_fit)
  show ?case
  proof (cases "c = CHR ''$''")
    case True
    with "2.prems"(1) obtain u r where "expand_dollar env s = Inr (u, r)"
      "expand_go env (cat_fit 1024 buf u) r = Inr t" by (auto split: sum.splits prod.splits)
    with "2.IH"(1) [OF True] l show ?thesis by simp
  next
    case False
    with "2.prems"(1) "2.IH"(2) [OF False] l show ?thesis by simp
  qed
qed simp

theorem passes_fit_buffers:
  "length (preprocess_quotes line) \<le> length line
   \<and> length (preprocess_loop_syntax line) \<le> length line
   \<and> (case expand_and_unquote env line of Inl f \<Rightarrow> True | Inr t \<Rightarrow> length t < 1024)"
  using expand_go_bound [of env "[]" line]
  by (auto simp: preprocess_quotes_def len_bounds expand_and_unquote_def expand_vars_def unquote_def
      split: sum.split)

text \<open>The command substitution, in contrast, does not bound what it copies after a result.\<close>

lemma subst_scan_plain: "CHR ''('' \<notin> set s \<Longrightarrow> CHR '')'' \<notin> set s \<Longrightarrow>
    subst_scan 1 (s @ CHR '')'' # r) = (s @ '')'', r)"
  by (induction s) auto

lemma cmd_subst_copy: "CHR ''$'' \<notin> set s \<Longrightarrow> cmd_subst_go run n o' s = Some (o' @ s)"
  by (induction s arbitrary: o') auto

lemma length_subst_result: "length (subst_result out) \<le> 4095"
proof -
  have "length (dropWhile P (rev (take 4095 out))) \<le> 4095" for P
    using length_dropWhile_le [of P "rev (take 4095 out)"] by simp
  then show ?thesis by (simp add: subst_result_def)
qed

lemma cmd_subst_one:
  assumes "CHR ''('' \<notin> set cmd" "CHR '')'' \<notin> set cmd" "CHR ''$'' \<notin> set rest"
  shows "cmd_subst_go run n o' (''$('' @ cmd @ CHR '')'' # rest) =
    Some (o' @ (case run cmd of None \<Rightarrow> [] | Some out \<Rightarrow> take (n - 2 - length o') (subst_result out)) @ rest)"
proof -
  have h: "cmd @ CHR '')'' # rest = [] \<or> hd (cmd @ CHR '')'' # rest) \<noteq> CHR ''(''"
    using assms(1) by (cases cmd) auto
  show ?thesis
    using h subst_scan_plain [OF assms(1,2), of rest] assms(3)
    by (auto simp: cmd_subst_copy split: option.split)
qed

theorem cmd_subst_replaces:
  assumes "CHR ''$'' \<notin> set pre" "CHR ''$'' \<notin> set rest" "CHR ''('' \<notin> set cmd" "CHR '')'' \<notin> set cmd"
    and "run cmd = Some out"
    and "length pre + length (subst_result out) \<le> (length pre + length cmd + length rest + 3) * 8 + 510"
  shows "preprocess_cmd_subst run (pre @ ''$('' @ cmd @ CHR '')'' # rest) = Some (pre @ subst_result out @ rest)"
proof -
  have go: "cmd_subst_go run n o' (pre @ u) = cmd_subst_go run n (o' @ pre) u" for n o' u
    using assms(1) by (induction pre arbitrary: o') auto
  let ?n = "length (pre @ ''$('' @ cmd @ CHR '')'' # rest) * 8 + 512"
  have fits: "length (subst_result out) \<le> ?n - 2 - length pre" using assms(6) by simp
  have "preprocess_cmd_subst run (pre @ ''$('' @ cmd @ CHR '')'' # rest) =
      cmd_subst_go run ?n pre (''$('' @ cmd @ CHR '')'' # rest)"
    unfolding preprocess_cmd_subst_def go append_Nil ..
  also have "\<dots> = Some (pre @ take (?n - 2 - length pre) (subst_result out) @ rest)"
    unfolding cmd_subst_one [OF assms(3,4,2)] assms(5) option.case ..
  also have "take (?n - 2 - length pre) (subst_result out) = subst_result out"
    using fits by (rule take_all)
  finally show ?thesis .
qed

theorem cmd_subst_replaces_witness:
  "preprocess_cmd_subst (\<lambda>cmd. Some (''a b'' @ [NL])) ''echo $(ls) x'' = Some ''echo a`b x''"
proof -
  have "subst_result (''a b'' @ [NL]) = ''a`b''" by (simp add: subst_result_def shell_defs)
  then show ?thesis
    using cmd_subst_replaces [of "''echo ''" "'' x''" "''ls''" "\<lambda>cmd. Some (''a b'' @ [NL])" "''a b'' @ [NL]"]
    by simp
qed

theorem cmd_subst_overflows:
  assumes "CHR ''$'' \<notin> set rest" "CHR ''('' \<notin> set cmd" "CHR '')'' \<notin> set cmd" "run cmd = Some out"
    and "(length cmd + length rest + 3) * 8 + 510 \<le> length (subst_result out)"
  shows "map_option length (preprocess_cmd_subst run (''$('' @ cmd @ CHR '')'' # rest)) =
    Some (length (''$('' @ cmd @ CHR '')'' # rest) * 8 + 510 + length rest)"
proof -
  let ?n = "length (''$('' @ cmd @ CHR '')'' # rest) * 8 + 512"
  have "preprocess_cmd_subst run (''$('' @ cmd @ CHR '')'' # rest) =
      Some ([] @ take (?n - 2 - length ([] :: cstring)) (subst_result out) @ rest)"
    unfolding preprocess_cmd_subst_def cmd_subst_one [OF assms(2,3,1)] assms(4) option.case ..
  moreover have "length (take (?n - 2 - length ([] :: cstring)) (subst_result out)) = ?n - 2"
    using assms(5) by simp
  ultimately show ?thesis by simp
qed

theorem cmd_subst_overflows_witness:
  "map_option length (preprocess_cmd_subst (\<lambda>cmd. Some (replicate 4000 (CHR ''x''))) ''$(cat)123'') = Some 585"
proof -
  have d: "dropWhile P (replicate n x) = (if P x then [] else replicate n x)" for P and x :: char and n
    by (induction n) auto
  have "subst_result (replicate 4000 (CHR ''x'')) = replicate 4000 (CHR ''x'')"
    by (simp add: subst_result_def d shell_defs)
  then show ?thesis
    using cmd_subst_overflows [of "''123''" "''cat''" "\<lambda>cmd. Some (replicate 4000 (CHR ''x''))" "replicate 4000 (CHR ''x'')"]
    by simp
qed

theorem cmd_subst_at_end_faults:
  assumes "CHR ''$'' \<notin> set pre"
  shows "preprocess_cmd_subst run (pre @ ''$('') = None"
proof -
  have go: "cmd_subst_go run n o' (pre @ u) = cmd_subst_go run n (o' @ pre) u" for n o' u
    using assms by (induction pre arbitrary: o') auto
  show ?thesis unfolding preprocess_cmd_subst_def go by simp
qed

theorem cmd_subst_at_end_faults_witness: "preprocess_cmd_subst (\<lambda>_. None) ''echo $('' = None"
  using cmd_subst_at_end_faults [of "''echo ''"] by simp

section \<open>Loop syntax\<close>

text \<open>The pass runs before the quotes are read: it also rewrites a quoted semicolon.\<close>

theorem loop_syntax_inside_quotes:
  "preprocess_quotes (preprocess_loop_syntax (''echo '' @ DQ # ''wait; then go'' @ [DQ])) = ''echo wait`then`go''"
  by (simp add: preprocess_quotes_def at_keyword_def loop_keywords_def shell_defs skip_spaces_def)

end
