(* ===== verification/Shell_Ast.thy ===== *)
theory Shell_Ast
  imports Expansion
begin

text \<open>
  The syntax tree of the shell (\<^verbatim>\<open>bnfc/Grammar.cf\<close>) and the first half of its walker in
  \<^verbatim>\<open>aishell_main.c\<close>: arguments, command parts, pipelines and redirections are turned into the
  array of commands that is then run. The operating system is a record of operations on an
  opaque world: globbing, the pipe and the child of a process substitution.
\<close>

section \<open>Syntax\<close>

datatype arg = ArithArg cstring | PSubstInArg cstring | PSubstOutArg cstring
  | AssignArg cstring | WrdArg cstring

datatype command_part = Cmd arg "arg list"

datatype pipeline = Single command_part | Pipe command_part pipeline

datatype opt_redir = NoRedir | OutRedir cstring | AppendRedir cstring | InRedir cstring
  | InOutRedir cstring cstring | OutInRedir cstring cstring
  | ErrRedir cstring | ErrAppRedir cstring | BothRedir cstring

datatype command_line = MkCmdLine pipeline opt_redir

datatype negcmd = PlainCL command_line | NotCL negcmd | Subshell "job_stmt list" | Group "job_stmt list"
  | TimeCmd negcmd
and condition = CondSingle negcmd | CondAnd negcmd condition | CondOr negcmd condition
and optelse = NoElse | ElsePart "job_stmt list" | ElifPart condition "job_stmt list" optelse
and job_stmt = OneJobFG condition | OneJobBG condition | AssignJob cstring
  | IfStmt condition "job_stmt list" optelse | ForStmt cstring "cstring list" "job_stmt list"
  | WhileStmt condition "job_stmt list" | UntilStmt condition "job_stmt list" | BreakStmt | ContStmt

section \<open>Commands\<close>

definition BNFC_MAX_PIPELINE :: nat where "BNFC_MAX_PIPELINE = 16"
definition BNFC_MAX_ARGS :: nat where "BNFC_MAX_ARGS = 64"

record cmd =
  cmd_argv :: "cstring list"
  stdin_file :: "cstring option"
  stdout_file :: "cstring option"
  stdout_append :: bool
  stderr_file :: "cstring option"
  stderr_append :: bool
  stderr_both :: bool
  background :: bool
  pipe_next :: bool
  ps_procs :: "(int \<times> int) list"

text \<open>
  What the walker asks of the system: the matches of a pattern (\<open>None\<close> when \<open>glob\<close> fails), a
  pipe, and the child of a process substitution (true for \<open><( )\<close>), whose pid it returns.
\<close>

record 'w os =
  glob_words :: "'w \<Rightarrow> cstring \<Rightarrow> cstring list option"
  mk_pipe :: "'w \<Rightarrow> (int \<times> int) option \<times> 'w"
  spawn_ps :: "bool \<Rightarrow> cstring \<Rightarrow> int \<times> int \<Rightarrow> 'w \<Rightarrow> int \<times> 'w"

text \<open>What ends the program: undefined behaviour of an expansion, a write beyond \<open>cmds\<close>.\<close>

datatype shell_fault = Expand arith_fault | StageOverflow

definition expanded :: "arith_fault + cstring \<Rightarrow> shell_fault + cstring" where
  "expanded x = (case x of Inl f \<Rightarrow> Inl (Expand f) | Inr t \<Rightarrow> Inr t)"

definition ps_inner :: "cstring \<Rightarrow> cstring" where
  "ps_inner tok = fit 1024 (take (length tok - 3) (drop 2 tok))"

definition proc_subst ::
  "'w os \<Rightarrow> bool \<Rightarrow> cstring \<Rightarrow> (int \<times> int) list \<Rightarrow> 'w \<Rightarrow> cstring \<times> (int \<times> int) list \<times> 'w" where
  "proc_subst os into tok ps w = (case mk_pipe os w of
      (None, w1) \<Rightarrow> (''/dev/null'', ps, w1)
    | (Some (rd, wr), w1) \<Rightarrow>
        if 8 \<le> length ps then (''/dev/null'', ps, w1)
        else (case spawn_ps os into (ps_inner tok) (rd, wr) w1 of (pid, w2) \<Rightarrow>
          let fd = (if into then rd else wr)
          in (fit 32 (''/proc/self/fd/'' @ show_int fd), ps @ [(pid, fd)], w2)))"

definition expand_arg_ps ::
  "'w os \<Rightarrow> shell_env \<Rightarrow> arg \<Rightarrow> (int \<times> int) list \<Rightarrow> 'w \<Rightarrow> shell_fault + cstring \<times> (int \<times> int) list \<times> 'w" where
  "expand_arg_ps os env arg ps w = (case arg of
      ArithArg t \<Rightarrow> map_sum id (\<lambda>s. (s, ps, w)) (expanded (expand_vars env t))
    | PSubstInArg t \<Rightarrow> Inr (proc_subst os True t ps w)
    | PSubstOutArg t \<Rightarrow> Inr (proc_subst os False t ps w)
    | AssignArg t \<Rightarrow> map_sum id (\<lambda>s. (s, ps, w)) (expanded (expand_and_unquote env t))
    | WrdArg t \<Rightarrow> map_sum id (\<lambda>s. (s, ps, w)) (expanded (expand_and_unquote env t)))"

definition append_word_glob :: "'w os \<Rightarrow> 'w \<Rightarrow> cstring list \<Rightarrow> cstring \<Rightarrow> cstring list" where
  "append_word_glob os w argv word =
     (if list_ex (\<lambda>c. c = CHR ''*'' \<or> c = CHR ''?'' \<or> c = CHR ''['') word
      then (case glob_words os w word of
              Some ms \<Rightarrow> argv @ take (BNFC_MAX_ARGS - length argv) ms
            | None \<Rightarrow> argv @ [word])
      else argv @ [word])"

fun args_go ::
  "'w os \<Rightarrow> shell_env \<Rightarrow> arg list \<Rightarrow> cstring list \<Rightarrow> (int \<times> int) list \<Rightarrow> 'w
     \<Rightarrow> shell_fault + cstring list \<times> (int \<times> int) list \<times> 'w" where
  "args_go os env [] argv ps w = Inr (argv, ps, w)"
| "args_go os env (a # la) argv ps w =
     (if length argv < BNFC_MAX_ARGS
      then (case expand_arg_ps os env a ps w of
              Inl f \<Rightarrow> Inl f
            | Inr (word, ps1, w1) \<Rightarrow> args_go os env la (append_word_glob os w1 argv word) ps1 w1)
      else Inr (argv, ps, w))"

fun eval_cmdpart :: "'w os \<Rightarrow> shell_env \<Rightarrow> command_part \<Rightarrow> 'w \<Rightarrow> shell_fault + cmd \<times> 'w" where
  "eval_cmdpart os env (Cmd a la) w =
     (case expand_arg_ps os env a [] w of
        Inl f \<Rightarrow> Inl f
      | Inr (name, ps1, w1) \<Rightarrow>
          (case args_go os env la [name] ps1 w1 of
             Inl f \<Rightarrow> Inl f
           | Inr (av, ps2, w2) \<Rightarrow>
               Inr (\<lparr>cmd_argv = av, stdin_file = None, stdout_file = None, stdout_append = False,
                     stderr_file = None, stderr_append = False, stderr_both = False,
                     background = False, pipe_next = False, ps_procs = ps2\<rparr>, w2)))"

fun eval_pipeline_ast ::
  "'w os \<Rightarrow> shell_env \<Rightarrow> pipeline \<Rightarrow> nat \<Rightarrow> 'w \<Rightarrow> shell_fault + cmd list \<times> 'w" where
  "eval_pipeline_ast os env (Single cp) idx w =
     (if BNFC_MAX_PIPELINE \<le> idx then Inl StageOverflow
      else (case eval_cmdpart os env cp w of Inl f \<Rightarrow> Inl f | Inr (c, w1) \<Rightarrow> Inr ([c], w1)))"
| "eval_pipeline_ast os env (Pipe cp pl) idx w =
     (if BNFC_MAX_PIPELINE \<le> idx then Inl StageOverflow
      else (case eval_cmdpart os env cp w of
              Inl f \<Rightarrow> Inl f
            | Inr (c, w1) \<Rightarrow>
                (case eval_pipeline_ast os env pl (Suc idx) w1 of
                   Inl f \<Rightarrow> Inl f
                 | Inr (cs, w2) \<Rightarrow> Inr (c\<lparr>pipe_next := True\<rparr> # cs, w2))))"

definition with_word :: "shell_env \<Rightarrow> cstring \<Rightarrow> (cstring \<Rightarrow> shell_fault + 'a) \<Rightarrow> shell_fault + 'a" where
  "with_word env w k = (case expanded (expand_and_unquote env w) of Inl f \<Rightarrow> Inl f | Inr t \<Rightarrow> k t)"

definition upd_last :: "(cmd \<Rightarrow> cmd) \<Rightarrow> cmd list \<Rightarrow> cmd list" where
  "upd_last f cs = cs[length cs - 1 := f (cs ! (length cs - 1))]"

definition upd_head :: "(cmd \<Rightarrow> cmd) \<Rightarrow> cmd list \<Rightarrow> cmd list" where
  "upd_head f cs = cs[0 := f (cs ! 0)]"

definition eval_redir :: "shell_env \<Rightarrow> opt_redir \<Rightarrow> cmd list \<Rightarrow> shell_fault + cmd list" where
  "eval_redir env redir cs = (case redir of
      NoRedir \<Rightarrow> Inr cs
    | OutRedir w \<Rightarrow> with_word env w (\<lambda>f. Inr (upd_last (\<lambda>c. c\<lparr>stdout_file := Some f, stdout_append := False\<rparr>) cs))
    | AppendRedir w \<Rightarrow> with_word env w (\<lambda>f. Inr (upd_last (\<lambda>c. c\<lparr>stdout_file := Some f, stdout_append := True\<rparr>) cs))
    | InRedir w \<Rightarrow> with_word env w (\<lambda>f. Inr (upd_head (\<lambda>c. c\<lparr>stdin_file := Some f\<rparr>) cs))
    | InOutRedir w1 w2 \<Rightarrow> with_word env w1 (\<lambda>f. with_word env w2 (\<lambda>g.
        Inr (upd_last (\<lambda>c. c\<lparr>stdout_file := Some g, stdout_append := False\<rparr>)
              (upd_head (\<lambda>c. c\<lparr>stdin_file := Some f\<rparr>) cs))))
    | OutInRedir w1 w2 \<Rightarrow> with_word env w1 (\<lambda>f. with_word env w2 (\<lambda>g.
        Inr (upd_head (\<lambda>c. c\<lparr>stdin_file := Some g\<rparr>)
              (upd_last (\<lambda>c. c\<lparr>stdout_file := Some f, stdout_append := False\<rparr>) cs))))
    | ErrRedir w \<Rightarrow> with_word env w (\<lambda>f.
        Inr (upd_last (\<lambda>c. c\<lparr>stderr_file := Some f, stderr_append := False, stderr_both := False\<rparr>) cs))
    | ErrAppRedir w \<Rightarrow> with_word env w (\<lambda>f.
        Inr (upd_last (\<lambda>c. c\<lparr>stderr_file := Some f, stderr_append := True, stderr_both := False\<rparr>) cs))
    | BothRedir w \<Rightarrow> with_word env w (\<lambda>f.
        Inr (upd_last (\<lambda>c. c\<lparr>stdout_file := Some f, stdout_append := False, stderr_both := True\<rparr>) cs)))"

text \<open>The commands of a command line, the background mark on the last one.\<close>

fun build_cmds ::
  "'w os \<Rightarrow> shell_env \<Rightarrow> bool \<Rightarrow> command_line \<Rightarrow> 'w \<Rightarrow> shell_fault + cmd list \<times> 'w" where
  "build_cmds os env bg (MkCmdLine pl redir) w =
     (case eval_pipeline_ast os env pl 0 w of
        Inl f \<Rightarrow> Inl f
      | Inr (cs, w1) \<Rightarrow>
          (case eval_redir env redir cs of
             Inl f \<Rightarrow> Inl f
           | Inr cs1 \<Rightarrow> Inr (upd_last (\<lambda>c. c\<lparr>background := bg\<rparr>) cs1, w1)))"

section \<open>What is built\<close>

fun stages :: "pipeline \<Rightarrow> nat" where
  "stages (Single cp) = 1"
| "stages (Pipe cp pl) = Suc (stages pl)"

text \<open>A command as \<open>eval_cmdpart\<close> makes it: no redirection, not in the background.\<close>

definition bare :: "cmd \<Rightarrow> bool" where
  "bare c \<longleftrightarrow> cmd_argv c \<noteq> [] \<and> length (cmd_argv c) \<le> BNFC_MAX_ARGS \<and> length (ps_procs c) \<le> 8
     \<and> stdin_file c = None \<and> stdout_file c = None \<and> stderr_file c = None
     \<and> \<not> stderr_both c \<and> \<not> background c"

lemma proc_subst_bound:
  "proc_subst os into t ps w = (s, ps1, w1) \<Longrightarrow> length ps \<le> 8 \<Longrightarrow> length ps1 \<le> 8"
  by (auto simp: proc_subst_def Let_def split: prod.splits option.splits if_splits)

lemma expand_arg_ps_bound:
  "expand_arg_ps os env a ps w = Inr (s, ps1, w1) \<Longrightarrow> length ps \<le> 8 \<Longrightarrow> length ps1 \<le> 8"
  by (cases a) (auto simp: expand_arg_ps_def expanded_def dest: proc_subst_bound split: sum.splits)

lemma append_word_glob_bound: "length av < BNFC_MAX_ARGS \<Longrightarrow> length (append_word_glob os w av t) \<le> BNFC_MAX_ARGS"
  by (auto simp: append_word_glob_def split: option.split)

lemma append_word_glob_ne: "av \<noteq> [] \<Longrightarrow> append_word_glob os w av t \<noteq> []"
  by (auto simp: append_word_glob_def split: option.split)

lemma args_go_bound:
  "args_go os env la av ps w = Inr (av1, ps1, w1) \<Longrightarrow> av \<noteq> [] \<Longrightarrow> length av \<le> BNFC_MAX_ARGS \<Longrightarrow> length ps \<le> 8 \<Longrightarrow>
     av1 \<noteq> [] \<and> length av1 \<le> BNFC_MAX_ARGS \<and> length ps1 \<le> 8"
proof (induction os env la av ps w rule: args_go.induct)
  case (2 os env a la av ps w)
  show ?case
  proof (cases "length av < BNFC_MAX_ARGS")
    case True
    with "2.prems"(1) obtain t ps2 w2 where e: "expand_arg_ps os env a ps w = Inr (t, ps2, w2)"
      and go: "args_go os env la (append_word_glob os w2 av t) ps2 w2 = Inr (av1, ps1, w1)"
      by (auto split: sum.splits prod.splits)
    show ?thesis
      using "2.IH" [OF True e refl refl go append_word_glob_ne [OF "2.prems"(2)] append_word_glob_bound [OF True]
          expand_arg_ps_bound [OF e "2.prems"(4)]] .
  qed (use "2.prems" in simp)
qed simp

lemma eval_cmdpart_bare: "eval_cmdpart os env cp w = Inr (c, w1) \<Longrightarrow> bare c \<and> \<not> pipe_next c"
proof (induction os env cp w rule: eval_cmdpart.induct)
  case (1 os env a la w)
  then obtain t ps1 w2 av ps2 w3 where e: "expand_arg_ps os env a [] w = Inr (t, ps1, w2)"
    and go: "args_go os env la [t] ps1 w2 = Inr (av, ps2, w3)"
    and c: "c = \<lparr>cmd_argv = av, stdin_file = None, stdout_file = None, stdout_append = False,
        stderr_file = None, stderr_append = False, stderr_both = False, background = False,
        pipe_next = False, ps_procs = ps2\<rparr>"
    by (auto split: sum.splits prod.splits)
  have "length ps1 \<le> 8" using expand_arg_ps_bound [OF e] by simp
  with args_go_bound [OF go] c show ?case by (simp add: bare_def BNFC_MAX_ARGS_def)
qed

lemma eval_pipeline_shape:
  "eval_pipeline_ast os env pl idx w = Inr (cs, w1) \<Longrightarrow>
     length cs = stages pl \<and> idx + length cs \<le> BNFC_MAX_PIPELINE \<and> list_all bare cs
     \<and> map pipe_next cs = replicate (length cs - 1) True @ [False]"
proof (induction os env pl idx w arbitrary: cs w1 rule: eval_pipeline_ast.induct)
  case (1 os env cp idx w)
  then show ?case by (auto dest: eval_cmdpart_bare split: if_splits sum.splits)
next
  case (2 os env cp pl idx w)
  from "2.prems" obtain c w2 cs2 where idx: "\<not> BNFC_MAX_PIPELINE \<le> idx"
    and c: "eval_cmdpart os env cp w = Inr (c, w2)"
    and pl: "eval_pipeline_ast os env pl (Suc idx) w2 = Inr (cs2, w1)" and cs: "cs = c\<lparr>pipe_next := True\<rparr> # cs2"
    by (auto split: if_splits sum.splits prod.splits)
  have "bare (c\<lparr>pipe_next := True\<rparr>)" using eval_cmdpart_bare [OF c] by (simp add: bare_def)
  moreover have ih: "length cs2 = stages pl \<and> Suc idx + length cs2 \<le> BNFC_MAX_PIPELINE \<and> list_all bare cs2
      \<and> map pipe_next cs2 = replicate (length cs2 - 1) True @ [False]"
    by (rule "2.IH" [OF idx c refl pl])
  moreover have "0 < length cs2" using ih by (cases pl) auto
  ultimately show ?case using cs by (cases "length cs2") (auto simp flip: replicate_Suc)
qed

lemma stages_pos [simp]: "0 < stages pl"
  by (cases pl) auto

text \<open>The commands handed to \<open>execute_command\<close> or \<open>run_pipeline\<close>.\<close>

definition cmd_ok :: "cmd \<Rightarrow> bool" where
  "cmd_ok c \<longleftrightarrow> cmd_argv c \<noteq> [] \<and> length (cmd_argv c) \<le> BNFC_MAX_ARGS \<and> length (ps_procs c) \<le> 8
     \<and> (stderr_both c \<longrightarrow> stderr_file c = None)"

definition inner_ok :: "cmd \<Rightarrow> bool" where
  "inner_ok c \<longleftrightarrow> stdout_file c = None \<and> stderr_file c = None \<and> \<not> background c \<and> pipe_next c"

definition built_ok :: "nat \<Rightarrow> bool \<Rightarrow> cmd list \<Rightarrow> bool" where
  "built_ok n bg cs \<longleftrightarrow> length cs = n \<and> 0 < n \<and> n \<le> BNFC_MAX_PIPELINE \<and> list_all cmd_ok cs
     \<and> list_all inner_ok (butlast cs) \<and> list_all (\<lambda>c. stdin_file c = None) (tl cs)
     \<and> background (last cs) = bg \<and> \<not> pipe_next (last cs)"

lemma upd_last_append [simp]: "upd_last f (cs @ [c]) = cs @ [f c]"
  by (simp add: upd_last_def)

lemma upd_head_Cons [simp]: "upd_head f (c # cs) = f c # cs"
  by (simp add: upd_head_def)

lemma upd_last_Cons_append [simp]: "upd_last f (c # cs @ [d]) = c # cs @ [f d]"
  using upd_last_append [of f "c # cs" d] by simp

lemma upd_last_single [simp]: "upd_last f [c] = [f c]"
  using upd_last_append [of f "[]" c] by simp

lemma pipe_flags: "map pipe_next cs = replicate n True @ [False] \<Longrightarrow>
    \<exists>xs x. cs = xs @ [x] \<and> length xs = n \<and> list_all pipe_next xs \<and> \<not> pipe_next x"
proof (induction n arbitrary: cs)
  case 0
  then show ?case by (auto simp: map_eq_Cons_conv)
next
  case (Suc n)
  then obtain c ds where c: "cs = c # ds" "pipe_next c" "map pipe_next ds = replicate n True @ [False]"
    by (auto simp: map_eq_Cons_conv)
  from Suc.IH [OF c(3)] obtain xs x where "ds = xs @ [x]" "length xs = n" "list_all pipe_next xs" "\<not> pipe_next x"
    by blast
  with c show ?case by (intro exI [of _ "c # xs"] exI [of _ x]) simp
qed

lemma redir_ok:
  assumes "eval_redir env redir (xs @ [x]) = Inr cs" "list_all bare (xs @ [x])" "list_all pipe_next xs" "\<not> pipe_next x"
    "length xs < BNFC_MAX_PIPELINE"
  shows "built_ok (Suc (length xs)) bg (upd_last (\<lambda>c. c\<lparr>background := bg\<rparr>) cs)"
proof (cases xs)
  case Nil
  with assms show ?thesis
    by (cases redir) (auto simp: eval_redir_def with_word_def built_ok_def bare_def cmd_ok_def split: sum.splits)
next
  case (Cons y ys)
  have "list_all inner_ok ys" using assms(2,3) Cons by (auto simp: list_all_iff bare_def inner_ok_def)
  moreover have "list_all cmd_ok ys" "list_all (\<lambda>c. stdin_file c = None) ys"
    using assms(2) Cons by (auto simp: list_all_iff bare_def cmd_ok_def)
  ultimately show ?thesis using assms Cons
    by (cases redir)
      (auto simp: eval_redir_def with_word_def built_ok_def bare_def cmd_ok_def inner_ok_def butlast_append
        split: sum.splits)
qed


definition demo_os :: "unit os" where
  "demo_os = \<lparr>glob_words = (\<lambda>_ _. Some [''a.c'', ''b.c'']), mk_pipe = (\<lambda>w. (None, w)), spawn_ps = (\<lambda>_ _ _ w. (1, w))\<rparr>"

definition demo_shell :: shell_env where
  "demo_shell = \<lparr>var_table = [], environ = (\<lambda>_. None), last_status = 0, shell_pid = 1\<rparr>"


text \<open>A longer pipeline does not fit the array; nothing checks it before \<open>run_pipeline\<close> does.\<close>

lemma eval_pipeline_overflows:
  "BNFC_MAX_PIPELINE < idx + stages pl \<Longrightarrow> eval_pipeline_ast os env pl idx w \<noteq> Inr r"
proof
  assume a: "BNFC_MAX_PIPELINE < idx + stages pl" and b: "eval_pipeline_ast os env pl idx w = Inr r"
  obtain cs w1 where "r = (cs, w1)" by (cases r)
  with eval_pipeline_shape [of os env pl idx w cs w1] a b show False by simp
qed

end
