(* ===== verification/Shell_Eval.thy ===== *)
theory Shell_Eval
  imports Shell_Ast
begin

text \<open>
  The second half of the tree walker of \<^verbatim>\<open>aishell_main.c\<close>: command lines, conditions, the
  control structures with their \<open>g_break_flag\<close> and \<open>g_continue_flag\<close>, the top level. The C
  functions call each other; here they are one function \<open>eval\<close> on a code, one constructor per C
  function or loop. Only the turns of \<open>while\<close> and \<open>until\<close> take fuel, everything else is
  structural. Running the built commands is the operation \<open>exec\<close> of the system.
\<close>

section \<open>State and outcomes\<close>

datatype 'w exec_result = Ran int shell_env 'w | Exits int 'w

text \<open>
  \<open>exec\<close> runs a list of commands (one: \<open>execute_command\<close>, more: \<open>run_pipeline\<close>) and may end
  the process (\<open>exit\<close>); \<open>reap_ps\<close> closes the descriptors of process substitutions and waits for
  their children; \<open>fork_child\<close> returns the pid of a child, \<open>join_child\<close> the parent's world after
  the child ended in another.
\<close>

record 'w shell_os = "'w os" +
  exec :: "cmd list \<Rightarrow> shell_env \<Rightarrow> 'w \<Rightarrow> 'w exec_result"
  reap_ps :: "(int \<times> int) list \<Rightarrow> 'w \<Rightarrow> 'w"
  fork_child :: "'w \<Rightarrow> int option \<times> 'w"
  join_child :: "'w \<Rightarrow> 'w \<Rightarrow> 'w"

record 'w sh =
  env :: shell_env
  break_flag :: bool
  continue_flag :: bool
  world :: 'w

text \<open>\<open>Spin\<close> is a loop that was cut off by the fuel.\<close>

datatype 'w outcome = Ok int "'w sh" | Quit int 'w | Faulted shell_fault | Spin

definition and_then :: "'w outcome \<Rightarrow> (int \<Rightarrow> 'w sh \<Rightarrow> 'w outcome) \<Rightarrow> 'w outcome" where
  "and_then r k = (case r of Ok rc s \<Rightarrow> k rc s | Quit c w \<Rightarrow> Quit c w | Faulted f \<Rightarrow> Faulted f | Spin \<Rightarrow> Spin)"

lemma and_then_simps [simp]:
  "and_then (Ok rc s) k = k rc s" "and_then (Quit c w) k = Quit c w"
  "and_then (Faulted f) k = Faulted f" "and_then Spin k = Spin"
  by (simp_all add: and_then_def)

lemma and_then_cong [fundef_cong]:
  "r = r' \<Longrightarrow> (\<And>rc s. r' = Ok rc s \<Longrightarrow> k rc s = k' rc s) \<Longrightarrow> and_then r k = and_then r' k'"
  by (cases r') simp_all

definition flagged :: "'w sh \<Rightarrow> bool" where
  "flagged s \<longleftrightarrow> break_flag s \<or> continue_flag s"

section \<open>Command lines\<close>

definition run_line :: "'w shell_os \<Rightarrow> bool \<Rightarrow> command_line \<Rightarrow> 'w sh \<Rightarrow> 'w outcome" where
  "run_line os bg cl s =
     (case build_cmds (os.truncate os) (env s) bg cl (world s) of
        Inl f \<Rightarrow> Faulted f
      | Inr (cs, w1) \<Rightarrow>
          (case exec os cs (env s) w1 of
             Exits c w2 \<Rightarrow> Quit c w2
           | Ran rc e w2 \<Rightarrow> Ok rc (s\<lparr>env := e, world := reap_ps os (concat (map ps_procs cs)) w2\<rparr>)))"

definition eval_cmdline :: "'w shell_os \<Rightarrow> command_line \<Rightarrow> 'w sh \<Rightarrow> 'w outcome" where
  "eval_cmdline os cl s = run_line os False cl s"

text \<open>The variable of a \<open>for\<close> goes to both stores; \<open>setenv\<close> refuses an empty name or an \<open>=\<close>.\<close>

definition setenv :: "cstring \<Rightarrow> cstring \<Rightarrow> shell_env \<Rightarrow> shell_env" where
  "setenv name val e = (if name = [] \<or> CHR ''='' \<in> set name then e else e\<lparr>environ := (environ e)(name \<mapsto> val)\<rparr>)"

definition set_var :: "cstring \<Rightarrow> cstring \<Rightarrow> shell_env \<Rightarrow> shell_env" where
  "set_var name val e = e\<lparr>var_table := var_set name val (var_table e)\<rparr>"

definition for_var :: "cstring \<Rightarrow> cstring \<Rightarrow> 'w sh \<Rightarrow> 'w sh" where
  "for_var name val s = s\<lparr>env := set_var name val (setenv name val (env s))\<rparr>"

definition assign_job :: "cstring \<Rightarrow> 'w sh \<Rightarrow> 'w outcome" where
  "assign_job raw s = (case split_at (CHR ''='') raw of
      None \<Rightarrow> Ok 0 s
    | Some (name, v) \<Rightarrow>
        (case expand_and_unquote (env s) v of
           Inl f \<Rightarrow> Faulted (Expand f)
         | Inr val \<Rightarrow> Ok 0 (s\<lparr>env := set_var name val (env s)\<rparr>)))"

definition set_status :: "int \<Rightarrow> 'w sh \<Rightarrow> 'w sh" where
  "set_status rc s = s\<lparr>env := (env s)\<lparr>last_status := rc\<rparr>\<rparr>"

text \<open>The end of a subshell: its exit status, and the parent's state with the joined world.\<close>

definition leave_subshell :: "'w shell_os \<Rightarrow> 'w sh \<Rightarrow> 'w outcome \<Rightarrow> 'w outcome" where
  "leave_subshell os s r = (case r of
      Ok rc c \<Rightarrow> Ok (rc mod 256) (s\<lparr>world := join_child os (world s) (world c)\<rparr>)
    | Quit rc w \<Rightarrow> Ok (rc mod 256) (s\<lparr>world := join_child os (world s) w\<rparr>)
    | Faulted f \<Rightarrow> Faulted f | Spin \<Rightarrow> Spin)"

lemma leave_subshell_cong [fundef_cong]:
  "s = s' \<Longrightarrow> r = r' \<Longrightarrow> leave_subshell os s r = leave_subshell os s' r'"
  by simp

section \<open>The walker\<close>

datatype code = Neg negcmd | Cond condition | Else optelse bool | Job job_stmt
  | Jobs "job_stmt list" int | Body "job_stmt list" int
  | For cstring "cstring list" "job_stmt list" int | While bool condition "job_stmt list" int

primrec code_size :: "code \<Rightarrow> nat" where
  "code_size (Neg c) = size c"
| "code_size (Cond c) = size c"
| "code_size (Else oe b) = size oe"
| "code_size (Job j) = size j"
| "code_size (Jobs js rc) = size_list size js"
| "code_size (Body js rc) = size_list size js"
| "code_size (For x ws js rc) = size_list size js"
| "code_size (While u c js rc) = 0"

definition words_left :: "code \<Rightarrow> nat" where
  "words_left c = (case c of For x ws js rc \<Rightarrow> Suc (length ws) | _ \<Rightarrow> 0)"

text \<open>The background mark only reaches a single plain command line.\<close>

definition plain_line :: "condition \<Rightarrow> command_line option" where
  "plain_line c = (case c of CondSingle (PlainCL cl) \<Rightarrow> Some cl | _ \<Rightarrow> None)"

function (sequential) eval :: "'w shell_os \<Rightarrow> nat \<Rightarrow> code \<Rightarrow> 'w sh \<Rightarrow> 'w outcome" where
  "eval os n (Neg (PlainCL cl)) s = eval_cmdline os cl s"
| "eval os n (Neg (NotCL c)) s = and_then (eval os n (Neg c) s) (\<lambda>rc s1. Ok (if rc = 0 then 1 else 0) s1)"
| "eval os n (Neg (Subshell js)) s =
     (case fork_child os (world s) of
        (None, w) \<Rightarrow> Ok 1 (s\<lparr>world := w\<rparr>)
      | (Some pid, w) \<Rightarrow> leave_subshell os (s\<lparr>world := w\<rparr>)
          (eval os n (Jobs js 0) (s\<lparr>world := w, env := (env s)\<lparr>shell_pid := pid\<rparr>\<rparr>)))"
| "eval os n (Neg (Group js)) s = eval os n (Jobs js 0) s"
| "eval os n (Neg (TimeCmd c)) s = eval os n (Neg c) s"
| "eval os n (Cond (CondSingle c)) s = eval os n (Neg c) s"
| "eval os n (Cond (CondAnd c cs)) s =
     and_then (eval os n (Neg c) s) (\<lambda>rc s1. if rc = 0 then eval os n (Cond cs) s1 else Ok rc s1)"
| "eval os n (Cond (CondOr c cs)) s =
     and_then (eval os n (Neg c) s) (\<lambda>rc s1. if rc \<noteq> 0 then eval os n (Cond cs) s1 else Ok rc s1)"
| "eval os n (Else oe False) s = Ok 0 s"
| "eval os n (Else NoElse True) s = Ok 0 s"
| "eval os n (Else (ElsePart js) True) s = eval os n (Jobs js 0) s"
| "eval os n (Else (ElifPart c js oe) True) s =
     and_then (eval os n (Cond c) s) (\<lambda>rc s1.
       and_then (if rc = 0 then eval os n (Jobs js 0) s1 else Ok 0 s1) (\<lambda>_ s2. eval os n (Else oe (rc \<noteq> 0)) s2))"
| "eval os n (Job j) s =
     (if flagged s then Ok 0 s
      else (case j of
          OneJobFG c \<Rightarrow> and_then (eval os n (Cond c) s) (\<lambda>rc s1. Ok rc (set_status rc s1))
        | OneJobBG c \<Rightarrow>
            (case plain_line c of Some cl \<Rightarrow> run_line os True cl s | None \<Rightarrow> eval os n (Cond c) s)
        | AssignJob raw \<Rightarrow> assign_job raw s
        | IfStmt c js oe \<Rightarrow>
            and_then (eval os n (Cond c) s) (\<lambda>rc s1.
              and_then (if rc = 0 then eval os n (Jobs js 0) s1 else Ok 0 s1) (\<lambda>_ s2.
                and_then (eval os n (Else oe (rc \<noteq> 0)) s2) (\<lambda>_ s3. Ok 0 s3)))
        | ForStmt x ws js \<Rightarrow>
            (case expand_and_unquote (env s) x of
               Inl f \<Rightarrow> Faulted (Expand f)
             | Inr name \<Rightarrow> eval os n (For name ws js 0) s)
        | WhileStmt c js \<Rightarrow> eval os n (While False c js 0) s
        | UntilStmt c js \<Rightarrow> eval os n (While True c js 0) s
        | BreakStmt \<Rightarrow> Ok 0 (s\<lparr>break_flag := True\<rparr>)
        | ContStmt \<Rightarrow> Ok 0 (s\<lparr>continue_flag := True\<rparr>)))"
| "eval os n (Jobs [] rc) s = Ok rc s"
| "eval os n (Jobs (j # js) rc) s = and_then (eval os n (Job j) s) (\<lambda>rc1 s1. eval os n (Jobs js rc1) s1)"
| "eval os n (Body [] ret) s = Ok ret s"
| "eval os n (Body (j # js) ret) s =
     and_then (eval os n (Job j) s) (\<lambda>ret1 s1. if flagged s1 then Ok ret1 s1 else eval os n (Body js ret1) s1)"
| "eval os n (For name [] js ret) s = Ok ret s"
| "eval os n (For name (w # ws) js ret) s =
     (case expand_and_unquote (env s) w of
        Inl f \<Rightarrow> Faulted (Expand f)
      | Inr val \<Rightarrow> and_then (eval os n (Body js ret) (for_var name val s)) (\<lambda>ret1 s1.
          if break_flag s1 then Ok ret1 (s1\<lparr>break_flag := False\<rparr>)
          else eval os n (For name ws js ret1) (s1\<lparr>continue_flag := False\<rparr>)))"
| "eval os 0 (While neg c js ret) s = Spin"
| "eval os (Suc n) (While neg c js ret) s =
     and_then (eval os n (Cond c) s) (\<lambda>rc s1.
       if (rc = 0) = neg then Ok ret s1
       else and_then (eval os n (Body js ret) s1) (\<lambda>ret1 s2.
         if break_flag s2 then Ok ret1 (s2\<lparr>break_flag := False\<rparr>)
         else eval os n (While neg c js ret1) (s2\<lparr>continue_flag := False\<rparr>)))"
  by pat_completeness auto
termination
  by (relation "measures [\<lambda>(os, n, c, s). n, \<lambda>(os, n, c, s). code_size c, \<lambda>(os, n, c, s). words_left c]")
    (simp_all add: words_left_def)

definition eval_negcmd :: "'w shell_os \<Rightarrow> nat \<Rightarrow> negcmd \<Rightarrow> 'w sh \<Rightarrow> 'w outcome" where
  "eval_negcmd os n c s = eval os n (Neg c) s"

definition eval_condition :: "'w shell_os \<Rightarrow> nat \<Rightarrow> condition \<Rightarrow> 'w sh \<Rightarrow> 'w outcome" where
  "eval_condition os n c s = eval os n (Cond c) s"

definition eval_optelse :: "'w shell_os \<Rightarrow> nat \<Rightarrow> optelse \<Rightarrow> bool \<Rightarrow> 'w sh \<Rightarrow> 'w outcome" where
  "eval_optelse os n oe cond_failed s = eval os n (Else oe cond_failed) s"

definition eval_job :: "'w shell_os \<Rightarrow> nat \<Rightarrow> job_stmt \<Rightarrow> 'w sh \<Rightarrow> 'w outcome" where
  "eval_job os n j s = eval os n (Job j) s"

definition eval_input :: "'w shell_os \<Rightarrow> nat \<Rightarrow> job_stmt list \<Rightarrow> 'w sh \<Rightarrow> 'w outcome" where
  "eval_input os n ast s = eval os n (Jobs ast 0) s"

text \<open>The end of one turn of \<open>bnfc_repl\<close>: evaluate the parsed line and record its status.\<close>

fun eval_lines :: "'w shell_os \<Rightarrow> nat \<Rightarrow> job_stmt list list \<Rightarrow> 'w sh \<Rightarrow> 'w outcome" where
  "eval_lines os n [] s = Ok (last_status (env s)) s"
| "eval_lines os n (ast # asts) s =
     and_then (eval_input os n ast s) (\<lambda>rc s1. eval_lines os n asts (set_status rc s1))"

section \<open>Fuel\<close>

text \<open>A result that was not cut off does not depend on the fuel.\<close>

definition settled :: "'w outcome \<Rightarrow> 'w outcome \<Rightarrow> bool" where
  "settled r r' \<longleftrightarrow> (r \<noteq> Spin \<longrightarrow> r' = r)"

lemma settled_refl [simp]: "settled r r"
  by (simp add: settled_def)

lemma settled_and_then:
  "settled r r' \<Longrightarrow> (\<And>rc s. r = Ok rc s \<Longrightarrow> settled (k rc s) (k' rc s)) \<Longrightarrow> settled (and_then r k) (and_then r' k')"
  by (cases r) (auto simp: settled_def)

lemma settled_leave: "settled r r' \<Longrightarrow> settled (leave_subshell os s r) (leave_subshell os s r')"
  by (cases r) (auto simp: settled_def leave_subshell_def)

lemma eval_settled: "settled (eval os n c s) (eval os (n + k) c s)"
proof (induction os n c s rule: eval.induct)
  case (13 os n j s)
  then show ?case
    by (cases j) (auto intro!: settled_and_then split: option.split sum.split)
next
  case (21 os n neg c js ret s)
  show ?case
  proof (simp del: split_paired_All, rule settled_and_then)
    show "settled (eval os n (Cond c) s) (eval os (n + k) (Cond c) s)" by (rule "21.IH"(1))
  next
    fix rc s1 assume c: "eval os n (Cond c) s = Ok rc s1"
    show "settled (if (rc = 0) = neg then Ok ret s1 else and_then (eval os n (Body js ret) s1) (\<lambda>ret1 s2.
            if break_flag s2 then Ok ret1 (s2\<lparr>break_flag := False\<rparr>)
            else eval os n (While neg c js ret1) (s2\<lparr>continue_flag := False\<rparr>)))
          (if (rc = 0) = neg then Ok ret s1 else and_then (eval os (n + k) (Body js ret) s1) (\<lambda>ret1 s2.
            if break_flag s2 then Ok ret1 (s2\<lparr>break_flag := False\<rparr>)
            else eval os (n + k) (While neg c js ret1) (s2\<lparr>continue_flag := False\<rparr>)))"
    proof (cases "(rc = 0) = neg")
      case False
      show ?thesis
        unfolding if_not_P [OF False]
        by (rule settled_and_then [OF "21.IH"(2) [OF c False]]) (use "21.IH"(3) [OF c False] in simp)
    qed simp
  qed
qed (auto intro!: settled_and_then settled_leave simp: settled_def [of Spin] split: option.split prod.split sum.split)

theorem eval_more_fuel:
  assumes "eval_input os n ast s \<noteq> Spin"
  shows "eval_input os (n + k) ast s = eval_input os n ast s"
  using assms eval_settled [of os n "Jobs ast 0" s k] by (simp add: settled_def eval_input_def)

text \<open>Without \<open>while\<close> and \<open>until\<close> every line comes to an end.\<close>

fun bounded_neg and bounded_cond and bounded_else and bounded where
  "bounded_neg (PlainCL cl) = True"
| "bounded_neg (NotCL c) = bounded_neg c"
| "bounded_neg (Subshell js) = list_all bounded js"
| "bounded_neg (Group js) = list_all bounded js"
| "bounded_neg (TimeCmd c) = bounded_neg c"
| "bounded_cond (CondSingle c) = bounded_neg c"
| "bounded_cond (CondAnd c cs) = (bounded_neg c \<and> bounded_cond cs)"
| "bounded_cond (CondOr c cs) = (bounded_neg c \<and> bounded_cond cs)"
| "bounded_else NoElse = True"
| "bounded_else (ElsePart js) = list_all bounded js"
| "bounded_else (ElifPart c js oe) = (bounded_cond c \<and> list_all bounded js \<and> bounded_else oe)"
| "bounded (OneJobFG c) = bounded_cond c"
| "bounded (OneJobBG c) = bounded_cond c"
| "bounded (AssignJob a) = True"
| "bounded (IfStmt c js oe) = (bounded_cond c \<and> list_all bounded js \<and> bounded_else oe)"
| "bounded (ForStmt x ws js) = list_all bounded js"
| "bounded (WhileStmt c js) = False"
| "bounded (UntilStmt c js) = False"
| "bounded BreakStmt = True"
| "bounded ContStmt = True"

primrec bounded_code :: "code \<Rightarrow> bool" where
  "bounded_code (Neg c) = bounded_neg c"
| "bounded_code (Cond c) = bounded_cond c"
| "bounded_code (Else oe b) = bounded_else oe"
| "bounded_code (Job j) = bounded j"
| "bounded_code (Jobs js rc) = list_all bounded js"
| "bounded_code (Body js rc) = list_all bounded js"
| "bounded_code (For x ws js rc) = list_all bounded js"
| "bounded_code (While u c js rc) = False"

definition returns :: "'w outcome \<Rightarrow> bool" where
  "returns r \<longleftrightarrow> r \<noteq> Spin"

lemma returns_simps [simp]: "returns (Ok rc s)" "returns (Quit c w)" "returns (Faulted f)"
  by (simp_all add: returns_def)

lemma returns_and_then: "returns r \<Longrightarrow> (\<And>rc s. r = Ok rc s \<Longrightarrow> returns (k rc s)) \<Longrightarrow> returns (and_then r k)"
  by (cases r) (auto simp: returns_def)

lemma returns_run_line [simp]: "returns (run_line os bg cl s)"
  by (auto simp: run_line_def split: sum.split prod.split exec_result.split)

lemma returns_assign_job [simp]: "returns (assign_job raw s)"
  by (auto simp: assign_job_def split: sum.split prod.split option.split)

lemma returns_leave: "returns r \<Longrightarrow> returns (leave_subshell os s r)"
  by (cases r) (simp_all add: leave_subshell_def returns_def)

lemma bounded_returns: "bounded_code c \<Longrightarrow> returns (eval os n c s)"
proof (induction os n c s rule: eval.induct)
  case (13 os n j s)
  then show ?case
    by (cases j) (auto intro!: returns_and_then split: option.split sum.split)
qed (auto intro!: returns_and_then returns_leave simp: eval_cmdline_def split: option.split prod.split sum.split)

theorem loop_free_terminates:
  assumes "list_all bounded ast"
  shows "eval_input os 0 ast s \<noteq> Spin"
  using bounded_returns [of "Jobs ast 0" os 0 s] assms by (simp add: eval_input_def returns_def)

section \<open>Structured break and continue\<close>

text \<open>
  The reference semantics has no flags: a statement ends normally or with a signal, which skips
  the rest of its list and is consumed by the innermost loop. Guards are evaluated as before.
\<close>

datatype signal = Go | Brk | Cnt

datatype 'w ref = RDone int signal "'w sh" | RStop "'w outcome"

definition guard_then :: "'w outcome \<Rightarrow> (int \<Rightarrow> 'w sh \<Rightarrow> 'w ref) \<Rightarrow> 'w ref" where
  "guard_then r k = (case r of Ok rc s \<Rightarrow> k rc s | _ \<Rightarrow> RStop r)"

definition ref_then :: "'w ref \<Rightarrow> (int \<Rightarrow> signal \<Rightarrow> 'w sh \<Rightarrow> 'w ref) \<Rightarrow> 'w ref" where
  "ref_then x k = (case x of RDone rc sig s \<Rightarrow> k rc sig s | RStop r \<Rightarrow> RStop r)"

lemma ref_then_simps [simp]: "ref_then (RDone rc sig s) k = k rc sig s" "ref_then (RStop r) k = RStop r"
  "guard_then (Ok rc s) g = g rc s"
  by (simp_all add: ref_then_def guard_then_def)

lemma ref_then_cong [fundef_cong]:
  "x = x' \<Longrightarrow> (\<And>rc sig s. x' = RDone rc sig s \<Longrightarrow> k rc sig s = k' rc sig s) \<Longrightarrow> ref_then x k = ref_then x' k'"
  by (cases x') simp_all

lemma guard_then_cong [fundef_cong]:
  "r = r' \<Longrightarrow> (\<And>rc s. r' = Ok rc s \<Longrightarrow> k rc s = k' rc s) \<Longrightarrow> guard_then r k = guard_then r' k'"
  by (cases r') (simp_all add: guard_then_def)

function (sequential) sem :: "'w shell_os \<Rightarrow> nat \<Rightarrow> code \<Rightarrow> 'w sh \<Rightarrow> 'w ref" where
  "sem os n (Neg c) s = guard_then (eval os n (Neg c) s) (\<lambda>rc s1. RDone rc Go s1)"
| "sem os n (Cond c) s = guard_then (eval os n (Cond c) s) (\<lambda>rc s1. RDone rc Go s1)"
| "sem os n (Else oe False) s = RDone 0 Go s"
| "sem os n (Else NoElse True) s = RDone 0 Go s"
| "sem os n (Else (ElsePart js) True) s = sem os n (Jobs js 0) s"
| "sem os n (Else (ElifPart c js oe) True) s =
     guard_then (eval os n (Cond c) s) (\<lambda>rc s1.
       if rc = 0 then ref_then (sem os n (Jobs js 0) s1) (\<lambda>_ sig s2. RDone 0 sig s2)
       else sem os n (Else oe True) s1)"
| "sem os n (Job j) s =
     (case j of
        OneJobFG c \<Rightarrow> guard_then (eval os n (Cond c) s) (\<lambda>rc s1. RDone rc Go (set_status rc s1))
      | OneJobBG c \<Rightarrow>
          guard_then (case plain_line c of Some cl \<Rightarrow> run_line os True cl s | None \<Rightarrow> eval os n (Cond c) s)
            (\<lambda>rc s1. RDone rc Go s1)
      | AssignJob raw \<Rightarrow> guard_then (assign_job raw s) (\<lambda>rc s1. RDone rc Go s1)
      | IfStmt c js oe \<Rightarrow>
          guard_then (eval os n (Cond c) s) (\<lambda>rc s1.
            ref_then (if rc = 0 then sem os n (Jobs js 0) s1 else sem os n (Else oe True) s1)
              (\<lambda>_ sig s2. RDone 0 sig s2))
      | ForStmt x ws js \<Rightarrow>
          (case expand_and_unquote (env s) x of
             Inl f \<Rightarrow> RStop (Faulted (Expand f))
           | Inr name \<Rightarrow> sem os n (For name ws js 0) s)
      | WhileStmt c js \<Rightarrow> sem os n (While False c js 0) s
      | UntilStmt c js \<Rightarrow> sem os n (While True c js 0) s
      | BreakStmt \<Rightarrow> RDone 0 Brk s
      | ContStmt \<Rightarrow> RDone 0 Cnt s)"
| "sem os n (Jobs [] rc) s = RDone rc Go s"
| "sem os n (Jobs (j # js) rc) s = ref_then (sem os n (Job j) s) (\<lambda>rc1 sig s1.
     if sig = Go then sem os n (Jobs js rc1) s1 else RDone 0 sig s1)"
| "sem os n (Body [] ret) s = RDone ret Go s"
| "sem os n (Body (j # js) ret) s = ref_then (sem os n (Job j) s) (\<lambda>ret1 sig s1.
     if sig = Go then sem os n (Body js ret1) s1 else RDone 0 sig s1)"
| "sem os n (For name [] js ret) s = RDone ret Go s"
| "sem os n (For name (w # ws) js ret) s =
     (case expand_and_unquote (env s) w of
        Inl f \<Rightarrow> RStop (Faulted (Expand f))
      | Inr val \<Rightarrow> ref_then (sem os n (Body js ret) (for_var name val s)) (\<lambda>ret1 sig s1.
          if sig = Brk then RDone ret1 Go s1 else sem os n (For name ws js ret1) s1))"
| "sem os 0 (While neg c js ret) s = RStop Spin"
| "sem os (Suc n) (While neg c js ret) s =
     guard_then (eval os n (Cond c) s) (\<lambda>rc s1.
       if (rc = 0) = neg then RDone ret Go s1
       else ref_then (sem os n (Body js ret) s1) (\<lambda>ret1 sig s2.
         if sig = Brk then RDone ret1 Go s2 else sem os n (While neg c js ret1) s2))"
  by pat_completeness auto
termination
  by (relation "measures [\<lambda>(os, n, c, s). n, \<lambda>(os, n, c, s). code_size c, \<lambda>(os, n, c, s). words_left c]")
    (simp_all add: words_left_def)

text \<open>
  Statements a signal can leave, and programs that have none of them inside a guard (a subshell
  or a group).
\<close>

fun escapes and escapes_else where
  "escapes BreakStmt = True"
| "escapes ContStmt = True"
| "escapes (IfStmt c js oe) = (list_ex escapes js \<or> escapes_else oe)"
| "escapes _ = False"
| "escapes_else NoElse = False"
| "escapes_else (ElsePart js) = list_ex escapes js"
| "escapes_else (ElifPart c js oe) = (list_ex escapes js \<or> escapes_else oe)"

fun placed_neg and placed_cond and placed_else and placed where
  "placed_neg (PlainCL cl) = True"
| "placed_neg (NotCL c) = placed_neg c"
| "placed_neg (Subshell js) = (list_all placed js \<and> \<not> list_ex escapes js)"
| "placed_neg (Group js) = (list_all placed js \<and> \<not> list_ex escapes js)"
| "placed_neg (TimeCmd c) = placed_neg c"
| "placed_cond (CondSingle c) = placed_neg c"
| "placed_cond (CondAnd c cs) = (placed_neg c \<and> placed_cond cs)"
| "placed_cond (CondOr c cs) = (placed_neg c \<and> placed_cond cs)"
| "placed_else NoElse = True"
| "placed_else (ElsePart js) = list_all placed js"
| "placed_else (ElifPart c js oe) = (placed_cond c \<and> list_all placed js \<and> placed_else oe)"
| "placed (OneJobFG c) = placed_cond c"
| "placed (OneJobBG c) = placed_cond c"
| "placed (AssignJob a) = True"
| "placed (IfStmt c js oe) = (placed_cond c \<and> list_all placed js \<and> placed_else oe)"
| "placed (ForStmt x ws js) = list_all placed js"
| "placed (WhileStmt c js) = (placed_cond c \<and> list_all placed js)"
| "placed (UntilStmt c js) = (placed_cond c \<and> list_all placed js)"
| "placed BreakStmt = True"
| "placed ContStmt = True"

primrec placed_code :: "code \<Rightarrow> bool" where
  "placed_code (Neg c) = placed_neg c"
| "placed_code (Cond c) = placed_cond c"
| "placed_code (Else oe b) = placed_else oe"
| "placed_code (Job j) = placed j"
| "placed_code (Jobs js rc) = list_all placed js"
| "placed_code (Body js rc) = list_all placed js"
| "placed_code (For x ws js rc) = list_all placed js"
| "placed_code (While u c js rc) = (placed_cond c \<and> list_all placed js)"

definition escapes_code :: "code \<Rightarrow> bool" where
  "escapes_code c = (case c of Else oe b \<Rightarrow> escapes_else oe | Job j \<Rightarrow> escapes j
     | Jobs js rc \<Rightarrow> list_ex escapes js | Body js rc \<Rightarrow> list_ex escapes js | _ \<Rightarrow> False)"

text \<open>A signal as the flags show it.\<close>

definition raise_flag :: "signal \<Rightarrow> 'w sh \<Rightarrow> 'w sh" where
  "raise_flag sig s = (case sig of Go \<Rightarrow> s | Brk \<Rightarrow> s\<lparr>break_flag := True\<rparr> | Cnt \<Rightarrow> s\<lparr>continue_flag := True\<rparr>)"

definition as_flags :: "'w ref \<Rightarrow> 'w outcome" where
  "as_flags x = (case x of RDone rc sig s \<Rightarrow> Ok rc (raise_flag sig s) | RStop r \<Rightarrow> r)"

definition tidy :: "bool \<Rightarrow> 'w ref \<Rightarrow> bool" where
  "tidy esc x = (case x of
      RDone rc sig s \<Rightarrow> \<not> flagged s \<and> (sig = Go \<or> esc \<and> rc = 0)
    | RStop r \<Rightarrow> \<not> (\<exists>rc s. r = Ok rc s))"

definition meets :: "bool \<Rightarrow> 'w outcome \<Rightarrow> 'w ref \<Rightarrow> bool" where
  "meets esc r x \<longleftrightarrow> tidy esc x \<and> r = as_flags x"

lemma meets_Done: "meets esc r (RDone rc sig s) \<longleftrightarrow>
    \<not> flagged s \<and> (sig = Go \<or> esc \<and> rc = 0) \<and> r = Ok rc (raise_flag sig s)"
  by (simp add: meets_def tidy_def as_flags_def)

lemma meets_Stop: "meets esc r (RStop r') \<longleftrightarrow> r = r' \<and> \<not> (\<exists>rc s. r = Ok rc s)"
  by (auto simp: meets_def tidy_def as_flags_def)

lemma raise_Go [simp]: "raise_flag Go s = s"
  by (simp add: raise_flag_def)

lemma flagged_raise: "\<not> flagged s \<Longrightarrow> flagged (raise_flag sig s) \<longleftrightarrow> sig \<noteq> Go"
  by (cases sig) (auto simp: raise_flag_def flagged_def)

lemma lower_flags: "\<not> flagged s \<Longrightarrow> (raise_flag Brk s)\<lparr>break_flag := False\<rparr> = s"
  "\<not> flagged s \<Longrightarrow> sig \<noteq> Brk \<Longrightarrow> (raise_flag sig s)\<lparr>continue_flag := False\<rparr> = s"
  "\<not> flagged s \<Longrightarrow> break_flag (raise_flag sig s) \<longleftrightarrow> sig = Brk"
  by (cases s; cases sig; simp add: raise_flag_def flagged_def)+

lemma flagged_set_status [simp]: "flagged (set_status rc s) = flagged s"
  by (simp add: flagged_def set_status_def)

lemma flagged_for_var [simp]: "flagged (for_var x v s) = flagged s"
  by (simp add: flagged_def for_var_def)

text \<open>A guard keeps the flags clear, so that its result goes on without a signal.\<close>

definition clean :: "'w outcome \<Rightarrow> bool" where
  "clean r \<longleftrightarrow> (case r of Ok rc s \<Rightarrow> \<not> flagged s | _ \<Rightarrow> True)"

lemma clean_and_then: "clean r \<Longrightarrow> (\<And>rc s. r = Ok rc s \<Longrightarrow> \<not> flagged s \<Longrightarrow> clean (k rc s)) \<Longrightarrow> clean (and_then r k)"
  by (cases r) (auto simp: clean_def)

lemma clean_Ok [simp]: "clean (Ok rc s) \<longleftrightarrow> \<not> flagged s"
  by (simp add: clean_def)

lemma clean_run_line: "\<not> flagged s \<Longrightarrow> clean (run_line os bg cl s)"
  by (auto simp: run_line_def clean_def flagged_def split: sum.split prod.split exec_result.split)

lemma clean_assign_job: "\<not> flagged s \<Longrightarrow> clean (assign_job raw s)"
  by (auto simp: assign_job_def clean_def flagged_def split: sum.split prod.split option.split)

lemma clean_leave: "\<not> flagged s \<Longrightarrow> clean (leave_subshell os s r)"
  by (cases r) (auto simp: leave_subshell_def clean_def flagged_def)

lemma meets_guard: "clean r \<Longrightarrow> meets esc r (guard_then r (\<lambda>rc s. RDone rc Go s))"
  by (cases r) (auto simp: guard_then_def meets_Done meets_Stop clean_def)

lemma meets_clean: "meets False r x \<Longrightarrow> clean r"
  by (cases x; cases r) (auto simp: meets_Done meets_Stop clean_def)

lemma meets_esc: "meets esc r x \<Longrightarrow> esc \<longrightarrow> esc' \<Longrightarrow> meets esc' r x"
  by (auto simp: meets_def tidy_def split: ref.splits)

lemma meets_guard_then:
  "clean r \<Longrightarrow> (\<And>rc s. r = Ok rc s \<Longrightarrow> \<not> flagged s \<Longrightarrow> meets esc (k rc s) (g rc s)) \<Longrightarrow>
   meets esc (and_then r k) (guard_then r g)"
  by (cases r) (auto simp: guard_then_def meets_Stop)

lemma meets_ref_then:
  "meets esc r x \<Longrightarrow>
   (\<And>rc sig s. x = RDone rc sig s \<Longrightarrow> r = Ok rc (raise_flag sig s) \<Longrightarrow> \<not> flagged s \<Longrightarrow> (sig = Go \<or> esc \<and> rc = 0) \<Longrightarrow>
      meets esc' (k rc (raise_flag sig s)) (g rc sig s)) \<Longrightarrow>
   meets esc' (and_then r k) (ref_then x g)"
  by (cases x) (auto simp: meets_Done meets_Stop; cases r; simp)+

lemma frozen: "flagged s \<Longrightarrow> eval os n (Jobs js rc) s = Ok (if js = [] then rc else 0) s"
proof (induction js arbitrary: rc)
  case (Cons j js)
  then show ?case by simp
qed simp

lemma meets_neg: "clean (eval os n (Neg c) s) \<Longrightarrow> meets False (eval os n (Neg c) s) (sem os n (Neg c) s)"
  by (simp add: meets_guard)

lemma meets_cond: "clean (eval os n (Cond c) s) \<Longrightarrow> meets False (eval os n (Cond c) s) (sem os n (Cond c) s)"
  by (simp add: meets_guard)

lemma meets_Ok [simp]: "meets esc (Ok rc s) (RDone rc Go s) \<longleftrightarrow> \<not> flagged s"
  by (simp add: meets_Done)

lemma meets_return: "meets esc r x \<Longrightarrow> meets esc (and_then r (\<lambda>_ s. Ok 0 s)) (ref_then x (\<lambda>_ sig s. RDone 0 sig s))"
  by (erule meets_ref_then) (auto simp: meets_Done)

lemma meets_branch:
  assumes "clean (eval os n (Cond c) s)"
    "\<And>s1. \<not> flagged s1 \<Longrightarrow> eval os n (Cond c) s = Ok 0 s1 \<Longrightarrow> meets esc (eval os n (Jobs js 0) s1) (sem os n (Jobs js 0) s1)"
    "\<And>rc s1. \<not> flagged s1 \<Longrightarrow> rc \<noteq> 0 \<Longrightarrow> eval os n (Cond c) s = Ok rc s1 \<Longrightarrow> meets esc (eval os n (Else oe True) s1) (sem os n (Else oe True) s1)"
  shows "meets esc
    (and_then (eval os n (Cond c) s) (\<lambda>rc s1.
       and_then (if rc = 0 then eval os n (Jobs js 0) s1 else Ok 0 s1) (\<lambda>_ s2. eval os n (Else oe (rc \<noteq> 0)) s2)))
    (guard_then (eval os n (Cond c) s) (\<lambda>rc s1.
       if rc = 0 then ref_then (sem os n (Jobs js 0) s1) (\<lambda>_ sig s2. RDone 0 sig s2) else sem os n (Else oe True) s1))"
proof (rule meets_guard_then [OF assms(1)])
  fix rc s1 assume r: "eval os n (Cond c) s = Ok rc s1" "\<not> flagged s1"
  show "meets esc (and_then (if rc = 0 then eval os n (Jobs js 0) s1 else Ok 0 s1) (\<lambda>_ s2. eval os n (Else oe (rc \<noteq> 0)) s2))
      (if rc = 0 then ref_then (sem os n (Jobs js 0) s1) (\<lambda>_ sig s2. RDone 0 sig s2) else sem os n (Else oe True) s1)"
    using assms(2) [OF r(2)] assms(3) [OF r(2)] r(1) by (cases "rc = 0") (simp_all add: meets_return)
qed

lemma and_then_0: "and_then (and_then r k) (\<lambda>_ s. Ok 0 s) = and_then r (\<lambda>rc s. and_then (k rc s) (\<lambda>_ s. Ok 0 s))"
  by (cases r) simp_all

lemma eval_meets_sem:
  "placed_code c \<Longrightarrow> \<not> flagged s \<Longrightarrow> meets (escapes_code c) (eval os n c s) (sem os n c s)"
proof (induction os n c s rule: eval.induct)
  case (1 os n cl s)
  then have "clean (eval os n (Neg (PlainCL cl)) s)" by (simp add: eval_cmdline_def clean_run_line)
  then show ?case unfolding escapes_code_def code.case by (rule meets_neg)
next
  case (2 os n c s)
  have "clean (eval os n (Neg (NotCL c)) s)"
    using "2.IH" "2.prems" by (auto simp: escapes_code_def intro!: clean_and_then dest!: meets_clean)
  then show ?case unfolding escapes_code_def code.case by (rule meets_neg)
next
  case (3 os n js s)
  have "clean (eval os n (Neg (Subshell js)) s)"
    using "3.prems" by (auto simp: flagged_def intro!: clean_leave split: option.split prod.split)
  then show ?case unfolding escapes_code_def code.case by (rule meets_neg)
next
  case (4 os n js s)
  have "clean (eval os n (Neg (Group js)) s)"
    using "4.IH" "4.prems" by (auto simp: escapes_code_def dest!: meets_clean)
  then show ?case unfolding escapes_code_def code.case by (rule meets_neg)
next
  case (5 os n c s)
  have "clean (eval os n (Neg (TimeCmd c)) s)"
    using "5.IH" "5.prems" by (auto simp: escapes_code_def dest!: meets_clean)
  then show ?case unfolding escapes_code_def code.case by (rule meets_neg)
next
  case (6 os n c s)
  have "clean (eval os n (Cond (CondSingle c)) s)"
    using "6.IH" "6.prems" by (auto simp: escapes_code_def dest!: meets_clean)
  then show ?case unfolding escapes_code_def code.case by (rule meets_cond)
next
  case (7 os n c cs s)
  have "clean (eval os n (Cond (CondAnd c cs)) s)"
    using "7.IH" "7.prems" by (auto simp: escapes_code_def intro!: clean_and_then dest!: meets_clean)
  then show ?case unfolding escapes_code_def code.case by (rule meets_cond)
next
  case (8 os n c cs s)
  have "clean (eval os n (Cond (CondOr c cs)) s)"
    using "8.IH" "8.prems" by (auto simp: escapes_code_def intro!: clean_and_then dest!: meets_clean)
  then show ?case unfolding escapes_code_def code.case by (rule meets_cond)
next
  case (12 os n c js oe s)
  have "clean (eval os n (Cond c) s)" using "12.IH"(1) "12.prems" by (auto simp: escapes_code_def dest!: meets_clean)
  then show ?case
    using "12.IH"(2,3) "12.prems"
    by (simp add: escapes_code_def) (rule meets_branch; auto intro: meets_esc)
next
  case (13 os n j s)
  note nf = "13.prems"(2)
  show ?case
  proof (cases j)
    case (OneJobFG c)
    have "clean (eval os n (Cond c) s)"
      using "13.IH"(1) [OF nf OneJobFG] "13.prems" OneJobFG by (auto simp: escapes_code_def dest!: meets_clean)
    with nf OneJobFG show ?thesis
      by (simp add: escapes_code_def) (erule meets_guard_then, simp add: meets_Done)
  next
    case (OneJobBG c)
    have "clean (case plain_line c of Some cl \<Rightarrow> run_line os True cl s | None \<Rightarrow> eval os n (Cond c) s)"
      using "13.IH"(2) [OF nf OneJobBG] "13.prems" OneJobBG
      by (auto simp: escapes_code_def clean_run_line dest!: meets_clean split: option.split)
    with nf OneJobBG show ?thesis by (simp add: escapes_code_def meets_guard)
  next
    case (AssignJob raw)
    with nf show ?thesis by (simp add: escapes_code_def meets_guard clean_assign_job)
  next
    case (IfStmt c js oe)
    have cl: "clean (eval os n (Cond c) s)"
      using "13.IH"(3) [OF nf IfStmt] "13.prems" IfStmt by (auto simp: escapes_code_def dest!: meets_clean)
    show ?thesis
      using nf "13.prems" IfStmt "13.IH"(4,5) [OF nf IfStmt]
      apply (simp add: escapes_code_def)
      apply (rule meets_guard_then [OF cl])
      subgoal for rc s1
        by (cases "rc = 0") (auto intro!: meets_return intro: meets_esc)
      done
  next
    case (ForStmt x ws js)
    then show ?thesis
      using nf "13.prems" "13.IH"(6) [OF nf ForStmt] by (auto simp: escapes_code_def meets_Stop split: sum.split)
  next
    case (WhileStmt c js)
    then show ?thesis using nf "13.prems" "13.IH"(7) [OF nf WhileStmt] by (simp add: escapes_code_def)
  next
    case (UntilStmt c js)
    then show ?thesis using nf "13.prems" "13.IH"(8) [OF nf UntilStmt] by (simp add: escapes_code_def)
  qed (use nf in \<open>simp_all add: escapes_code_def meets_Done raise_flag_def\<close>)
next
  case (15 os n j js rc s)
  show ?case
    using "15.IH" "15.prems"
    apply (simp add: escapes_code_def)
    apply (rule meets_ref_then, assumption)
    apply (auto simp: meets_Done flagged_raise frozen intro: meets_esc)
    done
next
  case (17 os n j js ret s)
  show ?case
    using "17.IH" "17.prems"
    apply (simp add: escapes_code_def)
    apply (rule meets_ref_then, assumption)
    apply (auto simp: meets_Done flagged_raise intro: meets_esc)
    done
next
  case (19 os n name w ws js ret s)
  show ?case
  proof (cases "expand_and_unquote (env s) w")
    case (Inr val)
    show ?thesis
      using "19.IH" [OF Inr] "19.prems"
      apply (simp add: escapes_code_def Inr)
      apply (rule meets_ref_then, assumption)
      apply (auto simp: meets_Done lower_flags)
      done
  qed (simp add: escapes_code_def meets_Stop)
next
  case (21 os n neg c js ret s)
  have cl: "clean (eval os n (Cond c) s)"
    using "21.IH"(1) "21.prems" by (auto simp: escapes_code_def dest!: meets_clean)
  show ?case
    using "21.prems" "21.IH"(2,3)
    apply (simp add: escapes_code_def)
    apply (rule meets_guard_then [OF cl])
    subgoal for rc s1
      apply (cases "(rc = 0) = neg")
       apply simp
      apply simp
      apply (rule meets_ref_then, assumption)
      apply (auto simp: meets_Done lower_flags)
      done
    done
qed (auto simp: escapes_code_def meets_Stop)


text \<open>A signal outside of every loop is kept, and with it every later line does nothing.\<close>

lemma eval_lines_frozen: "flagged s \<Longrightarrow> last_status (env s) = 0 \<Longrightarrow> eval_lines os n asts s = Ok 0 s"
proof (induction asts)
  case (Cons ast asts)
  have "eval_input os n ast s = Ok 0 s" using frozen [OF Cons.prems(1), of os n ast 0] by (simp add: eval_input_def)
  moreover have "set_status 0 s = s" using Cons.prems(2) by (cases s) (simp add: set_status_def)
  ultimately show ?case using Cons by simp
qed simp

theorem stray_break_disables_shell:
  "eval_lines os n ([BreakStmt] # asts) (s\<lparr>continue_flag := False, break_flag := False\<rparr>)
     = Ok 0 (set_status 0 (s\<lparr>continue_flag := False, break_flag := True\<rparr>))"
  using eval_lines_frozen [of "set_status 0 (s\<lparr>continue_flag := False, break_flag := True\<rparr>)" os n asts]
  by (simp add: eval_input_def flagged_def set_status_def)

section \<open>Witnesses\<close>

text \<open>A system that runs nothing: \<open>false\<close> fails, everything else succeeds.\<close>

definition demo_sys :: "unit shell_os" where
  "demo_sys = os.extend demo_os \<lparr>exec = (\<lambda>cs e w. Ran (if map cmd_argv cs = [[''false'']] then 1 else 0) e w),
     reap_ps = (\<lambda>_ w. w), fork_child = (\<lambda>w. (None, w)), join_child = (\<lambda>_ w. w)\<rparr>"

definition demo_sh :: "unit sh" where
  "demo_sh = \<lparr>env = demo_shell, break_flag = False, continue_flag = False, world = ()\<rparr>"

definition demo_line :: "job_stmt list" where
  "demo_line = [ForStmt ''x'' [''a'', ''b''] [BreakStmt, AssignJob ''y=1'']]"


theorem loop_free_terminates_witness: "eval_input demo_sys 0 demo_line demo_sh \<noteq> Spin"
  by (rule loop_free_terminates) (simp add: demo_line_def)

theorem eval_more_fuel_witness: "eval_input demo_sys 5 demo_line demo_sh = eval_input demo_sys 0 demo_line demo_sh"
proof -
  have "eval_input demo_sys 0 demo_line demo_sh \<noteq> Spin"
    by (simp add: demo_line_def demo_sh_def flagged_def eval_input_def for_var_def expand_and_unquote_def
        expand_vars_def unquote_def cat_fit_def shell_defs)
  from eval_more_fuel [OF this, of 5] show ?thesis by simp
qed

end
