(* ===== verification/Exec.thy ===== *)
theory Exec
  imports Shell_Ast Job_Table Registry
begin

text \<open>
  Running the commands the walker built (\<^verbatim>\<open>aishell_main.c\<close>): \<open>execute_command\<close> with its
  redirections in the shell's own process, the dispatch of \<open>lsh_execute\<close> and \<open>lsh_launch\<close> over
  the job table, \<open>run_pipeline\<close> with its pipes. The descriptor table of a process is a list of
  fixed length: entry \<open>i\<close> is the open file behind descriptor \<open>i\<close>, \<open>None\<close> a free one; POSIX
  hands out the lowest free descriptor.
\<close>

section \<open>Descriptors\<close>

type_synonym 'f fds = "'f option list"

definition fd_open :: "'f \<Rightarrow> 'f fds \<Rightarrow> nat option \<times> 'f fds" where
  "fd_open f t = (case first_idx (\<lambda>e. e = None) t of
      None \<Rightarrow> (None, t) | Some i \<Rightarrow> (Some i, t[i := Some f]))"

definition fd_close :: "nat \<Rightarrow> 'f fds \<Rightarrow> 'f fds" where
  "fd_close i t = t[i := None]"

definition fd_dup :: "nat \<Rightarrow> 'f fds \<Rightarrow> nat option \<times> 'f fds" where
  "fd_dup i t = (case t ! i of None \<Rightarrow> (None, t) | Some f \<Rightarrow> fd_open f t)"

definition fd_dup2 :: "nat \<Rightarrow> nat \<Rightarrow> 'f fds \<Rightarrow> 'f fds" where
  "fd_dup2 i j t = t[j := t ! i]"

section \<open>\<open>execute_command\<close>\<close>

datatype 'f ofile = Old 'f | ReadFile cstring | WriteFile cstring bool | PipeRead nat | PipeWrite nat

text \<open>
  One redirection: \<open>open\<close>, save the standard descriptor with \<open>dup\<close>, \<open>dup2\<close>, \<open>close\<close>. The
  result is the saved descriptor (\<open>None\<close> is the code's -1).
\<close>

definition redirect :: "nat \<Rightarrow> nat \<Rightarrow> 'f ofile fds \<Rightarrow> nat option \<times> 'f ofile fds" where
  "redirect fd std t = (case fd_dup std t of (saved, t1) \<Rightarrow> (saved, fd_dup2 fd std t1))"

definition restore :: "nat option \<Rightarrow> nat \<Rightarrow> 'f ofile fds \<Rightarrow> 'f ofile fds" where
  "restore saved std t = (case saved of None \<Rightarrow> t | Some k \<Rightarrow> fd_close k (fd_dup2 k std t))"

definition open_file :: "(cstring \<Rightarrow> bool) \<Rightarrow> 'f ofile \<Rightarrow> cstring \<Rightarrow> 'f ofile fds \<Rightarrow> nat option \<times> 'f ofile fds" where
  "open_file may f path t = (if may path then fd_open f t else (None, t))"

text \<open>The redirections in order; \<open>Inl\<close> is the table after a failed one was undone.\<close>

definition redirect_err ::
  "(cstring \<Rightarrow> bool) \<Rightarrow> cmd \<Rightarrow> nat option \<Rightarrow> nat option \<Rightarrow> nat option \<Rightarrow> 'f ofile fds
     \<Rightarrow> 'f ofile fds + (nat option \<times> nat option \<times> nat option) \<times> 'f ofile fds" where
  "redirect_err may c sin sout serr t = (case stderr_file c of
      None \<Rightarrow> Inr ((sin, sout, serr), t)
    | Some p \<Rightarrow>
        (case open_file may (WriteFile p (stderr_append c)) p t of
           (None, t1) \<Rightarrow> Inl (restore sout 1 (restore sin 0 t1))
         | (Some fd, t1) \<Rightarrow>
             (case redirect fd 2 t1 of (serr1, t2) \<Rightarrow> Inr ((sin, sout, serr1), fd_close fd t2))))"

definition redirect_out ::
  "(cstring \<Rightarrow> bool) \<Rightarrow> cmd \<Rightarrow> nat option \<Rightarrow> 'f ofile fds
     \<Rightarrow> 'f ofile fds + (nat option \<times> nat option \<times> nat option) \<times> 'f ofile fds" where
  "redirect_out may c sin t = (case stdout_file c of
      None \<Rightarrow> redirect_err may c sin None None t
    | Some p \<Rightarrow>
        (case open_file may (WriteFile p (stdout_append c)) p t of
           (None, t1) \<Rightarrow> Inl (restore sin 0 t1)
         | (Some fd, t1) \<Rightarrow>
             (case redirect fd 1 t1 of (sout, t2) \<Rightarrow>
               if stderr_both c
               then (case redirect fd 2 t2 of (serr, t3) \<Rightarrow> redirect_err may c sin sout serr (fd_close fd t3))
               else redirect_err may c sin sout None (fd_close fd t2))))"

definition redirect_all ::
  "(cstring \<Rightarrow> bool) \<Rightarrow> cmd \<Rightarrow> 'f ofile fds
     \<Rightarrow> 'f ofile fds + (nat option \<times> nat option \<times> nat option) \<times> 'f ofile fds" where
  "redirect_all may c t = (case stdin_file c of
      None \<Rightarrow> redirect_out may c None t
    | Some p \<Rightarrow>
        (case open_file may (ReadFile p) p t of
           (None, t1) \<Rightarrow> Inl t1
         | (Some fd, t1) \<Rightarrow>
             (case redirect fd 0 t1 of (sin, t2) \<Rightarrow> redirect_out may c sin (fd_close fd t2))))"

text \<open>
  The whole function: exit code, prompt, descriptors. \<open>in_process\<close> says that the name is in the
  built-in table or the registry; \<open>run\<close> is \<open>lsh_execute\<close>.
\<close>

definition execute_command ::
  "(cstring \<Rightarrow> bool) \<Rightarrow> (cstring \<Rightarrow> bool) \<Rightarrow> ('f ofile fds \<Rightarrow> int \<times> 'f ofile fds) \<Rightarrow> cmd \<Rightarrow> cstring
     \<Rightarrow> 'f ofile fds \<Rightarrow> int \<times> cstring \<times> 'f ofile fds" where
  "execute_command in_process may run c prompt t =
     (if cmd_argv c = [] then (0, prompt, t)
      else if hd (cmd_argv c) = ''prompt''
      then (0, if 1 < length (cmd_argv c) then fit 256 (cmd_argv c ! 1 @ '' '') else prompt, t)
      else if in_process (cmd_basename (hd (cmd_argv c)))
      then (case redirect_all may c t of
              Inl t1 \<Rightarrow> (1, prompt, t1)
            | Inr ((sin, sout, serr), t1) \<Rightarrow>
                (case run t1 of (rc, t2) \<Rightarrow> (rc, prompt, restore serr 2 (restore sout 1 (restore sin 0 t2)))))
      else (case run t of (rc, t1) \<Rightarrow> (rc, prompt, t1)))"

text \<open>
  The same redirections in a forked child, which never puts anything back: \<open>Inl\<close> is the exit code
  of a child whose file cannot be opened.
\<close>

definition child_open :: "(cstring \<Rightarrow> bool) \<Rightarrow> cstring option \<Rightarrow> (cstring \<Rightarrow> 'f ofile) \<Rightarrow> nat list \<Rightarrow> 'f ofile fds \<Rightarrow> int + 'f ofile fds" where
  "child_open may p f stds t = (case p of
      None \<Rightarrow> Inr t
    | Some path \<Rightarrow>
        (case open_file may (f path) path t of
           (None, t1) \<Rightarrow> Inl 1
         | (Some fd, t1) \<Rightarrow> Inr (fd_close fd (fold (fd_dup2 fd) stds t1))))"

definition child_redirects :: "(cstring \<Rightarrow> bool) \<Rightarrow> cmd \<Rightarrow> 'f ofile fds \<Rightarrow> int + 'f ofile fds" where
  "child_redirects may c t =
     (case child_open may (stdin_file c) ReadFile [0] t of
        Inl e \<Rightarrow> Inl e
      | Inr t1 \<Rightarrow>
          (case child_open may (stdout_file c) (\<lambda>p. WriteFile p (stdout_append c))
                  (if stderr_both c then [1, 2] else [1]) t1 of
             Inl e \<Rightarrow> Inl e
           | Inr t2 \<Rightarrow> child_open may (stderr_file c) (\<lambda>p. WriteFile p (stderr_append c)) [2] t2))"

section \<open>The descriptors after a command\<close>

definition free :: "'f fds \<Rightarrow> nat" where
  "free t = length (filter (\<lambda>e. e = None) t)"

definition std_open :: "'f fds \<Rightarrow> bool" where
  "std_open t \<longleftrightarrow> 3 \<le> length t \<and> (\<forall>i<3. t ! i \<noteq> None)"

lemma free_fill: "i < length t \<Longrightarrow> t ! i = None \<Longrightarrow> Suc (free (t[i := Some f])) = free t"
  by (induction t arbitrary: i) (auto simp: free_def nth_Cons split: nat.splits)

lemma free_clear: "i < length t \<Longrightarrow> t ! i \<noteq> None \<Longrightarrow> free (t[i := None]) = Suc (free t)"
  by (induction t arbitrary: i) (auto simp: free_def nth_Cons split: nat.splits)

lemma free_replace: "i < length t \<Longrightarrow> t ! i \<noteq> None \<Longrightarrow> free (t[i := Some f]) = free t"
  by (induction t arbitrary: i) (auto simp: free_def nth_Cons split: nat.splits)

lemma free_pos: "0 < free t \<Longrightarrow> \<exists>e\<in>set t. e = None"
  by (auto simp: free_def filter_empty_conv)

lemma clear_free: "t ! i = None \<Longrightarrow> t[i := None] = t"
  by (metis list_update_id)

lemma fill_and_clear: "t ! i = None \<Longrightarrow> i \<noteq> j \<Longrightarrow> t[i := x, j := y, i := None] = t[j := y]"
  by (simp add: list_update_swap clear_free)

text \<open>With a free entry, \<open>fd_open\<close> takes one, which is not a standard descriptor.\<close>

lemma fd_open_ok:
  assumes "0 < free t" "std_open t"
  obtains i where "fd_open f t = (Some i, t[i := Some f])" "3 \<le> i" "i < length t" "t ! i = None"
proof -
  obtain i where i: "first_idx (\<lambda>e. e = None) t = Some i"
    using free_pos [OF assms(1)] first_idx_None [of "\<lambda>e. e = None" t] by (cases "first_idx (\<lambda>e. e = None) t") auto
  from first_idx_Some [OF i] have "i < length t" "t ! i = None" by simp_all
  with assms(2) have "3 \<le> i" by (auto simp: std_open_def not_less [symmetric])
  with that i \<open>i < length t\<close> \<open>t ! i = None\<close> show thesis by (simp add: fd_open_def)
qed

text \<open>
  \<open>cur\<close> is \<open>t\<close> with redirections: each pair of \<open>S\<close> is a standard descriptor and the entry,
  free in \<open>t\<close>, where its file is saved; \<open>X\<close> are scratch entries.
\<close>

definition redirected :: "'f fds \<Rightarrow> (nat \<times> nat) list \<Rightarrow> nat list \<Rightarrow> 'f fds \<Rightarrow> bool" where
  "redirected t S X cur \<longleftrightarrow> length cur = length t \<and> distinct (map fst S) \<and> distinct (map snd S @ X)
     \<and> std_open cur
     \<and> (\<forall>(std, k)\<in>set S. std < 3 \<and> 3 \<le> k \<and> k < length t \<and> t ! k = None \<and> cur ! k = t ! std \<and> cur ! k \<noteq> None)
     \<and> (\<forall>i\<in>set X. 3 \<le> i \<and> i < length t \<and> t ! i = None \<and> cur ! i \<noteq> None)
     \<and> (\<forall>j<length t. j \<notin> fst ` set S \<and> j \<notin> snd ` set S \<and> j \<notin> set X \<longrightarrow> cur ! j = t ! j)"

lemma redirected_Nil: "redirected t [] [] cur \<longleftrightarrow> cur = t \<and> std_open t"
proof
  assume r: "redirected t [] [] cur"
  then have "cur = t" by (intro nth_equalityI) (auto simp: redirected_def)
  with r show "cur = t \<and> std_open t" by (simp add: redirected_def)
qed (simp add: redirected_def)

lemma redirected_fresh:
  "redirected t S X cur \<Longrightarrow> k < length cur \<Longrightarrow> 3 \<le> k \<Longrightarrow> cur ! k = None \<Longrightarrow> k \<notin> snd ` set S \<and> k \<notin> set X \<and> t ! k = None"
  by (fastforce simp: redirected_def)

lemma std_open_upd: "std_open t \<Longrightarrow> f \<noteq> None \<or> 3 \<le> i \<Longrightarrow> std_open (t[i := f])"
  by (cases "i < length t") (auto simp: std_open_def nth_list_update list_update_beyond)

lemma open_redirected:
  assumes "redirected t S X cur" "0 < free cur"
  obtains i where "fd_open f cur = (Some i, cur[i := Some f])" "redirected t S (i # X) (cur[i := Some f])"
    "Suc (free (cur[i := Some f])) = free cur"
proof -
  from assms have "std_open cur" by (simp add: redirected_def)
  from fd_open_ok [OF assms(2) this] obtain i where i: "fd_open f cur = (Some i, cur[i := Some f])" "3 \<le> i"
    "i < length cur" "cur ! i = None" by blast
  have fr: "i \<notin> snd ` set S" "i \<notin> set X" "t ! i = None" using redirected_fresh [OF assms(1) i(3,2,4)] by auto
  have "redirected t S (i # X) (cur[i := Some f])"
    using assms(1) i fr std_open_upd [of cur "Some f" i] by (fastforce simp: redirected_def nth_list_update)
  with that i free_fill [OF i(3,4)] show thesis by blast
qed

lemma redirect_redirected:
  assumes "redirected t S X cur" "i \<in> set X" "0 < free cur" "std < 3" "std \<notin> fst ` set S"
  obtains k cur' where "redirect i std cur = (Some k, cur')" "redirected t (S @ [(std, k)]) X cur'"
    "Suc (free cur') = free cur"
proof -
  from assms have so: "std_open cur" by (simp add: redirected_def)
  then obtain g where g: "cur ! std = Some g" using assms(4) by (auto simp: std_open_def)
  from fd_open_ok [OF assms(3) so] obtain k where k: "fd_open g cur = (Some k, cur[k := Some g])" "3 \<le> k"
    "k < length cur" "cur ! k = None" by blast
  have fr: "k \<notin> snd ` set S" "k \<notin> set X" "k \<noteq> i" "t ! k = None"
    using redirected_fresh [OF assms(1) k(3,2,4)] assms(2) by auto
  obtain h where h: "cur ! i = Some h" "3 \<le> i" "i < length cur" using assms(1,2) by (auto simp: redirected_def)
  let ?c = "cur[k := Some g, std := Some h]"
  have r: "redirect i std cur = (Some k, ?c)"
    using g k(1) h fr(3) by (simp add: redirect_def fd_dup_def fd_dup2_def)
  have std: "std \<notin> snd ` set S" "std \<notin> set X" "std \<noteq> k" "std < length cur"
    using assms(1,4) h k so by (fastforce simp: redirected_def std_open_def)+
  have t: "t ! std = Some g"
    using assms(1,5) std g by (auto simp: redirected_def)
  have "std_open ?c" using so k(2) by (intro std_open_upd) auto
  moreover have "distinct (map fst (S @ [(std, k)]))" "distinct (map snd (S @ [(std, k)]) @ X)"
    using assms(1,5) fr by (auto simp: redirected_def)
  moreover have "std' < 3 \<and> 3 \<le> k' \<and> k' < length t \<and> t ! k' = None \<and> ?c ! k' = t ! std' \<and> ?c ! k' \<noteq> None"
    if "(std', k') \<in> set (S @ [(std, k)])" for std' k'
  proof (cases "(std', k') \<in> set S")
    case True
    then have "k' \<noteq> k" "k' \<noteq> std" using fr std by force+
    with True assms(1) show ?thesis by (auto simp: redirected_def)
  next
    case False
    with that have "std' = std" "k' = k" by auto
    with assms(1,4) k fr std t g show ?thesis by (auto simp: redirected_def)
  qed
  moreover have "?c ! j = t ! j" if "j < length t" "j \<notin> fst ` set (S @ [(std, k)])" "j \<notin> snd ` set (S @ [(std, k)])"
    "j \<notin> set X" for j
    using assms(1) that by (auto simp: redirected_def)
  moreover have "3 \<le> j \<and> j < length t \<and> t ! j = None \<and> ?c ! j \<noteq> None" if "j \<in> set X" for j
  proof -
    from that fr std have "j \<noteq> k" "j \<noteq> std" by auto
    with that assms(1) show ?thesis by (auto simp: redirected_def)
  qed
  moreover have "length ?c = length t" using assms(1) by (simp add: redirected_def)
  ultimately have "redirected t (S @ [(std, k)]) X ?c"
    unfolding redirected_def by (intro conjI) auto
  moreover have "Suc (free ?c) = free cur"
    using free_fill [OF k(3,4), of g] free_replace [of std "cur[k := Some g]" h] std g by simp
  ultimately show thesis using that r by blast
qed

lemma close_redirected:
  assumes "redirected t S X cur" "i \<in> set X"
  shows "redirected t S (remove1 i X) (fd_close i cur)" "free (fd_close i cur) = Suc (free cur)"
proof -
  have i: "i < length cur" "cur ! i \<noteq> None" "3 \<le> i" "i \<notin> snd ` set S" "t ! i = None"
    using assms by (auto simp: redirected_def)
  show "free (fd_close i cur) = Suc (free cur)" using free_clear [OF i(1,2)] by (simp add: fd_close_def)
  have "std_open (cur[i := None])" using assms i(3) by (intro std_open_upd) (auto simp: redirected_def)
  moreover have "cur[i := None] ! k = cur ! k" if "(std, k) \<in> set S" for std k
  proof -
    from that have "k \<in> snd ` set S" by force
    with i(4) show ?thesis by (metis nth_list_update_neq)
  qed
  moreover have "cur[i := None] ! j = t ! j"
    if "j < length t" "j \<notin> fst ` set S" "j \<notin> snd ` set S" "j \<notin> set (remove1 i X)" for j
    using assms that i(1,5) by (cases "j = i") (auto simp: redirected_def)
  moreover have "distinct (map snd S @ remove1 i X)" "set (remove1 i X) = set X - {i}"
    using assms by (auto simp: redirected_def dest: notin_set_remove1)
  ultimately show "redirected t S (remove1 i X) (fd_close i cur)"
    using assms unfolding redirected_def fd_close_def by (intro conjI) auto
qed

lemma restore_redirected:
  assumes "redirected t ((std, k) # S) X cur"
  shows "redirected t S X (restore (Some k) std cur)"
proof -
  have k: "std < 3" "3 \<le> k" "k < length t" "t ! k = None" "cur ! k = t ! std" "cur ! k \<noteq> None" "length cur = length t"
    "std \<notin> fst ` set S" "k \<notin> snd ` set S" "std_open cur" "k \<notin> set X" "std \<notin> set X"
    using assms by (auto simp: redirected_def)
  have "std_open (cur[std := cur ! k, k := None])" using k by (intro std_open_upd) auto
  moreover have "std \<notin> snd ` set S" using assms k(1) by (fastforce simp: redirected_def)
  moreover have "std < length t" using k by simp
  moreover have "cur[std := cur ! k, k := None] ! k' = cur ! k'" if "(std', k') \<in> set S" for std' k'
  proof -
    have "k' \<in> snd ` set S" using that by force
    with k(9) \<open>std \<notin> snd ` set S\<close> show ?thesis by (metis nth_list_update_neq)
  qed
  moreover have "cur[std := cur ! k, k := None] ! j = t ! j" if "j < length t" "j \<notin> fst ` set S" "j \<notin> snd ` set S" "j \<notin> set X" for j
    using assms that k by (cases "j = k"; cases "j = std") (auto simp: redirected_def)
  moreover have "cur[std := cur ! k, k := None] ! j = cur ! j" if "j \<in> set X" for j
    using that k by (metis nth_list_update_neq)
  ultimately show ?thesis
    using assms k unfolding redirected_def restore_def fd_close_def fd_dup2_def option.case
    by (intro conjI) auto
qed

text \<open>The saved descriptors of a redirected command, in the order they are put back.\<close>

fun saved :: "nat option \<Rightarrow> nat \<Rightarrow> (nat \<times> nat) list" where
  "saved None std = []"
| "saved (Some k) std = [(std, k)]"

definition undoes :: "'f ofile fds \<Rightarrow> 'f ofile fds + (nat option \<times> nat option \<times> nat option) \<times> 'f ofile fds \<Rightarrow> bool" where
  "undoes t r \<longleftrightarrow> (case r of Inl t1 \<Rightarrow> t1 = t
     | Inr ((sin, sout, serr), t1) \<Rightarrow> redirected t (saved sin 0 @ saved sout 1 @ saved serr 2) [] t1)"

lemma restore_saved:
  "redirected t (saved s std @ S) X cur \<Longrightarrow> redirected t S X (restore s std cur)"
  by (cases s) (auto simp: restore_def dest: restore_redirected)

lemma restore_all:
  assumes "redirected t (saved sin 0 @ saved sout 1 @ saved serr 2) [] cur"
  shows "restore serr 2 (restore sout 1 (restore sin 0 cur)) = t"
  using restore_saved [of t serr 2 "[]" "[]", simplified, OF restore_saved, OF restore_saved, OF assms]
  by (simp add: redirected_Nil)

lemma restore_two:
  assumes "redirected t (saved sin 0 @ saved sout 1) [] cur"
  shows "restore sout 1 (restore sin 0 cur) = t"
  using restore_all [of t sin sout None] assms by (simp add: restore_def)

lemma restore_one:
  assumes "redirected t (saved sin 0) [] cur"
  shows "restore sin 0 cur = t"
  using restore_two [of t sin None] assms by (simp add: restore_def)

lemma std_lt: "(0::nat) < 3" "(1::nat) < 3" "(2::nat) < 3"
  by simp_all

text \<open>Opening a file and moving it onto a standard descriptor costs one entry.\<close>

lemma open_and_redirect:
  assumes "redirected t S [] cur" "2 \<le> free cur" "std < 3" "std \<notin> fst ` set S"
  obtains fd t1 k t2 where "fd_open f cur = (Some fd, t1)" "redirect fd std t1 = (Some k, t2)"
    "redirected t (S @ [(std, k)]) [fd] t2" "free cur \<le> free t2 + 2"
proof -
  have "0 < free cur" using assms(2) by simp
  from open_redirected [OF assms(1) this, of f] obtain fd where
    o: "fd_open f cur = (Some fd, cur[fd := Some f])" "redirected t S [fd] (cur[fd := Some f])"
    "Suc (free (cur[fd := Some f])) = free cur" by blast
  then have "0 < free (cur[fd := Some f])" using assms(2) by simp
  from redirect_redirected [OF o(2) list.set_intros(1) this assms(3,4)] obtain k t2 where
    "redirect fd std (cur[fd := Some f]) = (Some k, t2)" "redirected t (S @ [(std, k)]) [fd] t2"
    "Suc (free t2) = free (cur[fd := Some f])" by blast
  with that o show thesis by (metis Suc_le_eq add_2_eq_Suc' eq_imp_le)
qed

lemma fst_saved [simp]: "fst ` set (saved s std) = (if s = None then {} else {std})"
  by (cases s) auto

lemma redirect_err_undoes:
  assumes "redirected t (saved sin 0 @ saved sout 1 @ saved serr 2) [] cur" "2 \<le> free cur"
    "stderr_file c \<noteq> None \<Longrightarrow> serr = None"
  shows "undoes t (redirect_err may c sin sout serr cur)"
proof (cases "stderr_file c")
  case None
  with assms(1) show ?thesis by (simp add: redirect_err_def undoes_def)
next
  case (Some p)
  with assms have r: "redirected t (saved sin 0 @ saved sout 1) [] cur" by simp
  have std: "2 \<notin> fst ` set (saved sin 0 @ saved sout 1)" by (simp add: image_Un)
  from open_and_redirect [OF r assms(2) std_lt(3) std, of "WriteFile p (stderr_append c)"] obtain fd t1 k t2 where
    o: "fd_open (WriteFile p (stderr_append c)) cur = (Some fd, t1)" "redirect fd 2 t1 = (Some k, t2)"
    "redirected t ((saved sin 0 @ saved sout 1) @ [(2, k)]) [fd] t2" "free cur \<le> free t2 + 2" by metis
  from close_redirected(1) [OF o(3), of fd] restore_two [OF r] o Some show ?thesis
    by (simp add: redirect_err_def open_file_def undoes_def)
qed

lemma redirect_out_undoes:
  assumes "redirected t (saved sin 0) [] cur" "3 \<le> free cur" "stderr_both c \<Longrightarrow> stderr_file c = None"
  shows "undoes t (redirect_out may c sin cur)"
proof (cases "stdout_file c")
  case None
  with redirect_err_undoes [of t sin None None cur c may] assms show ?thesis by (simp add: redirect_out_def)
next
  case (Some p)
  have "2 \<le> free cur" "1 \<notin> fst ` set (saved sin 0)" using assms(2) by simp_all
  from open_and_redirect [OF assms(1) this(1) std_lt(2) this(2), of "WriteFile p (stdout_append c)"] obtain fd t1 k t2 where
    o: "fd_open (WriteFile p (stdout_append c)) cur = (Some fd, t1)" "redirect fd 1 t1 = (Some k, t2)"
    "redirected t (saved sin 0 @ [(1, k)]) [fd] t2" "free cur \<le> free t2 + 2" by blast
  show ?thesis
  proof (cases "stderr_both c")
    case True
    have "0 < free t2" using o(4) assms(2) by simp
    moreover have "2 \<notin> fst ` set (saved sin 0 @ [(1, k)])" by (simp add: image_Un)
    ultimately obtain k2 t3 where
      e: "redirect fd 2 t2 = (Some k2, t3)" "redirected t ((saved sin 0 @ [(1, k)]) @ [(2, k2)]) [fd] t3"
      using redirect_redirected [OF o(3) _ _ std_lt(3)] by (metis list.set_intros(1))
    have "undoes t (redirect_err may c sin (Some k) (Some k2) (fd_close fd t3))"
      using close_redirected(1) [OF e(2), of fd] assms(3) [OF True] by (simp add: redirect_err_def undoes_def)
    with o e Some True show ?thesis
      using restore_one [OF assms(1)] by (simp add: redirect_out_def open_file_def undoes_def)
  next
    case False
    have "undoes t (redirect_err may c sin (Some k) None (fd_close fd t2))"
      using close_redirected [OF o(3), of fd] o(4) assms(2) by (intro redirect_err_undoes) simp_all
    with o Some False restore_one [OF assms(1)] show ?thesis
      by (simp add: redirect_out_def open_file_def undoes_def)
  qed
qed

lemma redirect_all_undoes:
  assumes "std_open t" "4 \<le> free t" "stderr_both c \<Longrightarrow> stderr_file c = None"
  shows "undoes t (redirect_all may c t)"
proof (cases "stdin_file c")
  case None
  with redirect_out_undoes [of t None t c may] assms show ?thesis by (simp add: redirect_all_def redirected_Nil)
next
  case (Some p)
  have r: "redirected t [] [] t" using assms(1) by (simp add: redirected_Nil)
  have "2 \<le> free t" "0 \<notin> fst ` set []" using assms(2) by simp_all
  from open_and_redirect [OF r this(1) std_lt(1) this(2), of "ReadFile p"] obtain fd t1 k t2 where
    o: "fd_open (ReadFile p) t = (Some fd, t1)" "redirect fd 0 t1 = (Some k, t2)"
    "redirected t ([] @ [(0, k)]) [fd] t2" "free t \<le> free t2 + 2" by blast
  have "undoes t (redirect_out may c (Some k) (fd_close fd t2))"
    using close_redirected [OF o(3), of fd] o(4) assms(2,3) by (intro redirect_out_undoes) simp_all
  with o Some show ?thesis by (simp add: redirect_all_def open_file_def undoes_def)
qed


definition demo_cmd :: cmd where
  "demo_cmd = \<lparr>cmd_argv = [''pwd''], stdin_file = Some ''in'', stdout_file = Some ''o'', stdout_append = False,
     stderr_file = None, stderr_append = False, stderr_both = True, background = False, pipe_next = False,
     ps_procs = []\<rparr>"

definition demo_fds :: "nat ofile fds" where
  "demo_fds = map Some [Old 0, Old 1, Old 2] @ replicate 5 None"

lemma demo_fds_ok: "std_open demo_fds" "4 \<le> free demo_fds"
  by (auto simp: std_open_def free_def demo_fds_def numeral_3_eq_3 less_Suc_eq)

lemma demo_cmd_ok: "cmd_ok demo_cmd"
  by (simp add: cmd_ok_def demo_cmd_def BNFC_MAX_ARGS_def)


text \<open>
  With a single free entry \<open>dup\<close> fails after \<open>open\<close> succeeded: the standard output stays on the
  file after the command.
\<close>

lemma exhausted_descriptors_lose_stdout:
  assumes "std_open t" "free t = 1" "may p" "cmd_argv c \<noteq> []" "hd (cmd_argv c) \<noteq> ''prompt''"
    "in_process (cmd_basename (hd (cmd_argv c)))" "stdin_file c = None" "stdout_file c = Some p" "stderr_file c = None"
    "\<not> stderr_both c" "\<And>u. snd (run u) = u"
  shows "snd (snd (execute_command in_process may run c prompt t)) = t[1 := Some (WriteFile p (stdout_append c))]"
proof -
  let ?f = "WriteFile p (stdout_append c)"
  have "0 < free t" using assms(2) by simp
  from fd_open_ok [OF this assms(1), of ?f] obtain i where
    i: "fd_open ?f t = (Some i, t[i := Some ?f])" "3 \<le> i" "i < length t" "t ! i = None" by blast
  have "free (t[i := Some ?f]) = 0" using free_fill [OF i(3,4), of ?f] assms(2) by simp
  then have "first_idx (\<lambda>e. e = None) (t[i := Some ?f]) = None"
    by (auto simp: first_idx_None free_def filter_empty_conv)
  then have "fd_dup 1 (t[i := Some ?f]) = (None, t[i := Some ?f])"
    by (simp add: fd_dup_def fd_open_def split: option.split)
  with i have "redirect_all may c t = Inr ((None, None, None), t[1 := Some ?f])"
    using assms(3,7-10)
    by (simp add: redirect_all_def redirect_out_def redirect_err_def open_file_def redirect_def fd_dup2_def
        fd_close_def fill_and_clear)
  with assms show ?thesis by (simp add: execute_command_def restore_def case_prod_beta)
qed

section \<open>In the shell or in a child\<close>

definition std_view :: "'f fds \<Rightarrow> 'f fds" where
  "std_view t = take 3 t"

lemma std_view_upd [simp]:
  "std_view (t[i := x]) = (if i < 3 then (std_view t)[i := x] else std_view t)"
  by (simp add: std_view_def take_update_swap list_update_beyond)

lemma child_open_view:
  assumes "std_open t" "0 < free t" "\<forall>i\<in>set stds. i < 3"
  shows "child_open may p f stds t = (case p of None \<Rightarrow> Inr t | Some path \<Rightarrow>
    if may path then Inr (fold (\<lambda>i t. t[i := Some (f path)]) stds t) else Inl 1)"
proof (cases p)
  case (Some path)
  from fd_open_ok [OF assms(2,1), of "f path"] obtain i where
    i: "fd_open (f path) t = (Some i, t[i := Some (f path)])" "3 \<le> i" "i < length t" "t ! i = None" by blast
  have "fold (fd_dup2 i) stds u = fold (\<lambda>j t. t[j := Some (f path)]) stds u"
    if "u ! i = Some (f path)" for u
    using assms(3) that i(2)
    by (induction stds arbitrary: u) (auto simp: fd_dup2_def)
  moreover have "(fold (\<lambda>j t. t[j := Some (f path)]) stds (u[i := x]))[i := None] = (fold (\<lambda>j t. t[j := Some (f path)]) stds u)[i := None]" for u x
    using assms(3) i(2)
    by (induction stds arbitrary: u) (auto simp: list_update_swap [of i])
  moreover have "(fold (\<lambda>j t. t[j := Some (f path)]) stds u)[i := None] = fold (\<lambda>j t. t[j := Some (f path)]) stds u"
    if "u ! i = None" for u
    using assms(3) i(2) that
    by (induction stds arbitrary: u) (auto simp: clear_free)
  ultimately show ?thesis using Some i by (simp add: child_open_def open_file_def fd_close_def)
qed (simp add: child_open_def)

lemma redirect_view:
  assumes "fd_open f cur = (Some fd, cur[fd := Some f])" "3 \<le> fd" "fd < length cur" "redirect fd std t1 = (s, t2)"
    "std_open t1" "std < 3" "t1 ! fd = Some f"
  shows "std_view t2 = (std_view t1)[std := Some f]"
proof -
  obtain g where g: "t1 ! std = Some g" using assms(5,6) by (auto simp: std_open_def)
  show ?thesis
  proof (cases "first_idx (\<lambda>e. e = None) t1")
    case None
    with assms g show ?thesis by (auto simp: redirect_def fd_dup_def fd_open_def fd_dup2_def)
  next
    case (Some k)
    from first_idx_Some [OF Some] assms(5,7) have "k \<noteq> fd" "3 \<le> k"
      by (auto simp: std_open_def not_less [symmetric])
    with assms g Some show ?thesis by (auto simp: redirect_def fd_dup_def fd_open_def fd_dup2_def)
  qed
qed

lemma moved_view:
  assumes "fd_open f cur = (Some fd, t1)" "redirect fd std t1 = (s, t2)" "std_open cur" "std < 3"
  shows "std_view t2 = (std_view cur)[std := Some f]"
proof -
  from assms(1) obtain "first_idx (\<lambda>e. e = None) cur = Some fd" "t1 = cur[fd := Some f]"
    by (auto simp: fd_open_def split: option.splits)
  with first_idx_Some [of "\<lambda>e. e = None" cur fd] assms(3) have fd: "3 \<le> fd" "fd < length cur" "t1 = cur[fd := Some f]"
    by (auto simp: std_open_def not_less [symmetric])
  from redirect_view [of f cur fd std t1 s t2] assms fd show ?thesis
    by (simp add: std_open_upd)
qed

lemma close_view: "redirected t S X cur \<Longrightarrow> i \<in> set X \<Longrightarrow> std_view (fd_close i cur) = std_view cur"
  by (auto simp: redirected_def fd_close_def)

definition same_view :: "int + 'f fds \<Rightarrow> 'f fds + 'b \<times> 'f fds \<Rightarrow> bool" where
  "same_view r1 r2 \<longleftrightarrow> (case (r1, r2) of
      (Inl e, Inl t) \<Rightarrow> e = 1
    | (Inr u, Inr (s, t)) \<Rightarrow> std_view u = std_view t
    | _ \<Rightarrow> False)"

lemma redirect_err_view:
  assumes "redirected t (saved sin 0 @ saved sout 1) [] cur" "2 \<le> free cur" "std_open u" "0 < free u"
    "std_view u = std_view cur"
  shows "same_view (child_open may (stderr_file c) (\<lambda>p. WriteFile p (stderr_append c)) [2] u)
    (redirect_err may c sin sout serr cur)"
proof (cases "stderr_file c")
  case None
  with assms show ?thesis by (simp add: child_open_def redirect_err_def same_view_def)
next
  case (Some p)
  have std: "2 \<notin> fst ` set (saved sin 0 @ saved sout 1)" by (simp add: image_Un)
  from open_and_redirect [OF assms(1,2) std_lt(3) std, of "WriteFile p (stderr_append c)"] obtain fd t1 k t2 where
    o: "fd_open (WriteFile p (stderr_append c)) cur = (Some fd, t1)" "redirect fd 2 t1 = (Some k, t2)"
    "redirected t ((saved sin 0 @ saved sout 1) @ [(2, k)]) [fd] t2" "free cur \<le> free t2 + 2" by metis
  have "std_view (fd_close fd t2) = (std_view cur)[2 := Some (WriteFile p (stderr_append c))]"
    using moved_view [OF o(1,2)] close_view [OF o(3)] assms(1) by (simp add: redirected_def)
  with o Some assms show ?thesis
    by (simp add: child_open_view redirect_err_def open_file_def same_view_def)
qed

lemma saved_weaken: "redirected t (saved sin 0) [] cur \<Longrightarrow> redirected t (saved sin 0 @ saved None 1) [] cur"
  by simp

lemma fold_std_open: "std_open t \<Longrightarrow> std_open (fold (\<lambda>i t. t[i := Some f]) stds t)"
  by (induction stds arbitrary: t) (auto intro: std_open_upd)

lemma fold_free: "std_open t \<Longrightarrow> \<forall>i\<in>set stds. i < 3 \<Longrightarrow> free (fold (\<lambda>i t. t[i := Some f]) stds t) = free t"
proof (induction stds arbitrary: t)
  case (Cons a stds)
  then have "a < length t" "t ! a \<noteq> None" by (auto simp: std_open_def)
  with Cons free_replace [of a t f] show ?case by (simp add: std_open_upd)
qed simp

lemma redirect_out_view:
  assumes "redirected t (saved sin 0) [] cur" "3 \<le> free cur" "std_open u" "0 < free u"
    "std_view u = std_view cur" "stderr_both c \<Longrightarrow> stderr_file c = None"
  shows "same_view (case child_open may (stdout_file c) (\<lambda>p. WriteFile p (stdout_append c))
                  (if stderr_both c then [1, 2] else [1]) u of
             Inl e \<Rightarrow> Inl e
           | Inr t2 \<Rightarrow> child_open may (stderr_file c) (\<lambda>p. WriteFile p (stderr_append c)) [2] t2)
    (redirect_out may c sin cur)"
proof (cases "stdout_file c")
  case None
  with redirect_err_view [OF saved_weaken [OF assms(1)] _ assms(3-5), of may c] assms(2) show ?thesis
    by (simp add: redirect_out_def child_open_def)
next
  case (Some p)
  let ?f = "WriteFile p (stdout_append c)"
  have "2 \<le> free cur" "1 \<notin> fst ` set (saved sin 0)" using assms(2) by simp_all
  from open_and_redirect [OF assms(1) this(1) std_lt(2) this(2), of ?f] obtain fd t1 k t2 where
    o: "fd_open ?f cur = (Some fd, t1)" "redirect fd 1 t1 = (Some k, t2)"
    "redirected t (saved sin 0 @ [(1, k)]) [fd] t2" "free cur \<le> free t2 + 2" by blast
  have so: "std_open cur" "std_open t2" using assms(1) o(3) by (simp_all add: redirected_def)
  have v2: "std_view t2 = (std_view cur)[1 := Some ?f]" using moved_view [OF o(1,2) so(1)] by simp
  show ?thesis
  proof (cases "stderr_both c")
    case True
    have "0 < free t2" using o(4) assms(2) by simp
    moreover have "2 \<notin> fst ` set (saved sin 0 @ [(1, k)])" by (simp add: image_Un)
    ultimately obtain k2 t3 where
      e: "redirect fd 2 t2 = (Some k2, t3)" "redirected t ((saved sin 0 @ [(1, k)]) @ [(2, k2)]) [fd] t3"
      using redirect_redirected [OF o(3) _ _ std_lt(3)] by (metis list.set_intros(1))
    have "t2 ! fd = Some ?f" "3 \<le> fd" "fd < length cur"
      using o(1,2) so(1) unfolding redirect_def
      by (auto simp: fd_open_def fd_dup_def fd_dup2_def std_open_def nth_list_update not_less [symmetric]
          dest!: first_idx_Some split: option.splits)
    then have "std_view t3 = (std_view t2)[2 := Some ?f]"
      using redirect_view [of ?f cur fd 2 t2 "Some k2" t3] o(1) e(1) so
      by (auto simp: fd_open_def split: option.splits)
    moreover have "redirect_err may c sin (Some k) (Some k2) v = Inr ((sin, Some k, Some k2), v)"
      "child_open may (stderr_file c) g [2] v = Inr v" for v :: "'a ofile fds" and g
      using assms(6) [OF True] by (simp_all add: redirect_err_def child_open_def)
    ultimately show ?thesis
      using Some True o(1,2) e assms(3-5) v2 close_view [OF e(2), of fd]
      by (cases "may p") (simp_all add: child_open_view redirect_out_def open_file_def same_view_def)
  next
    case False
    have "same_view (child_open may (stderr_file c) (\<lambda>p. WriteFile p (stderr_append c)) [2] (u[1 := Some ?f]))
       (redirect_err may c sin (Some k) None (fd_close fd t2))"
      using close_redirected [OF o(3), of fd] close_view [OF o(3), of fd] o(4) assms(2-5) v2
        fold_std_open [of u ?f "[1]"] fold_free [of u "[1]" ?f]
      by (intro redirect_err_view [where t = t]) simp_all
    with Some False o(1,2) assms(3,4) show ?thesis
      by (cases "may p") (simp_all add: child_open_view redirect_out_def open_file_def same_view_def)
  qed
qed

text \<open>C32: The redirections of a command run inside the shell and those of a forked child agree: both
  fail, or descriptors 0, 1 and 2 name the same files.\<close>

theorem in_process_sees_child_descriptors:
  assumes "std_open t" "4 \<le> free t" "cmd_ok c"
  shows "same_view (child_redirects may c t) (redirect_all may c t)"
proof (cases "stdin_file c")
  case None
  with redirect_out_view [of t None t t c may] assms show ?thesis
    by (simp add: child_redirects_def redirect_all_def child_open_def redirected_Nil cmd_ok_def)
next
  case (Some p)
  have r: "redirected t [] [] t" using assms(1) by (simp add: redirected_Nil)
  have "2 \<le> free t" "0 \<notin> fst ` set []" using assms(2) by simp_all
  from open_and_redirect [OF r this(1) std_lt(1) this(2), of "ReadFile p"] obtain fd t1 k t2 where
    o: "fd_open (ReadFile p) t = (Some fd, t1)" "redirect fd 0 t1 = (Some k, t2)"
    "redirected t ([] @ [(0, k)]) [fd] t2" "free t \<le> free t2 + 2" by blast
  have "same_view (case child_open may (stdout_file c) (\<lambda>p. WriteFile p (stdout_append c))
                  (if stderr_both c then [1, 2] else [1]) (t[0 := Some (ReadFile p)]) of
             Inl e \<Rightarrow> Inl e
           | Inr t2 \<Rightarrow> child_open may (stderr_file c) (\<lambda>p. WriteFile p (stderr_append c)) [2] t2)
    (redirect_out may c (Some k) (fd_close fd t2))"
    using close_redirected [OF o(3), of fd] close_view [OF o(3), of fd] moved_view [OF o(1,2) assms(1)] o(4) assms
      fold_std_open [of t "ReadFile p" "[0]"] fold_free [of t "[0]" "ReadFile p"]
    by (intro redirect_out_view [where t = t]) (simp_all add: cmd_ok_def)
  with Some o(1,2) assms(1,2) show ?thesis
    by (cases "may p") (simp_all add: child_redirects_def child_open_view redirect_all_def open_file_def same_view_def)
qed

theorem in_process_sees_child_descriptors_witness:
  "same_view (child_redirects (\<lambda>_. True) demo_cmd demo_fds) (redirect_all (\<lambda>_. True) demo_cmd demo_fds)
   \<and> child_redirects (\<lambda>_. True) demo_cmd demo_fds
       = Inr (map Some [ReadFile ''in'', WriteFile ''o'' False, WriteFile ''o'' False] @ replicate 5 None)"
  by (rule conjI, rule in_process_sees_child_descriptors [OF demo_fds_ok demo_cmd_ok])
    (simp add: child_redirects_def child_open_def open_file_def demo_cmd_def demo_fds_def fd_open_def fd_dup2_def
      fd_close_def numeral_eq_Suc)

end
