(* ===== verification/Dispatch.thy ===== *)
theory Dispatch
  imports Exec
begin

text \<open>
  The dispatch of one command (\<^verbatim>\<open>aishell_main.c\<close>): the built-ins of \<open>builtin_str\<close>, the registered
  commands, external programs (\<open>lsh_launch\<close>), each in the foreground or as a background job over
  the table of \<^verbatim>\<open>Job_Table\<close>. A registered command's \<open>run\<close> is an argument; what the system answers
  (\<open>chdir\<close>, \<open>kill\<close>, \<open>fork\<close>, \<open>pthread_create\<close>, \<open>waitpid\<close>, \<open>malloc\<close>) is the record \<open>answers\<close>.
\<close>

section \<open>State and answers\<close>

record 'w world =
  wjobs :: jobs
  cwd :: cstring
  screen :: "cstring list"
  rest :: 'w

datatype fg_wait = FgExited int | FgSignalled int | FgStopped | FgError

record answers =
  a_home :: "cstring option"
  a_chdir :: "cstring \<Rightarrow> cstring option option"
  a_poll :: "nat \<Rightarrow> wait_result"
  a_kill :: "int \<Rightarrow> int \<Rightarrow> bool"
  a_alloc :: bool
  a_thread :: "nat option"
  a_fork :: "int option"
  a_waitpid :: fg_wait

text \<open>\<open>exit\<close> does not return: it ends the shell with a code, after joining these threads.\<close>

datatype run_result = Status int | ExitShell int "nat list"

section \<open>The built-ins\<close>

definition builtin_str :: "cstring list" where
  "builtin_str = [''cd'', ''exit'', ''help'', ''jobs'', ''kill'']"

definition is_builtin_cmd :: "cstring \<Rightarrow> bool" where
  "is_builtin_cmd name \<longleftrightarrow> list_ex (\<lambda>b. name = b) builtin_str"

text \<open>\<open>a_chdir d\<close>: \<open>None\<close> when \<open>chdir\<close> fails, else what \<open>getcwd\<close> then gives.\<close>

definition lsh_cd :: "answers \<Rightarrow> cstring list \<Rightarrow> 'w world \<Rightarrow> run_result \<times> 'w world" where
  "lsh_cd a argv w =
     (case (if length argv < 2 then a_home a else Some (argv ! 1)) of
        None \<Rightarrow> (Status 1, w)
      | Some target \<Rightarrow>
          (case a_chdir a target of
             None \<Rightarrow> (Status 1, w)
           | Some d \<Rightarrow> (Status 0,
               w\<lparr>cwd := (case d of Some p \<Rightarrow> if length p < 4096 then p else [] | None \<Rightarrow> [])\<rparr>)))"

definition lsh_exit :: "cstring list \<Rightarrow> 'w world \<Rightarrow> run_result \<times> 'w world" where
  "lsh_exit argv w = (ExitShell (if 1 < length argv then atoi (argv ! 1) else 0) (exit_tids (wjobs w)), w)"

text \<open>\<open>help\<close>: the line of each registered command and their number; its fixed text is left out.\<close>

definition help_print_one :: "cmd_spec \<Rightarrow> cstring list \<Rightarrow> cstring list" where
  "help_print_one s out = out @ [''  '' @ pad_right 22 (spec_name s) @ '' ''
     @ (case summary s of Some t \<Rightarrow> t | None \<Rightarrow> []) @ [NL]]"

definition lsh_help :: "cmd_spec list \<Rightarrow> 'w world \<Rightarrow> run_result \<times> 'w world" where
  "lsh_help reg w = (Status 0, w\<lparr>screen := for_each_command help_print_one reg (screen w)
     @ [NL # ''  '' @ show_nat (length reg) @ '' commands total.'' @ [NL]]\<rparr>)"

definition lsh_jobs :: "answers \<Rightarrow> 'w world \<Rightarrow> run_result \<times> 'w world" where
  "lsh_jobs a w = (case jobs_print_and_prune (a_poll a) (wjobs w) of
     (out, joins, js) \<Rightarrow> (Status 0, w\<lparr>wjobs := js, screen := screen w @ out\<rparr>))"

definition run_kill :: "answers \<Rightarrow> cstring list \<Rightarrow> 'w world \<Rightarrow> run_result \<times> 'w world" where
  "run_kill a argv w = (case lsh_kill argv (wjobs w) of
      Inl e \<Rightarrow> (Status e, w)
    | Inr (p, s) \<Rightarrow> (Status (if a_kill a p s then 0 else 1), w))"

text \<open>\<open>builtin_func\<close>: the body of \<open>builtin_thread_entry\<close>.\<close>

definition builtin_func :: "answers \<Rightarrow> cmd_spec list \<Rightarrow> cstring list \<Rightarrow> 'w world \<Rightarrow> run_result \<times> 'w world" where
  "builtin_func a reg argv w =
     (let name = cmd_basename (hd argv) in
      if name = ''cd'' then lsh_cd a argv w
      else if name = ''exit'' then lsh_exit argv w
      else if name = ''help'' then lsh_help reg w
      else if name = ''jobs'' then lsh_jobs a w
      else if name = ''kill'' then run_kill a argv w
      else (Status 1, w))"

section \<open>Background jobs and external programs\<close>

text \<open>The text shown for a job: the words joined by spaces, cut to 255 characters.\<close>

definition display_cmd :: "cstring list \<Rightarrow> cstring" where
  "display_cmd argv = (case argv of
      [] \<Rightarrow> []
    | a # as \<Rightarrow> foldl (\<lambda>buf x. cat_fit 256 (cat_fit 256 buf '' '') x) (cat_fit 256 [] a) as)"

definition start_background :: "answers \<Rightarrow> cmd \<Rightarrow> 'w world \<Rightarrow> run_result \<times> 'w world" where
  "start_background a c w =
     (if \<not> a_alloc a then (Status 1, w)
      else (case jobs_reserve_thread_slot (display_cmd (cmd_argv c)) (wjobs w) of
              (jid, js1) \<Rightarrow>
                if jid < 0 then (Status 1, w\<lparr>wjobs := js1\<rparr>)
                else (case a_thread a of
                        None \<Rightarrow> (Status 1, w\<lparr>wjobs := release_slot (nat jid) js1\<rparr>)
                      | Some t \<Rightarrow> (Status 0, w\<lparr>wjobs := jobs_set_thread_tid (nat jid) t js1,
                          screen := screen w @ [''['' @ show_int jid @ ''] (thread)'' @ [NL]]\<rparr>))))"

definition lsh_launch :: "answers \<Rightarrow> cmd \<Rightarrow> 'w world \<Rightarrow> run_result \<times> 'w world" where
  "lsh_launch a c w =
     (case a_fork a of
        None \<Rightarrow> (Status 1, w)
      | Some p \<Rightarrow>
          if background c
          then (case jobs_add p (display_cmd (cmd_argv c)) (wjobs w) of
                  (jid, js1) \<Rightarrow> (Status 0, w\<lparr>wjobs := js1,
                     screen := screen w @ [''['' @ show_int jid @ ''] '' @ show_int p @ [NL]]\<rparr>))
          else (case a_waitpid a of
                  FgExited e \<Rightarrow> (Status e, w)
                | FgSignalled s \<Rightarrow> (Status (128 + s),
                    if s = SIGINT then w\<lparr>screen := screen w @ [[NL]]\<rparr> else w)
                | FgStopped \<Rightarrow> (Status 1, w)
                | FgError \<Rightarrow> (Status 1, w)))"

section \<open>\<open>lsh_execute\<close>\<close>

definition lsh_execute ::
  "answers \<Rightarrow> cmd_spec list \<Rightarrow> (cstring \<Rightarrow> cstring list \<Rightarrow> 'w world \<Rightarrow> int \<times> 'w world)
     \<Rightarrow> cmd \<Rightarrow> 'w world \<Rightarrow> run_result \<times> 'w world" where
  "lsh_execute a reg run c w =
     (if cmd_argv c = [] then (Status 0, w)
      else let name = cmd_basename (hd (cmd_argv c)) in
        if is_builtin_cmd name
        then (if background c
              then (if name = ''cd'' \<or> name = ''exit'' then (Status 1, w) else start_background a c w)
              else if \<not> a_alloc a \<or> a_thread a = None then (Status 1, w)
              else builtin_func a reg (cmd_argv c) w)
        else (case find_command reg name of
                Some s \<Rightarrow>
                  if background c then start_background a c w
                  else (case run (spec_name s) (cmd_argv c) w of (rc, w1) \<Rightarrow> (Status rc, w1))
              | None \<Rightarrow> lsh_launch a c w))"

section \<open>The display text\<close>

fun join_words :: "cstring list \<Rightarrow> cstring" where
  "join_words [] = []"
| "join_words [x] = x"
| "join_words (x # y # xs) = x @ '' '' @ join_words (y # xs)"

lemma cat_fit_take: "cat_fit n (take (n - 1) s) t = take (n - 1) (s @ t)"
  by (cases "length s \<le> n - 1") (auto simp: cat_fit_def)

lemma display_go: "foldl (\<lambda>buf x. cat_fit 256 (cat_fit 256 buf '' '') x) (take 255 s) as
    = take 255 (s @ concat (map (\<lambda>x. '' '' @ x) as))"
proof (induction as arbitrary: s)
  case (Cons x as)
  have "cat_fit 256 (cat_fit 256 (take 255 s) '' '') x = take 255 ((s @ '' '') @ x)"
    using cat_fit_take [of 256 s "'' ''"] cat_fit_take [of 256 "s @ '' ''" x] by simp
  with Cons.IH [of "s @ '' '' @ x"] show ?case by simp
qed simp

lemma join_words_concat: "join_words (a # as) = a @ concat (map (\<lambda>x. '' '' @ x) as)"
  by (induction as arbitrary: a) auto

lemma display_cmd_eq: "display_cmd argv = take 255 (join_words argv)"
proof (cases argv)
  case (Cons a as)
  have "cat_fit 256 [] a = take 255 a" using cat_fit_take [of 256 "[]" a] by simp
  with Cons show ?thesis by (simp add: display_cmd_def display_go join_words_concat)
qed (simp add: display_cmd_def)

lemma fit_display [simp]: "fit 256 (display_cmd argv) = display_cmd argv"
  by (simp add: display_cmd_eq fit_def)

section \<open>The table after a dispatch\<close>

text \<open>The slot a background thread takes, and the job it holds.\<close>

definition new_thread :: "nat \<Rightarrow> cstring \<Rightarrow> jobs \<Rightarrow> job" where
  "new_thread t cmdstr js = \<lparr>id = Suc (job_count js), job_type = JOB_TYPE_THREAD,
     pid = 0, tid = t, command = fit 256 cmdstr, status = JOB_RUNNING, exit_code = 0\<rparr>"

lemma first_idx_new:
  assumes "jobs_wf js" "first_idx is_free (job_table js) = Some i" "P j"
    "\<And>k. k < MAX_JOBS \<Longrightarrow> P (job_table js ! k) \<Longrightarrow> id (job_table js ! k) = Suc (job_count js)"
  shows "first_idx P ((job_table js)[i := j]) = Some i"
proof (rule first_idx_unique)
  have l: "i < length (job_table js)" "length (job_table js) = MAX_JOBS"
    using assms(2) jobs_wfD(1) [OF assms(1)] by auto
  then show "i < length ((job_table js)[i := j])" by simp
  show "P ((job_table js)[i := j] ! i)" using l assms(3) by simp
  fix k assume "k < length ((job_table js)[i := j])" "P ((job_table js)[i := j] ! k)"
  with l assms(4) jobs_wfD(2) [OF assms(1), of k] show "k = i"
    by (cases "k = i") (auto simp: nth_list_update)
qed

lemma reserve_set_tid:
  assumes "jobs_wf js" "first_idx is_free (job_table js) = Some i"
  shows "jobs_set_thread_tid (Suc (job_count js)) t (snd (jobs_reserve_thread_slot cs js))
    = js\<lparr>job_count := Suc (job_count js), job_table := (job_table js)[i := new_thread t cs js]\<rparr>"
proof -
  let ?j = "new_thread 0 cs js"
  have "first_idx (\<lambda>j. is_thread j \<and> id j = Suc (job_count js)) ((job_table js)[i := ?j]) = Some i"
    by (rule first_idx_new [OF assms]) (simp_all add: new_thread_def is_thread_def)
  moreover have "i < length (job_table js)" using assms(2) by auto
  ultimately show ?thesis
    using assms(2) by (simp add: jobs_set_thread_tid_def upd_first_def jobs_reserve_thread_slot_def new_thread_def)
qed

lemma lookup_reserve_release:
  assumes "jobs_wf js" "first_idx is_free (job_table js) = Some i"
  shows "lookup_job (release_slot (Suc (job_count js)) (snd (jobs_reserve_thread_slot cs js))) = lookup_job js"
proof (intro ext option_eqI)
  fix n x
  let ?r = "snd (jobs_reserve_thread_slot cs js)"
  let ?t = "release_slot (Suc (job_count js)) ?r"
  have wf: "jobs_wf ?t" by (intro jobs_wf_release jobs_wf_reserve assms(1))
  have i: "i < MAX_JOBS" "is_free (job_table js ! i)" "length (job_table js) = MAX_JOBS"
    using first_idx_Some [OF assms(2)] jobs_wfD(1) [OF assms(1)] by auto
  have at: "job_table ?t ! k = (if k = i then (new_thread 0 cs js)\<lparr>job_type := JOB_TYPE_NONE\<rparr> else job_table js ! k)"
    if "k < MAX_JOBS" for k
    using that i jobs_wfD(2) [OF assms(1) that] assms(2)
    by (auto simp: release_slot_def jobs_reserve_thread_slot_def new_thread_def nth_list_update)
  show "lookup_job ?t n = Some x \<longleftrightarrow> lookup_job js n = Some x"
    unfolding lookup_job_nth [OF wf] lookup_job_nth [OF assms(1)]
    using i at by (auto simp: is_free_def)
qed

lemma wf_start_background:
  "jobs_wf (wjobs w) \<Longrightarrow> start_background a c w = (r, w1) \<Longrightarrow> jobs_wf (wjobs w1)"
  using jobs_wf_reserve [of "wjobs w" "display_cmd (cmd_argv c)"]
  by (auto simp: start_background_def jobs_set_thread_tid_def jobs_wf_upd_first jobs_wf_release
      split: if_splits prod.splits option.splits)

lemma wf_lsh_launch:
  "jobs_wf (wjobs w) \<Longrightarrow> lsh_launch a c w = (r, w1) \<Longrightarrow> jobs_wf (wjobs w1)"
  using jobs_wf_add [of "wjobs w" _ "display_cmd (cmd_argv c)"]
  by (auto simp: lsh_launch_def split: if_splits prod.splits option.splits fg_wait.splits)
    (metis snd_conv)

lemma wf_builtin_func:
  "jobs_wf (wjobs w) \<Longrightarrow> builtin_func a reg argv w = (r, w1) \<Longrightarrow> jobs_wf (wjobs w1)"
  using jobs_wf_prune [of "wjobs w" "a_poll a"]
  by (auto simp: builtin_func_def Let_def lsh_cd_def lsh_exit_def lsh_help_def lsh_jobs_def run_kill_def
      split: if_splits prod.splits option.splits sum.splits)

theorem lsh_execute_keeps_table:
  assumes "jobs_wf (wjobs w)" "\<And>n av u. jobs_wf (wjobs u) \<Longrightarrow> jobs_wf (wjobs (snd (run n av u)))"
  shows "jobs_wf (wjobs (snd (lsh_execute a reg run c w)))"
proof -
  obtain r w1 where e: "lsh_execute a reg run c w = (r, w1)" by fastforce
  with assms(1) assms(2) [OF assms(1)] have "jobs_wf (wjobs w1)"
    unfolding lsh_execute_def Let_def
    by (auto split: if_splits option.splits prod.splits
        dest: wf_start_background wf_lsh_launch wf_builtin_func) (metis snd_conv)
  with e show ?thesis by simp
qed

definition demo_answers :: answers where
  "demo_answers = \<lparr>a_home = None, a_chdir = (\<lambda>_. None), a_poll = (\<lambda>_. StillRunning), a_kill = (\<lambda>_ _. True),
     a_alloc = True, a_thread = Some 7, a_fork = Some 4823, a_waitpid = FgExited 0\<rparr>"

definition demo_world :: "unit world" where
  "demo_world = \<lparr>wjobs = init_jobs, cwd = ''/'', screen = [], rest = ()\<rparr>"

theorem lsh_execute_keeps_table_witness:
  "jobs_wf (wjobs (snd (lsh_execute demo_answers [] (\<lambda>_ _ u. (0, u)) (demo_cmd\<lparr>background := True\<rparr>) demo_world)))"
  by (rule lsh_execute_keeps_table) (simp_all add: jobs_wf_init demo_world_def)

text \<open>Job number \<open>n\<close> was added for the words \<open>argv\<close>, and nothing else changed.\<close>

definition job_added :: "nat \<Rightarrow> cstring list \<Rightarrow> jobs \<Rightarrow> jobs \<Rightarrow> bool" where
  "job_added n argv js js1 \<longleftrightarrow> (case lookup_job js1 n of
      None \<Rightarrow> False
    | Some j \<Rightarrow> command j = take 255 (join_words argv) \<and> status j = JOB_RUNNING \<and> lookup_job js n = None
        \<and> lookup_job js1 = (lookup_job js)(n \<mapsto> j))"

lemma lookup_next: "jobs_wf js \<Longrightarrow> lookup_job js (Suc (job_count js)) = None"
  by (auto simp: jobs_wf_def lookup_job_def find_None_iff)

lemma job_added_new:
  assumes "jobs_wf js" "first_idx is_free (job_table js) = Some i"
    "id j = Suc (job_count js)" "\<not> is_free j" "is_thread j \<longrightarrow> pid j = 0" "status j = JOB_RUNNING"
    "command j = display_cmd argv"
  shows "job_added (Suc (job_count js)) argv js
    (js\<lparr>job_count := Suc (job_count js), job_table := (job_table js)[i := j]\<rparr>)"
  using lookup_job_new [OF assms(1-5)] assms(6,7) lookup_next [OF assms(1)]
  by (auto simp: job_added_def display_cmd_eq fun_eq_iff)

lemma start_background_cases:
  assumes "jobs_wf (wjobs w)" "start_background a c w = (r, w1)"
  shows "r = Status 1 \<and> lookup_job (wjobs w1) = lookup_job (wjobs w)
    \<or> r = Status 0 \<and> job_added (Suc (job_count (wjobs w))) (cmd_argv c) (wjobs w) (wjobs w1)"
proof (cases "first_idx is_free (job_table (wjobs w))")
  case None
  with assms(2) show ?thesis
    by (auto simp: start_background_def jobs_reserve_thread_slot_def split: if_splits option.splits)
next
  case (Some i)
  let ?s = "display_cmd (cmd_argv c)"
  have r: "jobs_reserve_thread_slot ?s (wjobs w) = (int (Suc (job_count (wjobs w))), snd (jobs_reserve_thread_slot ?s (wjobs w)))"
    using Some by (simp add: jobs_reserve_thread_slot_def)
  show ?thesis
  proof (cases "a_alloc a \<and> a_thread a \<noteq> None")
    case True
    then obtain t where "a_thread a = Some t" by auto
    let ?js = "snd (jobs_reserve_thread_slot ?s (wjobs w))"
    have "start_background a c w = (Status 0, w\<lparr>wjobs := jobs_set_thread_tid (Suc (job_count (wjobs w))) t ?js,
        screen := screen w @ [''['' @ show_int (int (Suc (job_count (wjobs w)))) @ ''] (thread)'' @ [NL]]\<rparr>)"
      unfolding start_background_def by (subst r) (simp add: True \<open>a_thread a = Some t\<close> nat_add_distrib)
    with assms(2) reserve_set_tid [OF assms(1) Some, of t ?s]
    have "r = Status 0" "wjobs w1 = wjobs w\<lparr>job_count := Suc (job_count (wjobs w)),
        job_table := (job_table (wjobs w))[i := new_thread t ?s (wjobs w)]\<rparr>"
      by auto
    with job_added_new [OF assms(1) Some, of "new_thread t ?s (wjobs w)" "cmd_argv c"] show ?thesis
      by (simp add: new_thread_def is_free_def)
  next
    case False
    then have "start_background a c w = (Status 1, w)
      \<or> start_background a c w = (Status 1, w\<lparr>wjobs := release_slot (Suc (job_count (wjobs w)))
          (snd (jobs_reserve_thread_slot ?s (wjobs w)))\<rparr>)"
      unfolding start_background_def by (subst (2) r) (auto simp: nat_add_distrib)
    with assms(2) lookup_reserve_release [OF assms(1) Some, of ?s] show ?thesis by auto
  qed
qed

theorem lsh_execute_background:
  assumes "jobs_wf (wjobs w)" "cmd_argv c \<noteq> []" "background c" "lsh_execute a reg run c w = (r, w1)"
  shows "r = Status 1 \<and> lookup_job (wjobs w1) = lookup_job (wjobs w)
    \<or> r = Status 0 \<and> job_added (Suc (job_count (wjobs w))) (cmd_argv c) (wjobs w) (wjobs w1)
    \<or> r = Status 0 \<and> wjobs w1 = wjobs w \<and> list_ex is_free (job_table (wjobs w)) = False"
proof -
  have "lsh_execute a reg run c w = (Status 1, w) \<or> lsh_execute a reg run c w = start_background a c w
      \<or> lsh_execute a reg run c w = lsh_launch a c w"
    using assms(2,3) by (simp add: lsh_execute_def Let_def split: option.split)
  then consider "r = Status 1 \<and> w1 = w" | "start_background a c w = (r, w1)" | "lsh_launch a c w = (r, w1)"
    using assms(4) by auto
  then show ?thesis
  proof cases
    case 3
    show ?thesis
    proof (cases "first_idx is_free (job_table (wjobs w))")
      case None
      then have "list_ex is_free (job_table (wjobs w)) = False" "jobs_add p s (wjobs w) = (-1, wjobs w)" for p s
        using first_idx_None [of is_free "job_table (wjobs w)"] by (auto simp: jobs_add_def list_ex_iff)
      with 3 assms(3) show ?thesis
        by (auto simp: lsh_launch_def split: option.splits)
    next
      case idx: (Some i)
      show ?thesis
      proof (cases "a_fork a")
        case (Some p)
        let ?j = "new_process p (display_cmd (cmd_argv c)) (wjobs w)"
        have "wjobs w1 = wjobs w\<lparr>job_count := Suc (job_count (wjobs w)), job_table := (job_table (wjobs w))[i := ?j]\<rparr>"
          "r = Status 0"
          using 3 Some idx assms(3) by (auto simp: lsh_launch_def jobs_add_def new_process_def)
        with job_added_new [OF assms(1) idx, of ?j "cmd_argv c"] show ?thesis
          by (simp add: new_process_def is_free_def is_thread_def)
      qed (use 3 in \<open>simp add: lsh_launch_def\<close>)
    qed
  qed (use start_background_cases [OF assms(1)] in auto)
qed

theorem lsh_execute_background_witness:
  "job_added 1 [''pwd''] init_jobs
     (wjobs (snd (lsh_execute demo_answers [] (\<lambda>_ _ u. (0, u)) (demo_cmd\<lparr>background := True\<rparr>) demo_world)))"
proof -
  let ?e = "lsh_execute demo_answers [] (\<lambda>_ _ u. (0, u)) (demo_cmd\<lparr>background := True\<rparr>) demo_world"
  obtain r w1 where e: "?e = (r, w1)" by fastforce
  have f: "first_idx is_free (replicate MAX_JOBS empty_job) = Some 0"
    by (simp add: MAX_JOBS_def numeral_eq_Suc is_free_def empty_job_def)
  have "r = Status 0" "wjobs w1 \<noteq> init_jobs"
    using e f by (auto simp: lsh_execute_def Let_def is_builtin_cmd_def builtin_str_def demo_cmd_def cmd_basename_def
        after_last_def find_command_def lsh_launch_def demo_answers_def demo_world_def jobs_add_def init_jobs_def)
  with lsh_execute_background [OF _ _ _ e] e show ?thesis
    by (auto simp: demo_world_def demo_cmd_def jobs_wf_init) (simp add: init_jobs_def)
qed

text \<open>A child started with a full table runs on, announced as job -1 and known to no table.\<close>

lemma lsh_launch_untracked:
  assumes "list_all (\<lambda>j. \<not> is_free j) (job_table (wjobs w))" "a_fork a = Some p" "background c"
  shows "lsh_launch a c w = (Status 0, w\<lparr>screen := screen w @ [''[-1] '' @ show_int p @ [NL]]\<rparr>)"
proof -
  have "first_idx is_free (job_table (wjobs w)) = None" using assms(1) by (simp add: first_idx_None list_all_iff)
  moreover have "show_int (-1) = ''-1''" by (simp add: show_int_def show_nat.simps digit_char_def) code_simp
  ultimately show ?thesis using assms(2,3) by (simp add: lsh_launch_def jobs_add_def)
qed

text \<open>\<open>exit\<close> and \<open>cd\<close> are refused in the background, whatever the rest of the state.\<close>

lemma background_exit_refused:
  "cmd_basename (hd (cmd_argv c)) \<in> {''cd'', ''exit''} \<Longrightarrow> cmd_argv c \<noteq> [] \<Longrightarrow> background c \<Longrightarrow>
     lsh_execute a reg run c w = (Status 1, w)"
  by (auto simp: lsh_execute_def Let_def is_builtin_cmd_def builtin_str_def)

end
