(* ===== verification/Pipeline.thy ===== *)
theory Pipeline
  imports Dispatch "HOL-Library.Multiset"
begin

text \<open>
  \<open>run_pipeline\<close> of \<^verbatim>\<open>aishell_main.c\<close>: the pipes, the stages (a forked child, or a thread for a
  built-in), the descriptors each stage gets and the ones the shell has left. The shell's table is
  shared with its threads: the critical section a thread runs under \<open>pipeline_io_mutex\<close> is a
  transformer of that table, run before the next stage is started (\<open>early\<close>) or at the join.
\<close>

section \<open>Pipes\<close>

definition MAX_PIPELINE :: nat where "MAX_PIPELINE = 16"

definition fd_pipe :: "nat \<Rightarrow> 'f ofile fds \<Rightarrow> (nat \<times> nat) option \<times> 'f ofile fds" where
  "fd_pipe i t = (case fd_open (PipeRead i) t of
      (None, t1) \<Rightarrow> (None, t)
    | (Some r, t1) \<Rightarrow> (case fd_open (PipeWrite i) t1 of
          (None, t2) \<Rightarrow> (None, t)
        | (Some w, t2) \<Rightarrow> (Some (r, w), t2)))"

definition close_pipes :: "(nat \<times> nat) list \<Rightarrow> 'f fds \<Rightarrow> 'f fds" where
  "close_pipes ps t = fold (\<lambda>(r, w) u. fd_close w (fd_close r u)) ps t"

fun make_pipes :: "nat \<Rightarrow> (nat \<times> nat) list \<Rightarrow> 'f ofile fds \<Rightarrow> (nat \<times> nat) list option \<times> 'f ofile fds" where
  "make_pipes 0 ps t = (Some ps, t)"
| "make_pipes (Suc k) ps t = (case fd_pipe (length ps) t of
      (None, t1) \<Rightarrow> (None, close_pipes ps t1)
    | (Some p, t1) \<Rightarrow> make_pipes k (ps @ [p]) t1)"

text \<open>The read end of the pipe before stage \<open>i\<close> of \<open>n\<close>, the write end of the one after it.\<close>

definition stage_rd :: "(nat \<times> nat) list \<Rightarrow> nat \<Rightarrow> nat option" where
  "stage_rd ps i = (if 0 < i then Some (fst (ps ! (i - 1))) else None)"

definition stage_wr :: "(nat \<times> nat) list \<Rightarrow> nat \<Rightarrow> nat \<Rightarrow> nat option" where
  "stage_wr ps n i = (if Suc i < n then Some (snd (ps ! i)) else None)"

section \<open>The stages\<close>

definition dup_end :: "nat option \<Rightarrow> 'f fds \<Rightarrow> nat option \<times> 'f fds" where
  "dup_end e t = (case e of None \<Rightarrow> (None, t) | Some fd \<Rightarrow> fd_dup fd t)"

definition close_end :: "nat option \<Rightarrow> 'f fds \<Rightarrow> 'f fds" where
  "close_end e t = (case e of None \<Rightarrow> t | Some fd \<Rightarrow> fd_close fd t)"

definition move_end :: "nat option \<Rightarrow> nat \<Rightarrow> 'f fds \<Rightarrow> 'f fds" where
  "move_end e std t = (case e of None \<Rightarrow> t | Some fd \<Rightarrow> fd_dup2 fd std t)"

text \<open>\<open>pipeline_builtin_thread_fn\<close>: on entry the ends replace the standard descriptors.\<close>

definition enter_end :: "nat option \<Rightarrow> nat \<Rightarrow> 'f ofile fds \<Rightarrow> nat option \<times> 'f ofile fds" where
  "enter_end e std t = (case e of
      None \<Rightarrow> (None, t)
    | Some fd \<Rightarrow> (case redirect fd std t of (s, t1) \<Rightarrow> (s, fd_close fd t1)))"

definition thread_enter ::
  "nat option \<Rightarrow> nat option \<Rightarrow> 'f ofile fds \<Rightarrow> (nat option \<times> nat option) \<times> 'f ofile fds" where
  "thread_enter rd wr t = (case enter_end rd 0 t of (sin, t1) \<Rightarrow>
     case enter_end wr 1 t1 of (sout, t2) \<Rightarrow> ((sin, sout), t2))"

definition thread_leave :: "nat option \<times> nat option \<Rightarrow> 'f ofile fds \<Rightarrow> 'f ofile fds" where
  "thread_leave s t = restore (snd s) 1 (restore (fst s) 0 t)"

definition thread_section :: "nat option \<Rightarrow> nat option \<Rightarrow> 'f ofile fds \<Rightarrow> 'f ofile fds" where
  "thread_section rd wr t = (case thread_enter rd wr t of (s, t1) \<Rightarrow> thread_leave s t1)"

text \<open>A forked child: its ends moved, every other pipe descriptor closed, then its redirections.\<close>

definition child_setup ::
  "(cstring \<Rightarrow> bool) \<Rightarrow> cmd \<Rightarrow> nat option \<Rightarrow> nat option \<Rightarrow> (nat \<times> nat) list \<Rightarrow> nat list \<Rightarrow> 'f ofile fds
     \<Rightarrow> int + 'f ofile fds" where
  "child_setup may c rd wr ps tfds t =
     child_redirects may c (fold fd_close tfds (close_pipes ps (move_end wr 1 (move_end rd 0 t))))"

text \<open>
  A stage's handle: a child is what it exits with before its program or the table it runs with, a
  thread the descriptors its section still has to consume.
\<close>

datatype 'f handle =
    Unstarted
  | Forked "int + 'f ofile fds"
  | Threaded "(nat option \<times> nat option) option"

fun end_list :: "nat option \<Rightarrow> nat list" where
  "end_list None = []"
| "end_list (Some fd) = [fd]"

text \<open>
  The launching loop from stage \<open>i\<close> on. \<open>ok j\<close> says that \<open>fork\<close> or \<open>pthread_create\<close> of stage
  \<open>j\<close> succeeds; \<open>tfds\<close> is \<open>thread_fds\<close>. Each early end is a \<open>break\<close>.
\<close>

fun start_stages ::
  "(cstring \<Rightarrow> bool) \<Rightarrow> (nat \<Rightarrow> bool) \<Rightarrow> (nat \<Rightarrow> bool) \<Rightarrow> (nat \<times> nat) list \<Rightarrow> nat \<Rightarrow> nat \<Rightarrow> cmd list \<Rightarrow> nat list
     \<Rightarrow> 'f ofile fds \<Rightarrow> 'f handle list \<times> 'f ofile fds" where
  "start_stages may early ok ps n i [] tfds t = ([], t)"
| "start_stages may early ok ps n i (c # cs) tfds t =
     (if cmd_argv c = []
      then (case start_stages may early ok ps n (Suc i) cs tfds t of (hs, t1) \<Rightarrow> (Unstarted # hs, t1))
      else if is_builtin_cmd (cmd_basename (hd (cmd_argv c)))
      then (case dup_end (stage_rd ps i) t of (r, t1) \<Rightarrow>
            case dup_end (stage_wr ps n i) t1 of (w, t2) \<Rightarrow>
              if (stage_rd ps i \<noteq> None \<and> r = None) \<or> (stage_wr ps n i \<noteq> None \<and> w = None)
              then (replicate (length (c # cs)) Unstarted, close_end w (close_end r t2))
              else if \<not> ok i then (replicate (length (c # cs)) Unstarted, t2)
              else (case start_stages may early ok ps n (Suc i) cs (tfds @ end_list r @ end_list w)
                           (if early i then thread_section r w t2 else t2) of
                      (hs, t3) \<Rightarrow> (Threaded (if early i then None else Some (r, w)) # hs, t3)))
      else if \<not> ok i then (replicate (length (c # cs)) Unstarted, t)
      else (case start_stages may early ok ps n (Suc i) cs tfds t of
              (hs, t1) \<Rightarrow> (Forked (child_setup may c (stage_rd ps i) (stage_wr ps n i) ps tfds t) # hs, t1)))"

fun join_handle :: "'f handle \<Rightarrow> 'f ofile fds \<Rightarrow> 'f ofile fds" where
  "join_handle (Threaded (Some (r, w))) t = thread_section r w t"
| "join_handle h t = t"

definition stage_status :: "int \<Rightarrow> 'f handle \<Rightarrow> int" where
  "stage_status code h = (case h of
      Unstarted \<Rightarrow> 0
    | Forked (Inl e) \<Rightarrow> e
    | Forked (Inr t) \<Rightarrow> code
    | Threaded p \<Rightarrow> code)"

text \<open>\<open>codes i\<close> is what the program or the built-in of stage \<open>i\<close> ends with.\<close>

definition run_pipeline ::
  "(cstring \<Rightarrow> bool) \<Rightarrow> (nat \<Rightarrow> bool) \<Rightarrow> (nat \<Rightarrow> bool) \<Rightarrow> (nat \<Rightarrow> int) \<Rightarrow> cmd list \<Rightarrow> 'f ofile fds
     \<Rightarrow> int \<times> 'f handle list \<times> 'f ofile fds" where
  "run_pipeline may early ok codes cmds t =
     (let n = length cmds in
      if MAX_PIPELINE < n then (1, [], t)
      else (case make_pipes (n - 1) [] t of
              (None, t1) \<Rightarrow> (1, [], t1)
            | (Some ps, t1) \<Rightarrow>
                (case start_stages may early ok ps n 0 cmds [] t1 of
                   (hs, t2) \<Rightarrow>
                     (if hs = [] then 0 else stage_status (codes (n - 1)) (last hs), hs,
                      fold join_handle hs (close_pipes ps t2)))))"

section \<open>Accounting for descriptors\<close>

definition pipe_fds :: "(nat \<times> nat) list \<Rightarrow> nat list" where
  "pipe_fds ps = concat (map (\<lambda>(r, w). [r, w]) ps)"

lemma close_pipes_fold: "close_pipes ps t = fold fd_close (pipe_fds ps) t"
  by (induction ps arbitrary: t) (auto simp: close_pipes_def pipe_fds_def)

lemma length_pipe_fds [simp]: "length (pipe_fds ps) = 2 * length ps"
  by (induction ps) (auto simp: pipe_fds_def)

lemma pipe_fds_member: "(r, w) \<in> set ps \<Longrightarrow> r \<in> set (pipe_fds ps) \<and> w \<in> set (pipe_fds ps)"
  by (induction ps) (auto simp: pipe_fds_def)

lemma pipe_fds_mem: "i < length ps \<Longrightarrow> fst (ps ! i) \<in> set (pipe_fds ps) \<and> snd (ps ! i) \<in> set (pipe_fds ps)"
  by (rule pipe_fds_member) simp

lemma redirected_mset: "mset X = mset Y \<Longrightarrow> redirected t S X cur \<Longrightarrow> redirected t S Y cur"
proof -
  assume m: "mset X = mset Y" and r: "redirected t S X cur"
  have "set X = set Y" using m by (rule mset_eq_setD)
  moreover have "distinct (map snd S @ Y)"
    using r m mset_eq_imp_distinct_iff [of "map snd S @ X" "map snd S @ Y"] by (simp add: redirected_def)
  ultimately show ?thesis using r by (simp add: redirected_def)
qed

lemma redirected_free: "redirected t [] X cur \<Longrightarrow> free cur + length X = free t"
proof (induction X arbitrary: cur)
  case (Cons i X)
  from close_redirected [OF Cons.prems, of i] have "redirected t [] X (fd_close i cur)"
    "free (fd_close i cur) = Suc (free cur)" by auto
  with Cons.IH show ?case by fastforce
qed (simp add: redirected_Nil)

lemma fold_close_redirected:
  "redirected t [] (L @ X) cur \<Longrightarrow> redirected t [] X (fold fd_close L cur)"
proof (induction L arbitrary: cur)
  case (Cons i L)
  from close_redirected(1) [OF Cons.prems, of i] have "redirected t [] (L @ X) (fd_close i cur)" by simp
  with Cons.IH show ?case by simp
qed simp

text \<open>The pipes of a pipeline: what their descriptors hold.\<close>

definition pipes_ok :: "(nat \<times> nat) list \<Rightarrow> 'f ofile fds \<Rightarrow> bool" where
  "pipes_ok ps cur \<longleftrightarrow> (\<forall>j<length ps. cur ! fst (ps ! j) = Some (PipeRead j) \<and> cur ! snd (ps ! j) = Some (PipeWrite j))"

lemma fd_pipe_ok:
  assumes "redirected t [] X cur" "2 \<le> free cur"
  obtains r w where "fd_pipe i cur = (Some (r, w), cur[r := Some (PipeRead i), w := Some (PipeWrite i)])"
    "redirected t [] (w # r # X) (cur[r := Some (PipeRead i), w := Some (PipeWrite i)])"
proof -
  have "0 < free cur" using assms(2) by simp
  from open_redirected [OF assms(1) this, of "PipeRead i"] obtain r where
    r: "fd_open (PipeRead i) cur = (Some r, cur[r := Some (PipeRead i)])"
    "redirected t [] (r # X) (cur[r := Some (PipeRead i)])" "Suc (free (cur[r := Some (PipeRead i)])) = free cur"
    by metis
  then have "0 < free (cur[r := Some (PipeRead i)])" using assms(2) by simp
  from open_redirected [OF r(2) this, of "PipeWrite i"] obtain w where
    "fd_open (PipeWrite i) (cur[r := Some (PipeRead i)]) = (Some w, cur[r := Some (PipeRead i), w := Some (PipeWrite i)])"
    "redirected t [] (w # r # X) (cur[r := Some (PipeRead i), w := Some (PipeWrite i)])" by metis
  with r(1) that show thesis by (simp add: fd_pipe_def)
qed

lemma redirected_distinct: "redirected t S X cur \<Longrightarrow> distinct X"
  by (simp add: redirected_def)

lemma redirected_bound: "redirected t S X cur \<Longrightarrow> i \<in> set X \<Longrightarrow> 3 \<le> i \<and> i < length cur \<and> t ! i = None"
  by (simp add: redirected_def)

lemma make_pipes_ok:
  "redirected t [] (pipe_fds ps) cur \<Longrightarrow> pipes_ok ps cur \<Longrightarrow> make_pipes k ps cur = (res, cur1) \<Longrightarrow> 2 * k \<le> free cur \<Longrightarrow>
     \<exists>qs. res = Some qs \<and> length qs = length ps + k \<and> redirected t [] (pipe_fds qs) cur1 \<and> pipes_ok qs cur1"
proof (induction k ps cur rule: make_pipes.induct)
  case (2 k ps cur)
  have "2 \<le> free cur" using "2.prems"(4) by simp
  from fd_pipe_ok [OF "2.prems"(1) this, of "length ps"] obtain r w where
    p: "fd_pipe (length ps) cur = (Some (r, w), cur[r := Some (PipeRead (length ps)), w := Some (PipeWrite (length ps))])"
    and rd: "redirected t [] (w # r # pipe_fds ps) (cur[r := Some (PipeRead (length ps)), w := Some (PipeWrite (length ps))])"
    by metis
  let ?c = "cur[r := Some (PipeRead (length ps)), w := Some (PipeWrite (length ps))]"
  have d: "distinct (w # r # pipe_fds ps)" using rd by (rule redirected_distinct)
  have b: "r < length cur" "w < length cur" using redirected_bound [OF rd] by simp_all
  have "redirected t [] (pipe_fds (ps @ [(r, w)])) ?c"
    by (rule redirected_mset [OF _ rd]) (simp add: pipe_fds_def)
  moreover have "pipes_ok (ps @ [(r, w)]) ?c"
    unfolding pipes_ok_def
  proof (intro allI impI)
    fix j assume "j < length (ps @ [(r, w)])"
    then consider "j < length ps" | "j = length ps" by fastforce
    then show "?c ! fst ((ps @ [(r, w)]) ! j) = Some (PipeRead j) \<and> ?c ! snd ((ps @ [(r, w)]) ! j) = Some (PipeWrite j)"
    proof cases
      case 1
      from pipe_fds_mem [OF this] d have "fst (ps ! j) \<notin> {r, w}" "snd (ps ! j) \<notin> {r, w}" by auto
      with 1 "2.prems"(2) show ?thesis by (simp add: nth_append pipes_ok_def)
    next
      case 2
      with b d show ?thesis by simp
    qed
  qed
  moreover have "2 * k \<le> free ?c" using redirected_free [OF rd] redirected_free [OF "2.prems"(1)] "2.prems"(4) by simp
  moreover have "make_pipes k (ps @ [(r, w)]) ?c = (res, cur1)" using "2.prems"(3) p by simp
  ultimately have "\<exists>qs. res = Some qs \<and> length qs = length (ps @ [(r, w)]) + k \<and> redirected t [] (pipe_fds qs) cur1 \<and> pipes_ok qs cur1"
    using "2.IH" [OF p [symmetric]] by simp
  then show ?case by simp
qed auto

text \<open>A thread's critical section gives back what it takes and consumes its two ends.\<close>

lemma enter_end_ok:
  assumes "redirected t S X cur" "set (end_list e) \<subseteq> set X" "0 < free cur" "std < 3" "std \<notin> fst ` set S"
    "enter_end e std cur = (s, cur1)"
  shows "redirected t (S @ saved s std) (filter (\<lambda>i. i \<notin> set (end_list e)) X) cur1 \<and> 0 < free cur1"
proof (cases e)
  case None
  with assms show ?thesis by (simp add: enter_end_def)
next
  case (Some fd)
  with assms(2) have fd: "fd \<in> set X" by simp
  from redirect_redirected [OF assms(1) fd assms(3-5)] obtain k t1 where
    r: "redirect fd std cur = (Some k, t1)" "redirected t (S @ [(std, k)]) X t1" by metis
  have "remove1 fd X = filter (\<lambda>i. i \<notin> set (end_list e)) X"
    using Some distinct_remove1_removeAll [OF redirected_distinct [OF assms(1)], of fd]
    by (simp add: removeAll_filter_not_eq) (metis (full_types))
  with close_redirected [OF r(2) fd] Some r(1) assms(6) show ?thesis by (auto simp: enter_end_def)
qed

lemma thread_section_ok:
  assumes "redirected t [] X cur" "set (end_list r) \<subseteq> set X" "set (end_list w) \<subseteq> set X"
    "set (end_list r) \<inter> set (end_list w) = {}" "0 < free cur"
  shows "redirected t [] (filter (\<lambda>i. i \<notin> set (end_list r) \<union> set (end_list w)) X) (thread_section r w cur)"
proof -
  obtain sin t1 where e1: "enter_end r 0 cur = (sin, t1)" by fastforce
  obtain sout t2 where e2: "enter_end w 1 t1 = (sout, t2)" by fastforce
  from enter_end_ok [OF assms(1,2,5) std_lt(1) _ e1]
  have r1: "redirected t (saved sin 0) (filter (\<lambda>i. i \<notin> set (end_list r)) X) t1" "0 < free t1" by auto
  have sub: "set (end_list w) \<subseteq> set (filter (\<lambda>i. i \<notin> set (end_list r)) X)" using assms(3,4) by auto
  from enter_end_ok [OF r1(1) sub r1(2) std_lt(2) _ e2]
  have r2: "redirected t (saved sin 0 @ saved sout 1) (filter (\<lambda>i. i \<notin> set (end_list r) \<union> set (end_list w)) X) t2"
    by (auto simp: conj_commute)
  from restore_saved [of t sout 1 "[]"] restore_saved [OF r2] e1 e2 show ?thesis
    by (simp add: thread_section_def thread_enter_def thread_leave_def)
qed

section \<open>What the stages get\<close>

text \<open>The shell's own table with the standard descriptors of stage \<open>i\<close> on its pipes.\<close>

definition std_ends :: "nat \<Rightarrow> nat \<Rightarrow> 'f ofile fds \<Rightarrow> 'f ofile fds" where
  "std_ends n i t =
     (let t1 = (if 0 < i then t[0 := Some (PipeRead (i - 1))] else t)
      in if Suc i < n then t1[1 := Some (PipeWrite i)] else t1)"

lemma length_std_ends [simp]: "length (std_ends n i t) = length t"
  by (simp add: std_ends_def Let_def)

lemma fold_close_eq:
  "length cur = length u \<Longrightarrow> (\<And>j. j < length u \<Longrightarrow> j \<notin> set L \<Longrightarrow> cur ! j = u ! j) \<Longrightarrow>
     (\<And>j. j \<in> set L \<Longrightarrow> u ! j = None) \<Longrightarrow> fold fd_close L cur = u"
proof (induction L arbitrary: cur)
  case (Cons a L)
  have "fold fd_close L (fd_close a cur) = u"
  proof (rule Cons.IH)
    fix j assume j: "j < length u" "j \<notin> set L"
    with Cons.prems show "fd_close a cur ! j = u ! j" by (cases "j = a") (auto simp: fd_close_def)
  qed (use Cons.prems in \<open>auto simp: fd_close_def\<close>)
  then show ?case by simp
qed (auto intro: nth_equalityI)

lemma redirected_same: "redirected b [] Q cur \<Longrightarrow> b ! j \<noteq> None \<Longrightarrow> j < length b \<Longrightarrow> cur ! j = b ! j"
  by (fastforce simp: redirected_def)

lemma redirected_trans:
  assumes "redirected t [] P b" "redirected b [] Q cur"
  shows "redirected t [] (P @ Q) cur"
proof -
  have "set P \<inter> set Q = {}" "\<And>j. j \<in> set Q \<Longrightarrow> t ! j = None"
    using assms by (fastforce simp: redirected_def)+
  moreover have "cur ! j \<noteq> None" if "j \<in> set P" for j
    using that assms redirected_same [OF assms(2), of j] by (auto simp: redirected_def)
  ultimately show ?thesis using assms by (auto simp: redirected_def)
qed

lemma pipe_ends_open:
  assumes "redirected t [] (pipe_fds ps) b" "pipes_ok ps b" "redirected b [] Q cur" "j < length ps"
  shows "cur ! fst (ps ! j) = Some (PipeRead j)" "cur ! snd (ps ! j) = Some (PipeWrite j)"
proof -
  have "fst (ps ! j) < length b" "snd (ps ! j) < length b"
    using redirected_bound [OF assms(1)] pipe_fds_mem [OF assms(4)] by blast+
  then show "cur ! fst (ps ! j) = Some (PipeRead j)" "cur ! snd (ps ! j) = Some (PipeWrite j)"
    using assms(2,4) redirected_same [OF assms(3)] by (auto simp: pipes_ok_def)
qed

lemma child_setup_eq:
  assumes "redirected t [] (pipe_fds ps) b" "pipes_ok ps b" "redirected b [] Q cur" "n = Suc (length ps)" "i < n"
    "set Q \<subseteq> set tfds" "\<And>j. j \<in> set tfds \<Longrightarrow> 3 \<le> j \<and> b ! j = None \<and> j < length b"
  shows "child_setup may c (stage_rd ps i) (stage_wr ps n i) ps tfds cur = child_redirects may c (std_ends n i t)"
proof -
  let ?u = "std_ends n i t" and ?m = "move_end (stage_wr ps n i) 1 (move_end (stage_rd ps i) 0 cur)"
  have so: "std_open cur" "std_open b" "length cur = length b" "length b = length t"
    using assms(1,3) by (simp_all add: redirected_def)
  have rd: "0 < i \<Longrightarrow> cur ! fst (ps ! (i - 1)) = Some (PipeRead (i - 1)) \<and> 3 \<le> fst (ps ! (i - 1))"
    using pipe_ends_open [OF assms(1-3), of "i - 1"] assms(4,5) redirected_bound [OF assms(1)]
      pipe_fds_mem [of "i - 1" ps] by auto
  have wr: "Suc i < n \<Longrightarrow> cur ! snd (ps ! i) = Some (PipeWrite i) \<and> 3 \<le> snd (ps ! i)"
    using pipe_ends_open [OF assms(1-3), of i] assms(4) redirected_bound [OF assms(1)]
      pipe_fds_mem [of i ps] by auto
  have m: "?m = std_ends n i cur"
    using rd wr by (auto simp: move_end_def stage_rd_def stage_wr_def std_ends_def fd_dup2_def)
  have at: "std_ends n i v ! j = (if j = 0 \<and> 0 < i then Some (PipeRead (i - 1))
      else if j = 1 \<and> Suc i < n then Some (PipeWrite i) else v ! j)" if "3 \<le> length v" for v :: "'a ofile fds" and j
  proof -
    have "0 < length v" "Suc 0 < length v" using that by linarith+
    then show ?thesis by (auto simp: std_ends_def nth_list_update)
  qed
  have "fold fd_close (pipe_fds ps @ tfds) (std_ends n i cur) = ?u"
  proof (rule fold_close_eq)
    show "length (std_ends n i cur) = length ?u" using so by simp
    have l: "3 \<le> length t" "3 \<le> length cur" using so by (simp_all add: std_open_def)
    show "std_ends n i cur ! j = ?u ! j" if "j < length ?u" "j \<notin> set (pipe_fds ps @ tfds)" for j
    proof -
      have "j < length t" using that by simp
      with that assms(1,3,6) so have "cur ! j = t ! j" by (auto simp: redirected_def)
      with l show ?thesis by (auto simp: at)
    qed
    show "?u ! j = None" if "j \<in> set (pipe_fds ps @ tfds)" for j
    proof -
      have "3 \<le> j \<and> t ! j = None"
      proof (cases "j \<in> set (pipe_fds ps)")
        case True
        with redirected_bound [OF assms(1)] show ?thesis by blast
      next
        case False
        with that assms(7) have "3 \<le> j" "b ! j = None" "j < length b" by auto
        with False assms(1) so show ?thesis by (auto simp: redirected_def)
      qed
      with l show ?thesis by (simp add: at)
    qed
  qed
  then show ?thesis unfolding child_setup_def m close_pipes_fold by simp
qed

lemma dup_end_ok:
  assumes "redirected b [] Q cur" "0 < free cur" "\<And>fd. e = Some fd \<Longrightarrow> cur ! fd \<noteq> None" "dup_end e cur = (d, cur1)"
  shows "(d = None \<longleftrightarrow> e = None) \<and> redirected b [] (end_list d @ Q) cur1 \<and> free cur \<le> free cur1 + 1"
proof (cases e)
  case None
  with assms show ?thesis by (auto simp: dup_end_def)
next
  case (Some fd)
  with assms(3) obtain f where f: "cur ! fd = Some f" by auto
  from open_redirected [OF assms(1,2), of f] obtain i where
    "fd_open f cur = (Some i, cur[i := Some f])" "redirected b [] (i # Q) (cur[i := Some f])"
    "Suc (free (cur[i := Some f])) = free cur" by metis
  with Some f assms(4) show ?thesis by (auto simp: dup_end_def fd_dup_def)
qed

text \<open>A stage whose thread cannot be created ends the launching with its two ends left open.\<close>

definition threads_start :: "(nat \<Rightarrow> bool) \<Rightarrow> nat \<Rightarrow> cmd list \<Rightarrow> bool" where
  "threads_start ok i cs \<longleftrightarrow>
     list_all (\<lambda>(k, c). cmd_argv c \<noteq> [] \<and> is_builtin_cmd (cmd_basename (hd (cmd_argv c))) \<longrightarrow> ok k) (enumerate i cs)"

fun children_ok :: "(cstring \<Rightarrow> bool) \<Rightarrow> nat \<Rightarrow> nat \<Rightarrow> cmd list \<Rightarrow> 'f handle list \<Rightarrow> 'f ofile fds \<Rightarrow> bool" where
  "children_ok may n i (c # cs) (h # hs) t =
     ((case h of Forked v \<Rightarrow> v = child_redirects may c (std_ends n i t) | _ \<Rightarrow> True)
      \<and> children_ok may n (Suc i) cs hs t)"
| "children_ok may n i cs hs t = (cs = [] \<and> hs = [])"

fun pending :: "'f handle list \<Rightarrow> nat list" where
  "pending (Threaded (Some (r, w)) # hs) = end_list r @ end_list w @ pending hs"
| "pending (h # hs) = pending hs"
| "pending [] = []"

lemma children_ok_unstarted: "children_ok may n i cs (replicate (length cs) Unstarted) t"
  by (induction cs arbitrary: i) auto

lemma pending_unstarted [simp]: "pending (replicate k Unstarted) = []"
  by (induction k) auto

lemma close_end_ok: "redirected b [] (end_list d @ Q) cur \<Longrightarrow> redirected b [] Q (close_end d cur)"
  by (cases d) (auto simp: close_end_def dest: close_redirected(1) [where i = "the d"])

lemma two_ends_section:
  assumes "redirected b [] (end_list w @ end_list r @ Q) cur" "0 < free cur"
  shows "redirected b [] Q (thread_section r w cur)"
proof -
  have d: "distinct (end_list w @ end_list r @ Q)" using assms(1) by (rule redirected_distinct)
  then have "filter (\<lambda>i. i \<notin> set (end_list r) \<union> set (end_list w)) (end_list w @ end_list r @ Q) = Q"
    by (auto simp: filter_empty_conv intro: filter_True)
  with thread_section_ok [OF assms(1) _ _ _ assms(2), of r w] d show ?thesis by auto
qed

lemma start_stages_ok:
  assumes b: "redirected t [] (pipe_fds ps) b" "pipes_ok ps b" "n = Suc (length ps)"
  shows "start_stages may early ok ps n i cs tfds cur = (hs, cur1) \<Longrightarrow> redirected b [] Q cur \<Longrightarrow> i + length cs = n \<Longrightarrow>
     set Q \<subseteq> set tfds \<Longrightarrow> (\<And>j. j \<in> set tfds \<Longrightarrow> 3 \<le> j \<and> b ! j = None \<and> j < length b) \<Longrightarrow> 2 * length cs + 2 \<le> free cur \<Longrightarrow>
     children_ok may n i cs hs t \<and> (threads_start ok i cs \<longrightarrow> redirected b [] (Q @ pending hs) cur1)"
proof (induction cs arbitrary: i tfds cur Q hs cur1)
  case Nil
  then show ?case by simp
next
  case (Cons c cs)
  note red = Cons.prems(2) and tf = Cons.prems(5)
  have i: "i < n" using Cons.prems(3) by simp
  show ?case
  proof (cases "cmd_argv c = []")
    case True
    then obtain hs1 where "start_stages may early ok ps n (Suc i) cs tfds cur = (hs1, cur1)" "hs = Unstarted # hs1"
      using Cons.prems(1) by (auto split: prod.splits)
    with Cons.IH [OF this(1) red _ Cons.prems(4) tf] Cons.prems(3,6) True show ?thesis
      by (simp add: threads_start_def)
  next
    case ne: False
    let ?b = "is_builtin_cmd (cmd_basename (hd (cmd_argv c)))"
    show ?thesis
    proof (cases ?b)
      case True
      obtain r t1 where r: "dup_end (stage_rd ps i) cur = (r, t1)" by fastforce
      obtain w t2 where w: "dup_end (stage_wr ps n i) t1 = (w, t2)" by fastforce
      have "0 < free cur" using Cons.prems(6) by simp
      have rd: "stage_rd ps i = Some fd \<Longrightarrow> cur ! fd \<noteq> None" for fd
        using pipe_ends_open [OF b(1,2) red, of "i - 1"] b(3) i by (auto simp: stage_rd_def split: if_splits)
      note r1 = dup_end_ok [OF red \<open>0 < free cur\<close> rd r, simplified]
      have wr: "stage_wr ps n i = Some fd \<Longrightarrow> t1 ! fd \<noteq> None" for fd
        using pipe_ends_open [OF b(1,2), of "end_list r @ Q" t1 i] r1 b(3) by (auto simp: stage_wr_def split: if_splits)
      have "0 < free t1" using r1 Cons.prems(6) by simp
      note w1 = dup_end_ok [OF _ this wr w, of b "end_list r @ Q"]
      have red2: "redirected b [] (end_list w @ end_list r @ Q) t2" and f2: "free cur \<le> free t2 + 2"
        using r1 w1 by auto
      have some: "\<not> ((stage_rd ps i \<noteq> None \<and> r = None) \<or> (stage_wr ps n i \<noteq> None \<and> w = None))"
        using r1 w1 by auto
      show ?thesis
      proof (cases "ok i")
        case False
        with Cons.prems(1) ne True r w some have "hs = replicate (length (c # cs)) Unstarted" by auto
        with False ne True show ?thesis
          using children_ok_unstarted [of may n i "c # cs" t] by (simp add: threads_start_def)
      next
        case okay: True
        let ?t3 = "if early i then thread_section r w t2 else t2" and ?p = "if early i then None else Some (r, w)"
        let ?tf = "tfds @ end_list r @ end_list w" and ?Q = "if early i then Q else Q @ end_list r @ end_list w"
        obtain hs1 where st: "start_stages may early ok ps n (Suc i) cs ?tf ?t3 = (hs1, cur1)" "hs = Threaded ?p # hs1"
          using Cons.prems(1) ne True r w some okay by (auto split: prod.splits)
        have q: "redirected b [] ?Q ?t3"
          using two_ends_section [OF red2] f2 Cons.prems(6) redirected_mset [OF _ red2, of "Q @ end_list r @ end_list w"]
          by auto
        have tf1: "3 \<le> j \<and> b ! j = None \<and> j < length b" if "j \<in> set ?tf" for j
          using that tf [of j] redirected_bound [OF red2, of j] red2 by (auto simp: redirected_def)
        have "2 * length cs + 2 \<le> free ?t3"
          using redirected_free [OF q] redirected_free [OF red] redirected_free [OF red2] f2 Cons.prems(6) by auto
        moreover have "set ?Q \<subseteq> set ?tf" using Cons.prems(4) by auto
        ultimately have "children_ok may n (Suc i) cs hs1 t \<and>
            (threads_start ok (Suc i) cs \<longrightarrow> redirected b [] (?Q @ pending hs1) cur1)"
          using Cons.IH [OF st(1) q _ _ tf1] Cons.prems(3) by simp
        then show ?thesis using st(2) by (cases "early i") (simp_all add: threads_start_def)
      qed
    next
      case False
      show ?thesis
      proof (cases "ok i")
        case nok: False
        with Cons.prems(1) ne False have "hs = replicate (length (c # cs)) Unstarted" "cur1 = cur" by auto
        with red show ?thesis using children_ok_unstarted [of may n i "c # cs" t] by (simp add: del: replicate_Suc)
      next
        case True
        then obtain hs1 where st: "start_stages may early ok ps n (Suc i) cs tfds cur = (hs1, cur1)"
          "hs = Forked (child_setup may c (stage_rd ps i) (stage_wr ps n i) ps tfds cur) # hs1"
          using Cons.prems(1) ne False by (auto split: prod.splits)
        with Cons.IH [OF st(1) red _ Cons.prems(4) tf] Cons.prems(3,6) False
          child_setup_eq [OF b(1,2) red b(3) i Cons.prems(4) tf, of may c] show ?thesis
          by (simp add: threads_start_def)
      qed
    qed
  qed
qed

section \<open>The whole pipeline\<close>

lemma length_pending: "length (pending hs) \<le> 2 * length hs"
proof (induction hs rule: pending.induct)
  case (1 r w hs)
  then show ?case by (cases r; cases w) auto
qed auto

lemma join_restores:
  "redirected t [] (pending hs) cur \<Longrightarrow> length (pending hs) < free t \<Longrightarrow> fold join_handle hs cur = t"
proof (induction hs arbitrary: cur rule: pending.induct)
  case (1 r w hs)
  have "mset (pending (Threaded (Some (r, w)) # hs)) = mset (end_list w @ end_list r @ pending hs)" by simp
  from two_ends_section [OF redirected_mset [OF this "1.prems"(1)]] redirected_free [OF "1.prems"(1)] "1.prems"(2)
  have "redirected t [] (pending hs) (thread_section r w cur)" by simp
  with 1 show ?case by simp
qed (simp_all add: redirected_Nil)

lemma children_ok_length: "children_ok may n i cs hs t \<Longrightarrow> length hs = length cs"
  by (induction may n i cs hs t rule: children_ok.induct) auto

lemma run_pipeline_run:
  assumes "std_open t" "64 \<le> free t" "0 < length cmds" "length cmds \<le> MAX_PIPELINE"
    "run_pipeline may early ok codes cmds t = (rc, hs, t1)"
  shows "children_ok may (length cmds) 0 cmds hs t \<and> (threads_start ok 0 cmds \<longrightarrow> t1 = t)
    \<and> rc = stage_status (codes (length cmds - 1)) (last hs)"
proof -
  let ?n = "length cmds"
  have r0: "redirected t [] (pipe_fds []) t" using assms(1) by (simp add: pipe_fds_def redirected_Nil)
  obtain res b where "make_pipes (?n - 1) [] t = (res, b)" by fastforce
  moreover have "2 * (?n - 1) \<le> free t" using assms(2,4) by (simp add: MAX_PIPELINE_def)
  ultimately obtain ps where mp: "make_pipes (?n - 1) [] t = (Some ps, b)" "length ps = ?n - 1"
    "redirected t [] (pipe_fds ps) b" "pipes_ok ps b"
    using make_pipes_ok [OF r0, of "?n - 1" res b] by (auto simp: pipes_ok_def)
  have n: "?n = Suc (length ps)" using mp(2) assms(3) by simp
  obtain hs1 t2 where st: "start_stages may early ok ps ?n 0 cmds [] b = (hs1, t2)" by fastforce
  have "redirected b [] [] b" using mp(3) by (simp add: redirected_Nil redirected_def)
  moreover have f: "free b + 2 * (?n - 1) = free t" using redirected_free [OF mp(3)] mp(2) by simp
  moreover have "2 * ?n + 2 \<le> free b" using f assms(2,4) by (simp add: MAX_PIPELINE_def)
  ultimately have ch: "children_ok may ?n 0 cmds hs1 t" and
    pend: "threads_start ok 0 cmds \<Longrightarrow> redirected b [] (pending hs1) t2"
    using start_stages_ok [OF mp(3,4) n st, of "[]"] by auto
  have l: "length hs1 = ?n" using children_ok_length [OF ch] .
  have eq: "rc = stage_status (codes (?n - 1)) (last hs1)" "hs = hs1" "t1 = fold join_handle hs1 (close_pipes ps t2)"
    using assms(3-5) mp(1) st l by (auto simp: run_pipeline_def Let_def)
  have "t1 = t" if "threads_start ok 0 cmds"
  proof -
    have "redirected t [] (pending hs1) (close_pipes ps t2)"
      unfolding close_pipes_fold
      by (rule fold_close_redirected [OF redirected_trans [OF mp(3) pend [OF that]]])
    moreover have "length (pending hs1) < free t"
      using length_pending [of hs1] l assms(2,4) by (simp add: MAX_PIPELINE_def)
    ultimately show ?thesis unfolding eq(3) by (rule join_restores)
  qed
  with ch eq show ?thesis by simp
qed



definition demo_table :: "nat ofile fds" where
  "demo_table = map Some [Old 0, Old 1, Old 2] @ replicate 64 None"

definition simple_cmd :: "cstring list \<Rightarrow> cmd" where
  "simple_cmd argv = \<lparr>cmd_argv = argv, stdin_file = None, stdout_file = None, stdout_append = False,
     stderr_file = None, stderr_append = False, stderr_both = False, background = False, pipe_next = False,
     ps_procs = []\<rparr>"

lemma demo_table_ok: "std_open demo_table" "64 \<le> free demo_table"
  by (auto simp: std_open_def free_def demo_table_def numeral_3_eq_3 less_Suc_eq nth_append filter_replicate)

definition demo_pipeline :: "cmd list" where
  "demo_pipeline = [simple_cmd [''jobs''], simple_cmd [''wc'', ''-l'']]"



text \<open>
  A stage started while a thread is inside its section inherits the thread's standard output. The
  last stage of \<open>jobs | wc\<close> then writes to the pipe it reads: its output is lost and it never sees
  the end of its input.
\<close>

lemma stage_forked_inside_section:
  assumes "redirected t [] [r, w, w1] cur" "cur ! r = Some (PipeRead 0)" "cur ! w1 = Some (PipeWrite 0)" "0 < free cur"
    "thread_enter None (Some w1) cur = (s, t1)"
  shows "move_end (stage_wr [(r, w)] 2 1) 1 (move_end (stage_rd [(r, w)] 1) 0 t1) ! 0 = Some (PipeRead 0)
    \<and> move_end (stage_wr [(r, w)] 2 1) 1 (move_end (stage_rd [(r, w)] 1) 0 t1) ! 1 = Some (PipeWrite 0)"
proof -
  have so: "std_open cur" using assms(1) by (simp add: redirected_def)
  then have len: "3 \<le> length cur" by (simp add: std_open_def)
  have "cur ! 1 \<noteq> None" using so std_lt(2) unfolding std_open_def by blast
  then obtain g where g: "cur ! 1 = Some g" by blast
  from fd_open_ok [OF assms(4) so, of g] obtain k where
    k: "fd_open g cur = (Some k, cur[k := Some g])" "3 \<le> k" "k < length cur" "cur ! k = None" by metis
  have b: "3 \<le> r" "3 \<le> w1" "r \<noteq> w1" "r \<noteq> k" "w1 \<noteq> k"
    using redirected_bound [OF assms(1)] redirected_distinct [OF assms(1)] k(4) assms(2,3) by auto
  have "t1 = cur[k := Some g, 1 := Some (PipeWrite 0), w1 := None]"
    using assms(3,5) g k b by (auto simp: thread_enter_def enter_end_def redirect_def fd_dup_def fd_dup2_def fd_close_def)
  then have "t1 ! 1 = Some (PipeWrite 0)" "t1 ! r = Some (PipeRead 0)" "0 < length t1"
    using b len assms(2) by (auto simp: nth_list_update)
  then show ?thesis by (auto simp: move_end_def stage_rd_def stage_wr_def fd_dup2_def)
qed

text \<open>When the last stage was never started the pipeline reports success.\<close>

lemma unstarted_last_stage_is_success:
  "run_pipeline may early (\<lambda>_. False) codes [simple_cmd [''false'']] t = (0, [Unstarted], t)"
  by (simp add: run_pipeline_def MAX_PIPELINE_def simple_cmd_def close_pipes_def dup_end_def stage_rd_def stage_wr_def
      stage_status_def)

text \<open>A built-in stage ignores the files its command is redirected to.\<close>

lemma builtin_stage_ignores_files:
  "is_builtin_cmd (cmd_basename (hd (cmd_argv c))) \<Longrightarrow>
     start_stages may early ok ps n i (c\<lparr>stdout_file := f, stdin_file := g\<rparr> # cs) tfds t
       = start_stages may early ok ps n i (c # cs) tfds t"
  by (simp cong: if_cong)

text \<open>A failed \<open>pthread_create\<close> leaves the copy of the pipe's write end open in the shell for good.\<close>

lemma failed_thread_leaks_end:
  assumes "std_open t" "3 \<le> free t" "is_builtin_cmd (cmd_basename (hd (cmd_argv c)))" "cmd_argv c \<noteq> []"
  shows "list_ex (\<lambda>e. e = Some (PipeWrite 0)) (snd (snd (run_pipeline may early (\<lambda>_. False) codes [c, d] t)))"
proof -
  have r0: "redirected t [] (pipe_fds []) t" using assms(1) by (simp add: pipe_fds_def redirected_Nil)
  obtain res b where mp: "make_pipes 1 [] t = (res, b)" by fastforce
  then obtain ps where ps: "res = Some ps" "length ps = 1" "redirected t [] (pipe_fds ps) b" "pipes_ok ps b"
    using make_pipes_ok [OF r0 _ mp] assms(2) by (auto simp: pipes_ok_def)
  then obtain r w where rw: "ps = [(r, w)]" by (cases ps) auto
  have f: "0 < free b" using redirected_free [OF ps(3)] assms(2) ps(2) by simp
  have w: "b ! w = Some (PipeWrite 0)" using ps(4) rw by (simp add: pipes_ok_def)
  have "redirected b [] [] b" using ps(3) by (simp add: redirected_Nil redirected_def)
  from open_redirected [OF this f, of "PipeWrite 0"] obtain k where
    k: "fd_open (PipeWrite 0) b = (Some k, b[k := Some (PipeWrite 0)])" "redirected b [] [k] (b[k := Some (PipeWrite 0)])"
    by metis
  have "redirected t [] (pipe_fds ps @ [k]) (b[k := Some (PipeWrite 0)])" by (rule redirected_trans [OF ps(3) k(2)])
  then have "redirected t [] [k] (close_pipes ps (b[k := Some (PipeWrite 0)]))"
    unfolding close_pipes_fold by (rule fold_close_redirected)
  have kb: "k < length b" "k \<noteq> r" "k \<noteq> w"
    using redirected_bound [OF k(2)] w ps(4) rw by (auto simp: pipes_ok_def)
  have "snd (snd (run_pipeline may early (\<lambda>_. False) codes [c, d] t)) = close_pipes ps (b[k := Some (PipeWrite 0)])"
    using mp ps(1) rw assms(3,4) k(1) w
    by (simp add: run_pipeline_def Let_def MAX_PIPELINE_def dup_end_def stage_rd_def stage_wr_def fd_dup_def)
  also have "\<dots> = b[k := Some (PipeWrite 0), r := None, w := None]" by (simp add: rw close_pipes_def fd_close_def)
  finally have "snd (snd (run_pipeline may early (\<lambda>_. False) codes [c, d] t))
      = b[k := Some (PipeWrite 0), r := None, w := None]" .
  moreover have "b[k := Some (PipeWrite 0), r := None, w := None] ! k = Some (PipeWrite 0)" using kb by simp
  ultimately show ?thesis unfolding list_ex_iff using kb(1) by (metis length_list_update nth_mem)
qed

end
