(* ===== verification/Catalog.thy ===== *)
theory Catalog
  imports Prelude
begin

text \<open>
  The command catalog of the \<open>@\<close> assistant (\<^verbatim>\<open>cmd_registry.c\<close>): the entries read from
  \<^verbatim>\<open>commands.json\<close>, the keyword lookup, and the command built from a template and the words of a
  query. The JSON parser (cJSON) and the regular expressions of the C library are arguments:
  \<open>parse\<close> gives the tree of a text, \<open>regexec p s\<close> the span of group 1 of the first match of \<open>p\<close>.
\<close>

section \<open>Entries\<close>

definition REGISTRY_MAX_ENTRIES :: nat where "REGISTRY_MAX_ENTRIES = 64"
definition REGISTRY_MAX_ALIASES :: nat where "REGISTRY_MAX_ALIASES = 10"
definition REGISTRY_MAX_ARGS :: nat where "REGISTRY_MAX_ARGS = 5"

record registry_entry =
  entry_id :: cstring
  description :: cstring
  entry_command :: cstring
  aliases :: "cstring list"
  category :: cstring
  requires_arg :: bool
  args :: "cstring list"

datatype json = JNull | JBool bool | JNum int | JStr cstring | JArr "json list" | JObj "(cstring \<times> json) list"

fun get_item :: "json \<Rightarrow> cstring \<Rightarrow> json option" where
  "get_item (JObj kvs) k = map_of kvs k"
| "get_item j k = None"

definition str_lower :: "nat \<Rightarrow> cstring \<Rightarrow> cstring" where
  "str_lower n src = map tolower (take (n - 1) src)"

definition copy_str :: "nat \<Rightarrow> json \<Rightarrow> cstring \<Rightarrow> cstring" where
  "copy_str dstsz obj key = (case get_item obj key of Some (JStr s) \<Rightarrow> fit dstsz s | _ \<Rightarrow> [])"

text \<open>The string elements of an array field, at most \<open>n\<close> of them.\<close>

fun strings_go :: "nat \<Rightarrow> nat \<Rightarrow> json list \<Rightarrow> cstring list" where
  "strings_go n sz [] = []"
| "strings_go n sz (j # js) =
     (if n = 0 then []
      else (case j of JStr s \<Rightarrow> fit sz s # strings_go (n - 1) sz js | _ \<Rightarrow> strings_go n sz js))"

definition string_array :: "nat \<Rightarrow> nat \<Rightarrow> json \<Rightarrow> cstring \<Rightarrow> cstring list" where
  "string_array n sz obj key = (case get_item obj key of Some (JArr js) \<Rightarrow> strings_go n sz js | _ \<Rightarrow> [])"

definition load_entry :: "json \<Rightarrow> registry_entry" where
  "load_entry j = \<lparr>entry_id = copy_str 64 j ''id'', description = copy_str 256 j ''description'',
     entry_command = copy_str 512 j ''command'',
     aliases = string_array REGISTRY_MAX_ALIASES 128 j ''aliases'', category = copy_str 32 j ''category'',
     requires_arg = (get_item j ''requires_arg'' = Some (JBool True)),
     args = string_array REGISTRY_MAX_ARGS 32 j ''args''\<rparr>"

text \<open>\<open>registry_load\<close>: the return code and the entries; a failure leaves the ones there were.\<close>

definition registry_load ::
  "(cstring \<Rightarrow> json option) \<Rightarrow> cstring option \<Rightarrow> registry_entry list \<Rightarrow> int \<times> registry_entry list" where
  "registry_load parse file reg = (case file of
      None \<Rightarrow> (-1, reg)
    | Some bytes \<Rightarrow>
        (case parse (c_str bytes) of
           None \<Rightarrow> (-1, reg)
         | Some root \<Rightarrow>
             (case get_item root ''commands'' of
                Some (JArr js) \<Rightarrow>
                  (let es = map load_entry (take REGISTRY_MAX_ENTRIES js) in (int (length es), es))
              | _ \<Rightarrow> (-1, reg))))"

section \<open>Lookup by keywords\<close>

definition word_sep :: "char \<Rightarrow> bool" where
  [shell_defs]: "word_sep c \<longleftrightarrow> c = CHR '' '' \<or> c = TAB \<or> c = NL"

definition tokenise_words :: "cstring \<Rightarrow> cstring list" where
  "tokenise_words src = take 32 (map (fit 64) (filter (\<lambda>t. 1 < length t) (strtok word_sep (str_lower 512 src))))"

definition alias_score :: "cstring \<Rightarrow> cstring list \<Rightarrow> nat" where
  "alias_score al words = length (filter (\<lambda>w. strstr (str_lower 256 al) w \<noteq> None) words)"

definition score_step :: "cstring list \<Rightarrow> registry_entry \<Rightarrow> cstring \<Rightarrow> nat \<times> registry_entry option \<Rightarrow> nat \<times> registry_entry option" where
  "score_step words e txt best =
     (if fst best < alias_score txt words then (alias_score txt words, Some e) else best)"

definition entry_step :: "cstring list \<Rightarrow> registry_entry \<Rightarrow> nat \<times> registry_entry option \<Rightarrow> nat \<times> registry_entry option" where
  "entry_step words e best = score_step words e (description e) (fold (score_step words e) (aliases e) best)"

definition registry_lookup :: "registry_entry list \<Rightarrow> cstring \<Rightarrow> registry_entry option" where
  "registry_lookup reg query =
     (if reg = [] then None
      else let words = tokenise_words query in
        if words = [] then None else snd (fold (entry_step words) reg (1, None)))"

section \<open>Commands from templates\<close>

definition extract_path :: "cstring \<Rightarrow> cstring option" where
  "extract_path query = map_option (fit 256)
     (find (\<lambda>t. hd t = CHR ''/'' \<or> hd t = CHR ''~'' \<or> hd t = CHR ''.'') (strtok word_sep (fit 512 query)))"

definition extract_number :: "cstring \<Rightarrow> cstring option" where
  "extract_number query = (let s = dropWhile (\<lambda>c. \<not> isdigit c) query in
     if s = [] then None else Some (fit 256 (takeWhile isdigit s)))"

definition days_patterns :: "cstring list" where
  "days_patterns = [''than[[:space:]]+([0-9]+)'', ''([0-9]+)[[:space:]]+days?'']"

definition extract_days_smart :: "(cstring \<Rightarrow> cstring \<Rightarrow> (nat \<times> nat) option) \<Rightarrow> cstring \<Rightarrow> cstring option" where
  "extract_days_smart regexec query =
     (case find (\<lambda>p. regexec p query \<noteq> None) days_patterns of
        None \<Rightarrow> extract_number query
      | Some p \<Rightarrow> (case regexec p query of
            None \<Rightarrow> None | Some (so, eo) \<Rightarrow> Some (fit 256 (take (eo - so) (drop so query)))))"

definition name_skip :: "cstring list" where
  "name_skip = [''find'', ''delete'', ''remove'', ''clean'', ''purge'', ''show'', ''list'', ''get'',
     ''older'', ''than'', ''days'', ''files'', ''file'', ''in'', ''at'', ''the'', ''a'', ''an'',
     ''for'', ''with'', ''from'', ''to'', ''of'', ''and'', ''or'']"

definition extract_name :: "cstring \<Rightarrow> cstring option" where
  "extract_name query =
     (let ts = filter (\<lambda>t. \<not> isdigit (hd t) \<and> str_lower 64 t \<notin> set name_skip) (strtok word_sep (fit 512 query))
      in if ts = [] then None else Some (fit 256 (last ts)))"

text \<open>One placeholder; a result that does not fit the buffer of \<open>dstsz\<close> bytes is refused.\<close>

definition substitute :: "cstring \<Rightarrow> cstring \<Rightarrow> cstring \<Rightarrow> nat \<Rightarrow> cstring option" where
  "substitute src placeholder val dstsz =
     (let marker = fit 64 (''{'' @ placeholder @ ''}'') in
      case strstr src marker of
        None \<Rightarrow> None
      | Some pre \<Rightarrow>
          let rest = drop (pre + length marker) src in
          if dstsz < pre + length val + length rest + 1 then None else Some (take pre src @ val @ rest))"

definition extract_arg :: "(cstring \<Rightarrow> cstring \<Rightarrow> (nat \<times> nat) option) \<Rightarrow> cstring \<Rightarrow> cstring \<Rightarrow> cstring" where
  "extract_arg regexec query argname =
     (let found = (if argname = ''path'' then extract_path query
        else if argname = ''days'' \<or> argname = ''count'' then extract_days_smart regexec query
        else if argname \<in> set [''host'', ''name'', ''file'', ''pattern''] then extract_name query
        else None)
      in case found of None \<Rightarrow> [] | Some v \<Rightarrow> v)"

definition extract_args_for_entry ::
  "(cstring \<Rightarrow> cstring \<Rightarrow> (nat \<times> nat) option) \<Rightarrow> registry_entry \<Rightarrow> cstring \<Rightarrow> cstring list" where
  "extract_args_for_entry regexec e query = map (extract_arg regexec query) (take REGISTRY_MAX_ARGS (args e))"

fun build_go :: "cstring \<Rightarrow> (cstring \<times> cstring) list \<Rightarrow> cstring option" where
  "build_go result [] = Some result"
| "build_go result ((a, v) # avs) =
     (if v = [] then None
      else build_go (case substitute result a v 1024 of None \<Rightarrow> result | Some t \<Rightarrow> fit 1024 t) avs)"

definition registry_build_command ::
  "(cstring \<Rightarrow> cstring \<Rightarrow> (nat \<times> nat) option) \<Rightarrow> registry_entry \<Rightarrow> cstring \<Rightarrow> cstring option" where
  "registry_build_command regexec e query =
     build_go (fit 1024 (entry_command e)) (zip (args e) (extract_args_for_entry regexec e query))"

section \<open>What is loaded\<close>

definition entry_ok :: "registry_entry \<Rightarrow> bool" where
  "entry_ok e \<longleftrightarrow> length (entry_id e) < 64 \<and> length (description e) < 256 \<and> length (entry_command e) < 512
     \<and> length (category e) < 32 \<and> length (aliases e) \<le> REGISTRY_MAX_ALIASES
     \<and> list_all (\<lambda>a. length a < 128) (aliases e)
     \<and> length (args e) \<le> REGISTRY_MAX_ARGS \<and> list_all (\<lambda>a. length a < 32) (args e)"

definition catalog_ok :: "registry_entry list \<Rightarrow> bool" where
  "catalog_ok reg \<longleftrightarrow> length reg \<le> REGISTRY_MAX_ENTRIES \<and> list_all entry_ok reg"

lemma fit_less: "0 < n \<Longrightarrow> length (fit n s) < n"
  using length_fit [of n s] by linarith

lemma length_copy_str: "0 < n \<Longrightarrow> length (copy_str n j k) < n"
  by (auto simp: copy_str_def fit_less split: option.split json.split)

lemma strings_go_bounds:
  "0 < sz \<Longrightarrow> length (strings_go n sz js) \<le> n \<and> list_all (\<lambda>a. length a < sz) (strings_go n sz js)"
  by (induction n sz js rule: strings_go.induct) (auto simp: fit_less split: json.split)

lemma string_array_bounds:
  "0 < sz \<Longrightarrow> length (string_array n sz j k) \<le> n \<and> list_all (\<lambda>a. length a < sz) (string_array n sz j k)"
  using strings_go_bounds by (auto simp: string_array_def split: option.split json.split)

lemma load_entry_ok: "entry_ok (load_entry j)"
  using string_array_bounds [of 128 REGISTRY_MAX_ALIASES j "''aliases''"]
    string_array_bounds [of 32 REGISTRY_MAX_ARGS j "''args''"]
  by (simp add: entry_ok_def load_entry_def length_copy_str)

theorem registry_load_bounds:
  assumes "catalog_ok reg" "registry_load parse file reg = (n, reg1)"
  shows "catalog_ok reg1 \<and> (n = -1 \<and> reg1 = reg \<or> n = int (length reg1))"
  using assms
  by (auto simp: registry_load_def catalog_ok_def Let_def list_all_iff load_entry_ok
      split: option.splits json.splits)

definition demo_entry_json :: json where
  "demo_entry_json = JObj [(''id'', JStr ''du''), (''command'', JStr ''du -sh {path}''),
     (''description'', JStr ''disk usage of a directory''), (''requires_arg'', JBool True),
     (''aliases'', JArr [JStr ''disk usage'', JNum 3]), (''args'', JArr [JStr ''path''])]"

definition demo_entry :: registry_entry where
  "demo_entry = \<lparr>entry_id = ''du'', description = ''disk usage of a directory'', entry_command = ''du -sh {path}'',
     aliases = [''disk usage''], category = [], requires_arg = True, args = [''path'']\<rparr>"

lemma load_demo: "load_entry demo_entry_json = demo_entry"
  by (simp add: load_entry_def demo_entry_json_def demo_entry_def copy_str_def string_array_def fit_def
      REGISTRY_MAX_ALIASES_def REGISTRY_MAX_ARGS_def)

theorem registry_load_bounds_witness:
  "catalog_ok [demo_entry]
   \<and> registry_load (\<lambda>s. Some (JObj [(''commands'', JArr [demo_entry_json])])) (Some ''{}'') [] = (1, [demo_entry])"
proof -
  have r: "registry_load (\<lambda>s. Some (JObj [(''commands'', JArr [demo_entry_json])])) (Some ''{}'') [] = (1, [demo_entry])"
    by (simp add: registry_load_def REGISTRY_MAX_ENTRIES_def load_demo)
  moreover have "catalog_ok []" by (simp add: catalog_ok_def)
  ultimately show ?thesis using registry_load_bounds [OF _ r] by simp
qed

section \<open>The best entry\<close>

definition entry_score :: "cstring list \<Rightarrow> registry_entry \<Rightarrow> nat" where
  "entry_score words e = fold (\<lambda>t. max (alias_score t words)) (aliases e @ [description e]) 0"

lemma fold_max_score:
  "fold (\<lambda>t. max (alias_score t words)) ts (m::nat) = max m (fold (\<lambda>t. max (alias_score t words)) ts 0)"
proof (induction ts arbitrary: m)
  case (Cons t ts)
  show ?case
    using Cons.IH [of "max (alias_score t words) m"] Cons.IH [of "alias_score t words"] by (simp add: max.assoc max.left_commute)
qed simp

lemma fold_score_step:
  "fold (score_step words e) ts best =
     (if fst best < fold (\<lambda>t. max (alias_score t words)) ts 0
      then (fold (\<lambda>t. max (alias_score t words)) ts 0, Some e) else best)"
proof (induction ts arbitrary: best)
  case (Cons t ts)
  obtain F where F: "fold (\<lambda>t. max (alias_score t words)) ts 0 = F" by simp
  have "fold (\<lambda>t. max (alias_score t words)) (t # ts) 0 = max (alias_score t words) F"
    using fold_max_score [of words ts "max (alias_score t words) 0"] F by simp
  moreover have "score_step words e t best = (if fst best < alias_score t words then (alias_score t words, Some e) else best)"
    by (simp add: score_step_def)
  ultimately show ?case using Cons.IH [of "score_step words e t best"] F by auto
qed simp

lemma entry_step_eq:
  "entry_step words e best = (if fst best < entry_score words e then (entry_score words e, Some e) else best)"
proof -
  have "entry_step words e best = fold (score_step words e) (aliases e @ [description e]) best"
    by (simp add: entry_step_def)
  then show ?thesis by (simp only: fold_score_step entry_score_def)
qed

text \<open>The scan keeps the first entry of the highest score above the threshold.\<close>

definition scan_ok :: "cstring list \<Rightarrow> nat \<Rightarrow> registry_entry list \<Rightarrow> nat \<times> registry_entry option \<Rightarrow> bool" where
  "scan_ok words m reg best \<longleftrightarrow> (case snd best of
      None \<Rightarrow> fst best = m \<and> (\<forall>e\<in>set reg. entry_score words e \<le> m)
    | Some b \<Rightarrow> \<exists>xs ys. reg = xs @ b # ys \<and> fst best = entry_score words b \<and> m < entry_score words b
        \<and> (\<forall>e\<in>set xs. entry_score words e < entry_score words b)
        \<and> (\<forall>e\<in>set ys. entry_score words e \<le> entry_score words b))"

lemma scan_ok_step:
  assumes "scan_ok words m reg best"
  shows "scan_ok words m (reg @ [e]) (entry_step words e best)"
proof (cases "fst best < entry_score words e")
  case True
  then have "\<forall>x\<in>set reg. entry_score words x < entry_score words e" "m < entry_score words e"
    using assms by (fastforce simp: scan_ok_def split: option.splits)+
  then have "\<exists>xs ys. reg @ [e] = xs @ e # ys \<and> (\<forall>x\<in>set xs. entry_score words x < entry_score words e)
      \<and> (\<forall>y\<in>set ys. entry_score words y \<le> entry_score words e)"
    by (intro exI [of _ reg] exI [of _ "[]"]) simp
  with True \<open>m < entry_score words e\<close> show ?thesis by (simp add: entry_step_eq scan_ok_def)
next
  case False
  with assms show ?thesis by (fastforce simp: entry_step_eq scan_ok_def split: option.splits)
qed

lemma scan_ok_fold: "scan_ok words m xs best \<Longrightarrow> scan_ok words m (xs @ reg) (fold (entry_step words) reg best)"
proof (induction reg arbitrary: xs best)
  case (Cons e reg)
  from Cons.IH [OF scan_ok_step [OF Cons.prems, of e]] show ?case by simp
qed simp

theorem registry_lookup_best:
  "case registry_lookup reg query of
     None \<Rightarrow> list_all (\<lambda>e. entry_score (tokenise_words query) e \<le> 1) reg
   | Some b \<Rightarrow> 1 < entry_score (tokenise_words query) b
       \<and> find (\<lambda>e. list_all (\<lambda>x. entry_score (tokenise_words query) x \<le> entry_score (tokenise_words query) e) reg) reg
         = Some b"
proof (cases "reg = [] \<or> tokenise_words query = []")
  case True
  have "alias_score t [] = 0" for t by (simp add: alias_score_def)
  then have "fold (\<lambda>t. max (alias_score t [])) ts 0 = (0::nat)" for ts by (induction ts) auto
  with True \<open>\<And>t. alias_score t [] = 0\<close> show ?thesis by (auto simp: registry_lookup_def entry_score_def list_all_iff)
next
  case False
  let ?w = "tokenise_words query"
  obtain sc b where sb: "fold (entry_step ?w) reg (1, None) = (sc, b)" by fastforce
  have "scan_ok ?w 1 reg (sc, b)"
  proof -
    have "scan_ok ?w 1 [] (1, None)" by (simp add: scan_ok_def)
    from scan_ok_fold [OF this, of reg] sb show ?thesis by simp
  qed
  moreover have l: "registry_lookup reg query = b" using False sb by (simp add: registry_lookup_def Let_def)
  ultimately show ?thesis
  proof (cases b)
    case (Some e)
    with \<open>scan_ok ?w 1 reg (sc, b)\<close> obtain xs ys where x: "reg = xs @ e # ys" "1 < entry_score ?w e"
      "\<forall>x\<in>set xs. entry_score ?w x < entry_score ?w e" "\<forall>x\<in>set ys. entry_score ?w x \<le> entry_score ?w e"
      by (auto simp: scan_ok_def)
    let ?P = "\<lambda>y. list_all (\<lambda>x. entry_score ?w x \<le> entry_score ?w y) reg"
    have "?P e" using x by (fastforce simp: list_all_iff)
    moreover have "\<not> ?P y" if "y \<in> set xs" for y
    proof -
      have "entry_score ?w y < entry_score ?w e" using that x(3) by blast
      moreover have "e \<in> set reg" using x(1) by simp
      ultimately show ?thesis unfolding list_all_iff by (metis not_le)
    qed
    then have "find ?P xs = None" by (simp add: find_None_iff)
    ultimately have "find ?P reg = Some e" unfolding x(1) by (simp add: find_append_cases)
    with l Some x(2) show ?thesis by simp
  qed (auto simp: scan_ok_def list_all_iff)
qed

section \<open>What a template becomes\<close>

lemma substitute_bound: "substitute src a v n = Some t \<Longrightarrow> length t < n"
proof -
  assume a: "substitute src a v n = Some t"
  then obtain pre where "strstr src (fit 64 (''{'' @ a @ ''}'')) = Some pre" "t = take pre src @ v
      @ drop (pre + length (fit 64 (''{'' @ a @ ''}''))) src"
    "\<not> n < pre + length v + length (drop (pre + length (fit 64 (''{'' @ a @ ''}''))) src) + 1"
    by (auto simp: substitute_def Let_def split: option.splits if_splits)
  then show "length t < n" by simp
qed

lemma build_go_result:
  "length r < 1024 \<Longrightarrow> case build_go r avs of None \<Rightarrow> list_ex (\<lambda>(a, v). v = []) avs
    | Some t \<Rightarrow> length t < 1024 \<and> list_all (\<lambda>(a, v). v \<noteq> []) avs"
proof (induction r avs rule: build_go.induct)
  case (2 result a v avs)
  show ?case
  proof (cases "v = []")
    case False
    have "length (case substitute result a v 1024 of None \<Rightarrow> result | Some t \<Rightarrow> fit 1024 t) < 1024"
      using "2.prems" by (auto simp: fit_less split: option.split)
    from "2.IH" [OF False this] False show ?thesis by (auto split: option.splits)
  qed simp
qed simp

theorem build_command_args:
  assumes "entry_ok e"
  shows "case registry_build_command regexec e query of
      None \<Rightarrow> list_ex (\<lambda>a. extract_arg regexec query a = []) (args e)
    | Some cmd \<Rightarrow> length cmd < 1024 \<and> list_all (\<lambda>a. extract_arg regexec query a \<noteq> []) (args e)"
proof -
  have "take REGISTRY_MAX_ARGS (args e) = args e" using assms by (simp add: entry_ok_def)
  moreover have "length (fit 1024 (entry_command e)) < 1024" by (simp add: fit_less)
  note build_go_result [OF this, of "zip (args e) (map (extract_arg regexec query) (args e))"]
  moreover have "zip xs (map f xs) = map (\<lambda>x. (x, f x)) xs" for f :: "cstring \<Rightarrow> cstring" and xs
    by (induction xs) auto
  ultimately show ?thesis
    by (simp add: registry_build_command_def extract_args_for_entry_def list_all_iff list_ex_iff split: option.splits)
qed

theorem build_command_args_witness:
  "entry_ok demo_entry \<and> (case registry_build_command (\<lambda>_ _. None) demo_entry ''disk usage'' of
      None \<Rightarrow> list_ex (\<lambda>a. extract_arg (\<lambda>_ _. None) ''disk usage'' a = []) [''path''] | Some cmd \<Rightarrow> length cmd < 1024)"
proof -
  have e: "entry_ok demo_entry" using load_entry_ok [of demo_entry_json] by (simp only: load_demo)
  then show ?thesis
    using build_command_args [OF e, of "\<lambda>_ _. None" "''disk usage''"] by (auto simp: demo_entry_def split: option.splits)
qed

theorem template_filled:
  assumes "entry_command e = pre @ ''{'' @ a @ ''}'' @ post" "args e = [a]" "length a < 32"
    "\<not> sublist (''{'' @ a @ ''}'') (pre @ ''{'' @ a)" "extract_arg regexec query a = v" "v \<noteq> []"
    "length (entry_command e) < 512" "length pre + length v + length post < 1024"
  shows "registry_build_command regexec e query = Some (pre @ v @ post)"
proof -
  let ?m = "''{'' @ a @ ''}''"
  have m: "fit 64 ?m = ?m" using assms(3) by (simp add: fit_id)
  have "strstr (pre @ ?m @ post) ?m = Some (length pre)"
    by (rule strstr_at) (use assms(4) in \<open>simp add: butlast_append\<close>)
  then have "substitute (pre @ ?m @ post) a v 1024 = Some (pre @ v @ post)"
    unfolding substitute_def m Let_def using assms(8) by simp
  moreover have "fit 1024 (entry_command e) = pre @ ?m @ post" using assms(1,7) by (simp add: fit_id)
  ultimately show ?thesis
    using assms(2,5,6,8)
    by (simp add: registry_build_command_def extract_args_for_entry_def REGISTRY_MAX_ARGS_def fit_id)
qed

text \<open>The word of the query reaches the command as it is, whatever it holds.\<close>

theorem template_filled_witness:
  "registry_build_command (\<lambda>_ _. None) demo_entry ''usage of /tmp;reboot'' = Some ''du -sh /tmp;reboot''"
proof -
  have "extract_arg (\<lambda>_ _. None) ''usage of /tmp;reboot'' ''path'' = ''/tmp;reboot''"
    by (simp add: extract_arg_def extract_path_def fit_def strtok_def word_sep_def TAB_def NL_def)
  moreover have "\<not> sublist ''{path}'' ''du -sh {path''" by (simp add: sublist_Cons_right)
  ultimately show ?thesis
    using template_filled [of demo_entry "''du -sh ''" "''path''" "[]" "\<lambda>_ _. None" "''usage of /tmp;reboot''" "''/tmp;reboot''"]
    by (simp add: demo_entry_def)
qed

end
