(* ===== verification/Rag.thy ===== *)
theory Rag
  imports Catalog "HOL-Library.Multiset"
begin

text \<open>
  The retrieval of \<^verbatim>\<open>rag_retriever.c\<close>: the words of a text, the vocabulary and the term counts
  of the documents, and the selection of the best documents. The weights and the cosine are
  floating point and stay an argument: \<open>score\<close> gives the similarity of the query's counts and a
  document, compared by \<open><\<close> only.
\<close>

section \<open>Words\<close>

definition RAG_MAX_VOCAB :: nat where "RAG_MAX_VOCAB = 1024"
definition RAG_MAX_DOCS :: nat where "RAG_MAX_DOCS = 64"
definition RAG_TOP_K :: nat where "RAG_TOP_K = 3"

definition STOPWORDS :: "cstring list" where
  "STOPWORDS = [''the'', ''a'', ''an'', ''is'', ''to'', ''for'', ''in'', ''of'', ''and'', ''or'', ''not'',
     ''with'', ''from'', ''by'', ''on'', ''at'', ''its'', ''this'', ''that'', ''all'']"

definition is_stopword :: "cstring \<Rightarrow> bool" where
  "is_stopword w \<longleftrightarrow> list_ex (\<lambda>s. w = s) STOPWORDS"

text \<open>The scan both tokenisers share: runs of letters and underscores, cut to 127 characters.\<close>

fun rag_words_go :: "cstring \<Rightarrow> cstring \<Rightarrow> cstring list" where
  "rag_words_go buf [] = (if buf = [] then [] else [buf])"
| "rag_words_go buf (c # s) =
     (if isalpha c \<or> c = CHR ''_'' then rag_words_go (if length buf < 127 then buf @ [tolower c] else buf) s
      else if buf = [] then rag_words_go [] s
      else buf # rag_words_go [] s)"

definition rag_words :: "cstring \<Rightarrow> cstring list" where
  "rag_words text = filter (\<lambda>w. \<not> is_stopword w) (rag_words_go [] text)"

section \<open>The index\<close>

definition vocab_find :: "cstring list \<Rightarrow> cstring \<Rightarrow> nat option" where
  "vocab_find vocab w = first_idx (\<lambda>v. v = w) vocab"

text \<open>A new word is stored in 64 bytes: a longer one is cut and never found again.\<close>

definition vocab_find_or_add :: "cstring list \<Rightarrow> cstring \<Rightarrow> nat option \<times> cstring list" where
  "vocab_find_or_add vocab w = (case vocab_find vocab w of
      Some i \<Rightarrow> (Some i, vocab)
    | None \<Rightarrow> if RAG_MAX_VOCAB \<le> length vocab then (None, vocab) else (Some (length vocab), vocab @ [fit 64 w]))"

definition count_word :: "cstring \<Rightarrow> cstring list \<times> (nat \<Rightarrow> nat) \<Rightarrow> cstring list \<times> (nat \<Rightarrow> nat)" where
  "count_word w st = (case vocab_find_or_add (fst st) w of
      (Some i, vocab) \<Rightarrow> (vocab, (snd st)(i := Suc (snd st i)))
    | (None, vocab) \<Rightarrow> (vocab, snd st))"

definition tokenize_into_tf :: "cstring \<Rightarrow> cstring list \<times> (nat \<Rightarrow> nat) \<Rightarrow> cstring list \<times> (nat \<Rightarrow> nat)" where
  "tokenize_into_tf text st = fold count_word (rag_words text) st"

definition tokenize_query :: "cstring list \<Rightarrow> cstring \<Rightarrow> nat \<Rightarrow> nat" where
  "tokenize_query vocab text = fold (\<lambda>w qv. case vocab_find vocab w of None \<Rightarrow> qv | Some i \<Rightarrow> qv(i := Suc (qv i)))
     (rag_words text) (\<lambda>_. 0)"

record rag_doc =
  doc_id :: cstring
  doc_desc :: cstring
  doc_cmd :: cstring
  raw_tf :: "nat \<Rightarrow> nat"

definition index_entry_cb :: "registry_entry \<Rightarrow> cstring list \<times> rag_doc list \<Rightarrow> cstring list \<times> rag_doc list" where
  "index_entry_cb e st =
     (case st of (vocab, docs) \<Rightarrow>
        if RAG_MAX_DOCS \<le> length docs then (vocab, docs)
        else (case fold tokenize_into_tf (description e # aliases e @ [entry_id e, entry_command e]) (vocab, \<lambda>_. 0) of
                (vocab1, tf) \<Rightarrow> (vocab1, docs @ [\<lparr>doc_id = fit 64 (entry_id e), doc_desc = fit 256 (description e),
                   doc_cmd = fit 512 (entry_command e), raw_tf = tf\<rparr>])))"

definition rag_build_index :: "registry_entry list \<Rightarrow> cstring list \<times> rag_doc list" where
  "rag_build_index reg = fold index_entry_cb reg ([], [])"

text \<open>Document frequency: in how many documents a word of the vocabulary occurs.\<close>

definition doc_freq :: "rag_doc list \<Rightarrow> nat \<Rightarrow> nat" where
  "doc_freq docs w = length (filter (\<lambda>d. 0 < raw_tf d w) docs)"

section \<open>Selection\<close>

text \<open>\<open>rag_query\<close> selects by exchanges on an array of indices: the inner loop, the outer loop.\<close>

fun select_inner :: "(nat \<Rightarrow> 's::linorder) \<Rightarrow> nat \<Rightarrow> nat list \<Rightarrow> nat \<times> nat list" where
  "select_inner score best [] = (best, [])"
| "select_inner score best (j # js) =
     (if score best < score j
      then (case select_inner score j js of (b, r) \<Rightarrow> (b, best # r))
      else (case select_inner score best js of (b, r) \<Rightarrow> (b, j # r)))"

fun select_top :: "(nat \<Rightarrow> 's::linorder) \<Rightarrow> nat \<Rightarrow> nat list \<Rightarrow> nat list" where
  "select_top score 0 order = order"
| "select_top score (Suc k) [] = []"
| "select_top score (Suc k) (i # order) =
     (case select_inner score i order of (b, r) \<Rightarrow> b # select_top score k r)"

record 's rag_result =
  res_id :: cstring
  res_description :: cstring
  res_command :: cstring
  res_score :: 's

definition rag_result_of :: "(nat \<Rightarrow> 's) \<Rightarrow> rag_doc list \<Rightarrow> nat \<Rightarrow> 's rag_result" where
  "rag_result_of score docs d = \<lparr>res_id = doc_id (docs ! d), res_description = doc_desc (docs ! d),
     res_command = doc_cmd (docs ! d), res_score = score d\<rparr>"

text \<open>
  \<open>score tf\<close> is \<open>None\<close> when the magnitude of the query vector is below \<open>1e-9\<close>; \<open>min_score\<close> is
  \<open>RAG_MIN_SCORE\<close>.
\<close>

definition rag_select :: "(nat \<Rightarrow> 's::linorder) \<Rightarrow> 's \<Rightarrow> nat \<Rightarrow> nat \<Rightarrow> nat list" where
  "rag_select score min_score max_k n =
     (let k = min max_k n in takeWhile (\<lambda>d. \<not> score d < min_score) (take k (select_top score k [0..<n])))"

definition rag_query ::
  "((nat \<Rightarrow> nat) \<Rightarrow> (nat \<Rightarrow> 's::linorder) option) \<Rightarrow> 's \<Rightarrow> cstring list \<times> rag_doc list \<Rightarrow> cstring \<Rightarrow> nat \<Rightarrow> 's rag_result list" where
  "rag_query score_of min_score idx query max_k =
     (case idx of (vocab, docs) \<Rightarrow>
        if docs = [] \<or> vocab = [] then []
        else (case score_of (tokenize_query vocab query) of
                None \<Rightarrow> []
              | Some score \<Rightarrow> map (rag_result_of score docs) (rag_select score min_score max_k (length docs))))"

section \<open>The vocabulary\<close>

definition vocab_ok :: "cstring list \<Rightarrow> bool" where
  "vocab_ok vocab \<longleftrightarrow> length vocab \<le> RAG_MAX_VOCAB \<and> list_all (\<lambda>w. length w < 64) vocab"

lemma fold_invariant: "P st \<Longrightarrow> (\<And>x st. P st \<Longrightarrow> P (f x st)) \<Longrightarrow> P (fold f xs st)"
  by (induction xs arbitrary: st) auto

lemma count_word_ok: "vocab_ok (fst st) \<Longrightarrow> vocab_ok (fst (count_word w st))"
  by (auto simp: count_word_def vocab_find_or_add_def vocab_ok_def RAG_MAX_VOCAB_def fit_less split: option.splits)

lemma tokenize_into_tf_ok: "vocab_ok (fst st) \<Longrightarrow> vocab_ok (fst (tokenize_into_tf text st))"
  unfolding tokenize_into_tf_def by (rule fold_invariant) (auto intro: count_word_ok)

definition index_ok :: "cstring list \<times> rag_doc list \<Rightarrow> bool" where
  "index_ok idx \<longleftrightarrow> vocab_ok (fst idx) \<and> length (snd idx) \<le> RAG_MAX_DOCS
     \<and> list_all (\<lambda>d. length (doc_id d) < 64 \<and> length (doc_desc d) < 256 \<and> length (doc_cmd d) < 512) (snd idx)"

lemma index_entry_ok: "index_ok st \<Longrightarrow> index_ok (index_entry_cb e st)"
proof -
  assume ok: "index_ok st"
  have "vocab_ok (fst (fold tokenize_into_tf ts (fst st, \<lambda>_. 0)))" for ts
    by (rule fold_invariant) (use ok in \<open>auto simp: index_ok_def intro: tokenize_into_tf_ok\<close>)
  then have "vocab_ok (fst (fold tokenize_into_tf (description e # aliases e @ [entry_id e, entry_command e]) (fst st, \<lambda>_. 0)))"
    by blast
  moreover obtain vocab1 tf where
    "fold tokenize_into_tf (description e # aliases e @ [entry_id e, entry_command e]) (fst st, \<lambda>_. 0) = (vocab1, tf)"
    by (meson surj_pair)
  ultimately show ?thesis
    using ok by (auto simp: index_entry_cb_def index_ok_def RAG_MAX_DOCS_def fit_less case_prod_beta)
qed

theorem rag_index_bounds: "index_ok (rag_build_index reg)"
  unfolding rag_build_index_def
proof (rule fold_invariant)
  show "index_ok ([], [])" by (simp add: index_ok_def vocab_ok_def)
qed (rule index_entry_ok)

section \<open>The best documents\<close>

lemma select_inner_props:
  "select_inner score best js = (b, r) \<Longrightarrow> mset (b # r) = mset (best # js) \<and> (\<forall>j\<in>set (best # js). score j \<le> score b)"
proof (induction score best js arbitrary: b r rule: select_inner.induct)
  case (2 score best j js)
  show ?case
  proof (cases "score best < score j")
    case True
    then obtain r1 where r: "select_inner score j js = (b, r1)" "r = best # r1"
      using "2.prems" by (auto split: prod.splits)
    from "2.IH"(1) [OF True r(1)] True r(2) show ?thesis by auto
  next
    case False
    then obtain r1 where r: "select_inner score best js = (b, r1)" "r = j # r1"
      using "2.prems" by (auto split: prod.splits)
    from "2.IH"(2) [OF False r(1)] False r(2) show ?thesis by auto
  qed
qed simp

text \<open>After \<open>k\<close> rounds: a permutation whose first \<open>k\<close> entries descend and bound the others.\<close>

lemma select_top_props:
  "mset (select_top score k order) = mset order
   \<and> sorted_wrt (\<lambda>a b. score b \<le> score a) (take k (select_top score k order))
   \<and> (\<forall>x\<in>set (take k (select_top score k order)). \<forall>y\<in>set (drop k (select_top score k order)). score y \<le> score x)"
proof (induction score k order rule: select_top.induct)
  case (3 score k i order)
  obtain b r where br: "select_inner score i order = (b, r)" by fastforce
  from select_inner_props [OF br] have m: "mset (b # r) = mset (i # order)" and
    ge: "\<forall>j\<in>set (i # order). score j \<le> score b" by auto
  note ih = "3.IH" [OF br [symmetric]]
  have sr: "set (select_top score k r) = set r" using ih mset_eq_setD by blast
  moreover have "set r \<subseteq> set (i # order)" using m by (metis mset_eq_setD set_subset_Cons)
  ultimately have "\<forall>y\<in>set (select_top score k r). score y \<le> score b" using ge by blast
  then have "\<forall>y\<in>set (take k (select_top score k r)) \<union> set (drop k (select_top score k r)). score y \<le> score b"
    by (metis append_take_drop_id set_append)
  with ih m show ?case by (simp add: br)
qed auto

definition best_docs :: "(nat \<Rightarrow> 's::linorder) \<Rightarrow> 's \<Rightarrow> nat \<Rightarrow> nat \<Rightarrow> nat list \<Rightarrow> bool" where
  "best_docs score min_score max_k n ds \<longleftrightarrow> distinct ds \<and> set ds \<subseteq> set [0..<n] \<and> length ds \<le> max_k
     \<and> sorted_wrt (\<lambda>a b. score b \<le> score a) ds \<and> list_all (\<lambda>d. min_score \<le> score d) ds
     \<and> list_all (\<lambda>d. d \<in> set ds \<or> score d < min_score \<or> length ds = max_k \<and> list_all (\<lambda>x. score d \<le> score x) ds) [0..<n]"

lemma rag_select_best: "best_docs score min_score max_k n (rag_select score min_score max_k n)"
proof -
  let ?k = "min max_k n"
  let ?o = "select_top score ?k [0..<n]" and ?P = "\<lambda>d. \<not> score d < min_score"
  let ?t = "take ?k ?o" and ?ds = "rag_select score min_score max_k n"
  have ds: "?ds = takeWhile ?P ?t" by (simp add: rag_select_def Let_def)
  note props = select_top_props [of score ?k "[0..<n]"]
  have m: "mset ?o = mset [0..<n]" using props by blast
  have so: "set ?o = set [0..<n]" using m by (rule mset_eq_setD)
  have dist: "distinct ?o" using m mset_eq_imp_distinct_iff [OF m] by simp
  have len: "length ?o = n" using mset_eq_length [OF m] by simp
  have sub: "set ?ds \<subseteq> set ?t" unfolding ds by (auto dest: set_takeWhileD)
  obtain rest where rest: "?t = ?ds @ rest" using takeWhile_dropWhile_id [of ?P ?t] ds by metis
  have sorted: "sorted_wrt (\<lambda>a b. score b \<le> score a) (?ds @ rest)" using props rest by metis
  have "d \<in> set ?ds \<or> score d < min_score \<or> length ?ds = max_k \<and> list_all (\<lambda>x. score d \<le> score x) ?ds"
    if d: "d \<in> set [0..<n]" for d
  proof (cases "rest = []")
    case False
    then obtain r rs where r: "rest = r # rs" by (cases rest) auto
    then have "score r < min_score" using rest ds by (metis hd_dropWhile takeWhile_dropWhile_id list.sel(1) list.distinct(1) same_append_eq)
    moreover have "score d \<le> score r" if "d \<in> set rest" using sorted that r by (auto simp: sorted_wrt_append)
    moreover have "score d \<le> score r" if "d \<in> set (drop ?k ?o)" using props that rest r by (metis in_set_conv_decomp append_assoc append_Cons Un_iff set_append)
    moreover have "d \<in> set ?t \<union> set (drop ?k ?o)" using d so by (metis append_take_drop_id set_append)
    ultimately show ?thesis using rest by (metis Un_iff order_le_less_trans set_append)
  next
    case True
    then have t: "?t = ?ds" using rest by simp
    show ?thesis
    proof (cases "max_k < n")
      case k: True
      have "length ?ds = max_k" using t len k by (metis length_take min.absorb_iff2 min.strict_order_iff min.commute order_less_imp_le)
      moreover have "d \<in> set ?ds \<or> d \<in> set (drop ?k ?o)" using d so t by (metis Un_iff append_take_drop_id set_append)
      ultimately show ?thesis using props t unfolding list_all_iff by metis
    next
      case False
      then have "?k = n" by simp
      then have "?t = ?o" using len by simp
      then show ?thesis using d so t by metis
    qed
  qed
  moreover have "length ?ds \<le> max_k" using ds length_takeWhile_le [of ?P ?t] len by simp
  moreover have "distinct ?ds" unfolding ds using dist by (simp add: distinct_takeWhile)
  moreover have "set ?ds \<subseteq> set [0..<n]" using sub so set_take_subset [of ?k ?o] by auto
  moreover have "sorted_wrt (\<lambda>a b. score b \<le> score a) ?ds" using sorted by (simp add: sorted_wrt_append)
  moreover have "list_all (\<lambda>d. min_score \<le> score d) ?ds"
    unfolding ds list_all_iff by (auto dest: set_takeWhileD)
  ultimately show ?thesis unfolding best_docs_def list_all_iff by blast
qed

theorem rag_query_top:
  assumes "score_of (tokenize_query vocab query) = Some score" "vocab \<noteq> []"
  shows "rag_query score_of min_score (vocab, docs) query max_k
      = map (rag_result_of score docs) (rag_select score min_score max_k (length docs))
    \<and> best_docs score min_score max_k (length docs) (rag_select score min_score max_k (length docs))"
  using rag_select_best [of score min_score max_k "length docs"] assms
  by (auto simp: rag_query_def rag_select_def)

definition demo_doc :: "cstring \<Rightarrow> rag_doc" where
  "demo_doc w = \<lparr>doc_id = w, doc_desc = w, doc_cmd = w, raw_tf = (\<lambda>_. 1)\<rparr>"

theorem rag_query_top_witness:
  "map res_command (rag_query (\<lambda>_. Some ((!) [5, 9, 1 :: int])) 2
     ([''disk''], [demo_doc ''df'', demo_doc ''du'', demo_doc ''ls'']) ''disk'' 2) = [''du'', ''df'']"
proof -
  let ?d = "[demo_doc ''df'', demo_doc ''du'', demo_doc ''ls'']"
  have "rag_select ((!) [5, 9, 1 :: int]) 2 2 3 = [1, 0]"
    by (simp add: rag_select_def Let_def numeral_2_eq_2 upt_rec)
  then show ?thesis
    using rag_query_top [of "\<lambda>_. Some ((!) [5, 9, 1 :: int])" "[''disk'']" "''disk''" "(!) [5, 9, 1 :: int]" 2 ?d 2]
    by (simp add: rag_result_of_def demo_doc_def numeral_3_eq_3)
qed

text \<open>A word of 64 letters or more is indexed cut, so a query with the same word does not find it.\<close>

lemma long_word_not_found:
  assumes "63 < length w" "vocab_find vocab w = None" "length vocab < RAG_MAX_VOCAB"
  shows "vocab_find (snd (vocab_find_or_add vocab w)) w = None"
proof -
  have "fit 64 w \<noteq> w" using assms(1) length_fit [of 64 w] by auto
  moreover have "snd (vocab_find_or_add vocab w) = vocab @ [fit 64 w]"
    using assms(2,3) by (simp add: vocab_find_or_add_def)
  ultimately show ?thesis using assms(2) by (simp add: vocab_find_def first_idx_None)
qed

end
