(* ===== verification/At_Query.thy ===== *)
theory At_Query
  imports Registry Rag Complex_Main
begin

text \<open>
  The \<open>@\<close> assistant of \<^verbatim>\<open>aishell_main.c\<close>: \<open>handle_at_query\<close> from the raw line to the command it
  hands to \<open>system\<close>. Standard input is the list of bytes still to be read, shared with the shell's
  own prompt. The effects are the list \<open>at_act\<close>: commands offered with the answer read, commands
  run, log entries. What the network answers (MCP server, AI) and what \<open>system\<close> returns is the
  record \<open>at_env\<close>; printed text is left out.
\<close>

section \<open>Placeholders\<close>

text \<open>The first brace pair of the text: what is before, the name, what is after.\<close>

definition brace_pair :: "cstring \<Rightarrow> (cstring \<times> cstring \<times> cstring) option" where
  "brace_pair s = (case split_at (CHR ''{'') s of
      None \<Rightarrow> None
    | Some (pre, post) \<Rightarrow> (case split_at (CHR ''}'') post of None \<Rightarrow> None | Some (name, rest) \<Rightarrow> Some (pre, name, rest)))"

function fill_go :: "cstring \<Rightarrow> char list \<Rightarrow> cstring option \<times> char list" where
  "fill_go result s =
     (case brace_pair result of
        None \<Rightarrow> (Some result, s)
      | Some (pre, name, rest) \<Rightarrow>
          (case fgets1 512 s of
             None \<Rightarrow> (None, s)
           | Some (val, s1) \<Rightarrow> fill_go (fit 1024 (pre @ chomp val @ rest)) s1))"
  by pat_completeness auto
termination by (relation "measure (\<lambda>(result, s). length s)") (auto dest: fgets1_shorter)

declare fill_go.simps [simp del]

definition fill_placeholders :: "cstring \<Rightarrow> char list \<Rightarrow> cstring option \<times> char list" where
  "fill_placeholders cmd s = (if CHR ''{'' \<in> set cmd then fill_go (fit 1024 cmd) s else (Some cmd, s))"

section \<open>Confirmation\<close>

definition DESTRUCTIVE_PATTERNS :: "cstring list" where
  "DESTRUCTIVE_PATTERNS = [''rm '', ''rm -'', ''-delete'', ''rmdir'', ''mkfs'', ''dd '', ''> /dev/'',
     ''chmod -r'', ''chown -r'', ''kill -9'', ''truncate'', '':(){ :|:& };:'']"

fun ci_match :: "cstring \<Rightarrow> cstring \<Rightarrow> bool" where
  "ci_match h [] = True"
| "ci_match [] (n # ns) = False"
| "ci_match (h # hs) (n # ns) = (tolower h = tolower n \<and> ci_match hs ns)"

fun ci_contains :: "cstring \<Rightarrow> cstring \<Rightarrow> bool" where
  "ci_contains [] needle = (needle = [])"
| "ci_contains (h # hs) needle = (ci_match (h # hs) needle \<or> ci_contains hs needle)"

definition at_is_destructive :: "cstring \<Rightarrow> bool" where
  "at_is_destructive cmd \<longleftrightarrow> list_ex (ci_contains cmd) DESTRUCTIVE_PATTERNS"

text \<open>\<open>at_answer\<close> is the buffer after \<open>fgets\<close>, empty at the end of input.\<close>

definition at_answer :: "cstring \<Rightarrow> char list \<Rightarrow> cstring \<times> char list" where
  "at_answer cmd s = (case fgets1 (if at_is_destructive cmd then 32 else 8) s of
      None \<Rightarrow> ([], s) | Some (ans, s1) \<Rightarrow> (ans, s1))"

definition at_accepts :: "cstring \<Rightarrow> cstring \<Rightarrow> bool" where
  "at_accepts cmd ans \<longleftrightarrow>
     (if at_is_destructive cmd then chomp ans = ''yes''
      else ans \<noteq> [] \<and> (hd ans = CHR ''y'' \<or> hd ans = CHR ''Y''))"

definition at_confirm :: "cstring \<Rightarrow> char list \<Rightarrow> bool \<times> char list" where
  "at_confirm cmd s = (case at_answer cmd s of (ans, s1) \<Rightarrow> (at_accepts cmd ans, s1))"

section \<open>The log\<close>

definition AT_LOG_TAIL :: nat where "AT_LOG_TAIL = 20"

fun log_ring :: "cstring list \<Rightarrow> nat \<Rightarrow> nat \<Rightarrow> cstring list \<Rightarrow> cstring list \<times> nat \<times> nat" where
  "log_ring buf head cnt [] = (buf, head, cnt)"
| "log_ring buf head cnt (l # ls) = log_ring (buf[head := l]) ((head + 1) mod AT_LOG_TAIL) (cnt + 1) ls"

definition at_show_log :: "char list \<Rightarrow> cstring list" where
  "at_show_log file = (case log_ring (replicate AT_LOG_TAIL []) 0 0 (fgets_all 512 file) of
     (buf, head, cnt) \<Rightarrow>
       let start = (if cnt < AT_LOG_TAIL then 0 else head)
       in map (\<lambda>i. chomp (buf ! ((start + i) mod AT_LOG_TAIL))) [0..<min cnt AT_LOG_TAIL])"

section \<open>The handler\<close>

datatype at_act =
    AtUsage | AtHelp | AtList | AtShowLog
  | AtAsk cstring cstring
  | AtRun cstring
  | AtLog cstring cstring cstring

record at_env =
  rag_enabled :: bool
  rag :: "cstring \<Rightarrow> rat rag_result list"
  entries :: "registry_entry list"
  at_regexec :: "cstring \<Rightarrow> cstring \<Rightarrow> (nat \<times> nat) option"
  commands :: "cmd_spec list"
  mcp_answers :: "cstring \<Rightarrow> bool"
  ai :: "cstring \<Rightarrow> cstring option \<Rightarrow> cstring option"
  run_system :: "cstring \<Rightarrow> int option"

definition at_execute_direct :: "at_env \<Rightarrow> cstring \<Rightarrow> int" where
  "at_execute_direct env cmd = (case run_system env cmd of None \<Rightarrow> 1 | Some c \<Rightarrow> c)"

text \<open>Offer a command; run it when confirmed. \<open>cancelled\<close> is what a refusal is logged with.\<close>

definition at_offer ::
  "at_env \<Rightarrow> cstring \<Rightarrow> cstring \<Rightarrow> cstring option \<Rightarrow> char list \<Rightarrow> int \<times> at_act list \<times> char list" where
  "at_offer env query cmd cancelled s = (case at_answer cmd s of (ans, s1) \<Rightarrow>
     if at_accepts cmd ans
     then (at_execute_direct env cmd, [AtAsk cmd ans, AtLog query cmd ''executed'', AtRun cmd], s1)
     else (0, AtAsk cmd ans # (case cancelled of None \<Rightarrow> [] | Some l \<Rightarrow> [AtLog query l ''cancelled'']), s1))"

definition at_fallback :: "at_env \<Rightarrow> cstring \<Rightarrow> char list \<Rightarrow> int \<times> at_act list \<times> char list" where
  "at_fallback env query s = (case heuristic_fallback_command (commands env) query of
      None \<Rightarrow> (0, [], s) | Some fb \<Rightarrow> at_offer env query fb (Some fb) s)"

text \<open>\<open>rag_build_context\<close>: entries are appended while less than 3800 bytes are used.\<close>

definition context_entry :: "nat \<Rightarrow> 's rag_result \<Rightarrow> cstring" where
  "context_entry i r = show_nat i @ ''. Task: '' @ res_description r @ [NL]
     @ ''   Shell command to run: '' @ res_command r @ [NL, NL]"

fun context_go :: "nat \<Rightarrow> cstring \<Rightarrow> 's rag_result list \<Rightarrow> cstring" where
  "context_go i buf [] = buf"
| "context_go i buf (r # rs) = (if length buf < 3800 then context_go (Suc i) (buf @ context_entry i r) rs else buf)"

definition context_head :: cstring where
  "context_head = ''The following shell commands are relevant to the user'' @ SQ # ''s request.'' @ [NL]
     @ ''Use the '' @ SQ # ''shell command'' @ SQ # '' value as the command field in your JSON response.'' @ [NL, NL]"

definition rag_build_context :: "'s rag_result list \<Rightarrow> cstring option" where
  "rag_build_context rs = (if rs = [] then None else Some (fit 4096 (context_go 1 context_head rs)))"

text \<open>A validated suggestion of the retrieval.\<close>

definition at_rag_hit :: "at_env \<Rightarrow> cstring \<Rightarrow> 's rag_result \<Rightarrow> char list \<Rightarrow> int \<times> at_act list \<times> char list" where
  "at_rag_hit env query r s =
     (let v = validate_suggestion (find_command (commands env)) (res_command r) in
      case v_status v of
        SUGGEST_EMPTY \<Rightarrow> (0, [AtLog query [] ''empty''], s)
      | SUGGEST_UNKNOWN_COMMAND \<Rightarrow> at_fallback env query s
      | _ \<Rightarrow>
          (case fill_placeholders (v_line v) s of
             (None, s1) \<Rightarrow> (1, [], s1)
           | (Some cmd, s1) \<Rightarrow> at_offer env query cmd (Some (v_line v)) s1))"

definition at_entry_hit :: "at_env \<Rightarrow> cstring \<Rightarrow> registry_entry \<Rightarrow> char list \<Rightarrow> int \<times> at_act list \<times> char list" where
  "at_entry_hit env query e s =
     (case (if requires_arg e then registry_build_command (at_regexec env) e query else Some (entry_command e)) of
        None \<Rightarrow> (1, [], s)
      | Some cmd \<Rightarrow> at_offer env query cmd (Some cmd) s)"

definition at_ai_step :: "at_env \<Rightarrow> cstring \<Rightarrow> cstring option \<Rightarrow> char list \<Rightarrow> int \<times> at_act list \<times> char list" where
  "at_ai_step env query context s =
     (case ai env query context of
        None \<Rightarrow> at_fallback env query s
      | Some suggestion \<Rightarrow>
          let v = validate_suggestion (find_command (commands env)) suggestion in
          case v_status v of
            SUGGEST_EMPTY \<Rightarrow> (0, [AtLog query [] ''empty''], s)
          | SUGGEST_UNKNOWN_COMMAND \<Rightarrow> at_fallback env query s
          | _ \<Rightarrow> at_offer env query (v_line v) None s)"

text \<open>After the registry: the MCP server when it answers, else the AI.\<close>

definition at_remote :: "at_env \<Rightarrow> cstring \<Rightarrow> cstring option \<Rightarrow> char list \<Rightarrow> int \<times> at_act list \<times> char list" where
  "at_remote env query context s =
     (if mcp_answers env query then (0, [], s) else at_ai_step env query context s)"

definition at_lookup :: "at_env \<Rightarrow> cstring \<Rightarrow> char list \<Rightarrow> int \<times> at_act list \<times> char list" where
  "at_lookup env query s =
     (if rag_enabled env
      then (case rag env query of
              [] \<Rightarrow> at_remote env query None s
            | r # rs \<Rightarrow>
                if 1 / 2 \<le> res_score r then at_rag_hit env query r s
                else at_remote env query (rag_build_context (r # rs)) s)
      else (case registry_lookup (entries env) query of
              Some e \<Rightarrow> at_entry_hit env query e s
            | None \<Rightarrow> at_remote env query None s))"

definition capability_words :: "cstring list" where
  "capability_words = [''command'', ''support'', ''feature'', ''capabilit'', ''do you'', ''can you'', ''can i'', ''available'']"

definition question_words :: "cstring list" where
  "question_words = [''what'', ''which'', ''show'', ''list'', ''help'', ''how'', ''tell'', ''are'']"

definition is_capability_q :: "cstring \<Rightarrow> bool" where
  "is_capability_q query = (let q = map tolower query in
     list_ex (\<lambda>w. strstr q w \<noteq> None) capability_words \<and> list_ex (\<lambda>w. strstr q w \<noteq> None) question_words)"

definition handle_at_query :: "at_env \<Rightarrow> cstring \<Rightarrow> char list \<Rightarrow> int \<times> at_act list \<times> char list" where
  "handle_at_query env raw s =
     (if trim_right raw \<noteq> [] \<and> last (trim_right raw) = CHR ''&'' then (1, [], s)
      else if trim_left raw = [] then (0, [AtUsage], s)
      else let query = trim_right (fit 1024 (trim_left raw)) in
        if query = ''list'' then (0, [AtList], s)
        else if query = ''help'' then (0, [AtHelp], s)
        else if is_capability_q query then (0, [AtHelp], s)
        else if take 3 query = ''log'' \<and> (length query = 3 \<or> query ! 3 = CHR '' '') then (0, [AtShowLog], s)
        else at_lookup env query s)"

section \<open>What is run\<close>

text \<open>Every command run was offered first, and the answer read for it accepts it.\<close>

definition run_confirmed :: "at_act list \<Rightarrow> bool" where
  "run_confirmed acts \<longleftrightarrow> list_all (\<lambda>a. case a of
      AtRun c \<Rightarrow> list_ex (\<lambda>b. case b of AtAsk d ans \<Rightarrow> d = c \<and> at_accepts c ans | _ \<Rightarrow> False) acts
    | _ \<Rightarrow> True) acts
    \<and> length (filter (\<lambda>a. case a of AtRun c \<Rightarrow> True | _ \<Rightarrow> False) acts) \<le> 1"

lemma run_confirmed_simps [simp]:
  "run_confirmed []" "run_confirmed [AtUsage]" "run_confirmed [AtHelp]" "run_confirmed [AtList]"
  "run_confirmed [AtShowLog]" "run_confirmed [AtLog q c st]"
  by (simp_all add: run_confirmed_def)

lemma at_offer_confirmed: "run_confirmed (fst (snd (at_offer env query cmd cancelled s)))"
  by (auto simp: at_offer_def run_confirmed_def split: prod.split option.split)

lemma at_fallback_confirmed: "run_confirmed (fst (snd (at_fallback env query s)))"
  by (auto simp: at_fallback_def at_offer_confirmed split: option.split)

lemma at_rag_hit_confirmed: "run_confirmed (fst (snd (at_rag_hit env query r s)))"
  by (auto simp: at_rag_hit_def Let_def at_offer_confirmed at_fallback_confirmed
      split: prod.split option.split suggest_status.split)

lemma at_remote_confirmed: "run_confirmed (fst (snd (at_remote env query context s)))"
  by (auto simp: at_remote_def at_ai_step_def Let_def at_offer_confirmed at_fallback_confirmed
      split: option.split suggest_status.split)

theorem at_runs_only_confirmed:
  "run_confirmed (fst (snd (handle_at_query env raw s)))"
  by (auto simp: handle_at_query_def Let_def at_lookup_def at_entry_hit_def at_rag_hit_confirmed at_remote_confirmed
      at_offer_confirmed split: option.split list.split)

text \<open>With retrieval on, a command run stems from the catalog: by its first word, or before it was filled.\<close>

definition line_registered :: "cmd_spec list \<Rightarrow> cstring \<Rightarrow> bool" where
  "line_registered reg l \<longleftrightarrow> l \<noteq> [] \<and> NL \<notin> set l \<and> find_command reg (suggestion_token l) \<noteq> None"

definition from_catalog :: "cmd_spec list \<Rightarrow> cstring \<Rightarrow> bool" where
  "from_catalog reg c \<longleftrightarrow> line_registered reg c \<or> find_command reg c \<noteq> None
     \<or> (\<exists>l s. line_registered reg l \<and> fst (fill_placeholders l s) = Some c)"

definition runs_catalogued :: "cmd_spec list \<Rightarrow> at_act list \<Rightarrow> bool" where
  "runs_catalogued reg acts \<longleftrightarrow> list_all (\<lambda>a. case a of AtRun c \<Rightarrow> from_catalog reg c | _ \<Rightarrow> True) acts"

lemma runs_catalogued_simps [simp]:
  "runs_catalogued reg []" "runs_catalogued reg [AtUsage]" "runs_catalogued reg [AtHelp]" "runs_catalogued reg [AtList]"
  "runs_catalogued reg [AtShowLog]" "runs_catalogued reg [AtLog q c st]"
  by (simp_all add: runs_catalogued_def)

lemma validated_registered:
  assumes "v_status (validate_suggestion (find_command reg) raw) \<in> {SUGGEST_OK, SUGGEST_MULTILINE_TRUNCATED}"
  shows "line_registered reg (v_line (validate_suggestion (find_command reg) raw))"
proof -
  let ?v = "validate_suggestion (find_command reg) raw"
  have ne: "v_line ?v \<noteq> []" using assms by (rule registry.accepted_nonempty)
  have "command_name ?v = suggestion_token (v_line ?v)"
    using ne by (auto simp: validate_suggestion_def Let_def split: if_splits)
  with registry.accepted_in_catalog [OF assms] ne validate_line [OF refl ne] show ?thesis
    by (auto simp: line_registered_def)
qed

lemma at_offer_catalogued:
  "from_catalog (commands env) cmd \<Longrightarrow> runs_catalogued (commands env) (fst (snd (at_offer env query cmd cancelled s)))"
  by (auto simp: at_offer_def runs_catalogued_def split: prod.split option.split)

lemma at_fallback_catalogued: "runs_catalogued (commands env) (fst (snd (at_fallback env query s)))"
proof (cases "heuristic_fallback_command (commands env) query")
  case (Some fb)
  have "find_command (commands env) fb \<noteq> None"
    using heuristic_found [of "commands env" query] Some by simp
  with Some show ?thesis by (auto simp: at_fallback_def from_catalog_def intro!: at_offer_catalogued)
qed (simp add: at_fallback_def)

lemma at_rag_hit_catalogued: "runs_catalogued (commands env) (fst (snd (at_rag_hit env query r s)))"
  using validated_registered [of "commands env" "res_command r"] at_fallback_catalogued
  by (auto simp: at_rag_hit_def Let_def from_catalog_def intro!: at_offer_catalogued
      split: prod.split option.split suggest_status.split) (metis fst_conv)+

lemma at_remote_catalogued: "runs_catalogued (commands env) (fst (snd (at_remote env query context s)))"
  using validated_registered [of "commands env"] at_fallback_catalogued
  by (auto simp: at_remote_def at_ai_step_def Let_def from_catalog_def intro!: at_offer_catalogued
      split: option.split suggest_status.split)


definition demo_at :: at_env where
  "demo_at = \<lparr>rag_enabled = True, rag = (\<lambda>_. [\<lparr>res_id = ''du'', res_description = ''size'', res_command = ''du {path}'', res_score = 1\<rparr>]),
     entries = [], at_regexec = (\<lambda>_ _. None), commands = [\<lparr>spec_name = ''du'', summary = None, long_help = None\<rparr>],
     mcp_answers = (\<lambda>_. False), ai = (\<lambda>_ _. None), run_system = (\<lambda>_. Some 0)\<rparr>"


text \<open>The words entered for a placeholder are not validated again: what runs may be any shell line.\<close>

lemma filled_line_unchecked:
  "fst (snd (handle_at_query demo_at '' size'' (''/;sh'' @ [NL] @ ''y'' @ [NL])))
     = [AtAsk ''du /;sh'' (''y'' @ [NL]), AtLog ''size'' ''du /;sh'' ''executed'', AtRun ''du /;sh'']"
proof -
  obtain s where s: "s = ''/;sh'' @ [NL] @ ''y'' @ [NL]" by simp
  have nl: "NL = CHR 0x0A" by (simp add: NL_def)
  have "handle_at_query demo_at '' size'' s = at_lookup demo_at ''size'' s"
    by (simp add: handle_at_query_def trim_right_def trim_left_def blank_def TAB_def fit_def Let_def is_capability_q_def
        capability_words_def tolower_def isupper_def)
  also have "\<dots> = at_rag_hit demo_at ''size'' \<lparr>res_id = ''du'', res_description = ''size'', res_command = ''du {path}'', res_score = 1 :: rat\<rparr> s"
    by (simp add: at_lookup_def demo_at_def)
  finally have h: "handle_at_query demo_at '' size'' s
      = at_rag_hit demo_at ''size'' \<lparr>res_id = ''du'', res_description = ''size'', res_command = ''du {path}'', res_score = 1 :: rat\<rparr> s" .
  have v: "validate_suggestion (find_command (commands demo_at)) ''du {path}'' = \<lparr>v_status = SUGGEST_OK, v_line = ''du {path}'', command_name = ''du''\<rparr>"
    by (simp add: validate_suggestion_def Let_def fit_def nl trim_right_def trim_left_def blank_def TAB_def
        suggestion_token_def after_last_def find_command_def demo_at_def)
  have f: "fill_placeholders ''du {path}'' s = (Some ''du /;sh'', ''y'' @ [NL])"
    by (simp add: s fill_placeholders_def fill_go.simps brace_pair_def split_at_def fgets1_def line_len_def c_str_def NUL_def nl
        chomp_def fit_def)
  have d: "\<not> at_is_destructive ''du /;sh''"
    by (simp add: at_is_destructive_def DESTRUCTIVE_PATTERNS_def tolower_def isupper_def)
  show ?thesis unfolding s [symmetric] h
    by (simp add: at_rag_hit_def v f at_offer_def at_answer_def at_accepts_def d fgets1_def line_len_def c_str_def NUL_def nl)
qed

section \<open>Destructive commands\<close>

lemma ci_match_prefix: "ci_match h n \<longleftrightarrow> prefix (map tolower n) (map tolower h)"
  by (induction h n rule: ci_match.induct) auto

lemma ci_contains_sublist: "ci_contains h n \<longleftrightarrow> sublist (map tolower n) (map tolower h)"
  by (induction h) (auto simp: ci_match_prefix sublist_Cons_right)

text \<open>The first line of the input.\<close>

definition first_line :: "char list \<Rightarrow> cstring" where
  "first_line s = takeWhile (\<lambda>c. c \<noteq> NL) s"

lemma line_len_first: "line_len s = (if NL \<in> set s then Suc (length (first_line s)) else length s)"
proof (cases "first_idx (\<lambda>c. c = NL) s")
  case None
  then have "NL \<notin> set s" by (auto simp: first_idx_None)
  with None show ?thesis by (simp add: line_len_def)
next
  case (Some i)
  have "NL \<in> set s" using first_idx_Some [OF Some] nth_mem by metis
  moreover have "first_line s = take i s"
    using first_idx_Some [OF Some] unfolding first_line_def by (intro takeWhile_eq_take_P_nth) auto
  ultimately show ?thesis using Some first_idx_Some [OF Some] by (simp add: line_len_def)
qed

lemma take_line: "take (line_len s) s = first_line s @ (if NL \<in> set s then [NL] else [])"
proof (cases "NL \<in> set s")
  case True
  then obtain a b where "s = a @ NL # b" "NL \<notin> set a" by (meson split_list_first)
  moreover then have "first_line s = a" by (simp add: first_line_def takeWhile_tail)
  ultimately show ?thesis using True by (simp add: line_len_first)
next
  case False
  then have "takeWhile (\<lambda>c. c \<noteq> NL) s = s" by (auto simp: takeWhile_eq_all_conv)
  with False show ?thesis by (simp add: line_len_first first_line_def)
qed

theorem destructive_needs_yes:
  assumes "at_is_destructive cmd" "NUL \<notin> set s"
  shows "fst (at_confirm cmd s) \<longleftrightarrow> first_line s = ''yes''"
proof (cases "s = []")
  case True
  with assms show ?thesis by (simp add: at_confirm_def at_answer_def fgets1_def at_accepts_def chomp_def first_line_def)
next
  case False
  let ?k = "min 31 (line_len s)"
  have c: "c_str (take ?k s) = take ?k s" using assms(2) by (auto intro: c_str_id dest: in_set_takeD)
  have conf: "fst (at_confirm cmd s) \<longleftrightarrow> chomp (take ?k s) = ''yes''"
    using assms(1) False by (simp add: at_confirm_def at_answer_def fgets1_def at_accepts_def Let_def c)
  have nl: "NL \<notin> set (first_line s)" by (auto simp: first_line_def dest: set_takeWhileD)
  have tk: "take ?k s = take 31 (first_line s @ (if NL \<in> set s then [NL] else []))"
    using take_line [of s] by (metis take_take)
  show ?thesis
  proof (cases "length (first_line s) < 31")
    case True
    then have "take ?k s = first_line s @ (if NL \<in> set s then [NL] else [])" using tk by auto
    moreover have "first_line s \<noteq> [] \<Longrightarrow> last (first_line s) \<noteq> NL" using nl last_in_set by metis
    ultimately show ?thesis using conf by (auto simp: chomp_def)
  next
    case False
    then have "take ?k s = take 31 (first_line s)" using tk by simp
    moreover have "NL \<notin> set (take 31 (first_line s))" using nl by (auto dest: in_set_takeD)
    ultimately have "chomp (take ?k s) = take 31 (first_line s)" unfolding chomp_def by (metis last_in_set)
    then have "length (chomp (take ?k s)) = 31" using False by simp
    then have "chomp (take ?k s) \<noteq> ''yes''" by auto
    moreover have "first_line s \<noteq> ''yes''" using False by auto
    ultimately show ?thesis using conf by simp
  qed
qed

theorem destructive_needs_yes_witness:
  "fst (at_confirm ''rm -rf build'' (''yes'' @ [NL])) \<and> \<not> fst (at_confirm ''rm -rf build'' (''y'' @ [NL]))"
proof -
  have d: "at_is_destructive ''rm -rf build''"
    by (simp add: at_is_destructive_def DESTRUCTIVE_PATTERNS_def)
  show ?thesis
    using destructive_needs_yes [OF d, of "''yes'' @ [NL]"] destructive_needs_yes [OF d, of "''y'' @ [NL]"]
    by (simp add: first_line_def NL_def NUL_def)
qed

text \<open>A tab instead of the blank is not among the patterns.\<close>

lemma tab_not_destructive: "\<not> at_is_destructive (''rm'' @ [TAB] @ ''x'')"
  by (simp add: at_is_destructive_def DESTRUCTIVE_PATTERNS_def tolower_def isupper_def TAB_def)

text \<open>What does not fit the answer buffer stays in the input and is the shell's next line.\<close>

lemma long_answer_is_next_line:
  assumes "\<not> at_is_destructive cmd" "7 < length (first_line s)"
  shows "snd (at_confirm cmd s) = drop 7 s"
proof -
  have "8 \<le> line_len s" "s \<noteq> []" using assms(2) length_takeWhile_le [of "\<lambda>c. c \<noteq> NL" s]
    by (auto simp: line_len_first first_line_def)
  with assms(1) show ?thesis by (simp add: at_confirm_def at_answer_def fgets1_def Let_def)
qed

section \<open>Placeholders and the log\<close>

lemma fill_go_complete: "fst (fill_go result s) = Some t \<Longrightarrow> brace_pair t = None"
proof (induction result s rule: fill_go.induct)
  case (1 result s)
  show ?case
  proof (cases "brace_pair result")
    case None
    with 1(2) show ?thesis by (simp add: fill_go.simps)
  next
    case (Some p)
    obtain pre name rest where p: "p = (pre, name, rest)" by (cases p)
    show ?thesis
    proof (cases "fgets1 512 s")
      case None
      with 1(2) Some p show ?thesis by (simp add: fill_go.simps)
    next
      case (Some q)
      obtain v s1 where q: "q = (v, s1)" by (cases q)
      from 1(1) [OF \<open>brace_pair result = Some p\<close> p [symmetric] refl Some q [symmetric]] 1(2) \<open>brace_pair result = Some p\<close> Some p q
      show ?thesis by (simp add: fill_go.simps)
    qed
  qed
qed

theorem placeholders_all_filled:
  assumes "fst (fill_placeholders cmd s) = Some t"
  shows "brace_pair t = None"
proof (cases "CHR ''{'' \<in> set cmd")
  case True
  with assms fill_go_complete show ?thesis by (simp add: fill_placeholders_def)
next
  case False
  then have "split_at (CHR ''{'') cmd = None" using split_at_None by blast
  with assms False show ?thesis by (auto simp: fill_placeholders_def brace_pair_def)
qed

theorem placeholders_all_filled_witness:
  "brace_pair ''cp a b'' = None \<and> fst (fill_placeholders ''cp {src} {dst}'' (''a'' @ [NL] @ ''b'' @ [NL])) = Some ''cp a b''"
proof -
  have f: "fst (fill_placeholders ''cp {src} {dst}'' (''a'' @ [NL] @ ''b'' @ [NL])) = Some ''cp a b''"
    by (simp add: fill_placeholders_def fill_go.simps brace_pair_def split_at_def fgets1_def line_len_def c_str_def NUL_def NL_def
        chomp_def fit_def)
  from placeholders_all_filled [OF f] f show ?thesis by simp
qed

text \<open>The ring of \<open>at_show_log\<close> after reading \<open>ls\<close>.\<close>

lemma log_ring_state:
  "length ls = n \<Longrightarrow> log_ring (replicate AT_LOG_TAIL []) 0 0 ls = (buf, head, cnt) \<Longrightarrow>
     cnt = n \<and> head = n mod AT_LOG_TAIL \<and> length buf = AT_LOG_TAIL
     \<and> (\<forall>j<n. n < j + AT_LOG_TAIL + 1 \<longrightarrow> buf ! (j mod AT_LOG_TAIL) = ls ! j)"
proof (induction ls arbitrary: n buf head cnt rule: rev_induct)
  case (snoc l ls)
  have app: "log_ring b h c (xs @ [x]) = (case log_ring b h c xs of (b1, h1, c1) \<Rightarrow> (b1[h1 := x], (h1 + 1) mod AT_LOG_TAIL, c1 + 1))"
    for b h c xs x
    by (induction b h c xs rule: log_ring.induct) auto
  obtain b1 h1 c1 where r: "log_ring (replicate AT_LOG_TAIL []) 0 0 ls = (b1, h1, c1)"
    by (metis surj_pair)
  note ih = snoc.IH [OF refl r]
  have n: "n = Suc (length ls)" using snoc.prems(1) by simp
  have eq: "buf = b1[h1 := l]" "head = (h1 + 1) mod AT_LOG_TAIL" "cnt = c1 + 1"
    using snoc.prems(2) by (simp_all add: app r)
  have "buf ! (j mod AT_LOG_TAIL) = (ls @ [l]) ! j" if j: "j < n" "n < j + AT_LOG_TAIL + 1" for j
  proof (cases "j = length ls")
    case True
    with ih eq show ?thesis by (simp add: AT_LOG_TAIL_def)
  next
    case False
    then have jl: "j < length ls" "length ls < j + AT_LOG_TAIL" using j n by simp_all
    have "j mod AT_LOG_TAIL \<noteq> length ls mod AT_LOG_TAIL"
    proof
      assume "j mod AT_LOG_TAIL = length ls mod AT_LOG_TAIL"
      then have "AT_LOG_TAIL dvd length ls - j" using jl(1) mod_eq_dvd_iff_nat [of j "length ls" AT_LOG_TAIL] by simp
      moreover have "0 < length ls - j" "length ls - j < AT_LOG_TAIL" using jl by simp_all
      ultimately show False using nat_dvd_not_less by blast
    qed
    with jl ih eq show ?thesis by (simp add: nth_append)
  qed
  with ih eq n show ?case by (simp add: mod_Suc_eq)
qed (auto simp: AT_LOG_TAIL_def)

theorem at_show_log_last:
  "at_show_log file = map chomp (drop (length (fgets_all 512 file) - 20) (fgets_all 512 file))"
proof -
  let ?ls = "fgets_all 512 file"
  obtain buf head cnt where r: "log_ring (replicate AT_LOG_TAIL []) 0 0 ?ls = (buf, head, cnt)" by (metis surj_pair)
  note st = log_ring_state [OF refl r]
  have at: "buf ! (j mod 20) = ?ls ! j" if "j < length ?ls" "length ?ls \<le> j + 20" for j
    using st that by (simp add: AT_LOG_TAIL_def)
  have cnt: "cnt = length ?ls" "head = length ?ls mod 20" using st by (simp_all add: AT_LOG_TAIL_def)
  have log: "at_show_log file = map (\<lambda>i. chomp (buf ! (((if cnt < 20 then 0 else head) + i) mod 20))) [0..<min cnt 20]"
    using r unfolding at_show_log_def AT_LOG_TAIL_def by simp
  show ?thesis
  proof (cases "length ?ls < 20")
    case True
    have "at_show_log file = map (\<lambda>i. chomp (?ls ! i)) [0..<length ?ls]"
      unfolding log cnt(1) using True at by (intro map_cong) auto
    also have "\<dots> = map chomp (map ((!) ?ls) [0..<length ?ls])" by (simp only: map_map comp_def)
    also have "\<dots> = map chomp ?ls" by (simp only: map_nth)
    finally show ?thesis using True by simp
  next
    case False
    let ?d = "length ?ls - 20"
    have "buf ! ((head + i) mod 20) = ?ls ! (?d + i)" if "i < 20" for i
    proof -
      have "length ?ls + i = 20 + (?d + i)" using False by simp
      then have "(length ?ls + i) mod 20 = (?d + i) mod 20" by (metis mod_add_self1)
      then have "(head + i) mod 20 = (?d + i) mod 20" unfolding cnt(2) by (simp only: mod_add_left_eq)
      with at [of "?d + i"] that False show ?thesis by simp
    qed
    then have "at_show_log file = map (\<lambda>i. chomp (?ls ! (?d + i))) [0..<20]"
      unfolding log cnt(1) using False by (intro map_cong) auto
    also have "\<dots> = map chomp (map ((!) (drop ?d ?ls)) [0..<length (drop ?d ?ls)])"
      using False by (simp add: comp_def)
    also have "\<dots> = map chomp (drop ?d ?ls)" by (simp only: map_nth)
    finally show ?thesis .
  qed
qed

end
