(* ===== verification/Config.thy ===== *)
theory Config
  imports Mcp_Server
begin

text \<open>
  The settings (\<^verbatim>\<open>config.c\<close>): \<open>g_config\<close>, the file \<^verbatim>\<open>aishell.conf\<close> and its text, single updates;
  and the \<^verbatim>\<open>server\<close> command (\<^verbatim>\<open>cmd_server.c\<close>) over the server of \<^verbatim>\<open>Mcp_Server\<close>. The one
  floating-point setting is an opaque value with \<open>atof\<close> and the \<open>%.2f\<close> conversion as arguments.
\<close>

section \<open>The settings\<close>

record 'f config =
  server_enabled :: int
  server_port :: int
  server_max_clients :: int
  server_timeout :: int
  server_allowlist :: cstring
  cfg_rag_enabled :: int
  rag_top_k :: int
  rag_min_score :: 'f
  log_file :: cstring
  log_mcp_calls :: int
  ai_model :: cstring

definition default_config :: "'f \<Rightarrow> 'f config" where
  "default_config f = \<lparr>server_enabled = 1, server_port = 9000, server_max_clients = 16, server_timeout = 30,
     server_allowlist = ''ls,cat,grep,echo,find,du,df,ps,wc,sort,uniq,cut,tr,head,tail'',
     cfg_rag_enabled = 1, rag_top_k = 3, rag_min_score = f, log_file = ''aishell_calls.log'',
     log_mcp_calls = 1, ai_model = ''meta-llama/llama-3.1-8b-instruct:free''\<rparr>"

text \<open>A number outside its range leaves the setting as it was.\<close>

definition ranged :: "int \<Rightarrow> int \<Rightarrow> int \<Rightarrow> int \<Rightarrow> int" where
  "ranged lo hi old v = (if lo \<le> v \<and> v \<le> hi then v else old)"

definition apply_kv :: "(cstring \<Rightarrow> 'f) \<Rightarrow> cstring \<Rightarrow> cstring \<Rightarrow> 'f config \<Rightarrow> 'f config" where
  "apply_kv atof key val c =
     (if key = ''server_enabled'' then c\<lparr>server_enabled := atoi val\<rparr>
      else if key = ''server_port'' then c\<lparr>server_port := ranged 1024 65535 (server_port c) (atoi val)\<rparr>
      else if key = ''server_max_clients'' then c\<lparr>server_max_clients := ranged 1 64 (server_max_clients c) (atoi val)\<rparr>
      else if key = ''server_timeout'' then c\<lparr>server_timeout := ranged 5 300 (server_timeout c) (atoi val)\<rparr>
      else if key = ''server_allowlist'' then c\<lparr>server_allowlist := fit 512 val\<rparr>
      else if key = ''rag_enabled'' then c\<lparr>cfg_rag_enabled := atoi val\<rparr>
      else if key = ''rag_top_k'' then c\<lparr>rag_top_k := ranged 1 20 (rag_top_k c) (atoi val)\<rparr>
      else if key = ''rag_min_score'' then c\<lparr>rag_min_score := atof val\<rparr>
      else if key = ''log_file'' then c\<lparr>log_file := fit 256 val\<rparr>
      else if key = ''log_mcp_calls'' then c\<lparr>log_mcp_calls := atoi val\<rparr>
      else if key = ''ai_model'' then c\<lparr>ai_model := fit 128 val\<rparr>
      else c)"

section \<open>The file\<close>

definition conf_blank :: "char \<Rightarrow> bool" where
  [shell_defs]: "conf_blank c \<longleftrightarrow> c = CHR '' '' \<or> c = TAB"

definition trim_key :: "cstring \<Rightarrow> cstring" where
  "trim_key k = (case k of [] \<Rightarrow> [] | c # s \<Rightarrow> c # rev (dropWhile conf_blank (rev s)))"

text \<open>One buffer of the reading loop.\<close>

definition config_line :: "(cstring \<Rightarrow> 'f) \<Rightarrow> char list \<Rightarrow> 'f config \<Rightarrow> 'f config" where
  "config_line atof buf c =
     (let p = dropWhile conf_blank (takeWhile (\<lambda>x. x \<noteq> CR \<and> x \<noteq> NL) (c_str buf)) in
      if p = [] \<or> hd p = CHR ''#'' then c
      else (case split_at (CHR ''='') p of
              None \<Rightarrow> c
            | Some (key, val) \<Rightarrow> apply_kv atof (trim_key key) (dropWhile conf_blank val) c))"

definition config_read :: "(cstring \<Rightarrow> 'f) \<Rightarrow> char list \<Rightarrow> 'f config \<Rightarrow> 'f config" where
  "config_read atof bytes c = fold (config_line atof) (fgets_all 1024 bytes) c"

definition config_lines :: "('f \<Rightarrow> cstring) \<Rightarrow> 'f config \<Rightarrow> cstring list" where
  "config_lines fmt c =
     [''# AiShell Configuration '' @ [CHR 0xE2, CHR 0x80, CHR 0x94] @ '' Week 9: MCP Server + FTP Service'',
      ''# Edit and restart aishell, or use: server config key=value'',
      [],
      ''# Server settings'',
      ''server_enabled='' @ show_int (server_enabled c),
      ''server_port='' @ show_int (server_port c),
      ''server_max_clients='' @ show_int (server_max_clients c),
      ''server_timeout='' @ show_int (server_timeout c),
      [],
      ''# Commands allowed via MCP run_command tool (comma-separated)'',
      ''server_allowlist='' @ server_allowlist c,
      [],
      ''# RAG settings'',
      ''rag_enabled='' @ show_int (cfg_rag_enabled c),
      ''rag_top_k='' @ show_int (rag_top_k c),
      ''rag_min_score='' @ fmt (rag_min_score c),
      [],
      ''# Logging'',
      ''log_file='' @ log_file c,
      ''log_mcp_calls='' @ show_int (log_mcp_calls c),
      [],
      ''# AI model (api_key read from OPENROUTER_API_KEY env var)'',
      ''ai_model='' @ ai_model c]"

definition config_save :: "('f \<Rightarrow> cstring) \<Rightarrow> 'f config \<Rightarrow> char list" where
  "config_save fmt c = concat (map (\<lambda>l. l @ [NL]) (config_lines fmt c))"

text \<open>\<open>config_load\<close>: the settings and, when there was no file, the one it creates.\<close>

definition config_load ::
  "(cstring \<Rightarrow> 'f) \<Rightarrow> ('f \<Rightarrow> cstring) \<Rightarrow> char list option \<Rightarrow> 'f config \<Rightarrow> char list option \<times> 'f config" where
  "config_load atof fmt file c = (case file of
      None \<Rightarrow> (Some (config_save fmt c), c)
    | Some bytes \<Rightarrow> (None, config_read atof bytes c))"

definition config_keys :: "cstring list" where
  "config_keys = [''server_enabled'', ''server_port'', ''server_max_clients'', ''server_timeout'',
     ''server_allowlist'', ''rag_enabled'', ''rag_top_k'', ''rag_min_score'', ''log_file'', ''log_mcp_calls'', ''ai_model'']"

text \<open>\<open>config_set\<close>: return code, the file written and the line printed when the key is known.\<close>

definition config_set ::
  "(cstring \<Rightarrow> 'f) \<Rightarrow> ('f \<Rightarrow> cstring) \<Rightarrow> cstring \<Rightarrow> 'f config \<Rightarrow> int \<times> (char list \<times> cstring) option \<times> 'f config" where
  "config_set atof fmt keyval c =
     (case split_at (CHR ''='') (fit 1024 keyval) of
        None \<Rightarrow> (-1, None, c)
      | Some (key, val) \<Rightarrow>
          if list_ex (\<lambda>k. key = k) config_keys
          then (let c1 = apply_kv atof key val c in
                (0, Some (config_save fmt c1, ''config: '' @ key @ '' = '' @ val @ [NL]), c1))
          else (-1, None, c))"

section \<open>The \<open>server\<close> command\<close>

datatype server_said = SayUsage | SayStatus bool int | SayAlready int | SayStarted int | SayFailed
  | SayNotRunning | SayStopped | SayConfig | SaySet cstring | SayUnknown cstring

text \<open>\<open>start\<close> is \<open>mcp_server_start\<close> with the answers of the system.\<close>

definition server_run ::
  "(cstring \<Rightarrow> 'f) \<Rightarrow> ('f \<Rightarrow> cstring) \<Rightarrow> (server \<Rightarrow> int \<times> server) \<Rightarrow> cstring list \<Rightarrow> 'f config \<Rightarrow> server
     \<Rightarrow> int \<times> server_said list \<times> 'f config \<times> server" where
  "server_run atof fmt start argv c s =
     (if length argv < 2 then (1, [SayUsage], c, s)
      else if argv ! 1 = ''status''
      then (0, [SayStatus (mcp_server_is_running s) (server_port c)], c, s)
      else if argv ! 1 = ''start''
      then (if mcp_server_is_running s then (0, [SayAlready (server_port c)], c, s)
            else (case start s of (rc, s1) \<Rightarrow> (rc, [if rc = 0 then SayStarted (server_port c) else SayFailed], c, s1)))
      else if argv ! 1 = ''stop''
      then (if mcp_server_is_running s then (0, [SayStopped], c, mcp_server_stop s) else (0, [SayNotRunning], c, s))
      else if argv ! 1 = ''config''
      then (if 3 \<le> length argv
            then (case config_set atof fmt (argv ! 2) c of
                    (rc, Some (file, line), c1) \<Rightarrow> (if rc = 0 then 0 else 1, [SaySet line], c1, s)
                  | (rc, None, c1) \<Rightarrow> (if rc = 0 then 0 else 1, [], c1, s))
            else (0, [SayConfig], c, s))
      else if argv ! 1 = ''--help'' \<or> argv ! 1 = ''-h'' then (0, [SayUsage], c, s)
      else (1, [SayUnknown (argv ! 1), SayUsage], c, s))"

section \<open>Ranges\<close>

definition config_ok :: "'f config \<Rightarrow> bool" where
  "config_ok c \<longleftrightarrow> 1024 \<le> server_port c \<and> server_port c \<le> 65535
     \<and> 1 \<le> server_max_clients c \<and> server_max_clients c \<le> 64
     \<and> 5 \<le> server_timeout c \<and> server_timeout c \<le> 300 \<and> 1 \<le> rag_top_k c \<and> rag_top_k c \<le> 20
     \<and> length (server_allowlist c) < 512 \<and> length (log_file c) < 256 \<and> length (ai_model c) < 128"

lemma fit_lt: "0 < n \<Longrightarrow> length (fit n s) < n"
  using length_fit [of n s] by linarith

lemma apply_kv_ok: "config_ok c \<Longrightarrow> config_ok (apply_kv atof key val c)"
  by (simp add: apply_kv_def config_ok_def ranged_def fit_lt)

lemma config_line_ok: "config_ok c \<Longrightarrow> config_ok (config_line atof buf c)"
  by (auto simp: config_line_def Let_def apply_kv_ok split: option.split)

lemma config_read_ok: "config_ok c \<Longrightarrow> config_ok (config_read atof bytes c)"
proof -
  have "config_ok c \<Longrightarrow> config_ok (fold (config_line atof) ls c)" for ls
    by (induction ls arbitrary: c) (auto simp: config_line_ok)
  then show "config_ok c \<Longrightarrow> config_ok (config_read atof bytes c)" by (simp add: config_read_def)
qed

text \<open>Everything that changes the settings of a running shell.\<close>

datatype config_event = CLoad "char list option" | CSet cstring

fun config_step :: "(cstring \<Rightarrow> 'f) \<Rightarrow> ('f \<Rightarrow> cstring) \<Rightarrow> config_event \<Rightarrow> 'f config \<Rightarrow> 'f config" where
  "config_step atof fmt (CLoad file) c = snd (config_load atof fmt file c)"
| "config_step atof fmt (CSet kv) c = snd (snd (config_set atof fmt kv c))"

interpretation config: event_machine "default_config f" "config_step atof fmt" config_ok for f atof fmt
proof
  show "config_ok (default_config f)" by (simp add: config_ok_def default_config_def)
  show "config_ok c \<Longrightarrow> config_ok (config_step atof fmt e c)" for e c
    by (cases e) (auto simp: config_load_def config_set_def Let_def config_read_ok apply_kv_ok split: option.split)
qed

text \<open>C33: After any loads and updates, of any text, the numeric settings are in their ranges and the
  texts fit their buffers.\<close>

theorem config_in_range:
  "config_ok (fold (config_step atof fmt) es (default_config f))"
  by (rule config.inv_reachable)

section \<open>Saving and loading\<close>

text \<open>A value that a line of the file carries: no line end, no NUL, no leading blank.\<close>

definition plain_value :: "cstring \<Rightarrow> bool" where
  "plain_value v \<longleftrightarrow> NUL \<notin> set v \<and> CR \<notin> set v \<and> NL \<notin> set v \<and> (v = [] \<or> \<not> conf_blank (hd v))"

definition plain_key :: "cstring \<Rightarrow> bool" where
  "plain_key k \<longleftrightarrow> k \<noteq> [] \<and> list_all (\<lambda>c. islower c \<or> c = CHR ''_'') k"

lemma plain_key_chars:
  "plain_key k \<Longrightarrow> c \<in> set k \<Longrightarrow> c \<noteq> NUL \<and> c \<noteq> CR \<and> c \<noteq> NL \<and> \<not> conf_blank c \<and> c \<noteq> CHR ''='' \<and> c \<noteq> CHR ''#''"
  by (auto simp: plain_key_def list_all_iff islower_def shell_defs)

lemma config_line_skip: "l = [] \<or> hd l = CHR ''#'' \<Longrightarrow> config_line atof (l @ [NL]) c = c"
proof (cases l)
  case (Cons x t)
  assume "l = [] \<or> hd l = CHR ''#''"
  with Cons have "x = CHR ''#''" by simp
  with Cons show ?thesis by (simp add: config_line_def Let_def c_str_def conf_blank_def shell_defs)
qed (simp add: config_line_def Let_def c_str_def shell_defs)

lemma config_line_kv:
  assumes "plain_key k" "plain_value v"
  shows "config_line atof ((k @ CHR ''='' # v) @ [NL]) c = apply_kv atof k v c"
proof -
  let ?l = "k @ CHR ''='' # v"
  have nul: "NUL \<notin> set (?l @ [NL])" "CR \<notin> set ?l" "NL \<notin> set ?l"
    using assms plain_key_chars [OF assms(1)] by (auto simp: plain_value_def shell_defs)
  have "takeWhile (\<lambda>x. x \<noteq> CR \<and> x \<noteq> NL) (c_str (?l @ [NL])) = ?l"
  proof -
    have "takeWhile (\<lambda>x. x \<noteq> CR \<and> x \<noteq> NL) ?l = ?l"
      using nul unfolding takeWhile_eq_all_conv by metis
    moreover have "c_str (?l @ [NL]) = ?l @ [NL]" using nul(1) by (rule c_str_id)
    ultimately show ?thesis using takeWhile_tail [of "\<lambda>x. x \<noteq> CR \<and> x \<noteq> NL" NL ?l "[]"] by simp
  qed
  moreover obtain x t where k: "k = x # t" using assms(1) by (cases k) (auto simp: plain_key_def)
  then have x: "\<not> conf_blank x" "x \<noteq> CHR ''#''" using plain_key_chars [OF assms(1), of x] by auto
  moreover have "dropWhile conf_blank ?l = ?l" "hd ?l = x" "?l \<noteq> []" using k x by simp_all
  moreover have "split_at (CHR ''='') ?l = Some (k, v)" using plain_key_chars [OF assms(1)] by (metis split_at_append)
  moreover have "trim_key k = k"
  proof (cases "rev t")
    case Nil
    with k show ?thesis by (simp add: trim_key_def)
  next
    case (Cons y u)
    then have "y \<in> set k" using k by (metis list.set_intros(1,2) set_rev)
    with plain_key_chars [OF assms(1), of y] k Cons show ?thesis by (simp add: trim_key_def)
  qed
  moreover have "dropWhile conf_blank v = v" using assms(2) by (cases v) (auto simp: plain_value_def)
  ultimately show ?thesis by (simp add: config_line_def Let_def)
qed

lemma plain_show_int: "plain_value (show_int v)"
proof -
  have c: "c \<in> set (show_int v) \<Longrightarrow> isdigit c \<or> c = CHR ''-''" for c
    by (auto simp: show_int_def dest: show_nat_digits split: if_splits)
  have ne: "show_int v \<noteq> []" by (simp add: show_int_def)
  have "isdigit c \<or> c = CHR ''-'' \<Longrightarrow> c \<noteq> NUL \<and> c \<noteq> CR \<and> c \<noteq> NL \<and> \<not> conf_blank c" for c
    by (auto simp: isdigit_def shell_defs)
  with c [of "hd (show_int v)"] c ne show ?thesis unfolding plain_value_def by (metis list.set_sel(1))
qed

definition savable :: "(cstring \<Rightarrow> 'f) \<Rightarrow> ('f \<Rightarrow> cstring) \<Rightarrow> 'f config \<Rightarrow> bool" where
  "savable atof fmt c \<longleftrightarrow> config_ok c \<and> plain_value (server_allowlist c) \<and> plain_value (log_file c) \<and> plain_value (ai_model c)
     \<and> list_all (\<lambda>v. - 2147483648 \<le> v \<and> v < 2147483648) [server_enabled c, cfg_rag_enabled c, log_mcp_calls c]
     \<and> plain_value (fmt (rag_min_score c)) \<and> length (fmt (rag_min_score c)) < 100 \<and> atof (fmt (rag_min_score c)) = rag_min_score c"

lemma fold_config_lines:
  "config_read atof (concat (map (\<lambda>l. l @ [NL]) ls)) c = fold (\<lambda>l. config_line atof (l @ [NL])) ls c"
  if "list_all (\<lambda>l. NL \<notin> set l \<and> length l + 2 \<le> 1024) ls"
  unfolding config_read_def fgets_all_terminated [OF that] by (simp add: fold_map comp_def)

lemma plain_value_nl: "plain_value v \<Longrightarrow> NL \<notin> set v"
  by (simp add: plain_value_def)

lemma length_show_small: "- 2147483648 \<le> v \<Longrightarrow> v < 2147483648 \<Longrightarrow> length (show_int v) \<le> 11"
  using length_show_int [of 10 v] by simp

lemma config_lines_fit:
  assumes "savable atof fmt c"
  shows "list_all (\<lambda>l. NL \<notin> set l \<and> length l + 2 \<le> 1024) (config_lines fmt c)"
proof -
  note ok = assms [unfolded savable_def config_ok_def]
  have "length (show_int (server_port c)) \<le> 11" "length (show_int (server_max_clients c)) \<le> 11"
    "length (show_int (server_timeout c)) \<le> 11" "length (show_int (rag_top_k c)) \<le> 11"
    "length (show_int (server_enabled c)) \<le> 11" "length (show_int (cfg_rag_enabled c)) \<le> 11"
    "length (show_int (log_mcp_calls c)) \<le> 11"
    using ok by (auto intro!: length_show_small)
  moreover have "NL \<notin> set (show_int v)" for v by (rule plain_value_nl [OF plain_show_int])
  moreover have "NL \<notin> set (server_allowlist c)" "NL \<notin> set (log_file c)" "NL \<notin> set (ai_model c)"
    "NL \<notin> set (fmt (rag_min_score c))" using ok by (auto dest: plain_value_nl)
  ultimately show ?thesis using ok by (simp add: config_lines_def NL_def)
qed

lemma plain_keys: "list_all plain_key config_keys"
  by (simp add: config_keys_def plain_key_def islower_def)

text \<open>What a line of the file does: nothing, or one assignment.\<close>

definition means :: "(cstring \<Rightarrow> 'f) \<Rightarrow> cstring \<Rightarrow> (cstring \<times> cstring) option \<Rightarrow> bool" where
  "means atof l kv \<longleftrightarrow> (\<forall>c. config_line atof (l @ [NL]) c = (case kv of None \<Rightarrow> c | Some (k, v) \<Rightarrow> apply_kv atof k v c))"

lemma means_skip: "l = [] \<or> hd l = CHR ''#'' \<Longrightarrow> means atof l None"
  by (simp add: means_def config_line_skip)

lemma means_kv: "k \<in> set config_keys \<Longrightarrow> plain_value v \<Longrightarrow> l = k @ CHR ''='' # v \<Longrightarrow> means atof l (Some (k, v))"
  unfolding means_def using config_line_kv plain_keys unfolding list_all_iff by fastforce

lemma fold_means:
  "list_all2 (means atof) ls kvs \<Longrightarrow> fold (\<lambda>l. config_line atof (l @ [NL])) ls c
     = fold (\<lambda>kv c. case kv of None \<Rightarrow> c | Some (k, v) \<Rightarrow> apply_kv atof k v c) kvs c"
  by (induction arbitrary: c rule: list_all2_induct) (simp_all add: means_def)

definition config_kvs :: "('f \<Rightarrow> cstring) \<Rightarrow> 'f config \<Rightarrow> (cstring \<times> cstring) option list" where
  "config_kvs fmt c =
     [None, None, None, None, Some (''server_enabled'', show_int (server_enabled c)),
      Some (''server_port'', show_int (server_port c)), Some (''server_max_clients'', show_int (server_max_clients c)),
      Some (''server_timeout'', show_int (server_timeout c)), None, None, Some (''server_allowlist'', server_allowlist c),
      None, None, Some (''rag_enabled'', show_int (cfg_rag_enabled c)), Some (''rag_top_k'', show_int (rag_top_k c)),
      Some (''rag_min_score'', fmt (rag_min_score c)), None, None, Some (''log_file'', log_file c),
      Some (''log_mcp_calls'', show_int (log_mcp_calls c)), None, None, Some (''ai_model'', ai_model c)]"

lemma config_lines_mean:
  "savable atof fmt c \<Longrightarrow> list_all2 (means atof) (config_lines fmt c) (config_kvs fmt c)"
  unfolding config_lines_def config_kvs_def savable_def list.rel_inject
  by (intro conjI list.rel_intros means_skip means_kv) (simp_all add: config_keys_def plain_show_int)

text \<open>Loading what was saved gives the settings back, whatever they were before.\<close>

theorem config_save_load:
  assumes "savable atof fmt c"
  shows "config_load atof fmt (Some (config_save fmt c)) c0 = (None, c)"
proof -
  note ok = assms [unfolded savable_def config_ok_def]
  have "config_read atof (config_save fmt c) c0 = fold (\<lambda>l. config_line atof (l @ [NL])) (config_lines fmt c) c0"
    unfolding config_save_def by (rule fold_config_lines [OF config_lines_fit [OF assms]])
  also have "\<dots> = fold (\<lambda>kv c. case kv of None \<Rightarrow> c | Some (k, v) \<Rightarrow> apply_kv atof k v c) (config_kvs fmt c) c0"
    by (rule fold_means [OF config_lines_mean [OF assms]])
  also have "\<dots> = c"
    using ok by (cases c; cases c0) (simp add: config_kvs_def apply_kv_def atoi_show_int ranged_def fit_id)
  finally show ?thesis by (simp add: config_load_def)
qed

definition demo_config :: "unit config" where
  "demo_config = (default_config ())\<lparr>server_port := 2121, log_file := ''a=b # c''\<rparr>"

theorem config_save_load_witness:
  "config_load (\<lambda>_. ()) (\<lambda>_. ''0.10'') (Some (config_save (\<lambda>_. ''0.10'') demo_config)) (default_config ()) = (None, demo_config)"
  by (rule config_save_load)
    (simp add: savable_def demo_config_def default_config_def config_ok_def plain_value_def shell_defs)

text \<open>An update out of range is reported as done.\<close>

lemma config_set_out_of_range:
  "config_set atof fmt ''server_port=80'' c = (0, Some (config_save fmt c, ''config: server_port = 80'' @ [NL]), c)"
proof -
  have "atoi ''80'' = 80" by (simp add: atoi_def atol_def strtol_def isspace_def isdigit_def clamp_long_def LONG_MAX_def LONG_MIN_def to_int_def)
  then show ?thesis
    by (simp add: config_set_def fit_def split_at_def config_keys_def apply_kv_def ranged_def Let_def)
qed

end
