(* ===== verification/Line_Editor.thy ===== *)
theory Line_Editor
  imports History Registry
begin

text \<open>
  The line editor of \<^verbatim>\<open>aishell_main.c\<close>: \<open>read_bnfc_line\<close> with its raw-mode key loop, history
  navigation and completion (\<open>do_tab_complete\<close>), and its plain \<open>getline\<close> when the input is no
  terminal. The buffer is the C array of 1024 bytes, of which the first \<open>blen\<close> are the line.
  The specification is the text before and after the cursor; what is drawn is left out.
\<close>

section \<open>The buffer\<close>

record editor =
  buf :: "char list"
  blen :: nat
  cursor :: nat
  hist_nav :: nat
  saved_text :: cstring

definition editor_start :: "hist \<Rightarrow> editor" where
  "editor_start h = \<lparr>buf = replicate HIST_LINE NUL, blen = 0, cursor = 0, hist_nav = hist_total h, saved_text = []\<rparr>"

text \<open>\<open>memmove(buf + dst, buf + src, n)\<close> and \<open>memcpy(buf + dst, s, n)\<close>.\<close>

definition memcpy :: "nat \<Rightarrow> char list \<Rightarrow> nat \<Rightarrow> char list \<Rightarrow> char list" where
  "memcpy dst s n b = take dst b @ take n s @ drop (dst + n) b"

definition memmove :: "nat \<Rightarrow> nat \<Rightarrow> nat \<Rightarrow> char list \<Rightarrow> char list" where
  "memmove dst src n b = memcpy dst (drop src b) n b"

text \<open>\<open>strncpy(buf, s, HIST_LINE - 1)\<close> pads with NULs and keeps the last byte.\<close>

definition load_text :: "cstring \<Rightarrow> editor \<Rightarrow> editor" where
  "load_text s e =
     (let t = take (HIST_LINE - 1) s; b = memcpy 0 (t @ replicate (HIST_LINE - 1 - length t) NUL) (HIST_LINE - 1) (buf e);
          n = length (c_str b) in e\<lparr>buf := b, blen := n, cursor := n\<rparr>)"

definition delete_at :: "nat \<Rightarrow> editor \<Rightarrow> editor" where
  "delete_at i e = e\<lparr>buf := memmove i (i + 1) (blen e - i - 1) (buf e), blen := blen e - 1\<rparr>"

definition edited_text :: "editor \<Rightarrow> cstring" where
  "edited_text e = c_str ((buf e)[blen e := NUL])"

section \<open>Completion\<close>

definition tab_insert :: "cstring \<Rightarrow> int \<Rightarrow> editor \<Rightarrow> editor" where
  "tab_insert ins ilen e =
     (if ilen \<le> 0 \<or> int (blen e) + ilen \<ge> int HIST_LINE then e
      else let n = nat ilen; b = memmove (cursor e + n) (cursor e) (blen e - cursor e) (buf e) in
        e\<lparr>buf := (memcpy (cursor e) ins n b)[blen e + n := NUL], cursor := cursor e + n, blen := blen e + n\<rparr>)"

fun match_len :: "cstring \<Rightarrow> cstring \<Rightarrow> nat" where
  "match_len (a # as) (b # bs) = (if a = b then Suc (match_len as bs) else 0)"
| "match_len as bs = 0"

fun tab_common_go :: "nat \<Rightarrow> cstring \<Rightarrow> int \<Rightarrow> cstring list \<Rightarrow> int" where
  "tab_common_go plen a k [] = k"
| "tab_common_go plen a k (m # ms) =
     (if 0 < k then tab_common_go plen a (int (match_len (take (nat k) a) (drop plen m))) ms else k)"

definition tab_common :: "cstring list \<Rightarrow> nat \<Rightarrow> int" where
  "tab_common ms plen = (if ms = [] then 0
     else tab_common_go plen (drop plen (hd ms)) (int (length (hd ms)) - int plen) (tl ms))"

text \<open>The word before the cursor, and whether only blanks come before it.\<close>

definition word_before :: "cstring \<Rightarrow> cstring" where
  "word_before l = rev (takeWhile (\<lambda>c. \<not> blank c) (rev l))"

definition is_first_word :: "cstring \<Rightarrow> bool" where
  "is_first_word l \<longleftrightarrow> list_all blank (take (length l - length (word_before l)) l)"

record tab_env =
  tab_specs :: "cmd_spec list"
  tab_glob :: "cstring \<Rightarrow> cstring list option"

definition tab_cmd_matches :: "cmd_spec list \<Rightarrow> cstring \<Rightarrow> cstring list" where
  "tab_cmd_matches specs partial = take 256 (filter (prefix partial) (map spec_name specs))"

text \<open>The matches of a word of \<open>plen\<close> bytes; a single one is followed by a blank, a directory is not.\<close>

definition complete_word :: "bool \<Rightarrow> cstring list \<Rightarrow> nat \<Rightarrow> editor \<Rightarrow> editor" where
  "complete_word files ms plen e =
     (let k = tab_common ms plen in
      if ms = [] \<or> k \<le> 0 then e
      else let e1 = tab_insert (drop plen (hd ms)) k e in
        if length ms = 1 \<and> (\<not> files \<or> blen e1 = 0 \<or> buf e1 ! (cursor e1 - 1) \<noteq> CHR ''/'')
        then tab_insert '' '' 1 e1 else e1)"

definition do_tab_complete :: "tab_env \<Rightarrow> editor \<Rightarrow> editor" where
  "do_tab_complete env e =
     (let l = take (cursor e) (buf e); partial = word_before l; plen = length partial in
      if is_first_word l
      then complete_word False (tab_cmd_matches (tab_specs env) partial) plen e
      else (case tab_glob env (partial @ ''*'') of None \<Rightarrow> e | Some ms \<Rightarrow> complete_word True ms plen e))"

section \<open>Keys\<close>

datatype key = KEof | KEnter | KUp | KDown | KRight | KLeft | KHome | KEnd | KDelete | KBackspace
  | KCtrlD | KKillStart | KKillEnd | KTab | KInsert char | KIgnored

definition arrow_key :: "char \<Rightarrow> char list \<Rightarrow> key \<times> char list" where
  "arrow_key c s =
     (if c = CHR ''A'' then (KUp, s) else if c = CHR ''B'' then (KDown, s)
      else if c = CHR ''C'' then (KRight, s) else if c = CHR ''D'' then (KLeft, s)
      else if c = CHR ''H'' then (KHome, s) else if c = CHR ''F'' then (KEnd, s)
      else if c = CHR ''3'' then (KDelete, drop 1 s) else (KIgnored, s))"

definition escape_key :: "char list \<Rightarrow> key \<times> char list" where
  "escape_key s = (case s of
      [] \<Rightarrow> (KIgnored, [])
    | c2 # s2 \<Rightarrow>
        if c2 = CHR ''['' then (case s2 of [] \<Rightarrow> (KIgnored, []) | c3 # s3 \<Rightarrow> arrow_key c3 s3)
        else if c2 = CHR ''O'' then (case s2 of [] \<Rightarrow> (KIgnored, [])
          | c3 # s3 \<Rightarrow> (if c3 = CHR ''H'' then KHome else if c3 = CHR ''F'' then KEnd else KIgnored, s3))
        else (KIgnored, s2))"

definition control_key :: "char \<Rightarrow> key" where
  "control_key c =
     (if c = CR \<or> c = NL then KEnter
      else if c = CHR 0x7F \<or> c = CHR 0x08 then KBackspace
      else if c = CHR 0x04 then KCtrlD
      else if c = CHR 0x01 then KHome else if c = CHR 0x05 then KEnd
      else if c = CHR 0x15 then KKillStart else if c = CHR 0x0B then KKillEnd
      else if c = TAB then KTab
      else if 32 \<le> ord c then KInsert c else KIgnored)"

fun read_key :: "char list \<Rightarrow> key \<times> char list" where
  "read_key [] = (KEof, [])"
| "read_key (c # s) = (if c = CHR 0x1B then escape_key s else (control_key c, s))"

definition insert_char :: "char \<Rightarrow> editor \<Rightarrow> editor" where
  "insert_char c e =
     (if blen e < HIST_LINE - 1
      then e\<lparr>buf := (memmove (cursor e + 1) (cursor e) (blen e - cursor e) (buf e))[cursor e := c],
             cursor := cursor e + 1, blen := blen e + 1\<rparr>
      else e)"

definition edit_key :: "tab_env \<Rightarrow> hist \<Rightarrow> key \<Rightarrow> editor \<Rightarrow> editor" where
  "edit_key env h k e = (case k of
      KUp \<Rightarrow>
        if 0 < hist_nav e
        then load_text (hist_get h (int (hist_nav e - 1)))
          (e\<lparr>saved_text := (if hist_nav e = hist_total h then take (blen e) (buf e) else saved_text e),
             hist_nav := hist_nav e - 1\<rparr>)
        else e
    | KDown \<Rightarrow>
        if hist_nav e < hist_total h
        then (let e1 = e\<lparr>hist_nav := hist_nav e + 1\<rparr> in
              load_text (if hist_nav e1 = hist_total h then saved_text e1 else hist_get h (int (hist_nav e1))) e1)
        else e
    | KRight \<Rightarrow> if cursor e < blen e then e\<lparr>cursor := cursor e + 1\<rparr> else e
    | KLeft \<Rightarrow> if 0 < cursor e then e\<lparr>cursor := cursor e - 1\<rparr> else e
    | KHome \<Rightarrow> e\<lparr>cursor := 0\<rparr>
    | KEnd \<Rightarrow> e\<lparr>cursor := blen e\<rparr>
    | KDelete \<Rightarrow> if cursor e < blen e then delete_at (cursor e) e else e
    | KCtrlD \<Rightarrow> if cursor e < blen e then delete_at (cursor e) e else e
    | KBackspace \<Rightarrow>
        if 0 < cursor e
        then e\<lparr>buf := memmove (cursor e - 1) (cursor e) (blen e - cursor e) (buf e),
               cursor := cursor e - 1, blen := blen e - 1\<rparr>
        else e
    | KKillStart \<Rightarrow> e\<lparr>buf := memmove 0 (cursor e) (blen e - cursor e) (buf e), blen := blen e - cursor e, cursor := 0\<rparr>
    | KKillEnd \<Rightarrow> e\<lparr>blen := cursor e\<rparr>
    | KTab \<Rightarrow> do_tab_complete env (e\<lparr>buf := (buf e)[blen e := NUL]\<rparr>)
    | KInsert c \<Rightarrow> insert_char c e
    | _ \<Rightarrow> e)"

definition ends_line :: "key \<Rightarrow> nat \<Rightarrow> bool" where
  "ends_line k n \<longleftrightarrow> k = KEof \<or> k = KEnter \<or> k = KCtrlD \<and> n = 0"

text \<open>The value returned: nothing at the end of the input and for \<open>Ctrl-D\<close> on an empty line.\<close>

definition line_result :: "key \<Rightarrow> editor \<Rightarrow> cstring option" where
  "line_result k e = (if k = KEnter \<or> 0 < blen e then Some (edited_text e) else None)"

lemma read_key_shorter: "fst (read_key s) = KEof \<or> length (snd (read_key s)) < length s"
  by (cases s) (auto simp: escape_key_def arrow_key_def split: list.split)

function edit_loop :: "tab_env \<Rightarrow> hist \<Rightarrow> editor \<Rightarrow> char list \<Rightarrow> cstring option \<times> char list" where
  "edit_loop env h e s =
     (let k = fst (read_key s); s1 = snd (read_key s) in
      if ends_line k (blen e) then (line_result k e, s1)
      else edit_loop env h ((edit_key env h k e)) s1)"
  by pat_completeness auto
termination
  by (relation "measure (\<lambda>(env, h, e, s). length s)")
    (use read_key_shorter in \<open>auto simp: ends_line_def\<close>)

declare edit_loop.simps [simp del]

text \<open>Input that is no terminal: one \<open>getline\<close>, without its newline, as a C string.\<close>

definition plain_line_read :: "char list \<Rightarrow> cstring option \<times> char list" where
  "plain_line_read s = (if s = [] then (None, [])
     else (Some (c_str (chomp (take (line_len s) s))), drop (line_len s) s))"

definition read_bnfc_line :: "bool \<Rightarrow> tab_env \<Rightarrow> hist \<Rightarrow> char list \<Rightarrow> cstring option \<times> char list" where
  "read_bnfc_line tty env h s = (if tty then edit_loop env h (editor_start h) s else plain_line_read s)"

section \<open>The text around the cursor\<close>

text \<open>The specification: the line as two texts, before and after the cursor.\<close>

record zipped =
  z_left :: cstring
  z_right :: cstring
  z_nav :: nat
  z_saved :: cstring

definition z_extend :: "cstring \<Rightarrow> zipped \<Rightarrow> zipped" where
  "z_extend ins z =
     (if length (z_left z) + length (z_right z) + length ins < HIST_LINE then z\<lparr>z_left := z_left z @ ins\<rparr> else z)"

definition z_load :: "cstring \<Rightarrow> zipped \<Rightarrow> zipped" where
  "z_load t z = z\<lparr>z_left := t, z_right := []\<rparr>"

definition z_complete :: "cstring list \<Rightarrow> bool \<Rightarrow> zipped \<Rightarrow> zipped" where
  "z_complete ms files z =
     (let plen = length (word_before (z_left z)); k = tab_common ms plen in
      if ms = [] \<or> k \<le> 0 then z
      else let z1 = z_extend (take (nat k) (drop plen (hd ms))) z in
        if length ms = 1 \<and> \<not> (files \<and> last (z_left z1) = CHR ''/'') then z_extend '' '' z1 else z1)"

definition z_tab :: "tab_env \<Rightarrow> zipped \<Rightarrow> zipped" where
  "z_tab env z =
     (let partial = word_before (z_left z) in
      if is_first_word (z_left z) then z_complete (tab_cmd_matches (tab_specs env) partial) False z
      else (case tab_glob env (partial @ ''*'') of None \<Rightarrow> z | Some ms \<Rightarrow> z_complete ms True z))"

text \<open>\<open>lines\<close> is the abstract history.\<close>

definition z_key :: "tab_env \<Rightarrow> cstring list \<Rightarrow> key \<Rightarrow> zipped \<Rightarrow> zipped" where
  "z_key env lines k z = (let l = z_left z; r = z_right z in case k of
      KUp \<Rightarrow> if 0 < z_nav z
        then z_load (lines ! (z_nav z - 1))
          (z\<lparr>z_saved := (if z_nav z = length lines then l @ r else z_saved z), z_nav := z_nav z - 1\<rparr>)
        else z
    | KDown \<Rightarrow> if z_nav z < length lines
        then z_load (if z_nav z + 1 = length lines then z_saved z else lines ! (z_nav z + 1))
          (z\<lparr>z_nav := z_nav z + 1\<rparr>)
        else z
    | KRight \<Rightarrow> (case r of [] \<Rightarrow> z | c # r' \<Rightarrow> z\<lparr>z_left := l @ [c], z_right := r'\<rparr>)
    | KLeft \<Rightarrow> if l = [] then z else z\<lparr>z_left := butlast l, z_right := last l # r\<rparr>
    | KHome \<Rightarrow> z\<lparr>z_left := [], z_right := l @ r\<rparr>
    | KEnd \<Rightarrow> z\<lparr>z_left := l @ r, z_right := []\<rparr>
    | KDelete \<Rightarrow> z\<lparr>z_right := tl r\<rparr>
    | KCtrlD \<Rightarrow> z\<lparr>z_right := tl r\<rparr>
    | KBackspace \<Rightarrow> z\<lparr>z_left := butlast l\<rparr>
    | KKillStart \<Rightarrow> z\<lparr>z_left := []\<rparr>
    | KKillEnd \<Rightarrow> z\<lparr>z_right := []\<rparr>
    | KTab \<Rightarrow> z_tab env z
    | KInsert c \<Rightarrow> z_extend [c] z
    | _ \<Rightarrow> z)"

definition z_result :: "key \<Rightarrow> zipped \<Rightarrow> cstring option" where
  "z_result k z = (if k = KEnter \<or> z_left z @ z_right z \<noteq> [] then Some (z_left z @ z_right z) else None)"

function z_loop :: "tab_env \<Rightarrow> cstring list \<Rightarrow> zipped \<Rightarrow> char list \<Rightarrow> cstring option \<times> char list" where
  "z_loop env lines z s =
     (let k = fst (read_key s); s1 = snd (read_key s) in
      if ends_line k (length (z_left z) + length (z_right z)) then (z_result k z, s1)
      else z_loop env lines (z_key env lines k z) s1)"
  by pat_completeness auto
termination
  by (relation "measure (\<lambda>(env, lines, z, s). length s)")
    (use read_key_shorter in \<open>auto simp: ends_line_def\<close>)

declare z_loop.simps [simp del]

section \<open>The buffer holds the text\<close>

definition holds :: "editor \<Rightarrow> cstring \<Rightarrow> cstring \<Rightarrow> bool" where
  "holds e l r \<longleftrightarrow> length (buf e) = HIST_LINE \<and> last (buf e) = NUL
     \<and> prefix (l @ r) (buf e) \<and> length l + length r < HIST_LINE \<and> NUL \<notin> set (l @ r)
     \<and> cursor e = length l \<and> blen e = length l + length r"

lemma holdsE:
  assumes "holds e l r"
  obtains rest where "buf e = l @ r @ rest" "length l + length r + length rest = HIST_LINE" "rest \<noteq> []" "last rest = NUL"
proof -
  from assms obtain rest where b: "buf e = (l @ r) @ rest" by (auto simp: holds_def prefix_def)
  with assms have n: "length l + length r + length rest = HIST_LINE" "length l + length r < HIST_LINE"
    by (auto simp: holds_def)
  then have "rest \<noteq> []" by auto
  with that b n assms show ?thesis by (simp add: holds_def)
qed

lemma holdsI:
  assumes "buf e = l @ r @ rest" "length l + length r + length rest = HIST_LINE" "rest \<noteq> []" "last rest = NUL"
    "NUL \<notin> set (l @ r)" "cursor e = length l" "blen e = length l + length r"
  shows "holds e l r"
proof -
  have "length l + length r < HIST_LINE" using assms(2,3) by (cases rest) auto
  with assms show ?thesis by (simp add: holds_def)
qed

lemma holds_len: "holds e l r \<Longrightarrow> cursor e = length l \<and> blen e = length l + length r"
  by (simp add: holds_def)

lemma holds_text: "holds e l r \<Longrightarrow> take (blen e) (buf e) = l @ r \<and> take (cursor e) (buf e) = l"
  by (auto simp: holds_def prefix_def)

lemma holds_clean: "holds e l r \<Longrightarrow> NUL \<notin> set l \<and> NUL \<notin> set r"
  by (auto simp: holds_def)

lemma holds_edited_text: "holds e l r \<Longrightarrow> edited_text e = l @ r"
proof -
  assume h: "holds e l r"
  from h obtain rest where b: "buf e = l @ r @ rest" "rest \<noteq> []" by (rule holdsE)
  have "(buf e)[blen e := NUL] = (l @ r) @ NUL # tl rest"
    using b holds_len [OF h] by (cases rest) (simp_all add: list_update_append)
  moreover have "NUL \<notin> set (l @ r)" using h by (simp add: holds_def)
  ultimately show "edited_text e = l @ r"
    unfolding edited_text_def by (metis c_str_append_NUL)
qed

lemma holds_cong:
  "holds e l r \<Longrightarrow> buf e1 = buf e \<Longrightarrow> cursor e1 = length l1 \<Longrightarrow> blen e1 = length l1 + length r1
     \<Longrightarrow> prefix (l1 @ r1) (l @ r) \<Longrightarrow> holds e1 l1 r1"
  using set_mono_prefix [of "l1 @ r1" "l @ r"] prefix_length_le [of "l1 @ r1" "l @ r"]
  by (auto simp: holds_def intro: prefix_order.trans)

lemma holds_terminate: "holds e l r \<Longrightarrow> holds (e\<lparr>buf := (buf e)[blen e := NUL]\<rparr>) l r"
proof -
  assume h: "holds e l r"
  from h obtain rest where b: "buf e = l @ r @ rest" "length l + length r + length rest = HIST_LINE" "rest \<noteq> []" "last rest = NUL"
    by (rule holdsE)
  have "(buf e)[blen e := NUL] = l @ r @ NUL # tl rest"
    using b holds_len [OF h] by (cases rest) (simp_all add: list_update_append)
  then show ?thesis
    by (intro holdsI [where rest = "NUL # tl rest"]) (use b holds_len [OF h] holds_clean [OF h] in \<open>auto simp: last_tl\<close>)
qed

lemma memmove_up:
  "memmove (length l + n) (length l) (length r) (l @ r @ rest) = take (length l + n) (l @ r @ rest) @ r @ drop n rest"
  by (simp add: memmove_def memcpy_def)

lemma memmove_down:
  "memmove (length l) (length l + n) (length r) (l @ x @ r @ rest) = l @ r @ drop (length l + length r) (l @ x @ r @ rest)"
  if "length x = n"
  using that by (simp add: memmove_def memcpy_def)

lemma memcpy_over:
  "length l = k \<Longrightarrow> length x = n \<Longrightarrow> n \<le> length s \<Longrightarrow> memcpy k s n (l @ x @ r) = l @ take n s @ r"
  by (simp add: memcpy_def)

lemma last_drop_rest: "rest \<noteq> [] \<Longrightarrow> last rest = x \<Longrightarrow> n < length rest \<Longrightarrow> last (drop n rest) = x"
  by simp

lemma holds_tab_insert:
  assumes "holds e l r" "n \<le> length ins" "NUL \<notin> set ins"
  shows "holds (tab_insert ins (int n) e)
    (if n = 0 \<or> HIST_LINE \<le> length l + length r + n then l else l @ take n ins) r"
proof (cases "n = 0 \<or> HIST_LINE \<le> length l + length r + n")
  case True
  with assms(1) holds_len [OF assms(1)] show ?thesis by (auto simp: tab_insert_def)
next
  case False
  from assms(1) obtain rest where b: "buf e = l @ r @ rest" "length l + length r + length rest = HIST_LINE"
    "rest \<noteq> []" "last rest = NUL" by (rule holdsE)
  have c: "cursor e = length l" "blen e = length l + length r" using holds_len [OF assms(1)] by auto
  have n: "n < length rest" using False b(2) by linarith
  define x where "x = take n (r @ rest)"
  have x: "take (length l + n) (l @ r @ rest) = l @ x" "length x = n" using n by (simp_all add: x_def)
  have "memmove (cursor e + n) (cursor e) (blen e - cursor e) (buf e) = l @ x @ r @ drop n rest"
    using memmove_up [of l n r rest] x(1) by (simp only: b(1) c append_assoc diff_add_inverse)
  then have "memcpy (cursor e) ins n (memmove (cursor e + n) (cursor e) (blen e - cursor e) (buf e))
      = l @ take n ins @ r @ drop n rest"
    using memcpy_over [OF c(1) [symmetric] x(2) assms(2)] by simp
  moreover obtain y ys where y: "drop n rest = y # ys" using n by (cases "drop n rest") auto
  ultimately have nb: "buf (tab_insert ins (int n) e) = (l @ take n ins) @ r @ NUL # ys"
    using False c assms(2) by (simp add: tab_insert_def Let_def list_update_append)
  have "length ys + n + 1 = length rest" using y n by (metis Suc_eq_plus1 add.assoc add.commute le_add_diff_inverse2 length_Cons length_drop less_imp_le)
  moreover have "ys = [] \<or> last ys = NUL" using last_drop_rest [OF b(3,4) n] y by (auto split: if_splits)
  ultimately have "holds (tab_insert ins (int n) e) (l @ take n ins) r"
    using nb b(2) False c assms holds_clean [OF assms(1)] set_take_subset [of n ins]
    by (intro holdsI [where rest = "NUL # ys"]) (auto simp: tab_insert_def Let_def)
  with False show ?thesis by simp
qed

lemma holds_insert_char:
  assumes "holds e l r" "c \<noteq> NUL"
  shows "holds (insert_char c e) (if length l + length r < HIST_LINE - 1 then l @ [c] else l) r"
proof (cases "length l + length r < HIST_LINE - 1")
  case False
  with assms(1) holds_len [OF assms(1)] show ?thesis by (simp add: insert_char_def)
next
  case True
  from assms(1) obtain rest where b: "buf e = l @ r @ rest" "length l + length r + length rest = HIST_LINE"
    "rest \<noteq> []" "last rest = NUL" by (rule holdsE)
  have c: "cursor e = length l" "blen e = length l + length r" using holds_len [OF assms(1)] by auto
  have n: "1 < length rest" using True b(2) by linarith
  define x where "x = take 1 (r @ rest)"
  have x: "take (length l + 1) (l @ r @ rest) = l @ x" "length x = 1" using n by (simp_all add: x_def)
  have "memmove (cursor e + 1) (cursor e) (blen e - cursor e) (buf e) = l @ x @ r @ drop 1 rest"
    using memmove_up [of l 1 r rest] x(1) by (simp only: b(1) c append_assoc diff_add_inverse)
  moreover obtain y where "x = [y]" using x(2) by (auto simp: length_Suc_conv)
  ultimately have nb: "buf (insert_char c e) = (l @ [c]) @ r @ drop 1 rest"
    using True c by (simp add: insert_char_def)
  have "holds (insert_char c e) (l @ [c]) r"
    using nb b n c True assms holds_clean [OF assms(1)]
    by (intro holdsI [where rest = "drop 1 rest"]) (auto simp: insert_char_def last_drop_rest)
  with True show ?thesis by simp
qed

lemma holds_delete_at:
  assumes "holds e l (c # r)"
  shows "holds (delete_at (length l) e) l r"
proof -
  from assms obtain rest where b: "buf e = l @ (c # r) @ rest" "length l + length (c # r) + length rest = HIST_LINE"
    "rest \<noteq> []" "last rest = NUL" by (rule holdsE)
  have k: "cursor e = length l" "blen e = length l + length r + 1" using holds_len [OF assms] by auto
  have "buf (delete_at (length l) e) = l @ r @ drop (length l + length r) (l @ [c] @ r @ rest)"
    using memmove_down [of "[c]" 1 l r rest] by (simp add: delete_at_def b(1) k)
  moreover have "length (drop (length l + length r) (l @ [c] @ r @ rest)) = Suc (length rest)" by simp
  moreover have "last (drop (length l + length r) (l @ [c] @ r @ rest)) = NUL"
    using b(3,4) by (simp add: last_drop)
  ultimately show ?thesis
    using b k holds_clean [OF assms]
    by (intro holdsI [where rest = "drop (length l + length r) (l @ [c] @ r @ rest)"])
      (auto simp: delete_at_def)
qed

lemma holds_load_text:
  assumes "length (buf e) = HIST_LINE" "last (buf e) = NUL" "NUL \<notin> set t" "length t < HIST_LINE"
  shows "holds (load_text t e) t []"
proof -
  define pad where "pad = replicate (HIST_LINE - 1 - length t) NUL"
  have "drop (HIST_LINE - 1) (buf e) = [NUL]"
    using assms(1,2) by (metis HIST_LINE_def One_nat_def append_butlast_last_id append_eq_conv_conj length_butlast list.size(3) zero_neq_numeral)
  then have b: "memcpy 0 (t @ pad) (HIST_LINE - 1) (buf e) = t @ [] @ pad @ [NUL]"
    using assms(4) by (simp add: memcpy_def pad_def)
  have "c_str (t @ pad @ [NUL]) = t"
    using c_str_append_NUL [OF assms(3)] by (cases "HIST_LINE - 1 - length t") (simp_all add: pad_def)
  with b have "buf (load_text t e) = t @ [] @ pad @ [NUL]" "cursor (load_text t e) = length t" "blen (load_text t e) = length t"
    using assms(4) by (simp_all add: load_text_def Let_def pad_def)
  then show ?thesis
    using assms(3,4) by (intro holdsI [where rest = "pad @ [NUL]"]) (auto simp: pad_def)
qed

section \<open>The common continuation\<close>

lemma match_len_le: "match_len a b \<le> length a \<and> match_len a b \<le> length b"
  by (induction a b rule: match_len.induct) auto

lemma match_len_take: "take (match_len a b) a = take (match_len a b) b"
  by (induction a b rule: match_len.induct) auto

lemma match_len_max: "n \<le> length a \<Longrightarrow> n \<le> length b \<Longrightarrow> take n a = take n b \<Longrightarrow> n \<le> match_len a b"
  by (induction a b arbitrary: n rule: match_len.induct) (auto simp: take_Cons split: nat.splits)

lemma tab_common_go_le: "tab_common_go plen a k ms \<le> k"
proof (induction ms arbitrary: k)
  case (Cons m ms)
  have "int (match_len (take (nat k) a) (drop plen m)) \<le> k" if "0 < k"
    using match_len_le [of "take (nat k) a" "drop plen m"] that by auto
  with Cons.IH [of "int (match_len (take (nat k) a) (drop plen m))"] show ?case by auto
qed simp

lemma tab_common_le: "ms \<noteq> [] \<Longrightarrow> tab_common ms plen \<le> int (length (hd ms)) - int plen"
  by (simp add: tab_common_def tab_common_go_le)

lemma hist_get_view: "hist_ok h \<Longrightarrow> i < used h \<Longrightarrow> hist_get h (int i) = hist_view h ! i"
  by (simp add: hist_get_pos hist_view_nth)

section \<open>Refinement\<close>

definition hist_clean :: "hist \<Rightarrow> bool" where
  "hist_clean h \<longleftrightarrow> hist_ok h \<and> list_all (\<lambda>l. NUL \<notin> set l) (ring h)"

definition tab_clean :: "tab_env \<Rightarrow> bool" where
  "tab_clean env \<longleftrightarrow> list_all (\<lambda>s. NUL \<notin> set (spec_name s)) (tab_specs env)
     \<and> (\<forall>p ms. tab_glob env p = Some ms \<longrightarrow> list_all (\<lambda>m. NUL \<notin> set m) ms)"

definition sim :: "hist \<Rightarrow> editor \<Rightarrow> zipped \<Rightarrow> bool" where
  "sim h e z \<longleftrightarrow> holds e (z_left z) (z_right z) \<and> hist_nav e = z_nav z \<and> z_nav z \<le> used h
     \<and> saved_text e = z_saved z \<and> NUL \<notin> set (z_saved z) \<and> length (z_saved z) < HIST_LINE"

lemma hist_view_line:
  assumes "hist_clean h" "i < used h"
  shows "NUL \<notin> set (hist_view h ! i) \<and> length (hist_view h ! i) < HIST_LINE"
proof -
  have "pos h i < length (ring h)" using assms by (simp add: hist_clean_def hist_ok_def pos_def)
  then have "ring h ! pos h i \<in> set (ring h)" by (rule nth_mem)
  with assms show ?thesis by (auto simp: hist_clean_def hist_ok_def hist_view_nth list_all_iff HIST_LINE_def)
qed

lemma tab_insert_fields [simp]:
  "hist_nav (tab_insert ins k e) = hist_nav e" "saved_text (tab_insert ins k e) = saved_text e"
  by (simp_all add: tab_insert_def Let_def)

lemma z_extend_fields [simp]:
  "z_right (z_extend ins z) = z_right z" "z_nav (z_extend ins z) = z_nav z" "z_saved (z_extend ins z) = z_saved z"
  by (simp_all add: z_extend_def)

lemma sim_insert:
  assumes "sim h e z" "NUL \<notin> set ins" "n \<le> length ins" "0 < n"
  shows "sim h (tab_insert ins (int n) e) (z_extend (take n ins) z)"
  using assms holds_tab_insert [of e "z_left z" "z_right z" n ins]
  by (auto simp: sim_def z_extend_def split: if_splits)

lemma sim_space: "sim h e z \<Longrightarrow> sim h (tab_insert '' '' 1 e) (z_extend '' '' z)"
  using sim_insert [of h e z "'' ''" 1] by (simp add: NUL_def)

lemma sim_last:
  "sim h e z \<Longrightarrow> z_left z \<noteq> [] \<Longrightarrow> (blen e = 0 \<or> buf e ! (cursor e - 1) \<noteq> c) \<longleftrightarrow> last (z_left z) \<noteq> c"
proof -
  assume s: "sim h e z" "z_left z \<noteq> []"
  then have "holds e (z_left z) (z_right z)" by (simp add: sim_def)
  then obtain rest where "buf e = z_left z @ z_right z @ rest" "cursor e = length (z_left z)" "blen e \<noteq> 0"
    by (metis s(2) holdsE holds_len add_is_0 length_0_conv)
  with s(2) show ?thesis by (simp add: nth_append last_conv_nth)
qed

lemma sim_complete:
  assumes "sim h e z" "list_all (\<lambda>m. NUL \<notin> set m) ms" "files \<Longrightarrow> z_left z \<noteq> []"
    "plen = length (word_before (z_left z))"
  shows "sim h (complete_word files ms plen e) (z_complete ms files z)"
proof (cases "ms = [] \<or> tab_common ms plen \<le> 0")
  case True
  with assms show ?thesis by (auto simp: z_complete_def complete_word_def)
next
  case False
  define n where "n = nat (tab_common ms plen)"
  have k: "tab_common ms plen = int n" "0 < n" using False by (simp_all add: n_def)
  have "n \<le> length (drop plen (hd ms))" using tab_common_le [of ms plen] False k by simp
  moreover have "NUL \<notin> set (drop plen (hd ms))" using assms(2) False by (cases ms) (auto dest: in_set_dropD)
  ultimately have s1: "sim h (tab_insert (drop plen (hd ms)) (int n) e) (z_extend (take n (drop plen (hd ms))) z)"
    using sim_insert [OF assms(1)] k(2) by blast
  have ne: "files \<Longrightarrow> z_left (z_extend (take n (drop plen (hd ms))) z) \<noteq> []"
    using assms(3) by (simp add: z_extend_def)
  have "sim h
    (if length ms = 1 \<and> (\<not> files \<or> blen (tab_insert (drop plen (hd ms)) (int n) e) = 0
        \<or> buf (tab_insert (drop plen (hd ms)) (int n) e) ! (cursor (tab_insert (drop plen (hd ms)) (int n) e) - 1) \<noteq> CHR ''/'')
     then tab_insert '' '' 1 (tab_insert (drop plen (hd ms)) (int n) e) else tab_insert (drop plen (hd ms)) (int n) e)
    (if length ms = 1 \<and> \<not> (files \<and> last (z_left (z_extend (take n (drop plen (hd ms))) z)) = CHR ''/'')
     then z_extend '' '' (z_extend (take n (drop plen (hd ms))) z) else z_extend (take n (drop plen (hd ms))) z)"
    using s1 sim_space [OF s1] sim_last [OF s1 ne, of "CHR ''/''"] by auto
  with False show ?thesis
    by (simp only: z_complete_def complete_word_def Let_def assms(4) [symmetric] k if_False nat_int)
qed

lemma word_before_left: "\<not> is_first_word l \<Longrightarrow> l \<noteq> []"
  by (auto simp: is_first_word_def)

lemma tab_cmd_matches_clean:
  "tab_clean env \<Longrightarrow> list_all (\<lambda>m. NUL \<notin> set m) (tab_cmd_matches (tab_specs env) partial)"
  by (auto simp: tab_clean_def tab_cmd_matches_def list_all_iff dest!: in_set_takeD)

lemma sim_tab:
  assumes "sim h e z" "tab_clean env"
  shows "sim h (do_tab_complete env (e\<lparr>buf := (buf e)[blen e := NUL]\<rparr>)) (z_tab env z)"
proof -
  let ?e = "e\<lparr>buf := (buf e)[blen e := NUL]\<rparr>"
  have s: "sim h ?e z" using assms(1) holds_terminate [of e] by (simp add: sim_def)
  then have l: "take (cursor ?e) (buf ?e) = z_left z" using holds_text [of ?e] unfolding sim_def by blast
  show ?thesis
  proof (cases "is_first_word (z_left z)")
    case True
    show ?thesis
      using sim_complete [OF s tab_cmd_matches_clean [OF assms(2), of "word_before (z_left z)"], of False] True
      unfolding do_tab_complete_def z_tab_def l by (simp add: Let_def)
  next
    case False
    note ne = word_before_left [OF False]
    show ?thesis
    proof (cases "tab_glob env (word_before (z_left z) @ ''*'')")
      case None
      with False s show ?thesis unfolding do_tab_complete_def z_tab_def l by (simp add: Let_def)
    next
      case (Some ms)
      then have "list_all (\<lambda>m. NUL \<notin> set m) ms" using assms(2) by (auto simp: tab_clean_def)
      from sim_complete [OF s this, of True] False ne Some show ?thesis
        unfolding do_tab_complete_def z_tab_def l by (simp add: Let_def)
    qed
  qed
qed

lemma sim_load:
  assumes "sim h e z" "NUL \<notin> set t" "length t < HIST_LINE" "z_nav z1 \<le> used h"
    "buf e1 = buf e" "hist_nav e1 = z_nav z1" "saved_text e1 = z_saved z1" "NUL \<notin> set (z_saved z1)" "length (z_saved z1) < HIST_LINE"
  shows "sim h (load_text t e1) (z_load t z1)"
proof -
  have "length (buf e1) = HIST_LINE" "last (buf e1) = NUL" using assms(1,5) by (auto simp: sim_def holds_def)
  from holds_load_text [OF this assms(2,3)] assms(4,6-9) show ?thesis
    by (simp add: sim_def z_load_def load_text_def Let_def)
qed

lemma sim_up:
  assumes "sim h e z" "hist_clean h"
  shows "sim h (edit_key env h KUp e) (z_key env (hist_view h) KUp z)"
proof (cases "0 < z_nav z")
  case True
  have n: "hist_nav e = z_nav z" "z_nav z \<le> used h" "saved_text e = z_saved z"
    and t: "take (blen e) (buf e) = z_left z @ z_right z"
    and c: "length (z_left z @ z_right z) < HIST_LINE" "NUL \<notin> set (z_left z @ z_right z)"
    "NUL \<notin> set (z_saved z)" "length (z_saved z) < HIST_LINE"
    using assms(1) holds_text [of e] by (auto simp: sim_def holds_def)
  have "z_nav z - 1 < used h" using True n(2) by linarith
  note line = hist_view_line [OF assms(2) this] and view = hist_get_view [of h "z_nav z - 1", OF _ this]
  define sv where "sv = (if z_nav z = used h then z_left z @ z_right z else z_saved z)"
  have "edit_key env h KUp e = load_text (hist_view h ! (z_nav z - 1)) (e\<lparr>saved_text := sv, hist_nav := z_nav z - 1\<rparr>)"
    using True n t view assms(2) by (auto simp: edit_key_def hist_total_def hist_clean_def sv_def of_nat_diff)
  moreover have "z_key env (hist_view h) KUp z = z_load (hist_view h ! (z_nav z - 1)) (z\<lparr>z_saved := sv, z_nav := z_nav z - 1\<rparr>)"
    using True by (simp add: z_key_def sv_def)
  moreover have "NUL \<notin> set sv" "length sv < HIST_LINE" using c by (auto simp: sv_def)
  ultimately show ?thesis
    using sim_load [OF assms(1) conjunct1 [OF line] conjunct2 [OF line], of "z\<lparr>z_saved := sv, z_nav := z_nav z - 1\<rparr>"
        "e\<lparr>saved_text := sv, hist_nav := z_nav z - 1\<rparr>"] n(2)
    by simp
qed (use assms in \<open>simp add: edit_key_def z_key_def sim_def\<close>)

lemma sim_down:
  assumes "sim h e z" "hist_clean h"
  shows "sim h (edit_key env h KDown e) (z_key env (hist_view h) KDown z)"
proof (cases "z_nav z < used h")
  case True
  have n: "hist_nav e = z_nav z" "saved_text e = z_saved z" "NUL \<notin> set (z_saved z)" "length (z_saved z) < HIST_LINE"
    using assms(1) by (auto simp: sim_def)
  define t where "t = (if z_nav z + 1 = length (hist_view h) then z_saved z else hist_view h ! (z_nav z + 1))"
  have c: "NUL \<notin> set t \<and> length t < HIST_LINE"
  proof (cases "z_nav z + 1 = used h")
    case False
    then have "z_nav z + 1 < used h" using True by linarith
    with hist_view_line [OF assms(2) this] False show ?thesis by (simp add: t_def)
  qed (use n in \<open>simp add: t_def\<close>)
  have "edit_key env h KDown e = load_text t (e\<lparr>hist_nav := z_nav z + 1\<rparr>)"
    using True n hist_get_view [of h "z_nav z + 1"] assms(2)
    by (auto simp: edit_key_def hist_total_def t_def Let_def hist_clean_def algebra_simps)
  moreover have "z_key env (hist_view h) KDown z = z_load t (z\<lparr>z_nav := z_nav z + 1\<rparr>)"
    using True by (simp add: z_key_def t_def)
  ultimately show ?thesis
    using sim_load [OF assms(1) conjunct1 [OF c] conjunct2 [OF c], of "z\<lparr>z_nav := z_nav z + 1\<rparr>" "e\<lparr>hist_nav := z_nav z + 1\<rparr>"] n True
    by simp
qed (use assms in \<open>simp add: edit_key_def z_key_def sim_def hist_total_def\<close>)

lemma simI:
  assumes "sim h e z" "holds e1 (z_left z1) (z_right z1)" "hist_nav e1 = hist_nav e" "saved_text e1 = saved_text e"
    "z_nav z1 = z_nav z" "z_saved z1 = z_saved z"
  shows "sim h e1 z1"
  using assms by (simp add: sim_def)

lemma sim_delete:
  assumes "sim h e z"
  shows "sim h (if cursor e < blen e then delete_at (cursor e) e else e) (z\<lparr>z_right := tl (z_right z)\<rparr>)"
proof -
  have h: "holds e (z_left z) (z_right z)" using assms by (simp add: sim_def)
  note n = holds_len [OF h]
  show ?thesis
  proof (cases "z_right z")
    case Nil
    with assms n show ?thesis by (simp add: sim_def)
  next
    case (Cons c r)
    have "holds (delete_at (cursor e) e) (z_left z) r" using holds_delete_at [of e "z_left z" c r] h n Cons by simp
    with assms n Cons show ?thesis by (auto intro: simI simp: delete_at_def)
  qed
qed

lemma holds_backspace:
  assumes "holds e l r" "l \<noteq> []"
  shows "holds (edit_key env h KBackspace e) (butlast l) r"
proof -
  let ?l = "butlast l" and ?c = "last l"
  from assms(1) obtain rest where b: "buf e = l @ r @ rest" "length l + length r + length rest = HIST_LINE"
    "rest \<noteq> []" "last rest = NUL" by (rule holdsE)
  have b': "buf e = ?l @ [?c] @ r @ rest" using b(1) assms(2) by simp
  have k: "cursor e = length ?l + 1" "blen e = length ?l + 1 + length r" using holds_len [OF assms(1)] assms(2) by auto
  let ?rest = "drop (length ?l + length r) (?l @ [?c] @ r @ rest)"
  have eq: "buf (edit_key env h KBackspace e) = ?l @ r @ ?rest"
    using memmove_down [of "[?c]" 1 ?l r rest] k by (simp add: edit_key_def b')
  have "NUL \<notin> set (?l @ r)" using holds_clean [OF assms(1)] in_set_butlastD [of NUL l] by auto
  moreover have "length ?l + 1 = length l" using assms(2) by (cases l) auto
  moreover have "last ?rest = NUL" using b(3,4) by (simp add: last_drop)
  ultimately show ?thesis
    using b(2) k eq by (intro holdsI [where rest = ?rest]) (auto simp: edit_key_def)
qed

lemma holds_kill_start:
  assumes "holds e l r"
  shows "holds (edit_key env h KKillStart e) [] r"
proof -
  from assms obtain rest where b: "buf e = l @ r @ rest" "length l + length r + length rest = HIST_LINE"
    "rest \<noteq> []" "last rest = NUL" by (rule holdsE)
  have k: "cursor e = length l" "blen e = length l + length r" using holds_len [OF assms] by auto
  have "buf (edit_key env h KKillStart e) = [] @ r @ drop (length r) (l @ r @ rest)"
    using memmove_down [of l "length l" "[]" r rest] k b(1) by (simp add: edit_key_def)
  then show ?thesis
    using b k holds_clean [OF assms]
    by (intro holdsI [where rest = "drop (length r) (l @ r @ rest)"]) (auto simp: edit_key_def last_drop)
qed

lemma sim_key:
  assumes "sim h e z" "hist_clean h" "tab_clean env" "k \<noteq> KInsert NUL"
  shows "sim h (edit_key env h k e) (z_key env (hist_view h) k z)"
proof -
  have h: "holds e (z_left z) (z_right z)" using assms(1) by (simp add: sim_def)
  note n = holds_len [OF h]
  show ?thesis
  proof (cases k)
    case KUp then show ?thesis using sim_up [OF assms(1,2)] by simp
  next
    case KDown then show ?thesis using sim_down [OF assms(1,2)] by simp
  next
    case KTab then show ?thesis using sim_tab [OF assms(1,3)] by (simp add: edit_key_def z_key_def)
  next
    case KDelete then show ?thesis using sim_delete [OF assms(1)] by (simp add: edit_key_def z_key_def)
  next
    case KCtrlD then show ?thesis using sim_delete [OF assms(1)] by (simp add: edit_key_def z_key_def)
  next
    case KRight
    show ?thesis
    proof (cases "z_right z")
      case (Cons c r)
      with KRight n show ?thesis
        by (auto simp: edit_key_def z_key_def intro!: simI [OF assms(1)] holds_cong [OF h])
    qed (use KRight n assms(1) in \<open>simp add: edit_key_def z_key_def\<close>)
  next
    case KLeft
    show ?thesis
    proof (cases "z_left z = []")
      case False
      then have "prefix (butlast (z_left z) @ last (z_left z) # z_right z) (z_left z @ z_right z)"
        by (metis append_butlast_last_id append_Cons append_Nil append_assoc prefix_order.refl)
      with False KLeft n show ?thesis
        by (auto simp: edit_key_def z_key_def Let_def intro!: simI [OF assms(1)] holds_cong [OF h])
    qed (use KLeft n assms(1) in \<open>simp add: edit_key_def z_key_def\<close>)
  next
    case KBackspace
    show ?thesis
    proof (cases "z_left z = []")
      case True
      with KBackspace n assms(1) show ?thesis by (simp add: edit_key_def z_key_def sim_def)
    next
      case False
      with KBackspace n holds_backspace [OF h False, of env h] show ?thesis
        by (auto simp: z_key_def edit_key_def intro!: simI [OF assms(1)])
    qed
  next
    case KKillStart
    with n holds_kill_start [OF h, of env h] show ?thesis
      by (auto simp: z_key_def edit_key_def intro!: simI [OF assms(1)])
  next
    case (KInsert c)
    then have "c \<noteq> NUL" using assms(4) by auto
    from holds_insert_char [OF h this] KInsert n show ?thesis
      by (auto simp: edit_key_def z_key_def z_extend_def insert_char_def HIST_LINE_def
          intro!: simI [OF assms(1)] split: if_splits)
  qed (use n in \<open>auto simp: edit_key_def z_key_def intro!: simI [OF assms(1)] holds_cong [OF h]\<close>)
qed

lemma control_key_nul: "control_key c \<noteq> KInsert NUL"
  by (auto simp: control_key_def NUL_def)

lemma read_key_nul: "fst (read_key s) \<noteq> KInsert NUL"
  by (cases s) (auto simp: control_key_nul escape_key_def arrow_key_def split: list.split)

lemma sim_result: "sim h e z \<Longrightarrow> line_result k e = z_result k z"
  using holds_edited_text [of e "z_left z" "z_right z"] holds_len [of e "z_left z" "z_right z"]
  by (auto simp: sim_def line_result_def z_result_def)

lemma loops_agree:
  assumes "sim h e z" "hist_clean h" "tab_clean env"
  shows "edit_loop env h e s = z_loop env (hist_view h) z s"
  using assms
proof (induction env h e s arbitrary: z rule: edit_loop.induct)
  case (1 env h e s)
  let ?k = "fst (read_key s)"
  have n: "blen e = length (z_left z) + length (z_right z)" using "1.prems"(1) holds_len by (auto simp: sim_def)
  show ?case
  proof (cases "ends_line ?k (blen e)")
    case True
    then show ?thesis using n sim_result [OF "1.prems"(1)] by (simp add: edit_loop.simps [of env h e s] z_loop.simps [of env "hist_view h" z s] Let_def)
  next
    case False
    have "sim h (edit_key env h ?k e) (z_key env (hist_view h) ?k z)"
      by (rule sim_key [OF "1.prems" read_key_nul])
    from "1.IH" [OF refl refl False this "1.prems"(2,3)] False n show ?thesis
      by (simp add: edit_loop.simps [of env h e s] z_loop.simps [of env "hist_view h" z s] Let_def)
  qed
qed

definition z_start :: "cstring list \<Rightarrow> zipped" where
  "z_start lines = \<lparr>z_left = [], z_right = [], z_nav = length lines, z_saved = []\<rparr>"

lemma sim_start: "hist_clean h \<Longrightarrow> sim h (editor_start h) (z_start (hist_view h))"
proof -
  assume "hist_clean h"
  have "holds (editor_start h) [] []"
    by (rule holdsI [where rest = "replicate HIST_LINE NUL"]) (simp_all add: editor_start_def HIST_LINE_def)
  then show ?thesis
    by (simp add: sim_def editor_start_def z_start_def hist_total_def HIST_LINE_def)
qed

text \<open>C13: On any bytes typed at a terminal the editor, with its buffer, cursor, moves and completion,
  returns the line and the unread bytes that an editor on two lists (the text before and after
  the cursor) returns.\<close>

theorem editor_refines_zipper:
  assumes "hist_clean h" "tab_clean env"
  shows "read_bnfc_line True env h s = z_loop env (hist_view h) (z_start (hist_view h)) s"
  using loops_agree [OF sim_start [OF assms(1)] assms] by (simp add: read_bnfc_line_def)

lemma hist_clean_init: "hist_clean hist_init"
  by (simp add: hist_clean_def hist_ok_init) (simp add: hist_init_def list_all_iff)

lemma hist_clean_add: "hist_clean h \<Longrightarrow> NUL \<notin> set l \<Longrightarrow> hist_clean (hist_add l h)"
  using hist_ok_step [of h "HAdd l"] set_update_subset_insert [of "ring h" "tail h" "fit HIST_LINE l"] set_fit [of HIST_LINE l]
  by (auto simp: hist_clean_def hist_add_def list_all_iff)

text \<open>The buffer never runs over: the state after any keys holds a line of at most 1023 bytes.\<close>

definition editor_ok :: "editor \<Rightarrow> bool" where
  "editor_ok e \<longleftrightarrow> length (buf e) = HIST_LINE \<and> cursor e \<le> blen e \<and> blen e < HIST_LINE"

lemma sim_fold:
  assumes "hist_clean h" "tab_clean env" "KInsert NUL \<notin> set ks" "sim h e z"
  shows "sim h (fold (edit_key env h) ks e) (fold (z_key env (hist_view h)) ks z)"
  using assms(3,4)
proof (induction ks arbitrary: e z)
  case (Cons k ks)
  then have "sim h (edit_key env h k e) (z_key env (hist_view h) k z)"
    using sim_key [OF _ assms(1,2)] by auto
  with Cons show ?case by simp
qed simp


section \<open>What the user sees\<close>

lemma key_printable: "32 \<le> ord c \<Longrightarrow> c \<noteq> CHR 0x7F \<Longrightarrow> read_key (c # s) = (KInsert c, s)"
proof -
  assume a: "32 \<le> ord c" "c \<noteq> CHR 0x7F"
  then have ne: "ord d < 32 \<Longrightarrow> (c = d) = False" for d by auto
  show ?thesis using a by (simp add: control_key_def CR_def NL_def TAB_def ne)
qed

lemma z_loop_typed:
  "list_all (\<lambda>c. 32 \<le> ord c \<and> c \<noteq> CHR 0x7F) t \<Longrightarrow> length (z_left z) + length t < HIST_LINE \<Longrightarrow> z_right z = []
    \<Longrightarrow> z_loop env lines z (t @ s) = z_loop env lines (z\<lparr>z_left := z_left z @ t\<rparr>) s"
proof (induction t arbitrary: z)
  case (Cons c t)
  then have k: "read_key (c # t @ s) = (KInsert c, t @ s)" using key_printable by simp
  have "z_loop env lines z ((c # t) @ s) = z_loop env lines (z\<lparr>z_left := z_left z @ [c]\<rparr>) (t @ s)"
    using Cons.prems k by (subst z_loop.simps) (simp add: ends_line_def z_key_def z_extend_def)
  with Cons show ?case by simp
qed simp

lemma read_typed_line:
  assumes "hist_clean h" "tab_clean env" "list_all (\<lambda>c. 32 \<le> ord c \<and> c \<noteq> CHR 0x7F) t" "length t < HIST_LINE"
  shows "read_bnfc_line True env h (t @ CR # s) = (Some t, s)"
proof -
  have "z_loop env (hist_view h) (z_start (hist_view h)) (t @ CR # s)
      = z_loop env (hist_view h) (z_start (hist_view h)\<lparr>z_left := t\<rparr>) (CR # s)"
    using assms(3,4) z_loop_typed [of t "z_start (hist_view h)"] by (simp add: z_start_def)
  also have "\<dots> = (Some t, s)"
    by (subst z_loop.simps) (simp add: ends_line_def z_result_def z_start_def control_key_def CR_def)
  finally show ?thesis by (simp add: editor_refines_zipper [OF assms(1,2)])
qed

theorem typed_line_read:
  assumes "hist_clean h" "tab_clean env" "list_all (\<lambda>c. 32 \<le> ord c \<and> c \<noteq> CHR 0x7F) t" "length t < HIST_LINE"
  shows "read_bnfc_line True env h (t @ CR # s) = (Some t, s)"
  by (rule read_typed_line [OF assms])

lemma z_ups:
  assumes "z_nav z = length lines" "0 < n" "n \<le> length lines"
  shows "fold (z_key env lines) (replicate n KUp) z
    = \<lparr>z_left = lines ! (length lines - n), z_right = [], z_nav = length lines - n, z_saved = z_left z @ z_right z\<rparr>"
  using assms(2,3)
proof (induction n)
  case (Suc n)
  show ?case
  proof (cases "n = 0")
    case True
    with assms(1) Suc.prems show ?thesis by (auto simp: z_key_def z_load_def)
  next
    case False
    then have "length lines - n \<noteq> length lines" using Suc.prems by linarith
    with False Suc show ?thesis
      by (simp add: z_key_def z_load_def Suc_diff_Suc flip: replicate_append_same)
  qed
qed simp

lemma z_downs:
  "0 < n \<Longrightarrow> z_nav z + n = length lines \<Longrightarrow>
     fold (z_key env lines) (replicate n KDown) z = z\<lparr>z_left := z_saved z, z_right := [], z_nav := length lines\<rparr>"
proof (induction n arbitrary: z)
  case (Suc n)
  show ?case
  proof (cases "n = 0")
    case True
    with Suc.prems show ?thesis by (simp add: z_key_def z_load_def)
  next
    case False
    with Suc show ?thesis by (simp add: z_key_def z_load_def)
  qed
qed simp

theorem history_walk_returns:
  assumes "hist_clean h" "tab_clean env" "KInsert NUL \<notin> set ks" "e = fold (edit_key env h) ks (editor_start h)"
    "hist_nav e = hist_total h" "0 < n" "n \<le> hist_total h"
  shows "edited_text (fold (edit_key env h) (replicate n KUp @ replicate n KDown) e) = edited_text e"
proof -
  define z where "z = fold (z_key env (hist_view h)) ks (z_start (hist_view h))"
  have s: "sim h e z"
    unfolding assms(4) z_def by (rule sim_fold [OF assms(1-3) sim_start [OF assms(1)]])
  then have nav: "z_nav z = length (hist_view h)" using assms(5) by (simp add: sim_def hist_total_def)
  let ?ks = "replicate n KUp @ replicate n KDown"
  have f: "fold (z_key env (hist_view h)) ?ks z = z\<lparr>z_left := z_left z @ z_right z, z_right := [], z_saved := z_left z @ z_right z\<rparr>"
    using assms(6,7) nav z_downs [of n "fold (z_key env (hist_view h)) (replicate n KUp) z" "hist_view h" env]
    unfolding fold_append o_apply z_ups [OF nav assms(6) assms(7) [unfolded hist_total_def length_hist_view [symmetric]]]
    by (simp add: hist_total_def)
  have "KInsert NUL \<notin> set ?ks" by auto
  from sim_fold [OF assms(1,2) this s] show ?thesis
    using s f holds_edited_text by (fastforce simp: sim_def)
qed

text \<open>Completion inserts the longest continuation that all matches share.\<close>

lemma tab_common_go_spec:
  assumes "0 \<le> k" "nat k \<le> length a"
  shows "0 \<le> tab_common_go plen a k ms
    \<and> (\<forall>m\<in>set ms. take (nat (tab_common_go plen a k ms)) (drop plen m) = take (nat (tab_common_go plen a k ms)) a)
    \<and> (\<forall>n. n \<le> nat k \<longrightarrow> (\<forall>m\<in>set ms. n \<le> length (drop plen m) \<and> take n (drop plen m) = take n a)
        \<longrightarrow> n \<le> nat (tab_common_go plen a k ms))"
  using assms
proof (induction ms arbitrary: k)
  case (Cons m ms)
  show ?case
  proof (cases "0 < k")
    case True
    define j where "j = match_len (take (nat k) a) (drop plen m)"
    have j: "j \<le> nat k" "j \<le> length a" "j \<le> length (drop plen m)" "take j a = take j (drop plen m)"
      using match_len_le [of "take (nat k) a" "drop plen m"] match_len_take [of "take (nat k) a" "drop plen m"] Cons.prems(2)
      by (auto simp: j_def min_def split: if_splits)
    note ih = Cons.IH [of "int j"]
    let ?g = "nat (tab_common_go plen a (int j) ms)"
    have g: "?g \<le> j" using tab_common_go_le [of plen a "int j" ms] by simp
    have "take ?g (drop plen m) = take ?g a"
      using j(4) g by (metis min.absorb1 take_take)
    moreover have "n \<le> ?g" if "n \<le> nat k" "\<forall>x\<in>set (m # ms). n \<le> length (drop plen x) \<and> take n (drop plen x) = take n a" for n
    proof -
      have "n \<le> j"
        unfolding j_def by (rule match_len_max) (use that Cons.prems(2) in \<open>auto simp: min_def\<close>)
      with that(2) ih j(2) show ?thesis by simp
    qed
    ultimately show ?thesis using True ih j(2) by (simp flip: j_def)
  next
    case False
    with Cons.prems show ?thesis by simp
  qed
qed simp

theorem completion_longest:
  assumes "ms \<noteq> []" "list_all (prefix partial) ms"
  shows "0 \<le> tab_common ms (length partial)
    \<and> list_all (prefix (partial @ take (nat (tab_common ms (length partial))) (drop (length partial) (hd ms)))) ms
    \<and> (list_all (prefix (partial @ w)) ms \<longrightarrow> length w \<le> nat (tab_common ms (length partial)))"
proof -
  obtain m0 ms' where ms: "ms = m0 # ms'" using assms(1) by (cases ms) auto
  define a where "a = drop (length partial) m0"
  have pre: "m = partial @ drop (length partial) m" if "m \<in> set ms" for m
    using assms(2) that by (auto simp: list_all_iff prefix_def)
  define k where "k = tab_common ms (length partial)"
  have kd: "k = tab_common_go (length partial) a (int (length a)) ms'"
    using assms(2) by (auto simp: k_def tab_common_def ms a_def of_nat_diff dest: prefix_length_le)
  note g = tab_common_go_spec [of "int (length a)" a "length partial" ms', folded kd]
  have "prefix (partial @ take (nat k) a) m" if "m \<in> set ms" for m
  proof -
    have "take (nat k) (drop (length partial) m) = take (nat k) a" using g that by (auto simp: ms a_def)
    with pre [OF that] show ?thesis by (metis same_prefix_prefix take_is_prefix)
  qed
  moreover have "length w \<le> nat k" if "list_all (prefix (partial @ w)) ms"
  proof -
    have w: "length w \<le> length (drop (length partial) m) \<and> take (length w) (drop (length partial) m) = w" if "m \<in> set ms" for m
      using \<open>list_all (prefix (partial @ w)) ms\<close> that by (auto simp: list_all_iff prefix_def)
    then have "length w \<le> length a" "take (length w) a = w" by (auto simp: ms a_def)
    with g w show ?thesis by (simp add: ms)
  qed
  moreover have "hd ms = m0" "0 \<le> k" using g by (simp_all add: ms)
  ultimately show ?thesis unfolding k_def [symmetric] list_all_iff a_def by simp
qed

section \<open>Examples\<close>

definition demo_tab :: tab_env where
  "demo_tab = \<lparr>tab_specs = map (\<lambda>n. \<lparr>spec_name = n, summary = None, long_help = None\<rparr>) [''history'', ''help'', ''head''],
     tab_glob = (\<lambda>p. if p = ''~/do*'' then Some [''/home/u/doc''] else None)\<rparr>"

definition demo_hist :: hist where
  "demo_hist = hist_add ''ls'' hist_init"

lemma demo_tab_clean: "tab_clean demo_tab"
  by (simp add: tab_clean_def demo_tab_def NUL_def)

lemma demo_hist_clean: "hist_clean demo_hist"
  unfolding demo_hist_def by (rule hist_clean_add [OF hist_clean_init]) (simp add: NUL_def)

theorem editor_refines_zipper_witness:
  "read_bnfc_line True demo_tab demo_hist ''pwd'' = z_loop demo_tab (hist_view demo_hist) (z_start (hist_view demo_hist)) ''pwd''"
  by (rule editor_refines_zipper [OF demo_hist_clean demo_tab_clean])


theorem typed_line_read_witness:
  "read_bnfc_line True demo_tab demo_hist (''ls'' @ CR # ''pwd'') = (Some ''ls'', ''pwd'')"
  by (rule typed_line_read [OF demo_hist_clean demo_tab_clean]) (simp_all add: HIST_LINE_def)

theorem history_walk_returns_witness:
  "edited_text (fold (edit_key demo_tab demo_hist) (replicate 1 KUp @ replicate 1 KDown)
      (fold (edit_key demo_tab demo_hist) [KInsert CHR ''x''] (editor_start demo_hist)))
    = edited_text (fold (edit_key demo_tab demo_hist) [KInsert CHR ''x''] (editor_start demo_hist))"
  by (rule history_walk_returns [OF demo_hist_clean demo_tab_clean _ refl])
    (simp_all add: edit_key_def insert_char_def editor_start_def HIST_LINE_def NUL_def demo_hist_def hist_total_def hist_add_def hist_init_def HIST_MAX_def)

theorem completion_longest_witness:
  "tab_common [''help'', ''held''] 1 = 2
    \<and> list_all (prefix (''h'' @ take (nat (tab_common [''help'', ''held''] 1)) (drop 1 ''help''))) [''help'', ''held'']"
  using completion_longest [of "[''help'', ''held'']" "''h''" "[]"]
  by (simp add: tab_common_def)

text \<open>
  With \<open>GLOB_TILDE\<close> a match does not begin with the word: what is inserted is cut at the word's length.
\<close>

lemma tilde_completion_garbles:
  "z_left (z_tab demo_tab \<lparr>z_left = ''ls ~/do'', z_right = [], z_nav = 0, z_saved = []\<rparr>) = ''ls ~/doe/u/doc ''"
  by (simp add: z_tab_def word_before_def is_first_word_def blank_def TAB_def demo_tab_def z_complete_def
      tab_common_def z_extend_def HIST_LINE_def Let_def)

end
