(* ===== verification/Shell_Frame.thy ===== *)
theory Shell_Frame
  imports Shell_Eval
begin

text \<open>
  What the walker leaves alone: a property of the world that every operation of the system keeps
  is kept by every evaluation that returns. The world is all the walker shares with the rest of the
  shell (its input, the alias table, the history), so this is how those components reason across it.
\<close>

definition os_keeps :: "('w \<Rightarrow> bool) \<Rightarrow> 'w shell_os \<Rightarrow> bool" where
  "os_keeps P os \<longleftrightarrow>
     (\<forall>w. P w \<longrightarrow> P (snd (mk_pipe os w)))
   \<and> (\<forall>into t fds w. P w \<longrightarrow> P (snd (spawn_ps os into t fds w)))
   \<and> (\<forall>cs e w. P w \<longrightarrow> (case exec os cs e w of Ran rc e1 w1 \<Rightarrow> P w1 | Exits rc w1 \<Rightarrow> P w1))
   \<and> (\<forall>ps w. P w \<longrightarrow> P (reap_ps os ps w))
   \<and> (\<forall>w. P w \<longrightarrow> P (snd (fork_child os w)))
   \<and> (\<forall>w v. P w \<longrightarrow> P v \<longrightarrow> P (join_child os w v))"

lemma os_keepsD:
  assumes "os_keeps P os"
  shows "P w \<Longrightarrow> P (snd (mk_pipe os w))" "P w \<Longrightarrow> P (snd (spawn_ps os into t fds w))"
    "P w \<Longrightarrow> exec os cs e w = Ran rc e1 w1 \<Longrightarrow> P w1" "P w \<Longrightarrow> exec os cs e w = Exits rc w1 \<Longrightarrow> P w1"
    "P w \<Longrightarrow> P (reap_ps os ps w)" "P w \<Longrightarrow> P (snd (fork_child os w))" "P w \<Longrightarrow> P v \<Longrightarrow> P (join_child os w v)"
proof -
  note a = assms [unfolded os_keeps_def]
  show "P w \<Longrightarrow> P (snd (mk_pipe os w))" using conjunct1 [OF a] by simp
  note b = conjunct2 [OF a]
  show "P w \<Longrightarrow> P (snd (spawn_ps os into t fds w))" using conjunct1 [OF b] by (cases fds) simp
  note c = conjunct2 [OF b]
  have ex: "P w \<Longrightarrow> (case exec os cs e w of Ran rc e1 w1 \<Rightarrow> P w1 | Exits rc w1 \<Rightarrow> P w1)"
    using conjunct1 [OF c] by simp
  show "P w \<Longrightarrow> exec os cs e w = Ran rc e1 w1 \<Longrightarrow> P w1" "P w \<Longrightarrow> exec os cs e w = Exits rc w1 \<Longrightarrow> P w1"
    using ex by simp_all
  note d = conjunct2 [OF c]
  show "P w \<Longrightarrow> P (reap_ps os ps w)" using conjunct1 [OF d] by simp
  show "P w \<Longrightarrow> P (snd (fork_child os w))" "P w \<Longrightarrow> P v \<Longrightarrow> P (join_child os w v)"
    using conjunct2 [OF d] by simp_all
qed

section \<open>Building commands\<close>

definition built_keeps :: "('w \<Rightarrow> bool) \<Rightarrow> 'e + 'a \<times> 'w \<Rightarrow> bool" where
  "built_keeps P r \<longleftrightarrow> (case r of Inl e \<Rightarrow> True | Inr (a, w) \<Rightarrow> P w)"

lemma built_keeps_simps [simp]: "built_keeps P (Inl e)" "built_keeps P (Inr (a, w)) = P w"
  by (simp_all add: built_keeps_def)

lemma truncate_ops [simp]: "mk_pipe (os.truncate os) = mk_pipe os" "spawn_ps (os.truncate os) = spawn_ps os"
  by (simp_all add: os.truncate_def)

lemma proc_subst_keeps:
  "os_keeps P os \<Longrightarrow> P w \<Longrightarrow> proc_subst (os.truncate os) into t ps w = (s, ps1, w1) \<Longrightarrow> P w1"
  using os_keepsD(1,2) [of P os]
  by (auto simp: proc_subst_def Let_def split: prod.splits option.splits if_splits) (metis snd_conv)+

lemma expand_arg_ps_keeps:
  "os_keeps P os \<Longrightarrow> P w \<Longrightarrow> expand_arg_ps (os.truncate os) e a ps w = Inr (s, ps1, w1) \<Longrightarrow> P w1"
  by (cases a) (auto simp: expand_arg_ps_def expanded_def dest: proc_subst_keeps split: sum.splits)

lemma args_go_keeps:
  "os_keeps P os \<Longrightarrow> P w \<Longrightarrow> built_keeps (\<lambda>(ps, w). P w) (args_go (os.truncate os) e la av ps w)"
proof (induction la arbitrary: av ps w)
  case (Cons a la)
  then show ?case
    by (auto split: sum.split dest: expand_arg_ps_keeps)
qed simp

lemma eval_cmdpart_keeps: "os_keeps P os \<Longrightarrow> P w \<Longrightarrow> built_keeps P (eval_cmdpart (os.truncate os) e cp w)"
proof (cases cp)
  case (Cmd a la)
  assume os: "os_keeps P os" and w: "P w"
  show ?thesis
  proof (cases "expand_arg_ps (os.truncate os) e a [] w")
    case (Inr r)
    obtain name ps1 w1 where r: "r = (name, ps1, w1)" by (cases r) auto
    have "P w1" using expand_arg_ps_keeps [OF os w] Inr r by blast
    from args_go_keeps [OF os this, of e la "[name]" ps1] Inr r Cmd show ?thesis
      by (auto split: sum.splits prod.splits)
  qed (simp add: Cmd)
qed

lemma eval_pipeline_keeps:
  "os_keeps P os \<Longrightarrow> P w \<Longrightarrow> built_keeps P (eval_pipeline_ast (os.truncate os) e pl i w)"
proof (induction pl arbitrary: i w)
  case (Single cp)
  with eval_cmdpart_keeps [of P os w e cp] show ?case by (auto split: sum.splits prod.splits)
next
  case (Pipe cp pl)
  show ?case
  proof (cases "eval_cmdpart (os.truncate os) e cp w")
    case (Inr r)
    then obtain c w1 where r: "r = (c, w1)" "P w1"
      using eval_cmdpart_keeps [OF Pipe.prems, of e cp] by (cases r) auto
    from Pipe.IH [OF Pipe.prems(1) r(2), of "Suc i"] show ?thesis
      by (auto simp: Inr r split: sum.splits prod.splits)
  qed simp
qed

lemma build_cmds_keeps: "os_keeps P os \<Longrightarrow> P w \<Longrightarrow> built_keeps P (build_cmds (os.truncate os) e bg cl w)"
proof (cases cl)
  case (MkCmdLine pl redir)
  assume "os_keeps P os" "P w"
  from eval_pipeline_keeps [OF this, of e pl 0] MkCmdLine show ?thesis
    by (auto split: sum.split prod.split)
qed

section \<open>Evaluation\<close>

definition keeps :: "('w \<Rightarrow> bool) \<Rightarrow> 'w outcome \<Rightarrow> bool" where
  "keeps P r \<longleftrightarrow> (case r of Ok rc s \<Rightarrow> P (world s) | Quit rc w \<Rightarrow> P w | Faulted f \<Rightarrow> True | Spin \<Rightarrow> True)"

lemma keeps_simps [simp]:
  "keeps P (Ok rc s) = P (world s)" "keeps P (Quit rc w) = P w" "keeps P (Faulted f)" "keeps P Spin"
  by (simp_all add: keeps_def)

lemma keeps_and_then:
  "keeps P r \<Longrightarrow> (\<And>rc s. r = Ok rc s \<Longrightarrow> P (world s) \<Longrightarrow> keeps P (k rc s)) \<Longrightarrow> keeps P (and_then r k)"
  by (cases r) auto

lemma world_updates [simp]: "world (for_var x v s) = world s" "world (set_status rc s) = world s"
  by (simp_all add: for_var_def set_status_def)

lemma keeps_run_line:
  assumes "os_keeps P os" "P (world s)"
  shows "keeps P (run_line os bg cl s)"
proof (cases "build_cmds (os.truncate os) (env s) bg cl (world s)")
  case (Inr r)
  then obtain cs w1 where r: "r = (cs, w1)" "P w1"
    using build_cmds_keeps [OF assms, of "env s" bg cl] by (cases r) auto
  show ?thesis
  proof (cases "exec os cs (env s) w1")
    case (Ran rc e w2)
    from os_keepsD(5) [OF assms(1) os_keepsD(3) [OF assms(1) r(2) this]] Ran show ?thesis
      by (simp add: run_line_def Inr r(1))
  next
    case (Exits rc w2)
    from os_keepsD(4) [OF assms(1) r(2) this] Exits show ?thesis by (simp add: run_line_def Inr r(1))
  qed
qed (simp add: run_line_def)

lemma keeps_assign_job: "P (world s) \<Longrightarrow> keeps P (assign_job raw s)"
  by (auto simp: assign_job_def split: option.split prod.split sum.split)

lemma keeps_leave:
  "os_keeps P os \<Longrightarrow> P (world s) \<Longrightarrow> keeps P r \<Longrightarrow> keeps P (leave_subshell os s r)"
  by (cases r) (auto simp: leave_subshell_def dest: os_keepsD(7))

lemma eval_keeps: "os_keeps P os \<Longrightarrow> P (world s) \<Longrightarrow> keeps P (eval os n c s)"
proof (induction os n c s rule: eval.induct)
  case (3 os n js s)
  then show ?case
  proof (cases "fork_child os (world s)")
    case (Pair p w)
    have "P w" using os_keepsD(6) [OF "3.prems"] Pair by simp
    with 3 Pair show ?thesis by (cases p) (auto intro!: keeps_leave)
  qed
next
  case (13 os n j s)
  then show ?case
    by (cases j) (auto intro!: keeps_and_then keeps_run_line keeps_assign_job split: option.split sum.split)
next
  case (21 os n neg c js ret s)
  have "keeps P (if (rc = 0) = neg then Ok ret s1 else and_then (eval os n (Body js ret) s1) (\<lambda>ret1 s2.
        if break_flag s2 then Ok ret1 (s2\<lparr>break_flag := False\<rparr>)
        else eval os n (While neg c js ret1) (s2\<lparr>continue_flag := False\<rparr>)))"
    if c: "eval os n (Cond c) s = Ok rc s1" "P (world s1)" for rc s1
  proof (cases "(rc = 0) = neg")
    case False
    have "keeps P (and_then (eval os n (Body js ret) s1) (\<lambda>ret1 s2.
        if break_flag s2 then Ok ret1 (s2\<lparr>break_flag := False\<rparr>)
        else eval os n (While neg c js ret1) (s2\<lparr>continue_flag := False\<rparr>)))"
      by (rule keeps_and_then [OF "21.IH"(2) [OF c(1) False "21.prems"(1) c(2)]])
        (use "21.IH"(3) [OF c(1) False _ _ "21.prems"(1)] in simp)
    with False show ?thesis by simp
  qed (simp add: c)
  then show ?case using keeps_and_then [OF "21.IH"(1) [OF "21.prems"]] by simp
qed (auto intro!: keeps_and_then keeps_run_line simp: eval_cmdline_def split: sum.split)

theorem eval_input_keeps:
  assumes "os_keeps P os" "P (world s)"
  shows "keeps P (eval_input os n ast s)"
  using eval_keeps [OF assms] by (simp add: eval_input_def)

end
