(* ===== verification/Repl.thy ===== *)
theory Repl
  imports Line_Editor At_Query Shell_Frame
begin

text \<open>
  The loop of the shell, \<open>bnfc_repl\<close> of \<^verbatim>\<open>aishell_main.c\<close>: the history file, reading a line with
  its continuation lines, the \<open>@\<close> prefix, alias lines, the passes over the line, parsing (the
  generated parser is a parameter) and evaluation. The world the walker runs in holds what the
  components share: the bytes of the standard input still to be read, the alias table and the
  history, which commands may use and change.
\<close>

section \<open>The history file\<close>

definition history_line_of :: "char list \<Rightarrow> cstring" where
  "history_line_of b = takeWhile (\<lambda>c. c \<noteq> CR \<and> c \<noteq> NL) (c_str b)"

definition load_step :: "char list \<Rightarrow> hist \<Rightarrow> hist" where
  "load_step b h = (if history_line_of b = [] then h else hist_add (history_line_of b) h)"

definition load_history :: "char list option \<Rightarrow> hist \<Rightarrow> hist" where
  "load_history file h = (case file of None \<Rightarrow> h | Some bytes \<Rightarrow> fold load_step (fgets_all HIST_LINE bytes) h)"

definition save_history :: "hist \<Rightarrow> char list" where
  "save_history h = concat (map (\<lambda>i. hist_get h i @ [NL]) [0..int (hist_total h) - 1])"

section \<open>State\<close>

record 'w terminal =
  term_in :: "char list"
  alias_tab :: table
  past :: hist
  at_done :: "at_act list"
  printed :: "cstring list"
  others :: 'w

record 'w repl_sys =
  sys_shell :: "'w terminal shell_os"
  sys_parse :: "cstring \<Rightarrow> job_stmt list option"
  sys_popen :: "'w terminal \<Rightarrow> cstring \<Rightarrow> char list option"
  sys_at :: at_env
  sys_tab :: tab_env
  sys_tty :: bool

datatype repl_fault = InArith arith_fault | InSubst | InWalker shell_fault

definition on_world :: "('w \<Rightarrow> 'w) \<Rightarrow> 'w sh \<Rightarrow> 'w sh" where
  "on_world f s = s\<lparr>world := f (world s)\<rparr>"

section \<open>Continuation lines\<close>

definition depth_step :: "cstring \<Rightarrow> int \<Rightarrow> int" where
  "depth_step tok d =
     (if tok = ''for'' \<or> tok = ''while'' \<or> tok = ''until'' \<or> tok = ''if'' then d + 1
      else if tok = ''done'' \<or> tok = ''fi'' then d - 1 else d)"

definition open_depth :: "cstring \<Rightarrow> int" where
  "open_depth s = fold depth_step (strtok word_sep s) 0"

function collect_lines :: "cstring \<Rightarrow> char list \<Rightarrow> cstring \<times> char list" where
  "collect_lines full s =
     (if 0 < open_depth full \<and> s \<noteq> []
      then collect_lines (full @ '' '' @ c_str (chomp (take (line_len s) s))) (drop (line_len s) s)
      else (full, s))"
  by pat_completeness auto
termination
  by (relation "measure (\<lambda>(full, s). length s)") (auto simp: line_len_def split: option.split)

declare collect_lines.simps [simp del]

section \<open>One line\<close>

text \<open>The passes before parsing.\<close>

definition passes :: "lookup \<Rightarrow> (cstring \<Rightarrow> char list option) \<Rightarrow> cstring \<Rightarrow> repl_fault + cstring" where
  "passes look run line = (case preprocess_arith look line of
      Inl f \<Rightarrow> Inl (InArith f)
    | Inr t1 \<Rightarrow> (case preprocess_cmd_subst run t1 of
        None \<Rightarrow> Inl InSubst
      | Some t2 \<Rightarrow> Inr (preprocess_quotes (preprocess_loop_syntax t2))))"

datatype 'w turn = Next "'w sh" | AtEof "'w sh" | Exited int 'w | Broke repl_fault | Spinning | StillRunning

definition run_ast :: "'w terminal shell_os \<Rightarrow> nat \<Rightarrow> job_stmt list \<Rightarrow> 'w terminal sh \<Rightarrow> 'w terminal turn" where
  "run_ast os n ast s = (case eval_input os n ast s of
      Ok rc s1 \<Rightarrow> Next (set_status rc s1) | Quit rc w \<Rightarrow> Exited rc w
    | Faulted f \<Rightarrow> Broke (InWalker f) | Spin \<Rightarrow> Spinning)"

definition run_text :: "'w repl_sys \<Rightarrow> nat \<Rightarrow> cstring \<Rightarrow> 'w terminal sh \<Rightarrow> 'w terminal turn" where
  "run_text sys n full s0 =
     (let s = on_world (\<lambda>w. w\<lparr>past := hist_add full (past w)\<rparr>) s0; w = world s in
      case try_handle_alias_define full (alias_tab w) of
        Some (rc, t, out) \<Rightarrow> Next (set_status rc (on_world (\<lambda>w. w\<lparr>alias_tab := t, printed := printed w @ out\<rparr>) s))
      | None \<Rightarrow>
          (case passes (shell_lookup (env s)) (sys_popen sys w) (expand_alias (alias_tab w) full) of
             Inl f \<Rightarrow> Broke f
           | Inr text \<Rightarrow>
               (case sys_parse sys text of
                  None \<Rightarrow> Next (set_status 1 s)
                | Some ast \<Rightarrow> run_ast (sys_shell sys) n ast s)))"

definition repl_line :: "'w repl_sys \<Rightarrow> nat \<Rightarrow> cstring \<Rightarrow> 'w terminal sh \<Rightarrow> 'w terminal turn" where
  "repl_line sys n line s =
     (if line = [] then Next s
      else if hd line = CHR ''@''
      then (case handle_at_query (sys_at sys) (tl line) (term_in (world s)) of
              (rc, acts, inp) \<Rightarrow> Next (on_world (\<lambda>w. w\<lparr>term_in := inp, at_done := at_done w @ acts\<rparr>) s))
      else (case collect_lines line (term_in (world s)) of
              (full, inp) \<Rightarrow> run_text sys n full (on_world (\<lambda>w. w\<lparr>term_in := inp\<rparr>) s)))"

definition repl_turn :: "'w repl_sys \<Rightarrow> nat \<Rightarrow> 'w terminal sh \<Rightarrow> 'w terminal turn" where
  "repl_turn sys n s =
     (case read_bnfc_line (sys_tty sys) (sys_tab sys) (past (world s)) (term_in (world s)) of
        (None, inp) \<Rightarrow> AtEof (on_world (\<lambda>w. w\<lparr>term_in := inp\<rparr>) s)
      | (Some line, inp) \<Rightarrow> repl_line sys n line (on_world (\<lambda>w. w\<lparr>term_in := inp\<rparr>) s))"

text \<open>At most \<open>k\<close> turns.\<close>

fun repl_loop :: "'w repl_sys \<Rightarrow> nat \<Rightarrow> nat \<Rightarrow> 'w terminal sh \<Rightarrow> 'w terminal turn" where
  "repl_loop sys n 0 s = StillRunning"
| "repl_loop sys n (Suc k) s = (case repl_turn sys n s of Next s1 \<Rightarrow> repl_loop sys n k s1 | r \<Rightarrow> r)"

text \<open>The whole session: the history file is read first and written at the end of the input only.\<close>

definition bnfc_repl :: "'w repl_sys \<Rightarrow> nat \<Rightarrow> nat \<Rightarrow> char list option \<Rightarrow> 'w terminal sh \<Rightarrow> 'w terminal turn \<times> char list option" where
  "bnfc_repl sys n k file s =
     (let r = repl_loop sys n k (on_world (\<lambda>w. w\<lparr>past := load_history file (past w)\<rparr>) s) in
      (r, case r of AtEof s1 \<Rightarrow> Some (save_history (past (world s1))) | _ \<Rightarrow> file))"

section \<open>The history file is read back\<close>

definition storable :: "cstring \<Rightarrow> bool" where
  "storable l \<longleftrightarrow> l \<noteq> [] \<and> length l < HIST_LINE \<and> NUL \<notin> set l \<and> CR \<notin> set l \<and> NL \<notin> set l"

lemma fgets_go_full:
  "NL \<notin> set t \<Longrightarrow> t \<noteq> [] \<Longrightarrow> length cur + length t = m \<Longrightarrow> fgets_go m cur (t @ s) = (rev cur @ t) # fgets_go m [] s"
proof (induction t arbitrary: cur)
  case (Cons c t)
  then show ?case using Cons.IH [of "c # cur"] by (cases t) auto
qed simp

lemma history_line_plain: "storable l \<Longrightarrow> history_line_of (l @ r) = l" if "r = [] \<or> hd r = NL"
proof -
  assume l: "storable l"
  have c: "c_str (l @ r) = l @ c_str r" using l by (auto simp: storable_def c_str_def takeWhile_append)
  have "takeWhile (\<lambda>c. c \<noteq> CR \<and> c \<noteq> NL) (c_str r) = []"
    using that by (cases r) (auto simp: c_str_def NL_def NUL_def)
  with l c show ?thesis
    by (auto simp: history_line_of_def storable_def takeWhile_append)
qed

lemma load_one:
  assumes "storable l"
  shows "fold load_step (fgets_all HIST_LINE (l @ NL # s)) h = fold load_step (fgets_all HIST_LINE s) (hist_add l h)"
proof (cases "length l < HIST_LINE - 1")
  case True
  then have "fgets_go (HIST_LINE - 1) [] (l @ NL # s) = (l @ [NL]) # fgets_go (HIST_LINE - 1) [] s"
    using fgets_go_line [of l "[]" "HIST_LINE - 1" s] assms by (simp add: storable_def)
  moreover have "load_step (l @ [NL]) h = hist_add l h"
    using history_line_plain [of "[NL]" l] assms by (simp add: load_step_def storable_def)
  ultimately show ?thesis by (simp add: fgets_all_def)
next
  case False
  then have n: "length l = HIST_LINE - 1" using assms unfolding storable_def by linarith
  have "fgets_go (HIST_LINE - 1) [] (l @ NL # s) = l # fgets_go (HIST_LINE - 1) [] (NL # s)"
    using fgets_go_full [of l "[]" "HIST_LINE - 1" "NL # s"] assms n by (simp add: storable_def)
  moreover have "load_step l h = hist_add l h"
    using history_line_plain [of "[]" l] assms by (simp add: load_step_def storable_def)
  moreover have "load_step [NL] h = h" for h
    by (simp add: load_step_def history_line_of_def c_str_def NL_def NUL_def)
  ultimately show ?thesis by (simp add: fgets_all_def)
qed

lemma load_lines:
  "list_all storable ls \<Longrightarrow>
     fold load_step (fgets_all HIST_LINE (concat (map (\<lambda>l. l @ [NL]) ls))) h = fold hist_add ls h"
proof (induction ls arbitrary: h)
  case (Cons l ls)
  then show ?case using load_one [of l "concat (map (\<lambda>l. l @ [NL]) ls)" h] by simp
qed (simp add: fgets_all_def)

lemma fold_hist_add: "hist_ok h \<Longrightarrow> hist_view (fold hist_add ls h) = fold spec_add ls (hist_view h)"
proof -
  have "(\<lambda>x. hist_step (HAdd x)) = hist_add" "(\<lambda>x. spec_step (HAdd x)) = spec_add" by (simp_all add: fun_eq_iff)
  moreover assume "hist_ok h"
  ultimately show ?thesis using hist_run_refines [of h "map HAdd ls"] by (simp add: fold_map o_def)
qed

lemma spec_add_all:
  "list_all storable ys \<Longrightarrow> distinct_adj (xs @ ys) \<Longrightarrow> length (xs @ ys) \<le> HIST_MAX \<Longrightarrow> fold spec_add ys xs = xs @ ys"
proof (induction ys arbitrary: xs)
  case (Cons y ys)
  have "xs = [] \<or> last xs \<noteq> y" using Cons.prems(2) by (auto simp: distinct_adj_append_iff)
  then have "spec_add y xs = xs @ [y]"
    using Cons.prems by (auto simp: spec_add_def storable_def fit_id)
  with Cons.IH [of "xs @ [y]"] Cons.prems show ?case by simp
qed simp

lemma save_history_eq: "save_history h = concat (map (\<lambda>l. l @ [NL]) (hist_view h))"
  by (simp add: save_history_def hist_view_def hist_total_def o_def)



text \<open>Only the end of the input writes the file: the \<open>exit\<close> command ends the process before.\<close>

lemma exit_keeps_old_history_file:
  "fst (bnfc_repl sys n k file s) = Exited rc w \<Longrightarrow> snd (bnfc_repl sys n k file s) = file"
  by (simp add: bnfc_repl_def Let_def)

section \<open>The loop comes to an end\<close>

lemma read_key_eof: "fst (read_key s) = KEof \<Longrightarrow> s = []"
  by (cases s) (auto simp: escape_key_def arrow_key_def control_key_def split: list.splits if_splits)

lemma edit_loop_rest:
  "length (snd (edit_loop te h e s)) \<le> length s \<and> (s \<noteq> [] \<longrightarrow> length (snd (edit_loop te h e s)) < length s)
     \<and> (s = [] \<and> blen e = 0 \<longrightarrow> fst (edit_loop te h e s) = None)"
proof (induction te h e s rule: edit_loop.induct)
  case (1 te h e s)
  let ?k = "fst (read_key s)" and ?s = "snd (read_key s)"
  have sh: "s \<noteq> [] \<Longrightarrow> length ?s < length s" using read_key_shorter [of s] read_key_eof [of s] by auto
  show ?case
  proof (cases "ends_line ?k (blen e)")
    case True
    with sh show ?thesis by (cases "s = []") (auto simp: edit_loop.simps [of te h e s] edit_loop.simps [of te h e "[]"] line_result_def)
  next
    case False
    then have "s \<noteq> []" by (auto simp: ends_line_def)
    with False sh "1.IH" [OF refl refl False] show ?thesis by (auto simp: edit_loop.simps [of te h e s])
  qed
qed

lemma read_line_shorter: "read_bnfc_line tty te h s = (Some l, s1) \<Longrightarrow> length s1 < length s"
  using edit_loop_rest [of te h "editor_start h" s]
  by (cases "s = []") (auto simp: read_bnfc_line_def plain_line_read_def editor_start_def line_len_def split: if_splits option.splits)

lemma collect_lines_rest: "length (snd (collect_lines full s)) \<le> length s"
proof (induction full s rule: collect_lines.induct)
  case (1 full s)
  then show ?case by (subst collect_lines.simps) (auto intro: order.trans)
qed

lemma fgets1_rest: "fgets1 n s = Some (t, r) \<Longrightarrow> length r \<le> length s"
  by (auto simp: fgets1_def Let_def split: if_splits)

lemma fill_go_rest: "length (snd (fill_go t s)) \<le> length s"
proof (induction t s rule: fill_go.induct)
  case (1 t s)
  then show ?case
    by (subst fill_go.simps) (fastforce dest: fgets1_rest split: option.split)
qed

lemma fill_placeholders_rest: "length (snd (fill_placeholders c s)) \<le> length s"
  by (simp add: fill_placeholders_def fill_go_rest)

lemma at_offer_rest: "length (snd (snd (at_offer e q c l s))) \<le> length s"
  by (auto simp: at_offer_def at_answer_def dest: fgets1_rest split: option.split prod.split)

lemma at_fallback_rest: "length (snd (snd (at_fallback e q s))) \<le> length s"
  by (simp add: at_fallback_def at_offer_rest split: option.split)

lemma at_rag_hit_rest: "length (snd (snd (at_rag_hit e q r s))) \<le> length s"
proof -
  have "length (snd (snd (case fill_placeholders v s of (None, s1) \<Rightarrow> (1, [], s1) | (Some cmd, s1) \<Rightarrow> at_offer e q cmd (Some v) s1))) \<le> length s" for v
    using fill_placeholders_rest [of v s]
    by (auto split: prod.split option.split intro: order.trans [OF at_offer_rest])
  then show ?thesis by (auto simp: at_rag_hit_def Let_def at_fallback_rest split: suggest_status.split)
qed

lemma at_remote_rest: "length (snd (snd (at_remote e q c s))) \<le> length s"
  by (auto simp: at_remote_def at_ai_step_def Let_def at_fallback_rest at_offer_rest split: option.split suggest_status.split)

lemma handle_at_query_rest: "length (snd (snd (handle_at_query e q s))) \<le> length s"
proof -
  have "length (snd (snd (at_lookup e q s))) \<le> length s" for q
    by (auto simp: at_lookup_def at_entry_hit_def at_rag_hit_rest at_remote_rest at_offer_rest split: list.split option.split)
  then show ?thesis by (simp add: handle_at_query_def Let_def)
qed

text \<open>The bytes left, over a turn.\<close>

definition input_left :: "'w terminal sh \<Rightarrow> nat" where
  "input_left s = length (term_in (world s))"

definition frugal :: "'w repl_sys \<Rightarrow> bool" where
  "frugal sys \<longleftrightarrow> (\<forall>N. os_keeps (\<lambda>w. length (term_in w) \<le> N) (sys_shell sys))
     \<and> (\<forall>t ast. sys_parse sys t = Some ast \<longrightarrow> list_all bounded ast)"

definition turn_le :: "nat \<Rightarrow> 'w terminal turn \<Rightarrow> bool" where
  "turn_le N r \<longleftrightarrow> (case r of Next s \<Rightarrow> input_left s \<le> N | Spinning \<Rightarrow> False | StillRunning \<Rightarrow> False | _ \<Rightarrow> True)"

lemma run_ast_le:
  assumes "frugal sys" "list_all bounded ast"
  shows "turn_le (input_left s) (run_ast (sys_shell sys) n ast s)"
proof -
  have "os_keeps (\<lambda>w. length (term_in w) \<le> input_left s) (sys_shell sys)" using assms(1) by (simp add: frugal_def)
  from eval_keeps [OF this, of s n "Jobs ast 0"]
  have "keeps (\<lambda>w. length (term_in w) \<le> input_left s) (eval_input (sys_shell sys) n ast s)"
    by (simp add: eval_input_def input_left_def)
  moreover have "eval_input (sys_shell sys) n ast s \<noteq> Spin"
    using bounded_returns [of "Jobs ast 0" "sys_shell sys" n s] assms(2) by (simp add: eval_input_def returns_def)
  ultimately show ?thesis
    by (auto simp: run_ast_def turn_le_def input_left_def split: outcome.split)
qed

lemma input_left_on_world [simp]:
  "(\<And>w. term_in (f w) = term_in w) \<Longrightarrow> input_left (on_world f s) = input_left s"
  by (simp add: input_left_def on_world_def)

lemma input_left_set_status [simp]: "input_left (set_status rc s) = input_left s"
  by (simp add: input_left_def)

lemma run_text_le:
  assumes "frugal sys"
  shows "turn_le (input_left s) (run_text sys n full s)"
proof -
  let ?s = "on_world (\<lambda>w. w\<lparr>past := hist_add full (past w)\<rparr>) s"
  have l: "input_left ?s = input_left s" by simp
  show ?thesis
  proof (cases "try_handle_alias_define full (alias_tab (world ?s))")
    case None
    show ?thesis
    proof (cases "passes (shell_lookup (env ?s)) (sys_popen sys (world ?s)) (expand_alias (alias_tab (world ?s)) full)")
      case (Inr src)
      show ?thesis
      proof (cases "sys_parse sys src")
        case (Some ast)
        then have "list_all bounded ast" using assms by (simp add: frugal_def)
        from run_ast_le [OF assms this, of ?s n] None Inr Some l show ?thesis by (simp add: run_text_def Let_def)
      qed (use None Inr l in \<open>simp add: run_text_def Let_def turn_le_def\<close>)
    qed (use None in \<open>simp add: run_text_def Let_def turn_le_def\<close>)
  next
    case (Some r)
    then show ?thesis using l by (cases r) (simp add: run_text_def Let_def turn_le_def)
  qed
qed

lemma turn_le_mono: "turn_le N r \<Longrightarrow> N \<le> M \<Longrightarrow> turn_le M r"
  by (auto simp: turn_le_def split: turn.splits)

lemma input_left_new [simp]: "input_left (on_world (\<lambda>w. w\<lparr>term_in := inp\<rparr>) s) = length inp"
  by (simp add: input_left_def on_world_def)

lemma repl_line_le:
  assumes "frugal sys"
  shows "turn_le (input_left s) (repl_line sys n line s)"
proof (cases "line = [] \<or> hd line = CHR ''@''")
  case True
  then show ?thesis
    using handle_at_query_rest [of "sys_at sys" "tl line" "term_in (world s)"]
    by (auto simp: repl_line_def turn_le_def input_left_def on_world_def split: prod.split)
next
  case False
  obtain full inp where c: "collect_lines line (term_in (world s)) = (full, inp)" by fastforce
  then have "length inp \<le> input_left s" using collect_lines_rest [of line "term_in (world s)"] by (simp add: input_left_def)
  with run_text_le [OF assms, of "on_world (\<lambda>w. w\<lparr>term_in := inp\<rparr>) s" n full] False c show ?thesis
    by (auto simp: repl_line_def intro: turn_le_mono)
qed

lemma repl_turn_le:
  assumes "frugal sys"
  shows "(case repl_turn sys n s of Next s1 \<Rightarrow> input_left s1 < input_left s
    | Spinning \<Rightarrow> False | StillRunning \<Rightarrow> False | _ \<Rightarrow> True)"
proof -
  obtain l inp where r: "read_bnfc_line (sys_tty sys) (sys_tab sys) (past (world s)) (term_in (world s)) = (l, inp)"
    by fastforce
  show ?thesis
  proof (cases l)
    case (Some line)
    then have "length inp < input_left s" using read_line_shorter r by (auto simp: input_left_def)
    with repl_line_le [OF assms, of "on_world (\<lambda>w. w\<lparr>term_in := inp\<rparr>) s" n line] r Some show ?thesis
      by (auto simp: repl_turn_def turn_le_def split: turn.splits)
  qed (use r in \<open>simp add: repl_turn_def\<close>)
qed

lemma repl_loop_ends:
  "frugal sys \<Longrightarrow> input_left s < k \<Longrightarrow> repl_loop sys n k s \<noteq> StillRunning \<and> repl_loop sys n k s \<noteq> Spinning"
proof (induction k arbitrary: s)
  case (Suc k)
  note t = repl_turn_le [OF Suc.prems(1), of s n]
  show ?case
  proof (cases "repl_turn sys n s")
    case (Next s1)
    with t Suc.prems have "input_left s1 < k" by simp
    from Suc.IH [OF Suc.prems(1) this] Next show ?thesis by simp
  qed (use t in simp_all)
qed simp


section \<open>A plain line\<close>

definition plain_source :: "cstring \<Rightarrow> bool" where
  "plain_source t \<longleftrightarrow> CHR ''$'' \<notin> set t \<and> CHR '';'' \<notin> set t \<and> DQ \<notin> set t \<and> SQ \<notin> set t"

lemma preprocess_arith_plain: "CHR ''$'' \<notin> set t \<Longrightarrow> preprocess_arith look t = Inr t"
  by (induction t) auto

lemma preprocess_loop_syntax_plain: "CHR '';'' \<notin> set t \<Longrightarrow> preprocess_loop_syntax t = t"
  by (induction t) auto

lemma preprocess_quotes_plain: "DQ \<notin> set t \<Longrightarrow> SQ \<notin> set t \<Longrightarrow> preprocess_quotes t = t"
  unfolding preprocess_quotes_def by (induction t) auto

lemma passes_plain: "plain_source t \<Longrightarrow> passes look run t = Inr t"
  by (simp add: plain_source_def passes_def preprocess_arith_plain preprocess_cmd_subst_def cmd_subst_copy
      preprocess_loop_syntax_plain preprocess_quotes_plain)

lemma on_world_world [simp]: "world (on_world f s) = f (world s)" "env (on_world f s) = env s"
  by (simp_all add: on_world_def)

lemma on_world_comp [simp]: "on_world f (on_world g s) = on_world (\<lambda>w. f (g w)) s"
  by (simp add: on_world_def)


section \<open>Keywords as words\<close>

text \<open>
  The depth counts words, wherever they stand: a keyword as an argument makes the shell wait for
  its end, and a closing keyword with a semicolon attached does not close.
\<close>

lemma keyword_argument_swallows_line:
  "collect_lines ''echo if'' (''ls'' @ [NL] @ ''fi'' @ [NL] @ ''pwd'') = (''echo if ls fi'', ''pwd'')"
proof -
  have d: "open_depth ''echo if'' = 1" "open_depth ''echo if ls'' = 1" "open_depth ''echo if ls fi'' = 0"
    by (simp_all add: open_depth_def strtok_def word_sep_def TAB_def NL_def depth_step_def)
  have c: "c_str ''ls'' = ''ls''" "c_str ''fi'' = ''fi''" by (simp_all add: c_str_def NUL_def)
  have l: "line_len (''ls'' @ [NL] @ ''fi'' @ [NL] @ ''pwd'') = 3" "line_len (''fi'' @ [NL] @ ''pwd'') = 3"
    by (simp_all add: line_len_def NL_def)
  have "collect_lines ''echo if'' (''ls'' @ [NL] @ ''fi'' @ [NL] @ ''pwd'') = collect_lines ''echo if ls'' (''fi'' @ [NL] @ ''pwd'')"
    by (subst collect_lines.simps, simp only: l) (simp add: d c chomp_def)
  also have "\<dots> = collect_lines ''echo if ls fi'' ''pwd''"
    by (subst collect_lines.simps, simp only: l) (simp add: d c chomp_def)
  also have "\<dots> = (''echo if ls fi'', ''pwd'')"
    by (subst collect_lines.simps) (simp add: d)
  finally show ?thesis .
qed

lemma fi_with_semicolon_stays_open: "open_depth ''if true; then ls; fi; ls'' = 1"
  by (simp add: open_depth_def strtok_def word_sep_def TAB_def NL_def depth_step_def)

section \<open>A small system\<close>

definition demo_terminal_os :: "unit terminal shell_os" where
  "demo_terminal_os = os.extend
     \<lparr>glob_words = (\<lambda>_ _. None), mk_pipe = (\<lambda>w. (None, w)), spawn_ps = (\<lambda>_ _ _ w. (1, w))\<rparr>
     \<lparr>exec = (\<lambda>cs e w. Ran (int (length cs)) e w), reap_ps = (\<lambda>_ w. w), fork_child = (\<lambda>w. (None, w)), join_child = (\<lambda>w _. w)\<rparr>"

definition demo_ls :: "job_stmt list" where
  "demo_ls = [OneJobFG (CondSingle (PlainCL (MkCmdLine (Single (Cmd (WrdArg ''ls'') [])) NoRedir)))]"

definition demo_repl :: "unit repl_sys" where
  "demo_repl = \<lparr>sys_shell = demo_terminal_os, sys_parse = (\<lambda>t. if t = ''ls'' then Some demo_ls else None),
     sys_popen = (\<lambda>_ _. None), sys_at = demo_at, sys_tab = demo_tab, sys_tty = True\<rparr>"

definition demo_prompt :: "unit terminal sh" where
  "demo_prompt = \<lparr>env = demo_shell, break_flag = False, continue_flag = False,
     world = \<lparr>term_in = ''ls'' @ CR # ''pwd'', alias_tab = [], past = demo_hist, at_done = [], printed = [], others = ()\<rparr>\<rparr>"

lemma demo_frugal: "frugal demo_repl"
  by (simp add: frugal_def demo_repl_def os_keeps_def demo_terminal_os_def os.extend_def demo_ls_def)



end
