(* ===== verification/Hash.thy ===== *)
theory Hash
  imports Prelude
begin

text \<open>
  MD5 and SHA-256 of \<^verbatim>\<open>hash_utils.c\<close> on 32-bit words: the tables, the compression of one block of 64
  bytes, the reading loop with its padding and the hexadecimal digest. The specification is the
  one of the standards: rotations, the message schedule as a recurrence, words as numbers, the
  padded message cut into blocks.
\<close>

unbundle bit_operations_syntax

type_synonym byte = "8 word"
type_synonym word32 = "32 word"

section \<open>MD5\<close>

definition md5_K :: "word32 list" where
  "md5_K =
    [0xd76aa478, 0xe8c7b756, 0x242070db, 0xc1bdceee, 0xf57c0faf, 0x4787c62a, 0xa8304613, 0xfd469501,
     0x698098d8, 0x8b44f7af, 0xffff5bb1, 0x895cd7be, 0x6b901122, 0xfd987193, 0xa679438e, 0x49b40821,
     0xf61e2562, 0xc040b340, 0x265e5a51, 0xe9b6c7aa, 0xd62f105d, 0x02441453, 0xd8a1e681, 0xe7d3fbc8,
     0x21e1cde6, 0xc33707d6, 0xf4d50d87, 0x455a14ed, 0xa9e3e905, 0xfcefa3f8, 0x676f02d9, 0x8d2a4c8a,
     0xfffa3942, 0x8771f681, 0x6d9d6122, 0xfde5380c, 0xa4beea44, 0x4bdecfa9, 0xf6bb4b60, 0xbebfbc70,
     0x289b7ec6, 0xeaa127fa, 0xd4ef3085, 0x04881d05, 0xd9d4d039, 0xe6db99e5, 0x1fa27cf8, 0xc4ac5665,
     0xf4292244, 0x432aff97, 0xab9423a7, 0xfc93a039, 0x655b59c3, 0x8f0ccc92, 0xffeff47d, 0x85845dd1,
     0x6fa87e4f, 0xfe2ce6e0, 0xa3014314, 0x4e0811a1, 0xf7537e82, 0xbd3af235, 0x2ad7d2bb, 0xeb86d391]"

definition md5_S :: "nat list" where
  "md5_S =
    [7, 12, 17, 22, 7, 12, 17, 22, 7, 12, 17, 22, 7, 12, 17, 22,
     5, 9, 14, 20, 5, 9, 14, 20, 5, 9, 14, 20, 5, 9, 14, 20,
     4, 11, 16, 23, 4, 11, 16, 23, 4, 11, 16, 23, 4, 11, 16, 23,
     6, 10, 15, 21, 6, 10, 15, 21, 6, 10, 15, 21, 6, 10, 15, 21]"

definition MD5_ROTL :: "nat \<Rightarrow> word32 \<Rightarrow> word32" where
  "MD5_ROTL n x = push_bit n x OR drop_bit (32 - n) x"

definition le32 :: "byte list \<Rightarrow> nat \<Rightarrow> word32" where
  "le32 b i = ucast (b ! (i * 4)) OR push_bit 8 (ucast (b ! (i * 4 + 1)))
     OR push_bit 16 (ucast (b ! (i * 4 + 2))) OR push_bit 24 (ucast (b ! (i * 4 + 3)))"

type_synonym regs4 = "word32 \<times> word32 \<times> word32 \<times> word32"

definition md5_step :: "word32 list \<Rightarrow> nat \<Rightarrow> regs4 \<Rightarrow> regs4" where
  "md5_step M i r = (case r of (A, B, C, D) \<Rightarrow>
     let (F, g) =
       (if i < 16 then ((B AND C) OR (NOT B AND D), i)
        else if i < 32 then ((D AND B) OR (NOT D AND C), (5 * i + 1) mod 16)
        else if i < 48 then (B XOR C XOR D, (3 * i + 5) mod 16)
        else (C XOR (B OR NOT D), (7 * i) mod 16))
     in (D, B + MD5_ROTL (md5_S ! i) (F + (A + md5_K ! i + M ! g)), B, C))"

definition md5_block :: "word32 list \<Rightarrow> byte list \<Rightarrow> word32 list" where
  "md5_block s b =
     (case fold (md5_step (map (le32 b) [0..<16])) [0..<64] (s ! 0, s ! 1, s ! 2, s ! 3) of
        (A, B, C, D) \<Rightarrow> [s ! 0 + A, s ! 1 + B, s ! 2 + C, s ! 3 + D])"

definition md5_init :: "word32 list" where
  "md5_init = [0x67452301, 0xefcdab89, 0x98badcfe, 0x10325476]"

section \<open>SHA-256\<close>

definition K256 :: "word32 list" where
  "K256 =
    [0x428a2f98, 0x71374491, 0xb5c0fbcf, 0xe9b5dba5] @ [0x3956c25b, 0x59f111f1, 0x923f82a4, 0xab1c5ed5] @
     [0xd807aa98, 0x12835b01, 0x243185be, 0x550c7dc3] @ [0x72be5d74, 0x80deb1fe, 0x9bdc06a7, 0xc19bf174] @
     [0xe49b69c1, 0xefbe4786, 0x0fc19dc6, 0x240ca1cc] @ [0x2de92c6f, 0x4a7484aa, 0x5cb0a9dc, 0x76f988da] @
     [0x983e5152, 0xa831c66d, 0xb00327c8, 0xbf597fc7] @ [0xc6e00bf3, 0xd5a79147, 0x06ca6351, 0x14292967] @
     [0x27b70a85, 0x2e1b2138, 0x4d2c6dfc, 0x53380d13] @ [0x650a7354, 0x766a0abb, 0x81c2c92e, 0x92722c85] @
     [0xa2bfe8a1, 0xa81a664b, 0xc24b8b70, 0xc76c51a3] @ [0xd192e819, 0xd6990624, 0xf40e3585, 0x106aa070] @
     [0x19a4c116, 0x1e376c08, 0x2748774c, 0x34b0bcb5] @ [0x391c0cb3, 0x4ed8aa4a, 0x5b9cca4f, 0x682e6ff3] @
     [0x748f82ee, 0x78a5636f, 0x84c87814, 0x8cc70208] @ [0x90befffa, 0xa4506ceb, 0xbef9a3f7, 0xc67178f2]"

definition ROTR32 :: "nat \<Rightarrow> word32 \<Rightarrow> word32" where
  "ROTR32 n x = drop_bit n x OR push_bit (32 - n) x"

definition S256_CH :: "word32 \<Rightarrow> word32 \<Rightarrow> word32 \<Rightarrow> word32" where
  "S256_CH e f g = (e AND f) XOR (NOT e AND g)"

definition S256_MAJ :: "word32 \<Rightarrow> word32 \<Rightarrow> word32 \<Rightarrow> word32" where
  "S256_MAJ a b c = (a AND b) XOR (a AND c) XOR (b AND c)"

definition S256_EP0 :: "word32 \<Rightarrow> word32" where
  "S256_EP0 a = ROTR32 2 a XOR ROTR32 13 a XOR ROTR32 22 a"

definition S256_EP1 :: "word32 \<Rightarrow> word32" where
  "S256_EP1 e = ROTR32 6 e XOR ROTR32 11 e XOR ROTR32 25 e"

definition S256_SG0 :: "word32 \<Rightarrow> word32" where
  "S256_SG0 x = ROTR32 7 x XOR ROTR32 18 x XOR drop_bit 3 x"

definition S256_SG1 :: "word32 \<Rightarrow> word32" where
  "S256_SG1 x = ROTR32 17 x XOR ROTR32 19 x XOR drop_bit 10 x"

definition be32 :: "byte list \<Rightarrow> nat \<Rightarrow> word32" where
  "be32 b i = push_bit 24 (ucast (b ! (i * 4))) OR push_bit 16 (ucast (b ! (i * 4 + 1)))
     OR push_bit 8 (ucast (b ! (i * 4 + 2))) OR ucast (b ! (i * 4 + 3))"

text \<open>The array \<open>W\<close>, filled from index 16 on.\<close>

definition sched_step :: "nat \<Rightarrow> word32 list \<Rightarrow> word32 list" where
  "sched_step i W = W @ [S256_SG1 (W ! (i - 2)) + W ! (i - 7) + S256_SG0 (W ! (i - 15)) + W ! (i - 16)]"

definition sha256_W :: "byte list \<Rightarrow> word32 list" where
  "sha256_W b = fold sched_step [16..<64] (map (be32 b) [0..<16])"

definition sha256_step :: "word32 list \<Rightarrow> nat \<Rightarrow> word32 list \<Rightarrow> word32 list" where
  "sha256_step W i r =
     (let a = r ! 0; b = r ! 1; c = r ! 2; d = r ! 3; e = r ! 4; f = r ! 5; g = r ! 6; h = r ! 7;
          t1 = h + S256_EP1 e + S256_CH e f g + K256 ! i + W ! i;
          t2 = S256_EP0 a + S256_MAJ a b c
      in [t1 + t2, a, b, c, d + t1, e, f, g])"

definition sha256_block :: "word32 list \<Rightarrow> byte list \<Rightarrow> word32 list" where
  "sha256_block s b = map2 (+) s (fold (sha256_step (sha256_W b)) [0..<64] s)"

definition sha256_init :: "word32 list" where
  "sha256_init = [0x6a09e667, 0xbb67ae85, 0x3c6ef372, 0xa54ff53a, 0x510e527f, 0x9b05688c, 0x1f83d9ab, 0x5be0cd19]"

section \<open>The reading loop\<close>

text \<open>
  Both digests read blocks of 64 bytes, count the bits, and finish with a byte 0x80, zeros and the
  bit count in the last 8 bytes; \<open>block\<close> and \<open>enc\<close> are what they differ in.
\<close>

function absorb :: "('s \<Rightarrow> byte list \<Rightarrow> 's) \<Rightarrow> 's \<Rightarrow> 64 word \<Rightarrow> byte list \<Rightarrow> 's \<times> 64 word \<times> byte list" where
  "absorb block s bits data =
     (if 64 \<le> length data then absorb block (block s (take 64 data)) (bits + 512) (drop 64 data)
      else (s, bits + of_nat (length data) * 8, data))"
  by pat_completeness auto
termination by (relation "measure (\<lambda>(block, s, bits, data). length data)") auto

declare absorb.simps [simp del]

definition finish :: "('s \<Rightarrow> byte list \<Rightarrow> 's) \<Rightarrow> (64 word \<Rightarrow> byte list) \<Rightarrow> 's \<Rightarrow> 64 word \<Rightarrow> byte list \<Rightarrow> 's" where
  "finish block enc s bits rest =
     (let buf = rest @ [0x80];
          (s1, buf1) = (if 56 < length buf then (block s (buf @ replicate (64 - length buf) 0), []) else (s, buf))
      in block s1 (buf1 @ replicate (56 - length buf1) 0 @ enc bits))"

definition hash_state :: "('s \<Rightarrow> byte list \<Rightarrow> 's) \<Rightarrow> (64 word \<Rightarrow> byte list) \<Rightarrow> 's \<Rightarrow> byte list \<Rightarrow> 's" where
  "hash_state block enc s0 data = (case absorb block s0 0 data of (s, bits, rest) \<Rightarrow> finish block enc s bits rest)"

definition le64 :: "64 word \<Rightarrow> byte list" where
  "le64 bits = map (\<lambda>i. ucast (drop_bit (i * 8) bits)) [0..<8]"

definition be64 :: "64 word \<Rightarrow> byte list" where
  "be64 bits = map (\<lambda>i. ucast (drop_bit ((7 - i) * 8) bits)) [0..<8]"

section \<open>Digests\<close>

definition hex_digit :: "nat \<Rightarrow> char" where
  "hex_digit v = (if v < 10 then digit_char v else char_of (87 + v))"

text \<open>\<open>%0kx\<close> of a value below \<open>16 ^ k\<close>.\<close>

fun hexw :: "nat \<Rightarrow> nat \<Rightarrow> cstring" where
  "hexw 0 v = []"
| "hexw (Suc k) v = hexw k (v div 16) @ [hex_digit (v mod 16)]"

definition md5_state :: "byte list \<Rightarrow> word32 list" where
  "md5_state data = hash_state md5_block le64 md5_init data"

definition md5_hexdigest :: "char list \<Rightarrow> cstring" where
  "md5_hexdigest data = concat (map (\<lambda>w. concat (map (\<lambda>k. hexw 2 (unat (drop_bit k w AND 0xff))) [0, 8, 16, 24]))
     (md5_state (map of_char data)))"

definition sha256_state :: "byte list \<Rightarrow> word32 list" where
  "sha256_state data = hash_state sha256_block be64 sha256_init data"

definition sha256_hexdigest :: "char list \<Rightarrow> cstring" where
  "sha256_hexdigest data = concat (map (\<lambda>w. hexw 8 (unat w)) (sha256_state (map of_char data)))"

section \<open>Padding\<close>

function blocks64 :: "'a list \<Rightarrow> 'a list list" where
  "blocks64 xs = (if length xs < 64 then [] else take 64 xs # blocks64 (drop 64 xs))"
  by pat_completeness auto
termination by (relation "measure length") auto

declare blocks64.simps [simp del]

definition pad :: "(64 word \<Rightarrow> byte list) \<Rightarrow> byte list \<Rightarrow> byte list" where
  "pad enc m = m @ [0x80] @ replicate ((119 - length m mod 64) mod 64) 0 @ enc (of_nat (8 * length m))"

lemma blocks64_append: "length a = 64 \<Longrightarrow> blocks64 (a @ b) = a # blocks64 b"
  by (subst blocks64.simps) simp

lemma blocks64_one: "length a = 64 \<Longrightarrow> blocks64 a = [a]"
  using blocks64_append [of a "[]"] by (simp add: blocks64.simps [of "[]"])

lemma finish_blocks:
  assumes "length rest < 64" "length (enc bits) = 8"
  shows "finish block enc s bits rest = fold (\<lambda>b s. block s b)
    (blocks64 (rest @ [0x80] @ replicate ((119 - length rest) mod 64) 0 @ enc bits)) s"
proof (cases "56 \<le> length rest")
  case True
  then have n: "(119 - length rest) mod 64 = (63 - length rest) + 56" using assms(1) by auto
  have "rest @ [0x80] @ replicate ((119 - length rest) mod 64) 0 @ enc bits
      = (rest @ [0x80] @ replicate (63 - length rest) 0) @ (replicate 56 0 @ enc bits)"
    unfolding n replicate_add by simp
  then show ?thesis
    using True assms blocks64_append [of "rest @ [0x80] @ replicate (63 - length rest) 0" "replicate 56 0 @ enc bits"]
      blocks64_one [of "replicate 56 0 @ enc bits"]
    by (simp add: finish_def)
next
  case False
  then have "(119 - length rest) mod 64 = 55 - length rest"
    using mod_add_self2 [of "55 - length rest" 64] by simp
  then show ?thesis
    using False assms blocks64_one [of "rest @ [0x80] @ replicate (55 - length rest) 0 @ enc bits"]
    by (simp add: finish_def)
qed

lemma absorb_blocks:
  assumes "\<And>w. length (enc w) = 8"
  shows "(case absorb block s bits data of (s1, bits1, rest) \<Rightarrow> finish block enc s1 bits1 rest)
    = fold (\<lambda>b s. block s b) (blocks64 (data @ [0x80] @ replicate ((119 - length data mod 64) mod 64) 0
        @ enc (bits + of_nat (8 * length data)))) s"
proof (induction block s bits data rule: absorb.induct)
  case (1 block s bits data)
  show ?case
  proof (cases "64 \<le> length data")
    case True
    have m: "length (drop 64 data) mod 64 = length data mod 64" using True by (simp add: le_mod_geq)
    have "8 * length data = 8 * length (drop 64 data) + 512" using True by simp
    then have b: "bits + 512 + of_nat (8 * length (drop 64 data)) = (bits + of_nat (8 * length data) :: 64 word)"
      by (simp only: of_nat_add) simp
    have "blocks64 (data @ x) = take 64 data # blocks64 (drop 64 data @ x)" for x
      using blocks64_append [of "take 64 data" "drop 64 data @ x"] True by (simp flip: append_assoc)
    with True "1.IH" [OF True] m b show ?thesis by (simp add: absorb.simps [of block s bits data])
  next
    case False
    then show ?thesis
      using finish_blocks [of data enc "bits + of_nat (length data) * 8" block s] assms
      by (simp add: absorb.simps [of block s bits data] mult.commute)
  qed
qed

lemma hash_state_padded:
  assumes "\<And>w. length (enc w) = 8"
  shows "hash_state block enc s0 m = fold (\<lambda>b s. block s b) (blocks64 (pad enc m)) s0"
  using absorb_blocks [OF assms, where bits = 0] by (simp add: hash_state_def pad_def)

lemma length_encs [simp]: "length (le64 w) = 8" "length (be64 w) = 8"
  by (simp_all add: le64_def be64_def)

section \<open>The words of the standards\<close>

lemma MD5_ROTL_rotl:
  assumes "0 < n" "n < 32"
  shows "MD5_ROTL n x = word_rotl n x"
proof (rule bit_word_eqI)
  fix k :: nat
  assume "k < LENGTH(32)"
  then have k: "k < 32" by simp
  show "bit (MD5_ROTL n x) k = bit (word_rotl n x) k"
  proof (cases "k < n")
    case True
    then have "(k + (32 - n)) mod 32 = 32 - n + k" using assms by simp
    with True k assms show ?thesis by (simp add: MD5_ROTL_def bit_word_rotl_iff bit_simps)
  next
    case False
    then have "k + (32 - n) = (k - n) + 32" using assms by simp
    then have "(k + (32 - n)) mod 32 = k - n" using k by (simp only: mod_add_self2) simp
    moreover have "\<not> bit x (32 - n + k)" using False assms bit_imp_le_length [of x "32 - n + k"] by auto
    ultimately show ?thesis using False k assms by (simp add: MD5_ROTL_def bit_word_rotl_iff bit_simps)
  qed
qed

lemma ROTR32_rotr:
  assumes "0 < n" "n < 32"
  shows "ROTR32 n x = word_rotr n x"
proof (rule bit_word_eqI)
  fix k :: nat
  assume "k < LENGTH(32)"
  then have k: "k < 32" by simp
  show "bit (ROTR32 n x) k = bit (word_rotr n x) k"
  proof (cases "k + n < 32")
    case True
    then have "\<not> 32 - n \<le> k" by simp
    with True k assms show ?thesis by (simp add: ROTR32_def bit_word_rotr_iff bit_simps add.commute)
  next
    case False
    then have "k + n = (k + n - 32) + 32" by simp
    then have "(k + n) mod 32 = k + n - 32" using k assms by (subst mod_if) simp
    moreover have "\<not> bit x (n + k)" using False bit_imp_le_length [of x "n + k"] by auto
    moreover have "k - (32 - n) = k + n - 32" "32 - n \<le> k" using assms False by simp_all
    ultimately show ?thesis using False k assms by (simp add: ROTR32_def bit_word_rotr_iff bit_simps)
  qed
qed

text \<open>Four bytes as a number: the standards' words, most or least significant byte first.\<close>

lemma byte_bit: "8 \<le> n \<Longrightarrow> \<not> bit (x :: byte) n"
  using bit_imp_le_length [of x n] by auto

lemma bit_rcat4:
  assumes "k < 4" "j < 8"
  shows "bit (word_rcat [a3, a2, a1, a0 :: byte] :: word32) (8 * k + j) = bit ([a0, a1, a2, a3] ! k) j"
  using assms bit_horner_sum_uint_exp_iff [of "[a0, a1, a2, a3]" "8 * k + j"]
  by (simp only: word_rcat_def o_apply bit_word_of_int_iff) simp

lemma word32_eqI:
  assumes "\<And>k j. k < 4 \<Longrightarrow> j < 8 \<Longrightarrow> bit x (8 * k + j) = bit y (8 * k + j)"
  shows "x = (y :: word32)"
proof (rule bit_word_eqI)
  fix n :: nat
  assume "n < LENGTH(32)"
  then show "bit x n = bit y n" using assms [of "n div 8" "n mod 8"] by simp
qed

lemma less4: "(k :: nat) < 4 \<Longrightarrow> k = 0 \<or> k = 1 \<or> k = 2 \<or> k = 3"
  by auto

lemma bit_byte_at:
  assumes "k < 4" "j < 8" "m < 4"
  shows "bit (push_bit (8 * m) (ucast (x :: byte)) :: word32) (8 * k + j) = (k = m \<and> bit x j)"
proof -
  consider "k < m" | "k = m" | "m < k" by linarith
  then show ?thesis
  proof cases
    case 1
    then have "\<not> 8 * m \<le> 8 * k + j" using assms by linarith
    with 1 show ?thesis by (simp add: bit_push_bit_iff)
  next
    case 2
    then show ?thesis using assms by (simp add: bit_push_bit_iff bit_ucast_iff)
  next
    case 3
    then have "8 \<le> 8 * k + j - 8 * m" by linarith
    with 3 byte_bit [OF this, of x] show ?thesis by (simp add: bit_push_bit_iff bit_ucast_iff)
  qed
qed

lemmas bytes_at = bit_byte_at [where m = 0, simplified] bit_byte_at [where m = 1, simplified]
  bit_byte_at [where m = 2, simplified] bit_byte_at [where m = 3, simplified]

lemma be32_number: "be32 b i = word_rcat [b ! (4 * i), b ! (4 * i + 1), b ! (4 * i + 2), b ! (4 * i + 3)]"
proof (rule word32_eqI)
  fix k j :: nat
  assume kj: "k < 4" "j < 8"
  then show "bit (be32 b i) (8 * k + j) = bit (word_rcat [b ! (4 * i), b ! (4 * i + 1), b ! (4 * i + 2), b ! (4 * i + 3)] :: word32) (8 * k + j)"
    using less4 [OF kj(1)] by (simp only: be32_def bit_or_iff bytes_at bit_rcat4 mult.commute [of i]) auto
qed

lemma le32_number: "le32 b i = word_rcat [b ! (4 * i + 3), b ! (4 * i + 2), b ! (4 * i + 1), b ! (4 * i)]"
proof (rule word32_eqI)
  fix k j :: nat
  assume kj: "k < 4" "j < 8"
  then show "bit (le32 b i) (8 * k + j) = bit (word_rcat [b ! (4 * i + 3), b ! (4 * i + 2), b ! (4 * i + 1), b ! (4 * i)] :: word32) (8 * k + j)"
    using less4 [OF kj(1)] by (simp only: le32_def bit_or_iff bytes_at bit_rcat4 mult.commute [of i]) auto
qed

section \<open>MD5 is RFC 1321\<close>

definition rfc_words :: "byte list \<Rightarrow> word32 list" where
  "rfc_words b = map (\<lambda>i. word_rcat [b ! (4 * i + 3), b ! (4 * i + 2), b ! (4 * i + 1), b ! (4 * i)]) [0..<16]"

definition rfc_fun :: "nat \<Rightarrow> word32 \<Rightarrow> word32 \<Rightarrow> word32 \<Rightarrow> word32" where
  "rfc_fun rnd x y z =
     (if rnd = 0 then (x AND y) OR (NOT x AND z)
      else if rnd = 1 then (x AND z) OR (y AND NOT z)
      else if rnd = 2 then x XOR y XOR z else y XOR (x OR NOT z))"

definition rfc_index :: "nat \<Rightarrow> nat" where
  "rfc_index i = [i, 5 * i + 1, 3 * i + 5, 7 * i] ! (i div 16) mod 16"

definition rfc_step :: "word32 list \<Rightarrow> nat \<Rightarrow> regs4 \<Rightarrow> regs4" where
  "rfc_step X i r = (case r of (a, b, c, d) \<Rightarrow>
     (d, b + word_rotl (md5_S ! i) (a + rfc_fun (i div 16) b c d + X ! rfc_index i + md5_K ! i), b, c))"

definition rfc_compress :: "word32 list \<Rightarrow> byte list \<Rightarrow> word32 list" where
  "rfc_compress s b =
     (case fold (rfc_step (rfc_words b)) [0..<64] (s ! 0, s ! 1, s ! 2, s ! 3) of
        (a, b, c, d) \<Rightarrow> map2 (+) s [a, b, c, d])"

lemma md5_S_range: "i < 64 \<Longrightarrow> 0 < md5_S ! i \<and> md5_S ! i < 32"
proof -
  have "list_all (\<lambda>n. 0 < n \<and> n < 32) md5_S" by (simp add: md5_S_def)
  moreover have "length md5_S = 64" by (simp add: md5_S_def)
  ultimately show "i < 64 \<Longrightarrow> 0 < md5_S ! i \<and> md5_S ! i < 32" by (simp add: list_all_length)
qed

lemma md5_step_rfc:
  assumes "i < 64"
  shows "md5_step M i r = rfc_step M i r"
proof -
  obtain A B C D where r: "r = (A, B, C, D)" by (cases r)
  note rot = MD5_ROTL_rotl [OF conjunct1 [OF md5_S_range [OF assms]] conjunct2 [OF md5_S_range [OF assms]]]
  consider "i < 16" | "16 \<le> i" "i < 32" | "32 \<le> i" "i < 48" | "48 \<le> i" by linarith
  then show ?thesis
  proof cases
    case 1
    then have "i div 16 = 0" by simp
    with 1 show ?thesis by (simp add: md5_step_def rfc_step_def r rot rfc_fun_def rfc_index_def ac_simps)
  next
    case 2
    then have "i div 16 = 1" by simp
    with 2 show ?thesis by (simp add: md5_step_def rfc_step_def r rot rfc_fun_def rfc_index_def ac_simps)
  next
    case 3
    then have "i div 16 = 2" by simp
    with 3 show ?thesis by (simp add: md5_step_def rfc_step_def r rot rfc_fun_def rfc_index_def ac_simps)
  next
    case 4
    then have "i div 16 = 3" using assms by simp
    with 4 show ?thesis by (simp add: md5_step_def rfc_step_def r rot rfc_fun_def rfc_index_def ac_simps)
  qed
qed

lemma fold_upt_cong: "(\<And>i x. i < n \<Longrightarrow> f i x = g i x) \<Longrightarrow> fold f [m..<n] x = fold g [m..<n] x"
  by (rule fold_cong) auto

lemma md5_block_rfc: "length s = 4 \<Longrightarrow> md5_block s b = rfc_compress s b"
proof -
  assume "length s = 4"
  then obtain w x y z where s: "s = [w, x, y, z]" by (auto simp: length_Suc_conv numeral_eq_Suc)
  have "map (le32 b) [0..<16] = rfc_words b" by (simp add: rfc_words_def le32_number)
  moreover have "fold (md5_step M) [0..<64] r = fold (rfc_step M) [0..<64] r" for M r
    by (rule fold_upt_cong) (rule md5_step_rfc)
  ultimately show ?thesis by (simp add: md5_block_def rfc_compress_def s split: prod.split)
qed

lemma length_rfc_compress: "length s = 4 \<Longrightarrow> length (rfc_compress s b) = 4"
  by (simp add: rfc_compress_def split: prod.split)

lemma fold_inv_cong:
  "P s \<Longrightarrow> (\<And>x s. P s \<Longrightarrow> f x s = g x s \<and> P (g x s)) \<Longrightarrow> fold f xs s = fold g xs s"
  by (induction xs arbitrary: s) auto

theorem md5_is_rfc1321:
  "md5_state m = fold (\<lambda>b s. rfc_compress s b) (blocks64 (pad le64 m)) md5_init"
  unfolding md5_state_def hash_state_padded [of le64, OF length_encs(1)]
  by (rule fold_inv_cong [where P = "\<lambda>s. length s = 4"]) (simp_all add: md5_init_def md5_block_rfc length_rfc_compress)

section \<open>SHA-256 is FIPS 180-4\<close>

definition fips_words :: "byte list \<Rightarrow> word32 list" where
  "fips_words b = map (\<lambda>i. word_rcat [b ! (4 * i), b ! (4 * i + 1), b ! (4 * i + 2), b ! (4 * i + 3)]) [0..<16]"

definition fips_sigma :: "nat \<Rightarrow> nat \<Rightarrow> nat \<Rightarrow> word32 \<Rightarrow> word32" where
  "fips_sigma j k l x = word_rotr j x XOR word_rotr k x XOR word_rotr l x"

definition fips_small :: "nat \<Rightarrow> nat \<Rightarrow> nat \<Rightarrow> word32 \<Rightarrow> word32" where
  "fips_small j k l x = word_rotr j x XOR word_rotr k x XOR drop_bit l x"

text \<open>The message schedule as the recurrence of the standard.\<close>

fun fips_W :: "word32 list \<Rightarrow> nat \<Rightarrow> word32" where
  "fips_W M t = (if t < 16 then M ! t
     else fips_small 17 19 10 (fips_W M (t - 2)) + fips_W M (t - 7) + fips_small 7 18 3 (fips_W M (t - 15)) + fips_W M (t - 16))"

declare fips_W.simps [simp del]

type_synonym regs8 = "word32 \<times> word32 \<times> word32 \<times> word32 \<times> word32 \<times> word32 \<times> word32 \<times> word32"

definition fips_round :: "word32 list \<Rightarrow> nat \<Rightarrow> regs8 \<Rightarrow> regs8" where
  "fips_round M t r = (case r of (a, b, c, d, e, f, g, h) \<Rightarrow>
     let t1 = h + fips_sigma 6 11 25 e + ((e AND f) XOR (NOT e AND g)) + K256 ! t + fips_W M t;
         t2 = fips_sigma 2 13 22 a + ((a AND b) XOR (a AND c) XOR (b AND c))
     in (t1 + t2, a, b, c, d + t1, e, f, g))"

definition regs_of :: "word32 list \<Rightarrow> regs8" where
  "regs_of s = (s ! 0, s ! 1, s ! 2, s ! 3, s ! 4, s ! 5, s ! 6, s ! 7)"

definition regs_list :: "regs8 \<Rightarrow> word32 list" where
  "regs_list r = (case r of (a, b, c, d, e, f, g, h) \<Rightarrow> [a, b, c, d, e, f, g, h])"

definition fips_compress :: "word32 list \<Rightarrow> byte list \<Rightarrow> word32 list" where
  "fips_compress s b = map2 (+) s (regs_list (fold (fips_round (fips_words b)) [0..<64] (regs_of s)))"

lemma S256_fips:
  "S256_EP0 x = fips_sigma 2 13 22 x" "S256_EP1 x = fips_sigma 6 11 25 x"
  "S256_SG0 x = fips_small 7 18 3 x" "S256_SG1 x = fips_small 17 19 10 x"
  by (simp_all add: S256_EP0_def S256_EP1_def S256_SG0_def S256_SG1_def fips_sigma_def fips_small_def ROTR32_rotr)

lemma sched_upto: "length M = 16 \<Longrightarrow> fold sched_step [16..<16 + k] M = map (fips_W M) [0..<16 + k]"
proof (induction k)
  case 0
  then show ?case by (simp add: list_eq_iff_nth_eq fips_W.simps)
next
  case (Suc k)
  let ?t = "16 + k"
  have "fips_W M ?t = S256_SG1 (fips_W M (?t - 2)) + fips_W M (?t - 7) + S256_SG0 (fips_W M (?t - 15)) + fips_W M (?t - 16)"
    by (subst fips_W.simps) (simp add: S256_fips)
  moreover have "[16..<16 + Suc k] = [16..<16 + k] @ [16 + k]" "[0..<16 + Suc k] = [0..<16 + k] @ [16 + k]"
    using upt_Suc [of 16 "16 + k"] upt_Suc [of 0 "16 + k"] by simp_all
  ultimately show ?case using Suc by (simp only: fold_append o_apply map_append fold.simps) (simp add: sched_step_def)
qed

lemma sha256_W_fips: "sha256_W b = map (fips_W (fips_words b)) [0..<64]"
proof -
  have "map (be32 b) [0..<16] = fips_words b" by (simp add: fips_words_def be32_number)
  moreover have "length (fips_words b) = 16" by (simp add: fips_words_def)
  ultimately show ?thesis using sched_upto [of "fips_words b" 48] by (simp add: sha256_W_def)
qed

lemma sha256_step_fips:
  "i < 64 \<Longrightarrow> sha256_step (map (fips_W M) [0..<64]) i (regs_list r) = regs_list (fips_round M i r)"
proof -
  obtain a b c d e f g h where "r = (a, b, c, d, e, f, g, h)" by (metis surj_pair)
  then show "i < 64 \<Longrightarrow> ?thesis"
    by (simp add: sha256_step_def fips_round_def regs_list_def Let_def S256_fips S256_CH_def S256_MAJ_def)
qed

lemma sha256_rounds_fips:
  "n \<le> 64 \<Longrightarrow> fold (sha256_step (map (fips_W M) [0..<64])) [0..<n] (regs_list r) = regs_list (fold (fips_round M) [0..<n] r)"
  by (induction n) (simp_all add: sha256_step_fips)

lemma regs_list_of: "length s = 8 \<Longrightarrow> regs_list (regs_of s) = s"
  by (auto simp: regs_list_def regs_of_def length_Suc_conv numeral_eq_Suc)

lemma sha256_block_fips: "length s = 8 \<Longrightarrow> sha256_block s b = fips_compress s b"
  using sha256_rounds_fips [of 64 "fips_words b" "regs_of s"]
  by (simp add: sha256_block_def fips_compress_def sha256_W_fips regs_list_of)

lemma length_fips_compress: "length s = 8 \<Longrightarrow> length (fips_compress s b) = 8"
  by (simp add: fips_compress_def regs_list_def split: prod.split)

text \<open>C15: On every input the streaming SHA-256 (64 byte buffer, padding, bit count) computes the
  compression function of FIPS 180 over the blocks of the padded message.\<close>

theorem sha256_is_fips180:
  "sha256_state m = fold (\<lambda>b s. fips_compress s b) (blocks64 (pad be64 m)) sha256_init"
  unfolding sha256_state_def hash_state_padded [of be64, OF length_encs(2)]
  by (rule fold_inv_cong [where P = "\<lambda>s. length s = 8"]) (simp_all add: sha256_init_def sha256_block_fips length_fips_compress)

section \<open>The digests\<close>

definition is_hex :: "char \<Rightarrow> bool" where
  "is_hex c \<longleftrightarrow> isdigit c \<or> 97 \<le> ord c \<and> ord c \<le> 102"

lemma hex_digit_ok: "v < 16 \<Longrightarrow> is_hex (hex_digit v)"
  by (auto simp: hex_digit_def is_hex_def isdigit_def of_char_of)

lemma hexw_shape: "length (hexw k v) = k \<and> list_all is_hex (hexw k v)"
  by (induction k arbitrary: v) (auto simp: hex_digit_ok)

lemma length_fold_keeps: "length s = n \<Longrightarrow> (\<And>b s. length s = n \<Longrightarrow> length (f b s) = n) \<Longrightarrow> length (fold f bs s) = n"
  by (induction bs arbitrary: s) auto

lemma length_states: "length (md5_state m) = 4" "length (sha256_state m) = 8"
  unfolding md5_state_def sha256_state_def hash_state_padded [of le64, OF length_encs(1)] hash_state_padded [of be64, OF length_encs(2)]
proof -
  show "length (fold (\<lambda>b s. md5_block s b) (blocks64 (pad le64 m)) md5_init) = 4"
    by (rule length_fold_keeps) (simp_all add: md5_init_def md5_block_rfc length_rfc_compress)
  show "length (fold (\<lambda>b s. sha256_block s b) (blocks64 (pad be64 m)) sha256_init) = 8"
    by (rule length_fold_keeps) (simp_all add: sha256_init_def sha256_block_fips length_fips_compress)
qed

lemma concat_shape:
  "(\<And>x. length (f x) = k \<and> list_all P (f x)) \<Longrightarrow> length (concat (map f xs)) = k * length xs \<and> list_all P (concat (map f xs))"
  by (induction xs) auto

lemma digest_shapes:
  "length (md5_hexdigest m) = 32 \<and> list_all is_hex (md5_hexdigest m)
    \<and> length (sha256_hexdigest m) = 64 \<and> list_all is_hex (sha256_hexdigest m)"
proof -
  have b: "length (concat (map (\<lambda>k. hexw 2 (unat (drop_bit k w AND 0xff))) [0, 8, 16, 24])) = 8
      \<and> list_all is_hex (concat (map (\<lambda>k. hexw 2 (unat (drop_bit k w AND 0xff))) [0, 8, 16, 24]))" for w :: word32
    using concat_shape [of "\<lambda>k. hexw 2 (unat (drop_bit k w AND 0xff))" 2 is_hex "[0, 8, 16, 24]"] hexw_shape [of 2] by simp
  show ?thesis
    using concat_shape [where f = "\<lambda>w. concat (map (\<lambda>k. hexw 2 (unat (drop_bit k w AND 0xff))) [0, 8, 16, 24])"
        and xs = "md5_state (map of_char m)", OF b]
      concat_shape [where f = "\<lambda>w. hexw 8 (unat w)" and xs = "sha256_state (map of_char m)", OF hexw_shape]
    by (simp add: md5_hexdigest_def sha256_hexdigest_def length_states)
qed

theorem digests_are_hex:
  "length (md5_hexdigest m) = 32 \<and> list_all is_hex (md5_hexdigest m)
    \<and> length (sha256_hexdigest m) = 64 \<and> list_all is_hex (sha256_hexdigest m)"
  by (rule digest_shapes)

end
