(* ===== verification/Checksum.thy ===== *)
theory Checksum
  imports Hash
begin

text \<open>
  The commands \<open>md5sum\<close> and \<open>sha256sum\<close> (\<^verbatim>\<open>cmd_md5sum.c\<close>, \<^verbatim>\<open>cmd_sha256sum.c\<close>) after their
  options are parsed. The two files differ in three constants and the digest, here a record. Files
  are a map from names to bytes; the standard input is used up by its first reader; what goes to
  the standard error is left out.
\<close>

record checksum =
  sum_len :: nat
  sum_buf :: nat
  sum_digest :: "char list \<Rightarrow> cstring"

definition md5sum :: checksum where
  "md5sum = \<lparr>sum_len = 32, sum_buf = 512, sum_digest = md5_hexdigest\<rparr>"

definition sha256sum :: checksum where
  "sha256sum = \<lparr>sum_len = 64, sum_buf = 600, sum_digest = sha256_hexdigest\<rparr>"

definition hex_any_case :: "char \<Rightarrow> bool" where
  "hex_any_case c \<longleftrightarrow> isdigit c \<or> 97 \<le> ord c \<and> ord c \<le> 102 \<or> 65 \<le> ord c \<and> ord c \<le> 70"

text \<open>One line of a checksum file: the expected digest and the file name, if it is well formed.\<close>

definition check_line :: "checksum \<Rightarrow> char list \<Rightarrow> (cstring \<times> cstring) option" where
  "check_line k b =
     (let l = c_str b; n = sum_len k in
      if length l < n + 3 \<or> \<not> list_all hex_any_case (take n l) \<or> l ! n \<noteq> CHR '' '' then None
      else let f = drop (n + 1) l;
               g = (if hd f = CHR '' '' \<or> hd f = CHR ''*'' then tl f else f);
               name = takeWhile (\<lambda>c. c \<noteq> CR \<and> c \<noteq> NL) g
           in if name = [] then None else Some (take n l, name))"

datatype verdict = Good cstring | Bad cstring | Missing cstring

definition check_verdict :: "checksum \<Rightarrow> (cstring \<Rightarrow> char list option) \<Rightarrow> cstring \<times> cstring \<Rightarrow> verdict" where
  "check_verdict k files e = (case files (snd e) of
      None \<Rightarrow> Missing (snd e)
    | Some bytes \<Rightarrow> if sum_digest k bytes = fst e then Good (snd e) else Bad (snd e))"

definition check_stream :: "checksum \<Rightarrow> (cstring \<Rightarrow> char list option) \<Rightarrow> char list \<Rightarrow> int \<times> verdict list" where
  "check_stream k files bytes =
     (let vs = map (check_verdict k files) (List.map_filter (check_line k) (fgets_all (sum_buf k) bytes)) in
      (if list_ex (\<lambda>v. case v of Good f \<Rightarrow> False | _ \<Rightarrow> True) vs then 1 else 0, vs))"

definition verdict_text :: "verdict \<Rightarrow> cstring" where
  "verdict_text v = (case v of Good f \<Rightarrow> f @ '': OK'' @ [NL] | Bad f \<Rightarrow> f @ '': FAILED'' @ [NL] | Missing f \<Rightarrow> [])"

text \<open>The bytes of one argument, and the input left.\<close>

definition open_arg :: "(cstring \<Rightarrow> char list option) \<Rightarrow> char list \<Rightarrow> cstring \<Rightarrow> char list option \<times> char list" where
  "open_arg files inp path = (if path = ''-'' then (Some inp, []) else (files path, inp))"

fun check_files :: "checksum \<Rightarrow> (cstring \<Rightarrow> char list option) \<Rightarrow> char list \<Rightarrow> cstring list \<Rightarrow> int \<Rightarrow> int \<times> cstring" where
  "check_files k files inp [] rc = (rc, [])"
| "check_files k files inp (p # ps) rc =
     (case open_arg files inp p of
        (None, inp1) \<Rightarrow> check_files k files inp1 ps 1
      | (Some bytes, inp1) \<Rightarrow>
          (case check_stream k files bytes of (rc1, vs) \<Rightarrow>
             (case check_files k files inp1 ps (if rc1 \<noteq> 0 then 1 else rc) of
                (rc2, out) \<Rightarrow> (rc2, concat (map verdict_text vs) @ out))))"

fun hash_files :: "checksum \<Rightarrow> (cstring \<Rightarrow> char list option) \<Rightarrow> char list \<Rightarrow> cstring list \<Rightarrow> int \<Rightarrow> int \<times> cstring" where
  "hash_files k files inp [] rc = (rc, [])"
| "hash_files k files inp (p # ps) rc =
     (case open_arg files inp p of
        (None, inp1) \<Rightarrow> hash_files k files inp1 ps 1
      | (Some bytes, inp1) \<Rightarrow>
          (case hash_files k files inp1 ps rc of
             (rc2, out) \<Rightarrow> (rc2, sum_digest k bytes @ ''  '' @ p @ [NL] @ out)))"

definition sum_run :: "checksum \<Rightarrow> (cstring \<Rightarrow> char list option) \<Rightarrow> char list \<Rightarrow> bool \<Rightarrow> cstring list \<Rightarrow> int \<times> cstring" where
  "sum_run k files inp do_check paths =
     (if do_check
      then (if paths = []
            then (case check_stream k files inp of (rc, vs) \<Rightarrow> (rc, concat (map verdict_text vs)))
            else check_files k files inp paths 0)
      else if paths = [] then (0, sum_digest k inp @ ''  -'' @ [NL])
      else hash_files k files inp paths 0)"

text \<open>The functions of the two files.\<close>

definition md5_check_stream :: "(cstring \<Rightarrow> char list option) \<Rightarrow> char list \<Rightarrow> int \<times> verdict list" where
  "md5_check_stream = check_stream md5sum"

definition sha256_check_stream :: "(cstring \<Rightarrow> char list option) \<Rightarrow> char list \<Rightarrow> int \<times> verdict list" where
  "sha256_check_stream = check_stream sha256sum"

definition md5sum_run :: "(cstring \<Rightarrow> char list option) \<Rightarrow> char list \<Rightarrow> bool \<Rightarrow> cstring list \<Rightarrow> int \<times> cstring" where
  "md5sum_run = sum_run md5sum"

definition sha256sum_run :: "(cstring \<Rightarrow> char list option) \<Rightarrow> char list \<Rightarrow> bool \<Rightarrow> cstring list \<Rightarrow> int \<times> cstring" where
  "sha256sum_run = sum_run sha256sum"

section \<open>What is printed verifies\<close>

definition kind_ok :: "checksum \<Rightarrow> bool" where
  "kind_ok k \<longleftrightarrow> k = md5sum \<or> k = sha256sum"

lemma kind_digest: "kind_ok k \<Longrightarrow> length (sum_digest k m) = sum_len k \<and> list_all is_hex (sum_digest k m)"
  using digest_shapes [of m] by (auto simp: kind_ok_def md5sum_def sha256sum_def)

definition name_ok :: "checksum \<Rightarrow> cstring \<Rightarrow> bool" where
  "name_ok k p \<longleftrightarrow> p \<noteq> [] \<and> p \<noteq> ''-'' \<and> NUL \<notin> set p \<and> CR \<notin> set p \<and> NL \<notin> set p
     \<and> sum_len k + length p + 4 \<le> sum_buf k"

lemma is_hex_plain: "is_hex c \<Longrightarrow> c \<noteq> NUL \<and> c \<noteq> NL \<and> c \<noteq> CR \<and> hex_any_case c"
  by (auto simp: is_hex_def hex_any_case_def isdigit_def NUL_def NL_def CR_def)

lemma check_line_own:
  assumes "kind_ok k" "name_ok k p"
  shows "check_line k (sum_digest k m @ ''  '' @ p @ [NL]) = Some (sum_digest k m, p)"
proof -
  let ?d = "sum_digest k m"
  have d: "length ?d = sum_len k" "list_all is_hex ?d" using kind_digest [OF assms(1)] by auto
  have p: "p \<noteq> []" "NUL \<notin> set p" "CR \<notin> set p" "NL \<notin> set p" using assms(2) by (auto simp: name_ok_def)
  define b where "b = ?d @ ''  '' @ p @ [NL]"
  have "NUL \<notin> set b"
    using d(2) p(2) by (auto simp: b_def list_all_iff NUL_def NL_def dest: is_hex_plain [THEN conjunct1, unfolded NUL_def])
  then have c: "c_str b = b" by (rule c_str_id)
  have "list_all hex_any_case ?d" using d(2) by (auto simp: list_all_iff dest: is_hex_plain)
  moreover have "takeWhile (\<lambda>c. c \<noteq> CR \<and> c \<noteq> NL) (p @ [NL]) = p" using p(3,4) by (auto simp: takeWhile_append)
  moreover have "take (sum_len k) b = ?d" "b ! sum_len k = CHR '' ''" "drop (sum_len k + 1) b = CHR '' '' # p @ [NL]"
    "sum_len k + 3 \<le> length b"
    using d(1) by (simp_all add: b_def nth_append)
  ultimately have "check_line k b = Some (?d, p)" using p(1) by (simp add: check_line_def c Let_def)
  then show ?thesis by (simp add: b_def)
qed

lemma hash_files_lines:
  "list_all (\<lambda>p. p \<noteq> ''-'' \<and> files p \<noteq> None) ps \<Longrightarrow>
     hash_files k files inp ps rc = (rc, concat (map (\<lambda>p. (sum_digest k (the (files p)) @ ''  '' @ p) @ [NL]) ps))"
  by (induction ps) (auto simp: open_arg_def)

lemma check_stream_own:
  assumes "kind_ok k" "list_all (name_ok k) ps" "list_all (\<lambda>p. files p \<noteq> None) ps"
  shows "check_stream k files (concat (map (\<lambda>p. (sum_digest k (the (files p)) @ ''  '' @ p) @ [NL]) ps)) = (0, map Good ps)"
proof -
  let ?l = "\<lambda>p. sum_digest k (the (files p)) @ ''  '' @ p"
  have "list_all (\<lambda>l. NL \<notin> set l \<and> length l + 2 \<le> sum_buf k) (map ?l ps)"
    using assms(2) kind_digest [OF assms(1)]
    by (fastforce simp: list_all_iff name_ok_def NL_def dest: is_hex_plain [unfolded NL_def])
  from fgets_all_terminated [OF this]
  have "fgets_all (sum_buf k) (concat (map (\<lambda>p. ?l p @ [NL]) ps)) = map (\<lambda>p. ?l p @ [NL]) ps"
    by (simp add: o_def)
  moreover have "List.map_filter (check_line k) (map (\<lambda>p. ?l p @ [NL]) ps) = map (\<lambda>p. (sum_digest k (the (files p)), p)) ps"
    using assms(2) check_line_own [OF assms(1)] by (induction ps) (auto simp: List.map_filter_def)
  moreover have "map (check_verdict k files) (map (\<lambda>p. (sum_digest k (the (files p)), p)) ps) = map Good ps"
    using assms(3) by (induction ps) (auto simp: check_verdict_def)
  ultimately show ?thesis by (simp add: check_stream_def list_ex_iff del: map_map)
qed



text \<open>Upper-case digests are accepted as well formed, but compared byte for byte.\<close>

lemma uppercase_checksum_fails:
  assumes "kind_ok k" "files f = Some m" "list_ex isupper e"
  shows "check_verdict k files (e, f) = Bad f"
proof -
  have "sum_digest k m \<noteq> e"
    using kind_digest [OF assms(1), of m] assms(3) by (fastforce simp: list_ex_iff list_all_iff is_hex_def isdigit_def isupper_def)
  with assms(2) show ?thesis by (simp add: check_verdict_def)
qed

text \<open>A file without any well-formed line verifies.\<close>

lemma malformed_checksums_verify: "check_stream md5sum files (''no checksum here'' @ [NL]) = (0, [])"
  by (simp add: check_stream_def fgets_all_def md5sum_def check_line_def c_str_def NUL_def NL_def List.map_filter_def)

end
