(* ===== verification/Diff.thy ===== *)
theory Diff
  imports Prelude "HOL-Library.Sublist"
begin

text \<open>
  The command \<open>diff\<close> (\<^verbatim>\<open>cmd_diff.c\<close>) after its options are parsed: reading lines, comparing them,
  the table of longest common subsequences with its traceback, and the two output formats. Each
  hunk is first computed as a record and then printed. The table is the flat array of the source,
  its entries \<open>short\<close>. Memory is taken to be available; the standard error is left out.

  The lemmas show that the script is valid and that no valid script is shorter, and that either
  output, applied to the first file, gives the second.
\<close>

section \<open>Lines\<close>

definition MAX_LINES :: nat where
  "MAX_LINES = 4096"

definition read_lines :: "(cstring \<Rightarrow> char list option) \<Rightarrow> char list \<Rightarrow> cstring \<Rightarrow> (cstring list \<times> char list) option" where
  "read_lines files inp path =
     (if path = ''-''
      then (let ls = getlines inp in Some (map (\<lambda>l. c_str (chomp l)) (take MAX_LINES ls), concat (drop MAX_LINES ls)))
      else (case files path of
              None \<Rightarrow> None
            | Some bytes \<Rightarrow> Some (map (\<lambda>l. c_str (chomp l)) (take MAX_LINES (getlines bytes)), inp)))"

definition cased :: "bool \<Rightarrow> char \<Rightarrow> char" where
  "cased icase c = (if icase then tolower c else c)"

function same_but_space :: "bool \<Rightarrow> cstring \<Rightarrow> cstring \<Rightarrow> bool" where
  "same_but_space icase a b =
     (case (dropWhile isspace a, dropWhile isspace b) of
        ([], []) \<Rightarrow> True
      | (p # ps, q # qs) \<Rightarrow> cased icase p = cased icase q \<and> same_but_space icase ps qs
      | _ \<Rightarrow> False)"
  by pat_completeness auto
termination
  by (relation "measure (\<lambda>(icase, a, b). length a)")
     (auto dest!: arg_cong [where f = length] simp: less_eq_Suc_le intro: order_trans [OF _ length_dropWhile_le])

declare same_but_space.simps [simp del]

definition lines_eq :: "bool \<Rightarrow> bool \<Rightarrow> cstring \<Rightarrow> cstring \<Rightarrow> bool" where
  "lines_eq icase ignsp a b =
     (if ignsp then same_but_space icase a b else if icase then map tolower a = map tolower b else a = b)"

section \<open>The edit script\<close>

datatype op = OP_EQ | OP_DEL | OP_ADD

record edit =
  eop :: op
  l1 :: int
  l2 :: int

definition to_short :: "int \<Rightarrow> int" where
  "to_short v = (v + 2 ^ 15) mod 2 ^ 16 - 2 ^ 15"

text \<open>One cell, row \<open>i\<close> and column \<open>j\<close>, of the array with rows of width \<open>length B + 1\<close>.\<close>

definition lcs_cell :: "('a \<Rightarrow> 'b \<Rightarrow> bool) \<Rightarrow> 'a list \<Rightarrow> 'b list \<Rightarrow> nat \<Rightarrow> int list \<Rightarrow> nat \<Rightarrow> int list" where
  "lcs_cell eq A B i dp j =
     (let w = length B + 1 in
      dp[i * w + j :=
           (if eq (A ! (i - 1)) (B ! (j - 1)) then to_short (dp ! ((i - 1) * w + (j - 1)) + 1)
            else let u = dp ! ((i - 1) * w + j); l = dp ! (i * w + (j - 1)) in if u > l then u else l)])"

definition lcs_row :: "('a \<Rightarrow> 'b \<Rightarrow> bool) \<Rightarrow> 'a list \<Rightarrow> 'b list \<Rightarrow> int list \<Rightarrow> nat \<Rightarrow> int list" where
  "lcs_row eq A B dp i = foldl (lcs_cell eq A B i) dp [1..<length B + 1]"

definition lcs_table :: "('a \<Rightarrow> 'b \<Rightarrow> bool) \<Rightarrow> 'a list \<Rightarrow> 'b list \<Rightarrow> int list" where
  "lcs_table eq A B = foldl (lcs_row eq A B) (replicate ((length A + 1) * (length B + 1)) 0) [1..<length A + 1]"

function trace_back :: "('a \<Rightarrow> 'b \<Rightarrow> bool) \<Rightarrow> 'a list \<Rightarrow> 'b list \<Rightarrow> int list \<Rightarrow> nat \<Rightarrow> nat \<Rightarrow> edit list" where
  "trace_back eq A B dp i j =
     (let w = length B + 1 in
      if i = 0 \<and> j = 0 then []
      else if 0 < i \<and> 0 < j \<and> eq (A ! (i - 1)) (B ! (j - 1))
      then \<lparr>eop = OP_EQ, l1 = int i - 1, l2 = int j - 1\<rparr> # trace_back eq A B dp (i - 1) (j - 1)
      else if 0 < j \<and> (i = 0 \<or> dp ! ((i - 1) * w + j) \<le> dp ! (i * w + (j - 1)))
      then \<lparr>eop = OP_ADD, l1 = -1, l2 = int j - 1\<rparr> # trace_back eq A B dp i (j - 1)
      else \<lparr>eop = OP_DEL, l1 = int i - 1, l2 = -1\<rparr> # trace_back eq A B dp (i - 1) j)"
  by pat_completeness auto
termination by (relation "measure (\<lambda>(eq, A, B, dp, i, j). i + j)") auto

declare trace_back.simps [simp del]

definition lcs_diff :: "('a \<Rightarrow> 'b \<Rightarrow> bool) \<Rightarrow> 'a list \<Rightarrow> 'b list \<Rightarrow> edit list" where
  "lcs_diff eq A B = rev (trace_back eq A B (lcs_table eq A B) (length A) (length B))"

section \<open>The traditional output\<close>

text \<open>One run of changes; \<open>prev1\<close> and \<open>prev2\<close> are the numbers of the lines before it.\<close>

record hunk =
  first1 :: int
  last1 :: int
  first2 :: int
  last2 :: int
  prev1 :: int
  prev2 :: int
  dels :: "cstring list"
  adds :: "cstring list"

definition prev_eq :: "(edit \<Rightarrow> int) \<Rightarrow> edit list \<Rightarrow> int" where
  "prev_eq l seen = (case filter (\<lambda>e. eop e = OP_EQ) seen of [] \<Rightarrow> 0 | e # es \<Rightarrow> l e + 1)"

definition trad_hunk :: "cstring list \<Rightarrow> cstring list \<Rightarrow> edit list \<Rightarrow> edit list \<Rightarrow> hunk" where
  "trad_hunk A B seen run =
     (let ds = filter (\<lambda>e. eop e = OP_DEL) run; as = filter (\<lambda>e. eop e \<noteq> OP_DEL) run in
      \<lparr>first1 = (if ds = [] then -1 else l1 (hd ds)), last1 = (if ds = [] then -1 else l1 (last ds)),
       first2 = (if as = [] then -1 else l2 (hd as)), last2 = (if as = [] then -1 else l2 (last as)),
       prev1 = prev_eq l1 seen, prev2 = prev_eq l2 seen,
       dels = map (\<lambda>e. A ! nat (l1 e)) ds, adds = map (\<lambda>e. B ! nat (l2 e)) as\<rparr>)"

text \<open>\<open>seen\<close> is the part of the script already passed, last edit first.\<close>

function trad_hunks :: "cstring list \<Rightarrow> cstring list \<Rightarrow> edit list \<Rightarrow> edit list \<Rightarrow> hunk list" where
  "trad_hunks A B seen [] = []"
| "trad_hunks A B seen (e # es) =
     (if eop e = OP_EQ then trad_hunks A B (e # seen) es
      else let run = takeWhile (\<lambda>x. eop x \<noteq> OP_EQ) (e # es)
           in trad_hunk A B seen run # trad_hunks A B (rev run @ seen) (dropWhile (\<lambda>x. eop x \<noteq> OP_EQ) (e # es)))"
  by pat_completeness auto
termination
  by (relation "measure (\<lambda>(A, B, seen, es). length es)") (auto simp: less_Suc_eq_le length_dropWhile_le)

definition range_text :: "nat \<Rightarrow> int \<Rightarrow> int \<Rightarrow> cstring" where
  "range_text n a b = (if n = 1 then show_int (a + 1) else show_int (a + 1) @ '','' @ show_int (b + 1))"

definition hunk_text :: "hunk \<Rightarrow> cstring" where
  "hunk_text h =
     (let nd = length (dels h); na = length (adds h) in
      (if 0 < nd \<and> 0 < na then range_text nd (first1 h) (last1 h) @ ''c'' @ range_text na (first2 h) (last2 h)
       else if 0 < nd then range_text nd (first1 h) (last1 h) @ ''d'' @ show_int (prev2 h)
       else show_int (prev1 h) @ ''a'' @ range_text na (first2 h) (last2 h)) @ [NL] @
      concat (map (\<lambda>l. ''< '' @ l @ [NL]) (dels h)) @
      (if 0 < nd \<and> 0 < na then ''---'' @ [NL] else []) @
      concat (map (\<lambda>l. ''> '' @ l @ [NL]) (adds h)))"

definition emit_traditional :: "edit list \<Rightarrow> cstring list \<Rightarrow> cstring list \<Rightarrow> cstring" where
  "emit_traditional ops A B = concat (map hunk_text (trad_hunks A B [] ops))"

section \<open>The unified output\<close>

definition CONTEXT_LINES :: int where
  "CONTEXT_LINES = 3"

definition mark_around :: "nat \<Rightarrow> nat \<Rightarrow> bool list \<Rightarrow> bool list" where
  "mark_around n k m =
     foldl (\<lambda>m c. if 0 \<le> c \<and> c < int n then m[nat c := True] else m) m
       [int k - CONTEXT_LINES..int k + CONTEXT_LINES]"

definition in_hunk :: "edit list \<Rightarrow> bool list" where
  "in_hunk ops =
     foldl (\<lambda>m k. if eop (ops ! k) = OP_EQ then m else mark_around (length ops) k m)
       (replicate (length ops) False) [0..<length ops]"

record uhunk =
  start1 :: int
  count1 :: nat
  start2 :: int
  count2 :: nat
  body :: "(op \<times> cstring) list"

definition edit_line :: "cstring list \<Rightarrow> cstring list \<Rightarrow> edit \<Rightarrow> op \<times> cstring" where
  "edit_line A B e = (eop e, if eop e = OP_ADD then B ! nat (l2 e) else A ! nat (l1 e))"

definition uni_hunk :: "cstring list \<Rightarrow> cstring list \<Rightarrow> edit list \<Rightarrow> uhunk" where
  "uni_hunk A B run =
     (let xs = filter (\<lambda>e. eop e = OP_EQ \<or> eop e = OP_DEL) run; ys = filter (\<lambda>e. eop e = OP_EQ \<or> eop e = OP_ADD) run in
      \<lparr>start1 = (if xs = [] then 0 else l1 (hd xs)), count1 = length xs,
       start2 = (if ys = [] then 0 else l2 (hd ys)), count2 = length ys,
       body = map (edit_line A B) run\<rparr>)"

function uni_hunks :: "cstring list \<Rightarrow> cstring list \<Rightarrow> (edit \<times> bool) list \<Rightarrow> uhunk list" where
  "uni_hunks A B [] = []"
| "uni_hunks A B (e # es) =
     (if \<not> snd e then uni_hunks A B es
      else uni_hunk A B (map fst (takeWhile snd (e # es))) # uni_hunks A B (dropWhile snd (e # es)))"
  by pat_completeness auto
termination
  by (relation "measure (\<lambda>(A, B, es). length es)") (auto simp: less_Suc_eq_le length_dropWhile_le)

definition line_mark :: "op \<Rightarrow> char" where
  "line_mark k = (case k of OP_EQ \<Rightarrow> CHR '' '' | OP_DEL \<Rightarrow> CHR ''-'' | OP_ADD \<Rightarrow> CHR ''+'')"

definition uhunk_text :: "uhunk \<Rightarrow> cstring" where
  "uhunk_text h =
     ''@@ -'' @ show_int (start1 h + 1) @ '','' @ show_nat (count1 h) @ '' +'' @ show_int (start2 h + 1) @ '','' @
     show_nat (count2 h) @ '' @@'' @ [NL] @ concat (map (\<lambda>(k, l). line_mark k # l @ [NL]) (body h))"

definition emit_unified :: "edit list \<Rightarrow> cstring list \<Rightarrow> cstring list \<Rightarrow> cstring \<Rightarrow> cstring \<Rightarrow> cstring" where
  "emit_unified ops A B path1 path2 =
     ''--- '' @ path1 @ [NL] @ ''+++ '' @ path2 @ [NL] @
     concat (map uhunk_text (uni_hunks A B (zip ops (in_hunk ops))))"

section \<open>The command\<close>

record diff_opts =
  do_unified :: bool
  do_icase :: bool
  do_brief :: bool
  do_ignsp :: bool

definition diff_run :: "(cstring \<Rightarrow> char list option) \<Rightarrow> char list \<Rightarrow> diff_opts \<Rightarrow> cstring \<Rightarrow> cstring \<Rightarrow> int \<times> cstring" where
  "diff_run files inp opts path1 path2 =
     (case read_lines files inp path1 of
        None \<Rightarrow> (2, [])
      | Some (A, inp1) \<Rightarrow>
          (case read_lines files inp1 path2 of
             None \<Rightarrow> (2, [])
           | Some (B, inp2) \<Rightarrow>
               (let ops = lcs_diff (lines_eq (do_icase opts) (do_ignsp opts)) A B;
                    differ = list_ex (\<lambda>e. eop e \<noteq> OP_EQ) ops in
                (if differ then 1 else 0,
                 if do_brief opts
                 then (if differ then ''Files '' @ path1 @ '' and '' @ path2 @ '' differ'' @ [NL] else [])
                 else if differ
                 then (if do_unified opts then emit_unified ops A B path1 path2 else emit_traditional ops A B)
                 else []))))"

section \<open>Lines are compared by a key\<close>

definition line_key :: "bool \<Rightarrow> bool \<Rightarrow> cstring \<Rightarrow> cstring" where
  "line_key icase ignsp l = map (cased icase) (if ignsp then filter (\<lambda>c. \<not> isspace c) l else l)"

lemma filter_dropWhile_space: "filter (\<lambda>c. \<not> isspace c) (dropWhile isspace l) = filter (\<lambda>c. \<not> isspace c) l"
  by (induction l) auto

lemma dropWhile_space_cases:
  "dropWhile isspace l = [] \<and> filter (\<lambda>c. \<not> isspace c) l = []
    \<or> (\<exists>c r. dropWhile isspace l = c # r \<and> filter (\<lambda>c. \<not> isspace c) l = c # filter (\<lambda>c. \<not> isspace c) r)"
proof (cases "dropWhile isspace l")
  case Nil
  then show ?thesis using filter_dropWhile_space [of l] by simp
next
  case (Cons c r)
  moreover from this have "\<not> isspace c" by (metis dropWhile_eq_Cons_conv)
  ultimately show ?thesis using filter_dropWhile_space [of l] by simp
qed

lemma same_but_space_key:
  "same_but_space icase a b \<longleftrightarrow>
     map (cased icase) (filter (\<lambda>c. \<not> isspace c) a) = map (cased icase) (filter (\<lambda>c. \<not> isspace c) b)"
proof (induction icase a b rule: same_but_space.induct)
  case (1 icase a b)
  show ?case
    using dropWhile_space_cases [of a] dropWhile_space_cases [of b] 1
    by (subst same_but_space.simps) (auto simp del: dropWhile_eq_Nil_conv filter_empty_conv)
qed

lemma lines_eq_key: "lines_eq icase ignsp a b \<longleftrightarrow> line_key icase ignsp a = line_key icase ignsp b"
proof -
  have "cased True = tolower" "cased False = id" by (auto simp: cased_def fun_eq_iff)
  then show ?thesis by (auto simp: lines_eq_def line_key_def same_but_space_key)
qed

lemma lines_eq_exact: "lines_eq False False = (=)"
  by (auto simp: lines_eq_def fun_eq_iff)

section \<open>The table\<close>

text \<open>The recurrence the table tabulates.\<close>

fun lcs_len :: "('a \<Rightarrow> 'b \<Rightarrow> bool) \<Rightarrow> 'a list \<Rightarrow> 'b list \<Rightarrow> nat \<Rightarrow> nat \<Rightarrow> nat" where
  "lcs_len eq A B 0 j = 0"
| "lcs_len eq A B (Suc i) 0 = 0"
| "lcs_len eq A B (Suc i) (Suc j) =
     (if eq (A ! i) (B ! j) then Suc (lcs_len eq A B i j)
      else max (lcs_len eq A B i (Suc j)) (lcs_len eq A B (Suc i) j))"

lemma lcs_len_0 [simp]: "lcs_len eq A B i 0 = 0"
  by (cases i) auto

lemma lcs_len_le: "lcs_len eq A B i j \<le> i"
  by (induction eq A B i j rule: lcs_len.induct) auto

definition table_upto :: "('a \<Rightarrow> 'b \<Rightarrow> bool) \<Rightarrow> 'a list \<Rightarrow> 'b list \<Rightarrow> nat \<Rightarrow> nat \<Rightarrow> int list \<Rightarrow> bool" where
  "table_upto eq A B i j dp \<longleftrightarrow>
     length dp = (length A + 1) * (length B + 1) \<and>
     (\<forall>a b. a \<le> length A \<longrightarrow> b \<le> length B \<longrightarrow> a < i \<or> a = i \<and> b \<le> j \<or> b = 0 \<longrightarrow>
        dp ! (a * (length B + 1) + b) = int (lcs_len eq A B a b))"

lemma cell_index: "a * w + b = c * w + d \<longleftrightarrow> a = c \<and> b = d" if "b < w" "d < w" for a b c d w :: nat
proof -
  have "(x * w + y) div w = x" "(x * w + y) mod w = y" if "y < w" for x y using that by simp_all
  then show ?thesis using that by metis
qed

lemma cell_below: "a \<le> n \<Longrightarrow> b < w \<Longrightarrow> a * w + b < (n + 1) * w" for a b w n :: nat
proof -
  assume "a \<le> n" "b < w"
  then have "a * w + b < n * w + w" by (intro add_le_less_mono mult_le_mono1)
  then show ?thesis by simp
qed

lemma to_short_small: "0 \<le> v \<Longrightarrow> v < 2 ^ 15 \<Longrightarrow> to_short v = v"
  by (simp add: to_short_def)

lemma table_cell:
  assumes "table_upto eq A B (Suc i) j dp" "i < length A" "j < length B" "length A < 2 ^ 15"
  shows "table_upto eq A B (Suc i) (Suc j) (lcs_cell eq A B (Suc i) dp (Suc j))"
proof -
  let ?w = "length B + 1" and ?n = "length A"
  have at: "dp ! (a * ?w + b) = int (lcs_len eq A B a b)"
    if "a \<le> ?n" "b \<le> length B" "a < Suc i \<or> a = Suc i \<and> b \<le> j \<or> b = 0" for a b
    using assms(1) that unfolding table_upto_def by blast
  have len: "length dp = (?n + 1) * ?w" using assms(1) unfolding table_upto_def by blast
  have new: "lcs_cell eq A B (Suc i) dp (Suc j) = dp[Suc i * ?w + Suc j := int (lcs_len eq A B (Suc i) (Suc j))]"
  proof -
    have "dp ! (i * ?w + j) = int (lcs_len eq A B i j)" "dp ! (i * ?w + Suc j) = int (lcs_len eq A B i (Suc j))"
      "dp ! (Suc i * ?w + j) = int (lcs_len eq A B (Suc i) j)"
      using at [of i j] at [of i "Suc j"] at [of "Suc i" j] assms(2,3) by (simp_all del: mult_Suc)
    moreover have "to_short (int (lcs_len eq A B i j) + 1) = int (lcs_len eq A B i j) + 1"
      using lcs_len_le [of eq A B i j] assms(2,4) by (intro to_short_small) simp_all
    ultimately show ?thesis
      unfolding lcs_cell_def Let_def diff_Suc_1 by (simp add: max_def add.commute [of 1] del: mult_Suc)
  qed
  have idx: "Suc i * ?w + Suc j < (?n + 1) * ?w" using cell_below [of "Suc i" ?n "Suc j" ?w] assms by simp
  have "dp[Suc i * ?w + Suc j := int (lcs_len eq A B (Suc i) (Suc j))] ! (a * ?w + b) = int (lcs_len eq A B a b)"
    if "a \<le> ?n" "b \<le> length B" "a < Suc i \<or> a = Suc i \<and> b \<le> Suc j \<or> b = 0" for a b
  proof (cases "a = Suc i \<and> b = Suc j")
    case True
    then show ?thesis using idx len by (simp del: mult_Suc lcs_len.simps)
  next
    case False
    then have "Suc i * ?w + Suc j \<noteq> a * ?w + b"
      using cell_index [of "Suc j" ?w b "Suc i" a] that assms by (auto simp del: mult_Suc)
    moreover have "dp ! (a * ?w + b) = int (lcs_len eq A B a b)" using at [of a b] that False by auto
    ultimately show ?thesis by (simp del: mult_Suc lcs_len.simps)
  qed
  then show ?thesis unfolding table_upto_def new using len by (simp del: mult_Suc lcs_len.simps)
qed

lemma foldl_upto:
  assumes "P 0 s" "\<And>k t. k < n \<Longrightarrow> P k t \<Longrightarrow> P (Suc k) (f t (Suc k))"
  shows "P n (foldl f s [1..<n + 1])"
proof -
  have "k \<le> n \<Longrightarrow> P k (foldl f s (map Suc [0..<k]))" for k
    using assms by (induction k) auto
  from this [of n] show ?thesis by (simp only: map_Suc_upt) simp
qed

lemma table_row:
  assumes "table_upto eq A B i (length B) dp" "i < length A" "length A < 2 ^ 15"
  shows "table_upto eq A B (Suc i) (length B) (lcs_row eq A B dp (Suc i))"
proof -
  have "table_upto eq A B (Suc i) 0 dp"
    using assms(1) unfolding table_upto_def by (metis le_zero_eq less_Suc_eq)
  then show ?thesis
    unfolding lcs_row_def
    by (rule foldl_upto [where P = "\<lambda>j. table_upto eq A B (Suc i) j"]) (auto intro: table_cell assms)
qed

lemma lcs_table_is_lcs_len:
  assumes "length A < 2 ^ 15"
  shows "table_upto eq A B (length A) (length B) (lcs_table eq A B)"
proof -
  let ?dp = "replicate ((length A + 1) * (length B + 1)) (0::int)"
  have "?dp ! (a * (length B + 1) + b) = 0" if "a \<le> length A" "b \<le> length B" for a b
    using cell_below [of a "length A" b "length B + 1"] that by (intro nth_replicate) simp
  then have "table_upto eq A B 0 (length B) ?dp" unfolding table_upto_def by (auto simp del: replicate_add)
  then show ?thesis
    unfolding lcs_table_def
    by (rule foldl_upto [where P = "\<lambda>i. table_upto eq A B i (length B)"]) (auto intro: table_row assms)
qed

lemma lcs_table_at:
  assumes "length A < 2 ^ 15" "i \<le> length A" "j \<le> length B"
  shows "lcs_table eq A B ! (i * (length B + 1) + j) = int (lcs_len eq A B i j)"
  using lcs_table_is_lcs_len [OF assms(1), of eq B] assms(2,3) unfolding table_upto_def
  by (metis le_neq_implies_less)

section \<open>Edit scripts\<close>

text \<open>A script read as instructions, from a position in both files to the position it reaches.\<close>

fun walk :: "('a \<Rightarrow> 'b \<Rightarrow> bool) \<Rightarrow> 'a list \<Rightarrow> 'b list \<Rightarrow> edit list \<Rightarrow> nat \<times> nat \<Rightarrow> (nat \<times> nat) option" where
  "walk eq A B [] p = Some p"
| "walk eq A B (e # es) (i, j) = (case eop e of
      OP_EQ \<Rightarrow> if l1 e = int i \<and> l2 e = int j \<and> i < length A \<and> j < length B \<and> eq (A ! i) (B ! j)
               then walk eq A B es (i + 1, j + 1) else None
    | OP_DEL \<Rightarrow> if l1 e = int i \<and> i < length A then walk eq A B es (i + 1, j) else None
    | OP_ADD \<Rightarrow> if l2 e = int j \<and> j < length B then walk eq A B es (i, j + 1) else None)"

definition edit_script :: "('a \<Rightarrow> 'b \<Rightarrow> bool) \<Rightarrow> 'a list \<Rightarrow> 'b list \<Rightarrow> edit list \<Rightarrow> bool" where
  "edit_script eq A B es \<longleftrightarrow> walk eq A B es (0, 0) = Some (length A, length B)"

definition keeps_count :: "edit list \<Rightarrow> nat" where
  "keeps_count es = length (filter (\<lambda>e. eop e = OP_EQ) es)"

lemma walk_append: "walk eq A B (es @ fs) p = Option.bind (walk eq A B es p) (walk eq A B fs)"
  by (induction eq A B es p rule: walk.induct) (auto split: op.splits)

lemma trace_back_cases:
  assumes "i \<le> length A" "j \<le> length B"
  obtains (Stop) "i = 0" "j = 0" "trace_back eq A B dp i j = []"
    | (Keep) i1 j1 where "i = Suc i1" "j = Suc j1" "eq (A ! i1) (B ! j1)"
        "trace_back eq A B dp i j = \<lparr>eop = OP_EQ, l1 = int i1, l2 = int j1\<rparr> # trace_back eq A B dp i1 j1"
    | (Add) j1 where "j = Suc j1" "\<And>i1. i = Suc i1 \<Longrightarrow> \<not> eq (A ! i1) (B ! j1)
          \<and> dp ! (i1 * (length B + 1) + j) \<le> dp ! (i * (length B + 1) + j1)"
        "trace_back eq A B dp i j = \<lparr>eop = OP_ADD, l1 = -1, l2 = int j1\<rparr> # trace_back eq A B dp i j1"
    | (Del) i1 where "i = Suc i1" "\<And>j1. j = Suc j1 \<Longrightarrow> \<not> eq (A ! i1) (B ! j1)
          \<and> dp ! (i * (length B + 1) + j1) \<le> dp ! (i1 * (length B + 1) + j)"
        "trace_back eq A B dp i j = \<lparr>eop = OP_DEL, l1 = int i1, l2 = -1\<rparr> # trace_back eq A B dp i1 j"
proof -
  note unfold = trace_back.simps [of eq A B dp i j, unfolded Let_def]
  show thesis
  proof (cases i)
  case 0
  then show thesis
    using Stop Add unfold by (cases j) simp_all
next
  case i: (Suc i1)
  show thesis
  proof (cases j)
    case 0
    then show thesis using i Del unfold by simp
  next
    case j: (Suc j1)
    show thesis
    proof (cases "eq (A ! i1) (B ! j1)")
      case True
      then show thesis using i j Keep unfold by simp
    next
      case False
      then show thesis using i j Add Del unfold
        by (cases "dp ! (i1 * (length B + 1) + j) \<le> dp ! (i * (length B + 1) + j1)")
           simp_all
    qed
  qed
qed
qed

lemma trace_back_walks:
  "i \<le> length A \<Longrightarrow> j \<le> length B \<Longrightarrow> walk eq A B (rev (trace_back eq A B dp i j)) (0, 0) = Some (i, j)"
proof (induction "i + j" arbitrary: i j rule: less_induct)
  case less
  from less.prems show ?case
  proof (cases rule: trace_back_cases [of i A j B eq dp])
    case (Keep i1 j1)
    then show ?thesis using less.hyps [of i1 j1] less.prems by (simp add: walk_append)
  next
    case (Add j1)
    then show ?thesis using less.hyps [of i j1] less.prems by (simp add: walk_append)
  next
    case (Del i1)
    then show ?thesis using less.hyps [of i1 j] less.prems by (simp add: walk_append)
  qed simp
qed

lemma lcs_diff_walks: "edit_script eq A B (lcs_diff eq A B)"
  by (simp add: edit_script_def lcs_diff_def trace_back_walks)

lemma keeps_count_trace_back:
  assumes "length A < 2 ^ 15"
  shows "i \<le> length A \<Longrightarrow> j \<le> length B \<Longrightarrow>
    keeps_count (trace_back eq A B (lcs_table eq A B) i j) = lcs_len eq A B i j"
proof (induction "i + j" arbitrary: i j rule: less_induct)
  case less
  note at = lcs_table_at [OF assms, of _ _ B eq]
  from less.prems show ?case
  proof (cases rule: trace_back_cases [of i A j B eq "lcs_table eq A B"])
    case (Add j1)
    show ?thesis
    proof (cases i)
      case 0
      then show ?thesis using Add less.hyps [of i j1] less.prems by (simp add: keeps_count_def)
    next
      case (Suc i1)
      then have "lcs_len eq A B i1 j \<le> lcs_len eq A B i j1"
        using Add(2) [OF Suc] at [of i1 j] at [of i j1] Add(1) less.prems by (simp del: mult_Suc)
      then show ?thesis using Suc Add(1,3) Add(2) [OF Suc] less.hyps [of i j1] less.prems
        by (simp add: keeps_count_def)
    qed
  next
    case (Del i1)
    show ?thesis
    proof (cases j)
      case 0
      then show ?thesis using Del less.hyps [of i1 j] less.prems by (simp add: keeps_count_def)
    next
      case (Suc j1)
      then have "lcs_len eq A B i j1 \<le> lcs_len eq A B i1 j"
        using Del(2) [OF Suc] at [of i1 j] at [of i j1] Del(1) less.prems by (simp del: mult_Suc)
      then show ?thesis using Suc Del(1,3) Del(2) [OF Suc] less.hyps [of i1 j] less.prems
        by (simp add: keeps_count_def)
    qed
  next
    case (Keep i1 j1)
    then show ?thesis using less.hyps [of i1 j1] less.prems by (simp add: keeps_count_def)
  qed (simp add: keeps_count_def)
qed

text \<open>A script is as long as both files together less the lines it keeps.\<close>

lemma walk_length:
  "walk eq A B es (i, j) = Some (m, n) \<Longrightarrow> length es + keeps_count es + i + j = m + n \<and> i \<le> m \<and> j \<le> n"
  by (induction es arbitrary: i j) (fastforce simp: keeps_count_def split: op.splits if_splits)+

text \<open>What a script keeps is a common subsequence of the keys, and none is longer than \<open>lcs_len\<close>.\<close>

lemma walk_keeps_common:
  assumes "\<And>a b. eq a b \<longleftrightarrow> f a = g b"
  shows "walk eq A B es (i, j) = Some (m, n) \<Longrightarrow> m \<le> length A \<Longrightarrow> n \<le> length B \<Longrightarrow>
    \<exists>xs. length xs = keeps_count es \<and> subseq xs (map f (drop i A)) \<and> subseq xs (map g (drop j B))"
proof (induction es arbitrary: i j)
  case Nil
  then show ?case by (intro exI [of _ "[]"]) (simp add: keeps_count_def)
next
  case (Cons e es)
  show ?case
  proof (cases "eop e")
    case OP_EQ
    then have *: "i < length A" "j < length B" "f (A ! i) = g (B ! j)" "walk eq A B es (i + 1, j + 1) = Some (m, n)"
      using Cons.prems(1) assms [of "A ! i" "B ! j"] by (auto split: if_splits)
    obtain xs where "length xs = keeps_count es" "subseq xs (map f (drop (i + 1) A))" "subseq xs (map g (drop (j + 1) B))"
      using Cons.IH [OF *(4) Cons.prems(2,3)] by blast
    then show ?thesis using OP_EQ *
      by (intro exI [of _ "f (A ! i) # xs"]) (simp add: keeps_count_def Cons_nth_drop_Suc [symmetric])
  next
    case OP_DEL
    then have *: "i < length A" "walk eq A B es (i + 1, j) = Some (m, n)" using Cons.prems by (auto split: if_splits)
    show ?thesis using Cons.IH [OF *(2) Cons.prems(2,3)] OP_DEL *(1)
      by (auto simp: keeps_count_def Cons_nth_drop_Suc [symmetric])
  next
    case OP_ADD
    then have *: "j < length B" "walk eq A B es (i, j + 1) = Some (m, n)" using Cons.prems by (auto split: if_splits)
    show ?thesis using Cons.IH [OF *(2) Cons.prems(2,3)] OP_ADD *(1)
      by (auto simp: keeps_count_def Cons_nth_drop_Suc [symmetric])
  qed
qed

lemma subseq_singleton: "subseq xs [y] \<longleftrightarrow> xs = [] \<or> xs = [y]"
  by (cases xs) (auto simp: subseq_Cons2_iff dest: list_emb_length)

lemma subseq_snoc: "subseq xs (ys @ [y]) \<Longrightarrow> subseq xs ys \<or> (\<exists>xs1. xs = xs1 @ [y] \<and> subseq xs1 ys)"
  by (auto simp: subseq_append_iff subseq_singleton)

lemma subseq_butlast: "subseq xs ys \<Longrightarrow> subseq (butlast xs) ys"
  by (metis prefixeq_butlast prefix_imp_subseq subseq_order.trans)

lemma subseq_butlast_snoc: "subseq xs (ys @ [y]) \<Longrightarrow> subseq (butlast xs) ys"
  using subseq_snoc [of xs ys y] by (auto intro: subseq_butlast)

lemma lcs_len_max:
  assumes "\<And>a b. eq a b \<longleftrightarrow> f a = g b"
  shows "i \<le> length A \<Longrightarrow> j \<le> length B \<Longrightarrow> subseq xs (map f (take i A)) \<Longrightarrow> subseq xs (map g (take j B)) \<Longrightarrow>
    length xs \<le> lcs_len eq A B i j"
proof (induction "i + j" arbitrary: i j xs rule: less_induct)
  case less
  show ?case
  proof (cases "i = 0 \<or> j = 0")
    case True
    then show ?thesis using less.prems(3,4) by (auto dest: list_emb_length)
  next
    case False
    then obtain i1 j1 where ij: "i = Suc i1" "j = Suc j1" by (metis not0_implies_Suc)
    then have tk: "map f (take i A) = map f (take i1 A) @ [f (A ! i1)]" "map g (take j B) = map g (take j1 B) @ [g (B ! j1)]"
      using less.prems by (simp_all add: take_Suc_conv_app_nth)
    note IH = less.hyps [of i1 j1] less.hyps [of i1 j xs] less.hyps [of i j1 xs]
    consider (Left) "subseq xs (map f (take i1 A))" | (Right) "subseq xs (map g (take j1 B))"
      | (Both) xs1 where "xs = xs1 @ [f (A ! i1)]" "f (A ! i1) = g (B ! j1)" "subseq xs1 (map f (take i1 A))" "subseq xs1 (map g (take j1 B))"
      using subseq_snoc [OF less.prems(3) [unfolded tk]] subseq_snoc [OF less.prems(4) [unfolded tk]] by auto
    then show ?thesis
    proof cases
      case Left
      show ?thesis
      proof (cases "eq (A ! i1) (B ! j1)")
        case True
        have "subseq (butlast xs) (map g (take j1 B))" "subseq (butlast xs) (map f (take i1 A))"
          using less.prems(4) Left unfolding tk by (auto intro: subseq_butlast subseq_butlast_snoc)
        then show ?thesis using IH(1) [of "butlast xs"] True ij less.prems(1,2) by simp
      qed (use Left IH(2) ij less.prems in simp)
    next
      case Right
      show ?thesis
      proof (cases "eq (A ! i1) (B ! j1)")
        case True
        have "subseq (butlast xs) (map g (take j1 B))" "subseq (butlast xs) (map f (take i1 A))"
          using less.prems(3) Right unfolding tk by (auto intro: subseq_butlast subseq_butlast_snoc)
        then show ?thesis using IH(1) [of "butlast xs"] True ij less.prems(1,2) by simp
      qed (use Right IH(3) ij less.prems in simp)
    next
      case Both
      then show ?thesis using IH(1) [of xs1] assms ij less.prems(1,2) by simp
    qed
  qed
qed

lemma lcs_diff_shortest:
  assumes "\<And>a b. eq a b \<longleftrightarrow> f a = g b" "length A < 2 ^ 15" "edit_script eq A B es"
  shows "length (lcs_diff eq A B) \<le> length es"
proof -
  let ?ds = "lcs_diff eq A B"
  have "keeps_count ?ds = lcs_len eq A B (length A) (length B)"
    using keeps_count_trace_back [OF assms(2) order_refl order_refl, of eq B]
    by (simp add: lcs_diff_def keeps_count_def rev_filter [symmetric])
  moreover obtain xs where "length xs = keeps_count es" "subseq xs (map f A)" "subseq xs (map g B)"
    using walk_keeps_common [OF assms(1) assms(3) [unfolded edit_script_def]] by auto
  then have "keeps_count es \<le> lcs_len eq A B (length A) (length B)"
    using lcs_len_max [OF assms(1), of "length A" A "length B" B xs] by simp
  moreover note walk_length [OF assms(3) [unfolded edit_script_def]]
    walk_length [OF lcs_diff_walks [of eq A B, unfolded edit_script_def]]
  ultimately show ?thesis by simp
qed

text \<open>C20: The script computed from the LCS table turns the first file into the second under the chosen
  comparison and is no longer than any other such script.\<close>

theorem diff_script_shortest:
  assumes "length A \<le> MAX_LINES" "edit_script (lines_eq icase ignsp) A B es"
  shows "edit_script (lines_eq icase ignsp) A B (lcs_diff (lines_eq icase ignsp) A B)
    \<and> length (lcs_diff (lines_eq icase ignsp) A B) \<le> length es"
  using lcs_diff_walks lcs_diff_shortest [OF lines_eq_key _ assms(2)] assms(1) by (auto simp: MAX_LINES_def)

definition demo_script :: "edit list" where
  "demo_script = [\<lparr>eop = OP_DEL, l1 = 0, l2 = -1\<rparr>, \<lparr>eop = OP_EQ, l1 = 1, l2 = 0\<rparr>, \<lparr>eop = OP_ADD, l1 = -1, l2 = 1\<rparr>]"

theorem diff_script_shortest_witness:
  "length (lcs_diff (lines_eq True False) [''a'', ''b''] [''B'', ''c'']) \<le> 3"
proof -
  have "edit_script (lines_eq True False) [''a'', ''b''] [''B'', ''c''] demo_script" by code_simp
  moreover have "length demo_script = 3" by (simp add: demo_script_def)
  ultimately show ?thesis
    using diff_script_shortest [of "[''a'', ''b'']" True False "[''B'', ''c'']" demo_script] by (simp add: MAX_LINES_def)
qed

text \<open>Without change the script keeps everything, and only then.\<close>

lemma changed_iff_keys:
  assumes "\<And>a b. eq a b \<longleftrightarrow> f a = g b" "length A < 2 ^ 15"
  shows "list_ex (\<lambda>e. eop e \<noteq> OP_EQ) (lcs_diff eq A B) \<longleftrightarrow> map f A \<noteq> map g B"
proof -
  let ?es = "lcs_diff eq A B"
  have w: "walk eq A B ?es (0, 0) = Some (length A, length B)"
    using lcs_diff_walks [of eq A B] by (simp add: edit_script_def)
  have le: "keeps_count ?es \<le> length ?es" by (simp add: keeps_count_def)
  have sum: "length ?es + keeps_count ?es = length A + length B" using walk_length [OF w] by simp
  have "list_ex (\<lambda>e. eop e \<noteq> OP_EQ) ?es \<longleftrightarrow> keeps_count ?es \<noteq> length ?es"
    by (auto simp: keeps_count_def list_ex_iff filter_id_conv dest: length_filter_less intro: ccontr)
  also have "\<dots> \<longleftrightarrow> map f A \<noteq> map g B"
  proof
    assume *: "keeps_count ?es \<noteq> length ?es"
    show "map f A \<noteq> map g B"
    proof
      assume eq: "map f A = map g B"
      then have "length A \<le> lcs_len eq A B (length A) (length B)"
        using lcs_len_max [where eq = eq and f = f and g = g, OF assms(1), of "length A" A "length B" B "map f A"]
          map_eq_imp_length_eq [OF eq] by simp
      also have "\<dots> = keeps_count ?es"
        using keeps_count_trace_back [OF assms(2) order_refl order_refl, of eq B]
        by (simp add: lcs_diff_def keeps_count_def rev_filter [symmetric])
      finally show False using * le sum map_eq_imp_length_eq [OF eq] by simp
    qed
  next
    assume *: "map f A \<noteq> map g B"
    show "keeps_count ?es \<noteq> length ?es"
    proof
      assume all: "keeps_count ?es = length ?es"
      obtain xs where xs: "length xs = keeps_count ?es" "subseq xs (map f A)" "subseq xs (map g B)"
        using walk_keeps_common [OF assms(1) w] by auto
      then have "length xs \<le> length A" "length xs \<le> length B" by (auto dest: list_emb_length)
      then have "length xs = length (map f A)" "length xs = length (map g B)" using xs(1) sum all by simp_all
      then show False using xs * by (metis subseq_same_length)
    qed
  qed
  finally show ?thesis .
qed

lemma diff_status_aux:
  assumes "read_lines files inp path1 = Some (A, inp1)" "read_lines files inp1 path2 = Some (B, inp2)"
  shows "fst (diff_run files inp opts path1 path2) =
    (if map (line_key (do_icase opts) (do_ignsp opts)) A = map (line_key (do_icase opts) (do_ignsp opts)) B then 0 else 1)"
proof -
  have "length A < 2 ^ 15" using assms(1)
    by (auto simp: read_lines_def MAX_LINES_def Let_def split: if_splits option.splits)
  from changed_iff_keys [where f = "line_key (do_icase opts) (do_ignsp opts)" and g = "line_key (do_icase opts) (do_ignsp opts)",
      OF lines_eq_key this]
  show ?thesis by (simp add: diff_run_def assms Let_def)
qed

theorem diff_status:
  assumes "read_lines files inp path1 = Some (A, inp1)" "read_lines files inp1 path2 = Some (B, inp2)"
  shows "fst (diff_run files inp opts path1 path2) =
    (if map (line_key (do_icase opts) (do_ignsp opts)) A = map (line_key (do_icase opts) (do_ignsp opts)) B then 0 else 1)"
  by (rule diff_status_aux [OF assms])

definition demo_files :: "cstring \<Rightarrow> char list option" where
  "demo_files p = (if p = ''p'' then Some (''ab'' @ [NL] @ ''c'') else if p = ''q'' then Some (''AB'' @ [NL] @ ''c'' @ [NL]) else None)"

theorem diff_status_witness:
  "fst (diff_run demo_files [] \<lparr>do_unified = False, do_icase = True, do_brief = False, do_ignsp = False\<rparr> ''p'' ''q'') = 0"
proof -
  have "read_lines demo_files [] ''p'' = Some ([''ab'', ''c''], [])" "read_lines demo_files [] ''q'' = Some ([''AB'', ''c''], [])"
    by code_simp+
  moreover have "map (line_key True False) [''ab'', ''c''] = map (line_key True False) [''AB'', ''c'']" by code_simp
  ultimately show ?thesis
    using diff_status [of demo_files "[]" "''p''" "[''ab'', ''c'']" "[]" "''q''" "[''AB'', ''c'']" "[]"] by simp
qed

section \<open>What a part of a script does\<close>

definition old_part :: "edit list \<Rightarrow> edit list" where
  "old_part es = filter (\<lambda>e. eop e = OP_EQ \<or> eop e = OP_DEL) es"

definition new_part :: "edit list \<Rightarrow> edit list" where
  "new_part es = filter (\<lambda>e. eop e = OP_EQ \<or> eop e = OP_ADD) es"

text \<open>The text the script leaves: the kept lines of the first file and the added ones.\<close>

definition written :: "cstring list \<Rightarrow> cstring list \<Rightarrow> edit list \<Rightarrow> cstring list" where
  "written A B es = map (\<lambda>e. snd (edit_line A B e)) (new_part es)"

lemma written_simps [simp]:
  "written A B [] = []" "written A B (es @ fs) = written A B es @ written A B fs"
  "eop e = OP_EQ \<Longrightarrow> written A B (e # es) = A ! nat (l1 e) # written A B es"
  by (simp_all add: written_def new_part_def edit_line_def)

fun ints :: "nat \<Rightarrow> nat \<Rightarrow> int list" where
  "ints i 0 = []"
| "ints i (Suc n) = int i # ints (i + 1) n"

lemma ints_upt: "ints i n = map int [i..<i + n]"
  by (induction i n rule: ints.induct) (simp_all add: upt_rec)

lemma walk_part:
  assumes "walk eq A B (run @ rest) (i, j) = Some p"
  shows "walk eq A B rest (i + length (old_part run), j + length (new_part run)) = Some p"
    and "map l1 (old_part run) = ints i (length (old_part run))"
    and "map l2 (new_part run) = ints j (length (new_part run))"
    and "i \<le> length A \<Longrightarrow> map (\<lambda>e. A ! nat (l1 e)) (old_part run) = take (length (old_part run)) (drop i A)"
    and "i \<le> length A \<Longrightarrow> i + length (old_part run) \<le> length A"
proof -
  have "walk eq A B rest (i + length (old_part run), j + length (new_part run)) = Some p
    \<and> map l1 (old_part run) = ints i (length (old_part run))
    \<and> map l2 (new_part run) = ints j (length (new_part run))
    \<and> (i \<le> length A \<longrightarrow> i + length (old_part run) \<le> length A)"
    using assms
  proof (induction run arbitrary: i j)
    case Nil
    then show ?case by (simp add: old_part_def new_part_def)
  next
    case (Cons e es)
    show ?case
    proof (cases "eop e")
      case OP_EQ
      then show ?thesis using Cons.prems Cons.IH [of "i + 1" "j + 1"]
        by (auto simp: old_part_def new_part_def split: if_splits)
    next
      case OP_DEL
      then show ?thesis using Cons.prems Cons.IH [of "i + 1" j]
        by (auto simp: old_part_def new_part_def split: if_splits)
    next
      case OP_ADD
      then show ?thesis using Cons.prems Cons.IH [of i "j + 1"]
        by (auto simp: old_part_def new_part_def split: if_splits)
    qed
  qed
  note * = this
  then show "walk eq A B rest (i + length (old_part run), j + length (new_part run)) = Some p"
    "map l1 (old_part run) = ints i (length (old_part run))"
    "map l2 (new_part run) = ints j (length (new_part run))"
    "i \<le> length A \<Longrightarrow> i + length (old_part run) \<le> length A" by blast+
  show "map (\<lambda>e. A ! nat (l1 e)) (old_part run) = take (length (old_part run)) (drop i A)" if "i \<le> length A"
  proof -
    have "map (\<lambda>e. A ! nat (l1 e)) (old_part run) = map (\<lambda>v. A ! nat v) (map l1 (old_part run))" by simp
    also have "\<dots> = map (\<lambda>k. A ! k) [i..<i + length (old_part run)]" using * by (simp add: ints_upt del: map_map) simp
    also have "\<dots> = take (length (old_part run)) (drop i A)"
      using * that by (intro nth_equalityI) (auto simp: min_def)
    finally show ?thesis .
  qed
qed

lemma hd_last_ints: "map f xs = ints i (length xs) \<Longrightarrow> xs \<noteq> [] \<Longrightarrow> f (hd xs) = int i \<and> f (last xs) = int i + int (length xs) - 1"
proof -
  assume *: "map f xs = ints i (length xs)" "xs \<noteq> []"
  then have "0 < length xs" by simp
  have "f (hd xs) = hd (map f xs)" "f (last xs) = last (map f xs)" using *(2) by (simp_all add: hd_map last_map)
  then show ?thesis using * \<open>0 < length xs\<close> by (simp add: ints_upt hd_map last_map of_nat_diff)
qed

lemma written_matches:
  "walk eq A B es (i, j) = Some (m, length B) \<Longrightarrow> j \<le> length B \<Longrightarrow> (\<And>b. eq b b) \<Longrightarrow> list_all2 eq (written A B es) (drop j B)"
proof (induction es arbitrary: i j)
  case Nil
  then show ?case by simp
next
  case (Cons e es)
  then show ?case
    by (auto simp: written_def new_part_def edit_line_def Cons_nth_drop_Suc [symmetric] split: op.splits if_splits)
qed


section \<open>The traditional output applied\<close>

text \<open>
  Applying a hunk to the first file: \<open>pos\<close> lines of it are used, \<open>out\<close> is what is written so far.
  All numbers of the hunk are checked, and so are the lines it deletes.
\<close>

definition apply_hunk :: "cstring list \<Rightarrow> hunk \<Rightarrow> int \<times> cstring list \<Rightarrow> (int \<times> cstring list) option" where
  "apply_hunk A h s =
     (case s of (pos, out) \<Rightarrow>
        let here = (if dels h = [] then prev1 h else first1 h);
            out1 = out @ take (nat (here - pos)) (drop (nat pos) A);
            nd = int (length (dels h)); na = int (length (adds h)) in
        if pos \<le> here \<and> dels h = take (length (dels h)) (drop (nat here) A)
          \<and> (dels h = [] \<or> last1 h + 1 = first1 h + nd)
          \<and> (if adds h = [] then prev2 h = int (length out1) else first2 h = int (length out1) \<and> last2 h + 1 = first2 h + na)
        then Some (here + nd, out1 @ adds h) else None)"

fun apply_hunks :: "cstring list \<Rightarrow> hunk list \<Rightarrow> int \<times> cstring list \<Rightarrow> cstring list option" where
  "apply_hunks A [] (pos, out) = Some (out @ drop (nat pos) A)"
| "apply_hunks A (h # hs) s = Option.bind (apply_hunk A h s) (apply_hunks A hs)"

lemma apply_trad_hunk:
  assumes "walk eq A B (run @ rest) (i, j) = Some p" "list_all (\<lambda>e. eop e \<noteq> OP_EQ) run" "run \<noteq> []"
    and "prev_eq l1 seen = int i" "prev_eq l2 seen = int j" "pos \<le> i" "i \<le> length A" "length out + (i - pos) = j"
  shows "apply_hunk A (trad_hunk A B seen run) (int pos, out) =
    Some (int (i + length (old_part run)), out @ take (i - pos) (drop pos A) @ written A B run)"
proof -
  have "filter (\<lambda>e. eop e = OP_DEL) run = old_part run" "filter (\<lambda>e. eop e \<noteq> OP_DEL) run = new_part run"
    using assms(2) unfolding old_part_def new_part_def list_all_iff by (auto intro!: filter_cong) (metis op.exhaust)+
  moreover have "map (\<lambda>e. B ! nat (l2 e)) (new_part run) = written A B run"
    using assms(2) unfolding written_def new_part_def list_all_iff edit_line_def by (auto intro!: map_cong)
  ultimately have hunk: "trad_hunk A B seen run =
      \<lparr>first1 = (if old_part run = [] then -1 else l1 (hd (old_part run))),
       last1 = (if old_part run = [] then -1 else l1 (last (old_part run))),
       first2 = (if new_part run = [] then -1 else l2 (hd (new_part run))),
       last2 = (if new_part run = [] then -1 else l2 (last (new_part run))),
       prev1 = int i, prev2 = int j, dels = take (length (old_part run)) (drop i A), adds = written A B run\<rparr>"
    using walk_part(4) [OF assms(1,7)] assms(4,5) by (simp add: trad_hunk_def Let_def)
  have len: "length (written A B run) = length (new_part run)" "i + length (old_part run) \<le> length A"
    using walk_part(5) [OF assms(1,7)] by (simp_all add: written_def)
  then have out: "length (out @ take (i - pos) (drop pos A)) = j" using assms(6-8) by simp
  note ends = hd_last_ints [OF walk_part(2) [OF assms(1)]] hd_last_ints [OF walk_part(3) [OF assms(1)]]
  have mid: "take (nat (int i - int pos)) (drop pos A) = take (i - pos) (drop pos A)" by (simp add: nat_diff_distrib')
  define mid where "mid = take (i - pos) (drop pos A)"
  show ?thesis
    using ends len out assms(6) unfolding mid_def [symmetric]
    by (cases "old_part run = []"; cases "new_part run = []")
       (simp_all add: hunk apply_hunk_def Let_def written_def mid mid_def [symmetric] del: length_append)
qed

lemma trad_hunks_apply:
  assumes "walk eq A B es (i, j) = Some (length A, n)" "pos \<le> i" "length out + (i - pos) = j"
    and "es = [] \<or> eop (hd es) = OP_EQ \<or> prev_eq l1 seen = int i \<and> prev_eq l2 seen = int j"
  shows "apply_hunks A (trad_hunks A B seen es) (int pos, out) = Some (out @ take (i - pos) (drop pos A) @ written A B es)"
  using assms
proof (induction A B seen es arbitrary: i j pos out rule: trad_hunks.induct)
  case (1 A B seen)
  then show ?case by simp
next
  case (2 A B seen e es)
  note le = walk_length [OF 2(3)]
  show ?case
  proof (cases "eop e = OP_EQ")
    case True
    then have w: "walk eq A B es (i + 1, j + 1) = Some (length A, n)" "l1 e = int i" "l2 e = int j" "i < length A"
      using 2(3) by (auto split: if_splits)
    have "take (Suc i - pos) (drop pos A) = take (i - pos) (drop pos A) @ [A ! i]"
      using 2(4) w(4) by (simp add: Suc_diff_le take_Suc_conv_app_nth)
    then show ?thesis
      using 2(1) [OF True w(1), of pos out] 2(4,5) True w by (simp add: prev_eq_def)
  next
    case False
    define run rest where "run = takeWhile (\<lambda>x. eop x \<noteq> OP_EQ) (e # es)" and "rest = dropWhile (\<lambda>x. eop x \<noteq> OP_EQ) (e # es)"
    have split: "e # es = run @ rest" and run: "list_all (\<lambda>e. eop e \<noteq> OP_EQ) run" "run \<noteq> []"
      and rest: "rest = [] \<or> eop (hd rest) = OP_EQ"
      using False hd_dropWhile [of "\<lambda>x. eop x \<noteq> OP_EQ" "e # es"]
      by (auto simp: run_def rest_def list_all_iff dest: set_takeWhileD)
    have w: "walk eq A B (run @ rest) (i, j) = Some (length A, n)" using 2(3) split by simp
    let ?i = "i + length (old_part run)" and ?out = "out @ take (i - pos) (drop pos A) @ written A B run"
    have "min (length A - pos) (i - pos) = i - pos" using le by (intro min_absorb2 diff_le_mono) simp
    then have "length ?out = j + length (new_part run)" using 2(5) by (simp add: written_def)
    then have "apply_hunks A (trad_hunks A B (rev run @ seen) rest) (int ?i, ?out) = Some (?out @ written A B rest)"
      using 2(2) [OF False run_def, folded rest_def, OF walk_part(1) [OF w] order_refl, of ?out] rest by auto
    moreover have "apply_hunk A (trad_hunk A B seen run) (int pos, out) = Some (int ?i, ?out)"
      using apply_trad_hunk [OF w run _ _ 2(4) _ 2(5)] 2(6) False le by simp
    moreover have "trad_hunks A B seen (e # es) = trad_hunk A B seen run # trad_hunks A B (rev run @ seen) rest"
      using False by (simp add: run_def rest_def Let_def)
    moreover have "written A B (e # es) = written A B run @ written A B rest" unfolding split by simp
    ultimately show ?thesis by (simp del: trad_hunks.simps)
  qed
qed


text \<open>The traditional output of two files, applied to the first, gives the second.\<close>

definition apply_traditional :: "cstring list \<Rightarrow> hunk list \<Rightarrow> cstring list option" where
  "apply_traditional A hs = apply_hunks A hs (0, [])"

lemma traditional_applies:
  assumes "\<And>l. eq l l"
  shows "\<exists>C. apply_traditional A (trad_hunks A B [] (lcs_diff eq A B)) = Some C \<and> list_all2 eq C B"
proof -
  have w: "walk eq A B (lcs_diff eq A B) (0, 0) = Some (length A, length B)"
    using lcs_diff_walks [of eq A B] by (simp add: edit_script_def)
  have "apply_hunks A (trad_hunks A B [] (lcs_diff eq A B)) (int 0, []) = Some (written A B (lcs_diff eq A B))"
    using trad_hunks_apply [OF w, of 0 "[]" "[]"] by (simp add: prev_eq_def)
  then show ?thesis using written_matches [OF w _ assms] by (simp add: apply_traditional_def)
qed

theorem traditional_diff_applies:
  "\<exists>C. apply_traditional A (trad_hunks A B [] (lcs_diff (lines_eq icase ignsp) A B)) = Some C
     \<and> list_all2 (lines_eq icase ignsp) C B"
  by (rule traditional_applies) (simp add: lines_eq_key)

section \<open>The unified output applied\<close>

definition changes_near :: "edit list \<Rightarrow> nat \<Rightarrow> nat set \<Rightarrow> bool" where
  "changes_near ops c ks \<longleftrightarrow> (\<exists>k\<in>ks. eop (ops ! k) \<noteq> OP_EQ \<and> \<bar>int c - int k\<bar> \<le> CONTEXT_LINES)"

lemma mark_around_nth:
  "length m = n \<Longrightarrow> length (mark_around n k m) = n
    \<and> (\<forall>c<n. mark_around n k m ! c \<longleftrightarrow> m ! c \<or> \<bar>int c - int k\<bar> \<le> CONTEXT_LINES)"
proof -
  have marks: "length m = n \<Longrightarrow>
      length (foldl (\<lambda>m c. if 0 \<le> c \<and> c < int n then m[nat c := True] else m) m cs) = n
      \<and> (\<forall>c<n. foldl (\<lambda>m c. if 0 \<le> c \<and> c < int n then m[nat c := True] else m) m cs ! c \<longleftrightarrow> m ! c \<or> int c \<in> set cs)" for cs
    by (induction cs arbitrary: m) (auto simp: nth_list_update split: if_splits)
  then show "length m = n \<Longrightarrow> ?thesis" unfolding mark_around_def by auto
qed

lemma in_hunk_nth:
  "length (in_hunk ops) = length ops
    \<and> (\<forall>c<length ops. in_hunk ops ! c \<longleftrightarrow> changes_near ops c {..<length ops})"
proof -
  let ?f = "\<lambda>m k. if eop (ops ! k) = OP_EQ then m else mark_around (length ops) k m"
  have "length m = length ops \<Longrightarrow> length (foldl ?f m ks) = length ops
      \<and> (\<forall>c<length ops. foldl ?f m ks ! c \<longleftrightarrow> m ! c \<or> changes_near ops c (set ks))" for m ks
    by (induction ks arbitrary: m) (auto simp: mark_around_nth changes_near_def)
  from this [of "replicate (length ops) False" "[0..<length ops]"] show ?thesis
    unfolding in_hunk_def by (simp add: atLeast0LessThan)
qed

text \<open>Outside the hunks nothing changes, and a hunk begins with an unchanged line unless it begins the script.\<close>

definition marked :: "(edit \<times> bool) list \<Rightarrow> bool" where
  "marked ps \<longleftrightarrow> list_all (\<lambda>p. snd p \<or> eop (fst p) = OP_EQ) ps
     \<and> successively (\<lambda>p q. snd p \<or> eop (fst q) = OP_EQ) ps"

lemma in_hunk_marked: "marked (zip ops (in_hunk ops))"
proof -
  have "in_hunk ops ! c" if "c < length ops" "k < length ops" "eop (ops ! k) \<noteq> OP_EQ" "c = k \<or> Suc c = k" for c k
    using that in_hunk_nth [of ops] unfolding changes_near_def CONTEXT_LINES_def by force
  then show ?thesis
    using in_hunk_nth [of ops]
    unfolding marked_def list_all_length successively_conv_nth by auto
qed

definition apply_uhunk :: "cstring list \<Rightarrow> uhunk \<Rightarrow> int \<times> cstring list \<Rightarrow> (int \<times> cstring list) option" where
  "apply_uhunk A h s =
     (case s of (pos, out) \<Rightarrow>
        let out1 = out @ take (nat (start1 h - pos)) (drop (nat pos) A);
            olds = map snd (filter (\<lambda>l. fst l \<noteq> OP_ADD) (body h)); news = map snd (filter (\<lambda>l. fst l \<noteq> OP_DEL) (body h)) in
        if pos \<le> start1 h \<and> olds = take (count1 h) (drop (nat (start1 h)) A)
          \<and> start2 h = int (length out1) \<and> count2 h = length news
        then Some (start1 h + int (count1 h), out1 @ news) else None)"

fun apply_uhunks :: "cstring list \<Rightarrow> uhunk list \<Rightarrow> int \<times> cstring list \<Rightarrow> cstring list option" where
  "apply_uhunks A [] (pos, out) = Some (out @ drop (nat pos) A)"
| "apply_uhunks A (h # hs) s = Option.bind (apply_uhunk A h s) (apply_uhunks A hs)"


lemma apply_uni_hunk:
  assumes "walk eq A B (run @ rest) (i, j) = Some p" "run \<noteq> []" "eop (hd run) = OP_EQ \<or> i = 0 \<and> j = 0"
    and "pos \<le> i" "i \<le> length A" "length out + (i - pos) = j"
  shows "apply_uhunk A (uni_hunk A B run) (int pos, out) =
    Some (int (i + length (old_part run)), out @ take (i - pos) (drop pos A) @ written A B run)"
proof -
  have olds: "map snd (filter (\<lambda>l. fst l \<noteq> OP_ADD) (map (edit_line A B) run)) = map (\<lambda>e. A ! nat (l1 e)) (old_part run)"
    unfolding old_part_def by (induction run) (auto simp: edit_line_def, metis op.exhaust)
  have news: "map snd (filter (\<lambda>l. fst l \<noteq> OP_DEL) (map (edit_line A B) run)) = written A B run"
    unfolding written_def new_part_def by (induction run) (auto simp: edit_line_def, metis op.exhaust)
  have s1: "(if old_part run = [] then 0 else l1 (hd (old_part run))) = int i"
    using hd_last_ints [OF walk_part(2) [OF assms(1)]] assms(2,3) by (cases run) (auto simp: old_part_def)
  have s2: "(if new_part run = [] then 0 else l2 (hd (new_part run))) = int j"
    using hd_last_ints [OF walk_part(3) [OF assms(1)]] assms(2,3) by (cases run) (auto simp: new_part_def)
  have hunk: "uni_hunk A B run = \<lparr>start1 = int i, count1 = length (old_part run),
      start2 = int j, count2 = length (new_part run), body = map (edit_line A B) run\<rparr>"
    unfolding uni_hunk_def Let_def old_part_def [symmetric] new_part_def [symmetric] s1 s2 by (rule refl)
  have "min (length A - pos) (i - pos) = i - pos" using assms(5) by (intro min_absorb2 diff_le_mono) simp
  then show ?thesis
    using assms(4,6) walk_part(4) [OF assms(1,5)]
    by (simp add: apply_uhunk_def hunk Let_def olds news written_def nat_diff_distrib' del: filter_map)
qed

lemma uni_hunks_apply:
  assumes "walk eq A B (map fst ps) (i, j) = Some (length A, n)" "pos \<le> i" "length out + (i - pos) = j" "marked ps"
    and "ps = [] \<or> \<not> snd (hd ps) \<or> eop (fst (hd ps)) = OP_EQ \<or> i = 0 \<and> j = 0"
  shows "apply_uhunks A (uni_hunks A B ps) (int pos, out) = Some (out @ take (i - pos) (drop pos A) @ written A B (map fst ps))"
  using assms
proof (induction A B ps arbitrary: i j pos out rule: uni_hunks.induct)
  case (1 A B)
  then show ?case by simp
next
  case (2 A B e es)
  note le = walk_length [OF 2(3)]
  show ?case
  proof (cases "snd e")
    case False
    then have "eop (fst e) = OP_EQ" using 2(6) by (simp add: marked_def)
    then have w: "walk eq A B (map fst es) (i + 1, j + 1) = Some (length A, n)" "l1 (fst e) = int i" "i < length A"
      using 2(3) by (auto split: if_splits)
    have "marked es" "es = [] \<or> \<not> snd (hd es) \<or> eop (fst (hd es)) = OP_EQ"
      using 2(6) False by (cases es; simp add: marked_def)+
    moreover have "take (Suc i - pos) (drop pos A) = take (i - pos) (drop pos A) @ [A ! i]"
      using 2(4) w(3) by (simp add: Suc_diff_le take_Suc_conv_app_nth)
    ultimately show ?thesis
      using 2(1) [OF False w(1), of pos out] 2(4,5) False \<open>eop (fst e) = OP_EQ\<close> w by simp
  next
    case True
    define run rest where "run = takeWhile snd (e # es)" and "rest = dropWhile snd (e # es)"
    have split: "e # es = run @ rest" "run \<noteq> []" "hd run = e" "rest = [] \<or> \<not> snd (hd rest)"
      using True hd_dropWhile [of snd "e # es"] by (auto simp: run_def rest_def)
    then have w: "walk eq A B (map fst run @ map fst rest) (i, j) = Some (length A, n)" using 2(3) by (metis map_append)
    let ?old = "old_part (map fst run)" and ?new = "new_part (map fst run)"
    let ?out = "out @ take (i - pos) (drop pos A) @ written A B (map fst run)"
    have "marked rest" using 2(6) unfolding split(1) marked_def by (simp add: successively_append_iff)
    moreover have "min (length A - pos) (i - pos) = i - pos" using le by (intro min_absorb2 diff_le_mono) simp
    then have "length ?out = j + length ?new" using 2(5) by (simp add: written_def)
    ultimately have "apply_uhunks A (uni_hunks A B rest) (int (i + length ?old), ?out) = Some (?out @ written A B (map fst rest))"
      using 2(2) [folded rest_def, OF _ walk_part(1) [OF w] order_refl, of ?out] split(4) True by auto
    moreover have "apply_uhunk A (uni_hunk A B (map fst run)) (int pos, out) = Some (int (i + length ?old), ?out)"
      using apply_uni_hunk [OF w _ _ 2(4) _ 2(5)] 2(7) True le split(2,3) by (simp add: hd_map)
    moreover have "uni_hunks A B (e # es) = uni_hunk A B (map fst run) # uni_hunks A B rest"
      using True by (simp add: run_def rest_def)
    moreover have "written A B (map fst (e # es)) = written A B (map fst run) @ written A B (map fst rest)"
      unfolding split(1) by simp
    ultimately show ?thesis by (simp del: uni_hunks.simps)
  qed
qed

definition apply_unified :: "cstring list \<Rightarrow> uhunk list \<Rightarrow> cstring list option" where
  "apply_unified A hs = apply_uhunks A hs (0, [])"

text \<open>C21: The unified hunks of two files, applied to the first, give the second up to the chosen
  comparison of lines.\<close>

theorem unified_diff_applies:
  "\<exists>C. apply_unified A (let ops = lcs_diff (lines_eq icase ignsp) A B in uni_hunks A B (zip ops (in_hunk ops))) = Some C
     \<and> list_all2 (lines_eq icase ignsp) C B"
proof -
  let ?eq = "lines_eq icase ignsp"
  have w: "walk ?eq A B (lcs_diff ?eq A B) (0, 0) = Some (length A, length B)"
    using lcs_diff_walks [of ?eq A B] by (simp add: edit_script_def)
  define ps where "ps = zip (lcs_diff ?eq A B) (in_hunk (lcs_diff ?eq A B))"
  have ps: "map fst ps = lcs_diff ?eq A B" "marked ps"
    using in_hunk_nth [of "lcs_diff ?eq A B"] by (simp_all add: ps_def in_hunk_marked)
  have "apply_uhunks A (uni_hunks A B ps) (int 0, []) = Some (written A B (lcs_diff ?eq A B))"
    using uni_hunks_apply [of ?eq A B ps 0 0 "length B" 0 "[]"] w ps by simp
  then show ?thesis using written_matches [OF w] by (simp add: apply_unified_def ps_def Let_def lines_eq_key)
qed


section \<open>Where the command departs from its description\<close>

lemma blanks_are_ignored_altogether: "lines_eq False True ''ab'' ''a b''"
  by (simp add: lines_eq_key line_key_def isspace_def)

lemma long_tails_ignored:
  assumes "files p = Some a" "files q = Some b" "p \<noteq> ''-''" "q \<noteq> ''-''" "take MAX_LINES (getlines a) = take MAX_LINES (getlines b)"
  shows "fst (diff_run files inp opts p q) = 0"
proof -
  have "read_lines files inp q = read_lines files inp p" using assms by (simp add: read_lines_def)
  then show ?thesis
    using diff_status_aux [of files inp p _ inp q _ inp opts] assms by (simp add: read_lines_def)
qed


lemma unified_header_of_empty_file:
  "emit_unified (lcs_diff (=) [] [''x'']) [] [''x''] ''p'' ''q'' =
     ''--- p'' @ [NL] @ ''+++ q'' @ [NL] @ ''@@ -1,0 +1,1 @@'' @ [NL] @ ''+x'' @ [NL]"
  by code_simp

end
