(* ===== verification/Char_Tools.thy ===== *)
theory Char_Tools
  imports Prelude
begin

text \<open>
  The commands \<open>tr\<close>, \<open>cut\<close> and \<open>wc\<close> (\<^verbatim>\<open>cmd_tr.c\<close>, \<^verbatim>\<open>cmd_cut.c\<close>, \<^verbatim>\<open>cmd_wc.c\<close>) after their options are
  parsed: the sets, the field list and the loops over the input. The byte tables of the source are
  lists of 256 entries. The standard error is left out.

  The lemmas give each loop its meaning: \<open>tr\<close> is a filter, a map and a squeeze, \<open>cut\<close> selects the
  fields its list names, \<open>wc\<close> counts lines, words and bytes.
\<close>

section \<open>tr\<close>

definition all_bytes :: "char list" where
  "all_bytes = map char_of [0..<256::nat]"

definition class_test :: "cstring \<Rightarrow> char \<Rightarrow> bool" where
  "class_test name =
     (if name = ''upper'' then isupper else if name = ''lower'' then islower
      else if name = ''digit'' then isdigit else if name = ''space'' then isspace
      else if name = ''alpha'' then isalpha else if name = ''alnum'' then isalnum
      else if name = ''print'' then isprint else if name = ''punct'' then ispunct else (\<lambda>c. False))"

definition tr_escape :: "char \<Rightarrow> char" where
  "tr_escape c =
     (if c = CHR ''n'' then NL else if c = CHR ''t'' then TAB else if c = CHR ''r'' then CR
      else if c = CHR ''a'' then CHR 0x07 else if c = CHR ''b'' then CHR 0x08 else c)"

function set_go :: "cstring \<Rightarrow> char list \<Rightarrow> char list option" where
  "set_go p out =
     (if p = [] \<or> 256 \<le> length out then Some out
      else if prefix ''[:'' p
      then (case strstr (drop 2 p) '':]'' of
              None \<Rightarrow> None
            | Some k \<Rightarrow>
                if 32 \<le> k then None
                else set_go (drop (k + 4) p) (take 256 (out @ filter (class_test (take k (drop 2 p))) all_bytes)))
      else if hd p = BSLASH \<and> 2 \<le> length p then set_go (drop 2 p) (out @ [tr_escape (p ! 1)])
      else if 3 \<le> length p \<and> p ! 1 = CHR ''-''
      then (let lo = ord (hd p); hi = ord (p ! 2) in
            set_go (drop 3 p) (if lo \<le> hi then take 256 (out @ map char_of [lo..<hi + 1]) else out @ [hd p]))
      else set_go (tl p) (out @ [hd p]))"
  by pat_completeness auto
termination by (relation "measure (\<lambda>(p, out). length p)") auto

declare set_go.simps [simp del]

definition expand_set :: "cstring \<Rightarrow> char list option" where
  "expand_set spec = set_go spec []"

record tr_opts =
  do_delete :: bool
  do_squeeze :: bool
  do_complement :: bool

definition byte_set :: "char list \<Rightarrow> bool list" where
  "byte_set s = foldl (\<lambda>t c. t[ord c := True]) (replicate 256 False) s"

definition tr_in1 :: "tr_opts \<Rightarrow> char list \<Rightarrow> bool list" where
  "tr_in1 opts s1 = (if do_complement opts then map Not (byte_set s1) else byte_set s1)"

definition xlat_plain :: "char list \<Rightarrow> char list \<Rightarrow> char list" where
  "xlat_plain s1 s2 =
     foldl (\<lambda>x i. x[ord (s1 ! i) := s2 ! (if i < length s2 then i else length s2 - 1)]) all_bytes [0..<length s1]"

definition xlat_complement :: "bool list \<Rightarrow> char list \<Rightarrow> char list" where
  "xlat_complement in1 s2 =
     fst (foldl (\<lambda>(x, j) c. if in1 ! c then (x[c := if j < length s2 then s2 ! j else s2 ! (length s2 - 1)], j + 1) else (x, j))
       (all_bytes, 0) [0..<256])"

definition tr_xlat :: "tr_opts \<Rightarrow> char list \<Rightarrow> char list \<Rightarrow> char list" where
  "tr_xlat opts s1 s2 =
     (if \<not> do_delete opts \<and> s2 \<noteq> []
      then (if do_complement opts then xlat_complement (tr_in1 opts s1) s2 else xlat_plain s1 s2)
      else all_bytes)"

definition tr_squeezed :: "tr_opts \<Rightarrow> char list \<Rightarrow> char list \<Rightarrow> bool list" where
  "tr_squeezed opts s1 s2 =
     (if do_squeeze opts
      then (if \<not> do_delete opts \<and> s2 \<noteq> [] then byte_set s2 else tr_in1 opts s1)
      else replicate 256 False)"

fun tr_go :: "tr_opts \<Rightarrow> bool list \<Rightarrow> char list \<Rightarrow> bool list \<Rightarrow> char option \<Rightarrow> char list \<Rightarrow> char list" where
  "tr_go opts in1 xlat sq last_out [] = []"
| "tr_go opts in1 xlat sq last_out (c # inp) =
     (if do_delete opts \<and> in1 ! ord c then tr_go opts in1 xlat sq last_out inp
      else let out = xlat ! ord c in
           if do_squeeze opts \<and> sq ! ord out \<and> last_out = Some out then tr_go opts in1 xlat sq last_out inp
           else out # tr_go opts in1 xlat sq (Some out) inp)"

definition run_tr :: "tr_opts \<Rightarrow> char list \<Rightarrow> char list \<Rightarrow> char list \<Rightarrow> char list" where
  "run_tr opts s1 s2 inp = tr_go opts (tr_in1 opts s1) (tr_xlat opts s1 s2) (tr_squeezed opts s1 s2) None inp"

definition tr_run :: "tr_opts \<Rightarrow> cstring \<Rightarrow> cstring option \<Rightarrow> char list \<Rightarrow> int \<times> char list" where
  "tr_run opts set1 set2 inp =
     (if \<not> do_delete opts \<and> \<not> do_squeeze opts \<and> set2 = None then (1, [])
      else (case (expand_set set1, case set2 of None \<Rightarrow> Some [] | Some t \<Rightarrow> expand_set t) of
              (Some s1, Some s2) \<Rightarrow> (0, run_tr opts s1 s2 inp)
            | _ \<Rightarrow> (1, [])))"

section \<open>cut\<close>

definition MAX_FIELDS :: nat where
  "MAX_FIELDS = 1024"

definition select_range :: "int \<Rightarrow> int \<Rightarrow> bool list \<Rightarrow> bool list" where
  "select_range n m sel = foldl (\<lambda>s i. s[i := True]) sel [nat n..<nat m + 1]"

definition list_item :: "cstring \<Rightarrow> bool list \<Rightarrow> bool list option" where
  "list_item tok sel =
     (let ok = \<lambda>v. 1 \<le> v \<and> v \<le> int MAX_FIELDS in
      if hd tok = CHR ''-''
      then (let m = atoi (tl tok) in if ok m then Some (select_range 1 m sel) else None)
      else (case split_at (CHR ''-'') (tl tok) of
              None \<Rightarrow> (let n = atoi tok in if ok n then Some (sel[nat n := True]) else None)
            | Some (a, b) \<Rightarrow>
                (let n = atoi (hd tok # a) in
                 if b = [] then (if ok n then Some (select_range n (int MAX_FIELDS) sel) else None)
                 else (let m = atoi b in if ok n \<and> ok m \<and> n \<le> m then Some (select_range n m sel) else None))))"

definition parse_list :: "cstring \<Rightarrow> bool list option" where
  "parse_list spec =
     foldl (\<lambda>sel tok. Option.bind sel (list_item tok)) (Some (replicate (MAX_FIELDS + 1) False))
       (strtok (\<lambda>c. c = CHR '','') (take 4095 spec))"

function cut_fields_go :: "char \<Rightarrow> bool list \<Rightarrow> nat \<Rightarrow> bool \<Rightarrow> cstring \<Rightarrow> cstring \<times> bool" where
  "cut_fields_go delim sel field first_out p =
     (let (text, rest) = (case split_at delim p of None \<Rightarrow> (p, None) | Some (a, b) \<Rightarrow> (a, Some b));
          pick = field \<le> MAX_FIELDS \<and> sel ! field;
          out = (if pick then (if first_out then [] else [delim]) @ text else []);
          first_out1 = (first_out \<and> \<not> pick) in
      case rest of
        None \<Rightarrow> (out, first_out1)
      | Some b \<Rightarrow> (case cut_fields_go delim sel (field + 1) first_out1 b of (o1, f) \<Rightarrow> (out @ o1, f)))"
  by pat_completeness auto
termination
  by (relation "measure (\<lambda>(delim, sel, field, first_out, p). length p)")
     (auto split: option.splits prod.splits dest!: split_at_Some)

declare cut_fields_go.simps [simp del]

definition cut_field_line :: "char \<Rightarrow> bool list \<Rightarrow> char list \<Rightarrow> cstring" where
  "cut_field_line delim sel bytes =
     (let b = c_str bytes; has_nl = (b \<noteq> [] \<and> last b = NL); t = (if has_nl then butlast b else b) in
      case cut_fields_go delim sel 1 True t of
        (out, first_out) \<Rightarrow> out @ (if \<not> first_out \<or> has_nl then [NL] else []))"

definition run_cut_fields :: "char \<Rightarrow> bool list \<Rightarrow> char list \<Rightarrow> cstring" where
  "run_cut_fields delim sel inp = concat (map (cut_field_line delim sel) (fgets_all 65536 inp))"

definition cut_char_line :: "bool list \<Rightarrow> char list \<Rightarrow> cstring" where
  "cut_char_line sel bytes =
     (let b = c_str bytes; has_nl = (b \<noteq> [] \<and> last b = NL); n = (if has_nl then length b - 1 else length b) in
      map (\<lambda>i. b ! (i - 1)) (filter (\<lambda>i. sel ! i) [1..<min n MAX_FIELDS + 1]) @ (if has_nl then [NL] else []))"

definition run_cut_chars :: "bool list \<Rightarrow> char list \<Rightarrow> cstring" where
  "run_cut_chars sel inp = concat (map (cut_char_line sel) (fgets_all 65536 inp))"

record cut_opts =
  cut_delim :: "cstring option"
  cut_fields :: "cstring option"
  cut_chars :: "cstring option"

fun each_file :: "(cstring \<Rightarrow> char list option) \<Rightarrow> (char list \<Rightarrow> cstring) \<Rightarrow> cstring list \<Rightarrow> int \<Rightarrow> int \<times> cstring" where
  "each_file files run [] ret = (ret, [])"
| "each_file files run (p # ps) ret =
     (case files p of
        None \<Rightarrow> each_file files run ps 1
      | Some bytes \<Rightarrow> (case each_file files run ps ret of (r, out) \<Rightarrow> (r, run bytes @ out)))"

definition cut_run :: "(cstring \<Rightarrow> char list option) \<Rightarrow> char list \<Rightarrow> cut_opts \<Rightarrow> cstring list \<Rightarrow> int \<times> cstring" where
  "cut_run files inp opts ps =
     (let delim = (case cut_delim opts of Some (c # t) \<Rightarrow> c | _ \<Rightarrow> TAB);
          go = \<lambda>run. if ps = [] then (0, run inp) else each_file files run ps 0 in
      case (cut_fields opts, cut_chars opts) of
        (Some l, None) \<Rightarrow> (case parse_list l of None \<Rightarrow> (1, []) | Some sel \<Rightarrow> go (run_cut_fields delim sel))
      | (None, Some l) \<Rightarrow> (case parse_list l of None \<Rightarrow> (1, []) | Some sel \<Rightarrow> go (run_cut_chars sel))
      | _ \<Rightarrow> (1, []))"

section \<open>wc\<close>

record counts =
  n_lines :: int
  n_words :: int
  n_bytes :: int

fun count_go :: "bool \<Rightarrow> counts \<Rightarrow> char list \<Rightarrow> counts" where
  "count_go in_word k [] = k"
| "count_go in_word k (c # s) =
     (let k1 = k\<lparr>n_bytes := n_bytes k + 1, n_lines := (if c = NL then n_lines k + 1 else n_lines k)\<rparr> in
      if isspace c then count_go False k1 s
      else if \<not> in_word then count_go True (k1\<lparr>n_words := n_words k1 + 1\<rparr>) s
      else count_go in_word k1 s)"

definition count_stream :: "char list \<Rightarrow> counts" where
  "count_stream s = count_go False \<lparr>n_lines = 0, n_words = 0, n_bytes = 0\<rparr> s"

record wc_opts =
  wc_lines :: bool
  wc_words :: bool
  wc_bytes :: bool

definition print_counts :: "wc_opts \<Rightarrow> counts \<Rightarrow> cstring option \<Rightarrow> cstring" where
  "print_counts opts k label =
     (let all = \<not> wc_lines opts \<and> \<not> wc_words opts \<and> \<not> wc_bytes opts;
          col = \<lambda>on v. if on \<or> all then CHR '' '' # pad_left 7 (show_int v) else [] in
      col (wc_lines opts) (n_lines k) @ col (wc_words opts) (n_words k) @ col (wc_bytes opts) (n_bytes k) @
      (case label of None \<Rightarrow> [] | Some l \<Rightarrow> CHR '' '' # l) @ [NL])"

definition add_counts :: "counts \<Rightarrow> counts \<Rightarrow> counts" where
  "add_counts a b = \<lparr>n_lines = n_lines a + n_lines b, n_words = n_words a + n_words b, n_bytes = n_bytes a + n_bytes b\<rparr>"

fun wc_files :: "(cstring \<Rightarrow> char list option) \<Rightarrow> wc_opts \<Rightarrow> cstring list \<Rightarrow> int \<Rightarrow> counts \<Rightarrow> int \<times> counts \<times> cstring" where
  "wc_files files opts [] ret t0 = (ret, t0, [])"
| "wc_files files opts (p # ps) ret t0 =
     (case files p of
        None \<Rightarrow> wc_files files opts ps 1 t0
      | Some bytes \<Rightarrow>
          (let k = count_stream bytes in
           case wc_files files opts ps ret (add_counts t0 k) of
             (r, t, out) \<Rightarrow> (r, t, print_counts opts k (Some p) @ out)))"

definition wc_run :: "(cstring \<Rightarrow> char list option) \<Rightarrow> char list \<Rightarrow> wc_opts \<Rightarrow> cstring list \<Rightarrow> int \<times> cstring" where
  "wc_run files inp opts ps =
     (if ps = [] then (0, print_counts opts (count_stream inp) None)
      else (case wc_files files opts ps 0 \<lparr>n_lines = 0, n_words = 0, n_bytes = 0\<rparr> of
              (r, t, out) \<Rightarrow> (r, out @ (if 1 < length ps then print_counts opts t (Some ''total'') else []))))"

section \<open>What the byte tables hold\<close>

lemma ord_less [simp]: "ord c < 256"
  by (metis char_of_char of_char_mod_256 mod_less_divisor zero_less_numeral)

lemma all_bytes_props [simp]: "length all_bytes = 256" "all_bytes ! ord c = c"
  by (simp_all add: all_bytes_def)

lemma set_all_bytes [simp]: "set all_bytes = UNIV"
  by (metis UNIV_eq_I all_bytes_props nth_mem ord_less)

lemma byte_set_nth: "length (byte_set s) = 256 \<and> (byte_set s ! ord c \<longleftrightarrow> c \<in> set s)"
proof -
  have "length t = 256 \<Longrightarrow> length (foldl (\<lambda>t c. t[ord c := True]) t s) = 256
      \<and> (foldl (\<lambda>t c. t[ord c := True]) t s ! ord c \<longleftrightarrow> t ! ord c \<or> c \<in> set s)" for t
    by (induction s arbitrary: t) (auto simp: nth_list_update)
  from this [of "replicate 256 False"] show ?thesis by (simp add: byte_set_def)
qed

definition last_pos :: "char \<Rightarrow> char list \<Rightarrow> nat" where
  "last_pos c s = length s - Suc (length (takeWhile (\<lambda>d. d \<noteq> c) (rev s)))"

lemma last_pos_snoc: "last_pos c (s @ [d]) = (if d = c then length s else if c \<in> set s then last_pos c s else 0)"
  using takeWhile_eq_all_conv [of "\<lambda>d. d \<noteq> c" "rev s"] by (auto simp: last_pos_def)

lemma clamp_index: "0 < n \<Longrightarrow> (if i < n then i else n - 1) = min i (n - 1)" for i n :: nat
  by auto

lemma xlat_plain_nth:
  assumes "s2 \<noteq> []"
  shows "length (xlat_plain s1 s2) = 256 \<and>
   xlat_plain s1 s2 ! ord c = (if c \<in> set s1 then s2 ! min (last_pos c s1) (length s2 - 1) else c)"
proof (induction s1 rule: rev_induct)
  case Nil
  then show ?case by (simp add: xlat_plain_def)
next
  case (snoc d s)
  let ?g = "\<lambda>i. s2 ! (if i < length s2 then i else length s2 - 1)"
  have g: "?g i = s2 ! min i (length s2 - 1)" for i using clamp_index [of "length s2" i] assms by simp
  have "foldl (\<lambda>x i. x[ord ((s @ [d]) ! i) := ?g i]) all_bytes [0..<length s] = xlat_plain s s2"
    unfolding xlat_plain_def by (rule foldl_cong) (simp_all add: nth_append)
  then have step: "xlat_plain (s @ [d]) s2 = (xlat_plain s s2)[ord d := s2 ! min (length s) (length s2 - 1)]"
    unfolding xlat_plain_def by (simp add: g)
  show ?case using snoc unfolding step last_pos_snoc by (auto simp: nth_list_update)
qed

lemma xlat_complement_nth:
  assumes "s2 \<noteq> []"
  shows "xlat_complement in1 s2 ! ord c =
     (if in1 ! ord c then s2 ! min (length (filter ((!) in1) [0..<ord c])) (length s2 - 1) else c)"
proof -
  let ?f = "\<lambda>(x, j) c. if in1 ! c then (x[c := if j < length s2 then s2 ! j else s2 ! (length s2 - 1)], j + 1) else (x, j)"
  have "k \<le> 256 \<Longrightarrow> snd (foldl ?f (all_bytes, 0) [0..<k]) = length (filter ((!) in1) [0..<k])
      \<and> length (fst (foldl ?f (all_bytes, 0) [0..<k])) = 256
      \<and> (\<forall>i<256. fst (foldl ?f (all_bytes, 0) [0..<k]) ! i =
          (if i < k \<and> in1 ! i then s2 ! min (length (filter ((!) in1) [0..<i])) (length s2 - 1) else all_bytes ! i))" for k
  proof (induction k)
    case (Suc k)
    obtain x j where "foldl ?f (all_bytes, 0) [0..<k] = (x, j)" by fastforce
    moreover have "(if j < length s2 then s2 ! j else s2 ! (length s2 - 1)) = s2 ! min j (length s2 - 1)"
      using assms by (cases "j < length s2") (simp_all add: min_absorb1 min_absorb2)
    ultimately show ?case using Suc by (auto simp: nth_list_update less_Suc_eq)
  qed simp
  from this [of 256] show ?thesis unfolding xlat_complement_def by simp
qed

section \<open>The meaning of tr\<close>

definition tr_member :: "tr_opts \<Rightarrow> char list \<Rightarrow> char \<Rightarrow> bool" where
  "tr_member opts s1 c \<longleftrightarrow> (c \<in> set s1) \<noteq> do_complement opts"

definition tr_image :: "tr_opts \<Rightarrow> char list \<Rightarrow> char list \<Rightarrow> char \<Rightarrow> char" where
  "tr_image opts s1 s2 c =
     (if do_delete opts \<or> s2 = [] \<or> \<not> tr_member opts s1 c then c
      else s2 ! min (if do_complement opts then length (filter (\<lambda>d. d \<notin> set s1) (take (ord c) all_bytes)) else last_pos c s1)
             (length s2 - 1))"

definition tr_squeezes :: "tr_opts \<Rightarrow> char list \<Rightarrow> char list \<Rightarrow> char \<Rightarrow> bool" where
  "tr_squeezes opts s1 s2 c \<longleftrightarrow>
     do_squeeze opts \<and> (if \<not> do_delete opts \<and> s2 \<noteq> [] then c \<in> set s2 else tr_member opts s1 c)"

fun drop_repeats :: "(char \<Rightarrow> bool) \<Rightarrow> char list \<Rightarrow> char list" where
  "drop_repeats P (x # y # s) = (if x = y \<and> P x then drop_repeats P (y # s) else x # drop_repeats P (y # s))"
| "drop_repeats P s = s"

lemma tr_in1_nth: "tr_in1 opts s1 ! ord c \<longleftrightarrow> tr_member opts s1 c"
  using byte_set_nth [of s1 c] by (simp add: tr_in1_def tr_member_def)

lemma tr_xlat_nth: "tr_xlat opts s1 s2 ! ord c = tr_image opts s1 s2 c"
proof -
  have "filter ((!) (tr_in1 opts s1)) [0..<ord c] = map ord (filter (tr_member opts s1) (take (ord c) all_bytes))"
  proof -
    have "[0..<ord c] = map ord (take (ord c) all_bytes)"
    proof (rule nth_equalityI)
      fix i assume "i < length [0..<ord c]"
      moreover from this have "i < 256" by (auto intro: less_trans [OF _ ord_less])
      ultimately show "[0..<ord c] ! i = map ord (take (ord c) all_bytes) ! i" by (simp add: all_bytes_def)
    qed (simp add: less_imp_le)
    then show ?thesis by (simp add: filter_map comp_def tr_in1_nth)
  qed
  then have "length (filter ((!) (tr_in1 opts s1)) [0..<ord c]) = length (filter (tr_member opts s1) (take (ord c) all_bytes))"
    by simp
  then show ?thesis
    using xlat_complement_nth [of s2 "tr_in1 opts s1" c] xlat_plain_nth [of s2 s1 c]
    by (auto simp: tr_xlat_def tr_image_def tr_in1_nth tr_member_def cong: filter_cong)
qed

lemma tr_squeezed_nth: "tr_squeezed opts s1 s2 ! ord c \<longleftrightarrow> tr_squeezes opts s1 s2 c"
  using byte_set_nth [of s2 c] by (simp add: tr_squeezed_def tr_squeezes_def tr_in1_nth)

lemma tr_go_squeezes:
  assumes "\<And>c. in1 ! ord c \<longleftrightarrow> M c" "\<And>c. xlat ! ord c = X c" "\<And>c. do_squeeze opts \<and> sq ! ord c \<longleftrightarrow> P c"
  shows "l # tr_go opts in1 xlat sq (Some l) inp = drop_repeats P (l # map X (filter (\<lambda>c. \<not> (do_delete opts \<and> M c)) inp))"
  by (induction inp arbitrary: l) (auto simp: assms(1,2) assms(3) [symmetric] Let_def)

lemma tr_go_starts:
  assumes "\<And>c. in1 ! ord c \<longleftrightarrow> M c" "\<And>c. xlat ! ord c = X c" "\<And>c. do_squeeze opts \<and> sq ! ord c \<longleftrightarrow> P c"
  shows "tr_go opts in1 xlat sq None inp = drop_repeats P (map X (filter (\<lambda>c. \<not> (do_delete opts \<and> M c)) inp))"
proof (induction inp)
  case (Cons c inp)
  then show ?case using tr_go_squeezes [where opts = opts and P = P, OF assms] assms(1,2) by (simp add: Let_def)
qed simp

lemma run_tr_meaning:
  "run_tr opts s1 s2 inp =
     drop_repeats (tr_squeezes opts s1 s2) (map (tr_image opts s1 s2) (filter (\<lambda>c. \<not> (do_delete opts \<and> tr_member opts s1 c)) inp))"
  unfolding run_tr_def
  by (rule tr_go_starts) (simp_all add: tr_in1_nth tr_xlat_nth tr_squeezed_nth tr_squeezes_def)

text \<open>C29: The byte tables of tr compute, on any input and for every combination of options, deletion,
  translation and squeezing as they are defined on sets.\<close>

theorem tr_meaning:
  "run_tr opts s1 s2 inp =
     drop_repeats (tr_squeezes opts s1 s2) (map (tr_image opts s1 s2) (filter (\<lambda>c. \<not> (do_delete opts \<and> tr_member opts s1 c)) inp))"
  by (rule run_tr_meaning)

lemma expand_go_length: "set_go p out = Some s \<Longrightarrow> length out \<le> 256 \<Longrightarrow> length s \<le> 256"
proof (induction p out rule: set_go.induct)
  case (1 p out)
  note eq = "1.prems"(1) [unfolded set_go.simps [of p out]]
  consider (stop) "p = [] \<or> 256 \<le> length out"
    | (clas) k where "\<not> (p = [] \<or> 256 \<le> length out)" "prefix ''[:'' p" "strstr (drop 2 p) '':]'' = Some k" "\<not> 32 \<le> k"
    | (esc) "\<not> (p = [] \<or> 256 \<le> length out)" "\<not> prefix ''[:'' p" "hd p = BSLASH \<and> 2 \<le> length p"
    | (range) "\<not> (p = [] \<or> 256 \<le> length out)" "\<not> prefix ''[:'' p" "\<not> (hd p = BSLASH \<and> 2 \<le> length p)" "3 \<le> length p \<and> p ! 1 = CHR ''-''"
    | (lit) "\<not> (p = [] \<or> 256 \<le> length out)" "\<not> prefix ''[:'' p" "\<not> (hd p = BSLASH \<and> 2 \<le> length p)" "\<not> (3 \<le> length p \<and> p ! 1 = CHR ''-'')"
    using eq by (auto split: option.splits if_splits)
  then show ?case
  proof cases
    case stop
    then show ?thesis using eq "1.prems"(2) by simp
  next
    case clas
    then have "set_go (drop (k + 4) p) (take 256 (out @ filter (class_test (take k (drop 2 p))) all_bytes)) = Some s"
      using eq by simp
    then show ?thesis by (rule "1.IH"(1) [OF clas]) simp
  next
    case esc
    then show ?thesis using "1.IH"(2) [OF esc] eq by simp
  next
    case range
    then have "set_go (drop 3 p) (if ord (hd p) \<le> ord (p ! 2)
        then take 256 (out @ map char_of [ord (hd p)..<ord (p ! 2) + 1]) else out @ [hd p]) = Some s"
      using eq by (simp add: Let_def)
    then show ?thesis by (rule "1.IH"(3) [OF range refl refl]) (use range(1) in auto)
  next
    case lit
    then have "set_go (tl p) (out @ [hd p]) = Some s" using eq by (simp only: if_False)
    then show ?thesis by (rule "1.IH"(4) [OF lit]) (use lit(1) in auto)
  qed
qed

theorem expand_set_fits:
  assumes "expand_set spec = Some s"
  shows "length s \<le> 256"
  using expand_go_length [of spec "[]" s] assms by (simp add: expand_set_def)

lemma drop_repeats_none: "(\<And>c. \<not> P c) \<Longrightarrow> drop_repeats P s = s"
  by (induction P s rule: drop_repeats.induct) auto

definition plain_tr :: tr_opts where
  "plain_tr = \<lparr>do_delete = False, do_squeeze = False, do_complement = False\<rparr>"

lemma filter_bytes:
  assumes "a \<le> b" "b \<le> 256" "\<And>c. P c \<longleftrightarrow> a \<le> ord c \<and> ord c < b"
  shows "filter P all_bytes = map char_of [a..<b]"
proof -
  have "[0..<256] = [0..<a] @ [a..<b] @ [b..<256]"
    using assms(1,2) upt_add_eq_append [of 0 a "256 - a"] upt_add_eq_append [of a b "256 - b"] by simp
  moreover have "filter (\<lambda>k. a \<le> k \<and> k < b) [0..<a] = []" "filter (\<lambda>k. a \<le> k \<and> k < b) [b..<256] = []"
    "filter (\<lambda>k. a \<le> k \<and> k < b) [a..<b] = [a..<b]" by (auto simp: filter_empty_conv filter_id_conv)
  ultimately have "filter (\<lambda>k. a \<le> k \<and> k < b) [0..<256] = [a..<b]" by simp
  moreover have "filter (P \<circ> char_of) [0..<256] = filter (\<lambda>k. a \<le> k \<and> k < b) [0..<256]"
    by (rule filter_cong) (simp_all add: assms(3))
  ultimately show ?thesis by (simp add: all_bytes_def filter_map del: upt_rec_numeral)
qed

theorem tr_to_upper:
  "tr_run plain_tr ''[:lower:]'' (Some ''[:upper:]'') inp = (0, map toupper inp)"
proof -
  let ?lo = "''abcdefghijklmnopqrstuvwxyz''" and ?up = "''ABCDEFGHIJKLMNOPQRSTUVWXYZ''"
  have "filter islower all_bytes = map char_of [97..<123::nat]" "filter isupper all_bytes = map char_of [65..<91::nat]"
    by (rule filter_bytes; auto simp: islower_def isupper_def)+
  then have classes: "filter islower all_bytes = ?lo" "filter isupper all_bytes = ?up" by (simp_all add: char_of_eq_iff)
  have sets: "expand_set ''[:lower:]'' = Some ?lo" "expand_set ''[:upper:]'' = Some ?up"
    by (simp_all add: expand_set_def set_go.simps class_test_def classes)
  have "list_all (\<lambda>c. tr_image plain_tr ?lo ?up c = toupper c) ?lo" by code_simp
  moreover have "islower c \<longleftrightarrow> c \<in> set ?lo" for c unfolding classes(1) [symmetric] by simp
  ultimately have image: "tr_image plain_tr ?lo ?up = toupper"
    by (auto simp: list_all_iff fun_eq_iff tr_image_def tr_member_def plain_tr_def toupper_def)
  have "run_tr plain_tr ?lo ?up inp = map toupper inp"
    unfolding run_tr_meaning image by (simp add: plain_tr_def drop_repeats_none tr_squeezes_def)
  then show ?thesis unfolding tr_run_def option.case sets by (simp add: plain_tr_def)
qed

section \<open>The meaning of cut\<close>

datatype item = One nat | Upto nat | From nat | Between nat nat

fun item_text :: "item \<Rightarrow> cstring" where
  "item_text (One n) = show_nat n"
| "item_text (Upto m) = CHR ''-'' # show_nat m"
| "item_text (From n) = show_nat n @ ''-''"
| "item_text (Between n m) = show_nat n @ CHR ''-'' # show_nat m"

fun item_ok :: "item \<Rightarrow> bool" where
  "item_ok (One n) \<longleftrightarrow> 1 \<le> n \<and> n \<le> MAX_FIELDS"
| "item_ok (Upto m) \<longleftrightarrow> 1 \<le> m \<and> m \<le> MAX_FIELDS"
| "item_ok (From n) \<longleftrightarrow> 1 \<le> n \<and> n \<le> MAX_FIELDS"
| "item_ok (Between n m) \<longleftrightarrow> 1 \<le> n \<and> n \<le> m \<and> m \<le> MAX_FIELDS"

fun item_covers :: "nat \<Rightarrow> item \<Rightarrow> bool" where
  "item_covers i (One n) \<longleftrightarrow> i = n"
| "item_covers i (Upto m) \<longleftrightarrow> 1 \<le> i \<and> i \<le> m"
| "item_covers i (From n) \<longleftrightarrow> n \<le> i \<and> i \<le> MAX_FIELDS"
| "item_covers i (Between n m) \<longleftrightarrow> n \<le> i \<and> i \<le> m"

lemma select_range_nth:
  assumes "length sel = MAX_FIELDS + 1" "i \<le> MAX_FIELDS" "0 \<le> n" "0 \<le> m"
  shows "length (select_range n m sel) = MAX_FIELDS + 1
    \<and> (select_range n m sel ! i \<longleftrightarrow> sel ! i \<or> n \<le> int i \<and> int i \<le> m)"
proof -
  have "length (foldl (\<lambda>s i. s[i := True]) s ks) = length s
      \<and> (i < length s \<longrightarrow> (foldl (\<lambda>s i. s[i := True]) s ks ! i \<longleftrightarrow> s ! i \<or> i \<in> set ks))" for s ks
  proof (induction ks arbitrary: s)
    case (Cons a ks)
    then show ?case by (cases "a = i") auto
  qed simp
  from this [of sel "[nat n..<nat m + 1]"] show ?thesis
    using assms unfolding select_range_def by auto
qed

lemma atoi_show_nat: "n \<le> MAX_FIELDS \<Longrightarrow> atoi (show_nat n) = int n"
  using atoi_show_int [of "int n"] by (simp add: show_int_def MAX_FIELDS_def)

lemma show_nat_chars: "show_nat n = hd (show_nat n) # tl (show_nat n)" "CHR ''-'' \<notin> set (show_nat n)" "CHR '','' \<notin> set (show_nat n)"
  using show_nat_digits [of "CHR ''-''" n] show_nat_digits [of "CHR '',''" n] by (auto simp: isdigit_def)

lemma split_show_nat:
  "split_at (CHR ''-'') (tl (show_nat n)) = None"
  "split_at (CHR ''-'') (tl (show_nat n) @ CHR ''-'' # t) = Some (tl (show_nat n), t)"
  "hd (show_nat n) \<noteq> CHR ''-''"
proof -
  obtain c u where "show_nat n = c # u" by (cases "show_nat n") simp_all
  then have "CHR ''-'' \<notin> set (tl (show_nat n))" "hd (show_nat n) \<noteq> CHR ''-''" using show_nat_chars(2) [of n] by auto
  then show "split_at (CHR ''-'') (tl (show_nat n)) = None"
    "split_at (CHR ''-'') (tl (show_nat n) @ CHR ''-'' # t) = Some (tl (show_nat n), t)"
    "hd (show_nat n) \<noteq> CHR ''-''" by (simp_all add: split_at_None)
qed

lemma list_item_reads:
  assumes "length sel = MAX_FIELDS + 1" "item_ok r"
  shows "\<exists>sel1. list_item (item_text r) sel = Some sel1 \<and> length sel1 = MAX_FIELDS + 1
    \<and> (\<forall>i\<le>MAX_FIELDS. sel1 ! i \<longleftrightarrow> sel ! i \<or> item_covers i r)"
proof (cases r)
  case (One n)
  then show ?thesis
    using assms by (auto simp: list_item_def split_show_nat atoi_show_nat Let_def nth_list_update)
next
  case (Upto m)
  then show ?thesis using assms select_range_nth [OF assms(1), of _ 1 "int m"]
    by (auto simp: list_item_def atoi_show_nat Let_def)
next
  case (From n)
  then show ?thesis using assms select_range_nth [OF assms(1), of _ "int n" "int MAX_FIELDS"]
    by (auto simp: list_item_def split_show_nat atoi_show_nat Let_def)
next
  case (Between n m)
  then show ?thesis using assms select_range_nth [OF assms(1), of _ "int n" "int m"]
    by (auto simp: list_item_def split_show_nat atoi_show_nat Let_def)
qed

lemma parse_list_items:
  assumes "list_all item_ok rs" "length (joined '','' (map item_text rs)) \<le> 4095"
  shows "\<exists>sel. parse_list (joined '','' (map item_text rs)) = Some sel
    \<and> (\<forall>i\<le>MAX_FIELDS. sel ! i \<longleftrightarrow> list_ex (item_covers i) rs)"
proof -
  have "list_all (\<lambda>t. t \<noteq> [] \<and> list_all (\<lambda>c. \<not> c = CHR '','') t) (map item_text rs)"
  proof -
    have "item_text r \<noteq> [] \<and> CHR '','' \<notin> set (item_text r)" for r by (cases r) (simp_all add: show_nat_chars(3))
    then show ?thesis unfolding list_all_iff by auto
  qed
  then have toks: "strtok (\<lambda>c. c = CHR '','') (take 4095 (joined '','' (map item_text rs))) = map item_text rs"
    using strtok_joined [of "\<lambda>c. c = CHR '',''" "CHR '',''"] assms(2) by simp
  have "length sel = MAX_FIELDS + 1 \<Longrightarrow>
      \<exists>sel1. foldl (\<lambda>sel tok. Option.bind sel (list_item tok)) (Some sel) (map item_text rs) = Some sel1
        \<and> (\<forall>i\<le>MAX_FIELDS. sel1 ! i \<longleftrightarrow> sel ! i \<or> list_ex (item_covers i) rs)" for sel
    using assms(1)
  proof (induction rs arbitrary: sel)
    case (Cons r rs)
    from list_item_reads [OF Cons.prems(1)] Cons.prems(2) obtain sel1
      where "list_item (item_text r) sel = Some sel1" "length sel1 = MAX_FIELDS + 1"
        "\<forall>i\<le>MAX_FIELDS. sel1 ! i \<longleftrightarrow> sel ! i \<or> item_covers i r" by auto
    then show ?case using Cons.IH [of sel1] Cons.prems(2) by auto
  qed simp
  from this [of "replicate (MAX_FIELDS + 1) False"] show ?thesis
    unfolding parse_list_def toks by (auto simp del: replicate.simps simp: nth_append less_Suc_eq_le)
qed

theorem cut_list_selects:
  assumes "list_all item_ok rs" "length (joined '','' (map item_text rs)) \<le> 4095"
  shows "\<exists>sel. parse_list (joined '','' (map item_text rs)) = Some sel
    \<and> (\<forall>i\<le>MAX_FIELDS. sel ! i \<longleftrightarrow> list_ex (item_covers i) rs)"
  by (rule parse_list_items [OF assms])

theorem cut_list_selects_witness:
  "\<exists>sel. parse_list (joined '','' (map item_text [Between 2 3, From 7])) = Some sel \<and> sel ! 3 \<and> \<not> sel ! 5"
proof -
  have "\<exists>sel. parse_list (joined '','' (map item_text [Between 2 3, From 7])) = Some sel
      \<and> (\<forall>i\<le>MAX_FIELDS. sel ! i \<longleftrightarrow> list_ex (item_covers i) [Between 2 3, From 7])"
    by (rule cut_list_selects) (simp_all add: MAX_FIELDS_def show_nat.simps)
  moreover have "3 \<le> MAX_FIELDS" "5 \<le> MAX_FIELDS" by (simp_all add: MAX_FIELDS_def)
  ultimately show ?thesis by fastforce
qed

definition picked :: "bool list \<Rightarrow> nat \<Rightarrow> cstring list \<Rightarrow> cstring list" where
  "picked sel k fs = map snd (filter (\<lambda>(i, f). i \<le> MAX_FIELDS \<and> sel ! i) (enumerate k fs))"

lemma picked_simps [simp]:
  "picked sel k [] = []"
  "picked sel k (f # fs) = (if k \<le> MAX_FIELDS \<and> sel ! k then [f] else []) @ picked sel (Suc k) fs"
  by (simp_all add: picked_def)

lemma cut_fields_go_picks:
  "fs \<noteq> [] \<Longrightarrow> list_all (\<lambda>f. d \<notin> set f) fs \<Longrightarrow>
   cut_fields_go d sel k first_out (joined [d] fs) =
     (if picked sel k fs = [] then ([], first_out)
      else ((if first_out then [] else [d]) @ joined [d] (picked sel k fs), False))"
proof (induction "[d]" fs arbitrary: k first_out rule: joined.induct)
  case (2 f)
  then show ?case by (subst cut_fields_go.simps) (simp add: split_at_None [THEN iffD2] Let_def)
next
  case (3 f g fs)
  then have IH: "cut_fields_go d sel (Suc k) fo (joined [d] (g # fs)) =
      (if picked sel (Suc k) (g # fs) = [] then ([], fo)
       else ((if fo then [] else [d]) @ joined [d] (picked sel (Suc k) (g # fs)), False))" for fo
    by simp
  have split: "split_at d (joined [d] (f # g # fs)) = Some (f, joined [d] (g # fs))" using 3 by simp
  define P where "P = picked sel (Suc k) (g # fs)"
  have "picked sel k (f # g # fs) = (if k \<le> MAX_FIELDS \<and> sel ! k then [f] else []) @ P"
    unfolding P_def by (rule picked_simps(2))
  then show ?case
    using IH [folded P_def] unfolding cut_fields_go.simps [of d sel k first_out] Let_def split
    by (simp add: joined_Cons)
qed simp

definition row_ok :: "char \<Rightarrow> cstring list \<Rightarrow> bool" where
  "row_ok d fs \<longleftrightarrow> fs \<noteq> [] \<and> list_all (\<lambda>f. d \<notin> set f) fs
     \<and> NL \<notin> set (joined [d] fs) \<and> NUL \<notin> set (joined [d] fs) \<and> length (joined [d] fs) + 2 \<le> 65536"

theorem cut_prints_fields:
  assumes "list_all (row_ok d) rows"
  shows "run_cut_fields d sel (concat (map (\<lambda>fs. joined [d] fs @ [NL]) rows)) =
    concat (map (\<lambda>fs. joined [d] (picked sel 1 fs) @ [NL]) rows)"
proof -
  have "cut_field_line d sel (joined [d] fs @ [NL]) = joined [d] (picked sel 1 fs) @ [NL]" if "row_ok d fs" for fs
  proof -
    have "c_str (joined [d] fs @ [NL]) = joined [d] fs @ [NL]"
      using that by (intro c_str_id) (simp add: row_ok_def shell_defs)
    then show ?thesis
      using that cut_fields_go_picks [of fs d sel 1 True] by (simp add: cut_field_line_def row_ok_def Let_def)
  qed
  moreover have "fgets_all 65536 (concat (map (\<lambda>l. l @ [NL]) (map (joined [d]) rows))) = map (\<lambda>l. l @ [NL]) (map (joined [d]) rows)"
    using assms by (intro fgets_all_terminated) (simp add: list_all_iff row_ok_def)
  moreover from calculation(1) have "concat (map (\<lambda>fs. cut_field_line d sel (joined [d] fs @ [NL])) rows)
      = concat (map (\<lambda>fs. joined [d] (picked sel 1 fs) @ [NL]) rows)"
    using assms by (intro arg_cong [where f = concat] map_cong) (simp_all add: list_all_iff)
  ultimately show ?thesis by (simp only: run_cut_fields_def map_map comp_def)
qed

theorem cut_prints_fields_witness:
  "run_cut_fields (CHR '':'') (replicate 5 True) (concat (map (\<lambda>fs. joined '':'' fs @ [NL]) [[''a'', ''b''], [''c'']])) =
    concat (map (\<lambda>fs. joined '':'' (picked (replicate 5 True) 1 fs) @ [NL]) [[''a'', ''b''], [''c'']])"
  by (rule cut_prints_fields) (simp add: row_ok_def shell_defs)

section \<open>The meaning of wc\<close>

lemma count_go_words:
  "count_go (cur \<noteq> []) k s =
     \<lparr>n_lines = n_lines k + int (length (filter (\<lambda>c. c = NL) s)),
      n_words = n_words k + int (length (tok_go isspace cur s)) - (if cur = [] then 0 else 1),
      n_bytes = n_bytes k + int (length s)\<rparr>"
proof (induction s arbitrary: cur k)
  case (Cons c s)
  show ?case
  proof (cases "isspace c")
    case True
    then show ?thesis using Cons [of "[]"] by (simp add: Let_def)
  next
    case False
    then show ?thesis using Cons [of "c # cur"] by (auto simp: Let_def)
  qed
qed simp

theorem wc_counts:
  "count_stream s = \<lparr>n_lines = int (length (filter (\<lambda>c. c = NL) s)), n_words = int (length (strtok isspace s)),
     n_bytes = int (length s)\<rparr>"
  using count_go_words [of "[]" _ s] by (simp add: count_stream_def strtok_def)

section \<open>Where the code departs from its comments\<close>

lemma invalid_range_drops_end: "expand_set ''z-a'' = Some ''z''"
  by (simp add: expand_set_def set_go.simps shell_defs)

end
