(* ===== verification/Line_Tools.thy ===== *)
theory Line_Tools
  imports Prelude "HOL-Library.Multiset"
begin

text \<open>
  The commands \<open>uniq\<close>, \<open>head\<close>, \<open>tail\<close> and \<open>sort\<close> (\<^verbatim>\<open>cmd_uniq.c\<close>, \<^verbatim>\<open>cmd_head.c\<close>, \<^verbatim>\<open>cmd_tail.c\<close>,
  \<^verbatim>\<open>cmd_sort.c\<close>) after their options are parsed. Two parts of the C library are parameters of
  \<open>sort\<close>: \<open>strtod\<close>, as a map into a linear order (numbers that are not NaN), and the order in which
  \<open>qsort\<close> leaves its array, of which only what the C standard says is used. Counters are not
  wrapped: an input has fewer than \<open>2 ^ 31\<close> lines. The standard error is left out.

  The lemmas show what each command prints: \<open>uniq\<close> the groups of equal lines, \<open>head\<close> and \<open>tail\<close> two
  parts of the file, \<open>sort\<close> an ordered arrangement of the lines it read.
\<close>

section \<open>uniq\<close>

record uniq_opts =
  do_count :: bool
  do_repeated :: bool
  do_unique :: bool
  do_icase :: bool

definition uniq_same :: "uniq_opts \<Rightarrow> cstring \<Rightarrow> cstring \<Rightarrow> bool" where
  "uniq_same opts a b \<longleftrightarrow> (if do_icase opts then map tolower a = map tolower b else a = b)"

definition uniq_emit :: "uniq_opts \<Rightarrow> int \<Rightarrow> cstring \<Rightarrow> cstring" where
  "uniq_emit opts n prev =
     (if \<not> do_repeated opts \<and> \<not> do_unique opts \<or> do_repeated opts \<and> 1 < n \<or> do_unique opts \<and> n = 1
      then (if do_count opts then pad_left 7 (show_int n) @ '' '' @ prev else prev) else [])"

fun uniq_go :: "uniq_opts \<Rightarrow> (cstring \<times> int) option \<Rightarrow> cstring list \<Rightarrow> cstring" where
  "uniq_go opts None [] = []"
| "uniq_go opts (Some (prev, n)) [] = uniq_emit opts n prev"
| "uniq_go opts None (b # bs) = uniq_go opts (Some (b, 1)) bs"
| "uniq_go opts (Some (prev, n)) (b # bs) =
     (if uniq_same opts prev b then uniq_go opts (Some (prev, n + 1)) bs
      else uniq_emit opts n prev @ uniq_go opts (Some (b, 1)) bs)"

definition run_uniq :: "uniq_opts \<Rightarrow> char list \<Rightarrow> cstring" where
  "run_uniq opts inp = uniq_go opts None (map c_str (fgets_all 8192 inp))"

definition uniq_run :: "(cstring \<Rightarrow> char list option) \<Rightarrow> char list \<Rightarrow> uniq_opts \<Rightarrow> cstring option \<Rightarrow> int \<times> cstring" where
  "uniq_run files inp opts path = (case path of
      None \<Rightarrow> (0, run_uniq opts inp)
    | Some p \<Rightarrow> (case files p of None \<Rightarrow> (1, []) | Some bytes \<Rightarrow> (0, run_uniq opts bytes)))"

section \<open>head\<close>

fun head_argv :: "cstring list \<Rightarrow> cstring list" where
  "head_argv [] = []"
| "head_argv (a # as) =
     (if 2 \<le> length a \<and> hd a = CHR ''-'' \<and> isdigit (a ! 1) then ''-n'' # tl a # head_argv as else a # head_argv as)"

fun head_go :: "int \<Rightarrow> char list list \<Rightarrow> cstring" where
  "head_go n [] = []"
| "head_go n (l # ls) = (if 0 < n then c_str l @ head_go (n - 1) ls else [])"

definition file_header :: "cstring \<Rightarrow> cstring" where
  "file_header path = ''==> '' @ path @ '' <=='' @ [NL]"

text \<open>The loop over the files, as \<open>head\<close> and \<open>tail\<close> have it; \<open>print\<close> is what each prints of a file.\<close>

fun show_files :: "(char list \<Rightarrow> cstring) \<Rightarrow> (cstring \<Rightarrow> char list option) \<Rightarrow> bool \<Rightarrow> cstring list \<Rightarrow> int \<Rightarrow> int \<times> cstring" where
  "show_files print files show_header [] ret = (ret, [])"
| "show_files print files show_header (p # ps) ret =
     (case files p of
        None \<Rightarrow> show_files print files show_header ps 1
      | Some bytes \<Rightarrow>
          (case show_files print files show_header ps ret of
             (r, out) \<Rightarrow>
               (r, (if show_header then file_header p else []) @ print bytes @
                   (if ps \<noteq> [] \<and> show_header then [NL] else []) @ out)))"

definition head_run :: "(cstring \<Rightarrow> char list option) \<Rightarrow> char list \<Rightarrow> int option \<Rightarrow> cstring list \<Rightarrow> int \<times> cstring" where
  "head_run files inp lines ps =
     (let n = (case lines of None \<Rightarrow> 10 | Some v \<Rightarrow> v) in
      if n < 0 then (1, [])
      else if ps = [] then (0, head_go n (getlines inp))
      else show_files (\<lambda>bytes. head_go n (getlines bytes)) files (1 < length ps) ps 0)"

section \<open>tail\<close>

text \<open>The circular buffer: its slots and the number of lines read.\<close>

definition tail_store :: "int \<Rightarrow> cstring option list \<times> int \<Rightarrow> char list \<Rightarrow> cstring option list \<times> int" where
  "tail_store n s l = (case s of (buf, seen) \<Rightarrow> (buf[nat (seen mod n) := Some (c_str l)], seen + 1))"

definition print_tail :: "int \<Rightarrow> char list \<Rightarrow> cstring" where
  "print_tail n inp =
     (if n \<le> 0 then []
      else (case foldl (tail_store n) (replicate (nat n) None, 0) (getlines inp) of
              (buf, seen) \<Rightarrow>
                (let stored = (if seen < n then seen else n); start = (if seen < n then 0 else seen mod n) in
                 concat (map (\<lambda>i. case buf ! nat ((start + i) mod n) of None \<Rightarrow> [] | Some l \<Rightarrow> l) [0..stored - 1]))))"

definition tail_run :: "(cstring \<Rightarrow> char list option) \<Rightarrow> int option \<Rightarrow> cstring list \<Rightarrow> int \<times> cstring" where
  "tail_run files lines ps =
     (let n = (case lines of None \<Rightarrow> 10 | Some v \<Rightarrow> v) in
      if n < 0 then (1, []) else show_files (print_tail n) files (1 < length ps) ps 0)"

section \<open>sort\<close>

definition skip_field :: "cstring \<Rightarrow> cstring" where
  "skip_field p = dropWhile isspace (dropWhile (\<lambda>c. \<not> isspace c) p)"

fun field_go :: "nat \<Rightarrow> cstring \<Rightarrow> cstring option" where
  "field_go 0 p = (if p = [] then None else Some p)"
| "field_go (Suc k) p = (if skip_field p = [] then None else field_go k (skip_field p))"

definition field_start :: "cstring \<Rightarrow> int \<Rightarrow> cstring option" where
  "field_start line k = field_go (nat (k - 1)) (dropWhile isspace line)"

fun strcmp :: "cstring \<Rightarrow> cstring \<Rightarrow> int" where
  "strcmp [] [] = 0"
| "strcmp [] (d # ds) = -1"
| "strcmp (c # cs) [] = 1"
| "strcmp (c # cs) (d # ds) = (if c = d then strcmp cs ds else if ord c < ord d then -1 else 1)"

record sort_opts =
  do_reverse :: bool
  do_numeric :: bool
  sort_key :: int
  do_unique_lines :: bool

definition sort_field :: "sort_opts \<Rightarrow> cstring \<Rightarrow> cstring" where
  "sort_field opts l = (if 0 < sort_key opts then (case field_start l (sort_key opts) of None \<Rightarrow> [] | Some f \<Rightarrow> f) else l)"

definition sort_cmp :: "(cstring \<Rightarrow> 'n::linorder) \<Rightarrow> sort_opts \<Rightarrow> cstring \<Rightarrow> cstring \<Rightarrow> int" where
  "sort_cmp strtod opts la lb =
     (let fa = sort_field opts la; fb = sort_field opts lb;
          cmp = (if do_numeric opts
                 then (let da = strtod fa; db = strtod fb in (if db < da then 1 else 0) - (if da < db then 1 else 0))
                 else strcmp fa fb)
      in if do_reverse opts then - cmp else cmp)"

fun sort_files :: "(cstring \<Rightarrow> char list option) \<Rightarrow> cstring list \<Rightarrow> int \<Rightarrow> int \<times> cstring list" where
  "sort_files files [] ret = (ret, [])"
| "sort_files files (p # ps) ret =
     (case files p of
        None \<Rightarrow> sort_files files ps 1
      | Some bytes \<Rightarrow>
          (case sort_files files ps ret of (r, ls) \<Rightarrow> (r, map c_str (fgets_all 8192 bytes) @ ls)))"

definition sort_input :: "(cstring \<Rightarrow> char list option) \<Rightarrow> char list \<Rightarrow> cstring list \<Rightarrow> int \<times> cstring list" where
  "sort_input files inp ps = (if ps = [] then (0, map c_str (fgets_all 8192 inp)) else sort_files files ps 0)"

fun sort_print :: "(cstring \<Rightarrow> cstring \<Rightarrow> int) \<Rightarrow> bool \<Rightarrow> cstring option \<Rightarrow> cstring list \<Rightarrow> cstring list" where
  "sort_print cmp uniq prev [] = []"
| "sort_print cmp uniq prev (l # ls) =
     (case prev of
        Some p \<Rightarrow> if uniq \<and> cmp l p = 0 then sort_print cmp uniq prev ls else l # sort_print cmp uniq (Some l) ls
      | None \<Rightarrow> l # sort_print cmp uniq (Some l) ls)"

text \<open>What the C standard says of the array after \<open>qsort\<close>.\<close>

definition qsort_leaves :: "('a \<Rightarrow> 'a \<Rightarrow> int) \<Rightarrow> 'a list \<Rightarrow> 'a list \<Rightarrow> bool" where
  "qsort_leaves cmp xs ys \<longleftrightarrow> mset ys = mset xs \<and> sorted_wrt (\<lambda>a b. cmp a b \<le> 0) ys"

definition sort_run :: "((cstring \<Rightarrow> cstring \<Rightarrow> int) \<Rightarrow> cstring list \<Rightarrow> cstring list) \<Rightarrow> (cstring \<Rightarrow> 'n::linorder)
    \<Rightarrow> (cstring \<Rightarrow> char list option) \<Rightarrow> char list \<Rightarrow> sort_opts \<Rightarrow> cstring list \<Rightarrow> int \<times> cstring" where
  "sort_run qsort strtod files inp opts ps =
     (case sort_input files inp ps of
        (ret, ls) \<Rightarrow> (ret, concat (sort_print (sort_cmp strtod opts) (do_unique_lines opts) None (qsort (sort_cmp strtod opts) ls))))"


section \<open>uniq prints groups\<close>

function groups :: "('a \<Rightarrow> 'a \<Rightarrow> bool) \<Rightarrow> 'a list \<Rightarrow> ('a \<times> nat) list" where
  "groups eq [] = []"
| "groups eq (x # xs) = (x, Suc (length (takeWhile (eq x) xs))) # groups eq (dropWhile (eq x) xs)"
  by pat_completeness auto
termination by (relation "measure (\<lambda>(eq, xs). length xs)") (auto simp: less_Suc_eq_le length_dropWhile_le)

lemma uniq_go_groups:
  "uniq_go opts (Some (prev, n)) bs =
     uniq_emit opts (n + int (length (takeWhile (uniq_same opts prev) bs))) prev @
     concat (map (\<lambda>(l, k). uniq_emit opts (int k) l) (groups (uniq_same opts) (dropWhile (uniq_same opts prev) bs)))"
proof (induction bs arbitrary: prev n)
  case (Cons b bs)
  show ?case
  proof (cases "uniq_same opts prev b")
    case True
    then show ?thesis using Cons [of prev "n + 1"] by (simp add: algebra_simps)
  next
    case False
    then show ?thesis using Cons [of b 1] by simp
  qed
qed simp

lemma run_uniq_groups:
  "run_uniq opts inp =
     concat (map (\<lambda>(l, k). uniq_emit opts (int k) l) (groups (uniq_same opts) (map c_str (fgets_all 8192 inp))))"
proof (cases "map c_str (fgets_all 8192 inp)")
  case (Cons b bs)
  then show ?thesis using uniq_go_groups [of opts b 1 bs] by (simp add: run_uniq_def)
qed (simp add: run_uniq_def)

lemma groups_remdups_adj: "map fst (groups (=) xs) = remdups_adj xs"
proof (induction "(=) :: 'a \<Rightarrow> 'a \<Rightarrow> bool" xs rule: groups.induct)
  case (2 x xs)
  have "remdups_adj (x # xs) = x # remdups_adj (dropWhile ((=) x) xs)"
    by (induction xs) auto
  then show ?case using 2 by simp
qed simp

definition plain_uniq :: uniq_opts where
  "plain_uniq = \<lparr>do_count = False, do_repeated = False, do_unique = False, do_icase = False\<rparr>"

theorem uniq_meaning:
  "run_uniq opts inp =
     concat (map (\<lambda>(l, k). uniq_emit opts (int k) l) (groups (uniq_same opts) (map c_str (fgets_all 8192 inp))))
   \<and> run_uniq plain_uniq inp = concat (remdups_adj (map c_str (fgets_all 8192 inp)))"
proof -
  have "uniq_same plain_uniq = (=)" "\<And>n l. uniq_emit plain_uniq n l = l"
    by (simp_all add: uniq_same_def uniq_emit_def plain_uniq_def fun_eq_iff)
  then have "run_uniq plain_uniq inp = concat (map fst (groups (=) (map c_str (fgets_all 8192 inp))))"
    by (simp add: run_uniq_groups case_prod_unfold)
  then show ?thesis by (simp add: run_uniq_groups groups_remdups_adj)
qed

section \<open>head and tail\<close>

lemma head_go_take: "head_go n ls = concat (map c_str (take (nat n) ls))"
  by (induction n ls rule: head_go.induct) (auto simp: nat_diff_distrib take_Cons')

text \<open>After \<open>k\<close> lines slot \<open>i\<close> holds the last line whose number is \<open>i\<close> modulo the size.\<close>

lemma tail_store_ring:
  assumes "0 < n" "foldl (tail_store n) (replicate (nat n) None, 0) ls = (buf, seen)"
  shows "seen = int (length ls) \<and> length buf = nat n
    \<and> (\<forall>i<length ls. int (length ls) - n \<le> int i \<longrightarrow> buf ! nat (int i mod n) = Some (c_str (ls ! i)))"
  using assms(2)
proof (induction ls arbitrary: buf seen rule: rev_induct)
  case (snoc l ls)
  obtain b s where b: "foldl (tail_store n) (replicate (nat n) None, 0) ls = (b, s)" by fastforce
  note IH = snoc.IH [OF b]
  have new: "buf = b[nat (int (length ls) mod n) := Some (c_str l)]" "seen = s + 1"
    using snoc.prems IH unfolding foldl_append b by (auto simp: tail_store_def)
  have "buf ! nat (int i mod n) = Some (c_str ((ls @ [l]) ! i))"
    if "i < length (ls @ [l])" "int (length (ls @ [l])) - n \<le> int i" for i
  proof (cases "i = length ls")
    case True
    then show ?thesis using new IH assms(1) by (simp add: nat_less_iff)
  next
    case False
    then have "int (length ls) - int i < n" "0 < int (length ls) - int i" using that by auto
    then have "int i mod n \<noteq> int (length ls) mod n"
      by (metis mod_eq_dvd_iff zdvd_not_zless)
    then have "nat (int i mod n) \<noteq> nat (int (length ls) mod n)" using assms(1) by (simp add: eq_nat_nat_iff)
    then show ?thesis using new IH False that by (simp add: nth_append)
  qed
  then show ?case using new IH by auto
qed simp

lemma print_tail_drop: "0 \<le> n \<Longrightarrow> print_tail n inp = concat (map c_str (drop (length (getlines inp) - nat n) (getlines inp)))"
proof (cases "n = 0")
  case True
  then show ?thesis by (simp add: print_tail_def)
next
  case False
  assume "0 \<le> n"
  with False have n: "0 < n" by simp
  define ls where "ls = getlines inp"
  obtain buf seen where f: "foldl (tail_store n) (replicate (nat n) None, 0) ls = (buf, seen)" by fastforce
  note ring = tail_store_ring [OF n f]
  let ?start = "if seen < n then 0 else seen mod n" and ?stored = "if seen < n then seen else n"
  have "map (\<lambda>i. case buf ! nat ((?start + i) mod n) of None \<Rightarrow> [] | Some l \<Rightarrow> l) [0..?stored - 1]
      = map c_str (drop (length ls - nat n) ls)"
  proof (rule nth_equalityI)
    show "length (map (\<lambda>i. case buf ! nat ((?start + i) mod n) of None \<Rightarrow> [] | Some l \<Rightarrow> l) [0..?stored - 1])
        = length (map c_str (drop (length ls - nat n) ls))"
      using ring n by (auto simp: nat_less_iff)
    fix k assume "k < length (map (\<lambda>i. case buf ! nat ((?start + i) mod n) of None \<Rightarrow> [] | Some l \<Rightarrow> l) [0..?stored - 1])"
    then have k: "int k < ?stored" by (auto simp: nat_less_iff)
    define m where "m = length ls - nat n + k"
    have "(?start + int k) mod n = int m mod n"
    proof (cases "seen < n")
      case True
      then show ?thesis using ring n by (simp add: m_def)
    next
      case False
      then have "int m = (seen + int k) - n" using ring n by (simp add: m_def of_nat_diff)
      then show ?thesis using False by (simp add: mod_simps minus_mod_self2)
    qed
    moreover have "m < length ls" "int (length ls) - n \<le> int m" using ring k n by (auto simp: m_def split: if_splits)
    ultimately have "buf ! nat ((?start + int k) mod n) = Some (c_str (ls ! m))" using ring by simp
    then show "map (\<lambda>i. case buf ! nat ((?start + i) mod n) of None \<Rightarrow> [] | Some l \<Rightarrow> l) [0..?stored - 1] ! k
        = map c_str (drop (length ls - nat n) ls) ! k"
      using k \<open>m < length ls\<close> by (simp add: m_def nth_upto)
  qed
  then show ?thesis using n f by (simp add: print_tail_def ls_def Let_def)
qed

theorem head_and_tail_split:
  assumes "NUL \<notin> set inp" "k \<le> length (getlines inp)"
  shows "head_go (int k) (getlines inp) @ print_tail (int (length (getlines inp) - k)) inp = inp"
proof -
  have "map c_str (getlines inp) = getlines inp"
    using assms(1) concat_getlines [of inp] by (intro map_idI c_str_id) (metis UN_I set_concat)
  then have "map c_str (take k (getlines inp)) @ map c_str (drop k (getlines inp)) = getlines inp"
    by (simp flip: map_append)
  then have "concat (map c_str (take k (getlines inp))) @ concat (map c_str (drop k (getlines inp))) = inp"
    by (metis concat_append concat_getlines)
  moreover have "nat (int (length (getlines inp)) - int k) = length (getlines inp) - k" by simp
  ultimately show ?thesis using assms(2) by (simp add: head_go_take print_tail_drop)
qed

theorem head_and_tail_split_witness:
  "head_go 1 (getlines (''a'' @ [NL] @ ''b'')) @ print_tail 1 (''a'' @ [NL] @ ''b'') = ''a'' @ [NL] @ ''b''"
proof -
  have "length (getlines (''a'' @ [NL] @ ''b'')) = 2" by code_simp
  then show ?thesis using head_and_tail_split [of "''a'' @ [NL] @ ''b''" 1] by (simp add: shell_defs)
qed


section \<open>sort\<close>

lemma strcmp_sign:
  "strcmp a b = - strcmp b a" "strcmp a b \<le> 0 \<Longrightarrow> strcmp b c \<le> 0 \<Longrightarrow> strcmp a c \<le> 0"
proof -
  show "strcmp a b = - strcmp b a" by (induction a b rule: strcmp.induct) auto
  show "strcmp a b \<le> 0 \<Longrightarrow> strcmp b c \<le> 0 \<Longrightarrow> strcmp a c \<le> 0"
  proof (induction a b arbitrary: c rule: strcmp.induct)
    case (4 x xs y ys)
    then show ?case by (cases c) (auto split: if_splits dest: less_trans)
  next
    case (2 y ys)
    then show ?case by (cases c) auto
  qed auto
qed

lemma strcmp_eq [simp]: "strcmp a b = 0 \<longleftrightarrow> a = b"
  by (induction a b rule: strcmp.induct) auto

text \<open>The comparison meets what \<open>qsort\<close> asks of it.\<close>

lemma sort_cmp_sign: "sort_cmp strtod opts a b = - sort_cmp strtod opts b a"
  using strcmp_sign(1) [of "sort_field opts a" "sort_field opts b"] by (auto simp: sort_cmp_def Let_def)

lemma sort_cmp_trans:
  "sort_cmp strtod opts a b \<le> 0 \<Longrightarrow> sort_cmp strtod opts b c \<le> 0 \<Longrightarrow> sort_cmp strtod opts a c \<le> 0"
  using strcmp_sign(2) [of "sort_field opts a" "sort_field opts b" "sort_field opts c"]
    strcmp_sign(2) [of "sort_field opts c" "sort_field opts b" "sort_field opts a"]
    strcmp_sign(1) [of "sort_field opts a" "sort_field opts b"] strcmp_sign(1) [of "sort_field opts b" "sort_field opts c"]
    strcmp_sign(1) [of "sort_field opts a" "sort_field opts c"]
  by (auto simp: sort_cmp_def Let_def split: if_splits)

lemma sort_print_all: "sort_print cmp False p ls = ls"
  by (induction ls arbitrary: p) (simp_all split: option.splits)

lemma sort_print_distinct:
  assumes sign: "\<And>a b. cmp a b = - cmp b a" and trans: "\<And>a b c. cmp a b \<le> 0 \<Longrightarrow> cmp b c \<le> 0 \<Longrightarrow> cmp a c \<le> 0"
  shows "sorted_wrt (\<lambda>a b. cmp a b \<le> 0) (p # ls) \<Longrightarrow>
      sorted_wrt (\<lambda>a b. cmp a b < 0) (p # sort_print cmp True (Some p) ls)
      \<and> set (sort_print cmp True (Some p) ls) \<subseteq> set ls
      \<and> (\<forall>l\<in>set ls. \<exists>q\<in>set (p # sort_print cmp True (Some p) ls). cmp l q = 0)"
proof (induction ls arbitrary: p)
  case (Cons l ls)
  show ?case
  proof (cases "cmp l p = 0")
    case True
    have "sorted_wrt (\<lambda>a b. cmp a b \<le> 0) (p # ls)" using Cons.prems by simp
    from Cons.IH [OF this] True show ?thesis by auto
  next
    case False
    then have less: "cmp p l < 0" using Cons.prems sign [of p l] by simp
    note IH = Cons.IH [of l]
    have below: "cmp p x < 0" if "cmp l x \<le> 0" for x
      using less that trans [of x p l] trans [of l x p] trans [of p l x] sign [of x p] sign [of l x] sign [of p l]
      by (smt (verit) sign trans)
    have "list_all (\<lambda>x. cmp l x \<le> 0) (sort_print cmp True (Some l) ls)"
      using IH Cons.prems by (auto simp: list_all_iff)
    moreover have "cmp l l = 0" using sign [of l l] by simp
    ultimately show ?thesis using IH Cons.prems False less below by (auto simp: list_all_iff)
  qed
qed simp



text \<open>One sorting function that meets the contract of \<open>qsort\<close>.\<close>

fun insert_by :: "('a \<Rightarrow> 'a \<Rightarrow> int) \<Rightarrow> 'a \<Rightarrow> 'a list \<Rightarrow> 'a list" where
  "insert_by cmp x [] = [x]"
| "insert_by cmp x (y # ys) = (if cmp x y \<le> 0 then x # y # ys else y # insert_by cmp x ys)"

definition insertion_sort :: "('a \<Rightarrow> 'a \<Rightarrow> int) \<Rightarrow> 'a list \<Rightarrow> 'a list" where
  "insertion_sort cmp xs = foldr (insert_by cmp) xs []"

lemma insert_by_props:
  assumes "\<And>a b. cmp a b = - cmp b a" "\<And>a b c. cmp a b \<le> 0 \<Longrightarrow> cmp b c \<le> 0 \<Longrightarrow> cmp a c \<le> 0"
  shows "mset (insert_by cmp x ys) = add_mset x (mset ys)"
    "sorted_wrt (\<lambda>a b. cmp a b \<le> 0) ys \<Longrightarrow> sorted_wrt (\<lambda>a b. cmp a b \<le> 0) (insert_by cmp x ys)"
proof -
  show m: "mset (insert_by cmp x ys) = add_mset x (mset ys)" for ys by (induction ys) auto
  then have "set (insert_by cmp x ys) = insert x (set ys)" for ys by (metis set_mset_add_mset_insert set_mset_mset)
  then show "sorted_wrt (\<lambda>a b. cmp a b \<le> 0) ys \<Longrightarrow> sorted_wrt (\<lambda>a b. cmp a b \<le> 0) (insert_by cmp x ys)"
  proof (induction ys)
    case (Cons y ys)
    have "cmp x y \<le> 0 \<or> cmp y x \<le> 0" using assms(1) [of x y] by linarith
    with Cons show ?case using \<open>\<And>ys. set (insert_by cmp x ys) = insert x (set ys)\<close> by (auto intro: assms(2))
  qed simp
qed

lemma insertion_sort_leaves: "qsort_leaves (sort_cmp strtod opts) xs (insertion_sort (sort_cmp strtod opts) xs)"
proof -
  note props = insert_by_props [OF sort_cmp_sign [of strtod opts] sort_cmp_trans]
  show ?thesis
    by (induction xs) (auto simp: qsort_leaves_def insertion_sort_def props)
qed

definition plain_sort :: sort_opts where
  "plain_sort = \<lparr>do_reverse = False, do_numeric = False, sort_key = 0, do_unique_lines = False\<rparr>"


section \<open>Last lines without a newline\<close>

lemma sort_joins_unterminated_line:
  "sort_run insertion_sort length (\<lambda>p. None) (''b'' @ [NL] @ ''a'') plain_sort [] = (0, ''ab'' @ [NL])"
  by code_simp

lemma uniq_keeps_unterminated_repeat: "run_uniq plain_uniq (''a'' @ [NL] @ ''a'') = ''a'' @ [NL] @ ''a''"
  by code_simp

end
