(* ===== verification/Test_Cmd.thy ===== *)
theory Test_Cmd
  imports Prelude
begin

text \<open>
  The command \<open>test\<close>, also called \<open>[\<close> (\<^verbatim>\<open>cmd_test.c\<close>): the recursive descent over the argument
  vector, with what the file system answers as a parameter. The position in the vector is the list
  of the arguments left. Usage texts are not printed.

  The lemmas show that on the words of an expression the evaluator gives the value of the
  expression, with the precedence its grammar states, and which ill-formed vectors it accepts.
\<close>

section \<open>The evaluator\<close>

datatype file_kind = Regular | Directory | Other_kind

record test_env =
  env_stat :: "cstring \<Rightarrow> (file_kind \<times> int) option"
  env_access :: "cstring \<Rightarrow> char \<Rightarrow> bool"
  env_is_link :: "cstring \<Rightarrow> bool"

type_synonym args = "cstring list"

definition unary_flag :: "cstring \<Rightarrow> bool" where
  "unary_flag a \<longleftrightarrow> length a = 2 \<and> hd a = CHR ''-'' \<and> a ! 1 \<in> set ''fderxwsLzn''"

definition unary_test :: "test_env \<Rightarrow> char \<Rightarrow> cstring \<Rightarrow> bool" where
  "unary_test env flag arg =
     (if flag = CHR ''f'' then (case env_stat env arg of Some (k, n) \<Rightarrow> k = Regular | None \<Rightarrow> False)
      else if flag = CHR ''d'' then (case env_stat env arg of Some (k, n) \<Rightarrow> k = Directory | None \<Rightarrow> False)
      else if flag = CHR ''e'' then env_stat env arg \<noteq> None
      else if flag \<in> set ''rwx'' then env_access env arg flag
      else if flag = CHR ''s'' then (case env_stat env arg of Some (k, n) \<Rightarrow> 0 < n | None \<Rightarrow> False)
      else if flag = CHR ''L'' then env_is_link env arg
      else if flag = CHR ''z'' then arg = [] else if flag = CHR ''n'' then arg \<noteq> [] else False)"

definition binary_test :: "cstring \<Rightarrow> cstring \<Rightarrow> cstring \<Rightarrow> bool" where
  "binary_test a op b =
     (let la = atol a; lb = atol b in
      if op = ''-eq'' then la = lb else if op = ''-ne'' then la \<noteq> lb
      else if op = ''-lt'' then la < lb else if op = ''-le'' then la \<le> lb
      else if op = ''-gt'' then la > lb else if op = ''-ge'' then la \<ge> lb
      else a \<noteq> [])"

text \<open>Each returns the value, the arguments left and the error flag.\<close>

definition eval_primary :: "test_env \<Rightarrow> args \<Rightarrow> bool \<Rightarrow> bool \<times> args \<times> bool" where
  "eval_primary env es err =
     (case es of
        [] \<Rightarrow> (False, [], err)
      | a # r \<Rightarrow>
          if unary_flag a
          then (case r of [] \<Rightarrow> (False, [], True) | arg # r1 \<Rightarrow> (unary_test env (a ! 1) arg, r1, err))
          else (case r of
                  [] \<Rightarrow> (a \<noteq> [], [], err)
                | op # r1 \<Rightarrow>
                    if op = ''-a'' \<or> op = ''-o'' then (a \<noteq> [], r, err)
                    else if op = ''='' \<or> op = ''==''
                    then (case r1 of [] \<Rightarrow> (False, [], err) | b # r2 \<Rightarrow> (a = b, r2, err))
                    else if op = ''!=''
                    then (case r1 of [] \<Rightarrow> (False, [], err) | b # r2 \<Rightarrow> (a \<noteq> b, r2, err))
                    else (case r1 of [] \<Rightarrow> (False, [], True) | b # r2 \<Rightarrow> (binary_test a op b, r2, err))))"

fun eval_not :: "test_env \<Rightarrow> args \<Rightarrow> bool \<Rightarrow> bool \<times> args \<times> bool" where
  "eval_not env [] err = eval_primary env [] err"
| "eval_not env (a # r) err =
     (if a = ''!'' then (case eval_not env r err of (v, s) \<Rightarrow> (\<not> v, s)) else eval_primary env (a # r) err)"

lemma eval_not_shorter: "eval_not env es err = (v, r, e) \<Longrightarrow> length r \<le> length es"
proof (induction env es err arbitrary: v rule: eval_not.induct)
  case (2 env a s err)
  then show ?case
    by (auto simp: eval_primary_def split: if_splits list.splits prod.splits)
qed (simp add: eval_primary_def)

function eval_and_go :: "test_env \<Rightarrow> bool \<times> args \<times> bool \<Rightarrow> bool \<times> args \<times> bool" where
  "eval_and_go env (v, es, err) =
     (if es \<noteq> [] \<and> hd es = ''-a''
      then (case eval_not env (tl es) err of (w, s) \<Rightarrow> eval_and_go env (v \<and> w, s))
      else (v, es, err))"
  by pat_completeness auto
termination
  by (relation "measure (\<lambda>(env, v, es, err). length es)")
     (auto simp: neq_Nil_conv less_Suc_eq_le dest!: sym [of _ "eval_not _ _ _"] eval_not_shorter)

declare eval_and_go.simps [simp del]

definition eval_and :: "test_env \<Rightarrow> args \<Rightarrow> bool \<Rightarrow> bool \<times> args \<times> bool" where
  "eval_and env es err = eval_and_go env (eval_not env es err)"

lemma eval_and_go_shorter: "eval_and_go env s = (v, r, e) \<Longrightarrow> length r \<le> length (fst (snd s))"
proof (induction env s arbitrary: v r e rule: eval_and_go.induct)
  case (1 env v0 es err)
  show ?case
  proof (cases "es \<noteq> [] \<and> hd es = ''-a''")
    case True
    obtain w r1 e1 where w: "eval_not env (tl es) err = (w, r1, e1)" by (metis prod_cases3)
    then show ?thesis
      using "1.IH" [OF True] "1.prems" True eval_not_shorter [OF w] by (fastforce simp: eval_and_go.simps [of env v0])
  next
    case False
    then show ?thesis using "1.prems" unfolding eval_and_go.simps [of env v0] by auto
  qed
qed

lemma eval_and_shorter: "eval_and env es err = (v, r, e) \<Longrightarrow> length r \<le> length es"
  by (metis eval_and_def eval_and_go_shorter eval_not_shorter order_trans prod.collapse)

function eval_or_go :: "test_env \<Rightarrow> bool \<times> args \<times> bool \<Rightarrow> bool \<times> args \<times> bool" where
  "eval_or_go env (v, es, err) =
     (if es \<noteq> [] \<and> hd es = ''-o''
      then (case eval_and env (tl es) err of (w, s) \<Rightarrow> eval_or_go env (v \<or> w, s))
      else (v, es, err))"
  by pat_completeness auto
termination
  by (relation "measure (\<lambda>(env, v, es, err). length es)")
     (auto simp: neq_Nil_conv less_Suc_eq_le dest!: sym [of _ "eval_and _ _ _"] eval_and_shorter)

declare eval_or_go.simps [simp del]

definition eval_or :: "test_env \<Rightarrow> args \<Rightarrow> bool \<Rightarrow> bool \<times> args \<times> bool" where
  "eval_or env es err = eval_or_go env (eval_and env es err)"

section \<open>The command\<close>

definition test_run :: "test_env \<Rightarrow> cstring list \<Rightarrow> int" where
  "test_run env argv =
     (if list_ex (\<lambda>a. a = ''--help'' \<or> a = ''-h'' \<or> a = ''--help-json'') (tl argv) then 0
      else if hd argv = ''['' \<and> (length argv < 2 \<or> last argv \<noteq> '']'') then 2
      else (let es = (if hd argv = ''['' then butlast (tl argv) else tl argv) in
            if es = [] then 1
            else (case eval_or env es False of (v, r, err) \<Rightarrow> if err then 2 else if v then 0 else 1)))"

section \<open>Expressions\<close>

datatype prim = Word cstring | Unary char cstring | Binary cstring cstring cstring

datatype fact = Prim prim | Not fact

fun prim_words :: "prim \<Rightarrow> args" where
  "prim_words (Word a) = [a]"
| "prim_words (Unary f a) = [[CHR ''-'', f], a]"
| "prim_words (Binary a op b) = [a, op, b]"

fun fact_words :: "fact \<Rightarrow> args" where
  "fact_words (Prim p) = prim_words p"
| "fact_words (Not f) = ''!'' # fact_words f"

text \<open>A conjunction of facts and a disjunction of conjunctions, neither empty.\<close>

definition conj_words :: "fact list \<Rightarrow> args" where
  "conj_words fs = concat (fact_words (hd fs) # map (\<lambda>f. ''-a'' # fact_words f) (tl fs))"

definition disj_words :: "fact list list \<Rightarrow> args" where
  "disj_words cs = concat (conj_words (hd cs) # map (\<lambda>c. ''-o'' # conj_words c) (tl cs))"

fun prim_value :: "test_env \<Rightarrow> prim \<Rightarrow> bool" where
  "prim_value env (Word a) \<longleftrightarrow> a \<noteq> []"
| "prim_value env (Unary f a) \<longleftrightarrow> unary_test env f a"
| "prim_value env (Binary a op b) \<longleftrightarrow>
     (if op = ''='' \<or> op = ''=='' then a = b else if op = ''!='' then a \<noteq> b else binary_test a op b)"

fun fact_value :: "test_env \<Rightarrow> fact \<Rightarrow> bool" where
  "fact_value env (Prim p) = prim_value env p"
| "fact_value env (Not f) = (\<not> fact_value env f)"

definition disj_value :: "test_env \<Rightarrow> fact list list \<Rightarrow> bool" where
  "disj_value env cs = list_ex (list_all (fact_value env)) cs"

fun prim_ok :: "prim \<Rightarrow> bool" where
  "prim_ok (Word a) \<longleftrightarrow> \<not> unary_flag a \<and> a \<noteq> ''!''"
| "prim_ok (Unary f a) \<longleftrightarrow> f \<in> set ''fderxwsLzn''"
| "prim_ok (Binary a op b) \<longleftrightarrow> \<not> unary_flag a \<and> a \<noteq> ''!'' \<and> op \<noteq> ''-a'' \<and> op \<noteq> ''-o''"

fun fact_ok :: "fact \<Rightarrow> bool" where
  "fact_ok (Prim p) = prim_ok p"
| "fact_ok (Not f) = fact_ok f"

definition joins :: "args \<Rightarrow> bool" where
  "joins r \<longleftrightarrow> r = [] \<or> hd r = ''-a'' \<or> hd r = ''-o''"

lemma eval_primary_words:
  "prim_ok p \<Longrightarrow> joins r \<Longrightarrow> eval_primary env (prim_words p @ r) err = (prim_value env p, r, err)"
proof (cases p)
  case (Word a)
  assume "prim_ok p" "joins r"
  with Word have "\<not> unary_flag a" "joins r" by simp_all
  then show ?thesis using Word by (cases r) (simp_all add: eval_primary_def joins_def)
next
  case (Unary f a)
  assume "prim_ok p"
  with Unary have "unary_flag [CHR ''-'', f]" by (simp add: unary_flag_def)
  then show ?thesis using Unary by (simp add: eval_primary_def)
next
  case (Binary a op b)
  assume "prim_ok p"
  with Binary have "\<not> unary_flag a" "op \<noteq> ''-a''" "op \<noteq> ''-o''" by simp_all
  then show ?thesis unfolding Binary by (simp add: eval_primary_def)
qed

lemma prim_words_not_bang: "prim_ok p \<Longrightarrow> hd (prim_words p @ r) \<noteq> ''!'' \<and> prim_words p \<noteq> []"
  by (cases p) auto

lemma eval_not_words:
  "fact_ok f \<Longrightarrow> joins r \<Longrightarrow> eval_not env (fact_words f @ r) err = (fact_value env f, r, err)"
proof (induction f)
  case (Prim p)
  then obtain a s where "prim_words p @ r = a # s" "a \<noteq> ''!''"
    using prim_words_not_bang [of p r] by (cases "prim_words p @ r") auto
  with Prim show ?case using eval_primary_words [of p r env err] by simp
qed simp

lemma eval_and_go_words:
  assumes "list_all fact_ok fs" "r = [] \<or> hd r = ''-o''"
  shows "eval_and_go env (v, concat (map (\<lambda>f. ''-a'' # fact_words f) fs) @ r, err) = (v \<and> list_all (fact_value env) fs, r, err)"
  using assms(1)
proof (induction fs arbitrary: v)
  case Nil
  then show ?case using assms(2) by (subst eval_and_go.simps) auto
next
  case (Cons f fs)
  have "joins (concat (map (\<lambda>f. ''-a'' # fact_words f) fs) @ r)"
    using assms(2) by (cases fs) (auto simp: joins_def)
  then show ?case
    using Cons by (subst eval_and_go.simps) (simp add: eval_not_words)
qed

lemma eval_and_words:
  assumes "fs \<noteq> []" "list_all fact_ok fs" "r = [] \<or> hd r = ''-o''"
  shows "eval_and env (conj_words fs @ r) err = (list_all (fact_value env) fs, r, err)"
proof -
  have "joins (concat (map (\<lambda>f. ''-a'' # fact_words f) (tl fs)) @ r)"
    using assms(3) by (cases "tl fs") (auto simp: joins_def)
  then show ?thesis
    using assms by (cases fs) (simp_all add: eval_and_def conj_words_def eval_not_words eval_and_go_words)
qed

lemma eval_or_go_words:
  assumes "list_all (\<lambda>c. c \<noteq> [] \<and> list_all fact_ok c) cs"
  shows "eval_or_go env (v, concat (map (\<lambda>c. ''-o'' # conj_words c) cs), err) = (v \<or> disj_value env cs, [], err)"
  using assms
proof (induction cs arbitrary: v)
  case Nil
  then show ?case by (simp add: eval_or_go.simps disj_value_def)
next
  case (Cons c cs)
  have "concat (map (\<lambda>c. ''-o'' # conj_words c) cs) = [] \<or> hd (concat (map (\<lambda>c. ''-o'' # conj_words c) cs)) = ''-o''"
    by (cases cs) auto
  then show ?case
    using Cons by (subst eval_or_go.simps) (simp add: eval_and_words disj_value_def disj_assoc)
qed

lemma eval_or_words:
  assumes "cs \<noteq> []" "list_all (\<lambda>c. c \<noteq> [] \<and> list_all fact_ok c) cs"
  shows "eval_or env (disj_words cs) err = (disj_value env cs, [], err)"
proof -
  have "concat (map (\<lambda>c. ''-o'' # conj_words c) (tl cs)) = [] \<or> hd (concat (map (\<lambda>c. ''-o'' # conj_words c) (tl cs))) = ''-o''"
    by (cases "tl cs") auto
  then show ?thesis
    using assms by (cases cs) (simp_all add: eval_or_def disj_words_def eval_and_words eval_or_go_words disj_value_def)
qed

definition no_help :: "args \<Rightarrow> bool" where
  "no_help es \<longleftrightarrow> \<not> list_ex (\<lambda>a. a = ''--help'' \<or> a = ''-h'' \<or> a = ''--help-json'') es"

lemma disj_words_nonempty: "list_all (\<lambda>c. c \<noteq> [] \<and> list_all fact_ok c) cs \<Longrightarrow> cs \<noteq> [] \<Longrightarrow> disj_words cs \<noteq> []"
proof -
  have "fact_ok f \<Longrightarrow> fact_words f \<noteq> []" for f by (cases f) (auto dest: prim_words_not_bang)
  then show "list_all (\<lambda>c. c \<noteq> [] \<and> list_all fact_ok c) cs \<Longrightarrow> cs \<noteq> [] \<Longrightarrow> disj_words cs \<noteq> []"
    by (cases cs; cases "hd cs") (auto simp: disj_words_def conj_words_def)
qed


definition demo_env :: test_env where
  "demo_env = \<lparr>env_stat = (\<lambda>p. if p = ''f'' then Some (Regular, 3) else None), env_access = (\<lambda>p c. True), env_is_link = (\<lambda>p. False)\<rparr>"


section \<open>Ill-formed vectors\<close>

lemma help_word_is_true: "test_run env [''test'', a, ''='', ''-h''] = 0"
  by (simp add: test_run_def)

lemma trailing_words_ignored: "test_run env [''test'', ''x'', ''='', ''x'', ''y'', ''z''] = 0"
  by (simp add: test_run_def eval_or_def eval_and_def eval_primary_def unary_flag_def eval_and_go.simps eval_or_go.simps)

lemma missing_operand_no_error:
  "test_run env [''test'', ''!''] = 0" "test_run env [''test'', ''x'', ''-a''] = 1" "test_run env [''test'', ''x'', ''=''] = 1"
  by (simp_all add: test_run_def eval_or_def eval_and_def eval_primary_def unary_flag_def eval_and_go.simps eval_or_go.simps)

end
