(* ===== verification/Chmod.thy ===== *)
theory Chmod
  imports Prelude "HOL-Library.Word"
begin

unbundle bit_operations_syntax

text \<open>
  The command \<open>chmod\<close> (\<^verbatim>\<open>cmd_chmod.c\<close>) after its options are parsed: the mode strings, one file and
  the recursive walk. A mode is a 32-bit word, and \<open>(mode_t)-1\<close> the failure value of the source. The
  file system is a map from paths to inodes; a symbolic link has the permission bits 0777 for
  \<open>lstat\<close> and is followed by \<open>chmod\<close>. What \<open>readdir\<close> lists and whether \<open>chmod\<close> is permitted are parameters.

  The lemmas show that a symbolic mode does what its clauses say and never leaves the twelve
  permission bits, and that every mode, printed in octal or clause by clause, is read back.
\<close>

type_synonym mode = "32 word"

section \<open>Symbolic modes\<close>

record who =
  has_u :: bool
  has_g :: bool
  has_o :: bool

definition add_who :: "char \<Rightarrow> who \<Rightarrow> who" where
  "add_who c w =
     \<lparr>has_u = (has_u w \<or> c = CHR ''u'' \<or> c = CHR ''a''), has_g = (has_g w \<or> c = CHR ''g'' \<or> c = CHR ''a''),
      has_o = (has_o w \<or> c = CHR ''o'' \<or> c = CHR ''a'')\<rparr>"

definition is_who :: "char \<Rightarrow> bool" where
  "is_who c \<longleftrightarrow> c = CHR ''u'' \<or> c = CHR ''g'' \<or> c = CHR ''o'' \<or> c = CHR ''a''"

definition is_op :: "char \<Rightarrow> bool" where
  "is_op c \<longleftrightarrow> c = CHR ''+'' \<or> c = CHR ''-'' \<or> c = CHR ''=''"

definition parse_who :: "cstring \<Rightarrow> who \<times> cstring" where
  "parse_who p =
     (let w = fold add_who (takeWhile is_who p) \<lparr>has_u = False, has_g = False, has_o = False\<rparr> in
      (if \<not> has_u w \<and> \<not> has_g w \<and> \<not> has_o w then \<lparr>has_u = True, has_g = True, has_o = True\<rparr> else w,
       dropWhile is_who p))"

definition for_who :: "who \<Rightarrow> mode \<Rightarrow> mode \<Rightarrow> mode \<Rightarrow> mode" where
  "for_who w u g o1 = (if has_u w then u else 0) OR (if has_g w then g else 0) OR (if has_o w then o1 else 0)"

text \<open>The bits of one permission letter. The source hands \<open>cur\<close> to \<open>S_ISDIR\<close>.\<close>

definition S_ISDIR :: "mode \<Rightarrow> bool" where
  "S_ISDIR m \<longleftrightarrow> m AND 0xF000 = 0x4000"

definition perm_letter :: "who \<Rightarrow> mode \<Rightarrow> char \<Rightarrow> mode option" where
  "perm_letter w cur c =
     (if c = CHR ''r'' then Some (for_who w 0x100 0x20 4)
      else if c = CHR ''w'' then Some (for_who w 0x80 0x10 2)
      else if c = CHR ''x'' then Some (for_who w 0x40 8 1)
      else if c = CHR ''X'' then Some (if S_ISDIR cur \<or> cur AND 0x49 \<noteq> 0 then for_who w 0x40 8 1 else 0)
      else if c = CHR ''s'' then Some (for_who w 0x800 0x400 0)
      else if c = CHR ''t'' then Some 0x200
      else None)"

fun parse_perms :: "who \<Rightarrow> mode \<Rightarrow> mode \<Rightarrow> cstring \<Rightarrow> (mode \<times> cstring) option" where
  "parse_perms w cur bits [] = Some (bits, [])"
| "parse_perms w cur bits (c # p) =
     (if c = CHR '','' \<or> is_op c then Some (bits, c # p)
      else (case perm_letter w cur c of None \<Rightarrow> None | Some b \<Rightarrow> parse_perms w cur (bits OR b) p))"

definition who_mask :: "who \<Rightarrow> mode" where
  "who_mask w = for_who w 0x9C0 0x438 7 OR 0x200"

definition apply_op :: "char \<Rightarrow> who \<Rightarrow> mode \<Rightarrow> mode \<Rightarrow> mode" where
  "apply_op op w bits cur =
     (if op = CHR ''+'' then cur OR bits
      else if op = CHR ''-'' then cur AND NOT bits
      else (cur AND NOT (who_mask w)) OR bits)"

lemma parse_perms_shorter: "parse_perms w cur bits p = Some (b, q) \<Longrightarrow> length q \<le> length p"
  by (induction w cur bits p rule: parse_perms.induct) (auto split: if_splits option.splits)

lemma clause_shorter:
  assumes "parse_perms w cur 0 (tl q) = Some (b, r)" "parse_who p = (w, q)" "q \<noteq> []"
  shows "length r < length p" "r \<noteq> [] \<Longrightarrow> length r - Suc 0 < length p"
proof -
  have "length r \<le> length (tl q)" by (rule parse_perms_shorter [OF assms(1)])
  moreover have "length q \<le> length p" using assms(2) by (auto simp: parse_who_def Let_def length_dropWhile_le)
  ultimately show "length r < length p" "r \<noteq> [] \<Longrightarrow> length r - Suc 0 < length p" using assms(3) by (cases q; simp)+
qed

function parse_symbolic :: "cstring \<Rightarrow> mode \<Rightarrow> mode" where
  "parse_symbolic p cur =
     (if p = [] then cur
      else (case parse_who p of (w, q) \<Rightarrow>
              if q = [] \<or> \<not> is_op (hd q) then - 1
              else (case parse_perms w cur 0 (tl q) of
                      None \<Rightarrow> - 1
                    | Some (bits, r) \<Rightarrow>
                        parse_symbolic (if r \<noteq> [] \<and> hd r = CHR '','' then tl r else r) (apply_op (hd q) w bits cur))))"
  by pat_completeness auto
termination
  by (relation "measure (\<lambda>(p, cur). length p)") (auto dest!: sym [of _ "parse_who _"] clause_shorter)

declare parse_symbolic.simps [simp del]

section \<open>Mode strings\<close>

fun octal_value :: "cstring \<Rightarrow> nat \<Rightarrow> nat" where
  "octal_value [] v = v"
| "octal_value (c # s) v = octal_value s (8 * v + (ord c - 48))"

definition is_octal_digit :: "char \<Rightarrow> bool" where
  "is_octal_digit c \<longleftrightarrow> 48 \<le> ord c \<and> ord c \<le> 55"

text \<open>\<open>strchr\<close> finds the terminating NUL too, so the empty string passes.\<close>

definition parse_mode_str :: "cstring \<Rightarrow> (bool \<times> mode) option" where
  "parse_mode_str s =
     (if 1 \<le> length s \<and> length s \<le> 4 \<and> list_all is_octal_digit s then Some (True, of_nat (octal_value s 0))
      else if s \<noteq> [] \<and> hd s \<notin> set ''ugoa+-='' then None
      else Some (False, 0))"

section \<open>Files\<close>

datatype inode = Inode mode | Symlink cstring

type_synonym files = "cstring \<Rightarrow> inode option"

definition lstat_mode :: "files \<Rightarrow> cstring \<Rightarrow> mode option" where
  "lstat_mode fs path = (case fs path of
      None \<Rightarrow> None
    | Some (Inode m) \<Rightarrow> Some m
    | Some (Symlink t) \<Rightarrow> Some 0xA1FF)"

text \<open>At most 40 links are followed.\<close>

fun resolve :: "nat \<Rightarrow> files \<Rightarrow> cstring \<Rightarrow> (cstring \<times> mode) option" where
  "resolve n fs path = (case fs path of
      None \<Rightarrow> None
    | Some (Inode m) \<Rightarrow> Some (path, m)
    | Some (Symlink t) \<Rightarrow> (case n of 0 \<Rightarrow> None | Suc k \<Rightarrow> resolve k fs t))"

declare resolve.simps [simp del]

definition sys_chmod :: "(cstring \<Rightarrow> bool) \<Rightarrow> files \<Rightarrow> cstring \<Rightarrow> mode \<Rightarrow> files option" where
  "sys_chmod may fs path m = (case resolve 40 fs path of
      None \<Rightarrow> None
    | Some (q, old) \<Rightarrow> if may q then Some (fs(q \<mapsto> Inode ((old AND NOT 0xFFF) OR (m AND 0xFFF)))) else None)"

record chmod_opts =
  is_octal :: bool
  octal_mode :: mode
  sym_spec :: cstring

definition chmod_one :: "(cstring \<Rightarrow> bool) \<Rightarrow> chmod_opts \<Rightarrow> cstring \<Rightarrow> files \<Rightarrow> int \<times> files" where
  "chmod_one may opts path fs = (case lstat_mode fs path of
      None \<Rightarrow> (1, fs)
    | Some st \<Rightarrow>
        (let old_mode = st AND 0xFFF;
             new_mode = (if is_octal opts then octal_mode opts else parse_symbolic (sym_spec opts) old_mode) in
         if \<not> is_octal opts \<and> new_mode = - 1 then (1, fs)
         else (case sys_chmod may fs path new_mode of None \<Rightarrow> (1, fs) | Some fs1 \<Rightarrow> (0, fs1))))"

definition child_path :: "cstring \<Rightarrow> cstring \<Rightarrow> cstring" where
  "child_path path name = take 4095 (path @ ''/'' @ name)"

definition is_dir_entry :: "files \<Rightarrow> cstring \<Rightarrow> bool" where
  "is_dir_entry fs path = (case lstat_mode fs path of None \<Rightarrow> False | Some m \<Rightarrow> S_ISDIR m)"

text \<open>The walk, at most \<open>n\<close> levels deep.\<close>

fun chmod_recurse :: "(cstring \<Rightarrow> bool) \<Rightarrow> (cstring \<Rightarrow> cstring list option) \<Rightarrow> chmod_opts \<Rightarrow> nat \<Rightarrow> cstring \<Rightarrow> files \<Rightarrow> (int \<times> files) option" where
  "chmod_recurse may readdir opts 0 path fs = None"
| "chmod_recurse may readdir opts (Suc n) path fs =
     (case chmod_one may opts path fs of
        (ret, fs1) \<Rightarrow>
          if is_dir_entry fs1 path
          then (case readdir path of
                  None \<Rightarrow> Some (ret, fs1)
                | Some names \<Rightarrow>
                    foldl (\<lambda>s name. case s of
                        None \<Rightarrow> None
                      | Some (r, f) \<Rightarrow>
                          if name = ''.'' \<or> name = ''..'' then Some (r, f)
                          else (case chmod_recurse may readdir opts n (child_path path name) f of
                                  None \<Rightarrow> None
                                | Some (r1, f1) \<Rightarrow> Some (if r1 \<noteq> 0 then 1 else r, f1))) (Some (ret, fs1)) names)
          else Some (ret, fs1))"

definition chmod_run :: "(cstring \<Rightarrow> bool) \<Rightarrow> (cstring \<Rightarrow> cstring list option) \<Rightarrow> bool \<Rightarrow> nat \<Rightarrow> cstring \<Rightarrow> cstring list \<Rightarrow> files \<Rightarrow> (int \<times> files) option" where
  "chmod_run may readdir recursive n mode_str paths fs =
     (case parse_mode_str mode_str of
        None \<Rightarrow> Some (1, fs)
      | Some (oct, m) \<Rightarrow>
          (let opts = \<lparr>is_octal = oct, octal_mode = m, sym_spec = mode_str\<rparr> in
           if paths = [] then Some (1, fs)
           else foldl (\<lambda>s path. case s of
                    None \<Rightarrow> None
                  | Some (r, f) \<Rightarrow>
                      (case (if recursive then chmod_recurse may readdir opts n path f else Some (chmod_one may opts path f)) of
                         None \<Rightarrow> None
                       | Some (r1, f1) \<Rightarrow> Some (if r1 \<noteq> 0 then 1 else r, f1))) (Some (0, fs)) paths))"

section \<open>What a symbolic mode means\<close>

record clause =
  c_who :: cstring
  c_op :: char
  c_perms :: cstring

definition clause_text :: "clause \<Rightarrow> cstring" where
  "clause_text c = c_who c @ c_op c # c_perms c"

definition clause_ok :: "clause \<Rightarrow> bool" where
  "clause_ok c \<longleftrightarrow> list_all is_who (c_who c) \<and> is_op (c_op c) \<and> list_all (\<lambda>x. x \<in> set ''rwxXst'') (c_perms c)"

definition whom :: "cstring \<Rightarrow> who" where
  "whom p = (if p = [] then \<lparr>has_u = True, has_g = True, has_o = True\<rparr>
     else \<lparr>has_u = list_ex (\<lambda>c. c \<in> set ''ua'') p, has_g = list_ex (\<lambda>c. c \<in> set ''ga'') p, has_o = list_ex (\<lambda>c. c \<in> set ''oa'') p\<rparr>)"

definition letter_bits :: "who \<Rightarrow> mode \<Rightarrow> cstring \<Rightarrow> mode" where
  "letter_bits w cur ps = fold (\<lambda>c b. b OR the (perm_letter w cur c)) ps 0"

definition apply_clause :: "clause \<Rightarrow> mode \<Rightarrow> mode" where
  "apply_clause c cur = apply_op (c_op c) (whom (c_who c)) (letter_bits (whom (c_who c)) cur (c_perms c)) cur"

lemma fold_add_who:
  "fold add_who p w = \<lparr>has_u = (has_u w \<or> list_ex (\<lambda>c. c \<in> set ''ua'') p), has_g = (has_g w \<or> list_ex (\<lambda>c. c \<in> set ''ga'') p),
     has_o = (has_o w \<or> list_ex (\<lambda>c. c \<in> set ''oa'') p)\<rparr>"
  by (induction p arbitrary: w) (auto simp: add_who_def)

lemma parse_who_text:
  assumes "list_all is_who p" "\<not> is_who c"
  shows "parse_who (p @ c # r) = (whom p, c # r)"
proof -
  have "takeWhile is_who (p @ c # r) = p" "dropWhile is_who (p @ c # r) = c # r"
    using assms by (simp_all add: takeWhile_append2 dropWhile_append2 list_all_iff)
  moreover have "p \<noteq> [] \<Longrightarrow> list_ex (\<lambda>c. c \<in> set ''ua'') p \<or> list_ex (\<lambda>c. c \<in> set ''ga'') p \<or> list_ex (\<lambda>c. c \<in> set ''oa'') p"
    using assms(1) by (cases p) (auto simp: is_who_def)
  ultimately show ?thesis by (auto simp: parse_who_def Let_def fold_add_who whom_def)
qed

lemma perm_letter_some: "x \<in> set ''rwxXst'' \<Longrightarrow> \<exists>b. perm_letter w cur x = Some b"
  by (auto simp: perm_letter_def)

lemma parse_perms_text:
  assumes "list_all (\<lambda>x. x \<in> set ''rwxXst'') ps" "r = [] \<or> hd r = CHR '',''"
  shows "parse_perms w cur b (ps @ r) = Some (fold (\<lambda>c b. b OR the (perm_letter w cur c)) ps b, r)"
  using assms(1)
proof (induction ps arbitrary: b)
  case Nil
  then show ?case using assms(2) by (cases r) auto
next
  case (Cons x ps)
  then have "x \<noteq> CHR '',''" "\<not> is_op x" by (auto simp: is_op_def)
  moreover from Cons.prems have "x \<in> set ''rwxXst''" by simp
  then obtain c where "perm_letter w cur x = Some c" using perm_letter_some by blast
  ultimately show ?case using Cons by simp
qed

lemma parse_symbolic_clause:
  assumes "clause_ok c" "r = [] \<or> hd r = CHR '',''"
  shows "parse_symbolic (clause_text c @ r) cur = parse_symbolic (tl r) (apply_clause c cur)"
proof -
  have "\<not> is_who (c_op c)" using assms(1) by (auto simp: clause_ok_def is_op_def is_who_def)
  then have "parse_who (clause_text c @ r) = (whom (c_who c), c_op c # c_perms c @ r)"
    using parse_who_text [of "c_who c" "c_op c" "c_perms c @ r"] assms(1) by (simp add: clause_text_def clause_ok_def)
  moreover have "parse_perms (whom (c_who c)) cur 0 (c_perms c @ r) = Some (letter_bits (whom (c_who c)) cur (c_perms c), r)"
    using parse_perms_text [OF _ assms(2)] assms(1) by (simp add: clause_ok_def letter_bits_def)
  moreover have "(if r \<noteq> [] \<and> hd r = CHR '','' then tl r else r) = tl r" using assms(2) by auto
  ultimately show ?thesis
    using assms(1) by (subst parse_symbolic.simps) (simp add: clause_text_def clause_ok_def apply_clause_def)
qed

lemma parse_symbolic_clauses:
  "list_all clause_ok cs \<Longrightarrow> parse_symbolic (joined '','' (map clause_text cs)) cur = fold apply_clause cs cur"
proof (induction cs arbitrary: cur)
  case Nil
  then show ?case by (simp add: parse_symbolic.simps)
next
  case (Cons c cs)
  show ?case
  proof (cases cs)
    case Nil
    then show ?thesis using Cons.prems parse_symbolic_clause [of c "[]" cur] by (simp add: parse_symbolic.simps)
  next
    case (Cons d ds)
    then show ?thesis
      using Cons.prems Cons.IH parse_symbolic_clause [of c "CHR '','' # joined '','' (map clause_text cs)" cur] by simp
  qed
qed



section \<open>Only permission bits change\<close>

lemma for_who_low: "u AND X = 0 \<Longrightarrow> g AND X = 0 \<Longrightarrow> o1 AND X = 0 \<Longrightarrow> for_who w u g o1 AND X = 0"
  by (simp add: for_who_def word_ao_dist)

lemma perm_letter_low: "perm_letter w cur c = Some b \<Longrightarrow> b AND NOT 0xFFF = 0"
  by (auto simp: perm_letter_def split: if_splits intro!: for_who_low)

lemma parse_perms_low:
  assumes "parse_perms w cur bits p = Some (b, q)" "bits AND NOT 0xFFF = 0"
  shows "b AND NOT 0xFFF = 0"
proof -
  define X :: mode where "X = NOT 0xFFF"
  have "parse_perms w cur bits p = Some (b, q) \<Longrightarrow> bits AND X = 0 \<Longrightarrow> b AND X = 0"
    by (induction w cur bits p rule: parse_perms.induct)
       (auto simp: word_ao_dist dest: perm_letter_low [folded X_def] split: if_splits option.splits)
  then show ?thesis using assms by (simp add: X_def)
qed

lemma apply_op_low:
  assumes "bits AND NOT 0xFFF = 0"
  shows "apply_op op w bits cur AND NOT 0xFFF = cur AND NOT 0xFFF"
proof -
  define X :: mode where "X = NOT 0xFFF"
  have compl: "NOT a AND X = X" if "a AND X = 0" for a
  proof -
    have "X = (a AND X) OR (NOT a AND X)" by (simp flip: word_ao_dist)
    with that show ?thesis by simp
  qed
  have "who_mask w AND X = 0"
    unfolding who_mask_def word_ao_dist by (simp add: for_who_low X_def)
  then show ?thesis
    using assms compl [of bits] compl [of "who_mask w"] unfolding X_def [symmetric]
    by (simp add: apply_op_def word_ao_dist and.assoc)
qed

lemma parse_symbolic_low: "parse_symbolic p cur = - 1 \<or> parse_symbolic p cur AND NOT 0xFFF = cur AND NOT 0xFFF"
proof (induction p cur rule: parse_symbolic.induct)
  case (1 p cur)
  obtain w q where w: "parse_who p = (w, q)" by fastforce
  show ?case
  proof (cases "p = [] \<or> q = [] \<or> \<not> is_op (hd q) \<or> parse_perms w cur 0 (tl q) = None")
    case True
    then show ?thesis using w by (auto simp: parse_symbolic.simps [of p cur])
  next
    case False
    then obtain b r where b: "parse_perms w cur 0 (tl q) = Some (b, r)" by auto
    let ?r = "if r \<noteq> [] \<and> hd r = CHR '','' then tl r else r" and ?c = "apply_op (hd q) w b cur"
    have "parse_symbolic p cur = parse_symbolic ?r ?c" using False w b by (simp add: parse_symbolic.simps [of p cur])
    moreover have "?c AND NOT 0xFFF = cur AND NOT 0xFFF"
      using apply_op_low parse_perms_low [OF b] by simp
    ultimately show ?thesis
      using "1.IH" [OF _ w [symmetric] _ b refl] False by (metis (no_types, lifting))
  qed
qed

theorem symbolic_mode_keeps_type:
  "parse_symbolic p cur = - 1 \<or> parse_symbolic p cur AND NOT 0xFFF = cur AND NOT 0xFFF"
  by (rule parse_symbolic_low)

section \<open>Printed modes are read back\<close>

definition octal_digit :: "nat \<Rightarrow> char" where
  "octal_digit d = char_of (48 + d mod 8)"

definition octal_text :: "nat \<Rightarrow> cstring" where
  "octal_text m = map octal_digit [m div 512, m div 64, m div 8, m]"

definition rwx_text :: "nat \<Rightarrow> cstring" where
  "rwx_text v = (if 4 \<le> v mod 8 then ''r'' else []) @ (if 2 \<le> v mod 4 then ''w'' else []) @ (if v mod 2 = 1 then ''x'' else [])"

definition symbolic_text :: "nat \<Rightarrow> cstring" where
  "symbolic_text m = ''u='' @ rwx_text (m div 64) @ '',g='' @ rwx_text (m div 8) @ '',o='' @ rwx_text m"

lemma octal_digit_ord: "of_char (octal_digit d) = 48 + d mod 8"
  by (simp add: octal_digit_def)

theorem octal_mode_roundtrip:
  assumes "m < 4096"
  shows "parse_mode_str (octal_text m) = Some (True, of_nat m)"
proof -
  have "octal_value (octal_text m) 0 = m"
  proof -
    have "m div 64 = m div 8 div 8" "m div 512 = m div 8 div 8 div 8" by (simp_all add: div_mult2_eq [symmetric])
    moreover have "m div 512 < 8" using assms by (simp add: less_mult_imp_div_less)
    moreover have "8 * (a div 8) + a mod 8 = a" for a :: nat by simp
    ultimately have "8 * (8 * (8 * (m div 512 mod 8) + m div 64 mod 8) + m div 8 mod 8) + m mod 8 = m"
      by (metis mod_less)
    moreover have "m div 512 mod 8 = m div 512" using \<open>m div 512 < 8\<close> by simp
    ultimately show ?thesis by (simp add: octal_text_def octal_digit_ord)
  qed
  moreover have "list_all is_octal_digit (octal_text m)"
  proof -
    have "a mod 8 \<le> 7" for a :: nat by (rule less_Suc_eq_le [THEN iffD1]) simp
    then show ?thesis by (simp add: octal_text_def is_octal_digit_def octal_digit_ord)
  qed
  ultimately show ?thesis by (simp add: parse_mode_str_def octal_text_def)
qed

theorem octal_mode_roundtrip_witness: "parse_mode_str (octal_text 493) = Some (True, of_nat 493)"
  by (rule octal_mode_roundtrip) simp


lemma rwx_text_ok: "list_all (\<lambda>x. x \<in> set ''rwxXst'') (rwx_text v)"
  by (simp add: rwx_text_def)

definition triad :: "nat \<Rightarrow> who \<Rightarrow> mode" where
  "triad v w = for_who w (push_bit 6 (of_nat (v mod 8))) (push_bit 3 (of_nat (v mod 8))) (of_nat (v mod 8))"

lemma mod_8_cases: "v mod 8 = 0 \<or> v mod 8 = 1 \<or> v mod 8 = 2 \<or> v mod 8 = 3 \<or> v mod 8 = 4 \<or> v mod 8 = 5 \<or> v mod 8 = 6 \<or> v mod 8 = (7::nat)"
proof -
  have "n < 8 \<Longrightarrow> n = 0 \<or> n = 1 \<or> n = 2 \<or> n = 3 \<or> n = 4 \<or> n = 5 \<or> n = 6 \<or> n = 7" for n :: nat by auto
  from this [of "v mod 8"] show ?thesis by simp
qed

lemma letter_bits_rwx: "letter_bits w cur (rwx_text v) = triad v w"
proof -
  have *: "rwx_text v = rwx_text (v mod 8)" "triad v w = triad (v mod 8) w"
    by (simp_all add: rwx_text_def triad_def mod_mod_cancel)
  show ?thesis
    using mod_8_cases [of v] unfolding * by (elim disjE) (simp_all add: letter_bits_def rwx_text_def triad_def perm_letter_def for_who_def)
qed

lemma clear_then_set:
  fixes cur :: mode
  assumes "x AND a2 = 0" "x AND a3 = 0" "y AND a3 = 0"
  shows "((((((cur AND NOT a1) OR x) AND NOT a2) OR y) AND NOT a3) OR z) = (cur AND NOT (a1 OR a2 OR a3)) OR x OR y OR z"
proof -
  have keep: "b AND NOT a = b" if "b AND a = 0" for a b :: mode
  proof -
    have "b = (b AND a) OR (b AND NOT a)" by (simp flip: word_ao_dist2)
    with that show ?thesis by simp
  qed
  show ?thesis
    using keep [OF assms(1)] keep [OF assms(2)] keep [OF assms(3)]
    by (simp add: word_ao_dist and.assoc or.assoc bit.de_Morgan_disj)
qed

lemma octal_digits_disjoint:
  fixes u v :: nat
  shows "push_bit 6 (of_nat (u mod 8)) AND push_bit 3 (of_nat (v mod 8)) = (0 :: mode)"
    "push_bit 6 (of_nat (u mod 8)) AND of_nat (v mod 8) = (0 :: mode)"
    "push_bit 3 (of_nat (u mod 8)) AND of_nat (v mod 8) = (0 :: mode)"
proof -
  have below: "push_bit k a AND b = (0 :: mode)" if "b AND 7 = b" "push_bit k a AND 7 = 0" for k a b
  proof -
    have "push_bit k a AND b = (push_bit k a AND 7) AND b"
      by (subst that(1) [symmetric]) (simp only: ac_simps)
    then show ?thesis by (simp only: that(2) zero_and_eq)
  qed
  have seven: "of_nat (v mod 8) AND (7 :: mode) = of_nat (v mod 8)" "push_bit 3 (of_nat (v mod 8)) AND (0x38 :: mode) = push_bit 3 (of_nat (v mod 8))" for v :: nat
    using mod_8_cases [of v] by auto
  have clear: "push_bit 6 (of_nat (u mod 8)) AND (7 :: mode) = 0" "push_bit 3 (of_nat (u mod 8)) AND (7 :: mode) = 0"
    "push_bit 6 (of_nat (u mod 8)) AND (0x38 :: mode) = 0" for u :: nat
    using mod_8_cases [of u] by auto
  show "push_bit 6 (of_nat (u mod 8)) AND of_nat (v mod 8) = (0 :: mode)"
    "push_bit 3 (of_nat (u mod 8)) AND of_nat (v mod 8) = (0 :: mode)"
    by (rule below; simp only: seven clear)+
  show "push_bit 6 (of_nat (u mod 8)) AND push_bit 3 (of_nat (v mod 8)) = (0 :: mode)"
  proof -
    have "push_bit 6 (of_nat (u mod 8)) AND push_bit 3 (of_nat (v mod 8))
        = (push_bit 6 (of_nat (u mod 8)) AND (0x38 :: mode)) AND push_bit 3 (of_nat (v mod 8))"
      by (subst seven(2) [of v, symmetric]) (simp only: ac_simps)
    then show ?thesis by (simp only: clear zero_and_eq)
  qed
qed

theorem symbolic_mode_roundtrip:
  assumes "m < 512"
  shows "parse_symbolic (symbolic_text m) cur = (cur AND NOT 0xFFF) OR of_nat m"
proof -
  let ?c = "\<lambda>c v. \<lparr>c_who = [c], c_op = CHR ''='', c_perms = rwx_text v\<rparr>"
  let ?cs = "[?c (CHR ''u'') (m div 64), ?c (CHR ''g'') (m div 8), ?c (CHR ''o'') m]"
  have "list_all clause_ok ?cs" using rwx_text_ok by (simp add: clause_ok_def is_who_def is_op_def)
  then have start: "parse_symbolic (symbolic_text m) cur = fold apply_clause ?cs cur"
    using parse_symbolic_clauses [of ?cs cur] by (simp add: clause_text_def symbolic_text_def)
  define x y z :: mode where "x = push_bit 6 (of_nat (m div 64 mod 8))"
    and "y = push_bit 3 (of_nat (m div 8 mod 8))" and "z = of_nat (m mod 8)"
  have disjoint: "push_bit 6 (of_nat (v mod 8)) AND (0x638 :: mode) = 0" "push_bit 6 (of_nat (v mod 8)) AND (0x207 :: mode) = 0"
    "push_bit 3 (of_nat (v mod 8)) AND (0x207 :: mode) = 0" for v
    using mod_8_cases [of v] by auto
  have "fold apply_clause ?cs cur = (((((cur AND NOT 0xBC0) OR x) AND NOT 0x638) OR y) AND NOT 0x207) OR z"
    by (simp add: apply_clause_def apply_op_def letter_bits_rwx triad_def whom_def for_who_def who_mask_def x_def y_def z_def)
  also have "\<dots> = (cur AND NOT (0xBC0 OR 0x638 OR 0x207)) OR x OR y OR z"
    by (rule clear_then_set) (simp_all add: disjoint x_def y_def)
  also have "x OR y OR z = of_nat m"
  proof -
    have "x AND y = 0" "x AND z = 0" "y AND z = 0"
      unfolding x_def y_def z_def by (rule octal_digits_disjoint)+
    then have "x AND (y OR z) = 0" by (simp add: word_ao_dist2)
    moreover have "y OR z = y + z" using word_plus_and_or [of y z] \<open>y AND z = 0\<close> by simp
    ultimately have "x OR (y OR z) = x + (y + z)"
      using word_plus_and_or [of x "y OR z"] by simp
    then have "x OR y OR z = x + (y + z)" by (simp only: or.assoc)
    also have "\<dots> = of_nat (64 * (m div 64 mod 8) + (8 * (m div 8 mod 8) + m mod 8))"
      by (simp add: x_def y_def z_def push_bit_eq_mult mult.commute)
    also have "64 * (m div 64 mod 8) + (8 * (m div 8 mod 8) + m mod 8) = m"
    proof -
      have "m div 64 mod 8 = m div 64" "m div 64 = m div 8 div 8" using assms
        by (simp_all add: less_mult_imp_div_less div_mult2_eq [symmetric])
      moreover have "8 * (a div 8) + a mod 8 = a" for a :: nat by simp
      from this [of "m div 8"] this [of m] have "64 * (m div 8 div 8) + (8 * (m div 8 mod 8) + m mod 8) = m" by linarith
      ultimately show ?thesis by simp
    qed
    finally show ?thesis .
  qed
  finally show ?thesis using start by simp
qed


theorem symbolic_mode_roundtrip_witness: "parse_symbolic (symbolic_text 0x1A4) 0x81ED = 0x81A4"
  using symbolic_mode_roundtrip [of "0x1A4" "0x81ED"] by simp

section \<open>The walk ends\<close>

text \<open>Where every entry lies below its directory in some measure, the measure is levels enough.\<close>

lemma chmod_recurse_some:
  assumes "\<And>path names name. readdir path = Some names \<Longrightarrow> name \<in> set names \<Longrightarrow> name \<noteq> ''.'' \<Longrightarrow> name \<noteq> ''..'' \<Longrightarrow>
      depth (child_path path name) < depth path"
  shows "depth path < n \<Longrightarrow> \<exists>r fs1. chmod_recurse may readdir opts n path fs = Some (r, fs1)"
proof (induction n arbitrary: path fs)
  case (Suc n)
  obtain ret fs1 where one: "chmod_one may opts path fs = (ret, fs1)" by fastforce
  show ?case
  proof (cases "readdir path")
    case None
    then show ?thesis using one by simp
  next
    case (Some names)
    let ?f = "\<lambda>s name. case s of
        None \<Rightarrow> None
      | Some (r, f) \<Rightarrow>
          if name = ''.'' \<or> name = ''..'' then Some (r, f)
          else (case chmod_recurse may readdir opts n (child_path path name) f of
                  None \<Rightarrow> None
                | Some (r1, f1) \<Rightarrow> Some (if r1 \<noteq> 0 then 1 else r, f1))"
    have "set ns \<subseteq> set names \<Longrightarrow> \<exists>r1 f1. foldl ?f (Some (r, f)) ns = Some (r1, f1)" for ns r f
    proof (induction ns arbitrary: r f)
      case (Cons name ns)
      have "\<exists>r1 f1. ?f (Some (r, f)) name = Some (r1, f1)"
      proof (cases "name = ''.'' \<or> name = ''..''")
        case False
        then have "depth (child_path path name) < n" using assms [OF Some, of name] Cons.prems Suc.prems by auto
        then obtain r1 f1 where "chmod_recurse may readdir opts n (child_path path name) f = Some (r1, f1)"
          using Suc.IH by blast
        then show ?thesis using False by simp
      qed auto
      then obtain r1 f1 where "?f (Some (r, f)) name = Some (r1, f1)" by blast
      then show ?case using Cons.IH [of r1 f1] Cons.prems by simp
    qed simp
    from this [of names ret fs1] show ?thesis using one Some by simp
  qed
qed simp

theorem chmod_recurse_ends:
  assumes "\<And>path names name. readdir path = Some names \<Longrightarrow> name \<in> set names \<Longrightarrow> name \<noteq> ''.'' \<Longrightarrow> name \<noteq> ''..'' \<Longrightarrow>
      depth (child_path path name) < depth path" "depth path < n"
  shows "\<exists>r fs1. chmod_recurse may readdir opts n path fs = Some (r, fs1)"
  by (rule chmod_recurse_some [OF assms])

theorem chmod_recurse_ends_witness:
  "\<exists>r fs1. chmod_recurse (\<lambda>p. True) (\<lambda>p. if p = ''d'' then Some [''.'', ''f''] else None)
     \<lparr>is_octal = True, octal_mode = 0x1ED, sym_spec = ''755''\<rparr> 2 ''d'' fs = Some (r, fs1)"
  by (rule chmod_recurse_ends [where depth = "\<lambda>p. if p = ''d'' then 1 else 0"]) (auto simp: child_path_def split: if_splits)

section \<open>Where the code departs from what it means to do\<close>

text \<open>A symbolic mode given for a link is computed from the link's own 0777 and set on its target.\<close>

lemma symbolic_mode_through_link:
  "map_option (\<lambda>(r, fs). (r, fs ''f''))
     (chmod_run (\<lambda>p. True) (\<lambda>p. None) False 1 ''u+x'' [''l''] [''l'' \<mapsto> Symlink ''f'', ''f'' \<mapsto> Inode 0x8180])
   = Some (0, Some (Inode 0x81FF))"
proof -
  have "parse_symbolic ''u+x'' 0x1FF = 0x1FF"
    using parse_symbolic_clauses [of "[\<lparr>c_who = ''u'', c_op = CHR ''+'', c_perms = ''x''\<rparr>]" "0x1FF"]
    by (simp add: clause_text_def clause_ok_def is_who_def is_op_def apply_clause_def apply_op_def letter_bits_def
        perm_letter_def for_who_def whom_def)
  then show ?thesis
    by (simp add: chmod_run_def parse_mode_str_def is_octal_digit_def chmod_one_def lstat_mode_def sys_chmod_def
        resolve.simps Let_def)
qed

text \<open>\<open>X\<close> asks \<open>S_ISDIR\<close> of a value without the type bits, so it never sees a directory.\<close>

lemma directory_not_seen: "\<not> S_ISDIR (st AND 0xFFF)"
  by (simp add: S_ISDIR_def and.assoc)

lemma empty_mode_accepted: "parse_mode_str [] = Some (False, 0)"
  by (simp add: parse_mode_str_def)

text \<open>A second operator after the same letters applies to everyone.\<close>

lemma second_operator_for_all: "parse_symbolic ''u=r+x'' 0 = 0x149"
  by code_simp

end
