(* ===== verification/Xargs.thy ===== *)
theory Xargs
  imports Prelude "HOL-Library.Multiset"
begin

text \<open>
  The command \<open>xargs\<close> (\<^verbatim>\<open>cmd_xargs.c\<close>): the hand-written option parser, the splitting of the input
  into items, the command lines built from them, and the pool of child processes. The pool runs
  concurrently with its children, so it is a step relation: between any two steps of \<open>xargs\<close> any
  running child may end with any status. Allocations succeed; the standard error is left out.

  The lemmas show that the items come out of the input as they should, that the commands run are
  the ones built, each once and in order, that never more than the given number run at once, and
  that every run comes to an end.
\<close>

section \<open>Items\<close>

definition XARGS_MAX_ITEMS :: nat where
  "XARGS_MAX_ITEMS = 65536"

text \<open>\<open>str_replace_all\<close>, from the left.\<close>

function str_replace_all :: "cstring \<Rightarrow> cstring \<Rightarrow> cstring \<Rightarrow> cstring" where
  "str_replace_all src old new =
     (if old = [] then src
      else (case strstr src old of
              None \<Rightarrow> src
            | Some i \<Rightarrow> take i src @ new @ str_replace_all (drop (i + length old) src) old new))"
  by pat_completeness auto
termination
proof (relation "measure (\<lambda>(src, old, new). length src)")
  fix src old new :: cstring and i
  assume "old \<noteq> []" "strstr src old = Some i"
  then have "src \<noteq> []" by auto
  then show "((drop (i + length old) src, old, new), src, old, new) \<in> measure (\<lambda>(src, old, new). length src)"
    using \<open>old \<noteq> []\<close> by (cases old) auto
qed auto

declare str_replace_all.simps [simp del]

definition items_null :: "char list \<Rightarrow> cstring list" where
  "items_null buf = take XARGS_MAX_ITEMS (strtok (\<lambda>c. c = NUL) buf)"

text \<open>
  With a delimiter: \<open>n\<close> items so far, \<open>cur\<close> the bytes of the current one in reverse. A full table
  ends the loop, and the text after the last delimiter is an item only if it does not start with NUL.
\<close>

fun items_delim :: "char \<Rightarrow> nat \<Rightarrow> char list \<Rightarrow> char list \<Rightarrow> cstring list" where
  "items_delim d n cur [] =
     (if cur \<noteq> [] \<and> last cur \<noteq> NUL \<and> n < XARGS_MAX_ITEMS then [c_str (rev cur)] else [])"
| "items_delim d n cur (c # buf) =
     (if XARGS_MAX_ITEMS \<le> n then []
      else if c = d then (if cur = [] then items_delim d n [] buf else c_str (rev cur) # items_delim d (n + 1) [] buf)
      else items_delim d n (c # cur) buf)"

definition items_blank :: "char list \<Rightarrow> cstring list" where
  "items_blank buf = map c_str (take XARGS_MAX_ITEMS (strtok isspace buf))"

section \<open>Options\<close>

record xargs_opts =
  rep :: "cstring option"
  npercmd :: int
  nprocs :: int
  delim_c :: char
  use_delim :: bool
  do_null :: bool
  cmd :: "cstring list"

definition no_opts :: xargs_opts where
  "no_opts = \<lparr>rep = None, npercmd = 0, nprocs = 1, delim_c = NUL, use_delim = False, do_null = False, cmd = []\<rparr>"

definition first_char :: "cstring \<Rightarrow> char" where
  "first_char s = (if s = [] then NUL else hd s)"

definition digit_at :: "nat \<Rightarrow> cstring \<Rightarrow> bool" where
  "digit_at i a \<longleftrightarrow> i < length a \<and> isdigit (a ! i)"

text \<open>The options that take the next word, or their value in the same word.\<close>

definition takes_word :: "cstring \<Rightarrow> (cstring \<Rightarrow> xargs_opts \<Rightarrow> xargs_opts) option" where
  "takes_word a =
     (if a = ''-I'' \<or> a = ''--replace'' then Some (\<lambda>v opts. opts\<lparr>rep := Some v\<rparr>)
      else if a = ''-n'' \<or> a = ''--max-args'' then Some (\<lambda>v opts. opts\<lparr>npercmd := atoi v\<rparr>)
      else if a = ''-P'' \<or> a = ''--max-procs'' then Some (\<lambda>v opts. opts\<lparr>nprocs := atoi v\<rparr>)
      else if a = ''-d'' \<or> a = ''--delimiter'' then Some (\<lambda>v opts. opts\<lparr>delim_c := first_char v, use_delim := True\<rparr>)
      else None)"

definition has_value :: "cstring \<Rightarrow> (xargs_opts \<Rightarrow> xargs_opts) option" where
  "has_value a =
     (if prefix ''-I'' a \<and> 2 < length a then Some (\<lambda>opts. opts\<lparr>rep := Some (drop 2 a)\<rparr>)
      else if prefix ''--replace='' a then Some (\<lambda>opts. opts\<lparr>rep := Some (drop 10 a)\<rparr>)
      else if prefix ''-n'' a \<and> digit_at 2 a then Some (\<lambda>opts. opts\<lparr>npercmd := atoi (drop 2 a)\<rparr>)
      else if prefix ''--max-args='' a then Some (\<lambda>opts. opts\<lparr>npercmd := atoi (drop 11 a)\<rparr>)
      else if prefix ''-P'' a \<and> digit_at 2 a then Some (\<lambda>opts. opts\<lparr>nprocs := atoi (drop 2 a)\<rparr>)
      else if prefix ''--max-procs='' a then Some (\<lambda>opts. opts\<lparr>nprocs := atoi (drop 12 a)\<rparr>)
      else if prefix ''-d'' a \<and> 2 < length a then Some (\<lambda>opts. opts\<lparr>delim_c := a ! 2, use_delim := True\<rparr>)
      else if prefix ''--delimiter='' a then Some (\<lambda>opts. opts\<lparr>delim_c := first_char (drop 12 a), use_delim := True\<rparr>)
      else None)"

text \<open>None is the missing argument of an option.\<close>

fun parse_xargs_opts :: "cstring list \<Rightarrow> xargs_opts \<Rightarrow> xargs_opts option" where
  "parse_xargs_opts [] opts = Some (opts\<lparr>cmd := []\<rparr>)"
| "parse_xargs_opts (a # as) opts =
     (if a = [] \<or> hd a \<noteq> CHR ''-'' \<or> a = ''-'' then Some (opts\<lparr>cmd := a # as\<rparr>)
      else if a = ''--'' then Some (opts\<lparr>cmd := as\<rparr>)
      else if a = ''-0'' \<or> a = ''--null'' then parse_xargs_opts as (opts\<lparr>do_null := True\<rparr>)
      else (case takes_word a of
              Some f \<Rightarrow> (case as of [] \<Rightarrow> None | v # rest \<Rightarrow> parse_xargs_opts rest (f v opts))
            | None \<Rightarrow>
                (case has_value a of
                   Some f \<Rightarrow> parse_xargs_opts as (f opts)
                 | None \<Rightarrow> Some (opts\<lparr>cmd := a # as\<rparr>))))"

definition split_items :: "xargs_opts \<Rightarrow> char list \<Rightarrow> cstring list" where
  "split_items opts buf =
     (if do_null opts then items_null buf else if use_delim opts then items_delim (delim_c opts) 0 [] buf
      else items_blank buf)"

section \<open>The commands\<close>

definition spawn_replace_argv :: "cstring list \<Rightarrow> cstring \<Rightarrow> cstring \<Rightarrow> cstring list" where
  "spawn_replace_argv base r item =
     map (\<lambda>a. if strstr a r \<noteq> None then str_replace_all a r item else a) base"

text \<open>The chunks of the batch loop, of \<open>k\<close> items each but the last.\<close>

function chunks :: "nat \<Rightarrow> 'a list \<Rightarrow> 'a list list" where
  "chunks k xs = (if xs = [] \<or> k = 0 then [] else take k xs # chunks k (drop k xs))"
  by pat_completeness auto
termination by (relation "measure (\<lambda>(k, xs). length xs)") auto

declare chunks.simps [simp del]

definition commands :: "xargs_opts \<Rightarrow> cstring list \<Rightarrow> cstring list list" where
  "commands opts items =
     (let base = (if cmd opts = [] then [''echo''] else cmd opts) in
      case rep opts of
        Some r \<Rightarrow> map (spawn_replace_argv base r) items
      | None \<Rightarrow> map (\<lambda>es. base @ es) (chunks (if 0 < npercmd opts then nat (npercmd opts) else length items) items))"

section \<open>The pool\<close>

datatype child_status = Exited_with int | Not_exited

record pool =
  pids :: "int list"
  cur :: int
  pool_rc :: int

definition pool_init :: "int \<Rightarrow> pool" where
  "pool_init n = \<lparr>pids = replicate (nat (if 0 < n then n else 1)) 0, cur = 0, pool_rc = 0\<rparr>"

definition pool_max :: "pool \<Rightarrow> int" where
  "pool_max p = int (length (pids p))"

definition pool_record :: "child_status \<Rightarrow> pool \<Rightarrow> pool" where
  "pool_record st p = (case st of
      Not_exited \<Rightarrow> if pool_rc p = 0 then p\<lparr>pool_rc := 1\<rparr> else p
    | Exited_with ec \<Rightarrow> if ec = 255 then p\<lparr>pool_rc := 123\<rparr> else if ec \<noteq> 0 \<and> pool_rc p = 0 then p\<lparr>pool_rc := 1\<rparr> else p)"

definition pool_forget :: "int \<Rightarrow> pool \<Rightarrow> pool" where
  "pool_forget pid p = (case first_idx (\<lambda>q. q = pid) (pids p) of
      None \<Rightarrow> p
    | Some i \<Rightarrow> p\<lparr>pids := (pids p)[i := 0], cur := cur p - 1\<rparr>)"

definition pool_reap :: "int \<Rightarrow> child_status \<Rightarrow> pool \<Rightarrow> pool" where
  "pool_reap pid st p = pool_record st (pool_forget pid p)"

definition pool_add :: "int \<Rightarrow> pool \<Rightarrow> pool" where
  "pool_add pid p = (case first_idx (\<lambda>q. q = 0) (pids p) of
      None \<Rightarrow> p
    | Some i \<Rightarrow> p\<lparr>pids := (pids p)[i := pid], cur := cur p + 1\<rparr>)"

section \<open>The run\<close>

text \<open>
  Where \<open>xargs\<close> is: the test of its loop, the two loops of \<open>pool_wait_slot\<close>, the fork, the drain with
  the status so far, and the end. The children not yet waited for are pairs of a process id and
  the status of those that have ended.
\<close>

datatype phase = At_loop | Reaping | Blocking | Spawning | Draining int | Finished int

record xstate =
  phase :: phase
  todo :: "cstring list list"
  the_pool :: pool
  kids :: "(int \<times> child_status option) list"
  launched :: "cstring list list"

definition xargs_start :: "int \<Rightarrow> cstring list list \<Rightarrow> xstate" where
  "xargs_start n cs = \<lparr>phase = At_loop, todo = cs, the_pool = pool_init n, kids = [], launched = []\<rparr>"

inductive xstep :: "xstate \<Rightarrow> xstate \<Rightarrow> bool" where
  child_ends: "kids s = xs @ (pid, None) # ys \<Longrightarrow> xstep s (s\<lparr>kids := xs @ (pid, Some st) # ys\<rparr>)"
| loop_again: "phase s = At_loop \<Longrightarrow> todo s \<noteq> [] \<Longrightarrow> pool_rc (the_pool s) \<noteq> 123 \<Longrightarrow> xstep s (s\<lparr>phase := Reaping\<rparr>)"
| loop_over: "phase s = At_loop \<Longrightarrow> todo s = [] \<or> pool_rc (the_pool s) = 123 \<Longrightarrow> xstep s (s\<lparr>phase := Draining 0\<rparr>)"
| reap: "phase s = Reaping \<Longrightarrow> kids s = xs @ (pid, Some st) # ys \<Longrightarrow>
    xstep s (s\<lparr>kids := xs @ ys, the_pool := pool_reap pid st (the_pool s)\<rparr>)"
| reaped: "phase s = Reaping \<Longrightarrow> list_all (\<lambda>k. snd k = None) (kids s) \<Longrightarrow> xstep s (s\<lparr>phase := Blocking\<rparr>)"
| wait_one: "phase s = Blocking \<Longrightarrow> pool_max (the_pool s) \<le> cur (the_pool s) \<Longrightarrow> kids s = xs @ (pid, Some st) # ys \<Longrightarrow>
    xstep s (s\<lparr>kids := xs @ ys, the_pool := pool_reap pid st (the_pool s)\<rparr>)"
| wait_nobody: "phase s = Blocking \<Longrightarrow> pool_max (the_pool s) \<le> cur (the_pool s) \<Longrightarrow> kids s = [] \<Longrightarrow> xstep s s"
| slot_free: "phase s = Blocking \<Longrightarrow> cur (the_pool s) < pool_max (the_pool s) \<Longrightarrow> xstep s (s\<lparr>phase := Spawning\<rparr>)"
| spawn: "phase s = Spawning \<Longrightarrow> todo s = c # cs \<Longrightarrow> 0 < pid \<Longrightarrow> pid \<notin> fst ` set (kids s) \<Longrightarrow>
    xstep s (s\<lparr>phase := At_loop, todo := cs, the_pool := pool_add pid (the_pool s), kids := (pid, None) # kids s,
               launched := launched s @ [c]\<rparr>)"
| spawn_fails: "phase s = Spawning \<Longrightarrow> xstep s (s\<lparr>phase := Draining 125\<rparr>)"
| drain_one: "phase s = Draining r \<Longrightarrow> 0 < cur (the_pool s) \<Longrightarrow> kids s = xs @ (pid, Some st) # ys \<Longrightarrow>
    xstep s (s\<lparr>kids := xs @ ys, the_pool := pool_reap pid st (the_pool s)\<rparr>)"
| drained: "phase s = Draining r \<Longrightarrow> cur (the_pool s) \<le> 0 \<or> kids s = [] \<Longrightarrow>
    xstep s (s\<lparr>phase := Finished (if r = 0 then pool_rc (the_pool s) else r)\<rparr>)"

text \<open>What \<open>xargs\<close> does before it has processes to run, or the pool it starts.\<close>

datatype xargs_result = Returns int | Runs xstate

definition xargs_run :: "cstring list \<Rightarrow> char list \<Rightarrow> xargs_result" where
  "xargs_run args inp =
     (if list_ex (\<lambda>a. a = ''--help'' \<or> a = ''-h'' \<or> a = ''--help-json'') args then Returns 0
      else (case parse_xargs_opts args no_opts of
              None \<Rightarrow> Returns 125
            | Some opts \<Rightarrow>
                (let items = split_items opts inp in
                 if items = [] then Returns 0 else Runs (xargs_start (nprocs opts) (commands opts items)))))"

section \<open>The pool holds the children\<close>

definition busy :: "pool \<Rightarrow> int list" where
  "busy p = filter (\<lambda>q. q \<noteq> 0) (pids p)"

definition pool_ok :: "xstate \<Rightarrow> bool" where
  "pool_ok s \<longleftrightarrow> mset (busy (the_pool s)) = mset (map fst (kids s)) \<and> cur (the_pool s) = int (length (kids s))
     \<and> (\<forall>k\<in>set (kids s). 0 < fst k) \<and> (phase s = Spawning \<longrightarrow> cur (the_pool s) < pool_max (the_pool s))"

lemma busy_update:
  "first_idx (\<lambda>q. q = x) xs = Some i \<Longrightarrow> x \<noteq> 0 \<Longrightarrow>
     add_mset x (mset (filter (\<lambda>q. q \<noteq> 0) (xs[i := 0]))) = mset (filter (\<lambda>q. q \<noteq> 0) xs)"
  "first_idx (\<lambda>q. q = 0) xs = Some i \<Longrightarrow> x \<noteq> 0 \<Longrightarrow>
     mset (filter (\<lambda>q. q \<noteq> 0) (xs[i := x])) = add_mset x (mset (filter (\<lambda>q. q \<noteq> 0) xs))" for x :: int
  by (induction xs arbitrary: i) (auto split: if_splits)

lemma pool_record_fields [simp]: "pids (pool_record st p) = pids p" "cur (pool_record st p) = cur p"
  by (simp_all add: pool_record_def split: child_status.splits)

lemma pool_reap_ok:
  assumes "pool_ok s" "kids s = xs @ (pid, Some st) # ys" "phase t \<noteq> Spawning"
    "kids t = xs @ ys" "the_pool t = pool_reap pid st (the_pool s)"
  shows "pool_ok t \<and> pool_max (the_pool t) = pool_max (the_pool s)"
proof -
  let ?p = "the_pool s"
  have ms: "mset (busy ?p) = add_mset pid (mset (map fst (xs @ ys)))" and pos: "pid \<noteq> 0" "cur ?p = 1 + int (length (xs @ ys))"
    and rest: "\<forall>k\<in>set (xs @ ys). 0 < fst k"
    using assms(1,2) unfolding pool_ok_def by auto
  have "pid \<in># mset (busy ?p)" unfolding ms by simp
  then have "pid \<in> set (pids ?p)" by (simp add: busy_def)
  then obtain i where i: "first_idx (\<lambda>q. q = pid) (pids ?p) = Some i"
    by (metis (mono_tags) first_idx_None not_None_eq)
  from busy_update(1) [OF i pos(1)] have "mset (busy (pool_reap pid st ?p)) = mset (map fst (xs @ ys))"
    using ms by (simp add: pool_reap_def pool_forget_def i busy_def)
  then show ?thesis
    using assms(3-5) pos(2) rest by (simp add: pool_ok_def pool_reap_def pool_forget_def i pool_max_def)
qed

lemma xstep_ok: "xstep s t \<Longrightarrow> pool_ok s \<Longrightarrow> pool_ok t \<and> pool_max (the_pool t) = pool_max (the_pool s)"
proof (induction s t rule: xstep.induct)
  case (spawn s c cs pid)
  let ?p = "the_pool s"
  have "length (busy ?p) = length (kids s)" using spawn.prems unfolding pool_ok_def by (metis length_map mset_eq_length)
  then have "length (busy ?p) < length (pids ?p)" using spawn by (simp add: pool_ok_def pool_max_def)
  then have "0 \<in> set (pids ?p)" unfolding busy_def by (metis (mono_tags) filter_True less_irrefl)
  then obtain i where i: "first_idx (\<lambda>q. q = 0) (pids ?p) = Some i"
    by (metis (mono_tags) first_idx_None not_None_eq)
  from busy_update(2) [OF i, of pid] spawn show ?case
    by (auto simp: pool_ok_def pool_add_def busy_def pool_max_def i)
next
  case (reap s xs pid st ys)
  then show ?case by (intro pool_reap_ok [of s xs pid st ys]) simp_all
next
  case (wait_one s xs pid st ys)
  then show ?case by (intro pool_reap_ok [of s xs pid st ys]) simp_all
next
  case (drain_one s r xs pid st ys)
  then show ?case by (intro pool_reap_ok [of s xs pid st ys]) simp_all
qed (auto simp: pool_ok_def)

lemma start_ok: "pool_ok (xargs_start n cs)"
  by (simp add: pool_ok_def xargs_start_def pool_init_def busy_def)

lemma reachable_ok:
  "xstep\<^sup>*\<^sup>* (xargs_start n cs) s \<Longrightarrow> pool_ok s \<and> pool_max (the_pool s) = (if 0 < n then n else 1)"
proof (induction rule: rtranclp_induct)
  case base
  then show ?case using start_ok by (simp add: xargs_start_def pool_init_def pool_max_def)
next
  case (step s t)
  then show ?case using xstep_ok by metis
qed



section \<open>The commands run\<close>

definition launch_ok :: "cstring list list \<Rightarrow> xstate \<Rightarrow> bool" where
  "launch_ok cs s \<longleftrightarrow> launched s @ todo s = cs \<and>
     (case phase s of
        Draining r \<Rightarrow> (r = 0 \<and> (todo s = [] \<or> pool_rc (the_pool s) = 123)) \<or> r = 125
      | Finished r \<Rightarrow> kids s = [] \<and> (todo s = [] \<or> pool_rc (the_pool s) = 123 \<or> r = 125)
           \<and> (r = pool_rc (the_pool s) \<or> r = 125)
      | Spawning \<Rightarrow> todo s \<noteq> [] | Blocking \<Rightarrow> todo s \<noteq> [] | Reaping \<Rightarrow> todo s \<noteq> [] | At_loop \<Rightarrow> True)"

lemma rc_stays_123: "pool_rc p = 123 \<Longrightarrow> pool_rc (pool_reap pid st p) = 123"
  by (auto simp: pool_reap_def pool_record_def pool_forget_def split: option.splits child_status.splits)

lemma xstep_launch_ok: "xstep s t \<Longrightarrow> pool_ok s \<Longrightarrow> launch_ok cs s \<Longrightarrow> launch_ok cs t"
proof (induction s t rule: xstep.induct)
  case (child_ends s xs pid ys st)
  then show ?case by (cases "phase s") (auto simp: launch_ok_def)
next
  case (drained s r)
  then have "kids s = []" by (auto simp: pool_ok_def)
  with drained show ?case by (auto simp: launch_ok_def)
next
  case (drain_one s r xs pid st ys)
  then show ?case using rc_stays_123 by (auto simp: launch_ok_def)
qed (auto simp: launch_ok_def)

lemma reachable_launch_ok: "xstep\<^sup>*\<^sup>* (xargs_start n cs) s \<Longrightarrow> launch_ok cs s"
proof (induction rule: rtranclp_induct)
  case base
  then show ?case by (simp add: launch_ok_def xargs_start_def)
next
  case (step s t)
  then show ?case using xstep_launch_ok reachable_ok by blast
qed

theorem commands_run_in_order:
  assumes "xstep\<^sup>*\<^sup>* (xargs_start n cs) s" "phase s = Finished r"
  shows "kids s = [] \<and> prefix (launched s) cs \<and> (r \<noteq> 123 \<longrightarrow> r \<noteq> 125 \<longrightarrow> launched s = cs)"
  using reachable_launch_ok [OF assms(1)] assms(2) by (auto simp: launch_ok_def prefix_def)

theorem commands_run_in_order_witness:
  "launched ((xargs_start 1 [])\<lparr>phase := Finished 0\<rparr>) = []"
proof -
  let ?s = "xargs_start 1 []"
  have "xstep ?s (?s\<lparr>phase := Draining 0\<rparr>)" by (rule xstep.loop_over) (simp_all add: xargs_start_def)
  moreover have "xstep (?s\<lparr>phase := Draining 0\<rparr>) (?s\<lparr>phase := Finished 0\<rparr>)"
    using xstep.drained [of "?s\<lparr>phase := Draining 0\<rparr>" 0] by (simp add: xargs_start_def pool_init_def)
  ultimately have "xstep\<^sup>*\<^sup>* ?s (?s\<lparr>phase := Finished 0\<rparr>)" by (meson r_into_rtranclp rtranclp.rtrancl_into_rtrancl)
  from commands_run_in_order [OF this, of 0] show ?thesis by simp
qed

section \<open>Every run ends\<close>

definition kid_weight :: "int \<times> child_status option \<Rightarrow> nat" where
  "kid_weight k = (if snd k = None then 2 else 1)"

definition phase_weight :: "phase \<Rightarrow> nat" where
  "phase_weight ph = (case ph of At_loop \<Rightarrow> 5 | Reaping \<Rightarrow> 4 | Blocking \<Rightarrow> 3 | Spawning \<Rightarrow> 2 | Draining r \<Rightarrow> 1 | Finished r \<Rightarrow> 0)"

definition steps_left :: "xstate \<Rightarrow> nat" where
  "steps_left s = 8 * length (todo s) + sum_list (map kid_weight (kids s)) + phase_weight (phase s)"

lemma xstep_decreases: "xstep s t \<Longrightarrow> pool_ok s \<Longrightarrow> 0 < pool_max (the_pool s) \<Longrightarrow> steps_left t < steps_left s"
  by (induction s t rule: xstep.induct) (auto simp: steps_left_def kid_weight_def phase_weight_def pool_ok_def)

lemma pool_max_pos: "xstep\<^sup>*\<^sup>* (xargs_start n cs) s \<Longrightarrow> 0 < pool_max (the_pool s)"
  using reachable_ok [of n cs s] by simp

lemma not_stuck:
  assumes "pool_ok s" "launch_ok cs s" "0 < pool_max (the_pool s)"
  shows "(\<exists>t. xstep s t) \<or> (\<exists>r. phase s = Finished r)"
proof (cases "list_all (\<lambda>k. snd k = None) (kids s)")
  case False
  then obtain xs pid st ys where z: "kids s = xs @ (pid, Some st) # ys"
    by (auto simp: list_all_iff dest!: split_list)
  show ?thesis
  proof (cases "phase s")
    case Reaping
    then show ?thesis using xstep.reap z by blast
  next
    case Blocking
    then show ?thesis using xstep.wait_one [OF _ _ z] xstep.slot_free by (meson not_le)
  next
    case (Draining r)
    then show ?thesis using xstep.drain_one [OF _ _ z] xstep.drained by (meson not_le)
  qed (use xstep.loop_again xstep.loop_over xstep.spawn_fails in blast)+
next
  case running: True
  show ?thesis
  proof (cases "kids s")
    case Nil
    then show ?thesis
      using assms xstep.loop_again xstep.loop_over xstep.reaped [OF _ running] xstep.spawn_fails xstep.drained xstep.wait_nobody xstep.slot_free
      by (cases "phase s") (meson not_le)+
  next
    case (Cons k ks)
    then have "kids s = [] @ (fst k, None) # ks" using running by (cases k) auto
    then show ?thesis using xstep.child_ends by blast
  qed
qed



section \<open>Items and batches\<close>

lemma items_null_print0:
  assumes "list_all (\<lambda>i. i \<noteq> [] \<and> NUL \<notin> set i) is"
  shows "strtok (\<lambda>c. c = NUL) (concat (map (\<lambda>i. i @ [NUL]) is)) = is"
proof -
  have "tok_go (\<lambda>c. c = NUL) [] (concat (map (\<lambda>i. i @ [NUL]) is)) = is"
    using assms
  proof (induction "is")
    case (Cons i "is")
    then have "list_all (\<lambda>c. \<not> c = NUL) i" by (auto simp: list_all_iff)
    with Cons show ?case using tok_go_token [of "\<lambda>c. c = NUL" i "[]"] by simp
  qed simp
  then show ?thesis by (simp add: strtok_def)
qed

theorem items_read_back:
  assumes "list_all (\<lambda>i. i \<noteq> [] \<and> NUL \<notin> set i) is" "length is \<le> XARGS_MAX_ITEMS"
  shows "split_items (no_opts\<lparr>do_null := True\<rparr>) (concat (map (\<lambda>i. i @ [NUL]) is)) = is
    \<and> (list_all (list_all (\<lambda>c. \<not> isspace c)) is \<longrightarrow> split_items no_opts (joined '' '' is) = is)"
proof -
  have "strtok isspace (joined '' '' is) = is" if "list_all (list_all (\<lambda>c. \<not> isspace c)) is"
    using that assms(1) by (intro strtok_joined) (auto simp: isspace_def list_all_iff)
  moreover have "map c_str is = is"
    using assms(1) by (intro map_idI c_str_id) (simp add: list_all_iff)
  ultimately show ?thesis
    using assms by (simp add: split_items_def no_opts_def items_null_def items_blank_def items_null_print0)
qed

theorem items_read_back_witness:
  "split_items (no_opts\<lparr>do_null := True\<rparr>) (concat (map (\<lambda>i. i @ [NUL]) [''a b'', ''c''])) = [''a b'', ''c'']"
  using items_read_back [of "[''a b'', ''c'']"] by (simp add: shell_defs XARGS_MAX_ITEMS_def)

lemma items_delim_bound: "n + length (items_delim d n word buf) \<le> max n XARGS_MAX_ITEMS"
  by (induction d n word buf rule: items_delim.induct) (auto simp: max_def)

lemma split_items_bound: "length (split_items opts buf) \<le> XARGS_MAX_ITEMS"
  using items_delim_bound [of 0 "delim_c opts" "[]" buf]
  by (simp add: split_items_def items_null_def items_blank_def)

lemma chunks_parts: "0 < k \<Longrightarrow> concat (chunks k xs) = xs \<and> list_all (\<lambda>c. c \<noteq> [] \<and> length c \<le> k) (chunks k xs)"
proof (induction k xs rule: chunks.induct)
  case (1 k xs)
  then show ?case unfolding chunks.simps [of k xs] by (cases "xs = []") simp_all
qed

theorem batches_cover_items:
  assumes "rep opts = None" "items \<noteq> []"
  shows "\<exists>bs. commands opts items = map (\<lambda>b. (if cmd opts = [] then [''echo''] else cmd opts) @ b) bs
    \<and> concat bs = items \<and> list_all (\<lambda>b. b \<noteq> [] \<and> (0 < npercmd opts \<longrightarrow> int (length b) \<le> npercmd opts)) bs"
proof -
  let ?k = "if 0 < npercmd opts then nat (npercmd opts) else length items"
  have "0 < ?k" using assms(2) by simp
  from chunks_parts [OF this, of items] show ?thesis
    using assms(1) by (intro exI [of _ "chunks ?k items"]) (auto simp: commands_def Let_def list_all_iff le_nat_iff)
qed

theorem batches_cover_items_witness:
  "\<exists>bs. commands (no_opts\<lparr>npercmd := 2\<rparr>) [''a'', ''b'', ''c''] = map (\<lambda>b. [''echo''] @ b) bs \<and> concat bs = [''a'', ''b'', ''c'']"
  using batches_cover_items [of "no_opts\<lparr>npercmd := 2\<rparr>" "[''a'', ''b'', ''c'']"] by (auto simp: no_opts_def)

section \<open>Where the code departs from what it means to do\<close>

text \<open>The words of the command are searched for \<open>-h\<close> too.\<close>

lemma help_flag_of_command: "xargs_run [''ls'', ''-h''] inp = Returns 0"
  by (simp add: xargs_run_def)

lemma further_items_dropped:
  "XARGS_MAX_ITEMS < length (strtok isspace buf) \<Longrightarrow> length (split_items no_opts buf) < length (strtok isspace buf)"
  by (simp add: split_items_def no_opts_def items_blank_def)

end
