(* ===== verification/Pkg.thy ===== *)
theory Pkg
  imports Prelude
begin

text \<open>
  The package manager \<open>pkg\<close> (\<^verbatim>\<open>pkg.c\<close>): paths, version numbers, the reader of \<^verbatim>\<open>pkg.json\<close>, the
  package database and the six subcommands. Outside programs (tar, curl, rm), the file system and the
  environment are the parameter \<open>pkg_env\<close>; its answers may depend on everything done before, which
  the state keeps as the list of actions. The database file is part of the state. Messages are left
  out, the table of \<open>pkg list\<close> and the answer of \<open>check-update\<close> are kept. A numeric part of a version
  is below \<open>2 ^ 31\<close>, and no line of the database has exactly 255 bytes (\<open>strncpy\<close> then leaves it
  without its NUL).

  The lemmas show that versions are ordered part by part, that a printed \<^verbatim>\<open>pkg.json\<close> is read back,
  that the database behaves as a list of entries, and that an installation never leaves its
  temporary directory behind and touches the database only at its end.
\<close>

section \<open>Paths\<close>

definition expand_home :: "cstring option \<Rightarrow> nat \<Rightarrow> cstring \<Rightarrow> cstring" where
  "expand_home home n path =
     (if path \<noteq> [] \<and> hd path = CHR ''~''
      then fit n ((case home of None \<Rightarrow> ''/tmp'' | Some h \<Rightarrow> h) @ tl path) else fit n path)"

fun drop_slashes :: "cstring \<Rightarrow> cstring" where
  "drop_slashes (c # d # r) = (if c = CHR ''/'' then drop_slashes (d # r) else c # d # r)"
| "drop_slashes r = r"

definition strip_slash :: "nat \<Rightarrow> cstring \<Rightarrow> cstring" where
  "strip_slash n path = take (n - 1) (rev (drop_slashes (rev path)))"

definition last_slash :: "cstring \<Rightarrow> nat option" where
  "last_slash path = (if CHR ''/'' \<in> set path then Some (length path - Suc (length (takeWhile (\<lambda>c. c \<noteq> CHR ''/'') (rev path)))) else None)"

definition path_base :: "cstring \<Rightarrow> cstring" where
  "path_base path = (case last_slash path of None \<Rightarrow> path | Some i \<Rightarrow> drop (i + 1) path)"

definition path_dir :: "nat \<Rightarrow> cstring \<Rightarrow> cstring" where
  "path_dir n path = (case last_slash path of
      None \<Rightarrow> ''.''
    | Some i \<Rightarrow> if i = 0 then ''/'' else take (n - 1) (take i path))"

text \<open>The directories \<open>mkdirp\<close> creates, in order.\<close>

definition mkdirp_paths :: "cstring \<Rightarrow> cstring list" where
  "mkdirp_paths path =
     (let t = take 511 path; tmp = (if t \<noteq> [] \<and> last t = CHR ''/'' then butlast t else t) in
      map (\<lambda>i. take i tmp) (filter (\<lambda>i. tmp ! i = CHR ''/'') [1..<length tmp]) @ [tmp])"

section \<open>Versions\<close>

fun version_part :: "int \<Rightarrow> cstring \<Rightarrow> int \<times> cstring" where
  "version_part v [] = (v, [])"
| "version_part v (c # s) = (if c = CHR ''.'' then (v, c # s) else version_part (v * 10 + (int (ord c) - 48)) s)"

definition skip_dot :: "cstring \<Rightarrow> cstring" where
  "skip_dot s = (if s \<noteq> [] \<and> hd s = CHR ''.'' then tl s else s)"

lemma version_part_rest: "snd (version_part v s) = dropWhile (\<lambda>c. c \<noteq> CHR ''.'') s"
  by (induction v s rule: version_part.induct) auto

lemma skip_part_shorter: "length (skip_dot (dropWhile (\<lambda>c. c \<noteq> CHR ''.'') s)) \<le> length s
    \<and> (s \<noteq> [] \<longrightarrow> length (skip_dot (dropWhile (\<lambda>c. c \<noteq> CHR ''.'') s)) < length s)"
  by (induction s) (auto simp: skip_dot_def)

function version_cmp :: "cstring \<Rightarrow> cstring \<Rightarrow> int" where
  "version_cmp a b =
     (if a = [] \<and> b = [] then 0
      else (case (version_part 0 a, version_part 0 b) of
              ((va, a1), (vb, b1)) \<Rightarrow> if va \<noteq> vb then va - vb else version_cmp (skip_dot a1) (skip_dot b1)))"
  by pat_completeness auto
termination
proof (relation "measure (\<lambda>(a, b). length a + length b)")
  fix a b :: cstring and x p q va a1 vb b1
  assume ne: "\<not> (a = [] \<and> b = [])" and p: "(p, q) = (version_part 0 a, version_part 0 b)"
    and a1: "(va, a1) = p" and b1: "(vb, b1) = q"
  have "a1 = dropWhile (\<lambda>c. c \<noteq> CHR ''.'') a" "b1 = dropWhile (\<lambda>c. c \<noteq> CHR ''.'') b"
    using p a1 b1 version_part_rest [of 0 a] version_part_rest [of 0 b] by (metis prod.inject snd_conv)+
  then show "((skip_dot a1, skip_dot b1), (a, b)) \<in> measure (\<lambda>(a, b). length a + length b)"
    using skip_part_shorter [of a] skip_part_shorter [of b] ne by auto
qed auto

declare version_cmp.simps [simp del]

text \<open>A version is a list of numbers; the missing ones at the end of the shorter list are zero.\<close>

definition version_text :: "nat list \<Rightarrow> cstring" where
  "version_text ns = joined ''.'' (map show_nat ns)"

fun first_difference :: "nat list \<Rightarrow> nat list \<Rightarrow> int" where
  "first_difference [] [] = 0"
| "first_difference (m # ms) [] = (if m \<noteq> 0 then int m else first_difference ms [])"
| "first_difference [] (n # ns) = (if n \<noteq> 0 then - int n else first_difference [] ns)"
| "first_difference (m # ms) (n # ns) = (if m \<noteq> n then int m - int n else first_difference ms ns)"

lemma version_part_digits:
  "list_all isdigit ds \<Longrightarrow> version_part v (ds @ r) = version_part (fst (digits_go v ds)) r"
  by (induction ds arbitrary: v) (auto simp: isdigit_def)

lemma version_part_show_nat:
  assumes "r = [] \<or> hd r = CHR ''.''"
  shows "version_part 0 (show_nat n @ r) = (int n, r)"
proof -
  have "list_all isdigit (show_nat n)" by (simp add: list_all_iff show_nat_digits)
  with assms show ?thesis
    using version_part_digits [of "show_nat n" 0 r] by (cases r) (auto simp: digits_go_show_nat)
qed

lemma version_step:
  "version_part 0 (version_text (n # ns)) = (int n, if ns = [] then [] else CHR ''.'' # version_text ns)"
  using version_part_show_nat [of "[]" n] version_part_show_nat [of "CHR ''.'' # version_text ns" n]
  by (cases ns) (simp_all add: version_text_def)

lemma version_text_Nil [simp]: "version_text [] = []"
  by (simp add: version_text_def)

lemma version_text_nonempty [simp]: "version_text (n # ns) \<noteq> []"
  by (cases ns) (simp_all add: version_text_def)

lemma skip_dot_rest [simp]: "skip_dot (if ns = [] then [] else CHR ''.'' # version_text ns) = version_text ns"
  by (simp add: skip_dot_def)

lemma version_cmp_dotted_aux:
  "version_cmp (version_text ms) (version_text ns) = first_difference ms ns"
proof (induction ms ns rule: first_difference.induct)
  case 1
  show ?case by (simp add: version_cmp.simps)
next
  case (2 m ms)
  then show ?case
    by (subst version_cmp.simps) (simp add: version_step skip_dot_def [of "[]"] del: if_split)
next
  case (3 n ns)
  then show ?case
    by (subst version_cmp.simps) (simp add: version_step skip_dot_def [of "[]"] del: if_split)
next
  case (4 m ms n ns)
  then show ?case
    by (subst version_cmp.simps) (simp add: version_step del: if_split)
qed

text \<open>Any two texts are compared antisymmetrically, and the comparison is transitive.\<close>

lemma version_cmp_antisym: "version_cmp b a = - version_cmp a b"
proof (induction a b rule: version_cmp.induct)
  case (1 a b)
  show ?case
  proof (cases "a = [] \<and> b = []")
    case True
    then show ?thesis by (simp add: version_cmp.simps)
  next
    case False
    obtain va a1 where pa: "version_part 0 a = (va, a1)" by (cases "version_part 0 a")
    obtain vb b1 where pb: "version_part 0 b = (vb, b1)" by (cases "version_part 0 b")
    have "va = vb \<Longrightarrow> version_cmp (skip_dot b1) (skip_dot a1) = - version_cmp (skip_dot a1) (skip_dot b1)"
      using "1.IH" [OF False _ pa [symmetric] pb [symmetric]] by simp
    with False show ?thesis
      by (simp add: version_cmp.simps [of a b] version_cmp.simps [of b a] pa pb)
  qed
qed

section \<open>Reading \<^verbatim>\<open>pkg.json\<close>\<close>

definition PKG_MAX_FILES :: nat where "PKG_MAX_FILES = 64"
definition PKG_NAME_MAX :: nat where "PKG_NAME_MAX = 128"
definition PKG_VER_MAX :: nat where "PKG_VER_MAX = 64"
definition PKG_DESC_MAX :: nat where "PKG_DESC_MAX = 256"
definition PKG_BASE_LEN :: nat where "PKG_BASE_LEN = 256"
definition PKG_PATH_MAX :: nat where "PKG_PATH_MAX = 512"
definition PKG_FULL_MAX :: nat where "PKG_FULL_MAX = 1024"

lemmas pkg_sizes = PKG_MAX_FILES_def PKG_NAME_MAX_def PKG_VER_MAX_def PKG_DESC_MAX_def
  PKG_BASE_LEN_def PKG_PATH_MAX_def PKG_FULL_MAX_def

record pkg_meta =
  pname :: cstring
  pversion :: cstring
  pdescription :: cstring
  pfiles :: "cstring list"

definition key_needle :: "cstring \<Rightarrow> cstring" where
  "key_needle key = fit (PKG_NAME_MAX + 4) (DQ # key @ [DQ])"

definition after_key :: "cstring \<Rightarrow> cstring \<Rightarrow> cstring option" where
  "after_key buf key =
     (case strstr buf (key_needle key) of None \<Rightarrow> None | Some i \<Rightarrow> Some (drop (i + length (key_needle key)) buf))"

definition json_gap :: "char \<Rightarrow> bool" where
  "json_gap c \<longleftrightarrow> c = CHR '' '' \<or> c = CHR '':'' \<or> c = TAB \<or> c = NL \<or> c = CR"

definition json_get_string :: "cstring \<Rightarrow> cstring \<Rightarrow> nat \<Rightarrow> cstring option" where
  "json_get_string buf key outsz =
     (case after_key buf key of
        None \<Rightarrow> None
      | Some p \<Rightarrow> (case dropWhile json_gap p of
            [] \<Rightarrow> None
          | c # r \<Rightarrow> if c = DQ then Some (take (outsz - 1) (takeWhile (\<lambda>d. d \<noteq> DQ) r)) else None))"

text \<open>The loop over an array; an entry longer than its buffer is cut, and its rest is skipped up to
  the quote that closes it, which then opens the next entry.\<close>

fun array_items :: "nat \<Rightarrow> cstring \<Rightarrow> cstring list" where
  "array_items 0 p = []"
| "array_items (Suc k) p =
     (case dropWhile (\<lambda>c. c \<noteq> DQ \<and> c \<noteq> CHR '']'') p of
        [] \<Rightarrow> []
      | c # r \<Rightarrow>
          if c \<noteq> DQ then []
          else let item = take (PKG_NAME_MAX - 1) (takeWhile (\<lambda>d. d \<noteq> DQ) r); q = drop (length item) r in
               item # array_items k (if q \<noteq> [] \<and> hd q = DQ then tl q else q))"

definition json_get_array :: "cstring \<Rightarrow> cstring \<Rightarrow> nat \<Rightarrow> cstring list" where
  "json_get_array buf key mx =
     (case after_key buf key of
        None \<Rightarrow> []
      | Some p \<Rightarrow> (case dropWhile (\<lambda>c. c \<noteq> CHR ''['') p of [] \<Rightarrow> [] | c # r \<Rightarrow> array_items mx r))"

definition parse_pkgjson :: "char list option \<Rightarrow> pkg_meta option" where
  "parse_pkgjson contents =
     (case contents of
        None \<Rightarrow> None
      | Some bytes \<Rightarrow>
          let buf = c_str bytes in
          (case (json_get_string buf ''name'' PKG_NAME_MAX, json_get_string buf ''version'' PKG_VER_MAX) of
             (Some n, Some v) \<Rightarrow>
               Some \<lparr>pname = n, pversion = v,
                 pdescription = (case json_get_string buf ''description'' PKG_DESC_MAX of None \<Rightarrow> [] | Some d \<Rightarrow> d),
                 pfiles = json_get_array buf ''files'' PKG_MAX_FILES\<rparr>
           | _ \<Rightarrow> None))"

text \<open>A text as the pieces between its quotes, and where a quoted key is first found in it.\<close>

lemma split_once: "(c::char) \<notin> set a \<Longrightarrow> c \<notin> set b \<Longrightarrow> a @ c # x = b @ c # y \<longleftrightarrow> a = b \<and> x = y"
  by (auto dest: arg_cong [where f = "split_at c"])

lemma dq_pieces:
  assumes "x @ DQ # key @ DQ # y = joined [DQ] segs" "DQ \<notin> set key" "list_all (\<lambda>s. DQ \<notin> set s) segs"
  shows "\<exists>pre post. segs = pre @ key # post \<and> pre \<noteq> [] \<and> post \<noteq> []"
  using assms(1,3)
proof (induction segs arbitrary: x)
  case (Cons s segs)
  then have ne: "segs \<noteq> []" by (cases segs) (auto simp: append_eq_Cons_conv dest: arg_cong [where f = set])
  then have eq: "x @ DQ # key @ DQ # y = s @ DQ # joined [DQ] segs"
    using Cons.prems by (simp add: joined_Cons)
  have s: "DQ \<notin> set s" using Cons.prems by simp
  show ?case
  proof (cases "DQ \<in> set x")
    case False
    with eq s have "x = s \<and> key @ DQ # y = joined [DQ] segs" by (simp add: split_once)
    then obtain t ts where "segs = t # ts" "key @ DQ # y = joined [DQ] (t # ts)" "DQ \<notin> set t"
      using ne Cons.prems by (cases segs) auto
    moreover have "ts \<noteq> []" using calculation by (cases ts) (auto dest: arg_cong [where f = set])
    ultimately have "key = t" using assms(2) by (simp add: joined_Cons split_once)
    then have "s # segs = [s] @ key # ts" using \<open>segs = t # ts\<close> by simp
    then show ?thesis using \<open>ts \<noteq> []\<close> by blast
  next
    case True
    then obtain a b where x: "x = a @ DQ # b" "DQ \<notin> set a" by (meson split_list_first)
    with eq s have "b @ DQ # key @ DQ # y = joined [DQ] segs" by (simp add: split_once)
    from Cons.IH [OF this] Cons.prems obtain pre post
      where "segs = pre @ key # post" "pre \<noteq> []" "post \<noteq> []" by auto
    then show ?thesis by (intro exI [of _ "s # pre"] exI [of _ post]) simp
  qed
qed (simp)

lemma joined_append: "xs \<noteq> [] \<Longrightarrow> ys \<noteq> [] \<Longrightarrow> joined sep (xs @ ys) = joined sep xs @ sep @ joined sep ys"
  by (induction sep xs rule: joined.induct) (auto simp: joined_Cons)

lemma after_key_piece:
  assumes segs: "list_all (\<lambda>s. DQ \<notin> set s) (pre @ key # post)" and ne: "pre \<noteq> []" "post \<noteq> []"
    and first: "key \<notin> set (tl pre)" and len: "length key < PKG_NAME_MAX"
  shows "after_key (joined [DQ] (pre @ key # post)) key = Some (joined [DQ] post)"
proof -
  have n: "key_needle key = DQ # key @ [DQ]" using len by (simp add: key_needle_def fit_def)
  have key: "DQ \<notin> set key" using segs by simp
  have "\<not> sublist (DQ # key @ [DQ]) (joined [DQ] pre @ butlast (DQ # key @ [DQ]))"
  proof
    assume "sublist (DQ # key @ [DQ]) (joined [DQ] pre @ butlast (DQ # key @ [DQ]))"
    then obtain x y where "x @ DQ # key @ DQ # y = joined [DQ] (pre @ [key])"
      using ne by (auto simp: sublist_def joined_append butlast_append)
    from dq_pieces [OF this key] segs obtain p q where "pre @ [key] = p @ key # q" "p \<noteq> []" "q \<noteq> []" by auto
    then have "pre = p @ key # butlast q" by (cases q rule: rev_cases) auto
    with \<open>p \<noteq> []\<close> first show False by (cases p) auto
  qed
  from strstr_at [OF this, of "joined [DQ] post"] ne show ?thesis
    by (simp add: after_key_def n joined_append joined_Cons)
qed

text \<open>A \<^verbatim>\<open>pkg.json\<close> as the documentation writes it, given by the pieces between its quotes.\<close>

fun file_pieces :: "cstring list \<Rightarrow> cstring list" where
  "file_pieces [] = []"
| "file_pieces [f] = [f]"
| "file_pieces (f # g # fs) = f # '', '' # file_pieces (g # fs)"

definition files_part :: "cstring list \<Rightarrow> cstring list" where
  "files_part fs = (if fs = [] then ['': []}''] else '': ['' # file_pieces fs @ ['']}''])"

definition meta_pieces :: "pkg_meta \<Rightarrow> cstring list" where
  "meta_pieces m =
     [''{'', ''name'', '': '', pname m, '', '', ''version'', '': '', pversion m, '', '',
      ''description'', '': '', pdescription m, '', '', ''files''] @ files_part (pfiles m)"

definition meta_text :: "pkg_meta \<Rightarrow> cstring" where
  "meta_text m = joined [DQ] (meta_pieces m)"

definition plain_text :: "cstring \<Rightarrow> bool" where
  "plain_text s \<longleftrightarrow> DQ \<notin> set s \<and> NUL \<notin> set s"

definition meta_ok :: "pkg_meta \<Rightarrow> bool" where
  "meta_ok m \<longleftrightarrow> list_all plain_text (pname m # pversion m # pdescription m # pfiles m)
     \<and> length (pname m) < PKG_NAME_MAX \<and> length (pversion m) < PKG_VER_MAX \<and> length (pdescription m) < PKG_DESC_MAX
     \<and> length (pfiles m) \<le> PKG_MAX_FILES \<and> list_all (\<lambda>f. length f < PKG_NAME_MAX) (pfiles m)
     \<and> pname m \<notin> {''version'', ''description'', ''files''} \<and> pversion m \<notin> {''description'', ''files''}
     \<and> pdescription m \<noteq> ''files''"

lemma get_string_piece:
  assumes "after_key buf key = Some (joined [DQ] ('': '' # v # post))" "post \<noteq> []" "DQ \<notin> set v" "length v < n"
  shows "json_get_string buf key n = Some v"
proof -
  have "takeWhile (\<lambda>d. d \<noteq> DQ) (v @ DQ # r) = v" for r
    using assms(3) by (induction v) auto
  moreover have "\<not> json_gap DQ" by (simp add: json_gap_def shell_defs)
  ultimately show ?thesis
    using assms by (simp add: json_get_string_def joined_Cons json_gap_def)
qed

lemma array_item_step:
  assumes "DQ \<notin> set f" "length f < PKG_NAME_MAX" "list_all (\<lambda>c. c \<noteq> DQ \<and> c \<noteq> CHR '']'') g"
  shows "array_items (Suc k) (g @ DQ # f @ DQ # r) = f # array_items k r"
proof -
  have "dropWhile (\<lambda>c. c \<noteq> DQ \<and> c \<noteq> CHR '']'') (g @ DQ # s) = DQ # s" for s
    using assms(3) by (induction g) auto
  moreover have "takeWhile (\<lambda>d. d \<noteq> DQ) (f @ DQ # r) = f"
    using assms(1) by (induction f) auto
  moreover have "take (PKG_NAME_MAX - 1) f = f" using assms(2) by (simp add: PKG_NAME_MAX_def)
  ultimately show ?thesis by (simp add: Let_def)
qed

lemma array_items_pieces:
  "fs \<noteq> [] \<Longrightarrow> length fs \<le> k \<Longrightarrow> list_all (\<lambda>f. DQ \<notin> set f \<and> length f < PKG_NAME_MAX) fs \<Longrightarrow>
   list_all (\<lambda>c. c \<noteq> DQ \<and> c \<noteq> CHR '']'') g \<Longrightarrow>
   array_items k (g @ DQ # joined [DQ] (file_pieces fs @ ['']}''])) = fs"
proof (induction fs arbitrary: k g rule: file_pieces.induct)
  case (2 f)
  then obtain j where "k = Suc j" by (cases k) auto
  with 2 show ?case
    using array_item_step [of f g j "'']}''"] by (cases j) (simp_all add: shell_defs)
next
  case (3 f h fs)
  then obtain j where k: "k = Suc j" by (cases k) auto
  have "file_pieces (h # fs) \<noteq> []" by (cases fs) auto
  moreover have "array_items j ('', '' @ DQ # joined [DQ] (file_pieces (h # fs) @ ['']}''])) = h # fs"
    using 3 k by (intro "3.IH") (auto simp: shell_defs)
  ultimately show ?case
    using 3 k array_item_step [of f g j "'', '' @ DQ # joined [DQ] (file_pieces (h # fs) @ ['']}''])"]
    by (simp add: joined_Cons)
qed simp

lemma get_array_pieces:
  assumes "after_key buf key = Some (joined [DQ] (files_part fs))" "length fs \<le> k"
    "list_all (\<lambda>f. DQ \<notin> set f \<and> length f < PKG_NAME_MAX) fs"
  shows "json_get_array buf key k = fs"
proof (cases "fs = []")
  case True
  with assms show ?thesis
    by (cases k) (simp_all add: json_get_array_def files_part_def shell_defs)
next
  case False
  with assms array_items_pieces [of fs k "[]"] show ?thesis
    by (simp add: json_get_array_def files_part_def joined_Cons)
qed

lemma file_pieces_plain: "list_all plain_text fs \<Longrightarrow> list_all plain_text (file_pieces fs)"
  by (induction fs rule: file_pieces.induct) (auto simp: plain_text_def shell_defs)

lemma files_part_plain: "list_all plain_text fs \<Longrightarrow> list_all plain_text (files_part fs)"
  using file_pieces_plain [of fs] by (simp add: files_part_def) (simp add: plain_text_def shell_defs)

lemma files_part_nonempty [simp]: "files_part fs \<noteq> []"
  by (simp add: files_part_def)

lemma meta_pieces_plain:
  assumes "meta_ok m"
  shows "list_all plain_text (meta_pieces m)"
proof -
  have "list_all plain_text [''{'', ''name'', '': '', '', '', ''version'', ''description'', ''files'']"
    by (simp add: plain_text_def shell_defs)
  with assms files_part_plain [of "pfiles m"] show ?thesis by (simp add: meta_pieces_def meta_ok_def)
qed

lemma joined_plain: "list_all plain_text ps \<Longrightarrow> NUL \<notin> set (joined [DQ] ps)"
  by (induction "[DQ]" ps rule: joined.induct) (auto simp: plain_text_def shell_defs)

lemma after_meta_key:
  assumes "meta_ok m" "meta_pieces m = pre @ key # post" "pre \<noteq> []" "post \<noteq> []" "key \<notin> set (tl pre)"
    "length key < PKG_NAME_MAX"
  shows "after_key (meta_text m) key = Some (joined [DQ] post)"
proof -
  have "list_all (\<lambda>s. DQ \<notin> set s) (pre @ key # post)"
    using meta_pieces_plain [OF assms(1)] assms(2) by (auto simp: list_all_iff plain_text_def)
  from after_key_piece [OF this assms(3-6)] show ?thesis by (simp add: meta_text_def assms(2))
qed

lemma meta_field_read:
  assumes "meta_ok m" "meta_pieces m = pre @ key # '': '' # v # post" "pre \<noteq> []" "post \<noteq> []" "key \<notin> set (tl pre)"
    "length key < PKG_NAME_MAX" "plain_text v" "length v < n"
  shows "json_get_string (meta_text m) key n = Some v"
  using assms after_meta_key [of m pre key "'': '' # v # post"]
  by (intro get_string_piece [where post = post]) (auto simp: plain_text_def)

lemma meta_fields:
  assumes ok: "meta_ok m"
  shows "json_get_string (meta_text m) ''name'' PKG_NAME_MAX = Some (pname m)"
    "json_get_string (meta_text m) ''version'' PKG_VER_MAX = Some (pversion m)"
    "json_get_string (meta_text m) ''description'' PKG_DESC_MAX = Some (pdescription m)"
    "json_get_array (meta_text m) ''files'' PKG_MAX_FILES = pfiles m"
proof -
  show "json_get_string (meta_text m) ''name'' PKG_NAME_MAX = Some (pname m)"
    using ok by (intro meta_field_read [OF ok, where pre = "[''{'']"
        and post = "['', '', ''version'', '': '', pversion m, '', '', ''description'', '': '', pdescription m, '', '', ''files''] @ files_part (pfiles m)"]) (simp_all add: meta_pieces_def meta_ok_def pkg_sizes)
  show "json_get_string (meta_text m) ''version'' PKG_VER_MAX = Some (pversion m)"
    using ok by (intro meta_field_read [OF ok, where pre = "[''{'', ''name'', '': '', pname m, '', '']"
        and post = "['', '', ''description'', '': '', pdescription m, '', '', ''files''] @ files_part (pfiles m)"]) (auto simp: meta_pieces_def meta_ok_def pkg_sizes)
  show "json_get_string (meta_text m) ''description'' PKG_DESC_MAX = Some (pdescription m)"
    using ok by (intro meta_field_read [OF ok,
        where pre = "[''{'', ''name'', '': '', pname m, '', '', ''version'', '': '', pversion m, '', '']"
        and post = "['', '', ''files''] @ files_part (pfiles m)"]) (auto simp: meta_pieces_def meta_ok_def pkg_sizes)
  have "after_key (meta_text m) ''files'' = Some (joined [DQ] (files_part (pfiles m)))"
    using ok by (intro after_meta_key [OF ok,
        where pre = "[''{'', ''name'', '': '', pname m, '', '', ''version'', '': '', pversion m, '', '',
          ''description'', '': '', pdescription m, '', '']"]) (auto simp: meta_pieces_def meta_ok_def pkg_sizes)
  with ok show "json_get_array (meta_text m) ''files'' PKG_MAX_FILES = pfiles m"
    by (intro get_array_pieces) (auto simp: meta_ok_def list_all_iff plain_text_def)
qed

lemma pkgjson_roundtrip_aux:
  assumes "meta_ok m"
  shows "parse_pkgjson (Some (meta_text m)) = Some m"
proof -
  have "c_str (meta_text m) = meta_text m"
    using joined_plain [OF meta_pieces_plain [OF assms]] by (simp add: meta_text_def c_str_id)
  then show ?thesis by (simp add: parse_pkgjson_def meta_fields [OF assms])
qed

theorem pkgjson_roundtrip:
  assumes "meta_ok m"
  shows "parse_pkgjson (Some (meta_text m)) = Some m"
  using assms by (rule pkgjson_roundtrip_aux)

theorem pkgjson_roundtrip_witness:
  "parse_pkgjson (Some (meta_text \<lparr>pname = ''hello'', pversion = ''1.0'', pdescription = ''says it'', pfiles = [''hello'', ''hi'']\<rparr>))
     = Some \<lparr>pname = ''hello'', pversion = ''1.0'', pdescription = ''says it'', pfiles = [''hello'', ''hi'']\<rparr>"
  by (rule pkgjson_roundtrip) (simp add: meta_ok_def plain_text_def pkg_sizes shell_defs)

text \<open>A name that is one of the later keys hides that key.\<close>

lemma name_hides_key:
  "parse_pkgjson (Some (meta_text \<lparr>pname = ''version'', pversion = ''1.0'', pdescription = [], pfiles = []\<rparr>)) \<noteq>
     Some \<lparr>pname = ''version'', pversion = ''1.0'', pdescription = [], pfiles = []\<rparr>"
  by code_simp

section \<open>The package database\<close>

definition scan_word :: "nat \<Rightarrow> cstring \<Rightarrow> (cstring \<times> cstring) option" where
  "scan_word m s =
     (let t = dropWhile isspace s; w = take m (takeWhile (\<lambda>c. \<not> isspace c) t) in
      if w = [] then None else Some (w, drop (length w) t))"

definition scan_entry :: "cstring \<Rightarrow> (cstring \<times> cstring) option" where
  "scan_entry line =
     (case scan_word 127 line of
        None \<Rightarrow> None
      | Some (n, r) \<Rightarrow> (case scan_word 63 r of None \<Rightarrow> None | Some (v, _) \<Rightarrow> Some (n, v)))"

definition db_lines :: "char list \<Rightarrow> cstring list" where
  "db_lines contents = map c_str (fgets_all 256 contents)"

definition db_entries :: "char list \<Rightarrow> (cstring \<times> cstring) list" where
  "db_entries contents = List.map_filter scan_entry (db_lines contents)"

definition entry_line :: "cstring \<times> cstring \<Rightarrow> cstring" where
  "entry_line e = fst e @ '' '' @ snd e @ [NL]"

text \<open>A missing file is \<open>None\<close>; a failed \<open>fopen\<close> for writing leaves it as it is.\<close>

definition pkgdb_append :: "bool \<Rightarrow> cstring \<Rightarrow> cstring \<Rightarrow> char list option \<Rightarrow> char list option" where
  "pkgdb_append opens name version db =
     (if opens then Some ((case db of None \<Rightarrow> [] | Some d \<Rightarrow> d) @ entry_line (name, version)) else db)"

definition pkgdb_lookup :: "char list option \<Rightarrow> cstring \<Rightarrow> nat \<Rightarrow> cstring option" where
  "pkgdb_lookup db name ver_sz =
     (case db of
        None \<Rightarrow> None
      | Some d \<Rightarrow> map_option (\<lambda>e. fit ver_sz (snd e)) (find (\<lambda>e. fst e = name) (db_entries d)))"

definition names_line :: "cstring \<Rightarrow> cstring \<Rightarrow> bool" where
  "names_line name line \<longleftrightarrow> (case scan_word 127 line of None \<Rightarrow> False | Some (n, _) \<Rightarrow> n = name)"

definition pkgdb_remove_entry :: "bool \<Rightarrow> cstring \<Rightarrow> char list option \<Rightarrow> char list option" where
  "pkgdb_remove_entry opens name db =
     (case db of
        None \<Rightarrow> None
      | Some d \<Rightarrow>
          if opens then Some (concat (take 256 (filter (\<lambda>l. \<not> names_line name l) (db_lines d)))) else db)"

text \<open>What the file stands for: a list of entries whose words have no blanks.\<close>

definition word_ok :: "nat \<Rightarrow> cstring \<Rightarrow> bool" where
  "word_ok m s \<longleftrightarrow> s \<noteq> [] \<and> length s \<le> m \<and> list_all (\<lambda>c. \<not> isspace c \<and> c \<noteq> NUL) s"

definition entry_ok :: "cstring \<times> cstring \<Rightarrow> bool" where
  "entry_ok e \<longleftrightarrow> word_ok 127 (fst e) \<and> word_ok 63 (snd e)"

definition db_text :: "(cstring \<times> cstring) list \<Rightarrow> char list" where
  "db_text es = concat (map entry_line es)"

lemma scan_word_ok:
  assumes "word_ok m w" "r \<noteq> [] \<Longrightarrow> isspace (hd r)"
  shows "scan_word m (w @ r) = Some (w, r)"
proof -
  have w: "list_all (\<lambda>c. \<not> isspace c) w" "w \<noteq> []" "length w \<le> m" using assms(1) by (auto simp: word_ok_def list_all_iff)
  then have "dropWhile isspace (w @ r) = w @ r" by (cases w) auto
  moreover have "takeWhile (\<lambda>c. \<not> isspace c) (w @ r) = w"
    using w(1) assms(2) by (cases r) (auto simp: list_all_iff takeWhile_eq_all_conv)
  moreover have "0 < m" using w(2,3) by (cases w) auto
  ultimately show ?thesis using w by (simp add: scan_word_def Let_def)
qed

lemma isspace_blank [simp]: "isspace (CHR '' '')" "isspace NL"
  by (simp_all add: shell_defs)

lemma scan_word_blank: "isspace c \<Longrightarrow> scan_word m (c # s) = scan_word m s"
  by (simp add: scan_word_def)

lemma scan_entry_line:
  assumes "entry_ok e"
  shows "scan_entry (entry_line e) = Some e" "names_line name (entry_line e) = (fst e = name)"
proof -
  have n: "scan_word 127 (fst e @ '' '' @ snd e @ [NL]) = Some (fst e, '' '' @ snd e @ [NL])"
    using assms by (intro scan_word_ok) (simp_all add: entry_ok_def)
  have v: "scan_word 63 (snd e @ [NL]) = Some (snd e, [NL])"
    using assms by (intro scan_word_ok) (simp_all add: entry_ok_def)
  show "scan_entry (entry_line e) = Some e"
    using n v by (simp add: scan_entry_def entry_line_def scan_word_blank)
  show "names_line name (entry_line e) = (fst e = name)"
    using n by (simp add: names_line_def entry_line_def)
qed

lemma db_lines_text: "list_all entry_ok es \<Longrightarrow> db_lines (db_text es) = map entry_line es"
proof -
  assume ok: "list_all entry_ok es"
  let ?l = "\<lambda>e. fst e @ '' '' @ snd e"
  have e: "entry_line e = ?l e @ [NL]" for e by (simp add: entry_line_def)
  have chars: "NL \<notin> set (?l e) \<and> NUL \<notin> set (?l e) \<and> length (?l e) + 2 \<le> 256" if "e \<in> set es" for e
  proof -
    have "entry_ok e" using ok that by (simp add: list_all_iff)
    then have "length (fst e) \<le> 127" "length (snd e) \<le> 63"
      "c \<in> set (fst e) \<union> set (snd e) \<Longrightarrow> \<not> isspace c \<and> c \<noteq> NUL" for c
      by (auto simp: entry_ok_def word_ok_def list_all_iff)
    moreover have "isspace NL" "NL \<noteq> CHR '' ''" "NUL \<noteq> CHR '' ''" by (simp_all add: shell_defs)
    ultimately show ?thesis by fastforce
  qed
  then have "list_all (\<lambda>l. NL \<notin> set l \<and> length l + 2 \<le> 256) (map ?l es)"
    by (simp add: list_all_iff)
  from fgets_all_terminated [OF this] have "fgets_all 256 (db_text es) = map entry_line es"
    unfolding db_text_def e [abs_def] by (simp add: comp_def)
  moreover have "c_str (entry_line e) = entry_line e" if "e \<in> set es" for e
    using chars [OF that] by (intro c_str_id) (auto simp: entry_line_def NUL_def NL_def)
  ultimately show ?thesis by (simp add: db_lines_def)
qed

lemma db_entries_text: "list_all entry_ok es \<Longrightarrow> db_entries (db_text es) = es"
  by (simp add: db_entries_def db_lines_text)
    (induction es; simp add: scan_entry_line)

lemma map_of_filter_fst: "m \<noteq> n \<Longrightarrow> map_of (filter (\<lambda>e. fst e \<noteq> n) es) m = map_of es m"
  by (induction es) auto

text \<open>
  The interface of the database for the commands: an entry can be added, looked up and removed; a
  text keeps an invariant under which the operations behave as on a list of entries.
\<close>

locale package_table =
  fixes add :: "cstring \<Rightarrow> cstring \<Rightarrow> 'd \<Rightarrow> 'd"
    and look :: "'d \<Rightarrow> cstring \<Rightarrow> cstring option"
    and del :: "cstring \<Rightarrow> 'd \<Rightarrow> 'd"
    and good :: "cstring \<Rightarrow> cstring \<Rightarrow> bool"
    and inv :: "'d \<Rightarrow> bool"
    and entries :: "'d \<Rightarrow> (cstring \<times> cstring) list"
  assumes look_spec: "inv d \<Longrightarrow> look d n = map_of (entries d) n"
    and add_spec: "inv d \<Longrightarrow> good n v \<Longrightarrow> inv (add n v d) \<and> entries (add n v d) = entries d @ [(n, v)]"
    and del_spec: "inv d \<Longrightarrow> length (entries d) \<le> 256 \<Longrightarrow>
      inv (del n d) \<and> entries (del n d) = filter (\<lambda>e. fst e \<noteq> n) (entries d)"
begin

lemma look_added: "inv d \<Longrightarrow> good n v \<Longrightarrow> look d n = None \<Longrightarrow> look (add n v d) n = Some v"
  by (simp add: look_spec add_spec map_add_def)

lemma look_other_added: "inv d \<Longrightarrow> good n v \<Longrightarrow> m \<noteq> n \<Longrightarrow> look (add n v d) m = look d m"
  by (simp add: look_spec add_spec map_add_def split: option.splits)

lemma look_added_again: "inv d \<Longrightarrow> good n v \<Longrightarrow> look d n = Some u \<Longrightarrow> look (add n v d) n = Some u"
  by (simp add: look_spec add_spec map_add_def)

lemma look_deleted: "inv d \<Longrightarrow> length (entries d) \<le> 256 \<Longrightarrow> look (del n d) n = None"
  by (auto simp: look_spec del_spec map_of_eq_None_iff)

lemma look_other_deleted: "inv d \<Longrightarrow> length (entries d) \<le> 256 \<Longrightarrow> m \<noteq> n \<Longrightarrow> look (del n d) m = look d m"
  by (simp add: look_spec del_spec map_of_filter_fst)

lemma look_replaced:
  "inv d \<Longrightarrow> length (entries d) \<le> 256 \<Longrightarrow> good n v \<Longrightarrow> look (add n v (del n d)) n = Some v"
  by (simp add: look_added look_deleted del_spec)

end

definition db_of :: "char list option \<Rightarrow> (cstring \<times> cstring) list" where
  "db_of db = (case db of None \<Rightarrow> [] | Some d \<Rightarrow> db_entries d)"

definition db_inv :: "char list option \<Rightarrow> bool" where
  "db_inv db \<longleftrightarrow> (case db of None \<Rightarrow> True | Some d \<Rightarrow> d = db_text (db_entries d) \<and> list_all entry_ok (db_entries d))"

lemma db_invE:
  assumes "db_inv db"
  obtains "db = None" "db_of db = []"
    | es where "db = Some (db_text es)" "list_all entry_ok es" "db_of db = es"
  using assms by (cases db) (auto simp: db_inv_def db_of_def)

lemma db_inv_text: "list_all entry_ok es \<Longrightarrow> db_inv (Some (db_text es)) \<and> db_of (Some (db_text es)) = es"
  by (simp add: db_inv_def db_of_def db_entries_text)

lemma find_fst: "find (\<lambda>e. fst e = n) es = map_option (Pair n) (map_of es n)"
  by (induction es) auto

lemma lookup_map_of:
  assumes "db_inv db"
  shows "pkgdb_lookup db n PKG_VER_MAX = map_of (db_of db) n"
  using assms
proof (cases rule: db_invE)
  case (2 es)
  have "fit PKG_VER_MAX v = v" if "map_of es n = Some v" for v
    using 2(2) map_of_SomeD [OF that] by (intro fit_id) (auto simp: list_all_iff entry_ok_def word_ok_def pkg_sizes)
  with 2 show ?thesis
    by (cases "map_of es n") (simp_all add: pkgdb_lookup_def db_entries_text find_fst)
qed (simp add: pkgdb_lookup_def db_of_def)

lemma remove_text:
  assumes "list_all entry_ok es" "length es \<le> 256"
  shows "pkgdb_remove_entry True n (Some (db_text es)) = Some (db_text (filter (\<lambda>e. fst e \<noteq> n) es))"
proof -
  have "filter (\<lambda>l. \<not> names_line n l) (map entry_line es) = map entry_line (filter (\<lambda>e. fst e \<noteq> n) es)"
    using assms(1) by (induction es) (auto simp: scan_entry_line)
  moreover have "length (filter (\<lambda>e. fst e \<noteq> n) es) \<le> 256"
    using assms(2) length_filter_le [of "\<lambda>e. fst e \<noteq> n" es] by linarith
  ultimately show ?thesis by (simp add: pkgdb_remove_entry_def db_lines_text assms(1)) (simp add: db_text_def)
qed

interpretation pdb: package_table "\<lambda>n v. pkgdb_append True n v" "\<lambda>db n. pkgdb_lookup db n PKG_VER_MAX"
  "\<lambda>n. pkgdb_remove_entry True n" "\<lambda>n v. entry_ok (n, v)" db_inv db_of
proof
  fix db n v assume inv: "db_inv db"
  show "pkgdb_lookup db n PKG_VER_MAX = map_of (db_of db) n" using inv by (rule lookup_map_of)
  assume ok: "entry_ok (n, v)"
  show "db_inv (pkgdb_append True n v db) \<and> db_of (pkgdb_append True n v db) = db_of db @ [(n, v)]"
    using inv
  proof (cases rule: db_invE)
    case 1
    with ok db_inv_text [of "[(n, v)]"] show ?thesis by (simp add: pkgdb_append_def db_text_def)
  next
    case (2 es)
    with ok db_inv_text [of "es @ [(n, v)]"] show ?thesis by (simp add: pkgdb_append_def db_text_def)
  qed
next
  fix db n assume inv: "db_inv db" and len: "length (db_of db) \<le> 256"
  show "db_inv (pkgdb_remove_entry True n db) \<and>
      db_of (pkgdb_remove_entry True n db) = filter (\<lambda>e. fst e \<noteq> n) (db_of db)"
    using inv
  proof (cases rule: db_invE)
    case 1
    with inv show ?thesis by (simp add: pkgdb_remove_entry_def)
  next
    case (2 es)
    with len remove_text [of es n] db_inv_text [of "filter (\<lambda>e. fst e \<noteq> n) es"] show ?thesis
      by (simp add: list_all_iff)
  qed
qed

theorem pkgdb_refines_entries:
  assumes "list_all entry_ok es" "entry_ok (n, v)"
  shows "pkgdb_append True n v (Some (db_text es)) = Some (db_text (es @ [(n, v)]))
    \<and> pkgdb_lookup (Some (db_text es)) m PKG_VER_MAX = map_of es m
    \<and> (length es \<le> 256 \<longrightarrow> pkgdb_remove_entry True m (Some (db_text es)) = Some (db_text (filter (\<lambda>e. fst e \<noteq> m) es)))"
  using assms pdb.look_spec [of "Some (db_text es)" m] db_inv_text [of es] remove_text [of es m]
  by (simp add: pkgdb_append_def) (simp add: db_text_def)

theorem pkgdb_refines_entries_witness:
  "pkgdb_remove_entry True ''a'' (Some (db_text [(''a'', ''1.0''), (''b'', ''2.1'')])) = Some (db_text [(''b'', ''2.1'')])"
  using pkgdb_refines_entries [of "[(''a'', ''1.0''), (''b'', ''2.1'')]" "''c''" "''1''" "''a''"]
  by (simp add: entry_ok_def word_ok_def shell_defs)

section \<open>The commands\<close>

text \<open>
  What a command does to the outside, in order. \<open>Capture_Output\<close> is \<open>capture_command\<close>; \<open>Made_Temp\<close> holds the
  name that \<open>mkdtemp\<close> chose.
\<close>

datatype pkg_act =
    Run_Program "cstring list"
  | Capture_Output "cstring list"
  | Made_Temp cstring
  | Make_Dir cstring
  | Remove_File cstring
  | Make_Link cstring cstring

record pkg_env =
  home_dir :: "cstring option"
  stat_dir :: "pkg_act list \<Rightarrow> cstring \<Rightarrow> bool option"
  real_path :: "pkg_act list \<Rightarrow> cstring \<Rightarrow> cstring option"
  temp_dir :: "pkg_act list \<Rightarrow> cstring \<Rightarrow> cstring option"
  run_status :: "pkg_act list \<Rightarrow> cstring list \<Rightarrow> int"
  captured :: "pkg_act list \<Rightarrow> cstring list \<Rightarrow> int \<times> char list"
  read_bytes :: "pkg_act list \<Rightarrow> cstring \<Rightarrow> char list option"
  list_dir :: "pkg_act list \<Rightarrow> cstring \<Rightarrow> cstring list option"
  mkdir_ok :: "pkg_act list \<Rightarrow> cstring \<Rightarrow> bool"
  link_ok :: "pkg_act list \<Rightarrow> cstring \<Rightarrow> cstring \<Rightarrow> bool"
  unlink_ok :: "pkg_act list \<Rightarrow> cstring \<Rightarrow> bool"
  db_opens :: "pkg_act list \<Rightarrow> bool"

record pkg_state =
  pkgdb :: "char list option"
  acts :: "pkg_act list"
  printed :: "char list"

definition act :: "pkg_act \<Rightarrow> pkg_state \<Rightarrow> pkg_state" where
  "act a s = s\<lparr>acts := acts s @ [a]\<rparr>"

definition print_out :: "char list \<Rightarrow> pkg_state \<Rightarrow> pkg_state" where
  "print_out t s = s\<lparr>printed := printed s @ t\<rparr>"

definition run_command :: "pkg_env \<Rightarrow> cstring list \<Rightarrow> pkg_state \<Rightarrow> int \<times> pkg_state" where
  "run_command e args s = (run_status e (acts s) args, act (Run_Program args) s)"

definition capture_command :: "pkg_env \<Rightarrow> cstring list \<Rightarrow> nat \<Rightarrow> pkg_state \<Rightarrow> int \<times> cstring \<times> pkg_state" where
  "capture_command e args bufsz s =
     (case captured e (acts s) args of
        (status, bytes) \<Rightarrow> (status, c_str (take (bufsz - 1) bytes), act (Capture_Output args) s))"

fun make_dirs :: "pkg_env \<Rightarrow> cstring list \<Rightarrow> pkg_state \<Rightarrow> bool \<times> pkg_state" where
  "make_dirs e [] s = (True, s)"
| "make_dirs e (p # ps) s =
     (if mkdir_ok e (acts s) p then make_dirs e ps (act (Make_Dir p) s) else (False, act (Make_Dir p) s))"

definition mkdirp :: "pkg_env \<Rightarrow> cstring \<Rightarrow> pkg_state \<Rightarrow> bool \<times> pkg_state" where
  "mkdirp e path s = make_dirs e (mkdirp_paths path) s"

definition find_pkgjson :: "pkg_env \<Rightarrow> cstring \<Rightarrow> nat \<Rightarrow> pkg_state \<Rightarrow> cstring option" where
  "find_pkgjson e dir outsz s =
     (let top = fit outsz (dir @ ''/pkg.json'') in
      if stat_dir e (acts s) top \<noteq> None then Some top
      else (case list_dir e (acts s) dir of
          None \<Rightarrow> None
        | Some names \<Rightarrow>
            find (\<lambda>p. stat_dir e (acts s) p \<noteq> None)
              (map (\<lambda>n. fit outsz (dir @ ''/'' @ n @ ''/pkg.json'')) (filter (\<lambda>n. n = [] \<or> hd n \<noteq> CHR ''.'') names))))"

definition mysh_base :: "pkg_env \<Rightarrow> cstring" where
  "mysh_base e = expand_home (home_dir e) PKG_BASE_LEN ''~/.mysh''"

definition install_dir :: "pkg_env \<Rightarrow> cstring \<Rightarrow> cstring \<Rightarrow> cstring" where
  "install_dir e name version = fit PKG_PATH_MAX (mysh_base e @ ''/pkgs/'' @ name @ ''-'' @ version)"

definition bin_dir :: "pkg_env \<Rightarrow> cstring" where
  "bin_dir e = fit PKG_PATH_MAX (mysh_base e @ ''/bin'')"

definition clean_up :: "pkg_env \<Rightarrow> cstring \<Rightarrow> pkg_state \<Rightarrow> pkg_state" where
  "clean_up e t s = snd (run_command e [''rm'', ''-rf'', t] s)"

text \<open>\<open>pkg build\<close>.\<close>

definition cmd_build :: "pkg_env \<Rightarrow> cstring list \<Rightarrow> pkg_state \<Rightarrow> int \<times> pkg_state" where
  "cmd_build e argv s =
     (case argv of
        src # out # _ \<Rightarrow>
          if stat_dir e (acts s) src \<noteq> Some True \<or> stat_dir e (acts s) (fit PKG_PATH_MAX (src @ ''/pkg.json'')) = None
          then (1, s)
          else
            let norm = strip_slash PKG_PATH_MAX src;
                parent = path_dir PKG_PATH_MAX norm;
                base = path_base norm;
                exclude_out = fit PKG_PATH_MAX (''--exclude='' @ path_base out);
                s1 = print_out (''pkg: building '' @ out @ '' from '' @ parent @ ''/'' @ base @ '' ...'' @ [NL]) (act (Remove_File out) s);
                (r, s2) = run_command e [''tar'', ''--exclude=.git'', exclude_out, ''-czf'', out, ''-C'', parent, base] s1
            in (r, if r = 0 then print_out (''pkg: created '' @ out @ [NL]) s2 else s2)
      | _ \<Rightarrow> (1, s))"

text \<open>\<open>pkg install\<close>: the links, the steps once \<^verbatim>\<open>pkg.json\<close> is read, the steps in the temporary directory.\<close>

fun link_files :: "pkg_env \<Rightarrow> cstring \<Rightarrow> cstring \<Rightarrow> cstring list \<Rightarrow> pkg_state \<Rightarrow> nat \<times> pkg_state" where
  "link_files e idir bdir [] s = (0, s)"
| "link_files e idir bdir (f # fs) s =
     (let src = fit PKG_FULL_MAX (idir @ ''/'' @ f); dst = fit PKG_FULL_MAX (bdir @ ''/'' @ f);
          s1 = act (Remove_File dst) s; ok = link_ok e (acts s1) src dst; s2 = act (Make_Link src dst) s1;
          s3 = (if ok then print_out (''pkg:   linked '' @ dst @ '' -> '' @ src @ [NL]) s2 else s2);
          (n, s4) = link_files e idir bdir fs s3
      in ((if ok then n else n + 1), s4))"

definition install_meta :: "pkg_env \<Rightarrow> cstring \<Rightarrow> cstring \<Rightarrow> pkg_meta \<Rightarrow> pkg_state \<Rightarrow> int \<times> pkg_state" where
  "install_meta e tar_abs tmp m s =
     (let s1 = print_out (''pkg: installing '' @ pname m @ ''-'' @ pversion m @ [NL]) s;
          idir = install_dir e (pname m) (pversion m);
          (ok1, s2) = mkdirp e idir s1 in
      if \<not> ok1 then (1, clean_up e tmp s2)
      else let (ok2, s3) = mkdirp e (bin_dir e) s2 in
      if \<not> ok2 then (1, clean_up e tmp s3)
      else let (r, s4) = run_command e [''tar'', ''--strip-components=1'', ''-xzf'', tar_abs, ''-C'', idir] s3 in
      if r \<noteq> 0 then (1, clean_up e tmp s4)
      else let (errors, s5) = link_files e idir (bin_dir e) (pfiles m) s4;
               s6 = clean_up e tmp s5;
               s7 = s6\<lparr>pkgdb := pkgdb_append (db_opens e (acts s6)) (pname m) (pversion m) (pkgdb s6)\<rparr>
           in (if errors \<noteq> 0 then 1 else 0,
               print_out (''pkg: '' @ pname m @ ''-'' @ pversion m @ '' installed'' @
                 (if errors \<noteq> 0 then '' (with errors)'' else '' successfully'') @ [NL]) s7))"

definition install_from :: "pkg_env \<Rightarrow> cstring \<Rightarrow> cstring \<Rightarrow> pkg_state \<Rightarrow> int \<times> pkg_state" where
  "install_from e tar_abs tmp s =
     (let (r, s1) = run_command e [''tar'', ''--strip-components=1'', ''-xzf'', tar_abs, ''-C'', tmp] s in
      if r \<noteq> 0 then (1, clean_up e tmp s1)
      else (case find_pkgjson e tmp PKG_PATH_MAX s1 of
          None \<Rightarrow> (1, clean_up e tmp s1)
        | Some path \<Rightarrow> (case parse_pkgjson (read_bytes e (acts s1) path) of
              None \<Rightarrow> (1, clean_up e tmp s1)
            | Some m \<Rightarrow> install_meta e tar_abs tmp m s1)))"

definition cmd_install :: "pkg_env \<Rightarrow> cstring list \<Rightarrow> pkg_state \<Rightarrow> int \<times> pkg_state" where
  "cmd_install e argv s =
     (case argv of
        [] \<Rightarrow> (1, s)
      | tarfile # _ \<Rightarrow>
          if stat_dir e (acts s) tarfile = None then (1, s)
          else (case real_path e (acts s) tarfile of
              None \<Rightarrow> (1, s)
            | Some tar_abs \<Rightarrow> (case temp_dir e (acts s) ''/tmp/pkg_XXXXXX'' of
                  None \<Rightarrow> (1, s)
                | Some tmp \<Rightarrow> install_from e tar_abs tmp (act (Made_Temp tmp) s))))"

text \<open>\<open>pkg list\<close>.\<close>

definition cmd_list_all :: "pkg_env \<Rightarrow> cstring list \<Rightarrow> pkg_state \<Rightarrow> int \<times> pkg_state" where
  "cmd_list_all e argv s =
     (case pkgdb s of
        None \<Rightarrow> (0, print_out (''No packages installed.'' @ [NL]) s)
      | Some d \<Rightarrow>
          (0, print_out (pad_right 24 ''NAME'' @ '' VERSION'' @ [NL] @ replicate 24 (CHR ''-'') @ '' -------'' @ [NL] @
             concat (map (\<lambda>p. pad_right 24 (fst p) @ '' '' @ snd p @ [NL]) (db_entries d)) @
             (if db_entries d = [] then ''No packages installed.'' @ [NL] else [])) s))"

text \<open>\<open>pkg remove\<close>.\<close>

fun unlink_files :: "pkg_env \<Rightarrow> cstring \<Rightarrow> cstring list \<Rightarrow> pkg_state \<Rightarrow> pkg_state" where
  "unlink_files e bdir [] s = s"
| "unlink_files e bdir (f # fs) s =
     (let dst = fit PKG_FULL_MAX (bdir @ ''/'' @ f); s1 = act (Remove_File dst) s in
      unlink_files e bdir fs
        (if unlink_ok e (acts s) dst then print_out (''pkg:   removed '' @ dst @ [NL]) s1 else s1))"

definition cmd_remove :: "pkg_env \<Rightarrow> cstring list \<Rightarrow> pkg_state \<Rightarrow> int \<times> pkg_state" where
  "cmd_remove e argv s =
     (case argv of
        [] \<Rightarrow> (1, s)
      | name # _ \<Rightarrow> (case pkgdb_lookup (pkgdb s) name PKG_VER_MAX of
            None \<Rightarrow> (1, s)
          | Some version \<Rightarrow>
              let idir = install_dir e name version;
                  s1 = print_out (''pkg: removing '' @ name @ ''-'' @ version @ '' ...'' @ [NL]) s;
                  s2 = (case parse_pkgjson (read_bytes e (acts s1) (fit PKG_FULL_MAX (idir @ ''/pkg.json''))) of
                          None \<Rightarrow> s1
                        | Some m \<Rightarrow> unlink_files e (bin_dir e) (pfiles m) s1);
                  (r, s3) = run_command e [''rm'', ''-rf'', idir] s2
              in if r \<noteq> 0 then (1, s3)
                 else (0, print_out (''pkg: '' @ name @ ''-'' @ version @ '' removed'' @ [NL])
                        (s3\<lparr>pkgdb := pkgdb_remove_entry (db_opens e (acts s3)) name (pkgdb s3)\<rparr>))))"

text \<open>\<open>pkg check-update\<close> and \<open>pkg upgrade\<close> ask the registry the same question.\<close>

definition REGISTRY_URL :: cstring where "REGISTRY_URL = ''http://localhost:3000''"

definition query_registry :: "pkg_env \<Rightarrow> cstring \<Rightarrow> pkg_state \<Rightarrow> cstring option \<times> pkg_state" where
  "query_registry e name s =
     (let url = fit PKG_FULL_MAX (REGISTRY_URL @ ''/packages/'' @ name);
          (status, resp, s1) = capture_command e [''curl'', ''-s'', url] 4096 s
      in (if status \<noteq> 0 \<or> resp = [] \<or> strstr resp (DQ # ''error'' @ [DQ]) \<noteq> None then None else Some resp, s1))"

definition cmd_check_update :: "pkg_env \<Rightarrow> cstring list \<Rightarrow> pkg_state \<Rightarrow> int \<times> pkg_state" where
  "cmd_check_update e argv s =
     (case argv of
        [] \<Rightarrow> (1, s)
      | name # _ \<Rightarrow> (case query_registry e name s of
            (None, s1) \<Rightarrow> (1, s1)
          | (Some resp, s1) \<Rightarrow> (case json_get_string resp ''latestVersion'' PKG_VER_MAX of
                None \<Rightarrow> (1, s1)
              | Some latest \<Rightarrow>
                  (0, print_out
                    (case pkgdb_lookup (pkgdb s1) name PKG_VER_MAX of
                       None \<Rightarrow> name @ '': not installed  (registry has '' @ latest @ '')'' @ [NL] @
                         ''  Run: pkg upgrade '' @ name @ [NL]
                     | Some installed \<Rightarrow>
                         let cmp = version_cmp latest installed in
                         if 0 < cmp
                         then ''Update available: '' @ name @ ''  '' @ installed @ '' -> '' @ latest @ [NL] @
                           ''  Run: pkg upgrade '' @ name @ [NL]
                         else if cmp = 0 then name @ '' '' @ installed @ '' is up to date'' @ [NL]
                         else name @ '': installed '' @ installed @ '' is ahead of registry '' @ latest @ [NL]) s1))))"

definition download :: "pkg_env \<Rightarrow> cstring \<Rightarrow> cstring \<Rightarrow> bool \<Rightarrow> cstring \<Rightarrow> pkg_state \<Rightarrow> int \<times> pkg_state" where
  "download e name dl_url is_installed tmp s =
     (let tmptar = fit PKG_FULL_MAX (tmp @ ''/download.tar.gz'');
          s1 = print_out (''pkg: downloading '' @ dl_url @ '' ...'' @ [NL]) s;
          (r, s2) = run_command e [''curl'', ''-s'', ''-o'', tmptar, dl_url] s1 in
      if r \<noteq> 0 then (1, clean_up e tmp s2)
      else let s3 = (if is_installed then snd (cmd_remove e [name] s2) else s2);
               (r2, s4) = cmd_install e [tmptar] s3
           in (r2, clean_up e tmp s4))"

definition cmd_upgrade :: "pkg_env \<Rightarrow> cstring list \<Rightarrow> pkg_state \<Rightarrow> int \<times> pkg_state" where
  "cmd_upgrade e argv s =
     (case argv of
        [] \<Rightarrow> (1, s)
      | name # _ \<Rightarrow> (case query_registry e name s of
            (None, s1) \<Rightarrow> (1, s1)
          | (Some resp, s1) \<Rightarrow>
              (case (json_get_string resp ''latestVersion'' PKG_VER_MAX, json_get_string resp ''downloadUrl'' PKG_FULL_MAX) of
                 (Some latest, Some dl_url) \<Rightarrow>
                   let found = pkgdb_lookup (pkgdb s1) name PKG_VER_MAX in
                   if (case found of None \<Rightarrow> False | Some installed \<Rightarrow> version_cmp latest installed \<le> 0)
                   then (0, print_out (name @ '' '' @ the found @ '' is already up to date'' @ [NL]) s1)
                   else
                     let s2 = print_out (case found of
                           Some installed \<Rightarrow> ''pkg: upgrading '' @ name @ ''  '' @ installed @ '' -> '' @ latest @ [NL]
                         | None \<Rightarrow> ''pkg: installing '' @ name @ '' '' @ latest @ '' from registry'' @ [NL]) s1
                     in (case temp_dir e (acts s2) ''/tmp/pkg_up_XXXXXX'' of
                           None \<Rightarrow> (1, s2)
                         | Some tmp \<Rightarrow> download e name dl_url (found \<noteq> None) tmp (act (Made_Temp tmp) s2))
               | _ \<Rightarrow> (1, s1))))"

definition subcmds :: "(cstring \<times> (pkg_env \<Rightarrow> cstring list \<Rightarrow> pkg_state \<Rightarrow> int \<times> pkg_state)) list" where
  "subcmds = [(''build'', cmd_build), (''install'', cmd_install), (''list'', cmd_list_all), (''remove'', cmd_remove),
     (''check-update'', cmd_check_update), (''upgrade'', cmd_upgrade)]"

definition pkg_main :: "pkg_env \<Rightarrow> cstring list \<Rightarrow> pkg_state \<Rightarrow> int \<times> pkg_state" where
  "pkg_main e argv s =
     (case argv of
        [] \<Rightarrow> (1, s)
      | sub # rest \<Rightarrow> (case map_of subcmds sub of None \<Rightarrow> (1, s) | Some fn \<Rightarrow> fn e rest s))"

section \<open>What the commands touch\<close>

text \<open>
  Files are only removed and linked under the \<^verbatim>\<open>bin\<close> directory, textually, and a temporary directory
  is removed after it was made.
\<close>

definition link_act_ok :: "pkg_env \<Rightarrow> pkg_act \<Rightarrow> bool" where
  "link_act_ok e a \<longleftrightarrow> (case a of
      Remove_File p \<Rightarrow> prefix (bin_dir e @ ''/'') p
    | Make_Link src dst \<Rightarrow> prefix (bin_dir e @ ''/'') dst
    | _ \<Rightarrow> True)"

fun temps_cleaned :: "pkg_act list \<Rightarrow> bool" where
  "temps_cleaned [] = True"
| "temps_cleaned (Made_Temp t # as) \<longleftrightarrow> Run_Program [''rm'', ''-rf'', t] \<in> set as \<and> temps_cleaned as"
| "temps_cleaned (a # as) = temps_cleaned as"

definition trace_ok :: "pkg_env \<Rightarrow> pkg_state \<Rightarrow> pkg_state \<Rightarrow> bool" where
  "trace_ok e s s1 \<longleftrightarrow> (\<exists>new. acts s1 = acts s @ new \<and> list_all (link_act_ok e) new \<and> temps_cleaned new)"

lemma temps_cleaned_append: "temps_cleaned xs \<Longrightarrow> temps_cleaned ys \<Longrightarrow> temps_cleaned (xs @ ys)"
  by (induction xs rule: temps_cleaned.induct) auto

lemma trace_ok_refl [simp]: "trace_ok e s s"
  by (simp add: trace_ok_def)

lemma trace_ok_trans: "trace_ok e s s1 \<Longrightarrow> trace_ok e s1 s2 \<Longrightarrow> trace_ok e s s2"
  unfolding trace_ok_def using temps_cleaned_append by fastforce

lemma trace_ok_same: "acts s1 = acts s \<Longrightarrow> trace_ok e s s1"
  by (simp add: trace_ok_def)

lemma trace_ok_print [simp]: "trace_ok e s (print_out t s1) \<longleftrightarrow> trace_ok e s s1"
  by (simp add: trace_ok_def print_out_def)

lemma trace_ok_db [simp]: "trace_ok e s (s1\<lparr>pkgdb := d\<rparr>) \<longleftrightarrow> trace_ok e s s1"
  by (simp add: trace_ok_def)

lemma trace_ok_act: "trace_ok e s s1 \<Longrightarrow> link_act_ok e a \<Longrightarrow> \<forall>t. a \<noteq> Made_Temp t \<Longrightarrow> trace_ok e s (act a s1)"
proof -
  assume "trace_ok e s s1" and a: "link_act_ok e a" "\<forall>t. a \<noteq> Made_Temp t"
  then obtain new where new: "acts s1 = acts s @ new" "list_all (link_act_ok e) new" "temps_cleaned new"
    by (auto simp: trace_ok_def)
  have "temps_cleaned [a]" using a(2) by (cases a) auto
  from temps_cleaned_append [OF new(3) this] new a show ?thesis
    by (auto simp: trace_ok_def act_def)
qed

lemma trace_ok_run: "trace_ok e s s1 \<Longrightarrow> trace_ok e s (snd (run_command e args s1))"
  by (simp add: run_command_def trace_ok_act link_act_ok_def)

lemma trace_ok_clean: "trace_ok e s s1 \<Longrightarrow> trace_ok e s (clean_up e t s1)"
  by (simp add: clean_up_def trace_ok_run)

lemma temp_cleaned:
  assumes "trace_ok e (act (Made_Temp t) s) s1"
  shows "trace_ok e s (clean_up e t s1)"
proof -
  obtain new where new: "acts s1 = acts s @ Made_Temp t # new" "list_all (link_act_ok e) new" "temps_cleaned new"
    using assms by (auto simp: trace_ok_def act_def)
  then have "temps_cleaned (Made_Temp t # new @ [Run_Program [''rm'', ''-rf'', t]])"
    by (simp add: temps_cleaned_append)
  with new show ?thesis by (auto simp: trace_ok_def clean_up_def run_command_def act_def link_act_ok_def)
qed

lemma make_dirs_trace: "trace_ok e s s1 \<Longrightarrow> trace_ok e s (snd (make_dirs e ps s1))"
  by (induction e ps s1 rule: make_dirs.induct) (auto simp: trace_ok_act link_act_ok_def)

lemma mkdirp_trace: "trace_ok e s s1 \<Longrightarrow> trace_ok e s (snd (mkdirp e path s1))"
  by (simp add: mkdirp_def make_dirs_trace)

lemma in_bin_dir: "prefix (bin_dir e @ ''/'') (fit PKG_FULL_MAX (bin_dir e @ CHR ''/'' # f))"
proof -
  have "length (bin_dir e @ ''/'') \<le> PKG_FULL_MAX - 1"
    using length_fit [of PKG_PATH_MAX "mysh_base e @ ''/bin''"] by (simp add: bin_dir_def pkg_sizes)
  then have "take (PKG_FULL_MAX - 1) ((bin_dir e @ ''/'') @ f) =
      (bin_dir e @ ''/'') @ take (PKG_FULL_MAX - 1 - length (bin_dir e @ ''/'')) f"
    by (subst take_append) (simp only: take_all)
  then show ?thesis by (simp add: fit_def del: take_append)
qed

lemma bin_acts_ok [simp]:
  "link_act_ok e (Remove_File (fit PKG_FULL_MAX (bin_dir e @ CHR ''/'' # f)))"
  "link_act_ok e (Make_Link src (fit PKG_FULL_MAX (bin_dir e @ CHR ''/'' # f)))"
  using in_bin_dir [of e f] by (simp_all add: link_act_ok_def)

lemma unlink_files_trace: "trace_ok e s s1 \<Longrightarrow> trace_ok e s (unlink_files e (bin_dir e) fs s1)"
  by (induction fs arbitrary: s1) (simp_all add: Let_def trace_ok_act)

lemma link_files_trace: "trace_ok e s s1 \<Longrightarrow> trace_ok e s (snd (link_files e idir (bin_dir e) fs s1))"
  by (induction fs arbitrary: s1) (simp_all add: Let_def case_prod_beta trace_ok_act)

lemmas trace_intros = trace_ok_run trace_ok_clean mkdirp_trace link_files_trace unlink_files_trace

lemma install_meta_trace:
  assumes "trace_ok e (act (Made_Temp tmp) s0) s"
  shows "trace_ok e s0 (snd (install_meta e tar_abs tmp m s))"
proof -
  let ?ok = "trace_ok e (act (Made_Temp tmp) s0)"
  obtain ok1 s2 where m1: "mkdirp e (install_dir e (pname m) (pversion m))
      (print_out (''pkg: installing '' @ pname m @ ''-'' @ pversion m @ [NL]) s) = (ok1, s2)" by fastforce
  obtain ok2 s3 where m2: "mkdirp e (bin_dir e) s2 = (ok2, s3)" by fastforce
  have s2: "?ok s2" using mkdirp_trace [of e _ "print_out _ s"] assms m1 by (metis snd_conv trace_ok_print)
  then have s3: "?ok s3" using mkdirp_trace m2 by (metis snd_conv)
  show ?thesis
    unfolding install_meta_def Let_def m1 prod.case m2
    using s2 s3 by (simp add: case_prod_beta temp_cleaned trace_intros del: append_assoc)
qed

lemma install_from_trace: "trace_ok e s (snd (install_from e tar_abs tmp (act (Made_Temp tmp) s)))"
proof -
  obtain r s1 where r: "run_command e [''tar'', ''--strip-components=1'', ''-xzf'', tar_abs, ''-C'', tmp]
      (act (Made_Temp tmp) s) = (r, s1)" by fastforce
  have s1: "trace_ok e (act (Made_Temp tmp) s) s1"
    using trace_ok_run [OF trace_ok_refl] r by (metis snd_conv)
  show ?thesis
    unfolding install_from_def Let_def r prod.case
    using s1 by (auto simp: temp_cleaned install_meta_trace split: option.split)
qed

lemma cmd_install_trace: "trace_ok e s (snd (cmd_install e argv s))"
  by (auto simp: cmd_install_def install_from_trace split: list.split option.split)

lemma cmd_remove_trace: "trace_ok e s (snd (cmd_remove e argv s))"
  by (auto simp: cmd_remove_def Let_def case_prod_beta trace_intros split: list.split option.split)

lemma query_trace: "trace_ok e s (snd (query_registry e name s))"
  by (auto simp: query_registry_def capture_command_def Let_def case_prod_beta trace_ok_act link_act_ok_def)

lemma query_traced: "query_registry e name s = (q, s1) \<Longrightarrow> trace_ok e s s1"
  using query_trace [of e s name] by simp

lemma cmd_check_update_trace: "trace_ok e s (snd (cmd_check_update e argv s))"
  by (auto simp: cmd_check_update_def split: list.split option.split prod.split dest: query_traced)

lemma download_trace:
  assumes "trace_ok e s0 s"
  shows "trace_ok e s0 (snd (download e name url inst tmp (act (Made_Temp tmp) s)))"
proof -
  let ?args = "[''curl'', ''-s'', ''-o'', fit PKG_FULL_MAX (tmp @ ''/download.tar.gz''), url]"
  obtain r s2 where r: "run_command e ?args
      (print_out (''pkg: downloading '' @ url @ '' ...'' @ [NL]) (act (Made_Temp tmp) s)) = (r, s2)" by fastforce
  have s2: "trace_ok e (act (Made_Temp tmp) s) s2"
    using trace_ok_run [of e _ "print_out _ (act (Made_Temp tmp) s)"] r by (metis snd_conv trace_ok_print trace_ok_refl)
  define s3 where "s3 = (if inst then snd (cmd_remove e [name] s2) else s2)"
  have s3: "trace_ok e (act (Made_Temp tmp) s) s3"
    using s2 cmd_remove_trace [of e s2 "[name]"] by (auto simp: s3_def intro: trace_ok_trans)
  show ?thesis
    unfolding download_def Let_def r prod.case s3_def [symmetric]
    using s2 s3 assms trace_ok_trans [OF s3 cmd_install_trace]
    by (auto simp: case_prod_beta intro: trace_ok_trans temp_cleaned)
qed

lemma cmd_upgrade_trace: "trace_ok e s (snd (cmd_upgrade e argv s))"
proof (cases argv)
  case (Cons name rest)
  obtain q s1 where q: "query_registry e name s = (q, s1)" by fastforce
  have "trace_ok e s s1" using query_trace [of e s name] q by simp
  with Cons show ?thesis
    by (auto simp: cmd_upgrade_def q Let_def download_trace split: option.split)
qed (simp add: cmd_upgrade_def)

text \<open>C24: Every pkg command but build removes and creates links only under the bin directory,
  textually, and requests the removal of every temporary directory it made, on every path.\<close>

theorem pkg_acts_confined:
  assumes "sub \<noteq> ''build''"
  shows "\<exists>new. acts (snd (pkg_main e (sub # rest) s)) = acts s @ new \<and> list_all (link_act_ok e) new \<and> temps_cleaned new"
proof -
  have "trace_ok e s (snd (pkg_main e (sub # rest) s))"
    using assms by (auto simp: pkg_main_def subcmds_def cmd_install_trace cmd_remove_trace cmd_check_update_trace
        cmd_upgrade_trace cmd_list_all_def split: option.split)
  then show ?thesis by (simp add: trace_ok_def)
qed

section \<open>What becomes of the database\<close>

text \<open>The environments in which the database can be written and packages have names without blanks.\<close>

definition tidy_env :: "pkg_env \<Rightarrow> bool" where
  "tidy_env e \<longleftrightarrow> (\<forall>as. db_opens e as) \<and>
     (\<forall>as p m. parse_pkgjson (read_bytes e as p) = Some m \<longrightarrow> entry_ok (pname m, pversion m))"

lemma act_db [simp]: "pkgdb (act a s) = pkgdb s" "pkgdb (print_out t s) = pkgdb s"
  by (simp_all add: act_def print_out_def)

lemma run_db [simp]: "pkgdb (snd (run_command e args s)) = pkgdb s" "pkgdb (clean_up e t s) = pkgdb s"
  by (simp_all add: run_command_def clean_up_def)

lemma make_dirs_db [simp]: "pkgdb (snd (make_dirs e ps s)) = pkgdb s"
  by (induction e ps s rule: make_dirs.induct) auto

lemma mkdirp_db [simp]: "pkgdb (snd (mkdirp e p s)) = pkgdb s"
  by (simp add: mkdirp_def)

lemma link_files_db [simp]: "pkgdb (snd (link_files e idir bdir fs s)) = pkgdb s"
  by (induction fs arbitrary: s) (simp_all add: Let_def case_prod_beta)

lemma unlink_files_db [simp]: "pkgdb (unlink_files e bdir fs s) = pkgdb s"
  by (induction fs arbitrary: s) (simp_all add: Let_def)

lemma query_db [simp]: "pkgdb (snd (query_registry e name s)) = pkgdb s"
  by (simp add: query_registry_def capture_command_def Let_def case_prod_beta)

lemma install_meta_db:
  assumes "tidy_env e"
  shows "pkgdb (snd (install_meta e tar_abs tmp m s)) = pkgdb s \<and> fst (install_meta e tar_abs tmp m s) = 1
    \<or> pkgdb (snd (install_meta e tar_abs tmp m s)) = pkgdb_append True (pname m) (pversion m) (pkgdb s)"
  using assms by (simp add: install_meta_def Let_def case_prod_beta tidy_env_def)

lemma install_from_db:
  assumes "tidy_env e"
  shows "pkgdb (snd (install_from e tar_abs tmp s)) = pkgdb s \<and> fst (install_from e tar_abs tmp s) = 1
    \<or> (\<exists>n v. entry_ok (n, v) \<and>
         pkgdb (snd (install_from e tar_abs tmp s)) = pkgdb_append True n v (pkgdb s))"
proof -
  let ?args = "[''tar'', ''--strip-components=1'', ''-xzf'', tar_abs, ''-C'', tmp]"
  obtain r s1 where r: "run_command e ?args s = (r, s1)" by fastforce
  have s1: "pkgdb s1 = pkgdb s" using run_db(1) [of e ?args s] r by simp
  show ?thesis
  proof (cases "find_pkgjson e tmp PKG_PATH_MAX s1")
    case None
    then show ?thesis by (simp add: install_from_def r s1)
  next
    case (Some path)
    show ?thesis
    proof (cases "parse_pkgjson (read_bytes e (acts s1) path)")
      case None
      with Some show ?thesis by (simp add: install_from_def r s1)
    next
      case (Some m)
      then have "entry_ok (pname m, pversion m)" using assms by (auto simp: tidy_env_def)
      show ?thesis
      proof (cases "r = 0")
        case True
        with Some \<open>find_pkgjson e tmp PKG_PATH_MAX s1 = Some path\<close>
        have eq: "install_from e tar_abs tmp s = install_meta e tar_abs tmp m s1" by (simp add: install_from_def r)
        from install_meta_db [OF assms, of tar_abs tmp m s1] show ?thesis
          unfolding eq s1 using \<open>entry_ok (pname m, pversion m)\<close> by blast
      qed (simp add: install_from_def r s1)
    qed
  qed
qed

lemma cmd_install_db:
  assumes "tidy_env e"
  shows "pkgdb (snd (cmd_install e argv s)) = pkgdb s \<and> fst (cmd_install e argv s) = 1
    \<or> (\<exists>n v. entry_ok (n, v) \<and>
         pkgdb (snd (cmd_install e argv s)) = pkgdb_append True n v (pkgdb s))"
  using install_from_db [OF assms, of _ _ "act (Made_Temp _) s"]
  by (auto simp: cmd_install_def split: list.split option.split)

lemma cmd_install_keeps:
  assumes "tidy_env e" "db_inv (pkgdb s)"
  shows "db_inv (pkgdb (snd (cmd_install e argv s)))"
proof -
  have "db_inv (pkgdb_append True n v (pkgdb s))" if "entry_ok (n, v)" for n v
    using pdb.add_spec [OF assms(2) that] by simp
  with cmd_install_db [OF assms(1), of argv s] assms(2) show ?thesis by metis
qed

lemma cmd_remove_db:
  assumes "tidy_env e"
  shows "pkgdb (snd (cmd_remove e argv s)) = pkgdb s \<and> fst (cmd_remove e argv s) = 1
    \<or> argv \<noteq> [] \<and> pkgdb (snd (cmd_remove e argv s)) = pkgdb_remove_entry True (hd argv) (pkgdb s)"
proof (cases argv)
  case (Cons name rest)
  show ?thesis
  proof (cases "pkgdb_lookup (pkgdb s) name PKG_VER_MAX")
    case (Some v)
    then show ?thesis
      using assms unfolding Cons cmd_remove_def
      by (simp add: Let_def case_prod_beta tidy_env_def split: option.split)
  qed (simp add: cmd_remove_def Cons)
qed (simp add: cmd_remove_def)

theorem pkg_install_records:
  assumes "tidy_env e" "db_inv (pkgdb s)" "cmd_install e argv s = (0, s1)"
  shows "\<exists>n v. db_inv (pkgdb s1) \<and> db_of (pkgdb s1) = db_of (pkgdb s) @ [(n, v)] \<and>
    (pkgdb_lookup (pkgdb s) n PKG_VER_MAX = None \<longrightarrow> pkgdb_lookup (pkgdb s1) n PKG_VER_MAX = Some v)"
proof -
  from cmd_install_db [OF assms(1), of argv s] assms(3) obtain n v
    where m: "entry_ok (n, v)" "pkgdb s1 = pkgdb_append True n v (pkgdb s)" by auto
  then show ?thesis
    using pdb.add_spec [OF assms(2) m(1)] pdb.look_added [OF assms(2) m(1)] by auto
qed

theorem pkg_remove_forgets:
  assumes "tidy_env e" "db_inv (pkgdb s)" "length (db_of (pkgdb s)) \<le> 256" "cmd_remove e (n # rest) s = (0, s1)"
  shows "pkgdb_lookup (pkgdb s1) n PKG_VER_MAX = None \<and>
    (\<forall>m. m \<noteq> n \<longrightarrow> pkgdb_lookup (pkgdb s1) m PKG_VER_MAX = pkgdb_lookup (pkgdb s) m PKG_VER_MAX)"
proof -
  from cmd_remove_db [OF assms(1), of "n # rest" s] assms(4)
  have "pkgdb s1 = pkgdb_remove_entry True n (pkgdb s)" by auto
  then show ?thesis
    using pdb.look_deleted [OF assms(2,3)] pdb.look_other_deleted [OF assms(2,3)] by auto
qed

lemma cmd_upgrade_db:
  assumes "tidy_env e" "db_inv (pkgdb s)" "length (db_of (pkgdb s)) \<le> 256"
  shows "db_inv (pkgdb (snd (cmd_upgrade e argv s)))"
proof (cases argv)
  case (Cons name rest)
  obtain q s1 where q: "query_registry e name s = (q, s1)" by fastforce
  then have s1: "pkgdb s1 = pkgdb s" using query_db [of e name s] by simp
  note inst = cmd_install_keeps [OF assms(1)]
  have rem: "db_inv (pkgdb (snd (cmd_remove e [name] t)))" if "pkgdb t = pkgdb s" for t
    using cmd_remove_db [OF assms(1), of "[name]" t] pdb.del_spec [OF assms(2,3)] assms(2) that by auto
  have "db_inv (pkgdb (snd (download e name url b tmp t)))" if "pkgdb t = pkgdb s" for url b tmp t
  proof -
    let ?args = "[''curl'', ''-s'', ''-o'', fit PKG_FULL_MAX (tmp @ ''/download.tar.gz''), url]"
    obtain r s2 where r: "run_command e ?args (print_out (''pkg: downloading '' @ url @ '' ...'' @ [NL]) t) = (r, s2)"
      by fastforce
    have s2: "pkgdb s2 = pkgdb s" using run_db(1) [of e ?args "print_out _ t"] r that by (metis act_db(2) snd_conv)
    show ?thesis
      unfolding download_def Let_def r prod.case
      using s2 assms(2) inst [OF rem [OF s2]] inst [of s2] by (simp add: case_prod_beta)
  qed
  with Cons assms(2) show ?thesis
    by (simp add: cmd_upgrade_def q s1 Let_def split: option.split)
qed (simp add: cmd_upgrade_def assms)

lemma cmd_build_db [simp]: "pkgdb (snd (cmd_build e argv s)) = pkgdb s"
  by (simp add: cmd_build_def Let_def case_prod_beta split: list.split)

lemma cmd_list_db [simp]: "pkgdb (snd (cmd_list_all e argv s)) = pkgdb s"
  by (simp add: cmd_list_all_def split: option.split)

lemma cmd_check_update_db [simp]: "pkgdb (snd (cmd_check_update e argv s)) = pkgdb s"
proof (cases argv)
  case (Cons name rest)
  obtain q s1 where q: "query_registry e name s = (q, s1)" by fastforce
  then have "pkgdb s1 = pkgdb s" using query_db [of e name s] by simp
  with Cons q show ?thesis by (simp add: cmd_check_update_def split: option.split)
qed (simp add: cmd_check_update_def)


section \<open>Witnesses and findings\<close>

definition hello_meta :: pkg_meta where
  "hello_meta = \<lparr>pname = ''hello'', pversion = ''1.0'', pdescription = [], pfiles = [''hi'']\<rparr>"

text \<open>A system on which everything succeeds and every package is \<open>hello\<close>.\<close>

definition demo_env :: pkg_env where
  "demo_env = \<lparr>home_dir = Some ''/h'', stat_dir = (\<lambda>as p. Some True), real_path = (\<lambda>as p. Some p),
     temp_dir = (\<lambda>as p. Some ''/tmp/pkg_1''), run_status = (\<lambda>as args. 0), captured = (\<lambda>as args. (0, [])),
     read_bytes = (\<lambda>as p. Some (meta_text hello_meta)), list_dir = (\<lambda>as p. None), mkdir_ok = (\<lambda>as p. True),
     link_ok = (\<lambda>as a b. True), unlink_ok = (\<lambda>as p. True), db_opens = (\<lambda>as. True)\<rparr>"

definition demo_pkgs :: pkg_state where
  "demo_pkgs = \<lparr>pkgdb = None, acts = [], printed = []\<rparr>"

lemma hello_ok: "meta_ok hello_meta"
  by (simp add: hello_meta_def meta_ok_def plain_text_def pkg_sizes shell_defs)

lemma demo_tidy: "tidy_env demo_env"
  using pkgjson_roundtrip_aux [OF hello_ok]
  by (simp add: tidy_env_def demo_env_def) (simp add: hello_meta_def entry_ok_def word_ok_def shell_defs)

lemma demo_db: "db_inv (pkgdb demo_pkgs)" "db_of (pkgdb demo_pkgs) = []"
  by (simp_all add: db_inv_def db_of_def demo_pkgs_def)

theorem pkg_acts_confined_witness:
  "\<exists>new. acts (snd (pkg_main demo_env [''install'', ''p.tgz''] demo_pkgs)) = new \<and> list_all (link_act_ok demo_env) new
     \<and> temps_cleaned new"
  using pkg_acts_confined [of "''install''" demo_env "[''p.tgz'']" demo_pkgs] by (simp add: demo_pkgs_def)


lemma demo_answers [simp]:
  "stat_dir demo_env as p = Some True" "real_path demo_env as p = Some p" "temp_dir demo_env as p = Some ''/tmp/pkg_1''"
  "run_status demo_env as args = 0" "mkdir_ok demo_env as p" "link_ok demo_env as src dst" "db_opens demo_env as"
  "parse_pkgjson (read_bytes demo_env as p) = Some hello_meta"
  using pkgjson_roundtrip_aux [OF hello_ok] by (simp_all add: demo_env_def)

lemma demo_dirs [simp]: "fst (mkdirp demo_env p s)"
proof -
  have "fst (make_dirs demo_env ps s)" for ps by (induction ps arbitrary: s) auto
  then show ?thesis by (simp add: mkdirp_def)
qed

lemma demo_run [simp]: "fst (run_command demo_env args s) = 0"
  by (simp add: run_command_def)

lemma demo_links [simp]: "fst (link_files demo_env idir bdir fs s) = 0"
  by (induction fs arbitrary: s) (simp_all add: Let_def case_prod_beta)

lemma demo_install: "cmd_install demo_env [''p.tgz''] demo_pkgs = (0, snd (cmd_install demo_env [''p.tgz''] demo_pkgs))"
  by (simp add: cmd_install_def install_from_def find_pkgjson_def install_meta_def Let_def case_prod_beta)

theorem pkg_install_records_witness:
  "\<exists>n v. db_of (pkgdb (snd (cmd_install demo_env [''p.tgz''] demo_pkgs))) = [(n, v)]"
  using pkg_install_records [OF demo_tidy demo_db(1) demo_install] by (auto simp: demo_db)

definition demo_installed :: pkg_state where
  "demo_installed = \<lparr>pkgdb = Some (db_text [(''hello'', ''1.0''), (''other'', ''2'')]), acts = [], printed = []\<rparr>"

lemma demo_installed_db: "db_inv (pkgdb demo_installed)" "db_of (pkgdb demo_installed) = [(''hello'', ''1.0''), (''other'', ''2'')]"
  using db_inv_text [of "[(''hello'', ''1.0''), (''other'', ''2'')]"]
  by (simp_all add: demo_installed_def entry_ok_def word_ok_def shell_defs)

lemma demo_remove: "cmd_remove demo_env [''hello''] demo_installed = (0, snd (cmd_remove demo_env [''hello''] demo_installed))"
  using pdb.look_spec [OF demo_installed_db(1), of "''hello''"]
  by (simp add: cmd_remove_def demo_installed_db(2) Let_def case_prod_beta)

theorem pkg_remove_forgets_witness:
  "pkgdb_lookup (pkgdb (snd (cmd_remove demo_env [''hello''] demo_installed))) ''hello'' PKG_VER_MAX = None"
  using pkg_remove_forgets [OF demo_tidy demo_installed_db(1) _ demo_remove] by (simp add: demo_installed_db)

theorem version_cmp_dotted: "version_cmp (version_text ms) (version_text ns) = first_difference ms ns"
  by (rule version_cmp_dotted_aux)

text \<open>A file name of the package's own \<^verbatim>\<open>pkg.json\<close> may climb out of the directory it is linked in.\<close>

lemma link_escapes_bin:
  "acts (snd (link_files demo_env ''/h/.mysh/pkgs/x-1'' (bin_dir demo_env) [''../../.profile''] demo_pkgs)) =
     [Remove_File ''/h/.mysh/bin/../../.profile'',
      Make_Link ''/h/.mysh/pkgs/x-1/../../.profile'' ''/h/.mysh/bin/../../.profile'']"
  by code_simp

text \<open>A name with a blank is recorded but not found again.\<close>

lemma blank_name_lost: "pkgdb_lookup (pkgdb_append True ''my tool'' ''1.0'' None) ''my tool'' PKG_VER_MAX = None"
  by code_simp

text \<open>Installing a second version without removing the first keeps reporting the first.\<close>

lemma reinstall_keeps_old:
  "pkgdb_lookup (pkgdb_append True ''a'' ''2.0'' (pkgdb_append True ''a'' ''1.0'' None)) ''a'' PKG_VER_MAX = Some ''1.0''"
  by code_simp

text \<open>An entry that is too long for its buffer is cut, and the quote that closes it opens a new entry.\<close>

lemma long_entry_splits:
  "array_items 64 (DQ # replicate 127 (CHR ''a'') @ ''b'' @ [DQ] @ '', '' @ DQ # ''c'' @ DQ # '']'') =
     [replicate 127 (CHR ''a''), '', '', '']'']"
  by code_simp

text \<open>An upgrade whose download is no package removes the installed one and installs nothing.\<close>

definition demo_answer :: cstring where
  "demo_answer = joined [DQ] [''{'', ''latestVersion'', '':'', ''1.1'', '','', ''downloadUrl'', '':'', ''u'', ''}'']"

definition bad_download :: pkg_env where
  "bad_download = demo_env\<lparr>captured := (\<lambda>as args. (0, joined [DQ] [''{'', ''latestVersion'', '':'', ''1.1'', '','', ''downloadUrl'', '':'', ''u'', ''}''])),
     run_status := (\<lambda>as args. if hd args = ''tar'' then 2 else 0)\<rparr>"

lemma bad_answers [simp]:
  "stat_dir bad_download as p = Some True" "real_path bad_download as p = Some p" "temp_dir bad_download as p = Some ''/tmp/pkg_1''"
  "db_opens bad_download as" "parse_pkgjson (read_bytes bad_download as p) = Some hello_meta"
  "run_status bad_download as (''tar'' # args) = 2" "run_status bad_download as (''curl'' # args) = 0"
  "run_status bad_download as (''rm'' # args) = 0"
  by (simp_all add: bad_download_def)

lemma bad_query: "fst (query_registry bad_download name s) = Some demo_answer"
  by (simp add: query_registry_def capture_command_def bad_download_def demo_answer_def Let_def c_str_def shell_defs)

lemma bad_fields:
  "json_get_string demo_answer ''latestVersion'' PKG_VER_MAX = Some ''1.1''"
  "json_get_string demo_answer ''downloadUrl'' PKG_FULL_MAX = Some ''u''"
  by (simp_all add: demo_answer_def json_get_string_def after_key_def key_needle_def fit_def pkg_sizes json_gap_def shell_defs)

lemma upgrade_loses_package:
  "fst (cmd_upgrade bad_download [''hello''] demo_installed) = 1
     \<and> pkgdb (snd (cmd_upgrade bad_download [''hello''] demo_installed)) = Some (db_text [(''other'', ''2'')])"
proof -
  obtain s1 where q: "query_registry bad_download ''hello'' demo_installed =
      (Some demo_answer, s1)"
    using bad_query [of "''hello''" demo_installed] by (cases "query_registry bad_download ''hello'' demo_installed") auto
  then have s1: "pkgdb s1 = pkgdb demo_installed" using query_db [of bad_download "''hello''" demo_installed] by simp
  have look: "pkgdb_lookup (pkgdb demo_installed) ''hello'' PKG_VER_MAX = Some ''1.0''"
    using pdb.look_spec [OF demo_installed_db(1), of "''hello''"] by (simp add: demo_installed_db(2))
  have cmp: "version_cmp ''1.1'' ''1.0'' = 1" by code_simp
  have rm: "pkgdb_remove_entry True ''hello'' (pkgdb demo_installed) = Some (db_text [(''other'', ''2'')])"
    using remove_text [of "[(''hello'', ''1.0''), (''other'', ''2'')]" "''hello''"]
    by (simp add: demo_installed_def entry_ok_def word_ok_def shell_defs)
  show ?thesis
    by (simp add: cmd_upgrade_def q bad_fields s1 look cmp download_def run_command_def cmd_remove_def cmd_install_def
        install_from_def Let_def case_prod_beta rm)
qed

end
