(* ===== verification/Ai_Client.thy ===== *)
theory Ai_Client
  imports Mcp_Replies At_Query
begin

text \<open>
  The AI client (\<^verbatim>\<open>aishell_client.c\<close>, the part compiled with libcurl): its JSON helpers, the request
  body, one attempt with one model and the chain of models. What \<open>curl_easy_perform\<close> answers is a
  parameter, which may depend on the requests made before; the state keeps the requests and the log
  lines. Progress messages on \<open>stderr\<close> are left out.

  The lemmas show that a well-formed answer is read back, that every text of the caller stays inside
  its quotes in the request, and that the chain stops at the first model that answers.
\<close>

section \<open>JSON helpers\<close>

fun ai_escape_go :: "nat \<Rightarrow> nat \<Rightarrow> cstring \<Rightarrow> cstring" where
  "ai_escape_go i dstsz [] = []"
| "ai_escape_go i dstsz (c # src) =
     (if i + 2 < dstsz then esc_char c @ ai_escape_go (i + length (esc_char c)) dstsz src else [])"

definition ai_escape :: "cstring \<Rightarrow> nat \<Rightarrow> cstring" where
  "ai_escape src dstsz = ai_escape_go 0 dstsz src"

definition ai_unesc :: "char \<Rightarrow> char" where
  "ai_unesc d = (if d = CHR ''n'' then NL else if d = CHR ''r'' then CR else if d = CHR ''t'' then TAB else d)"

text \<open>The copying loop; \<open>m\<close> is the room left in the output buffer.\<close>

fun ai_extract_go :: "nat \<Rightarrow> cstring \<Rightarrow> cstring" where
  "ai_extract_go 0 s = []"
| "ai_extract_go (Suc m) [] = []"
| "ai_extract_go (Suc m) [c] = (if c = DQ then [] else [c])"
| "ai_extract_go (Suc m) (c # d # s) =
     (if c = BSLASH then ai_unesc d # ai_extract_go m s
      else if c = DQ then [] else c # ai_extract_go m (d # s))"

definition json_extract_str :: "cstring \<Rightarrow> cstring \<Rightarrow> nat \<Rightarrow> cstring option" where
  "json_extract_str json key outsz =
     (let pat = fit 128 (DQ # key @ [DQ, CHR '':'', DQ]); pat2 = fit 128 (DQ # key @ [DQ, CHR '':'', CHR '' '', DQ]) in
      case strstr json pat of
        Some k \<Rightarrow> Some (ai_extract_go (outsz - 1) (drop (k + length pat) json))
      | None \<Rightarrow> (case strstr json pat2 of
            Some k \<Rightarrow> Some (ai_extract_go (outsz - 1) (drop (k + length pat2) json))
          | None \<Rightarrow> None))"

definition extract_choice_content :: "cstring \<Rightarrow> nat \<Rightarrow> cstring option" where
  "extract_choice_content body outsz =
     (case strstr body (DQ # ''choices'' @ [DQ]) of
        None \<Rightarrow> None
      | Some k \<Rightarrow> json_extract_str (drop k body) ''content'' outsz)"

section \<open>One attempt\<close>

record ai_response =
  success :: bool
  suggestion :: cstring
  explanation :: cstring
  error_msg :: cstring

definition no_answer :: ai_response where
  "no_answer = \<lparr>success = False, suggestion = [], explanation = [], error_msg = []\<rparr>"

text \<open>The outcome of the transfer; the body is \<open>NULL\<close> when no byte arrived.\<close>

datatype curl_result =
    Curl_No_Handle
  | Curl_Error cstring
  | Curl_Done int "char list option"

record ai_request =
  auth_header :: cstring
  post_body :: cstring

record ai_env =
  env_var :: "cstring \<Rightarrow> cstring option"
  perform :: "ai_request list \<Rightarrow> ai_request \<Rightarrow> curl_result"

text \<open>A text of the source with its quotes, written as back ticks, escaped.\<close>

definition escaped_quotes :: "cstring \<Rightarrow> cstring" where
  "escaped_quotes s = concat (map (\<lambda>c. if c = BTICK then [BSLASH, DQ] else [c]) s)"

definition answer_format :: cstring where
  "answer_format = escaped_quotes ''{`command`: `<the shell command>`, `explanation`: `<one sentence why>`}. ''
     @ ''Never add markdown, never add extra text.''"

definition system_prompt :: "cstring option \<Rightarrow> cstring" where
  "system_prompt context =
     (case context of
        Some (c # cs) \<Rightarrow> fit 4096 (ai_escape (c # cs) 2048 @ [BSLASH, CHR ''n'', BSLASH, CHR ''n''] @
          ''You are a shell command expert. Given the above relevant commands and the user query, '' @
          ''suggest the best shell command. Respond ONLY with JSON: '' @ answer_format)
      | _ \<Rightarrow> fit 4096 (''You are a shell command expert. When given a natural language request, '' @
          ''respond with ONLY a JSON object in this exact format: '' @ answer_format))"

definition request_body :: "cstring \<Rightarrow> cstring \<Rightarrow> cstring option \<Rightarrow> cstring" where
  "request_body model query context =
     fit 8192 (jq ''{`model`:`'' @ ai_escape model 256 @ jq ''`,`max_tokens`:1024,`messages`:['' @
       jq ''{`role`:`system`,`content`:`'' @ system_prompt context @ jq ''`},'' @
       jq ''{`role`:`user`,`content`:`'' @ ai_escape query 2048 @ jq ''`}]}'')"

definition api_error :: "char list option \<Rightarrow> cstring" where
  "api_error body =
     (case body of
        None \<Rightarrow> []
      | Some b \<Rightarrow> (case json_extract_str (c_str b) ''message'' 128 of None \<Rightarrow> [] | Some e \<Rightarrow> e))"

definition bracketed :: "cstring \<Rightarrow> cstring" where
  "bracketed model = ''['' @ model @ ''] ''"

definition http_message :: "cstring \<Rightarrow> int \<Rightarrow> cstring \<Rightarrow> cstring \<Rightarrow> cstring" where
  "http_message model code err tl_text =
     fit 256 (bracketed model @ ''HTTP '' @ show_int code @ (if err \<noteq> [] then '': '' else []) @ err @ tl_text)"

text \<open>What is made of the content of the first choice.\<close>

definition read_content :: "cstring \<Rightarrow> ai_response \<Rightarrow> ai_response" where
  "read_content content resp =
     (case json_extract_str content ''command'' 2048 of
        None \<Rightarrow> resp\<lparr>suggestion := fit 2048 content, explanation := ''(raw response '' @ [CHR 0xE2, CHR 0x80, CHR 0x94] @
            '' JSON format not followed)'', success := True\<rparr>
      | Some c \<Rightarrow> resp\<lparr>suggestion := c,
            explanation := (case json_extract_str content ''explanation'' 2048 of None \<Rightarrow> explanation resp | Some x \<Rightarrow> x),
            success := True\<rparr>)"

definition read_reply :: "cstring \<Rightarrow> curl_result \<Rightarrow> ai_response \<Rightarrow> bool \<times> ai_response" where
  "read_reply model result resp =
     (case result of
        Curl_No_Handle \<Rightarrow> (False, resp\<lparr>error_msg := fit 256 (bracketed model @ ''curl_easy_init failed'')\<rparr>)
      | Curl_Error e \<Rightarrow> (False, resp\<lparr>error_msg := fit 256 (bracketed model @ ''curl error: '' @ e)\<rparr>)
      | Curl_Done code body \<Rightarrow>
          if code = 404 \<or> code = 429 \<or> code = 503
          then (False, resp\<lparr>error_msg := http_message model code (api_error body)
                  ('' '' @ [CHR 0xE2, CHR 0x80, CHR 0x94] @ '' skipping'')\<rparr>)
          else if code \<noteq> 200 then (False, resp\<lparr>error_msg := http_message model code (api_error body) []\<rparr>)
          else (case body of
              None \<Rightarrow> (False, resp\<lparr>error_msg := fit 256 (bracketed model @ ''empty response body'')\<rparr>)
            | Some b \<Rightarrow> (case extract_choice_content (c_str b) 4096 of
                  None \<Rightarrow> (False, resp\<lparr>error_msg := fit 256 (bracketed model @ ''could not parse choices[0].message.content'')\<rparr>)
                | Some content \<Rightarrow>
                    if content = [] then (False, resp\<lparr>error_msg := fit 256 (bracketed model @ ''empty content in response'')\<rparr>)
                    else (True, read_content content resp))))"

record ai_state =
  requests :: "ai_request list"
  ai_log :: "(cstring \<times> cstring \<times> cstring) list"

definition request_for :: "cstring \<Rightarrow> cstring \<Rightarrow> cstring option \<Rightarrow> cstring \<Rightarrow> ai_request" where
  "request_for api_key query context model =
     \<lparr>auth_header = fit 512 (''Authorization: Bearer '' @ api_key), post_body = request_body model query context\<rparr>"

definition try_model ::
  "ai_env \<Rightarrow> cstring \<Rightarrow> cstring \<Rightarrow> cstring \<Rightarrow> cstring option \<Rightarrow> ai_response \<Rightarrow> ai_state \<Rightarrow> bool \<times> ai_response \<times> ai_state" where
  "try_model e api_key model query context resp st =
     (let req = request_for api_key query context model;
          result = perform e (requests st) req;
          (ok, resp1) = read_reply model result resp
      in (ok, resp1, if result = Curl_No_Handle then st else st\<lparr>requests := requests st @ [req]\<rparr>))"

section \<open>The chain of models\<close>

definition MODEL_PRIORITY :: "cstring list" where
  "MODEL_PRIORITY =
     [''google/gemma-3-4b-it:free'', ''google/gemma-4-31b-it:free'', ''meta-llama/llama-3.3-70b-instruct:free'',
      ''meta-llama/llama-3.2-3b-instruct:free'', ''google/gemma-3-4b-it'', ''google/gemini-2.5-flash-lite'']"

definition set_var_of :: "ai_env \<Rightarrow> cstring \<Rightarrow> cstring option" where
  "set_var_of e name = (case env_var e name of Some (c # cs) \<Rightarrow> Some (c # cs) | _ \<Rightarrow> None)"

definition api_key_of :: "ai_env \<Rightarrow> cstring option" where
  "api_key_of e =
     (case set_var_of e ''OPENROUTER_API_KEY'' of Some k \<Rightarrow> Some k | None \<Rightarrow> set_var_of e ''ANTHROPIC_API_KEY'')"

text \<open>The model of the environment first, then the list.\<close>

definition model_chain :: "ai_env \<Rightarrow> cstring list" where
  "model_chain e = (case set_var_of e ''AISHELL_MODEL'' of None \<Rightarrow> [] | Some m \<Rightarrow> [m]) @ MODEL_PRIORITY"

fun try_models ::
  "ai_env \<Rightarrow> cstring \<Rightarrow> cstring \<Rightarrow> cstring option \<Rightarrow> cstring list \<Rightarrow> ai_response \<Rightarrow> ai_state \<Rightarrow> ai_response \<times> ai_state" where
  "try_models e api_key query context [] resp st =
     (resp\<lparr>error_msg := ''All models failed or rate limited. Check openrouter.ai/activity''\<rparr>,
      st\<lparr>ai_log := ai_log st @ [(query, [], ''error-all-models-failed'')]\<rparr>)"
| "try_models e api_key query context (m # ms) resp st =
     (case try_model e api_key m query context resp st of
        (ok, resp1, st1) \<Rightarrow>
          if ok then (resp1, st1\<lparr>ai_log := ai_log st1 @ [(query, suggestion resp1, m)]\<rparr>)
          else try_models e api_key query context ms resp1 st1)"

definition query_with_context :: "ai_env \<Rightarrow> cstring \<Rightarrow> cstring option \<Rightarrow> ai_state \<Rightarrow> ai_response \<times> ai_state" where
  "query_with_context e query context st =
     (case api_key_of e of
        None \<Rightarrow>
          (no_answer\<lparr>error_msg := ''OPENROUTER_API_KEY not set. Get a free key at https://openrouter.ai and '' @
             ''export OPENROUTER_API_KEY=sk-or-...''\<rparr>,
           st\<lparr>ai_log := ai_log st @ [(query, [], ''error-no-api-key'')]\<rparr>)
      | Some key \<Rightarrow> try_models e key query context (model_chain e) no_answer st)"

definition openrouter_query :: "ai_env \<Rightarrow> cstring \<Rightarrow> ai_state \<Rightarrow> ai_response \<times> ai_state" where
  "openrouter_query e query st =
     (if query = []
      then (no_answer\<lparr>error_msg := ''empty query''\<rparr>, st\<lparr>ai_log := ai_log st @ [([], [], ''error-empty-query'')]\<rparr>)
      else query_with_context e query None st)"

definition openrouter_query_ctx :: "ai_env \<Rightarrow> cstring \<Rightarrow> cstring option \<Rightarrow> ai_state \<Rightarrow> ai_response \<times> ai_state" where
  "openrouter_query_ctx e query context st =
     (if query = [] then (no_answer\<lparr>error_msg := ''empty query''\<rparr>, st) else query_with_context e query context st)"

section \<open>The answer is read back\<close>

text \<open>An answer as the API writes it, with the content the prompt asks for; the content is escaped twice.\<close>

definition content_text :: "cstring \<Rightarrow> cstring \<Rightarrow> cstring" where
  "content_text c x =
     jq ''{`command`: `'' @ concat (map esc_char c) @ jq ''`, `explanation`: `'' @ concat (map esc_char x) @ jq ''`}''"

definition answer_text :: "cstring \<Rightarrow> cstring \<Rightarrow> cstring" where
  "answer_text c x =
     jq ''{`id`:`gen`,`choices`:[{`message`:{`role`:`assistant`,`content`:`'' @
       concat (map esc_char (content_text c x)) @ jq ''`}}]}''"

definition escapable :: "cstring \<Rightarrow> bool" where
  "escapable s \<longleftrightarrow> list_all json_keeps s"

lemma escaped_char:
  assumes "json_keeps c"
  obtains (pair) d where "esc_char c = [BSLASH, d]" | (single) "esc_char c = [c]" "c \<noteq> DQ" "c \<noteq> BSLASH"
  using assms
proof (cases rule: esc_char_cases)
  case single
  moreover have "c \<noteq> DQ" using single by (auto simp: esc_char_def)
  ultimately show ?thesis using that by blast
qed (use that in blast)

lemma ai_unesc_esc:
  assumes "json_keeps c"
  shows "ai_extract_go (Suc m) (esc_char c @ d # s) = c # ai_extract_go m (d # s)"
  using assms by (auto simp: json_keeps_def esc_char_def ai_unesc_def shell_defs)

lemma extract_escaped:
  "escapable s \<Longrightarrow> length s < m \<Longrightarrow> ai_extract_go m (concat (map esc_char s) @ DQ # r) = s"
proof (induction s arbitrary: m)
  case Nil
  then show ?case by (cases m; cases r) (simp_all add: shell_defs)
next
  case (Cons c s)
  then obtain k where k: "m = Suc k" "length s < k" by (cases m) auto
  obtain d t where t: "concat (map esc_char s) @ DQ # r = d # t" by (cases "concat (map esc_char s)") auto
  have "ai_extract_go m (concat (map esc_char (c # s)) @ DQ # r) = ai_extract_go (Suc k) (esc_char c @ d # t)"
    by (simp add: k t)
  also have "\<dots> = c # ai_extract_go k (d # t)"
    using Cons.prems(1) by (intro ai_unesc_esc) (simp add: escapable_def)
  also have "\<dots> = c # s" using Cons.IH [of k] Cons.prems(1) k by (simp add: t escapable_def)
  finally show ?case .
qed

text \<open>Inside an escaped text a quoted key does not occur, because there every quote has a backslash before it.\<close>

lemma key_in_body:
  assumes "escapable s" "prefix (key @ DQ # p) (concat (map esc_char s) @ DQ # r)" "DQ \<notin> set key" "BSLASH \<notin> set key"
  shows "prefix p r"
  using assms
proof (induction key arbitrary: s)
  case Nil
  show ?case
  proof (cases s)
    case (Cons c s1)
    then have "json_keeps c" using Nil by (simp add: escapable_def)
    then show ?thesis using Nil Cons by (cases rule: escaped_char) (auto simp: shell_defs)
  qed (use Nil in simp)
next
  case (Cons k key)
  then obtain c s1 where s: "s = c # s1" by (cases s) auto
  then have "json_keeps c" "escapable s1" using Cons.prems by (simp_all add: escapable_def)
  then have "prefix (key @ DQ # p) (concat (map esc_char s1) @ DQ # r)"
    using Cons.prems s by (cases rule: escaped_char) auto
  with Cons.IH [of s1] Cons.prems \<open>escapable s1\<close> show ?case by simp
qed

lemma strstr_body:
  assumes "escapable s" "DQ \<notin> set key" "BSLASH \<notin> set key" "\<not> prefix p r"
  shows "strstr (concat (map esc_char s) @ DQ # r) (DQ # key @ DQ # p) =
    map_option (\<lambda>i. length (concat (map esc_char s)) + i) (strstr (DQ # r) (DQ # key @ DQ # p))"
  using assms(1)
proof (induction s)
  case Nil
  show ?case by (simp add: option.map_ident)
next
  case (Cons c s)
  let ?pat = "DQ # key @ DQ # p" and ?b = "concat (map esc_char s) @ DQ # r"
  have IH: "strstr ?b ?pat = map_option (\<lambda>i. length (concat (map esc_char s)) + i) (strstr (DQ # r) ?pat)"
    using Cons by (simp add: escapable_def)
  have no: "\<not> prefix (key @ DQ # p) ?b"
    using key_in_body [of s key p r] Cons.prems assms by (auto simp: escapable_def)
  consider "esc_char c = [c]" "c \<noteq> DQ" | d where "esc_char c = [BSLASH, d]"
    using Cons.prems escaped_char [of c] by (auto simp: escapable_def)
  then show ?case
  proof cases
    case 1
    then show ?thesis by (simp add: IH option.map_comp o_def)
  next
    case (2 d)
    have "strstr (BSLASH # d # ?b) ?pat = map_option (\<lambda>i. i + 2) (strstr ?b ?pat)"
      using no by (simp add: option.map_comp o_def) (simp add: shell_defs)
    then show ?thesis using 2 by (simp add: IH option.map_comp o_def)
  qed
qed

text \<open>A whole quoted text is passed over.\<close>

lemma strstr_string:
  assumes "escapable s" "DQ \<notin> set key" "BSLASH \<notin> set key" "\<not> prefix p r"
  shows "strstr (DQ # concat (map esc_char s) @ DQ # r) (DQ # key @ DQ # p) =
    map_option (\<lambda>i. Suc (length (concat (map esc_char s))) + i) (strstr (DQ # r) (DQ # key @ DQ # p))"
proof -
  have "\<not> prefix (key @ DQ # p) (concat (map esc_char s) @ DQ # r)"
    using key_in_body [OF assms(1) _ assms(2,3)] assms(4) by blast
  then show ?thesis using strstr_body [OF assms] by (simp add: option.map_comp o_def)
qed

lemma escapable_simps [simp]:
  "escapable []" "escapable (c # s) \<longleftrightarrow> json_keeps c \<and> escapable s" "escapable (s @ t) \<longleftrightarrow> escapable s \<and> escapable t"
  by (auto simp: escapable_def)

lemma json_keeps_printable [simp]: "32 \<le> ord c \<Longrightarrow> json_keeps c"
  by (simp add: json_keeps_def)

lemma escapable_escaped: "escapable s \<Longrightarrow> escapable (concat (map esc_char s))"
proof (induction s)
  case (Cons c s)
  have "escapable (esc_char c)" by (auto simp: esc_char_def shell_defs)
  with Cons show ?case by simp
qed simp

lemma escapable_content: "escapable c \<Longrightarrow> escapable x \<Longrightarrow> escapable (content_text c x)"
  by (simp add: content_text_def jq_def BTICK_def DQ_def escapable_escaped)

lemma escapable_no_nul: "escapable s \<Longrightarrow> NUL \<notin> set s"
  by (auto simp: escapable_def list_all_iff json_keeps_def shell_defs)

lemma extract_spaced:
  assumes "strstr json (DQ # key @ [DQ, CHR '':'', DQ]) = None"
    "strstr json (DQ # key @ [DQ, CHR '':'', CHR '' '', DQ]) = Some k" "length key = l" "l < 100"
  shows "json_extract_str json key n = Some (ai_extract_go (n - 1) (drop (k + (l + 5)) json))"
  using assms by (simp add: json_extract_str_def Let_def fit_def numeral_eq_Suc)

lemma content_fields:
  assumes "escapable c" "escapable x" "length c < 2047" "length x < 2047"
  shows "json_extract_str (content_text c x) ''command'' 2048 = Some c"
    "json_extract_str (content_text c x) ''explanation'' 2048 = Some x"
proof -
  let ?bc = "concat (map esc_char c)" and ?bx = "concat (map esc_char x)"
  define X where "X = DQ # ?bx @ DQ # ''}''"
  define Y where "Y = DQ # ?bc @ DQ # '', '' @ DQ # ''explanation'' @ DQ # '': '' @ X"
  have cont: "content_text c x = CHR ''{'' # DQ # ''command'' @ DQ # '': '' @ Y"
    by (simp add: content_text_def X_def Y_def jq_def BTICK_def)
  have keys: "DQ \<notin> set ''command''" "BSLASH \<notin> set ''command''" "DQ \<notin> set ''explanation''" "BSLASH \<notin> set ''explanation''"
    and dq: "DQ \<noteq> CHR ''}''" "DQ \<noteq> CHR '' ''" "DQ \<noteq> CHR '',''" "DQ \<noteq> CHR '':''" "DQ \<noteq> CHR ''{''"
    by (simp_all add: shell_defs)
  have X: "strstr X (DQ # key @ DQ # CHR '':'' # p) = None"
    if "DQ \<notin> set key" "BSLASH \<notin> set key" for key p
    using strstr_string [OF assms(2) that, of "CHR '':'' # p" "''}''"] that(1) dq by (cases key) (simp_all add: X_def)
  have Yc: "strstr Y (DQ # ''command'' @ DQ # CHR '':'' # p) = None" for p
    using strstr_string [OF assms(1) keys(1,2), of "CHR '':'' # p" "'', '' @ DQ # ''explanation'' @ DQ # '': '' @ X"]
      X [OF keys(1,2), of p] dq by (simp add: Y_def)
  have Yx: "strstr Y (DQ # ''explanation'' @ [DQ, CHR '':'', DQ]) = None"
    "strstr Y (DQ # ''explanation'' @ [DQ, CHR '':'', CHR '' '', DQ]) = Some (length ?bc + 4)"
    using strstr_string [OF assms(1) keys(3,4), of "[CHR '':'', DQ]" "'', '' @ DQ # ''explanation'' @ DQ # '': '' @ X"]
      strstr_string [OF assms(1) keys(3,4), of "[CHR '':'', CHR '' '', DQ]" "'', '' @ DQ # ''explanation'' @ DQ # '': '' @ X"]
      X [OF keys(3,4), of "[DQ]"] dq by (simp_all add: Y_def) (simp_all add: X_def)
  have c: "strstr (content_text c x) (DQ # ''command'' @ [DQ, CHR '':'', DQ]) = None"
    "strstr (content_text c x) (DQ # ''command'' @ [DQ, CHR '':'', CHR '' '', DQ]) = Some 1"
    using Yc [of "[DQ]"] dq by (simp_all add: cont) (simp add: Y_def)
  have e: "strstr (content_text c x) (DQ # ''explanation'' @ [DQ, CHR '':'', DQ]) = None"
    "strstr (content_text c x) (DQ # ''explanation'' @ [DQ, CHR '':'', CHR '' '', DQ]) = Some (length ?bc + 16)"
    using Yx dq by (simp_all add: cont)
  define W where "W = CHR ''{'' # DQ # ''command'' @ DQ # '': '' @ DQ # ?bc @ DQ # '', '' @ DQ # ''explanation'' @ DQ # '': '' @ [DQ]"
  have W: "content_text c x = W @ ?bx @ DQ # ''}''" "length W = length ?bc + 32"
    by (simp_all add: cont Y_def X_def W_def)
  have drops: "drop 13 (content_text c x) = ?bc @ DQ # '', '' @ DQ # ''explanation'' @ DQ # '': '' @ X"
    by (simp add: cont Y_def)
  have dropx: "drop (length ?bc + 32) (content_text c x) = ?bx @ DQ # ''}''"
    unfolding W(1) W(2) [symmetric] by (rule append_eq_conv_conj [THEN iffD1, THEN conjunct2, symmetric, OF refl])
  show "json_extract_str (content_text c x) ''command'' 2048 = Some c"
    using extract_spaced [OF c, of 7 2048] drops extract_escaped [OF assms(1), of 2047] assms(3) by simp
  show "json_extract_str (content_text c x) ''explanation'' 2048 = Some x"
    using extract_spaced [OF e, of 11 2048] dropx extract_escaped [OF assms(2), of 2047] assms(4) by (simp add: add.commute)
qed

lemma extract_plain:
  assumes "strstr json (DQ # key @ [DQ, CHR '':'', DQ]) = Some k" "length key = l" "l < 100"
  shows "json_extract_str json key n = Some (ai_extract_go (n - 1) (drop (k + (l + 4)) json))"
  using assms by (simp add: json_extract_str_def Let_def fit_def numeral_eq_Suc)

lemma answer_content:
  assumes "escapable s" "length s < 4095"
  shows "extract_choice_content (jq ''{`id`:`gen`,`choices`:[{`message`:{`role`:`assistant`,`content`:`'' @
      concat (map esc_char s) @ jq ''`}}]}'') 4096 = Some s"
proof -
  define R where "R = concat (map esc_char s) @ DQ # ''}}]}''"
  define A where "A = DQ # ''choices'' @ DQ # '':[{'' @ DQ # ''message'' @ DQ # '':{'' @ DQ # ''role'' @ DQ # '':'' @
      DQ # ''assistant'' @ DQ # '','' @ DQ # ''content'' @ DQ # '':'' @ DQ # R"
  have dq: "DQ \<noteq> CHR ''{''" "DQ \<noteq> CHR '':''" "DQ \<noteq> CHR '',''" "DQ \<noteq> CHR ''[''"
    by (simp_all add: shell_defs)
  have eq: "jq ''{`id`:`gen`,`choices`:[{`message`:{`role`:`assistant`,`content`:`'' @ concat (map esc_char s) @ jq ''`}}]}'' =
      CHR ''{'' # DQ # ''id'' @ DQ # '':'' @ DQ # ''gen'' @ DQ # '','' @ A"
    by (simp add: jq_def BTICK_def A_def R_def)
  have "strstr (CHR ''{'' # DQ # ''id'' @ DQ # '':'' @ DQ # ''gen'' @ DQ # '','' @ A) (DQ # ''choices'' @ [DQ]) = Some 12"
    using dq by (simp add: A_def)
  moreover have "drop 12 (CHR ''{'' # DQ # ''id'' @ DQ # '':'' @ DQ # ''gen'' @ DQ # '','' @ A) = A" by simp
  moreover have "strstr A (DQ # ''content'' @ [DQ, CHR '':'', DQ]) = Some 42"
    using dq by (simp add: A_def)
  moreover have "drop 53 A = R" by (simp add: A_def)
  ultimately show ?thesis
    using extract_plain [of A "''content''" 42 7 4096] extract_escaped [OF assms(1), of 4095 "''}}]}''"] assms(2)
    unfolding eq extract_choice_content_def by (simp add: R_def)
qed

text \<open>C38: An answer in the format the prompt asks for, with a command and an explanation that fit the
  buffers, escaped twice by the service, is read back as exactly that command and explanation.\<close>

theorem ai_answer_read_back:
  assumes "escapable c" "escapable x" "length c < 2047" "length x < 2047" "length (content_text c x) < 4095"
  shows "read_reply model (Curl_Done 200 (Some (answer_text c x))) resp =
    (True, resp\<lparr>success := True, suggestion := c, explanation := x\<rparr>)"
proof -
  have esc: "escapable (content_text c x)" using assms(1,2) by (rule escapable_content)
  have "escapable (answer_text c x)"
    using escapable_escaped [OF esc] by (simp add: answer_text_def jq_def BTICK_def DQ_def)
  then have "c_str (answer_text c x) = answer_text c x" by (intro c_str_id escapable_no_nul)
  moreover have "extract_choice_content (answer_text c x) 4096 = Some (content_text c x)"
    unfolding answer_text_def using esc assms(5) by (rule answer_content)
  moreover have "content_text c x \<noteq> []" by (simp add: content_text_def jq_def)
  ultimately show ?thesis
    using content_fields [OF assms(1-4)] by (simp add: read_reply_def read_content_def)
qed

theorem ai_answer_read_back_witness:
  "snd (read_reply ''m'' (Curl_Done 200 (Some (answer_text ''ls -l'' ''lists files''))) no_answer) =
     no_answer\<lparr>success := True, suggestion := ''ls -l'', explanation := ''lists files''\<rparr>"
  using ai_answer_read_back [of "''ls -l''" "''lists files''" "''m''" no_answer]
  by (simp add: content_text_def jq_def esc_char_def shell_defs)

section \<open>The request\<close>

lemma ai_escape_bound: "i < n \<Longrightarrow> i + length (ai_escape_go i n s) < n"
proof (induction s arbitrary: i)
  case (Cons c s)
  then show ?case using Cons.IH [of "i + length (esc_char c)"] length_esc_char [of c] by (auto simp: add.assoc)
qed simp

lemma length_ai_escape: "0 < n \<Longrightarrow> length (ai_escape s n) < n"
  using ai_escape_bound [of 0 n s] by (simp add: ai_escape_def)

lemma ai_escape_body: "json_body (ai_escape s n)"
proof -
  have "json_body (ai_escape_go i n s)" for i
    by (induction s arbitrary: i) (auto intro: json_body_append json_body_esc_char)
  then show ?thesis by (simp add: ai_escape_def)
qed

lemma qscan_ai_escape [simp]: "qscan (ai_escape s n) QIn = QIn"
  by (rule qscan_body [OF ai_escape_body])

lemma qscan_answer_format [simp]: "qscan answer_format QIn = QIn"
  by code_simp

lemma length_answer_format: "length answer_format < 200"
  by code_simp

lemma fit_keeps: "qscan s QIn = QIn \<Longrightarrow> length s < 3000 \<Longrightarrow> qscan (fit 4096 s) QIn = QIn \<and> length (fit 4096 s) < 3000"
  by (simp add: fit_id)

lemma plain_prompts: "plain ''You are a shell command expert. Given the above relevant commands and the user query, ''"
  "plain ''suggest the best shell command. Respond ONLY with JSON: ''"
  "plain ''You are a shell command expert. When given a natural language request, ''"
  "plain ''respond with ONLY a JSON object in this exact format: ''"
  by (simp_all add: plain_def) (simp_all add: shell_defs)

lemma system_prompt_quoted: "qscan (system_prompt context) QIn = QIn \<and> length (system_prompt context) < 3000"
proof (cases "context = None \<or> context = Some []")
  case True
  then have eq: "system_prompt context = fit 4096 (''You are a shell command expert. When given a natural language request, '' @
      ''respond with ONLY a JSON object in this exact format: '' @ answer_format)"
    by (auto simp: system_prompt_def)
  show ?thesis
    unfolding eq using length_answer_format
    by (intro fit_keeps) (simp_all only: fold_append comp_apply qscan_plain [OF plain_prompts(3)] qscan_plain [OF plain_prompts(4)]
        qscan_answer_format length_append, simp)
next
  case False
  then obtain c cs where c: "context = Some (c # cs)" by (cases "context"; cases "the context") auto
  define E where "E = ai_escape (c # cs) 2048"
  have E: "qscan E QIn = QIn" "length E < 2048" by (simp_all add: E_def length_ai_escape)
  have n: "qscan [BSLASH, CHR ''n'', BSLASH, CHR ''n''] QIn = QIn" by (simp add: shell_defs)
  have eq: "system_prompt context = fit 4096 (E @ [BSLASH, CHR ''n'', BSLASH, CHR ''n''] @
      ''You are a shell command expert. Given the above relevant commands and the user query, '' @
      ''suggest the best shell command. Respond ONLY with JSON: '' @ answer_format)"
    by (simp add: system_prompt_def c E_def)
  show ?thesis
    unfolding eq using E(2) length_answer_format
    by (intro fit_keeps) (simp_all only: fold_append comp_apply E(1) n qscan_plain [OF plain_prompts(1)] qscan_plain [OF plain_prompts(2)]
        qscan_answer_format length_append, simp)
qed

text \<open>The texts of the caller, the model and the retrieved context never leave their quotes.\<close>

theorem ai_request_quoted: "quoted (request_body model query context)"
proof -
  have "length (ai_escape model 256) < 256" "length (ai_escape query 2048) < 2048"
    by (simp_all add: length_ai_escape)
  with system_prompt_quoted [of "context"]
  have "request_body model query context = jq ''{`model`:`'' @ ai_escape model 256 @ jq ''`,`max_tokens`:1024,`messages`:['' @
       jq ''{`role`:`system`,`content`:`'' @ system_prompt context @ jq ''`},'' @
       jq ''{`role`:`user`,`content`:`'' @ ai_escape query 2048 @ jq ''`}]}''"
    unfolding request_body_def by (intro fit_id) (simp add: jq_length)
  with system_prompt_quoted [of "context"] show ?thesis
    by (simp add: quoted_def) (simp add: jq_def shell_defs)
qed

section \<open>The chain\<close>

text \<open>The answers of the models of a chain, each asked after the ones before it.\<close>

definition answers :: "ai_env \<Rightarrow> cstring \<Rightarrow> cstring \<Rightarrow> cstring option \<Rightarrow> ai_state \<Rightarrow> cstring list \<Rightarrow> cstring \<Rightarrow> curl_result" where
  "answers e api_key query context st before m =
     perform e (requests st @ map (request_for api_key query context) before) (request_for api_key query context m)"

definition usable :: "curl_result \<Rightarrow> bool" where
  "usable r \<longleftrightarrow> (\<exists>b content. r = Curl_Done 200 (Some b) \<and> extract_choice_content (c_str b) 4096 = Some content \<and> content \<noteq> [])"

lemma read_reply_usable: "fst (read_reply m r resp) = usable r"
  by (auto simp: read_reply_def usable_def split: curl_result.split option.split)

lemma read_reply_failed: "\<not> usable r \<Longrightarrow> (\<exists>msg. snd (read_reply m r resp) = resp\<lparr>error_msg := msg\<rparr>)"
  by (auto simp: read_reply_def usable_def split: curl_result.split option.split if_splits)

lemma read_reply_success: "usable r \<Longrightarrow> success (snd (read_reply m r resp))"
  by (auto simp: read_reply_def usable_def read_content_def split: option.split)

lemma try_model_result:
  assumes "perform e (requests st) (request_for key query ctx m) \<noteq> Curl_No_Handle"
  shows "try_model e key m query ctx resp st =
    (usable (answers e key query ctx st [] m), snd (read_reply m (answers e key query ctx st [] m) resp),
     st\<lparr>requests := requests st @ [request_for key query ctx m]\<rparr>)"
  using assms read_reply_usable [of m "perform e (requests st) (request_for key query ctx m)" resp]
  by (cases "read_reply m (perform e (requests st) (request_for key query ctx m)) resp")
    (simp add: try_model_def Let_def answers_def)

lemma answers_after:
  "answers e key query ctx (st\<lparr>requests := requests st @ [request_for key query ctx m]\<rparr>) before k =
     answers e key query ctx st (m # before) k"
  by (simp add: answers_def)

text \<open>The models asked: all before the last are unusable, and so is the last unless the run succeeds.\<close>

definition asked_ok :: "ai_env \<Rightarrow> cstring \<Rightarrow> cstring \<Rightarrow> cstring option \<Rightarrow> ai_state \<Rightarrow> cstring list \<Rightarrow> bool \<Rightarrow> bool" where
  "asked_ok e key query ctx st pre ok \<longleftrightarrow>
     (\<forall>i<length pre. usable (answers e key query ctx st (take i pre) (pre ! i)) \<longleftrightarrow> ok \<and> Suc i = length pre)"

lemma asked_ok_Cons:
  "asked_ok e key query ctx st (m # pre) ok \<longleftrightarrow>
     (usable (answers e key query ctx st [] m) \<longleftrightarrow> ok \<and> pre = []) \<and>
     asked_ok e key query ctx (st\<lparr>requests := requests st @ [request_for key query ctx m]\<rparr>) pre ok"
  by (auto simp: asked_ok_def answers_after All_less_Suc2)

lemma try_models_order:
  assumes "\<And>rs r. perform e rs r \<noteq> Curl_No_Handle" "\<not> success resp"
    "try_models e key query ctx ms resp st = (resp1, st1)"
  shows "\<exists>pre post. ms = pre @ post \<and> requests st1 = requests st @ map (request_for key query ctx) pre \<and>
    asked_ok e key query ctx st pre (success resp1) \<and> (if success resp1 then pre \<noteq> [] else post = [])"
  using assms(2,3)
proof (induction ms arbitrary: resp st)
  case Nil
  then show ?case by (auto simp: asked_ok_def)
next
  case (Cons m ms)
  let ?st = "st\<lparr>requests := requests st @ [request_for key query ctx m]\<rparr>"
  let ?a = "answers e key query ctx st [] m"
  note attempt = try_model_result [OF assms(1), of key m query ctx resp st]
  show ?case
  proof (cases "usable ?a")
    case True
    then have "resp1 = snd (read_reply m ?a resp)" "requests st1 = requests ?st"
      using Cons.prems(2) by (auto simp: attempt)
    with True read_reply_success [OF True, of m resp] show ?thesis
      by (intro exI [of _ "[m]"] exI [of _ ms]) (simp add: asked_ok_def)
  next
    case False
    obtain msg where "snd (read_reply m ?a resp) = resp\<lparr>error_msg := msg\<rparr>"
      using read_reply_failed [OF False, of m resp] by blast
    with False Cons.prems have "try_models e key query ctx ms (resp\<lparr>error_msg := msg\<rparr>) ?st = (resp1, st1)"
      by (simp add: attempt)
    from Cons.IH [OF _ this] Cons.prems(1) obtain pre post
      where "ms = pre @ post" "requests st1 = requests ?st @ map (request_for key query ctx) pre"
        "asked_ok e key query ctx ?st pre (success resp1)" "if success resp1 then pre \<noteq> [] else post = []" by auto
    with False show ?thesis
      by (intro exI [of _ "m # pre"] exI [of _ post]) (auto simp: asked_ok_Cons)
  qed
qed

theorem ai_asks_in_order:
  assumes "query \<noteq> []" "api_key_of e = Some key" "\<And>rs r. perform e rs r \<noteq> Curl_No_Handle"
    "openrouter_query_ctx e query ctx st = (resp, st1)"
  shows "\<exists>pre post. model_chain e = pre @ post \<and> requests st1 = requests st @ map (request_for key query ctx) pre \<and>
    asked_ok e key query ctx st pre (success resp) \<and> (if success resp then pre \<noteq> [] else post = [])"
  using assms(1,2,4)
  by (intro try_models_order [OF assms(3), of no_answer])
    (simp_all add: openrouter_query_ctx_def query_with_context_def no_answer_def)

text \<open>A service that only the fourth model answers.\<close>

definition demo_service :: ai_env where
  "demo_service = \<lparr>env_var = (\<lambda>n. if n = ''OPENROUTER_API_KEY'' then Some ''k'' else None),
     perform = (\<lambda>rs r. if length rs < 3 then Curl_Done 429 None else Curl_Done 200 (Some (answer_text ''ls'' ''lists'')))\<rparr>"

theorem ai_asks_in_order_witness:
  "\<exists>pre post. model_chain demo_service = pre @ post \<and>
     requests (snd (openrouter_query_ctx demo_service ''list files'' None \<lparr>requests = [], ai_log = []\<rparr>)) =
       map (request_for ''k'' ''list files'' None) pre"
proof -
  obtain resp st1 where r: "openrouter_query_ctx demo_service ''list files'' None \<lparr>requests = [], ai_log = []\<rparr> = (resp, st1)"
    by fastforce
  have "api_key_of demo_service = Some ''k''" "\<And>rs r. perform demo_service rs r \<noteq> Curl_No_Handle"
    by (simp_all add: demo_service_def api_key_of_def set_var_of_def)
  from ai_asks_in_order [OF _ this r] show ?thesis unfolding r by auto
qed

text \<open>Without a key nothing is sent.\<close>

theorem ai_needs_key:
  assumes "api_key_of e = None"
  shows "requests (snd (openrouter_query_ctx e query ctx st)) = requests st
    \<and> \<not> success (fst (openrouter_query_ctx e query ctx st)) \<and> error_msg (fst (openrouter_query_ctx e query ctx st)) \<noteq> []"
  using assms by (simp add: openrouter_query_ctx_def query_with_context_def no_answer_def)

text \<open>A unicode escape in an answer loses its backslash and stays as letters.\<close>

lemma unicode_escape_garbled:
  "json_extract_str (jq ''{`command`:`echo '' @ [BSLASH] @ jq ''u0026`}'') ''command'' 2048 = Some ''echo u0026''"
  by (simp add: json_extract_str_def fit_def ai_unesc_def jq_def shell_defs numeral_eq_Suc)

end
