(* ===== verification/Search.thy ===== *)
theory Search
  imports Prelude
begin

text \<open>
  Searching files: \<open>grep\<close> (\<^verbatim>\<open>cmd_grep.c\<close>) and \<open>rg\<close> (\<^verbatim>\<open>cmd_rg.c\<close>) after their options are parsed.
  The regular expressions of the C library (\<open>regcomp\<close>, \<open>regexec\<close>) and the file system are parameters.
  The walk through directories takes fuel, one unit per level; messages on \<open>stderr\<close> are left out, and
  so is the truncation of a path at \<open>PATH_MAX\<close>.

  The lemmas show which lines are printed, that a walk visits the files below a path once each and
  ends, that the exit status says whether anything matched, that \<open>rg\<close> agrees with \<open>grep -n\<close>, and
  that the JSON text of \<open>rg\<close> is read back.
\<close>

type_synonym matcher = "cstring \<Rightarrow> (nat \<times> nat) option"

record search_env =
  stat_is_dir :: "cstring \<Rightarrow> bool option"
  dir_names :: "cstring \<Rightarrow> cstring list option"
  file_bytes :: "cstring \<Rightarrow> char list option"

text \<open>What \<open>getline\<close> and the removal of the newline hand to the matcher.\<close>

definition text_lines :: "char list \<Rightarrow> cstring list" where
  "text_lines s = map (\<lambda>l. c_str (chomp l)) (getlines s)"

definition child_of :: "cstring \<Rightarrow> cstring \<Rightarrow> cstring" where
  "child_of path name = path @ ''/'' @ name"

definition hidden_name :: "cstring \<Rightarrow> bool" where
  "hidden_name name \<longleftrightarrow> name \<noteq> [] \<and> hd name = CHR ''.''"

section \<open>grep\<close>

record grep_opts =
  invert :: bool
  line_num :: bool
  count_only :: bool
  files_only :: bool
  recursive :: bool
  show_path :: bool

fun grep_lines :: "grep_opts \<Rightarrow> matcher \<Rightarrow> cstring \<Rightarrow> nat \<Rightarrow> cstring list \<Rightarrow> nat \<times> cstring" where
  "grep_lines opts rx path lineno [] = (0, [])"
| "grep_lines opts rx path lineno (l # ls) =
     (case grep_lines opts rx path (lineno + 1) ls of
        (k, out) \<Rightarrow>
          if (rx l \<noteq> None) = invert opts then (k, out)
          else (k + 1,
            (if count_only opts \<or> files_only opts then []
             else (if show_path opts then path @ '':'' else []) @
                  (if line_num opts then show_nat lineno @ '':'' else []) @ l @ [NL]) @ out))"

definition search_stream_grep :: "grep_opts \<Rightarrow> matcher \<Rightarrow> cstring \<Rightarrow> char list \<Rightarrow> nat \<times> cstring" where
  "search_stream_grep opts rx path s = grep_lines opts rx path 1 (text_lines s)"

definition grep_file :: "grep_opts \<Rightarrow> matcher \<Rightarrow> cstring \<Rightarrow> char list option \<Rightarrow> int \<times> cstring" where
  "grep_file opts rx path contents =
     (case contents of
        None \<Rightarrow> (-1, [])
      | Some s \<Rightarrow> (case search_stream_grep opts rx path s of
            (n, out) \<Rightarrow> (int n, out @
              (if count_only opts then (if show_path opts then path @ '':'' else []) @ show_nat n @ [NL]
               else if files_only opts \<and> 0 < n then path @ [NL] else []))))"

fun grep_path :: "search_env \<Rightarrow> grep_opts \<Rightarrow> matcher \<Rightarrow> nat \<Rightarrow> cstring \<Rightarrow> (int \<times> cstring) option"
  and grep_names :: "search_env \<Rightarrow> grep_opts \<Rightarrow> matcher \<Rightarrow> nat \<Rightarrow> cstring \<Rightarrow> cstring list \<Rightarrow> (int \<times> cstring) option" where
  "grep_path e opts rx 0 path = None"
| "grep_path e opts rx (Suc n) path =
     (case stat_is_dir e path of
        None \<Rightarrow> Some (-1, [])
      | Some True \<Rightarrow>
          if \<not> recursive opts then Some (0, [])
          else (case dir_names e path of
              None \<Rightarrow> Some (0, [])
            | Some names \<Rightarrow> grep_names e opts rx n path names)
      | Some False \<Rightarrow> Some (grep_file opts rx path (file_bytes e path)))"
| "grep_names e opts rx n path [] = Some (0, [])"
| "grep_names e opts rx n path (m # ms) =
     (if hidden_name m then grep_names e opts rx n path ms
      else (case grep_path e opts rx n (child_of path m) of
          None \<Rightarrow> None
        | Some (k, out) \<Rightarrow> (case grep_names e opts rx n path ms of
              None \<Rightarrow> None
            | Some (t, rest) \<Rightarrow> Some ((if 0 < k then k else 0) + t, out @ rest))))"

fun grep_args :: "search_env \<Rightarrow> grep_opts \<Rightarrow> matcher \<Rightarrow> nat \<Rightarrow> cstring list \<Rightarrow> (bool \<times> cstring) option" where
  "grep_args e opts rx n [] = Some (False, [])"
| "grep_args e opts rx n (p # ps) =
     (case grep_path e opts rx n p of
        None \<Rightarrow> None
      | Some (k, out) \<Rightarrow> (case grep_args e opts rx n ps of
            None \<Rightarrow> None
          | Some (any, rest) \<Rightarrow> Some (0 < k \<or> any, out @ rest)))"

text \<open>\<open>grep_run\<close>: the flags, the pattern and whether case is ignored, the files, standard input.\<close>

definition grep_run ::
  "(cstring \<Rightarrow> bool \<Rightarrow> matcher option) \<Rightarrow> search_env \<Rightarrow> nat \<Rightarrow> grep_opts \<Rightarrow> cstring \<Rightarrow> bool \<Rightarrow> cstring list \<Rightarrow> char list
    \<Rightarrow> (int \<times> cstring) option" where
  "grep_run regcomp e n opts0 pattern icase files inp =
     (let opts = opts0\<lparr>show_path := (1 < length files \<or> recursive opts0)\<rparr> in
      case regcomp pattern icase of
        None \<Rightarrow> Some (2, [])
      | Some rx \<Rightarrow>
          if files = []
          then if recursive opts
               then map_option (\<lambda>(k, out). (if 0 < k then 0 else 1, out)) (grep_path e (opts\<lparr>show_path := True\<rparr>) rx n ''.'')
               else (case search_stream_grep opts rx [] inp of
                   (k, out) \<Rightarrow> Some (if 0 < k then 0 else 1, out @ (if count_only opts then show_nat k @ [NL] else [])))
          else map_option (\<lambda>(any, out). (if any then 0 else 1, out)) (grep_args e opts rx n files))"

section \<open>rg\<close>

record rg_opts =
  fixed_strings :: bool
  ignore_case :: bool
  json_out :: bool
  rg_files_only :: bool
  rg_recursive :: bool
  rg_show_path :: bool

definition hex_char :: "nat \<Rightarrow> char" where
  "hex_char d = (if d < 10 then char_of (48 + d) else char_of (87 + d))"

definition json_put_char :: "char \<Rightarrow> cstring" where
  "json_put_char c =
     (if c = DQ then [BSLASH, DQ] else if c = BSLASH then [BSLASH, BSLASH]
      else if c = NL then [BSLASH, CHR ''n''] else if c = CR then [BSLASH, CHR ''r'']
      else if c = TAB then [BSLASH, CHR ''t'']
      else if ord c < 32 then BSLASH # ''u00'' @ [hex_char (ord c div 16), hex_char (ord c mod 16)]
      else [c])"

definition json_put :: "cstring \<Rightarrow> cstring" where
  "json_put s = concat (map json_put_char s)"

text \<open>\<open>emit_match\<close>, with its texts of quotes written as back ticks.\<close>

definition ticks :: "cstring \<Rightarrow> cstring" where
  "ticks s = map (\<lambda>c. if c = BTICK then DQ else c) s"

definition emit_match :: "rg_opts \<Rightarrow> cstring \<Rightarrow> nat \<Rightarrow> cstring \<Rightarrow> nat \<Rightarrow> nat \<Rightarrow> cstring" where
  "emit_match opts path lineno line ms me =
     (if json_out opts
      then ticks ''{`type`:`match`,`data`:{`path`:`'' @ json_put path @ ticks ''`,`line_number`:'' @ show_nat lineno @
           ticks '',`line_text`:`'' @ json_put line @ ticks ''`,`submatches`:[{`text`:`'' @
           json_put (take (me - ms) (drop ms line)) @ ticks ''`,`start`:'' @ show_nat ms @ ticks '',`end`:'' @ show_nat me @ ''}]}}'' @ [NL]
      else (if rg_show_path opts then path @ '':'' else []) @ show_nat lineno @ '':'' @ line @ [NL])"

definition match_line :: "rg_opts \<Rightarrow> cstring \<Rightarrow> matcher \<Rightarrow> matcher" where
  "match_line opts pattern rx line =
     (if fixed_strings opts
      then map_option (\<lambda>i. (i, i + length pattern))
             (if ignore_case opts then strstr (map tolower line) (map tolower pattern) else strstr line pattern)
      else rx line)"

text \<open>The loop of \<open>search_stream\<close>: whether a line matched, and what is printed.\<close>

fun rg_lines :: "rg_opts \<Rightarrow> matcher \<Rightarrow> cstring \<Rightarrow> nat \<Rightarrow> cstring list \<Rightarrow> bool \<times> cstring" where
  "rg_lines opts mt path lineno [] = (False, [])"
| "rg_lines opts mt path lineno (l # ls) =
     (case mt l of
        None \<Rightarrow> rg_lines opts mt path (lineno + 1) ls
      | Some (ms, me) \<Rightarrow>
          if rg_files_only opts
          then (True, if json_out opts then ticks ''{`type`:`match`,`data`:{`path`:`'' @ json_put path @ ticks ''`}}'' @ [NL]
                else path @ [NL])
          else (True, emit_match opts path lineno l ms me @ snd (rg_lines opts mt path (lineno + 1) ls)))"

definition search_stream :: "rg_opts \<Rightarrow> matcher \<Rightarrow> cstring \<Rightarrow> char list \<Rightarrow> bool \<times> cstring" where
  "search_stream opts mt path s = rg_lines opts mt path 1 (text_lines s)"

text \<open>\<open>search_file\<close> and \<open>search_dir\<close>; an error counts as no match.\<close>

fun search_file :: "search_env \<Rightarrow> rg_opts \<Rightarrow> matcher \<Rightarrow> nat \<Rightarrow> cstring \<Rightarrow> (bool \<times> cstring) option"
  and search_names :: "search_env \<Rightarrow> rg_opts \<Rightarrow> matcher \<Rightarrow> nat \<Rightarrow> cstring \<Rightarrow> cstring list \<Rightarrow> (bool \<times> cstring) option" where
  "search_file e opts mt 0 path = None"
| "search_file e opts mt (Suc n) path =
     (case stat_is_dir e path of
        None \<Rightarrow> Some (False, [])
      | Some True \<Rightarrow>
          if \<not> rg_recursive opts then Some (False, [])
          else (case dir_names e path of
              None \<Rightarrow> Some (False, [])
            | Some names \<Rightarrow> search_names e opts mt n path names)
      | Some False \<Rightarrow>
          (case file_bytes e path of None \<Rightarrow> Some (False, []) | Some s \<Rightarrow> Some (search_stream opts mt path s)))"
| "search_names e opts mt n path [] = Some (False, [])"
| "search_names e opts mt n path (m # ms) =
     (if hidden_name m then search_names e opts mt n path ms
      else (case search_file e opts mt n (child_of path m) of
          None \<Rightarrow> None
        | Some (k, out) \<Rightarrow> (case search_names e opts mt n path ms of
              None \<Rightarrow> None
            | Some (t, rest) \<Rightarrow> Some (k \<or> t, out @ rest))))"

fun search_args :: "search_env \<Rightarrow> rg_opts \<Rightarrow> matcher \<Rightarrow> nat \<Rightarrow> cstring list \<Rightarrow> (bool \<times> cstring) option" where
  "search_args e opts mt n [] = Some (False, [])"
| "search_args e opts mt n (p # ps) =
     (case search_file e opts mt n p of
        None \<Rightarrow> None
      | Some (k, out) \<Rightarrow> (case search_args e opts mt n ps of
            None \<Rightarrow> None
          | Some (t, rest) \<Rightarrow> Some (k \<or> t, out @ rest)))"

definition rg_run ::
  "(cstring \<Rightarrow> bool \<Rightarrow> matcher option) \<Rightarrow> search_env \<Rightarrow> nat \<Rightarrow> rg_opts \<Rightarrow> cstring \<Rightarrow> cstring list \<Rightarrow> char list
    \<Rightarrow> (int \<times> cstring) option" where
  "rg_run regcomp e n opts0 pattern paths inp =
     (let opts = opts0\<lparr>rg_show_path := (paths \<noteq> [])\<rparr>;
          rx = (if fixed_strings opts then Some (\<lambda>_. None) else regcomp pattern (ignore_case opts)) in
      case rx of
        None \<Rightarrow> Some (2, [])
      | Some r \<Rightarrow>
          map_option (\<lambda>(any, out). (if any then 0 else 1, out))
            (if paths = []
             then if rg_recursive opts
                  then search_file e (opts\<lparr>rg_show_path := True\<rparr>) (match_line opts pattern r) n ''.''
                  else Some (search_stream opts (match_line opts pattern r) ''(stdin)'' inp)
             else search_args e opts (match_line opts pattern r) n paths))"

section \<open>What is printed\<close>

definition selected :: "grep_opts \<Rightarrow> matcher \<Rightarrow> cstring \<Rightarrow> bool" where
  "selected opts rx l \<longleftrightarrow> (rx l \<noteq> None) \<noteq> invert opts"

lemma selected_show [simp]: "selected (opts\<lparr>show_path := b\<rparr>) rx = selected opts rx"
  by (simp add: selected_def fun_eq_iff)

definition shown_line :: "grep_opts \<Rightarrow> cstring \<Rightarrow> nat \<times> cstring \<Rightarrow> cstring" where
  "shown_line opts path nl =
     (if show_path opts then path @ '':'' else []) @ (if line_num opts then show_nat (fst nl) @ '':'' else []) @ snd nl @ [NL]"

lemma grep_lines_spec:
  "grep_lines opts rx path k ls =
     (length (filter (selected opts rx) ls),
      if count_only opts \<or> files_only opts then []
      else concat (map (shown_line opts path) (filter (\<lambda>nl. selected opts rx (snd nl)) (enumerate k ls))))"
  by (induction ls arbitrary: k) (auto simp: selected_def shown_line_def)

lemma enumerate_filter_length: "length (filter (\<lambda>nl. P (snd nl)) (enumerate k ls)) = length (filter P ls)"
  by (induction ls arbitrary: k) auto

lemma grep_lines_plain:
  "\<not> count_only opts \<Longrightarrow> \<not> files_only opts \<Longrightarrow>
     search_stream_grep opts rx path s =
       (length (filter (selected opts rx) (text_lines s)),
        concat (map (shown_line opts path) (filter (\<lambda>nl. selected opts rx (snd nl)) (enumerate 1 (text_lines s)))))"
  by (simp add: search_stream_grep_def grep_lines_spec)

section \<open>The walk\<close>

text \<open>The files a recursive search opens below a path, in order; fuel is used by directories only.\<close>

fun files_below :: "search_env \<Rightarrow> nat \<Rightarrow> cstring \<Rightarrow> cstring list option"
  and files_among :: "search_env \<Rightarrow> nat \<Rightarrow> cstring \<Rightarrow> cstring list \<Rightarrow> cstring list option" where
  "files_below e 0 path = None"
| "files_below e (Suc n) path =
     (case stat_is_dir e path of
        None \<Rightarrow> Some []
      | Some True \<Rightarrow> (case dir_names e path of None \<Rightarrow> Some [] | Some names \<Rightarrow> files_among e n path names)
      | Some False \<Rightarrow> Some [path])"
| "files_among e n path [] = Some []"
| "files_among e n path (m # ms) =
     (if hidden_name m then files_among e n path ms
      else (case files_below e n (child_of path m) of
          None \<Rightarrow> None
        | Some fs \<Rightarrow> map_option (\<lambda>gs. fs @ gs) (files_among e n path ms)))"

definition grep_hits :: "search_env \<Rightarrow> grep_opts \<Rightarrow> matcher \<Rightarrow> cstring \<Rightarrow> bool" where
  "grep_hits e opts rx f \<longleftrightarrow>
     (case file_bytes e f of None \<Rightarrow> False | Some s \<Rightarrow> list_ex (selected opts rx) (text_lines s))"

definition grep_prints :: "search_env \<Rightarrow> grep_opts \<Rightarrow> matcher \<Rightarrow> cstring \<Rightarrow> cstring" where
  "grep_prints e opts rx f = snd (grep_file opts rx f (file_bytes e f))"

lemma grep_file_hits: "0 < fst (grep_file opts rx f (file_bytes e f)) \<longleftrightarrow> grep_hits e opts rx f"
  by (auto simp: grep_file_def grep_hits_def search_stream_grep_def grep_lines_spec list_ex_iff filter_empty_conv
      split: option.split)

lemma grep_walk:
  "recursive opts \<Longrightarrow> map_option (\<lambda>(k, out). (0 < k, out)) (grep_path e opts rx n path) =
     map_option (\<lambda>fs. (list_ex (grep_hits e opts rx) fs, concat (map (grep_prints e opts rx) fs))) (files_below e n path)"
  "recursive opts \<Longrightarrow> map_option (\<lambda>(k, out). (0 < k, out)) (grep_names e opts rx n path names) =
       map_option (\<lambda>fs. (list_ex (grep_hits e opts rx) fs, concat (map (grep_prints e opts rx) fs))) (files_among e n path names)
     \<and> (\<forall>r. grep_names e opts rx n path names = Some r \<longrightarrow> 0 \<le> fst r)"
proof (induction e opts rx n path and e opts rx n path names rule: grep_path_grep_names.induct)
  case (2 e opts rx n path)
  show ?case
  proof (cases "stat_is_dir e path")
    case (Some b)
    with 2 show ?thesis
      using grep_file_hits [of opts rx path e]
      by (cases b) (auto simp: grep_prints_def case_prod_beta split: option.split)
  qed simp
next
  case (4 e opts rx n path m ms)
  show ?case
  proof (cases "hidden_name m")
    case True
    with 4 show ?thesis by simp
  next
    case False
    with 4 have IH: "map_option (\<lambda>(k, out). (0 < k, out)) (grep_path e opts rx n (child_of path m)) =
        map_option (\<lambda>fs. (list_ex (grep_hits e opts rx) fs, concat (map (grep_prints e opts rx) fs)))
          (files_below e n (child_of path m))" by simp
    show ?thesis
    proof (cases "grep_path e opts rx n (child_of path m)")
      case None
      with IH False show ?thesis by simp
    next
      case (Some r)
      then obtain k out where r: "grep_path e opts rx n (child_of path m) = Some (k, out)" by (cases r) auto
      then obtain fs where fs: "files_below e n (child_of path m) = Some fs"
        "(0 < k) = list_ex (grep_hits e opts rx) fs" "out = concat (map (grep_prints e opts rx) fs)"
        using IH by (cases "files_below e n (child_of path m)") auto
      have IH2: "map_option (\<lambda>(k, out). (0 < k, out)) (grep_names e opts rx n path ms) =
          map_option (\<lambda>fs. (list_ex (grep_hits e opts rx) fs, concat (map (grep_prints e opts rx) fs))) (files_among e n path ms)"
        "\<forall>r. grep_names e opts rx n path ms = Some r \<longrightarrow> 0 \<le> fst r"
        using "4.IH"(3) [OF False r refl "4.prems"] by simp_all
      then show ?thesis
        using False r fs
        by (cases "grep_names e opts rx n path ms"; cases "files_among e n path ms") (auto simp: add_pos_nonneg)
    qed
  qed
qed simp_all

definition rg_hits :: "search_env \<Rightarrow> matcher \<Rightarrow> cstring \<Rightarrow> bool" where
  "rg_hits e mt f \<longleftrightarrow> (case file_bytes e f of None \<Rightarrow> False | Some s \<Rightarrow> list_ex (\<lambda>l. mt l \<noteq> None) (text_lines s))"

definition rg_prints :: "search_env \<Rightarrow> rg_opts \<Rightarrow> matcher \<Rightarrow> cstring \<Rightarrow> cstring" where
  "rg_prints e opts mt f = (case file_bytes e f of None \<Rightarrow> [] | Some s \<Rightarrow> snd (search_stream opts mt f s))"

lemma rg_lines_hits: "fst (rg_lines opts mt path k ls) \<longleftrightarrow> list_ex (\<lambda>l. mt l \<noteq> None) ls"
  by (induction ls arbitrary: k) (auto split: option.split)

lemma rg_walk:
  "rg_recursive opts \<Longrightarrow> search_file e opts mt n path =
     map_option (\<lambda>fs. (list_ex (rg_hits e mt) fs, concat (map (rg_prints e opts mt) fs))) (files_below e n path)"
  "rg_recursive opts \<Longrightarrow> search_names e opts mt n path names =
     map_option (\<lambda>fs. (list_ex (rg_hits e mt) fs, concat (map (rg_prints e opts mt) fs))) (files_among e n path names)"
proof (induction e opts mt n path and e opts mt n path names rule: search_file_search_names.induct)
  case (2 e opts mt n path)
  show ?case
  proof (cases "stat_is_dir e path")
    case (Some b)
    with 2 show ?thesis
      using rg_lines_hits [of opts mt path 1]
      by (cases b) (auto simp: rg_hits_def rg_prints_def search_stream_def prod_eq_iff split: option.split)
  qed simp
next
  case (4 e opts mt n path m ms)
  show ?case
  proof (cases "hidden_name m")
    case False
    with 4 show ?thesis
      by (cases "files_below e n (child_of path m)"; cases "files_among e n path ms") auto
  qed (use 4 in simp)
qed simp_all

text \<open>The same walk for several starting points.\<close>

fun files_of_args :: "search_env \<Rightarrow> nat \<Rightarrow> cstring list \<Rightarrow> cstring list option" where
  "files_of_args e n [] = Some []"
| "files_of_args e n (p # ps) =
     (case files_below e n p of None \<Rightarrow> None | Some fs \<Rightarrow> map_option (\<lambda>gs. fs @ gs) (files_of_args e n ps))"

lemma grep_args_walk:
  assumes "recursive opts"
  shows "grep_args e opts rx n ps =
    map_option (\<lambda>fs. (list_ex (grep_hits e opts rx) fs, concat (map (grep_prints e opts rx) fs))) (files_of_args e n ps)"
proof (induction ps)
  case (Cons p ps)
  with grep_walk(1) [OF assms, of e rx n p] show ?case
    by (cases "grep_path e opts rx n p"; cases "files_below e n p"; cases "files_of_args e n ps") auto
qed simp

lemma search_args_walk:
  assumes "rg_recursive opts"
  shows "search_args e opts mt n ps =
    map_option (\<lambda>fs. (list_ex (rg_hits e mt) fs, concat (map (rg_prints e opts mt) fs))) (files_of_args e n ps)"
proof (induction ps)
  case (Cons p ps)
  with rg_walk(1) [OF assms, of e mt n p] show ?case
    by (cases "files_below e n p"; cases "files_of_args e n ps") auto
qed simp

section \<open>Correctness of the commands\<close>

text \<open>\<open>grep -r\<close>: the status and the output in terms of the files below the arguments.\<close>

theorem grep_recursive_result:
  assumes "recursive opts" "files \<noteq> []" "regcomp pattern icase = Some rx" "files_of_args e n files = Some fs"
  shows "grep_run regcomp e n opts pattern icase files inp =
    Some (if list_ex (grep_hits e opts rx) fs then 0 else 1, concat (map (grep_prints e (opts\<lparr>show_path := True\<rparr>) rx) fs))"
proof -
  have "grep_hits e (opts\<lparr>show_path := True\<rparr>) rx = grep_hits e opts rx"
    by (simp add: grep_hits_def fun_eq_iff split: option.split)
  then show ?thesis
    using assms grep_args_walk [of "opts\<lparr>show_path := True\<rparr>" e rx n files] by (simp add: grep_run_def Let_def)
qed

text \<open>Without \<open>--json\<close> and \<open>-F\<close>, \<open>rg -r\<close> is \<open>grep -r -n\<close>.\<close>

lemma rg_lines_grep:
  assumes "\<not> invert g" "line_num g" "\<not> count_only g" "\<not> files_only g" "\<not> json_out r" "\<not> rg_files_only r"
    "show_path g = rg_show_path r"
  shows "snd (rg_lines r rx path k ls) = snd (grep_lines g rx path k ls)"
  using assms by (induction ls arbitrary: k) (auto simp: emit_match_def split: option.split prod.split)


text \<open>A directory tree of finite depth is searched to the end.\<close>

lemma files_below_some:
  assumes "\<And>path names m. stat_is_dir e path = Some True \<Longrightarrow> dir_names e path = Some names \<Longrightarrow> m \<in> set names \<Longrightarrow>
      \<not> hidden_name m \<Longrightarrow> depth (child_of path m) < (depth path :: nat)"
  shows "depth path < n \<Longrightarrow> \<exists>fs. files_below e n path = Some fs"
proof (induction n arbitrary: path)
  case (Suc n)
  have among: "\<exists>fs. files_among e n path ms = Some fs"
    if "\<forall>m\<in>set ms. \<not> hidden_name m \<longrightarrow> depth (child_of path m) < n" for ms
    using that
  proof (induction ms)
    case (Cons m ms)
    then obtain gs where "files_among e n path ms = Some gs" by auto
    moreover have "\<not> hidden_name m \<Longrightarrow> \<exists>fs. files_below e n (child_of path m) = Some fs"
      using Cons.prems Suc.IH by simp
    ultimately show ?case by auto
  qed simp
  show ?case
  proof (cases "stat_is_dir e path = Some True \<and> dir_names e path \<noteq> None")
    case True
    then obtain names where d: "stat_is_dir e path = Some True" "dir_names e path = Some names" by auto
    have "\<exists>fs. files_among e n path names = Some fs"
      using assms [OF d] Suc.prems by (intro among) fastforce
    then show ?thesis using d by simp
  qed (auto split: option.split bool.split)
qed simp

theorem search_ends:
  assumes "\<And>path names m. stat_is_dir e path = Some True \<Longrightarrow> dir_names e path = Some names \<Longrightarrow> m \<in> set names \<Longrightarrow>
      \<not> hidden_name m \<Longrightarrow> depth (child_of path m) < (depth path :: nat)"
    "\<And>p. p \<in> set files \<Longrightarrow> depth p < n" "files \<noteq> []" "recursive opts" "regcomp pattern icase = Some rx"
  shows "\<exists>status out. grep_run regcomp e n opts pattern icase files inp = Some (status, out) \<and> (status = 0 \<or> status = 1)"
proof -
  have "\<exists>fs. files_of_args e n files = Some fs"
    using assms(2)
  proof (induction files)
    case (Cons p ps)
    then obtain gs where "files_of_args e n ps = Some gs" by auto
    moreover have "\<exists>fs. files_below e n p = Some fs"
      by (rule files_below_some [where depth = depth]) (use assms(1) Cons.prems [of p] in auto)
    ultimately show ?case by auto
  qed simp
  then obtain fs where "files_of_args e n files = Some fs" by blast
  with grep_recursive_result [where opts = opts and files = files and regcomp = regcomp and pattern = pattern] assms(3-5)
  show ?thesis by simp
qed

section \<open>The JSON text of rg\<close>

text \<open>A reader of JSON strings: the text up to the closing quote and what follows it.\<close>

definition hex_value :: "char \<Rightarrow> nat" where
  "hex_value c = (if isdigit c then ord c - 48 else ord c - 87)"

definition json_unesc :: "char \<Rightarrow> char" where
  "json_unesc d = (if d = CHR ''n'' then NL else if d = CHR ''r'' then CR else if d = CHR ''t'' then TAB else d)"

fun json_read :: "cstring \<Rightarrow> (cstring \<times> cstring) option" where
  "json_read [] = None"
| "json_read (c # s) =
     (if c = DQ then Some ([], s)
      else if c \<noteq> BSLASH then map_option (\<lambda>(t, r). (c # t, r)) (json_read s)
      else (case s of
          d # u1 # u2 # u3 # u4 # r \<Rightarrow>
            if d = CHR ''u''
            then map_option (\<lambda>(t, r1). (char_of (hex_value u3 * 16 + hex_value u4) # t, r1)) (json_read r)
            else map_option (\<lambda>(t, r1).
              (json_unesc d # t, r1)) (json_read (u1 # u2 # u3 # u4 # r))
        | d # r \<Rightarrow> map_option (\<lambda>(t, r1).
              (json_unesc d # t, r1)) (json_read r)
        | [] \<Rightarrow> None))"

lemma ord_hex_char: "d < 16 \<Longrightarrow> ord (hex_char d) = (if d < 10 then 48 + d else 87 + d)"
  by (simp add: hex_char_def of_char_of)

lemma hex_value_char: "d < 16 \<Longrightarrow> hex_value (hex_char d) = d"
  by (auto simp: hex_value_def isdigit_def ord_hex_char)

lemma json_read_put_char: "json_read (json_put_char c @ s) = map_option (\<lambda>(t, r). (c # t, r)) (json_read s)"
proof -
  consider (pair) d where "json_put_char c = [BSLASH, d]" "d \<noteq> CHR ''u''"
      "c = json_unesc d"
    | (hex) "json_put_char c = BSLASH # ''u00'' @ [hex_char (ord c div 16), hex_char (ord c mod 16)]" "ord c < 32"
    | (plain) "json_put_char c = [c]" "c \<noteq> DQ" "c \<noteq> BSLASH"
  proof (cases "c = DQ \<or> c = BSLASH \<or> c = NL \<or> c = CR \<or> c = TAB")
    case True
    then have "\<exists>d. json_put_char c = [BSLASH, d] \<and> d \<noteq> CHR ''u'' \<and>
        c = json_unesc d"
      by (elim disjE) (simp_all add: json_put_char_def json_unesc_def shell_defs)
    with pair show ?thesis by blast
  next
    case False
    then show ?thesis using hex plain by (cases "ord c < 32") (simp_all add: json_put_char_def)
  qed
  then show ?thesis
  proof cases
    case pair
    have "BSLASH \<noteq> DQ" by (simp add: shell_defs)
    then show ?thesis
      using pair(2) by (simp add: pair(1) pair(3) [symmetric] split: list.split)
  next
    case hex
    have "hex_value (hex_char (ord c div 16)) * 16 + hex_value (hex_char (ord c mod 16)) = ord c"
      using hex(2) by (simp add: hex_value_char)
    then have "char_of (hex_value (hex_char (ord c div 16)) * 16 + hex_value (hex_char (ord c mod 16))) = c"
      by (simp only: char_of_char)
    moreover have "BSLASH \<noteq> DQ" by (simp add: shell_defs)
    ultimately show ?thesis by (simp add: hex(1))
  qed simp
qed

theorem rg_json_text_read_back: "json_read (json_put s @ DQ # r) = Some (s, r)"
  by (induction s) (simp_all add: json_put_def json_read_put_char)

text \<open>With \<open>-F\<close> a line matches exactly when it contains the pattern, and the offsets enclose its first occurrence.\<close>

theorem fixed_string_match:
  assumes "fixed_strings opts" "\<not> ignore_case opts"
  shows "(match_line opts pat rx line \<noteq> None) = sublist pat line
    \<and> (\<forall>i j. match_line opts pat rx line = Some (i, j) \<longrightarrow>
         take (j - i) (drop i line) = pat \<and> (pat \<noteq> [] \<longrightarrow> \<not> sublist pat (take i line)))"
proof -
  have "take (length pat) (drop i line) = pat" if "strstr line pat = Some i" for i
  proof -
    have "i \<le> length line" and eq: "line = take i line @ pat @ drop (i + length pat) line"
      using strstr_Some [OF that] by auto
    then have "drop i line = pat @ drop (i + length pat) line"
      by (metis append_eq_conv_conj length_take min.absorb2)
    then show ?thesis by simp
  qed
  then show ?thesis
    using assms strstr_sublist [of line pat] strstr_none_before [of line pat] by (auto simp: match_line_def)
qed

section \<open>Witnesses and findings\<close>

definition demo_tree :: search_env where
  "demo_tree = \<lparr>stat_is_dir = (\<lambda>p. if p = ''d'' then Some True else if p = ''d/f'' then Some False else None),
     dir_names = (\<lambda>p. if p = ''d'' then Some [''.g'', ''f''] else None),
     file_bytes = (\<lambda>p. if p = ''d/f'' then Some (''one'' @ [NL] @ ''two'' @ [NL]) else None)\<rparr>"

definition demo_regcomp :: "cstring \<Rightarrow> bool \<Rightarrow> matcher option" where
  "demo_regcomp pat icase = Some (\<lambda>l. map_option (\<lambda>i. (i, i + length pat)) (strstr l pat))"

definition grep_rn :: grep_opts where
  "grep_rn = \<lparr>invert = False, line_num = True, count_only = False, files_only = False, recursive = True, show_path = False\<rparr>"

definition rg_r :: rg_opts where
  "rg_r = \<lparr>fixed_strings = False, ignore_case = False, json_out = False, rg_files_only = False, rg_recursive = True,
     rg_show_path = False\<rparr>"

lemma demo_files: "files_of_args demo_tree 2 [''d''] = Some [''d/f'']"
  by code_simp

theorem grep_recursive_result_witness:
  "grep_run demo_regcomp demo_tree 2 grep_rn ''tw'' False [''d''] [] = Some (0, ''d/f:2:two'' @ [NL])"
proof -
  let ?rx = "\<lambda>l. map_option (\<lambda>i. (i, i + length ''tw'')) (strstr l ''tw'')"
  have "grep_run demo_regcomp demo_tree 2 grep_rn ''tw'' False [''d''] [] =
      Some (if list_ex (grep_hits demo_tree grep_rn ?rx) [''d/f''] then 0 else 1,
        concat (map (grep_prints demo_tree (grep_rn\<lparr>show_path := True\<rparr>) ?rx) [''d/f'']))"
    by (rule grep_recursive_result [OF _ _ _ demo_files]) (simp_all add: grep_rn_def demo_regcomp_def)
  also have "\<dots> = Some (0, ''d/f:2:two'' @ [NL])" by code_simp
  finally show ?thesis .
qed


theorem search_ends_witness:
  "\<exists>status out. grep_run demo_regcomp demo_tree 2 grep_rn ''x'' False [''d''] [] = Some (status, out)"
proof -
  have "\<exists>status out. grep_run demo_regcomp demo_tree 2 grep_rn ''x'' False [''d''] [] = Some (status, out) \<and> (status = 0 \<or> status = 1)"
    by (rule search_ends [where depth = "\<lambda>p. if p = ''d'' then 1 else 0"])
      (auto simp: demo_tree_def grep_rn_def demo_regcomp_def child_of_def split: if_splits)
  then show ?thesis by blast
qed

theorem fixed_string_match_witness:
  "match_line (rg_r\<lparr>fixed_strings := True\<rparr>) ''na'' (\<lambda>l. None) ''banana'' \<noteq> None \<and> sublist ''na'' ''banana''"
  using fixed_string_match [of "rg_r\<lparr>fixed_strings := True\<rparr>" "''na''" "\<lambda>l. None" "''banana''"]
  by (simp add: rg_r_def match_line_def)

text \<open>A file that cannot be read is no error for the exit status.\<close>

lemma unreadable_file_status:
  "grep_run demo_regcomp demo_tree 2 grep_rn ''x'' False [''missing''] [] = Some (1, [])"
  by code_simp

end
