(* ===== verification/File_Tree.thy ===== *)
theory File_Tree
  imports Prelude "HOL-Library.Word"
begin

unbundle bit_operations_syntax

text \<open>
  The commands on directory trees after their options are parsed: \<open>rm\<close>, \<open>cp\<close>, \<open>mv\<close>, \<open>mkdir\<close>,
  \<open>rmdir\<close>, \<open>find\<close> and \<open>du\<close> (\<^verbatim>\<open>cmd_rm.c\<close>, \<^verbatim>\<open>cmd_cp.c\<close>, \<^verbatim>\<open>cmd_mv.c\<close>, \<^verbatim>\<open>cmd_mkdir.c\<close>, \<^verbatim>\<open>cmd_rmdir.c\<close>,
  \<^verbatim>\<open>cmd_find.c\<close>, \<^verbatim>\<open>cmd_du.c\<close>). The system calls are the parameter \<open>fs_ops\<close> on a state of any type; the
  recursive walks take fuel, one unit per level of directories. A directory is listed as it is when it
  is opened, and no path reaches \<open>PATH_MAX\<close>. Messages on \<open>stderr\<close> are left out; the answers to the
  prompts are read from the input.

  The locale \<open>tree_fs\<close> collects what the commands rely on when every call is permitted; it is
  interpreted on a file system of paths and nodes. In it \<open>rm -rf\<close> removes exactly the tree below its
  argument, \<open>cp -r\<close> makes a copy and leaves the rest alone, \<open>find\<close> lists every entry once; without it,
  \<open>du\<close> counts what \<open>find\<close> lists.
\<close>

type_synonym fmode = "32 word"

text \<open>A directory, a plain file, a symbolic link, or a device, pipe or socket.\<close>

datatype node = Dir fmode | Regular fmode "char list" | Link cstring | Special fmode

definition node_mode :: "node \<Rightarrow> fmode" where
  "node_mode nd = (case nd of Dir m \<Rightarrow> m | Regular m _ \<Rightarrow> m | Link _ \<Rightarrow> 0x1FF | Special m \<Rightarrow> m)"

definition is_dir :: "node \<Rightarrow> bool" where
  "is_dir nd \<longleftrightarrow> (case nd of Dir _ \<Rightarrow> True | _ \<Rightarrow> False)"

datatype rename_result = Renamed | Cross_Device | Rename_Failed

datatype mkdir_outcome = Made | Exists | Mkdir_Failed

text \<open>
  The system calls: \<open>lstat\<close>, \<open>stat\<close>, the names that \<open>opendir\<close> and \<open>readdir\<close> give, reading a file
  (whether it opens; its bytes and whether an error ended them), opening one for writing, writing,
  \<open>chmod\<close>, \<open>unlink\<close>, \<open>rmdir\<close>, \<open>mkdir\<close>, \<open>rename\<close>, and the blocks a file occupies.
\<close>

record 's fs_ops =
  lstat_of :: "'s \<Rightarrow> cstring \<Rightarrow> node option"
  stat_of :: "'s \<Rightarrow> cstring \<Rightarrow> node option"
  names_of :: "'s \<Rightarrow> cstring \<Rightarrow> cstring list option"
  opens_in :: "'s \<Rightarrow> cstring \<Rightarrow> bool"
  read_of :: "'s \<Rightarrow> cstring \<Rightarrow> char list \<times> bool"
  open_out :: "cstring \<Rightarrow> 's \<Rightarrow> 's option"
  put :: "cstring \<Rightarrow> char list \<Rightarrow> 's \<Rightarrow> bool \<times> 's"
  set_mode :: "cstring \<Rightarrow> fmode \<Rightarrow> 's \<Rightarrow> 's"
  unlink_at :: "cstring \<Rightarrow> 's \<Rightarrow> bool \<times> 's"
  rmdir_at :: "cstring \<Rightarrow> 's \<Rightarrow> bool \<times> 's"
  mkdir_at :: "cstring \<Rightarrow> fmode \<Rightarrow> 's \<Rightarrow> mkdir_outcome \<times> 's"
  rename_at :: "cstring \<Rightarrow> cstring \<Rightarrow> 's \<Rightarrow> rename_result \<times> 's"
  blocks_of :: "'s \<Rightarrow> cstring \<Rightarrow> nat"

definition dot_name :: "cstring \<Rightarrow> bool" where
  "dot_name m \<longleftrightarrow> m = ''.'' \<or> m = ''..''"

definition sub_path :: "cstring \<Rightarrow> cstring \<Rightarrow> cstring" where
  "sub_path path name = path @ ''/'' @ name"

definition base_name :: "cstring \<Rightarrow> cstring" where
  "base_name path = rev (takeWhile (\<lambda>c. c \<noteq> CHR ''/'') (rev path))"

text \<open>A prompt: the answer read, and the input left.\<close>

definition answer_yes :: "char list \<Rightarrow> bool \<times> char list" where
  "answer_yes inp =
     (case fgets1 8 inp of
        None \<Rightarrow> (False, inp)
      | Some (t, rest) \<Rightarrow> (t \<noteq> [] \<and> (hd t = CHR ''y'' \<or> hd t = CHR ''Y''), rest))"

section \<open>rm\<close>

fun remove_entry :: "'s fs_ops \<Rightarrow> bool \<Rightarrow> bool \<Rightarrow> bool \<Rightarrow> nat \<Rightarrow> cstring \<Rightarrow> 's \<Rightarrow> char list \<Rightarrow> (int \<times> 's \<times> char list) option"
  and remove_names :: "'s fs_ops \<Rightarrow> bool \<Rightarrow> bool \<Rightarrow> bool \<Rightarrow> nat \<Rightarrow> cstring \<Rightarrow> cstring list \<Rightarrow> 's \<Rightarrow> char list
    \<Rightarrow> (int \<times> 's \<times> char list) option" where
  "remove_entry ops rec ask force 0 path s inp = None"
| "remove_entry ops rec ask force (Suc n) path s inp =
     (case lstat_of ops s path of
        None \<Rightarrow> Some (if force then 0 else 1, s, inp)
      | Some (Dir m) \<Rightarrow>
          if \<not> rec then Some (1, s, inp)
          else (case names_of ops s path of
              None \<Rightarrow> Some (1, s, inp)
            | Some names \<Rightarrow> (case remove_names ops rec ask force n path names s inp of
                  None \<Rightarrow> None
                | Some (ret, s1, inp1) \<Rightarrow>
                    if ret \<noteq> 0 then Some (ret, s1, inp1)
                    else (case (if ask then answer_yes inp1 else (True, inp1)) of
                        (yes, inp2) \<Rightarrow>
                          if \<not> yes then Some (0, s1, inp2)
                          else (case rmdir_at ops path s1 of (ok, s2) \<Rightarrow> Some (if ok then 0 else 1, s2, inp2)))))
      | Some nd \<Rightarrow>
          (case (if ask then answer_yes inp else (True, inp)) of
             (yes, inp1) \<Rightarrow>
               if \<not> yes then Some (0, s, inp1)
               else (case unlink_at ops path s of (ok, s1) \<Rightarrow> Some (if ok \<or> force then 0 else 1, s1, inp1))))"
| "remove_names ops rec ask force n path [] s inp = Some (0, s, inp)"
| "remove_names ops rec ask force n path (m # ms) s inp =
     (if dot_name m then remove_names ops rec ask force n path ms s inp
      else (case remove_entry ops rec ask force n (sub_path path m) s inp of
          None \<Rightarrow> None
        | Some (r, s1, inp1) \<Rightarrow> (case remove_names ops rec ask force n path ms s1 inp1 of
              None \<Rightarrow> None
            | Some (ret, s2, inp2) \<Rightarrow> Some (if r \<noteq> 0 then 1 else ret, s2, inp2))))"

fun rm_run :: "'s fs_ops \<Rightarrow> bool \<Rightarrow> bool \<Rightarrow> bool \<Rightarrow> nat \<Rightarrow> cstring list \<Rightarrow> 's \<Rightarrow> char list \<Rightarrow> (int \<times> 's \<times> char list) option" where
  "rm_run ops rec ask force n [] s inp = Some (0, s, inp)"
| "rm_run ops rec ask force n (f # fs) s inp =
     (case remove_entry ops rec ask force n f s inp of
        None \<Rightarrow> None
      | Some (r, s1, inp1) \<Rightarrow> (case rm_run ops rec ask force n fs s1 inp1 of
            None \<Rightarrow> None
          | Some (ret, s2, inp2) \<Rightarrow> Some (if r \<noteq> 0 then 1 else ret, s2, inp2)))"

section \<open>cp\<close>

definition copy_file :: "'s fs_ops \<Rightarrow> bool \<Rightarrow> cstring \<Rightarrow> cstring \<Rightarrow> 's \<Rightarrow> char list \<Rightarrow> int \<times> 's \<times> char list" where
  "copy_file ops ask src dst s inp =
     (case (if ask \<and> stat_of ops s dst \<noteq> None then answer_yes inp else (True, inp)) of
        (yes, inp1) \<Rightarrow>
          if \<not> yes then (0, s, inp1)
          else if \<not> opens_in ops s src then (1, s, inp1)
          else (case open_out ops dst s of
              None \<Rightarrow> (1, s, inp1)
            | Some s1 \<Rightarrow>
                (case read_of ops s1 src of
                   (bytes, err) \<Rightarrow> (case put ops dst bytes s1 of
                       (ok, s2) \<Rightarrow>
                         if \<not> ok \<or> err then (1, s2, inp1)
                         else (0, case stat_of ops s2 src of None \<Rightarrow> s2 | Some nd \<Rightarrow> set_mode ops dst (node_mode nd AND 0x1FF) s2,
                               inp1)))))"

text \<open>\<open>mkdir\<close> when the target is missing, then the entries.\<close>

definition ensure_dir :: "'s fs_ops \<Rightarrow> cstring \<Rightarrow> fmode \<Rightarrow> 's \<Rightarrow> bool \<times> 's" where
  "ensure_dir ops dst m s =
     (if stat_of ops s dst = None
      then (case mkdir_at ops dst (m AND 0x1FF) s of (r, s1) \<Rightarrow> (r = Made, s1)) else (True, s))"

fun copy_recursive :: "'s fs_ops \<Rightarrow> bool \<Rightarrow> nat \<Rightarrow> cstring \<Rightarrow> cstring \<Rightarrow> 's \<Rightarrow> char list \<Rightarrow> (int \<times> 's \<times> char list) option"
  and copy_names :: "'s fs_ops \<Rightarrow> bool \<Rightarrow> nat \<Rightarrow> cstring \<Rightarrow> cstring \<Rightarrow> cstring list \<Rightarrow> 's \<Rightarrow> char list
    \<Rightarrow> (int \<times> 's \<times> char list) option" where
  "copy_recursive ops ask 0 src dst s inp = None"
| "copy_recursive ops ask (Suc n) src dst s inp =
     (case lstat_of ops s src of
        None \<Rightarrow> Some (1, s, inp)
      | Some (Dir m) \<Rightarrow>
          (case ensure_dir ops dst m s of
             (ok, s1) \<Rightarrow>
               if \<not> ok then Some (1, s1, inp)
               else (case names_of ops s1 src of
                   None \<Rightarrow> Some (1, s1, inp)
                 | Some names \<Rightarrow> copy_names ops ask n src dst names s1 inp))
      | Some nd \<Rightarrow> Some (copy_file ops ask src dst s inp))"
| "copy_names ops ask n src dst [] s inp = Some (0, s, inp)"
| "copy_names ops ask n src dst (m # ms) s inp =
     (if dot_name m then copy_names ops ask n src dst ms s inp
      else (case copy_recursive ops ask n (sub_path src m) (sub_path dst m) s inp of
          None \<Rightarrow> None
        | Some (r, s1, inp1) \<Rightarrow> (case copy_names ops ask n src dst ms s1 inp1 of
              None \<Rightarrow> None
            | Some (ret, s2, inp2) \<Rightarrow> Some (if r \<noteq> 0 then 1 else ret, s2, inp2))))"

definition dir_at :: "'s fs_ops \<Rightarrow> 's \<Rightarrow> cstring \<Rightarrow> bool" where
  "dir_at ops s p \<longleftrightarrow> (case stat_of ops s p of None \<Rightarrow> False | Some nd \<Rightarrow> is_dir nd)"

definition final_target :: "'s fs_ops \<Rightarrow> 's \<Rightarrow> cstring \<Rightarrow> cstring \<Rightarrow> cstring" where
  "final_target ops s src dst = (if dir_at ops s dst then sub_path dst (base_name src) else dst)"

definition copy_entry :: "'s fs_ops \<Rightarrow> bool \<Rightarrow> bool \<Rightarrow> nat \<Rightarrow> cstring \<Rightarrow> cstring \<Rightarrow> 's \<Rightarrow> char list \<Rightarrow> (int \<times> 's \<times> char list) option" where
  "copy_entry ops rec ask n src dst s inp =
     (case lstat_of ops s src of
        None \<Rightarrow> Some (1, s, inp)
      | Some nd \<Rightarrow>
          let target = final_target ops s src dst in
          if is_dir nd then if \<not> rec then Some (1, s, inp) else copy_recursive ops ask n src target s inp
          else Some (copy_file ops ask src target s inp))"

text \<open>Several sources into one target; with more than one source the target must be a directory.\<close>

fun copy_all :: "'s fs_ops \<Rightarrow> bool \<Rightarrow> bool \<Rightarrow> nat \<Rightarrow> cstring \<Rightarrow> cstring list \<Rightarrow> 's \<Rightarrow> char list \<Rightarrow> (int \<times> 's \<times> char list) option" where
  "copy_all ops rec ask n dst [] s inp = Some (0, s, inp)"
| "copy_all ops rec ask n dst (f # fs) s inp =
     (case copy_entry ops rec ask n f dst s inp of
        None \<Rightarrow> None
      | Some (r, s1, inp1) \<Rightarrow> (case copy_all ops rec ask n dst fs s1 inp1 of
            None \<Rightarrow> None
          | Some (ret, s2, inp2) \<Rightarrow> Some (if r \<noteq> 0 then 1 else ret, s2, inp2)))"

definition cp_run :: "'s fs_ops \<Rightarrow> bool \<Rightarrow> bool \<Rightarrow> nat \<Rightarrow> cstring list \<Rightarrow> 's \<Rightarrow> char list \<Rightarrow> (int \<times> 's \<times> char list) option" where
  "cp_run ops rec ask n files s inp =
     (if 2 < length files \<and> \<not> dir_at ops s (last files) then Some (1, s, inp)
      else copy_all ops rec ask n (last files) (butlast files) s inp)"

section \<open>mv\<close>

definition mv_copy_file :: "'s fs_ops \<Rightarrow> cstring \<Rightarrow> cstring \<Rightarrow> 's \<Rightarrow> int \<times> 's" where
  "mv_copy_file ops src dst s = (case copy_file ops False src dst s [] of (r, s1, _) \<Rightarrow> (r, s1))"

definition move_entry :: "'s fs_ops \<Rightarrow> bool \<Rightarrow> cstring \<Rightarrow> cstring \<Rightarrow> 's \<Rightarrow> char list \<Rightarrow> int \<times> 's \<times> char list" where
  "move_entry ops ask src dst s inp =
     (let target = final_target ops s src dst in
      case (if ask \<and> stat_of ops s target \<noteq> None then answer_yes inp else (True, inp)) of
        (yes, inp1) \<Rightarrow>
          if \<not> yes then (0, s, inp1)
          else (case rename_at ops src target s of
              (Renamed, s1) \<Rightarrow> (0, s1, inp1)
            | (Rename_Failed, s1) \<Rightarrow> (1, s1, inp1)
            | (Cross_Device, s1) \<Rightarrow>
                (case lstat_of ops s1 src of
                   None \<Rightarrow> (1, s1, inp1)
                 | Some nd \<Rightarrow>
                     if is_dir nd then (1, s1, inp1)
                     else (case mv_copy_file ops src target s1 of
                         (r, s2) \<Rightarrow>
                           if r \<noteq> 0 then (1, s2, inp1)
                           else (case unlink_at ops src s2 of (ok, s3) \<Rightarrow> (if ok then 0 else 1, s3, inp1))))))"

fun move_all :: "'s fs_ops \<Rightarrow> bool \<Rightarrow> cstring \<Rightarrow> cstring list \<Rightarrow> 's \<Rightarrow> char list \<Rightarrow> int \<times> 's \<times> char list" where
  "move_all ops ask dst [] s inp = (0, s, inp)"
| "move_all ops ask dst (f # fs) s inp =
     (case move_entry ops ask f dst s inp of
        (r, s1, inp1) \<Rightarrow> (case move_all ops ask dst fs s1 inp1 of
            (ret, s2, inp2) \<Rightarrow> (if r \<noteq> 0 then 1 else ret, s2, inp2)))"

definition mv_run :: "'s fs_ops \<Rightarrow> bool \<Rightarrow> cstring list \<Rightarrow> 's \<Rightarrow> char list \<Rightarrow> int \<times> 's \<times> char list" where
  "mv_run ops ask files s inp =
     (if 2 < length files \<and> \<not> dir_at ops s (last files) then (1, s, inp)
      else move_all ops ask (last files) (butlast files) s inp)"

section \<open>mkdir and rmdir\<close>

text \<open>The directories \<open>mkdir_parents\<close> makes, in order: the path up to each slash but a leading one, and the path.\<close>

definition parent_paths :: "cstring \<Rightarrow> cstring list" where
  "parent_paths path =
     (let t = (if path \<noteq> [] \<and> last path = CHR ''/'' then butlast path else path) in
      map (\<lambda>i. take i t) (filter (\<lambda>i. t ! i = CHR ''/'') [1..<length t]) @ [t])"

fun make_all :: "'s fs_ops \<Rightarrow> fmode \<Rightarrow> cstring list \<Rightarrow> 's \<Rightarrow> int \<times> 's" where
  "make_all ops m [] s = (0, s)"
| "make_all ops m (p # ps) s =
     (case mkdir_at ops p m s of
        (Mkdir_Failed, s1) \<Rightarrow> (1, s1)
      | (_, s1) \<Rightarrow> make_all ops m ps s1)"

definition mkdir_parents :: "'s fs_ops \<Rightarrow> cstring \<Rightarrow> fmode \<Rightarrow> 's \<Rightarrow> int \<times> 's" where
  "mkdir_parents ops path m s = make_all ops m (parent_paths path) s"

fun mkdir_run :: "'s fs_ops \<Rightarrow> bool \<Rightarrow> cstring list \<Rightarrow> 's \<Rightarrow> int \<times> 's" where
  "mkdir_run ops par [] s = (0, s)"
| "mkdir_run ops par (d # ds) s =
     (case (if par then mkdir_parents ops d 0x1ED s
            else (case mkdir_at ops d 0x1ED s of (r, s1) \<Rightarrow> (if r = Made then 0 else 1, s1))) of
        (r, s1) \<Rightarrow> (case mkdir_run ops par ds s1 of (ret, s2) \<Rightarrow> (if r \<noteq> 0 then 1 else ret, s2)))"

text \<open>\<open>rmdir -p\<close>: trailing slashes off, then the path and its parents from the longest.\<close>

fun drop_trailing :: "cstring \<Rightarrow> cstring" where
  "drop_trailing (c # d # r) = (if c = CHR ''/'' then drop_trailing (d # r) else c # d # r)"
| "drop_trailing r = r"

definition strip_trailing :: "cstring \<Rightarrow> cstring" where
  "strip_trailing path = rev (drop_trailing (rev path))"

definition parent_of :: "cstring \<Rightarrow> cstring option" where
  "parent_of path =
     (if CHR ''/'' \<in> set path then Some (rev (tl (dropWhile (\<lambda>c. c \<noteq> CHR ''/'') (rev path)))) else None)"

lemma parent_shorter [termination_simp]: "parent_of p = Some q \<Longrightarrow> length q < length p"
proof -
  assume "parent_of p = Some q"
  then have s: "CHR ''/'' \<in> set (rev p)" and q: "q = rev (tl (dropWhile (\<lambda>c. c \<noteq> CHR ''/'') (rev p)))"
    by (auto simp: parent_of_def split: if_splits)
  from s have "dropWhile (\<lambda>c. c \<noteq> CHR ''/'') (rev p) \<noteq> []" by (auto simp: dropWhile_eq_Nil_conv)
  then have "length (tl (dropWhile (\<lambda>c. c \<noteq> CHR ''/'') (rev p))) < length (dropWhile (\<lambda>c. c \<noteq> CHR ''/'') (rev p))"
    by (cases "dropWhile (\<lambda>c. c \<noteq> CHR ''/'') (rev p)") auto
  also have "\<dots> \<le> length p" using length_dropWhile_le [of _ "rev p"] by simp
  finally show ?thesis by (simp add: q)
qed

function remove_up :: "'s fs_ops \<Rightarrow> cstring \<Rightarrow> 's \<Rightarrow> int \<times> 's" where
  "remove_up ops p s =
     (if p = [] then (0, s)
      else (case rmdir_at ops p s of
          (ok, s1) \<Rightarrow>
            if \<not> ok then (1, s1)
            else (case parent_of p of None \<Rightarrow> (0, s1) | Some q \<Rightarrow> remove_up ops q s1)))"
  by pat_completeness auto
termination by (relation "measure (\<lambda>(ops, p, s). length p)") (auto simp: parent_shorter)

declare remove_up.simps [simp del]

definition rmdir_parents :: "'s fs_ops \<Rightarrow> cstring \<Rightarrow> 's \<Rightarrow> int \<times> 's" where
  "rmdir_parents ops path s = remove_up ops (strip_trailing path) s"

fun rmdir_run :: "'s fs_ops \<Rightarrow> bool \<Rightarrow> cstring list \<Rightarrow> 's \<Rightarrow> int \<times> 's" where
  "rmdir_run ops par [] s = (0, s)"
| "rmdir_run ops par (d # ds) s =
     (case (if par then rmdir_parents ops d s else (case rmdir_at ops d s of (ok, s1) \<Rightarrow> (if ok then 0 else 1, s1))) of
        (r, s1) \<Rightarrow> (case rmdir_run ops par ds s1 of (ret, s2) \<Rightarrow> (if r \<noteq> 0 then 1 else ret, s2)))"

section \<open>find and du\<close>

text \<open>The name test stands for \<open>fnmatch\<close> with the pattern of \<open>-n\<close>.\<close>

record find_opts =
  name_test :: "(cstring \<Rightarrow> bool) option"
  type_filter :: "char option"
  max_level :: int

definition find_shows :: "find_opts \<Rightarrow> node \<Rightarrow> cstring \<Rightarrow> bool" where
  "find_shows opts nd path \<longleftrightarrow>
     (case type_filter opts of
        None \<Rightarrow> True
      | Some c \<Rightarrow> (case nd of Dir _ \<Rightarrow> c = CHR ''d'' | Regular _ _ \<Rightarrow> c = CHR ''f'' | Link _ \<Rightarrow> c = CHR ''l'' | Special _ \<Rightarrow> False))
     \<and> (case name_test opts of None \<Rightarrow> True | Some f \<Rightarrow> f (base_name path))"

fun do_find :: "'s fs_ops \<Rightarrow> find_opts \<Rightarrow> nat \<Rightarrow> int \<Rightarrow> cstring \<Rightarrow> 's \<Rightarrow> cstring list option"
  and find_names :: "'s fs_ops \<Rightarrow> find_opts \<Rightarrow> nat \<Rightarrow> int \<Rightarrow> cstring \<Rightarrow> cstring list \<Rightarrow> 's \<Rightarrow> cstring list option" where
  "do_find ops opts 0 depth path s = None"
| "do_find ops opts (Suc n) depth path s =
     (case lstat_of ops s path of
        None \<Rightarrow> Some []
      | Some nd \<Rightarrow>
          map_option (\<lambda>out. (if find_shows opts nd path then [path] else []) @ out)
            (if \<not> is_dir nd \<or> (0 \<le> max_level opts \<and> max_level opts \<le> depth) then Some []
             else (case names_of ops s path of
                 None \<Rightarrow> Some []
               | Some names \<Rightarrow> find_names ops opts n depth path names s)))"
| "find_names ops opts n depth path [] s = Some []"
| "find_names ops opts n depth path (m # ms) s =
     (if dot_name m then find_names ops opts n depth path ms s
      else (case do_find ops opts n (depth + 1) (sub_path path m) s of
          None \<Rightarrow> None
        | Some out \<Rightarrow> map_option (\<lambda>rest. out @ rest) (find_names ops opts n depth path ms s)))"

definition find_run :: "'s fs_ops \<Rightarrow> find_opts \<Rightarrow> cstring option \<Rightarrow> nat \<Rightarrow> cstring option \<Rightarrow> 's \<Rightarrow> (int \<times> cstring) option" where
  "find_run ops opts typ n start s =
     (case typ of
        Some t \<Rightarrow>
          if t \<noteq> ''f'' \<and> t \<noteq> ''d'' \<and> t \<noteq> ''l'' then Some (1, [])
          else map_option (\<lambda>out. (0, concat (map (\<lambda>p. p @ [NL]) out)))
                 (do_find ops (opts\<lparr>type_filter := Some (hd t)\<rparr>) n 0 (case start of None \<Rightarrow> ''.'' | Some p \<Rightarrow> p) s)
      | None \<Rightarrow> map_option (\<lambda>out. (0, concat (map (\<lambda>p. p @ [NL]) out)))
                 (do_find ops (opts\<lparr>type_filter := None\<rparr>) n 0 (case start of None \<Rightarrow> ''.'' | Some p \<Rightarrow> p) s))"

record du_opts =
  human :: bool
  all_files :: bool
  max_depth :: int

text \<open>The size with a unit needs floating point and is a parameter.\<close>

definition fmt_size :: "(nat \<Rightarrow> cstring) \<Rightarrow> nat \<Rightarrow> bool \<Rightarrow> cstring" where
  "fmt_size unit_text bytes hum = (if hum then unit_text bytes else show_nat ((bytes + 1023) div 1024))"

fun du_walk :: "(nat \<Rightarrow> cstring) \<Rightarrow> 's fs_ops \<Rightarrow> du_opts \<Rightarrow> nat \<Rightarrow> int \<Rightarrow> cstring \<Rightarrow> 's \<Rightarrow> (nat \<times> cstring) option"
  and du_names :: "(nat \<Rightarrow> cstring) \<Rightarrow> 's fs_ops \<Rightarrow> du_opts \<Rightarrow> nat \<Rightarrow> int \<Rightarrow> cstring \<Rightarrow> cstring list \<Rightarrow> 's \<Rightarrow> (nat \<times> cstring) option" where
  "du_walk ut ops opts 0 depth path s = None"
| "du_walk ut ops opts (Suc n) depth path s =
     (case lstat_of ops s path of
        None \<Rightarrow> Some (0, [])
      | Some nd \<Rightarrow>
          if is_dir nd
          then (case (case names_of ops s path of
                       None \<Rightarrow> Some (0, [])
                     | Some names \<Rightarrow> du_names ut ops opts n depth path names s) of
              None \<Rightarrow> None
            | Some (below, out) \<Rightarrow>
                let total = blocks_of ops s path * 512 + below in
                Some (total, out @ (if depth \<le> max_depth opts then fmt_size ut total (human opts) @ TAB # path @ [NL] else [])))
          else
            let total = blocks_of ops s path * 512 in
            Some (total, if depth = 0 \<or> (all_files opts \<and> depth \<le> max_depth opts)
                         then fmt_size ut total (human opts) @ TAB # path @ [NL] else []))"
| "du_names ut ops opts n depth path [] s = Some (0, [])"
| "du_names ut ops opts n depth path (m # ms) s =
     (if dot_name m then du_names ut ops opts n depth path ms s
      else (case du_walk ut ops opts n (depth + 1) (sub_path path m) s of
          None \<Rightarrow> None
        | Some (t, out) \<Rightarrow> map_option (\<lambda>(u, rest). (t + u, out @ rest)) (du_names ut ops opts n depth path ms s)))"

text \<open>Several paths, or the directory the shell is in; \<open>-s\<close> is depth 0.\<close>

fun du_all :: "(nat \<Rightarrow> cstring) \<Rightarrow> 's fs_ops \<Rightarrow> du_opts \<Rightarrow> nat \<Rightarrow> cstring list \<Rightarrow> 's \<Rightarrow> cstring option" where
  "du_all ut ops opts n [] s = Some []"
| "du_all ut ops opts n (p # ps) s =
     (case du_walk ut ops opts n 0 p s of
        None \<Rightarrow> None
      | Some (_, out) \<Rightarrow> map_option (\<lambda>rest. out @ rest) (du_all ut ops opts n ps s))"

definition du_run :: "(nat \<Rightarrow> cstring) \<Rightarrow> 's fs_ops \<Rightarrow> bool \<Rightarrow> bool \<Rightarrow> bool \<Rightarrow> int option \<Rightarrow> nat \<Rightarrow> cstring list \<Rightarrow> 's
    \<Rightarrow> (int \<times> cstring) option" where
  "du_run ut ops hum summarize al level n paths s =
     map_option (\<lambda>out. (0, out))
       (du_all ut ops
          \<lparr>human = hum, all_files = al,
           max_depth = (if summarize then 0 else case level of Some d \<Rightarrow> d | None \<Rightarrow> 0x7FFFFFFF)\<rparr> n
          (if paths = [] then [''.''] else paths) s)"

section \<open>What the commands rely on\<close>

definition below :: "cstring \<Rightarrow> cstring \<Rightarrow> bool" where
  "below p q \<longleftrightarrow> q = p \<or> (\<exists>r. q = p @ CHR ''/'' # r)"

definition entry_name :: "cstring \<Rightarrow> bool" where
  "entry_name m \<longleftrightarrow> m \<noteq> [] \<and> CHR ''/'' \<notin> set m \<and> \<not> dot_name m"

definition depth_fits :: "(cstring \<Rightarrow> node option) \<Rightarrow> cstring \<Rightarrow> nat \<Rightarrow> bool" where
  "depth_fits f p n \<longleftrightarrow> 0 < n \<and> (\<forall>r. f (p @ CHR ''/'' # r) \<noteq> None \<longrightarrow> Suc (count_list r (CHR ''/'')) < n)"

text \<open>What \<open>cp\<close> makes of a node: a directory's mode goes through the umask, a file's does not.\<close>

definition copied_node :: "fmode \<Rightarrow> node \<Rightarrow> node" where
  "copied_node umask nd =
     (case nd of Dir m \<Rightarrow> Dir ((m AND 0x1FF) AND NOT umask) | Regular m b \<Rightarrow> Regular (m AND 0x1FF) b | _ \<Rightarrow> nd)"

lemma below_refl [simp]: "below p p"
  by (simp add: below_def)

lemma below_slash [simp]: "below p (p @ CHR ''/'' # r)"
  by (simp add: below_def)

lemma below_trans: "below p q \<Longrightarrow> below q r \<Longrightarrow> below p r"
  by (auto simp: below_def)

lemma below_split: "below p q \<longleftrightarrow> (\<exists>x. q = p @ x \<and> (x = [] \<or> hd x = CHR ''/''))"
proof
  assume "\<exists>x. q = p @ x \<and> (x = [] \<or> hd x = CHR ''/'')"
  then obtain x where "q = p @ x" "x = [] \<or> hd x = CHR ''/''" by blast
  then show "below p q" by (cases x) (auto simp: below_def)
qed (auto simp: below_def)

lemma below_comparable:
  assumes "below a q" "below b q"
  shows "below a b \<or> below b a"
proof -
  from assms obtain x y where x: "q = a @ x" "x = [] \<or> hd x = CHR ''/''" and y: "q = b @ y" "y = [] \<or> hd y = CHR ''/''"
    unfolding below_split by blast
  then have "a @ x = b @ y" by simp
  then obtain us where "a = b @ us \<and> us @ x = y \<or> a @ us = b \<and> x = us @ y"
    by (auto simp: append_eq_append_conv2)
  then show ?thesis
  proof
    assume u: "a = b @ us \<and> us @ x = y"
    show ?thesis
    proof (cases us)
      case Nil
      then show ?thesis using u by simp
    next
      case (Cons c cs)
      then have "c = CHR ''/''" using u y by auto
      then have "below b a" using u Cons by (simp add: below_def)
      then show ?thesis ..
    qed
  next
    assume u: "a @ us = b \<and> x = us @ y"
    show ?thesis
    proof (cases us)
      case Nil
      then show ?thesis using u by simp
    next
      case (Cons c cs)
      then have "c = CHR ''/''" using u x by auto
      then have "below a b" using u Cons by (auto simp: below_def)
      then show ?thesis ..
    qed
  qed
qed

lemma sub_path_below [simp]: "below p (sub_path p m)"
  by (simp add: sub_path_def)

lemma siblings_apart:
  assumes "CHR ''/'' \<notin> set m" "CHR ''/'' \<notin> set k" "below (sub_path p m) q" "below (sub_path p k) q"
  shows "m = k"
proof -
  from below_comparable [OF assms(3,4)] show ?thesis
    using assms(1,2) by (auto simp: below_def sub_path_def) 
qed

lemma not_below_parent: "\<not> below (sub_path p m) p"
  by (auto simp: below_def sub_path_def)

lemma depth_fits_sub:
  assumes "depth_fits f p (Suc n)" "f (sub_path p m) \<noteq> None" "CHR ''/'' \<notin> set m"
  shows "depth_fits f (sub_path p m) n"
  unfolding depth_fits_def
proof (intro conjI allI impI)
  show "0 < n" using assms(1,2) by (fastforce simp: depth_fits_def sub_path_def)
next
  fix r assume "f (sub_path p m @ CHR ''/'' # r) \<noteq> None"
  then have "f (p @ CHR ''/'' # (m @ CHR ''/'' # r)) \<noteq> None" by (simp add: sub_path_def)
  then have "Suc (count_list (m @ CHR ''/'' # r) (CHR ''/'')) < Suc n"
    using assms(1) unfolding depth_fits_def by blast
  then show "Suc (count_list r (CHR ''/'')) < n" by simp
qed

text \<open>A tree of directories and plain files, and the copy of it at another place.\<close>

definition plain_tree :: "(cstring \<Rightarrow> node option) \<Rightarrow> cstring \<Rightarrow> bool" where
  "plain_tree f p \<longleftrightarrow> (\<forall>q t m. below p q \<longrightarrow> f q \<noteq> Some (Link t) \<and> f q \<noteq> Some (Special m))"

definition copied_at :: "fmode \<Rightarrow> (cstring \<Rightarrow> node option) \<Rightarrow> cstring \<Rightarrow> cstring \<Rightarrow> (cstring \<Rightarrow> node option) \<Rightarrow> bool" where
  "copied_at umask f src dst g \<longleftrightarrow>
     (\<forall>r. r = [] \<or> hd r = CHR ''/'' \<longrightarrow> g (dst @ r) = map_option (copied_node umask) (f (src @ r)))"

lemma copied_atD: "copied_at umask f src dst g \<Longrightarrow> r = [] \<or> hd r = CHR ''/'' \<Longrightarrow>
    g (dst @ r) = map_option (copied_node umask) (f (src @ r))"
  unfolding copied_at_def by blast

lemma below_appended: "r = [] \<or> hd r = CHR ''/'' \<Longrightarrow> below p (p @ r)"
  by (auto simp: below_split)

lemma copied_at_cong:
  assumes "copied_at umask f src dst g" "\<And>q. below src q \<Longrightarrow> f q = f' q" "\<And>q. below dst q \<Longrightarrow> g q = g' q"
  shows "copied_at umask f' src dst g'"
  unfolding copied_at_def
proof (intro allI impI)
  fix r :: cstring assume r: "r = [] \<or> hd r = CHR ''/''"
  show "g' (dst @ r) = map_option (copied_node umask) (f' (src @ r))"
    using copied_atD [OF assms(1) r] assms(2,3) below_appended [OF r] by metis
qed

lemma apart_trees:
  assumes "\<not> below src dst" "\<not> below dst src" "below src q"
  shows "\<not> below dst q"
  using assms below_comparable by blast

text \<open>
  The view is the tree of the entries under their paths. The laws say what a file system lets a user
  do who may do everything: each entry lies in a directory, a directory lists its entries, a call on
  an entry of the right kind succeeds and changes that entry only. The third parameter is the umask.
\<close>

locale tree_fs =
  fixes ops :: "'s fs_ops"
    and view :: "'s \<Rightarrow> cstring \<Rightarrow> node option"
    and sound :: "'s \<Rightarrow> bool"
    and umask :: fmode
  assumes entry_in_dir: "sound s \<Longrightarrow> CHR ''/'' \<notin> set m \<Longrightarrow> view s (sub_path d m) \<noteq> None
      \<Longrightarrow> entry_name m \<and> (\<exists>k. view s d = Some (Dir k))"
    and lstat_entry: "sound s \<Longrightarrow> view s p = Some nd \<Longrightarrow> lstat_of ops s p = Some nd"
    and stat_entry: "sound s \<Longrightarrow> view s p = Some nd \<Longrightarrow> (\<And>t. nd \<noteq> Link t) \<Longrightarrow> stat_of ops s p = Some nd"
    and stat_missing: "sound s \<Longrightarrow> view s d = Some (Dir k) \<Longrightarrow> entry_name m \<Longrightarrow> view s (sub_path d m) = None
      \<Longrightarrow> stat_of ops s (sub_path d m) = None"
    and names_entry: "sound s \<Longrightarrow> view s p = Some (Dir k) \<Longrightarrow>
      \<exists>ms. names_of ops s p = Some ms \<and> distinct ms
         \<and> {m \<in> set ms. \<not> dot_name m} = {m. entry_name m \<and> view s (sub_path p m) \<noteq> None}"
    and read_entry: "sound s \<Longrightarrow> view s p = Some (Regular k b) \<Longrightarrow> opens_in ops s p \<and> read_of ops s p = (b, False)"
    and create_entry: "sound s \<Longrightarrow> view s d = Some (Dir k) \<Longrightarrow> entry_name m \<Longrightarrow> view s (sub_path d m) = None \<Longrightarrow>
      \<exists>s1 j. open_out ops (sub_path d m) s = Some s1 \<and> sound s1 \<and> view s1 = (view s)(sub_path d m \<mapsto> Regular j [])"
    and put_entry: "sound s \<Longrightarrow> view s p = Some (Regular k []) \<Longrightarrow>
      \<exists>s1. put ops p b s = (True, s1) \<and> sound s1 \<and> view s1 = (view s)(p \<mapsto> Regular k b)"
    and mode_entry: "sound s \<Longrightarrow> view s p = Some (Regular k b) \<Longrightarrow>
      sound (set_mode ops p k' s) \<and> view (set_mode ops p k' s) = (view s)(p \<mapsto> Regular k' b)"
    and unlink_entry: "sound s \<Longrightarrow> view s p = Some nd \<Longrightarrow> \<not> is_dir nd \<Longrightarrow>
      \<exists>s1. unlink_at ops p s = (True, s1) \<and> sound s1 \<and> view s1 = (view s)(p := None)"
    and rmdir_entry: "sound s \<Longrightarrow> view s p = Some (Dir k) \<Longrightarrow> (\<And>r. view s (p @ CHR ''/'' # r) = None) \<Longrightarrow>
      \<exists>s1. rmdir_at ops p s = (True, s1) \<and> sound s1 \<and> view s1 = (view s)(p := None)"
    and mkdir_entry: "sound s \<Longrightarrow> view s d = Some (Dir k) \<Longrightarrow> entry_name m \<Longrightarrow> view s (sub_path d m) = None \<Longrightarrow>
      \<exists>s1. mkdir_at ops (sub_path d m) j s = (Made, s1) \<and> sound s1 \<and> view s1 = (view s)(sub_path d m \<mapsto> Dir (j AND NOT umask))"
begin

lemma entry_step:
  assumes "sound s" "view s (p @ CHR ''/'' # r) \<noteq> None"
  shows "\<exists>m. entry_name m \<and> view s (sub_path p m) \<noteq> None \<and> (r = m \<or> (\<exists>r'. r = m @ CHR ''/'' # r'))"
  using assms(2)
proof (induction "length r" arbitrary: r rule: less_induct)
  case less
  show ?case
  proof (cases "CHR ''/'' \<in> set r")
    case False
    then have "entry_name r \<and> view s (sub_path p r) \<noteq> None"
      using entry_in_dir [OF assms(1), of r p] less.prems by (auto simp: sub_path_def)
    then show ?thesis by blast
  next
    case True
    then obtain a m where r: "r = a @ CHR ''/'' # m" and m: "CHR ''/'' \<notin> set m"
      by (metis split_list_last)
    then have "view s (sub_path (p @ CHR ''/'' # a) m) \<noteq> None" using less.prems by (simp add: sub_path_def)
    then have "view s (p @ CHR ''/'' # a) \<noteq> None" using entry_in_dir [OF assms(1) m] by blast
    then obtain k where "entry_name k" "view s (sub_path p k) \<noteq> None" "a = k \<or> (\<exists>r'. a = k @ CHR ''/'' # r')"
      using less.hyps [of a] r by auto
    then show ?thesis using r by auto
  qed
qed

lemma dir_of_entry:
  assumes "sound s" "view s (p @ CHR ''/'' # r) \<noteq> None"
  shows "\<exists>k. view s p = Some (Dir k)"
  using entry_step [OF assms] entry_in_dir [OF assms(1), of _ p] by (auto simp: entry_name_def)

lemma plain_entry_alone:
  assumes "sound s" "view s p = Some nd" "\<not> is_dir nd" "below p q" "q \<noteq> p"
  shows "view s q = None"
proof (rule ccontr)
  assume "view s q \<noteq> None"
  moreover obtain r where "q = p @ CHR ''/'' # r" using assms(4,5) by (auto simp: below_def)
  ultimately obtain k where "view s p = Some (Dir k)" using dir_of_entry [OF assms(1)] by blast
  then show False using assms(2,3) by (simp add: is_dir_def)
qed

lemma remove_listed:
  assumes step: "\<And>m t. sound t \<Longrightarrow> entry_name m \<Longrightarrow> view t (sub_path p m) \<noteq> None \<Longrightarrow> depth_fits (view t) p (Suc n) \<Longrightarrow>
      \<exists>t1. remove_entry ops True False force n (sub_path p m) t inp = Some (0, t1, inp) \<and> sound t1
         \<and> view t1 = (\<lambda>q. if below (sub_path p m) q then None else view t q)"
  shows "sound t \<Longrightarrow> distinct ms \<Longrightarrow> depth_fits (view t) p (Suc n) \<Longrightarrow>
    (\<And>m. m \<in> set ms \<Longrightarrow> \<not> dot_name m \<Longrightarrow> entry_name m \<and> view t (sub_path p m) \<noteq> None) \<Longrightarrow>
    \<exists>t1. remove_names ops True False force n p ms t inp = Some (0, t1, inp) \<and> sound t1
       \<and> view t1 = (\<lambda>q. if \<exists>m\<in>set ms. \<not> dot_name m \<and> below (sub_path p m) q then None else view t q)"
proof (induction ms arbitrary: t)
  case Nil
  then show ?case by simp
next
  case (Cons m ms)
  show ?case
  proof (cases "dot_name m")
    case True
    then show ?thesis using Cons.IH [OF Cons.prems(1) _ Cons.prems(3)] Cons.prems(2,4) by auto
  next
    case False
    then have m: "entry_name m" "view t (sub_path p m) \<noteq> None" using Cons.prems(4) by auto
    from step [OF Cons.prems(1) m Cons.prems(3)] obtain t1 where
      t1: "remove_entry ops True False force n (sub_path p m) t inp = Some (0, t1, inp)" "sound t1"
        "view t1 = (\<lambda>q. if below (sub_path p m) q then None else view t q)" by blast
    have d: "depth_fits (view t1) p (Suc n)" using Cons.prems(3) by (auto simp: t1(3) depth_fits_def)
    have e: "entry_name k \<and> view t1 (sub_path p k) \<noteq> None" if "k \<in> set ms" "\<not> dot_name k" for k
    proof -
      have k: "entry_name k" "view t (sub_path p k) \<noteq> None" using Cons.prems(4) that by auto
      have "\<not> below (sub_path p m) (sub_path p k)"
        using siblings_apart [of m k p "sub_path p k"] m k Cons.prems(2) that by (auto simp: entry_name_def)
      then show ?thesis using k by (simp add: t1(3))
    qed
    have "distinct ms" using Cons.prems(2) by simp
    from Cons.IH [OF t1(2) this d e] obtain t2 where
      "remove_names ops True False force n p ms t1 inp = Some (0, t2, inp)" "sound t2"
      "view t2 = (\<lambda>q. if \<exists>m\<in>set ms. \<not> dot_name m \<and> below (sub_path p m) q then None else view t1 q)" by blast
    then show ?thesis using False t1 by (auto simp: fun_eq_iff)
  qed
qed

lemma remove_tree:
  assumes "sound s" "view s p \<noteq> None" "depth_fits (view s) p n"
  shows "\<exists>s1. remove_entry ops True False force n p s inp = Some (0, s1, inp) \<and> sound s1
     \<and> view s1 = (\<lambda>q. if below p q then None else view s q)"
  using assms
proof (induction n arbitrary: p s)
  case 0
  then show ?case by (simp add: depth_fits_def)
next
  case (Suc n)
  obtain nd where nd: "view s p = Some nd" using Suc.prems by auto
  show ?case
  proof (cases nd)
    case (Dir k)
    have v: "view s p = Some (Dir k)" using nd Dir by simp
    obtain ms where ms: "names_of ops s p = Some ms" "distinct ms"
        "{m \<in> set ms. \<not> dot_name m} = {m. entry_name m \<and> view s (sub_path p m) \<noteq> None}"
      using names_entry [OF Suc.prems(1) v] by blast
    have "\<exists>s1. remove_names ops True False force n p ms s inp = Some (0, s1, inp) \<and> sound s1
       \<and> view s1 = (\<lambda>q. if \<exists>m\<in>set ms. \<not> dot_name m \<and> below (sub_path p m) q then None else view s q)"
    proof (rule remove_listed [OF _ Suc.prems(1) ms(2) Suc.prems(3)])
      fix m t
      assume "sound t" "entry_name m" "view t (sub_path p m) \<noteq> None" "depth_fits (view t) p (Suc n)"
      then show "\<exists>t1. remove_entry ops True False force n (sub_path p m) t inp = Some (0, t1, inp) \<and> sound t1
         \<and> view t1 = (\<lambda>q. if below (sub_path p m) q then None else view t q)"
        using Suc.IH depth_fits_sub by (simp add: entry_name_def)
    next
      fix m assume "m \<in> set ms" "\<not> dot_name m"
      then show "entry_name m \<and> view s (sub_path p m) \<noteq> None" using ms(3) by blast
    qed
    then obtain s1 where s1: "remove_names ops True False force n p ms s inp = Some (0, s1, inp)" "sound s1"
       "view s1 = (\<lambda>q. if \<exists>m\<in>set ms. \<not> dot_name m \<and> below (sub_path p m) q then None else view s q)" by blast
    have empty: "view s1 (p @ CHR ''/'' # r) = None" for r
    proof (rule ccontr)
      assume a: "view s1 (p @ CHR ''/'' # r) \<noteq> None"
      then have "view s (p @ CHR ''/'' # r) \<noteq> None" by (auto simp: s1(3) split: if_splits)
      from entry_step [OF Suc.prems(1) this] obtain m where
        "entry_name m" "view s (sub_path p m) \<noteq> None" "r = m \<or> (\<exists>r'. r = m @ CHR ''/'' # r')" by blast
      moreover from this have "m \<in> set ms \<and> \<not> dot_name m" using ms(3) by blast
      moreover have "below (sub_path p m) (p @ CHR ''/'' # r)"
        using calculation(3) by (auto simp: below_def sub_path_def)
      ultimately show False using a by (auto simp: s1(3) split: if_splits)
    qed
    have "view s1 p = Some (Dir k)" using v by (auto simp: s1(3) not_below_parent)
    from rmdir_entry [OF s1(2) this empty] obtain s2 where
      s2: "rmdir_at ops p s1 = (True, s2)" "sound s2" "view s2 = (view s1)(p := None)" by blast
    have "view s2 = (\<lambda>q. if below p q then None else view s q)"
    proof
      fix q show "view s2 q = (if below p q then None else view s q)"
      proof (cases "below p q")
        case True
        then show ?thesis using empty by (auto simp: s2(3) below_def)
      next
        case False
        then have "\<not> below (sub_path p m) q" for m using below_trans [OF sub_path_below] by blast
        then show ?thesis using False by (auto simp: s2(3) s1(3))
      qed
    qed
    then show ?thesis using lstat_entry [OF Suc.prems(1) v] ms(1) s1(1) s2(1,2) by simp
  next
    case (Regular k b)
    then have "\<not> is_dir nd" by (simp add: is_dir_def)
    then show ?thesis
      using unlink_entry [OF Suc.prems(1) nd] lstat_entry [OF Suc.prems(1) nd] Regular
        plain_entry_alone [OF Suc.prems(1) nd] by (auto simp: fun_eq_iff)
  next
    case (Link t)
    then have "\<not> is_dir nd" by (simp add: is_dir_def)
    then show ?thesis
      using unlink_entry [OF Suc.prems(1) nd] lstat_entry [OF Suc.prems(1) nd] Link
        plain_entry_alone [OF Suc.prems(1) nd] by (auto simp: fun_eq_iff)
  next
    case (Special k)
    then have "\<not> is_dir nd" by (simp add: is_dir_def)
    then show ?thesis
      using unlink_entry [OF Suc.prems(1) nd] lstat_entry [OF Suc.prems(1) nd] Special
        plain_entry_alone [OF Suc.prems(1) nd] by (auto simp: fun_eq_iff)
  qed
qed

text \<open>One file copied to a name that is not there.\<close>

lemma copy_new_file:
  assumes "sound s" "view s src = Some (Regular k b)" "view s d = Some (Dir j)" "entry_name m" "view s (sub_path d m) = None"
  shows "\<exists>s1. copy_file ops False src (sub_path d m) s inp = (0, s1, inp) \<and> sound s1
     \<and> view s1 = (view s)(sub_path d m \<mapsto> Regular (k AND 0x1FF) b)"
proof -
  let ?p = "sub_path d m"
  have ne: "src \<noteq> ?p" using assms(2,5) by auto
  obtain s1 i where s1: "open_out ops ?p s = Some s1" "sound s1" "view s1 = (view s)(?p \<mapsto> Regular i [])"
    using create_entry [OF assms(1,3-5)] by blast
  have v1: "view s1 src = Some (Regular k b)" "view s1 ?p = Some (Regular i [])" using s1(3) ne assms(2) by auto
  obtain s2 where s2: "put ops ?p b s1 = (True, s2)" "sound s2" "view s2 = (view s1)(?p \<mapsto> Regular i b)"
    using put_entry [OF s1(2) v1(2)] by blast
  have v2: "view s2 src = Some (Regular k b)" "view s2 ?p = Some (Regular i b)" using s2(3) ne v1 by auto
  have st: "stat_of ops s2 src = Some (Regular k b)" using stat_entry [OF s2(2) v2(1)] by simp
  show ?thesis
    using read_entry [OF assms(1,2)] read_entry [OF s1(2) v1(1)] mode_entry [OF s2(2) v2(2), of "k AND 0x1FF"] s1 s2 st
    by (simp add: copy_file_def node_mode_def)
qed

lemma copy_listed:
  assumes apart: "\<not> below src dst" "\<not> below dst src"
    and step: "\<And>m t. sound t \<Longrightarrow> entry_name m \<Longrightarrow> view t (sub_path src m) \<noteq> None \<Longrightarrow> depth_fits (view t) src (Suc n) \<Longrightarrow>
      plain_tree (view t) src \<Longrightarrow> view t dst = Some (Dir j) \<Longrightarrow> (\<And>q. below (sub_path dst m) q \<Longrightarrow> view t q = None) \<Longrightarrow>
      \<exists>t1. copy_recursive ops False n (sub_path src m) (sub_path dst m) t inp = Some (0, t1, inp) \<and> sound t1
         \<and> copied_at umask (view t) (sub_path src m) (sub_path dst m) (view t1) \<and> (\<forall>q. \<not> below (sub_path dst m) q \<longrightarrow> view t1 q = view t q)"
  shows "sound t \<Longrightarrow> distinct ms \<Longrightarrow> depth_fits (view t) src (Suc n) \<Longrightarrow> plain_tree (view t) src \<Longrightarrow> view t dst = Some (Dir j) \<Longrightarrow>
    (\<And>m. m \<in> set ms \<Longrightarrow> \<not> dot_name m \<Longrightarrow> entry_name m \<and> view t (sub_path src m) \<noteq> None
       \<and> (\<forall>q. below (sub_path dst m) q \<longrightarrow> view t q = None)) \<Longrightarrow>
    \<exists>t1. copy_names ops False n src dst ms t inp = Some (0, t1, inp) \<and> sound t1
       \<and> (\<forall>m \<in> set ms. \<not> dot_name m \<longrightarrow> copied_at umask (view t) (sub_path src m) (sub_path dst m) (view t1))
       \<and> (\<forall>q. (\<forall>m \<in> set ms. \<not> dot_name m \<longrightarrow> \<not> below (sub_path dst m) q) \<longrightarrow> view t1 q = view t q)"
proof (induction ms arbitrary: t)
  case Nil
  then show ?case by simp
next
  case (Cons m ms)
  show ?case
  proof (cases "dot_name m")
    case True
    then show ?thesis using Cons.IH [OF Cons.prems(1) _ Cons.prems(3-5)] Cons.prems(2,6) by auto
  next
    case False
    then have m: "entry_name m" "view t (sub_path src m) \<noteq> None" "\<And>q. below (sub_path dst m) q \<Longrightarrow> view t q = None"
      using Cons.prems(6) by auto
    from step [OF Cons.prems(1) m(1,2) Cons.prems(3-5) m(3)] obtain t1 where
      t1: "copy_recursive ops False n (sub_path src m) (sub_path dst m) t inp = Some (0, t1, inp)" "sound t1"
        "copied_at umask (view t) (sub_path src m) (sub_path dst m) (view t1)" "\<And>q. \<not> below (sub_path dst m) q \<Longrightarrow> view t1 q = view t q" by blast
    have src_kept: "view t1 q = view t q" if "below src q" for q
      using apart_trees [OF apart that] below_trans [OF sub_path_below] t1(4) by blast
    have d: "depth_fits (view t1) src (Suc n)" using Cons.prems(3) src_kept by (simp add: depth_fits_def)
    have pl: "plain_tree (view t1) src" using Cons.prems(4) src_kept by (simp add: plain_tree_def)
    have dj: "view t1 dst = Some (Dir j)" using t1(4) [OF not_below_parent] Cons.prems(5) by simp
    have sib: "\<not> below (sub_path dst m) q" if "k \<in> set ms" "\<not> dot_name k" "below (sub_path dst k) q" for k q
      using siblings_apart [of m k dst q] m(1) Cons.prems(2,6) that by (auto simp: entry_name_def)
    have e: "entry_name k \<and> view t1 (sub_path src k) \<noteq> None \<and> (\<forall>q. below (sub_path dst k) q \<longrightarrow> view t1 q = None)"
      if "k \<in> set ms" "\<not> dot_name k" for k
      using Cons.prems(6) [of k] that sib src_kept [OF sub_path_below] t1(4) by auto
    have "distinct ms" using Cons.prems(2) by simp
    from Cons.IH [OF t1(2) this d pl dj e] obtain t2 where
      t2: "copy_names ops False n src dst ms t1 inp = Some (0, t2, inp)" "sound t2"
      "\<And>k. k \<in> set ms \<Longrightarrow> \<not> dot_name k \<Longrightarrow> copied_at umask (view t1) (sub_path src k) (sub_path dst k) (view t2)"
      "\<And>q. (\<forall>k \<in> set ms. \<not> dot_name k \<longrightarrow> \<not> below (sub_path dst k) q) \<Longrightarrow> view t2 q = view t1 q" by blast
    have "copied_at umask (view t) (sub_path src m) (sub_path dst m) (view t2)"
      using copied_at_cong [OF t1(3)] t2(4) sib by metis
    moreover have "copied_at umask (view t) (sub_path src k) (sub_path dst k) (view t2)" if "k \<in> set ms" "\<not> dot_name k" for k
      using copied_at_cong [OF t2(3) [OF that]] src_kept below_trans [OF sub_path_below] by blast
    moreover have "view t2 q = view t q" if "\<forall>k \<in> set (m # ms). \<not> dot_name k \<longrightarrow> \<not> below (sub_path dst k) q" for q
      using that False t1(4) t2(4) by simp
    ultimately have "copy_names ops False n src dst (m # ms) t inp = Some (0, t2, inp) \<and> sound t2
       \<and> (\<forall>k \<in> set (m # ms). \<not> dot_name k \<longrightarrow> copied_at umask (view t) (sub_path src k) (sub_path dst k) (view t2))
       \<and> (\<forall>q. (\<forall>k \<in> set (m # ms). \<not> dot_name k \<longrightarrow> \<not> below (sub_path dst k) q) \<longrightarrow> view t2 q = view t q)"
      using False t1(1) t2(1,2) by auto
    then show ?thesis by blast
  qed
qed

lemma copied_at_children:
  assumes s: "sound s" "view s src = Some (Dir k)"
    and ms: "{m \<in> set ms. \<not> dot_name m} = {m. entry_name m \<and> view s (sub_path src m) \<noteq> None}"
    and kids: "\<And>m. m \<in> set ms \<Longrightarrow> \<not> dot_name m \<Longrightarrow> copied_at umask (view s) (sub_path src m) (sub_path dst m) (view t)"
    and top: "view t dst = Some (copied_node umask (Dir k))"
    and rest: "\<And>q. below dst q \<Longrightarrow> q \<noteq> dst \<Longrightarrow> (\<forall>m \<in> set ms. \<not> dot_name m \<longrightarrow> \<not> below (sub_path dst m) q) \<Longrightarrow> view t q = None"
  shows "copied_at umask (view s) src dst (view t)"
  unfolding copied_at_def
proof (intro allI impI)
  fix x assume x: "x = [] \<or> hd x = CHR ''/''"
  show "view t (dst @ x) = map_option (copied_node umask) (view s (src @ x))"
  proof (cases x)
    case Nil
    then show ?thesis using s(2) top by simp
  next
    case (Cons c r)
    then have c: "x = CHR ''/'' # r" using x by simp
    show ?thesis
    proof (cases "\<exists>m \<in> set ms. \<not> dot_name m \<and> below (sub_path dst m) (dst @ x)")
      case True
      then obtain m y where m: "m \<in> set ms" "\<not> dot_name m" and y: "dst @ x = sub_path dst m @ y" "y = [] \<or> hd y = CHR ''/''"
        unfolding below_split by blast
      then have "src @ x = sub_path src m @ y" by (simp add: sub_path_def)
      then show ?thesis using copied_atD [OF kids [OF m] y(2)] y(1) by simp
    next
      case False
      then have "view t (dst @ x) = None" using rest [of "dst @ x"] c by auto
      moreover have "view s (src @ x) = None"
      proof (rule ccontr)
        assume "view s (src @ x) \<noteq> None"
        then obtain m where m: "entry_name m" "view s (sub_path src m) \<noteq> None" "r = m \<or> (\<exists>r'. r = m @ CHR ''/'' # r')"
          using entry_step [OF s(1)] c by blast
        then have "m \<in> set ms \<and> \<not> dot_name m" using ms by blast
        moreover have "below (sub_path dst m) (dst @ x)" using m(3) c by (auto simp: below_def sub_path_def)
        ultimately show False using False by blast
      qed
      ultimately show ?thesis by simp
    qed
  qed
qed

lemma copied_alone:
  assumes "sound s" "view s src = Some nd" "\<not> is_dir nd" "\<And>q. below dst q \<Longrightarrow> view s q = None"
  shows "copied_at umask (view s) src dst ((view s)(dst \<mapsto> copied_node umask nd))"
  unfolding copied_at_def
proof (intro allI impI)
  fix x :: cstring assume x: "x = [] \<or> hd x = CHR ''/''"
  show "((view s)(dst \<mapsto> copied_node umask nd)) (dst @ x) = map_option (copied_node umask) (view s (src @ x))"
    using assms(2) assms(4) [OF below_appended [OF x]] plain_entry_alone [OF assms(1-3) below_appended [OF x]] by simp
qed

lemma copy_tree:
  assumes "sound s" "view s src \<noteq> None" "depth_fits (view s) src n" "plain_tree (view s) src"
    "view s d = Some (Dir j)" "entry_name m" "\<And>q. below (sub_path d m) q \<Longrightarrow> view s q = None" "\<not> below src (sub_path d m)"
  shows "\<exists>s1. copy_recursive ops False n src (sub_path d m) s inp = Some (0, s1, inp) \<and> sound s1
     \<and> copied_at umask (view s) src (sub_path d m) (view s1) \<and> (\<forall>q. \<not> below (sub_path d m) q \<longrightarrow> view s1 q = view s q)"
  using assms
proof (induction n arbitrary: src d m j s)
  case 0
  then show ?case by (simp add: depth_fits_def)
next
  case (Suc n)
  let ?dst = "sub_path d m"
  have fresh: "view s ?dst = None" using Suc.prems(7) by simp
  obtain nd where nd: "view s src = Some nd" using Suc.prems(2) by auto
  have apart: "\<not> below ?dst src" using Suc.prems(7) nd by auto
  show ?case
  proof (cases nd)
    case (Dir k)
    have v: "view s src = Some (Dir k)" using nd Dir by simp
    obtain s1 where s1: "mkdir_at ops ?dst (k AND 0x1FF) s = (Made, s1)" "sound s1"
        "view s1 = (view s)(?dst \<mapsto> Dir ((k AND 0x1FF) AND NOT umask))"
      using mkdir_entry [OF Suc.prems(1,5,6) fresh] by blast
    have en: "ensure_dir ops ?dst k s = (True, s1)"
      using stat_missing [OF Suc.prems(1,5,6) fresh] s1(1) by (simp add: ensure_dir_def)
    have kept: "view s1 q = view s q" if "below src q" for q
      using apart_trees [OF Suc.prems(8) apart that] s1(3) by auto
    have v1: "view s1 src = Some (Dir k)" using kept v by simp
    have top: "view s1 ?dst = Some (Dir ((k AND 0x1FF) AND NOT umask))" using s1(3) by simp
    obtain ms where ms: "names_of ops s1 src = Some ms" "distinct ms"
        "{m \<in> set ms. \<not> dot_name m} = {m. entry_name m \<and> view s1 (sub_path src m) \<noteq> None}"
      using names_entry [OF s1(2) v1] by blast
    have fits: "depth_fits (view s1) src (Suc n)" using Suc.prems(3) kept by (simp add: depth_fits_def)
    have plain: "plain_tree (view s1) src" using Suc.prems(4) kept by (simp add: plain_tree_def)
    have listed: "entry_name a \<and> view s1 (sub_path src a) \<noteq> None \<and> (\<forall>q. below (sub_path ?dst a) q \<longrightarrow> view s1 q = None)"
      if "a \<in> set ms" "\<not> dot_name a" for a
    proof -
      have "view s1 q = None" if "below (sub_path ?dst a) q" for q
        using Suc.prems(7) below_trans [OF sub_path_below that] s1(3) not_below_parent that by auto
      then show ?thesis using ms(3) that by blast
    qed
    have "\<exists>s2. copy_names ops False n src ?dst ms s1 inp = Some (0, s2, inp) \<and> sound s2
       \<and> (\<forall>a \<in> set ms. \<not> dot_name a \<longrightarrow> copied_at umask (view s1) (sub_path src a) (sub_path ?dst a) (view s2))
       \<and> (\<forall>q. (\<forall>a \<in> set ms. \<not> dot_name a \<longrightarrow> \<not> below (sub_path ?dst a) q) \<longrightarrow> view s2 q = view s1 q)"
    proof (rule copy_listed [OF Suc.prems(8) apart _ s1(2) ms(2) fits plain top listed])
      fix a t
      assume a: "sound t" "entry_name a" "view t (sub_path src a) \<noteq> None" "depth_fits (view t) src (Suc n)" "plain_tree (view t) src"
        "view t ?dst = Some (Dir ((k AND 0x1FF) AND NOT umask))" "\<And>q. below (sub_path ?dst a) q \<Longrightarrow> view t q = None"
      have f: "depth_fits (view t) (sub_path src a) n" using depth_fits_sub [OF a(4,3)] a(2) by (simp add: entry_name_def)
      have p: "plain_tree (view t) (sub_path src a)" using a(5) below_trans [OF sub_path_below] unfolding plain_tree_def by blast
      have "\<not> below (sub_path src a) (sub_path ?dst a)"
        using below_comparable [OF sub_path_below [of ?dst a]] below_trans [OF sub_path_below] Suc.prems(8) apart by blast
      then show "\<exists>t1. copy_recursive ops False n (sub_path src a) (sub_path ?dst a) t inp = Some (0, t1, inp) \<and> sound t1
         \<and> copied_at umask (view t) (sub_path src a) (sub_path ?dst a) (view t1)
         \<and> (\<forall>q. \<not> below (sub_path ?dst a) q \<longrightarrow> view t1 q = view t q)"
        using Suc.IH [OF a(1,3) f p a(6,2,7)] by blast
    qed (assumption | blast)+
    then obtain s2 where s2: "copy_names ops False n src ?dst ms s1 inp = Some (0, s2, inp)" "sound s2"
       "\<And>a. a \<in> set ms \<Longrightarrow> \<not> dot_name a \<Longrightarrow> copied_at umask (view s1) (sub_path src a) (sub_path ?dst a) (view s2)"
       "\<And>q. (\<forall>a \<in> set ms. \<not> dot_name a \<longrightarrow> \<not> below (sub_path ?dst a) q) \<Longrightarrow> view s2 q = view s1 q" by blast
    have "view s2 ?dst = Some (copied_node umask (Dir k))"
      using s2(4) not_below_parent top by (simp add: copied_node_def)
    then have "copied_at umask (view s1) src ?dst (view s2)"
      using copied_at_children [OF s1(2) v1 ms(3) s2(3)] s2(4) s1(3) Suc.prems(7) by auto
    then have "copied_at umask (view s) src ?dst (view s2)" by (rule copied_at_cong) (simp_all add: kept)
    moreover have "view s2 q = view s q" if "\<not> below ?dst q" for q
    proof -
      have "\<not> below (sub_path ?dst a) q" for a using below_trans [OF sub_path_below] that by blast
      then show ?thesis using s2(4) [of q] that s1(3) by auto
    qed
    ultimately show ?thesis using lstat_entry [OF Suc.prems(1) v] en ms(1) s2(1,2) by auto
  next
    case (Regular k b)
    have v: "view s src = Some (Regular k b)" using nd Regular by simp
    obtain s1 where "copy_file ops False src ?dst s inp = (0, s1, inp)" "sound s1"
        "view s1 = (view s)(?dst \<mapsto> copied_node umask (Regular k b))"
      using copy_new_file [OF Suc.prems(1) v Suc.prems(5,6) fresh] by (auto simp: copied_node_def)
    then show ?thesis
      using copied_alone [OF Suc.prems(1) v _ Suc.prems(7)] lstat_entry [OF Suc.prems(1) v] by (auto simp: is_dir_def)
  next
    case (Link t)
    then show ?thesis using Suc.prems(4) nd by (auto simp: plain_tree_def)
  next
    case (Special k)
    then show ?thesis using Suc.prems(4) nd by (auto simp: plain_tree_def)
  qed
qed

text \<open>What \<open>find\<close> lists when nothing is filtered.\<close>

lemma find_listed:
  assumes s: "sound s"
    and step: "\<And>m. entry_name m \<Longrightarrow> view s (sub_path p m) \<noteq> None \<Longrightarrow>
      \<exists>out. do_find ops opts n (lev + 1) (sub_path p m) s = Some out \<and> distinct out
         \<and> set out = {q. below (sub_path p m) q \<and> view s q \<noteq> None}"
  shows "distinct ms \<Longrightarrow> (\<And>m. m \<in> set ms \<Longrightarrow> \<not> dot_name m \<Longrightarrow> entry_name m \<and> view s (sub_path p m) \<noteq> None) \<Longrightarrow>
    \<exists>out. find_names ops opts n lev p ms s = Some out \<and> distinct out
       \<and> set out = {q. (\<exists>m \<in> set ms. \<not> dot_name m \<and> below (sub_path p m) q) \<and> view s q \<noteq> None}"
proof (induction ms)
  case Nil
  then show ?case by simp
next
  case (Cons m ms)
  from Cons obtain rest where rest: "find_names ops opts n lev p ms s = Some rest" "distinct rest"
      "set rest = {q. (\<exists>m \<in> set ms. \<not> dot_name m \<and> below (sub_path p m) q) \<and> view s q \<noteq> None}" by auto
  show ?case
  proof (cases "dot_name m")
    case True
    then show ?thesis using rest by auto
  next
    case False
    then have m: "entry_name m" "view s (sub_path p m) \<noteq> None" using Cons.prems(2) by auto
    from step [OF m] obtain out where out: "do_find ops opts n (lev + 1) (sub_path p m) s = Some out" "distinct out"
        "set out = {q. below (sub_path p m) q \<and> view s q \<noteq> None}" by blast
    have "k = m" if "k \<in> set ms" "\<not> dot_name k" "below (sub_path p k) q" "below (sub_path p m) q" for k q
      using siblings_apart [of k m p q] that m(1) Cons.prems(2) by (auto simp: entry_name_def)
    then have "set out \<inter> set rest = {}" using out(3) rest(3) Cons.prems(1) by auto
    then have "distinct (out @ rest) \<and> set (out @ rest) = {q. (\<exists>k \<in> set (m # ms). \<not> dot_name k \<and> below (sub_path p k) q) \<and> view s q \<noteq> None}"
      using out(2,3) rest(2,3) False by auto
    then show ?thesis using False out(1) rest(1) by auto
  qed
qed

lemma find_tree:
  assumes s: "sound s" and "type_filter opts = None" "name_test opts = None" "max_level opts < 0"
  shows "view s p \<noteq> None \<Longrightarrow> depth_fits (view s) p n \<Longrightarrow>
    \<exists>out. do_find ops opts n lev p s = Some out \<and> distinct out \<and> set out = {q. below p q \<and> view s q \<noteq> None}"
proof (induction n arbitrary: p lev)
  case 0
  then show ?case by (simp add: depth_fits_def)
next
  case (Suc n)
  obtain nd where nd: "view s p = Some nd" using Suc.prems by auto
  have shows_it: "find_shows opts nd p" using assms(2,3) by (simp add: find_shows_def)
  show ?case
  proof (cases "is_dir nd")
    case False
    have "{q. below p q \<and> view s q \<noteq> None} = {p}"
      using plain_entry_alone [OF s nd False] nd by (auto, metis option.distinct(1))
    then show ?thesis using False lstat_entry [OF s nd] shows_it by simp
  next
    case True
    then obtain k where v: "view s p = Some (Dir k)" using nd by (auto simp: is_dir_def split: node.splits)
    obtain ms where ms: "names_of ops s p = Some ms" "distinct ms"
        "{m \<in> set ms. \<not> dot_name m} = {m. entry_name m \<and> view s (sub_path p m) \<noteq> None}"
      using names_entry [OF s v] by blast
    have "\<exists>out. find_names ops opts n lev p ms s = Some out \<and> distinct out
       \<and> set out = {q. (\<exists>m \<in> set ms. \<not> dot_name m \<and> below (sub_path p m) q) \<and> view s q \<noteq> None}"
    proof (rule find_listed [OF s _ ms(2)])
      fix m assume "entry_name m" "view s (sub_path p m) \<noteq> None"
      then show "\<exists>out. do_find ops opts n (lev + 1) (sub_path p m) s = Some out \<and> distinct out
         \<and> set out = {q. below (sub_path p m) q \<and> view s q \<noteq> None}"
        using Suc.IH depth_fits_sub [OF Suc.prems(2)] by (simp add: entry_name_def)
    next
      fix m assume "m \<in> set ms" "\<not> dot_name m"
      then show "entry_name m \<and> view s (sub_path p m) \<noteq> None" using ms(3) by blast
    qed
    then obtain out where out: "find_names ops opts n lev p ms s = Some out" "distinct out"
       "set out = {q. (\<exists>m \<in> set ms. \<not> dot_name m \<and> below (sub_path p m) q) \<and> view s q \<noteq> None}" by blast
    have "q \<in> set out" if q: "below p q" "q \<noteq> p" "view s q \<noteq> None" for q
    proof -
      obtain r where r: "q = p @ CHR ''/'' # r" using q by (auto simp: below_def)
      then obtain m where m: "entry_name m" "view s (sub_path p m) \<noteq> None" "r = m \<or> (\<exists>r'. r = m @ CHR ''/'' # r')"
        using entry_step [OF s] q(3) by blast
      then have "m \<in> set ms \<and> \<not> dot_name m" using ms(3) by blast
      moreover have "below (sub_path p m) q" using m(3) r by (auto simp: below_def sub_path_def)
      ultimately show ?thesis using out(3) q(3) by blast
    qed
    moreover have "p \<notin> set out" using out(3) not_below_parent by auto
    moreover have "below p q" if "below (sub_path p m) q" for m q using below_trans [OF sub_path_below that] .
    ultimately have "distinct (p # out) \<and> set (p # out) = {q. below p q \<and> view s q \<noteq> None}" using out(2,3) nd by auto
    then show ?thesis using lstat_entry [OF s v] nd v ms(1) out(1) assms(4) shows_it True by auto
  qed
qed

text \<open>The copy of an empty directory into itself finds its own target, at every level.\<close>

lemma copy_names_stuck:
  assumes "copy_recursive ops ask n (sub_path src m) (sub_path dst m) s inp = None" "\<not> dot_name m"
  shows "m \<in> set ms \<Longrightarrow> (\<And>k. k \<in> set ms \<Longrightarrow> \<not> dot_name k \<Longrightarrow> k = m) \<Longrightarrow> copy_names ops ask n src dst ms s inp = None"
proof (induction ms)
  case (Cons k ms)
  show ?case
  proof (cases "dot_name k")
    case True
    then have "m \<in> set ms" using Cons.prems(1) assms(2) by auto
    then show ?thesis using True Cons.IH Cons.prems(2) by simp
  next
    case False
    then have "k = m" using Cons.prems(2) by simp
    then show ?thesis using assms by simp
  qed
qed simp

lemma copy_into_itself:
  "sound s \<Longrightarrow> view s src = Some (Dir k) \<Longrightarrow> (\<And>r. view s (src @ CHR ''/'' # r) = None) \<Longrightarrow> entry_name m \<Longrightarrow>
   copy_recursive ops False n src (sub_path src m) s inp = None"
proof (induction n arbitrary: s src k)
  case (Suc n)
  let ?dst = "sub_path src m"
  have fresh: "view s ?dst = None" using Suc.prems(3) by (simp add: sub_path_def)
  obtain s1 where s1: "mkdir_at ops ?dst (k AND 0x1FF) s = (Made, s1)" "sound s1"
      "view s1 = (view s)(?dst \<mapsto> Dir ((k AND 0x1FF) AND NOT umask))"
    using mkdir_entry [OF Suc.prems(1,2,4) fresh] by blast
  have v1: "view s1 src = Some (Dir k)" "view s1 ?dst = Some (Dir ((k AND 0x1FF) AND NOT umask))"
    using s1(3) Suc.prems(2) by (auto simp: sub_path_def)
  have e: "view s1 (?dst @ CHR ''/'' # r) = None" for r
    using s1(3) Suc.prems(3) [of "m @ CHR ''/'' # r"] by (auto simp: sub_path_def)
  obtain ms where ms: "names_of ops s1 src = Some ms"
      "{m \<in> set ms. \<not> dot_name m} = {m. entry_name m \<and> view s1 (sub_path src m) \<noteq> None}"
    using names_entry [OF s1(2) v1(1)] by blast
  have only: "x = m" if "x \<in> set ms" "\<not> dot_name x" for x
  proof (rule ccontr)
    assume "x \<noteq> m"
    then have "view s1 (sub_path src x) = None" using s1(3) Suc.prems(3) [of x] by (simp add: sub_path_def)
    then show False using ms(2) that by blast
  qed
  have "m \<in> set ms" "\<not> dot_name m" using ms(2) v1(2) Suc.prems(4) by auto
  then have "copy_names ops False n src ?dst ms s1 inp = None"
    using copy_names_stuck [OF Suc.IH [OF s1(2) v1(2) e Suc.prems(4)]] only by blast
  then show ?case
    using lstat_entry [OF Suc.prems(1,2)] stat_missing [OF Suc.prems(1,2,4) fresh] s1(1) ms(1) by (simp add: ensure_dir_def)
qed simp

end

section \<open>A file system of paths and nodes\<close>

type_synonym store = "(cstring \<times> node) list"

definition entry_in :: "cstring \<Rightarrow> cstring \<Rightarrow> cstring option" where
  "entry_in p q =
     (if take (Suc (length p)) q = p @ ''/'' \<and> entry_name (drop (Suc (length p)) q) then Some (drop (Suc (length p)) q) else None)"

definition forget :: "cstring \<Rightarrow> store \<Rightarrow> store" where
  "forget p s = filter (\<lambda>(q, _). q \<noteq> p) s"

definition in_dir :: "store \<Rightarrow> cstring \<Rightarrow> bool" where
  "in_dir s p \<longleftrightarrow>
     (case parent_of p of None \<Rightarrow> True
      | Some d \<Rightarrow> entry_name (base_name p) \<and> (case map_of s d of Some (Dir _) \<Rightarrow> True | _ \<Rightarrow> False))"

definition store_ok :: "store \<Rightarrow> bool" where
  "store_ok s \<longleftrightarrow> distinct (map fst s) \<and> list_all (\<lambda>(p, _). in_dir s p) s"

definition store_stat :: "store \<Rightarrow> cstring \<Rightarrow> node option" where
  "store_stat s p = (case map_of s p of Some (Link t) \<Rightarrow> map_of s t | r \<Rightarrow> r)"

definition store_names :: "store \<Rightarrow> cstring \<Rightarrow> cstring list option" where
  "store_names s p =
     (case map_of s p of
        Some (Dir _) \<Rightarrow> Some (''.'' # ''..'' # List.map_filter (\<lambda>(q, _). entry_in p q) s)
      | _ \<Rightarrow> None)"

definition store_open :: "cstring \<Rightarrow> store \<Rightarrow> store option" where
  "store_open p s =
     (case map_of s p of
        Some (Dir _) \<Rightarrow> None
      | Some (Link _) \<Rightarrow> None
      | Some (Special _) \<Rightarrow> None
      | Some (Regular k _) \<Rightarrow> Some ((p, Regular k []) # forget p s)
      | None \<Rightarrow> if in_dir s p then Some ((p, Regular 0x1A4 []) # s) else None)"

definition store_put :: "cstring \<Rightarrow> char list \<Rightarrow> store \<Rightarrow> bool \<times> store" where
  "store_put p b s =
     (case map_of s p of
        Some (Regular k c) \<Rightarrow> (True, (p, Regular k (c @ b)) # forget p s)
      | _ \<Rightarrow> (False, s))"

definition store_mode :: "cstring \<Rightarrow> fmode \<Rightarrow> store \<Rightarrow> store" where
  "store_mode p m s =
     (case map_of s p of
        Some (Regular _ b) \<Rightarrow> (p, Regular m b) # forget p s
      | Some (Dir _) \<Rightarrow> (p, Dir m) # forget p s
      | _ \<Rightarrow> s)"

definition store_unlink :: "cstring \<Rightarrow> store \<Rightarrow> bool \<times> store" where
  "store_unlink p s =
     (case map_of s p of None \<Rightarrow> (False, s) | Some nd \<Rightarrow> if is_dir nd then (False, s) else (True, forget p s))"

definition store_rmdir :: "cstring \<Rightarrow> store \<Rightarrow> bool \<times> store" where
  "store_rmdir p s =
     (case store_names s p of Some [_, _] \<Rightarrow> (True, forget p s) | _ \<Rightarrow> (False, s))"

definition store_mkdir :: "cstring \<Rightarrow> fmode \<Rightarrow> store \<Rightarrow> mkdir_outcome \<times> store" where
  "store_mkdir p m s =
     (if map_of s p \<noteq> None then (Exists, s)
      else if in_dir s p then (Made, (p, Dir (m AND NOT 0x12)) # s) else (Mkdir_Failed, s))"

definition store_rename :: "cstring \<Rightarrow> cstring \<Rightarrow> store \<Rightarrow> rename_result \<times> store" where
  "store_rename p q s =
     (case map_of s p of
        Some (Regular k b) \<Rightarrow>
          (case map_of s q of
             Some (Dir _) \<Rightarrow> (Rename_Failed, s)
           | _ \<Rightarrow> if in_dir s q then (Renamed, (q, Regular k b) # forget q (forget p s)) else (Rename_Failed, s))
      | _ \<Rightarrow> (Rename_Failed, s))"

definition store_ops :: "store fs_ops" where
  "store_ops =
     \<lparr>lstat_of = map_of, stat_of = store_stat, names_of = store_names,
      opens_in = (\<lambda>s p. case map_of s p of Some (Regular _ _) \<Rightarrow> True | _ \<Rightarrow> False),
      read_of = (\<lambda>s p. case map_of s p of Some (Regular _ b) \<Rightarrow> (b, False) | _ \<Rightarrow> ([], True)),
      open_out = store_open, put = store_put, set_mode = store_mode, unlink_at = store_unlink, rmdir_at = store_rmdir,
      mkdir_at = store_mkdir, rename_at = store_rename, blocks_of = (\<lambda>s p. 8)\<rparr>"

lemma map_of_forget: "map_of (forget p s) = (map_of s)(p := None)"
  by (induction s) (auto simp: forget_def fun_eq_iff)

lemma distinct_forget: "distinct (map fst s) \<Longrightarrow> distinct (map fst (forget p s)) \<and> p \<notin> fst ` set (forget p s)"
  by (induction s) (auto simp: forget_def)

lemma rev_sub_path: "rev (sub_path d m) = rev m @ CHR ''/'' # rev d"
  by (simp add: sub_path_def)

lemma scan_name: "CHR ''/'' \<notin> set m \<Longrightarrow> dropWhile (\<lambda>c. c \<noteq> CHR ''/'') (m @ CHR ''/'' # x) = CHR ''/'' # x
    \<and> takeWhile (\<lambda>c. c \<noteq> CHR ''/'') (m @ CHR ''/'' # x) = m"
  by (induction m) auto

lemma parent_of_sub [simp]: "CHR ''/'' \<notin> set m \<Longrightarrow> parent_of (sub_path d m) = Some d"
  unfolding parent_of_def rev_sub_path using scan_name [of "rev m" "rev d"] by (simp add: sub_path_def)

lemma base_name_sub [simp]: "CHR ''/'' \<notin> set m \<Longrightarrow> base_name (sub_path d m) = m"
  unfolding base_name_def rev_sub_path using scan_name [of "rev m" "rev d"] by simp

lemma path_split: "parent_of q = Some d \<Longrightarrow> q = sub_path d (base_name q)"
proof -
  assume "parent_of q = Some d"
  then have s: "CHR ''/'' \<in> set q" and d: "d = rev (tl (dropWhile (\<lambda>c. c \<noteq> CHR ''/'') (rev q)))"
    by (auto simp: parent_of_def split: if_splits)
  from s obtain a m where q: "q = a @ CHR ''/'' # m" "CHR ''/'' \<notin> set m" by (metis split_list_last)
  then have "q = sub_path a m" by (simp add: sub_path_def)
  then show ?thesis using \<open>parent_of q = Some d\<close> q(2) by simp
qed

text \<open>What keeps a store sound: its entries and the kind of the directories stay, or only leaves go.\<close>

lemma in_dir_iff: "in_dir s p \<longleftrightarrow>
    (\<forall>d. parent_of p = Some d \<longrightarrow> entry_name (base_name p) \<and> (\<exists>k. map_of s d = Some (Dir k)))"
  by (auto simp: in_dir_def split: option.splits node.splits)

lemma in_dir_cong:
  assumes "in_dir s p" "\<And>d k. parent_of p = Some d \<Longrightarrow> map_of s d = Some (Dir k) \<Longrightarrow> \<exists>j. map_of t d = Some (Dir j)"
  shows "in_dir t p"
  using assms unfolding in_dir_iff by blast

lemma store_ok_dir: "store_ok s \<Longrightarrow> map_of s p = Some nd \<Longrightarrow> in_dir s p"
  using map_of_SomeD by (fastforce simp: store_ok_def list_all_iff)

lemma store_ok_set:
  assumes "store_ok s" "in_dir s p" "\<And>k. map_of s p = Some (Dir k) \<Longrightarrow> is_dir nd"
  shows "store_ok ((p, nd) # forget p s)"
proof -
  have "in_dir ((p, nd) # forget p s) q" if "in_dir s q" for q
    using that by (rule in_dir_cong) (use assms(3) in \<open>auto simp: map_of_forget is_dir_def split: node.splits\<close>)
  then show ?thesis
    using assms(1,2) distinct_forget [of s p] by (auto simp: store_ok_def list_all_iff forget_def)
qed

lemma forget_missing: "map_of s p = None \<Longrightarrow> forget p s = s"
  by (induction s) (auto simp: forget_def split: if_splits)

lemma store_ok_new: "store_ok s \<Longrightarrow> in_dir s p \<Longrightarrow> map_of s p = None \<Longrightarrow> store_ok ((p, nd) # s)"
  using store_ok_set [of s p nd] by (simp add: forget_missing)

lemma store_ok_forget:
  assumes "store_ok s" "\<And>m. entry_name m \<Longrightarrow> map_of s (sub_path p m) = None"
  shows "store_ok (forget p s)"
proof -
  have "in_dir (forget p s) q" if q: "in_dir s q" "q \<in> fst ` set s" for q
    using q(1)
  proof (rule in_dir_cong)
    fix d k assume d: "parent_of q = Some d" "map_of s d = Some (Dir k)"
    have "entry_name (base_name q)" using q(1) d(1) by (simp add: in_dir_def)
    then have "d \<noteq> p" using assms(2) [of "base_name q"] path_split [OF d(1)] q(2) by (metis map_of_eq_None_iff)
    then show "\<exists>j. map_of (forget p s) d = Some (Dir j)" using d(2) by (simp add: map_of_forget)
  qed
  then show ?thesis
    using assms(1) distinct_forget [of s p] by (auto simp: store_ok_def list_all_iff forget_def) (force)
qed

lemma entry_in_iff: "entry_in p q = Some m \<longleftrightarrow> q = sub_path p m \<and> entry_name m"
proof -
  have "take (Suc (length p)) q = p @ ''/'' \<longleftrightarrow> (\<exists>r. q = p @ CHR ''/'' # r)"
    by (metis append_Cons append_Nil append_assoc append_eq_conv_conj append_take_drop_id length_append_singleton)
  then show ?thesis by (auto simp: entry_in_def sub_path_def)
qed

lemma sub_path_inj [simp]: "sub_path p m = sub_path p k \<longleftrightarrow> m = k"
  by (simp add: sub_path_def)

lemma entry_in_sub [simp]: "entry_name m \<Longrightarrow> entry_in p (sub_path p m) = Some m"
  by (simp add: entry_in_iff)

lemma names_set: "set (List.map_filter (\<lambda>(q, _). entry_in p q) s) = {m. entry_name m \<and> map_of s (sub_path p m) \<noteq> None}"
proof (induction s)
  case Nil
  then show ?case by (simp add: List.map_filter_simps)
next
  case (Cons a s)
  then show ?case by (cases a) (auto simp: List.map_filter_simps entry_in_iff split: option.splits)
qed

lemma names_distinct: "distinct (map fst s) \<Longrightarrow> distinct (List.map_filter (\<lambda>(q, _). entry_in p q) s)"
proof (induction s)
  case Nil
  then show ?case by (simp add: List.map_filter_simps)
next
  case (Cons a s)
  obtain q nd where a: "a = (q, nd)" by (cases a)
  have "m \<notin> set (List.map_filter (\<lambda>(q, _). entry_in p q) s)" if "entry_in p q = Some m" for m
    using that Cons.prems by (simp add: names_set a entry_in_iff map_of_eq_None_iff)
  then show ?case using Cons by (auto simp: a List.map_filter_simps split: option.splits)
qed

lemma store_lookup [simp]:
  "lstat_of store_ops = map_of" "stat_of store_ops = store_stat" "names_of store_ops = store_names"
  "open_out store_ops = store_open" "put store_ops = store_put" "set_mode store_ops = store_mode"
  "unlink_at store_ops = store_unlink" "rmdir_at store_ops = store_rmdir" "mkdir_at store_ops = store_mkdir"
  by (simp_all add: store_ops_def)

lemma store_names_dir: "map_of s p = Some (Dir k) \<Longrightarrow>
    store_names s p = Some (''.'' # ''..'' # List.map_filter (\<lambda>(q, _). entry_in p q) s)"
  by (simp add: store_names_def)

lemma in_dir_sub: "entry_name m \<Longrightarrow> map_of s d = Some (Dir k) \<Longrightarrow> in_dir s (sub_path d m)"
  by (simp add: in_dir_def entry_name_def)

lemma store_names_leaf:
  assumes "map_of s p = Some (Dir k)" "\<And>r. map_of s (p @ CHR ''/'' # r) = None"
  shows "store_names s p = Some [''.'', ''..'']"
proof -
  have "set (List.map_filter (\<lambda>(q, _). entry_in p q) s) = {}" unfolding names_set using assms(2) by (auto simp: sub_path_def)
  then show ?thesis using store_names_dir [OF assms(1)] by simp
qed

interpretation store_fs: tree_fs store_ops map_of store_ok "0x12"
proof (unfold_locales, goal_cases)
  case (1 s m d)
  then obtain nd where "map_of s (sub_path d m) = Some nd" by auto
  then show ?case using store_ok_dir [OF 1(1)] 1(2) by (fastforce simp: in_dir_iff)
next
  case (5 s p k)
  have "distinct (''.'' # ''..'' # List.map_filter (\<lambda>(q, _). entry_in p q) s)"
    using names_distinct [of s p] names_set [of p s] 5(1) by (auto simp: store_ok_def entry_name_def dot_name_def)
  moreover have "{m \<in> set (''.'' # ''..'' # List.map_filter (\<lambda>(q, _). entry_in p q) s). \<not> dot_name m}
      = {m. entry_name m \<and> map_of s (sub_path p m) \<noteq> None}"
    using names_set [of p s] by (auto simp: entry_name_def dot_name_def)
  ultimately show ?case using store_names_dir [OF 5(2)] by auto
next
  case (7 s d k m)
  then show ?case using store_ok_new [OF 7(1) in_dir_sub] in_dir_sub by (auto simp: store_open_def)
next
  case (8 s p k b)
  then show ?case using store_ok_set [OF 8(1) store_ok_dir [OF 8]] by (auto simp: store_put_def map_of_forget fun_eq_iff)
next
  case (9 s p k b k')
  then show ?case using store_ok_set [OF 9(1) store_ok_dir [OF 9]] by (auto simp: store_mode_def map_of_forget fun_eq_iff)
next
  case (10 s p nd)
  have "map_of s (sub_path p m) = None" if "entry_name m" for m
  proof (rule ccontr)
    assume "map_of s (sub_path p m) \<noteq> None"
    then have "\<exists>k. map_of s p = Some (Dir k)"
      using store_ok_dir [OF 10(1), of "sub_path p m"] that by (auto simp: in_dir_iff entry_name_def)
    then show False using 10(2,3) by (auto simp: is_dir_def)
  qed
  then show ?case using 10 store_ok_forget by (auto simp: store_unlink_def map_of_forget)
next
  case (11 s p k)
  then show ?case using store_names_leaf [OF 11(2,3)] store_ok_forget [OF 11(1)] by (auto simp: store_rmdir_def map_of_forget sub_path_def)
next
  case (12 s d k m j)
  then show ?case using store_ok_new [OF 12(1) in_dir_sub] in_dir_sub by (auto simp: store_mkdir_def)
qed (auto simp: store_stat_def store_ops_def split: node.splits)

section \<open>Properties\<close>

text \<open>C35: With the laws of a file system where every call is permitted, rm -r on an entry returns 0,
  removes that entry and everything below it, and leaves every other entry as it was.\<close>

theorem rm_removes_tree:
  assumes "tree_fs ops view sound umask" "sound s" "view s p \<noteq> None" "depth_fits (view s) p n"
  shows "\<exists>s1. rm_run ops True False force n [p] s inp = Some (0, s1, inp) \<and> sound s1
     \<and> (\<forall>q. view s1 q = (if below p q then None else view s q))"
  using tree_fs.remove_tree [OF assms, of force inp] by auto

definition sample_store :: store where
  "sample_store =
     [(''a'', Dir 0x1ED), (''a/x'', Regular 0x1A4 ''one''), (''a/d'', Dir 0x1ED), (''a/d/y'', Regular 0x180 ''two''),
      (''b'', Regular 0x1A4 ''three'')]"

lemma sample_store_ok: "store_ok sample_store"
  by (simp add: sample_store_def store_ok_def in_dir_def parent_of_def base_name_def entry_name_def dot_name_def)

lemma sample_fits: "depth_fits (map_of sample_store) ''a'' 3"
  by (auto simp: depth_fits_def sample_store_def split: if_splits)

lemma sample_plain: "plain_tree (map_of sample_store) ''a''"
  by (auto simp: plain_tree_def sample_store_def split: if_splits)

theorem rm_removes_tree_witness:
  "\<exists>s1. rm_run store_ops True False False 3 [''a''] sample_store ''y'' = Some (0, s1, ''y'') \<and> store_ok s1
     \<and> (\<forall>q. map_of s1 q = (if below ''a'' q then None else map_of sample_store q))"
  by (rule rm_removes_tree [OF store_fs.tree_fs_axioms sample_store_ok _ sample_fits]) (simp add: sample_store_def)

text \<open>C36: On the same laws cp -r of a tree of directories and plain files to a free name outside it
  returns 0 and makes there the same tree, modes cut to the permission bits (and the umask for
  directories), and changes nothing else.\<close>

theorem cp_copies_tree:
  assumes "tree_fs ops view sound umask" "sound s" "view s src \<noteq> None" "depth_fits (view s) src n" "plain_tree (view s) src"
    "view s d = Some (Dir j)" "entry_name m" "\<forall>q. below (sub_path d m) q \<longrightarrow> view s q = None" "\<not> below src (sub_path d m)"
  shows "\<exists>s1. cp_run ops True False n [src, sub_path d m] s inp = Some (0, s1, inp)
     \<and> copied_at umask (view s) src (sub_path d m) (view s1) \<and> (\<forall>q. \<not> below (sub_path d m) q \<longrightarrow> view s1 q = view s q)"
proof -
  obtain nd where nd: "view s src = Some nd" using assms(3) by auto
  have l: "lstat_of ops s src = Some nd" using tree_fs.lstat_entry [OF assms(1,2) nd] .
  obtain s1 where s1: "copy_recursive ops False n src (sub_path d m) s inp = Some (0, s1, inp)"
      "copied_at umask (view s) src (sub_path d m) (view s1)" "\<forall>q. \<not> below (sub_path d m) q \<longrightarrow> view s1 q = view s q"
    using tree_fs.copy_tree [OF assms(1-7) _ assms(9), of inp] assms(8) by blast
  have "view s (sub_path d m) = None" using assms(8) by simp
  then have "final_target ops s src (sub_path d m) = sub_path d m"
    using tree_fs.stat_missing [OF assms(1,2,6,7)] by (simp add: final_target_def dir_at_def)
  moreover have "copy_file ops False src (sub_path d m) s inp = (0, s1, inp)" if "\<not> is_dir nd"
    using s1(1) l that by (cases n; cases nd) (auto simp: is_dir_def)
  ultimately have "copy_entry ops True False n src (sub_path d m) s inp = Some (0, s1, inp)"
    using l s1(1) by (cases "is_dir nd") (simp_all add: copy_entry_def)
  then show ?thesis using s1(2,3) by (auto simp: cp_run_def)
qed

theorem cp_copies_tree_witness:
  "\<exists>s1. cp_run store_ops True False 3 [''a/d'', sub_path ''a'' ''e''] sample_store [] = Some (0, s1, [])
     \<and> copied_at 0x12 (map_of sample_store) ''a/d'' (sub_path ''a'' ''e'') (map_of s1)
     \<and> (\<forall>q. \<not> below (sub_path ''a'' ''e'') q \<longrightarrow> map_of s1 q = map_of sample_store q)"
proof (rule cp_copies_tree [OF store_fs.tree_fs_axioms sample_store_ok])
  show "depth_fits (map_of sample_store) ''a/d'' 3"
    by (auto simp: depth_fits_def sample_store_def split: if_splits)
  show "plain_tree (map_of sample_store) ''a/d''" by (auto simp: plain_tree_def sample_store_def split: if_splits)
  show "map_of sample_store ''a'' = Some (Dir 0x1ED)" by (simp add: sample_store_def)
  show "\<forall>q. below (sub_path ''a'' ''e'') q \<longrightarrow> map_of sample_store q = None"
    by (auto simp: below_def sub_path_def sample_store_def)
qed (simp_all add: sample_store_def entry_name_def dot_name_def below_def sub_path_def)

theorem find_lists_tree:
  assumes "tree_fs ops view sound umask" "sound s" "view s p \<noteq> None" "depth_fits (view s) p n"
    "name_test opts = None" "max_level opts < 0"
  shows "\<exists>out. find_run ops opts None n (Some p) s = Some (0, concat (map (\<lambda>q. q @ [NL]) out))
     \<and> distinct out \<and> set out = {q. below p q \<and> view s q \<noteq> None}"
proof -
  let ?o = "opts\<lparr>type_filter := None\<rparr>"
  have o: "type_filter ?o = None" "name_test ?o = None" "max_level ?o < 0" using assms(5,6) by simp_all
  from tree_fs.find_tree [OF assms(1,2) o assms(3,4), of 0] show ?thesis by (auto simp: find_run_def)
qed

theorem find_lists_tree_witness:
  "\<exists>out. find_run store_ops \<lparr>name_test = None, type_filter = None, max_level = - 1\<rparr> None 3 (Some ''a'') sample_store
       = Some (0, concat (map (\<lambda>q. q @ [NL]) out))
     \<and> distinct out \<and> set out = {q. below ''a'' q \<and> map_of sample_store q \<noteq> None}"
  by (rule find_lists_tree [OF store_fs.tree_fs_axioms sample_store_ok _ sample_fits]) (simp_all add: sample_store_def)

text \<open>The total of \<open>du\<close>, whatever the calls answer, is that of the entries \<open>find\<close> lists.\<close>

definition list_all_opts :: find_opts where
  "list_all_opts = \<lparr>name_test = None, type_filter = None, max_level = - 1\<rparr>"

lemma list_all_shows [simp]: "find_shows list_all_opts nd p" "\<not> 0 \<le> max_level list_all_opts"
  by (simp_all add: find_shows_def list_all_opts_def)

lemma du_names_sum:
  assumes "\<And>p lev dep out. do_find ops list_all_opts n lev p s = Some out \<Longrightarrow>
     \<exists>t. du_walk ut ops opts n dep p s = Some (sum_list (map (\<lambda>q. blocks_of ops s q * 512) out), t)"
  shows "find_names ops list_all_opts n lev p ms s = Some out \<Longrightarrow>
     \<exists>t. du_names ut ops opts n dep p ms s = Some (sum_list (map (\<lambda>q. blocks_of ops s q * 512) out), t)"
proof (induction ms arbitrary: out)
  case (Cons m ms)
  show ?case
  proof (cases "dot_name m")
    case True
    then show ?thesis using Cons by simp
  next
    case False
    then obtain a rest where a: "do_find ops list_all_opts n (lev + 1) (sub_path p m) s = Some a"
        "find_names ops list_all_opts n lev p ms s = Some rest" "out = a @ rest"
      using Cons.prems by (auto split: option.splits)
    then show ?thesis using False assms [OF a(1), of "dep + 1"] Cons.IH [OF a(2)] by auto
  qed
qed simp

lemma du_walk_sum:
  "do_find ops list_all_opts n lev p s = Some out \<Longrightarrow>
     \<exists>t. du_walk ut ops opts n dep p s = Some (sum_list (map (\<lambda>q. blocks_of ops s q * 512) out), t)"
proof (induction n arbitrary: lev p dep out)
  case (Suc n)
  show ?case
  proof (cases "lstat_of ops s p")
    case None
    then show ?thesis using Suc.prems by simp
  next
    case (Some nd)
    show ?thesis
    proof (cases "is_dir nd \<and> names_of ops s p \<noteq> None")
      case True
      then obtain ms where ms: "names_of ops s p = Some ms" by auto
      then obtain below where b: "find_names ops list_all_opts n lev p ms s = Some below" "out = p # below"
        using Suc.prems Some True by auto
      have "\<exists>t. du_names ut ops opts n dep p ms s = Some (sum_list (map (\<lambda>q. blocks_of ops s q * 512) below), t)"
        by (rule du_names_sum [OF _ b(1)]) (rule Suc.IH)
      then show ?thesis using Some True ms b(2) by (auto simp: Let_def)
    next
      case False
      then show ?thesis using Suc.prems Some by (auto simp: Let_def split: if_splits)
    qed
  qed
qed simp

theorem du_counts_what_find_lists:
  assumes "do_find ops list_all_opts n 0 p s = Some out"
  shows "\<exists>text. du_walk ut ops opts n 0 p s = Some (sum_list (map (\<lambda>q. blocks_of ops s q * 512) out), text)"
  using du_walk_sum [OF assms] .

theorem du_counts_what_find_lists_witness:
  "\<exists>text. du_walk show_nat store_ops \<lparr>human = False, all_files = True, max_depth = 9\<rparr> 3 0 ''a'' sample_store =
     Some (sum_list (map (\<lambda>q. blocks_of store_ops sample_store q * 512) [''a'', ''a/x'', ''a/d'', ''a/d/y'']), text)"
  by (rule du_counts_what_find_lists)
     (simp add: sample_store_def store_ops_def numeral_3_eq_3 store_names_def entry_in_def entry_name_def dot_name_def
        sub_path_def is_dir_def)

theorem mv_across_devices:
  assumes "tree_fs ops view sound umask" "sound s" "view s src = Some (Regular k b)" "view s d = Some (Dir j)" "entry_name m"
    "view s (sub_path d m) = None" "rename_at ops src (sub_path d m) s = (Cross_Device, s)"
  shows "\<exists>s1. mv_run ops False [src, sub_path d m] s inp = (0, s1, inp)
     \<and> view s1 = (view s)(sub_path d m \<mapsto> Regular (k AND 0x1FF) b, src := None)"
proof -
  let ?p = "sub_path d m"
  have ne: "src \<noteq> ?p" using assms(3,6) by auto
  have l: "lstat_of ops s src = Some (Regular k b)" using tree_fs.lstat_entry [OF assms(1-3)] .
  have f: "final_target ops s src ?p = ?p"
    using tree_fs.stat_missing [OF assms(1,2,4-6)] by (simp add: final_target_def dir_at_def)
  obtain s1 where s1: "copy_file ops False src ?p s [] = (0, s1, [])" "sound s1"
      "view s1 = (view s)(?p \<mapsto> Regular (k AND 0x1FF) b)"
    using tree_fs.copy_new_file [OF assms(1-6), of "[]"] by blast
  have "view s1 src = Some (Regular k b)" using s1(3) ne assms(3) by simp
  then obtain s2 where s2: "unlink_at ops src s1 = (True, s2)" "view s2 = (view s1)(src := None)"
    using tree_fs.unlink_entry [OF assms(1) s1(2), of src "Regular k b"] by (auto simp: is_dir_def)
  have "move_entry ops False src ?p s inp = (0, s2, inp)"
    using f assms(7) l s1(1) s2(1) by (simp add: move_entry_def mv_copy_file_def is_dir_def)
  then show ?thesis using s1(3) s2(2) by (simp add: mv_run_def)
qed

text \<open>The file system with the target on another device.\<close>

definition two_devices :: "store fs_ops" where
  "two_devices = store_ops\<lparr>rename_at := (\<lambda>p q s. (Cross_Device, s))\<rparr>"

lemma two_devices_laws: "tree_fs two_devices map_of store_ok 0x12"
  using store_fs.tree_fs_axioms by (simp add: two_devices_def tree_fs_def)

theorem mv_across_devices_witness:
  "\<exists>s1. mv_run two_devices False [''b'', sub_path ''a'' ''b''] sample_store [] = (0, s1, [])
     \<and> map_of s1 = (map_of sample_store)(sub_path ''a'' ''b'' \<mapsto> Regular (0x1A4 AND 0x1FF) ''three'', ''b'' := None)"
  by (rule mv_across_devices [OF two_devices_laws sample_store_ok])
     (simp_all add: sample_store_def entry_name_def dot_name_def sub_path_def two_devices_def)

text \<open>What goes wrong: a directory copied into itself, a file copied onto itself.\<close>

theorem cp_into_itself_never_ends:
  assumes "tree_fs ops view sound umask" "sound s" "view s src = Some (Dir k)" "\<forall>r. view s (src @ CHR ''/'' # r) = None" "entry_name m"
  shows "cp_run ops True False n [src, sub_path src m] s inp = None"
proof -
  have "view s (sub_path src m) = None" using assms(4) by (simp add: sub_path_def)
  then have "final_target ops s src (sub_path src m) = sub_path src m"
    using tree_fs.stat_missing [OF assms(1-3,5)] by (simp add: final_target_def dir_at_def)
  then show ?thesis
    using tree_fs.lstat_entry [OF assms(1-3)] tree_fs.copy_into_itself [OF assms(1-3) _ assms(5)] assms(4)
    by (simp add: cp_run_def copy_entry_def is_dir_def)
qed

theorem cp_into_itself_never_ends_witness:
  "cp_run store_ops True False 1000 [''e'', sub_path ''e'' ''f''] [(''e'', Dir 0x1ED)] [] = None"
  by (rule cp_into_itself_never_ends [OF store_fs.tree_fs_axioms])
     (simp_all add: store_ok_def in_dir_def parent_of_def entry_name_def dot_name_def)

theorem cp_onto_itself_empties:
  assumes "map_of s p = Some (Regular k b)"
  shows "\<exists>s1. cp_run store_ops rec False n [p, p] s inp = Some (0, s1, inp) \<and> map_of s1 p = Some (Regular (k AND 0x1FF) [])"
  using assms
  by (simp add: cp_run_def copy_entry_def final_target_def dir_at_def store_stat_def is_dir_def copy_file_def store_ops_def
      store_open_def store_put_def store_mode_def node_mode_def)

theorem cp_onto_itself_empties_witness:
  "\<exists>s1. cp_run store_ops False False 1 [''b'', ''b''] sample_store [] = Some (0, s1, [])
     \<and> map_of s1 ''b'' = Some (Regular (0x1A4 AND 0x1FF) [])"
  by (rule cp_onto_itself_empties) (simp add: sample_store_def)

lemma mkdir_parents_root: "mkdir_at ops [] 0x1ED s = (Mkdir_Failed, s) \<Longrightarrow> mkdir_run ops True [''/''] s = (1, s)"
  by (simp add: mkdir_parents_def parent_paths_def)

lemma long_answer_spills: "answer_yes (''certainly not'' @ [NL]) = (False, ''ly not'' @ [NL])"
  by (simp add: answer_yes_def fgets1_def line_len_def Let_def NL_def c_str_def)

end
