(* ===== verification/Old_Repl.thy ===== *)
theory Old_Repl
  imports Shell_Ast Registry
begin

text \<open>
  The front end that \<^verbatim>\<open>aishell_main.c\<close> has when the generated parser is not compiled in
  (\<open>preprocess\<close>, \<open>tokenise\<close>, \<open>separate_commands\<close> with its two helpers, \<open>shell_repl\<close>), and the choice
  \<open>main\<close> makes between the ways to start the program. Tokens are strings instead of pointers into the
  line; the commands are the records of \<open>Shell_Ast\<close>. What \<open>glob\<close> gives for a pattern (with
  \<open>GLOB_NOCHECK\<close>, so at least one word), \<open>getline\<close> and the execution of a command or a pipeline are
  parameters; allocations succeed.

  The lemmas show that the two phases read back any list of tokens however it is spaced, that the
  commands found are the non-empty segments between the separators, and that the loop runs every
  command of a line once, in order, in pipelines that cover the line.
\<close>

definition MAX_NUM_TOKENS :: nat where "MAX_NUM_TOKENS = 1000"
definition MAX_NUM_COMMANDS :: nat where "MAX_NUM_COMMANDS = 100"

definition token_sep :: "char \<Rightarrow> bool" where
  "token_sep c \<longleftrightarrow> c \<in> {CHR '' '', TAB, CR, NL, CHR 0x07}"

section \<open>Tokens\<close>

definition pad_char :: "char \<Rightarrow> bool" where
  "pad_char c \<longleftrightarrow> c \<in> {CHR '';'', CHR ''<'', CHR ''>'', CHR ''&'', CHR ''|''}"

fun preprocess :: "cstring \<Rightarrow> cstring" where
  "preprocess [] = []"
| "preprocess [c] = (if pad_char c then [CHR '' '', c, CHR '' ''] else [c])"
| "preprocess (c # d # r) =
     (if c = CHR ''>'' \<and> d = CHR ''>'' then '' >> '' @ preprocess r
      else if pad_char c then [CHR '' '', c, CHR '' ''] @ preprocess (d # r)
      else c # preprocess (d # r))"

definition tokenise :: "cstring \<Rightarrow> cstring list" where
  "tokenise line = take MAX_NUM_TOKENS (strtok token_sep line)"

section \<open>Commands\<close>

text \<open>The redirections of a segment, in order; an operator without a name after it is ignored.\<close>

fun search_redirection :: "cstring list \<Rightarrow> cmd \<Rightarrow> cmd" where
  "search_redirection [] c = c"
| "search_redirection (t # ts) c =
     (if t = ''<'' then (case ts of [] \<Rightarrow> c | f # r \<Rightarrow> search_redirection r (c\<lparr>stdin_file := Some f\<rparr>))
      else if t = ''>>'' then (case ts of [] \<Rightarrow> c | f # r \<Rightarrow> search_redirection r (c\<lparr>stdout_file := Some f, stdout_append := True\<rparr>))
      else if t = ''>'' then (case ts of [] \<Rightarrow> c | f # r \<Rightarrow> search_redirection r (c\<lparr>stdout_file := Some f, stdout_append := False\<rparr>))
      else search_redirection ts c)"

definition redir_op :: "cstring \<Rightarrow> bool" where
  "redir_op t \<longleftrightarrow> t = ''<'' \<or> t = ''>'' \<or> t = ''>>''"

text \<open>The second pass of \<open>build_cmd_argv\<close>: the words, and whether an ampersand was met.\<close>

fun argv_words :: "(cstring \<Rightarrow> cstring list) \<Rightarrow> cstring list \<Rightarrow> cstring list \<times> bool" where
  "argv_words glob [] = ([], False)"
| "argv_words glob (t # ts) =
     (if redir_op t then argv_words glob (tl ts)
      else if t = ''&'' then (fst (argv_words glob ts), True)
      else (glob t @ fst (argv_words glob ts), snd (argv_words glob ts)))"

definition build_cmd_argv :: "(cstring \<Rightarrow> cstring list) \<Rightarrow> cstring list \<Rightarrow> cmd \<Rightarrow> cmd" where
  "build_cmd_argv glob ts c = (case argv_words glob ts of (ws, bg) \<Rightarrow> c\<lparr>cmd_argv := ws, background := bg\<rparr>)"

definition separator :: "cstring \<Rightarrow> bool" where
  "separator t \<longleftrightarrow> t = '';'' \<or> t = ''|''"

text \<open>The non-empty segments, each with whether a bar ends it.\<close>

fun segments :: "cstring list \<Rightarrow> cstring list \<Rightarrow> (cstring list \<times> bool) list" where
  "segments cur [] = []"
| "segments cur (t # ts) =
     (if separator t then (if cur = [] then segments [] ts else (cur, t = ''|'') # segments [] ts)
      else segments (cur @ [t]) ts)"

definition segment_cmd :: "(cstring \<Rightarrow> cstring list) \<Rightarrow> cstring list \<times> bool \<Rightarrow> cmd" where
  "segment_cmd glob sg = (case sg of (ts, piped) \<Rightarrow>
     build_cmd_argv glob ts (search_redirection ts
       \<lparr>cmd_argv = [], stdin_file = None, stdout_file = None, stdout_append = False, stderr_file = None, stderr_append = False,
        stderr_both = False, background = False, pipe_next = piped, ps_procs = []\<rparr>))"

text \<open>\<open>None\<close>: more commands than the array of the caller holds, a write beyond it.\<close>

definition separate_commands :: "(cstring \<Rightarrow> cstring list) \<Rightarrow> cstring list \<Rightarrow> cmd list option" where
  "separate_commands glob token =
     (if token = [] then Some []
      else let sgs = segments [] (if separator (last token) then token else token @ ['';'']) in
        if MAX_NUM_COMMANDS < length sgs then None else Some (map (segment_cmd glob) sgs))"

section \<open>The loop\<close>

text \<open>The stages of the first pipeline, and the commands after it.\<close>

fun pipeline_span :: "cmd list \<Rightarrow> cmd list \<times> cmd list" where
  "pipeline_span [] = ([], [])"
| "pipeline_span [c] = ([c], [])"
| "pipeline_span (c # d # cs) =
     (if pipe_next c then (case pipeline_span (d # cs) of (p, r) \<Rightarrow> (c # p, r)) else ([c], d # cs))"

lemma pipeline_span_length: "cs \<noteq> [] \<Longrightarrow> length (snd (pipeline_span cs)) < length cs"
  by (induction cs rule: pipeline_span.induct) (auto split: prod.splits)

function pipelines :: "cmd list \<Rightarrow> cmd list list" where
  "pipelines cs = (if cs = [] then [] else case pipeline_span cs of (p, r) \<Rightarrow> p # pipelines r)"
  by pat_completeness auto
termination by (relation "measure length") (simp_all, metis pipeline_span_length snd_conv)

declare pipelines.simps [simp del]

text \<open>A command or a pipeline returns the new state, or ends the program (\<open>Inl\<close>).\<close>

fun run_groups :: "(cmd \<Rightarrow> 'w \<Rightarrow> 'w + 'w) \<Rightarrow> (cmd list \<Rightarrow> 'w \<Rightarrow> 'w + 'w) \<Rightarrow> cmd list list \<Rightarrow> 'w \<Rightarrow> 'w + 'w" where
  "run_groups one pipe [] w = Inr w"
| "run_groups one pipe (p # ps) w =
     (case (if length p = 1 then one (hd p) w else pipe p w) of
        Inl w1 \<Rightarrow> Inl w1
      | Inr w1 \<Rightarrow> run_groups one pipe ps w1)"

datatype line_read = Line "char list" | Interrupted | End_Of_Input

datatype 'w outcome = Ended 'w | Exited 'w | Overrun 'w

record 'w old_sys =
  old_glob :: "cstring \<Rightarrow> cstring list"
  run_one :: "cmd \<Rightarrow> 'w \<Rightarrow> 'w + 'w"
  run_pipe :: "cmd list \<Rightarrow> 'w \<Rightarrow> 'w + 'w"
  read_line :: "'w \<Rightarrow> line_read \<times> 'w"

text \<open>What a line that was read does.\<close>

definition run_line_text :: "'w old_sys \<Rightarrow> cstring \<Rightarrow> 'w \<Rightarrow> 'w outcome + 'w" where
  "run_line_text sys line w =
     (case separate_commands (old_glob sys) (tokenise (preprocess line)) of
        None \<Rightarrow> Inl (Overrun w)
      | Some cs \<Rightarrow> (case run_groups (run_one sys) (run_pipe sys) (pipelines cs) w of Inl w1 \<Rightarrow> Inl (Exited w1) | Inr w1 \<Rightarrow> Inr w1))"

text \<open>Fuel counts the turns.\<close>

fun shell_repl :: "'w old_sys \<Rightarrow> nat \<Rightarrow> 'w \<Rightarrow> 'w outcome option" where
  "shell_repl sys 0 w = None"
| "shell_repl sys (Suc n) w =
     (case read_line sys w of
        (End_Of_Input, w1) \<Rightarrow> Some (Ended w1)
      | (Interrupted, w1) \<Rightarrow> shell_repl sys n w1
      | (Line b, w1) \<Rightarrow> (case run_line_text sys (c_str b) w1 of Inl r \<Rightarrow> Some r | Inr w2 \<Rightarrow> shell_repl sys n w2))"

section \<open>Starting the program\<close>

text \<open>Which registered command runs with which arguments, or what else \<open>main\<close> does.\<close>

datatype start = Run_Command cstring "cstring list" | Not_Found cstring | Run_Server | Print_Catalog | Interactive

definition start_mode :: "cmd_spec list \<Rightarrow> cstring list \<Rightarrow> start" where
  "start_mode reg argv =
     (let base = cmd_basename (hd argv) in
      if base \<noteq> ''aishell'' then (if find_command reg base \<noteq> None then Run_Command base argv else Not_Found base)
      else case tl argv of
          [] \<Rightarrow> Interactive
        | a # r \<Rightarrow>
            if a = ''--server'' then Run_Server
            else if a = ''--commands-json'' then Print_Catalog
            else if find_command reg a \<noteq> None then Run_Command a (a # r) else Not_Found a)"

text \<open>The exit status, given what the command returns and whether the server could be started.\<close>

definition start_status :: "(cstring \<Rightarrow> cstring list \<Rightarrow> int) \<Rightarrow> bool \<Rightarrow> start \<Rightarrow> int" where
  "start_status run started m =
     (case m of Run_Command c args \<Rightarrow> run c args | Not_Found _ \<Rightarrow> 127 | Run_Server \<Rightarrow> if started then 0 else 1 | _ \<Rightarrow> 0)"

text \<open>\<open>prepend_mysh_bin_to_path\<close>: the new \<open>PATH\<close>, when \<open>HOME\<close> is set.\<close>

definition mysh_path :: "cstring option \<Rightarrow> cstring option \<Rightarrow> cstring option" where
  "mysh_path home old =
     map_option (\<lambda>h. let bin = fit 512 (h @ ''/.mysh/bin'') in
       fit 4096 (case old of Some (c # p) \<Rightarrow> bin @ '':'' @ c # p | _ \<Rightarrow> bin)) home"

section \<open>Lemmas on the tokens\<close>

definition op_token :: "cstring \<Rightarrow> bool" where
  "op_token t \<longleftrightarrow> t = ''>>'' \<or> (\<exists>c. t = [c] \<and> pad_char c)"

definition word_token :: "cstring \<Rightarrow> bool" where
  "word_token t \<longleftrightarrow> t \<noteq> [] \<and> list_all (\<lambda>c. \<not> token_sep c \<and> \<not> pad_char c) t"

text \<open>Two tokens may touch when one of them is an operator, unless they would make another operator.\<close>

definition may_touch :: "cstring \<Rightarrow> cstring \<Rightarrow> bool" where
  "may_touch t u \<longleftrightarrow> (op_token t \<or> op_token u) \<and> \<not> (t = ''>'' \<and> take 1 u = ''>'')"

fun well_spaced :: "(cstring \<times> cstring) list \<Rightarrow> bool" where
  "well_spaced ((g, t) # (h, u) # r) \<longleftrightarrow> (h \<noteq> [] \<or> may_touch t u) \<and> well_spaced ((h, u) # r)"
| "well_spaced _ \<longleftrightarrow> True"

definition spelling :: "(cstring \<times> cstring) list \<Rightarrow> bool" where
  "spelling gts \<longleftrightarrow> list_all (\<lambda>(g, t). list_all token_sep g \<and> (op_token t \<or> word_token t)) gts \<and> well_spaced gts"

definition spelled :: "(cstring \<times> cstring) list \<Rightarrow> cstring" where
  "spelled gts = concat (map (\<lambda>(g, t). g @ t) gts)"

lemma sep_not_pad: "token_sep c \<Longrightarrow> \<not> pad_char c"
  by (auto simp: token_sep_def pad_char_def shell_defs TAB_def CR_def NL_def)

lemma preprocess_plain: "\<not> pad_char c \<Longrightarrow> preprocess (c # x) = c # preprocess x"
  by (cases x) (auto simp: pad_char_def)

lemma preprocess_pad: "pad_char c \<Longrightarrow> \<not> (c = CHR ''>'' \<and> take 1 x = ''>'') \<Longrightarrow> preprocess (c # x) = [CHR '' '', c, CHR '' ''] @ preprocess x"
  by (cases x) auto

lemma preprocess_plains: "list_all (\<lambda>c. \<not> pad_char c) t \<Longrightarrow> preprocess (t @ x) = t @ preprocess x"
  by (induction t) (simp_all add: preprocess_plain)

lemma preprocess_starts_sep:
  "x = [] \<or> token_sep (hd x) \<or> pad_char (hd x) \<Longrightarrow> preprocess x = [] \<or> token_sep (hd (preprocess x))"
  by (cases x rule: preprocess.cases) (auto simp: token_sep_def)

lemma tok_go_gap: "list_all D g \<Longrightarrow> tok_go D [] (g @ y) = tok_go D [] y"
  by (induction g) auto

lemma tok_go_word: "list_all (\<lambda>c. \<not> D c) t \<Longrightarrow> t \<noteq> [] \<Longrightarrow> y = [] \<or> D (hd y) \<Longrightarrow> tok_go D [] (t @ y) = t # tok_go D [] y"
  using tok_go_token [of D t "[]" y] by (cases y) auto

lemma tok_go_op: "list_all (\<lambda>c. \<not> D c) t \<Longrightarrow> t \<noteq> [] \<Longrightarrow> D d \<Longrightarrow> tok_go D [] ([d] @ t @ [d] @ y) = t # tok_go D [] y"
  using tok_go_word [of D t "[d] @ y"] by simp

lemma tokens_of_spelling:
  "spelling gts \<Longrightarrow> list_all token_sep e \<Longrightarrow> strtok token_sep (preprocess (spelled gts @ e)) = map snd gts"
  unfolding strtok_def
proof (induction gts)
  case Nil
  then have "list_all (\<lambda>c. \<not> pad_char c) e" by (auto simp: list_all_iff sep_not_pad)
  then have "preprocess e = e" using preprocess_plains [of e "[]"] by simp
  then show ?case using Nil tok_go_gap [of token_sep e "[]"] by (simp add: spelled_def)
next
  case (Cons a gts)
  obtain g t where a: "a = (g, t)" by (cases a)
  let ?x = "spelled gts @ e"
  have g: "list_all token_sep g" and t: "op_token t \<or> word_token t" and s: "spelling gts"
    using Cons.prems(1) by (cases gts; auto simp: spelling_def a)+
  have IH: "tok_go token_sep [] (preprocess ?x) = map snd gts" using Cons.IH [OF s Cons.prems(2)] .
  have "list_all (\<lambda>c. \<not> pad_char c) g" using g by (auto simp: list_all_iff sep_not_pad)
  then have "preprocess (spelled (a # gts) @ e) = g @ preprocess (t @ ?x)"
    by (simp add: spelled_def a preprocess_plains)
  then have *: "tok_go token_sep [] (preprocess (spelled (a # gts) @ e)) = tok_go token_sep [] (preprocess (t @ ?x))"
    using tok_go_gap [OF g] by simp
  have next_tok: "gts \<noteq> [] \<Longrightarrow> fst (hd gts) \<noteq> [] \<or> may_touch t (snd (hd gts))"
    using Cons.prems(1) by (cases gts) (auto simp: spelling_def a)
  have first: "?x = [] \<or> token_sep (hd ?x) \<or> (\<exists>h u r. gts = ([], u) # r \<and> hd ?x = hd u \<and> take 1 ?x = take 1 u \<and> (op_token u \<or> word_token u))"
  proof (cases gts)
    case Nil
    then show ?thesis using Cons.prems(2) by (cases e) (auto simp: spelled_def)
  next
    case (Cons b r)
    obtain h u where b: "b = (h, u)" by (cases b)
    have u: "op_token u \<or> word_token u" "list_all token_sep h" using s by (auto simp: spelling_def Cons b)
    show ?thesis
    proof (cases h)
      case Nil
      have "u \<noteq> []" using u(1) by (auto simp: op_token_def word_token_def)
      then have "hd ?x = hd u \<and> take 1 ?x = take 1 u" by (cases u) (simp_all add: Cons b Nil spelled_def)
      then show ?thesis using u Cons b Nil by blast
    next
      case (Cons c h')
      then show ?thesis using u(2) \<open>gts = b # r\<close> by (simp add: b spelled_def)
    qed
  qed
  have "tok_go token_sep [] (preprocess (t @ ?x)) = t # tok_go token_sep [] (preprocess ?x)"
  proof (cases "word_token t")
    case True
    then have w: "t \<noteq> []" "list_all (\<lambda>c. \<not> token_sep c) t" "list_all (\<lambda>c. \<not> pad_char c) t"
      by (auto simp: word_token_def list_all_iff)
    have "\<not> op_token t" using w(3) by (auto simp: op_token_def pad_char_def)
    then have "?x = [] \<or> token_sep (hd ?x) \<or> pad_char (hd ?x)"
      using first next_tok by (auto simp: may_touch_def op_token_def pad_char_def)
    then show ?thesis
      using tok_go_word [OF w(2,1)] preprocess_starts_sep preprocess_plains [OF w(3)] by metis
  next
    case False
    then have "op_token t" using t by simp
    then show ?thesis
    proof (cases "t = ''>>''")
      case True
      then have "preprocess (t @ ?x) = [CHR '' ''] @ t @ [CHR '' ''] @ preprocess ?x" by simp
      then show ?thesis using tok_go_op [of token_sep t "CHR '' ''"] True by (simp add: token_sep_def shell_defs TAB_def CR_def NL_def)
    next
      case False
      then obtain c where c: "t = [c]" "pad_char c" using \<open>op_token t\<close> by (auto simp: op_token_def)
      have "\<not> (c = CHR ''>'' \<and> take 1 ?x = ''>'')"
        using first next_tok c by (cases "spelled gts @ e") (auto simp: may_touch_def token_sep_def shell_defs TAB_def CR_def NL_def)
      then have "preprocess (t @ ?x) = [CHR '' ''] @ t @ [CHR '' ''] @ preprocess ?x" using preprocess_pad [OF c(2)] c(1) by simp
      moreover have "\<not> token_sep c" using c(2) sep_not_pad by blast
      ultimately show ?thesis using tok_go_op [of token_sep t "CHR '' ''"] c(1) by (simp add: token_sep_def)
    qed
  qed
  then show ?case using * IH by (simp add: a)
qed

section \<open>Commands and pipelines\<close>

datatype item = Word cstring | From cstring | To cstring | Onto cstring | Amp

fun item_tokens :: "item \<Rightarrow> cstring list" where
  "item_tokens (Word w) = [w]"
| "item_tokens (From f) = [''<'', f]"
| "item_tokens (To f) = [''>'', f]"
| "item_tokens (Onto f) = [''>>'', f]"
| "item_tokens Amp = [''&'']"

text \<open>What the items of a segment say, from left to right.\<close>

fun item_effect :: "(cstring \<Rightarrow> cstring list) \<Rightarrow> item \<Rightarrow> cmd \<Rightarrow> cmd" where
  "item_effect glob (Word w) c = c\<lparr>cmd_argv := cmd_argv c @ glob w\<rparr>"
| "item_effect glob (From f) c = c\<lparr>stdin_file := Some f\<rparr>"
| "item_effect glob (To f) c = c\<lparr>stdout_file := Some f, stdout_append := False\<rparr>"
| "item_effect glob (Onto f) c = c\<lparr>stdout_file := Some f, stdout_append := True\<rparr>"
| "item_effect glob Amp c = c\<lparr>background := True\<rparr>"

definition plain_item :: "item \<Rightarrow> bool" where
  "plain_item i \<longleftrightarrow> (case i of Word w \<Rightarrow> \<not> redir_op w \<and> w \<noteq> ''&'' | _ \<Rightarrow> True)"

definition new_cmd :: "bool \<Rightarrow> cmd" where
  "new_cmd piped =
     \<lparr>cmd_argv = [], stdin_file = None, stdout_file = None, stdout_append = False, stderr_file = None, stderr_append = False,
      stderr_both = False, background = False, pipe_next = piped, ps_procs = []\<rparr>"

lemma redirections_commute:
  fixes c :: cmd
  shows "c\<lparr>cmd_argv := a, background := b, stdin_file := x\<rparr> = c\<lparr>stdin_file := x, cmd_argv := a, background := b\<rparr>"
    "c\<lparr>cmd_argv := a, background := b, stdout_file := x, stdout_append := y\<rparr>
       = c\<lparr>stdout_file := x, stdout_append := y, cmd_argv := a, background := b\<rparr>"
  by (cases c; simp)+

lemma search_redirection_update:
  "search_redirection ts (c\<lparr>cmd_argv := a, background := b\<rparr>) = (search_redirection ts c)\<lparr>cmd_argv := a, background := b\<rparr>"
proof (induction "length ts" arbitrary: ts c rule: less_induct)
  case less
  show ?case
  proof (cases ts)
    case (Cons t us)
    show ?thesis
    proof (cases us)
      case Nil
      then show ?thesis by (simp add: Cons)
    next
      case (Cons f r)
      then show ?thesis
        using less [of r] less [of us] \<open>ts = t # us\<close> by (simp add: redirections_commute)
    qed
  qed simp
qed

lemma effects_argv:
  "list_all plain_item is \<Longrightarrow> cmd_argv (fold (item_effect glob) is c) = cmd_argv c @ fst (argv_words glob (concat (map item_tokens is)))
     \<and> background (fold (item_effect glob) is c) = (background c \<or> snd (argv_words glob (concat (map item_tokens is))))"
proof (induction "is" arbitrary: c)
  case (Cons i "is")
  then show ?case by (cases i) (simp_all add: plain_item_def redir_op_def)
qed simp

lemma effects_redirection:
  "list_all plain_item is \<Longrightarrow> (fold (item_effect glob) is c)\<lparr>cmd_argv := a, background := b\<rparr>
     = search_redirection (concat (map item_tokens is)) (c\<lparr>cmd_argv := a, background := b\<rparr>)"
proof (induction "is" arbitrary: c)
  case (Cons i "is")
  then show ?case by (cases i) (simp_all add: plain_item_def redir_op_def redirections_commute)
qed simp

lemma segment_items:
  assumes "list_all plain_item is"
  shows "segment_cmd glob (concat (map item_tokens is), piped) = fold (item_effect glob) is (new_cmd piped)"
proof -
  let ?ts = "concat (map item_tokens is)" and ?F = "fold (item_effect glob) is (new_cmd piped)"
  obtain ws bg where w: "argv_words glob ?ts = (ws, bg)" by fastforce
  have "?F = ?F\<lparr>cmd_argv := cmd_argv ?F, background := background ?F\<rparr>" by simp
  also have "\<dots> = ?F\<lparr>cmd_argv := ws, background := bg\<rparr>"
    using effects_argv [OF assms, of glob "new_cmd piped"] w by (simp add: new_cmd_def)
  also have "\<dots> = search_redirection ?ts ((new_cmd piped)\<lparr>cmd_argv := ws, background := bg\<rparr>)"
    by (rule effects_redirection [OF assms])
  also have "\<dots> = (search_redirection ?ts (new_cmd piped))\<lparr>cmd_argv := ws, background := bg\<rparr>"
    by (rule search_redirection_update)
  also have "\<dots> = segment_cmd glob (?ts, piped)" using w by (simp add: segment_cmd_def build_cmd_argv_def new_cmd_def)
  finally show ?thesis ..
qed

text \<open>A line of segments, each with its items and the separator after it.\<close>

definition line_tokens :: "(item list \<times> bool) list \<Rightarrow> cstring list" where
  "line_tokens sgs = concat (map (\<lambda>(is, piped). concat (map item_tokens is) @ [if piped then ''|'' else '';'']) sgs)"

definition plain_segment :: "item list \<Rightarrow> bool" where
  "plain_segment is \<longleftrightarrow> list_all plain_item is \<and> list_all (\<lambda>t. \<not> separator t) (concat (map item_tokens is))"

lemma segments_plain: "list_all (\<lambda>t. \<not> separator t) ts \<Longrightarrow> segments cur (ts @ r) = segments (cur @ ts) r"
  by (induction ts arbitrary: cur) auto

lemma segments_of_line:
  "list_all (\<lambda>(is, _). plain_segment is) sgs \<Longrightarrow>
     segments [] (line_tokens sgs) = map (\<lambda>(is, piped). (concat (map item_tokens is), piped)) (filter (\<lambda>(is, _). is \<noteq> []) sgs)"
proof (induction sgs)
  case (Cons a sgs)
  obtain i p where a: "a = (i, p)" by (cases a)
  have "concat (map item_tokens i) = [] \<longleftrightarrow> i = []"
    by (cases i) (auto, metis item_tokens.elims list.distinct(1))
  then show ?case
    using Cons segments_plain [of "concat (map item_tokens i)" "[]"]
    by (auto simp: line_tokens_def a plain_segment_def separator_def)
qed (simp add: line_tokens_def)

lemma separate_line:
  assumes "list_all (\<lambda>(is, _). plain_segment is) sgs" "length (filter (\<lambda>(is, _). is \<noteq> []) sgs) \<le> 100"
  shows "separate_commands glob (line_tokens sgs)
    = Some (map (\<lambda>(is, piped). fold (item_effect glob) is (new_cmd piped)) (filter (\<lambda>(is, _). is \<noteq> []) sgs))"
proof (cases "sgs = []")
  case True
  then show ?thesis by (simp add: line_tokens_def separate_commands_def)
next
  case False
  then have l: "line_tokens sgs \<noteq> []" "separator (last (line_tokens sgs))"
    by (cases sgs rule: rev_cases; auto simp: line_tokens_def separator_def)+
  have "map (segment_cmd glob) (map (\<lambda>(is, piped). (concat (map item_tokens is), piped)) (filter (\<lambda>(is, _). is \<noteq> []) sgs))
      = map (\<lambda>(is, piped). fold (item_effect glob) is (new_cmd piped)) (filter (\<lambda>(is, _). is \<noteq> []) sgs)"
    using assms(1) segment_items by (auto simp: list_all_iff plain_segment_def)
  then show ?thesis using l assms segments_of_line [OF assms(1)] by (simp add: separate_commands_def MAX_NUM_COMMANDS_def)
qed

section \<open>Properties\<close>

theorem old_line_understood:
  assumes "spelling gts" "list_all token_sep e" "length gts \<le> 1000" "map snd gts = line_tokens sgs"
    "list_all (\<lambda>(is, _). plain_segment is) sgs" "length (filter (\<lambda>(is, _). is \<noteq> []) sgs) \<le> 100"
  shows "separate_commands glob (tokenise (preprocess (spelled gts @ e)))
    = Some (map (\<lambda>(is, piped). fold (item_effect glob) is (new_cmd piped)) (filter (\<lambda>(is, _). is \<noteq> []) sgs))"
proof -
  have "tokenise (preprocess (spelled gts @ e)) = line_tokens sgs"
    using tokens_of_spelling [OF assms(1,2)] assms(3) by (simp add: tokenise_def MAX_NUM_TOKENS_def flip: assms(4))
  then show ?thesis using separate_line [OF assms(5,6)] by simp
qed

lemma pipeline_span_parts:
  "cs \<noteq> [] \<Longrightarrow> pipeline_span cs = (p, r) \<Longrightarrow>
     cs = p @ r \<and> p \<noteq> [] \<and> (\<forall>c \<in> set (butlast p). pipe_next c) \<and> (pipe_next (last p) \<longrightarrow> r = [])"
  by (induction cs arbitrary: p r rule: pipeline_span.induct) (auto split: if_splits prod.splits)

theorem pipelines_cover:
  "concat (pipelines cs) = cs \<and> (\<forall>p \<in> set (pipelines cs). p \<noteq> [] \<and> (\<forall>c \<in> set (butlast p). pipe_next c))
     \<and> (\<forall>p \<in> set (butlast (pipelines cs)). \<not> pipe_next (last p))"
proof (induction cs rule: pipelines.induct)
  case (1 cs)
  show ?case
  proof (cases "cs = []")
    case True
    then show ?thesis by (simp add: pipelines.simps)
  next
    case False
    obtain p r where pr: "pipeline_span cs = (p, r)" by fastforce
    have IH: "concat (pipelines r) = r" "\<forall>p \<in> set (pipelines r). p \<noteq> [] \<and> (\<forall>c \<in> set (butlast p). pipe_next c)"
      "\<forall>p \<in> set (butlast (pipelines r)). \<not> pipe_next (last p)"
      using 1 [OF False pr [symmetric]] by auto
    have unf: "pipelines cs = p # pipelines r" by (subst pipelines.simps) (simp add: False pr)
    have nil: "pipelines r = [] \<longleftrightarrow> r = []" using IH(1) by (auto simp: pipelines.simps [of "[]"])
    note parts = pipeline_span_parts [OF False pr]
    have "concat (p # pipelines r) = cs" using parts IH(1) by simp
    moreover have "\<forall>q \<in> set (p # pipelines r). q \<noteq> [] \<and> (\<forall>c \<in> set (butlast q). pipe_next c)" using parts IH(2) by simp
    moreover have "\<forall>q \<in> set (butlast (p # pipelines r)). \<not> pipe_next (last q)" using parts IH(3) nil by auto
    ultimately show ?thesis unfolding unf by blast
  qed
qed

theorem old_repl_ends:
  fixes left :: "'w \<Rightarrow> nat"
  assumes "\<And>w r w1. read_line sys w = (r, w1) \<Longrightarrow> r \<noteq> End_Of_Input \<Longrightarrow> left w1 < left w"
    "\<And>c w w1. run_one sys c w = Inr w1 \<Longrightarrow> left w1 \<le> left w" "\<And>p w w1. run_pipe sys p w = Inr w1 \<Longrightarrow> left w1 \<le> left w"
  shows "left w < n \<Longrightarrow> \<exists>out. shell_repl sys n w = Some out"
proof (induction n arbitrary: w)
  case (Suc n)
  have groups: "run_groups (run_one sys) (run_pipe sys) ps v = Inr v1 \<Longrightarrow> left v1 \<le> left v" for ps v v1
  proof (induction ps arbitrary: v)
    case (Cons p ps)
    then show ?case using assms(2,3) by (force split: sum.splits if_splits intro: order_trans)
  qed simp
  obtain r w1 where r: "read_line sys w = (r, w1)" by fastforce
  show ?case
  proof (cases r)
    case (Line b)
    have lt: "left w1 < left w" using assms(1) [OF r] Line by simp
    show ?thesis
    proof (cases "run_line_text sys (c_str b) w1")
      case (Inl out)
      then show ?thesis using r Line by simp
    next
      case (Inr w2)
      then have "left w2 \<le> left w1" using groups by (auto simp: run_line_text_def split: option.splits sum.splits)
      then show ?thesis using Suc lt r Line Inr by simp
    qed
  next
    case Interrupted
    then show ?thesis using Suc assms(1) [OF r] r by simp
  qed (use r in simp)
qed simp

text \<open>What goes wrong: an ampersand ends no command, and a line may have more commands than the array.\<close>

lemma ampersand_joins:
  "map_option (map (\<lambda>c. (cmd_argv c, background c))) (separate_commands (\<lambda>w. [w]) (tokenise (preprocess ''sleep 1 & ls'')))
    = Some [([''sleep'', ''1'', ''ls''], True)]"
  by code_simp

lemma long_line_overruns:
  "separate_commands glob (tokenise (preprocess (concat (replicate 101 ''a;'')))) = None"
  by code_simp

theorem old_line_understood_witness:
  "separate_commands (\<lambda>w. [w]) (tokenise (preprocess (''cat<in |wc -l>>out'' @ [NL]))) =
     Some [fold (item_effect (\<lambda>w. [w])) [Word ''cat'', From ''in''] (new_cmd True),
       fold (item_effect (\<lambda>w. [w])) [Word ''wc'', Word ''-l'', Onto ''out''] (new_cmd False)]"
proof -
  let ?g = "[([], ''cat''), ([], ''<''), ([], ''in''), ('' '', ''|''), ([], ''wc''), ('' '', ''-l''), ([], ''>>''), ([], ''out''), ('' '', '';'')]"
  let ?s = "[([Word ''cat'', From ''in''], True), ([Word ''wc'', Word ''-l'', Onto ''out''], False)]"
  have "separate_commands (\<lambda>w. [w]) (tokenise (preprocess (spelled ?g @ [NL])))
      = Some (map (\<lambda>(is, piped). fold (item_effect (\<lambda>w. [w])) is (new_cmd piped)) (filter (\<lambda>(is, _). is \<noteq> []) ?s))"
    by (rule old_line_understood)
      (simp_all add: spelling_def op_token_def word_token_def may_touch_def token_sep_def pad_char_def TAB_def CR_def NL_def
        line_tokens_def plain_segment_def plain_item_def redir_op_def separator_def)
  moreover have "separate_commands (\<lambda>w. [w]) (tokenise (preprocess (spelled ?g @ [NL])))
      = separate_commands (\<lambda>w. [w]) (tokenise (preprocess (''cat<in |wc -l>>out'' @ [NL])))"
    by code_simp
  ultimately show ?thesis by simp
qed

text \<open>A session of two lines whose commands print their words.\<close>

definition demo_old :: "(char list list \<times> cstring list list) old_sys" where
  "demo_old = \<lparr>old_glob = (\<lambda>w. [w]), run_one = (\<lambda>c (inp, out). Inr (inp, out @ [cmd_argv c])),
     run_pipe = (\<lambda>p (inp, out). Inr (inp, out @ map cmd_argv p)),
     read_line = (\<lambda>(inp, out). case inp of [] \<Rightarrow> (End_Of_Input, (inp, out)) | l # r \<Rightarrow> (Line l, (r, out)))\<rparr>"

theorem old_repl_ends_witness: "\<exists>out. shell_repl demo_old 3 ([''ls;pwd'' @ [NL], ''cat x|wc'' @ [NL]], []) = Some out"
  by (rule old_repl_ends [where left = "length \<circ> fst"]) (auto simp: demo_old_def split: list.splits)

lemma demo_old_run:
  "shell_repl demo_old 3 ([''ls;pwd'' @ [NL], ''cat x|wc'' @ [NL]], []) =
     Some (Ended ([], [[''ls''], [''pwd''], [''cat'', ''x''], [''wc'']]))"
  by code_simp

section \<open>Starting the program\<close>

lemma basename_wins:
  "find_command reg (cmd_basename p) \<noteq> None \<Longrightarrow> cmd_basename p \<noteq> ''aishell'' \<Longrightarrow>
     start_mode reg (p # args) = Run_Command (cmd_basename p) (p # args)"
  by (simp add: start_mode_def)

lemma subcommand_shifted:
  "cmd_basename p = ''aishell'' \<Longrightarrow> a \<noteq> ''--server'' \<Longrightarrow> a \<noteq> ''--commands-json'' \<Longrightarrow> find_command reg a \<noteq> None \<Longrightarrow>
     start_mode reg (p # a # args) = Run_Command a (a # args)"
  by (simp add: start_mode_def)

text \<open>The searched path starts with the directory of the packages, and keeps the old one when it fits.\<close>

lemma mysh_path_prefix:
  "length h \<le> 500 \<Longrightarrow> old \<noteq> [] \<Longrightarrow> length h + length old < 4000 \<Longrightarrow>
     mysh_path (Some h) (Some old) = Some (h @ ''/.mysh/bin:'' @ old)"
  by (cases old) (simp_all add: mysh_path_def fit_id)

end
