(* ===== verification/Shell_Cmds.thy ===== *)
theory Shell_Cmds
  imports Shell_Store Registry Job_Table Dispatch "HOL-Library.Multiset"
begin

text \<open>
  The registered commands around the state of the shell, after their options are parsed: \<open>alias\<close> and
  \<open>unalias\<close> (\<^verbatim>\<open>cmd_alias.c\<close>), \<open>env\<close>, \<open>export\<close>, \<open>unset\<close>, \<open>read\<close>, \<open>type\<close>, \<open>which\<close>, \<open>kill\<close>, \<open>wait\<close>, \<open>jobs\<close>,
  \<open>echo\<close>, \<open>true\<close> and \<open>false\<close> (\<^verbatim>\<open>cmd_env.c\<close> and so on). The environment is the list of its entries in
  order, changed as \<open>setenv\<close> and \<open>unsetenv\<close> change it; the tables are those of \<open>Shell_Store\<close>. What
  \<open>access\<close>, \<open>kill\<close>, \<open>waitpid\<close>, \<open>select\<close> and the files under \<^verbatim>\<open>/proc\<close> answer are parameters; messages on
  \<open>stderr\<close>, the settings of the terminal and the cut of a path at \<open>PATH_MAX\<close> are left out.

  The lemmas show what each command does to the environment and to its input, that signals are read
  back from every way to write them, that \<open>which\<close> finds what a search of the path finds, and that
  \<open>jobs\<close> lists the processes of the session once each, in ascending order.
\<close>

section \<open>alias and unalias\<close>

fun alias_run :: "cstring list \<Rightarrow> table \<Rightarrow> int \<times> table \<times> cstring" where
  "alias_run [] t = (0, t, [])"
| "alias_run (a # as) t =
     (case split_at (CHR ''='') a of
        Some (n, v) \<Rightarrow> alias_run as (alias_set n v t)
      | None \<Rightarrow>
          (case alias_run as t of
             (rc, t1, out) \<Rightarrow> (case alias_get t a of
                 Some v \<Rightarrow> (rc, t1, alias_line (a, v) @ NL # out)
               | None \<Rightarrow> (1, t1, out))))"

definition alias_command :: "cstring list \<Rightarrow> table \<Rightarrow> int \<times> table \<times> cstring" where
  "alias_command args t = (if args = [] then (0, t, concat (alias_print_all t)) else alias_run args t)"

fun unalias_names :: "cstring list \<Rightarrow> table \<Rightarrow> int \<times> table" where
  "unalias_names [] t = (0, t)"
| "unalias_names (n # ns) t =
     (if alias_get t n = None then (1, snd (unalias_names ns t)) else unalias_names ns (alias_del n t))"

definition unalias_run :: "cstring list \<Rightarrow> table \<Rightarrow> int \<times> table" where
  "unalias_run names t = (if names = [] then (1, t) else unalias_names names t)"

section \<open>The environment\<close>

definition set_env :: "cstring \<Rightarrow> cstring \<Rightarrow> table \<Rightarrow> table" where
  "set_env n v e =
     (if n = [] \<or> CHR ''='' \<in> set n then e
      else case update_first n v e of Some e1 \<Rightarrow> e1 | None \<Rightarrow> e @ [(n, v)])"

definition unset_env :: "cstring \<Rightarrow> table \<Rightarrow> table" where
  "unset_env n e = (if n = [] \<or> CHR ''='' \<in> set n then e else filter (\<lambda>(k, _). k \<noteq> n) e)"

definition environ_lines :: "table \<Rightarrow> cstring list" where
  "environ_lines e = map (\<lambda>(n, v). n @ CHR ''='' # v) e"

text \<open>The assignments of \<open>env\<close>, up to the first argument that is none; a name is cut to its buffer.\<close>

fun env_assign :: "cstring list \<Rightarrow> table \<Rightarrow> bool \<times> table" where
  "env_assign [] e = (True, e)"
| "env_assign (a # as) e =
     (case split_at (CHR ''='') a of
        None \<Rightarrow> (False, e)
      | Some (n, v) \<Rightarrow> env_assign as (set_env (fit 256 n) v e))"

definition env_run :: "cstring list \<Rightarrow> cstring list \<Rightarrow> table \<Rightarrow> int \<times> table \<times> cstring" where
  "env_run unsets vars e =
     (case env_assign vars (fold unset_env unsets e) of
        (ok, e1) \<Rightarrow> if ok then (0, e1, concat (map (\<lambda>l. l @ [NL]) (environ_lines e1))) else (1, e1, []))"

fun export_vars :: "cstring list \<Rightarrow> table \<Rightarrow> int \<times> table \<times> cstring" where
  "export_vars [] e = (0, e, [])"
| "export_vars (a # as) e =
     (case split_at (CHR ''='') a of
        Some (n, v) \<Rightarrow> export_vars as (set_env (fit 256 n) v e)
      | None \<Rightarrow>
          (case export_vars as e of
             (rc, e1, out) \<Rightarrow> (case map_of e a of
                 Some v \<Rightarrow> (rc, e1, ''declare -x '' @ a @ CHR ''='' # DQ # v @ DQ # NL # out)
               | None \<Rightarrow> (1, e1, out))))"

definition export_run :: "cstring list \<Rightarrow> table \<Rightarrow> int \<times> table \<times> cstring" where
  "export_run vars e =
     (if vars = [] then (0, e, concat (map (\<lambda>l. ''declare -x '' @ l @ [NL]) (environ_lines e))) else export_vars vars e)"

definition unset_run :: "cstring list \<Rightarrow> table \<Rightarrow> int \<times> table" where
  "unset_run names e = (0, fold unset_env names e)"

section \<open>read\<close>

text \<open>The loop over \<open>fgetc\<close>; the counter is the length of the buffer, whose size is 4096.\<close>

fun read_loop :: "bool \<Rightarrow> int \<Rightarrow> char \<Rightarrow> nat \<Rightarrow> char list \<Rightarrow> char list \<times> bool \<times> char list" where
  "read_loop tty n stop len inp =
     (if 0 < n \<and> n \<le> int len \<or> 4095 \<le> len then ([], False, inp)
      else case inp of
          [] \<Rightarrow> ([], False, [])
        | c # r \<Rightarrow>
            if tty \<and> n = 0 \<and> c = CR \<or> c = stop then ([], True, r)
            else (case read_loop tty n stop (Suc len) r of (b, got, left) \<Rightarrow> (c # b, got, left)))"

declare read_loop.simps [simp del]

record read_opts =
  read_chars :: int
  read_delim :: char
  read_timeout :: int

definition read_run :: "read_opts \<Rightarrow> bool \<Rightarrow> bool \<Rightarrow> cstring \<Rightarrow> table \<Rightarrow> char list \<Rightarrow> int \<times> table \<times> char list" where
  "read_run opts tty ready var e inp =
     (if 0 < read_timeout opts \<and> \<not> ready then (1, e, inp)
      else (case read_loop tty (read_chars opts) (read_delim opts) 0 inp of
          (b, got, left) \<Rightarrow> (if b = [] \<and> \<not> got then 1 else 0, set_env (fit 256 var) (c_str b) e, left)))"

section \<open>type and which\<close>

definition shell_builtins :: "cstring list" where
  "shell_builtins = [''exit'', ''prompt'']"

definition type_of_name :: "cmd_spec list \<Rightarrow> cstring \<Rightarrow> cstring option" where
  "type_of_name reg name =
     (if name \<in> set shell_builtins then Some (name @ '' is a shell builtin'')
      else map_option (\<lambda>s. name @ '' is a registered command - '' @ (case summary s of Some t \<Rightarrow> t | None \<Rightarrow> ''(null)''))
             (find_command reg name))"

fun type_run :: "cmd_spec list \<Rightarrow> cstring list \<Rightarrow> int \<times> cstring" where
  "type_run reg [] = (0, [])"
| "type_run reg (n # ns) =
     (case type_run reg ns of
        (ret, out) \<Rightarrow> (case type_of_name reg n of Some l \<Rightarrow> (ret, l @ NL # out) | None \<Rightarrow> (1, out)))"

fun search_dirs :: "(cstring \<Rightarrow> bool) \<Rightarrow> bool \<Rightarrow> cstring \<Rightarrow> cstring list \<Rightarrow> cstring list" where
  "search_dirs access all name [] = []"
| "search_dirs access all name (d # ds) =
     (if access (d @ CHR ''/'' # name)
      then (d @ CHR ''/'' # name) # (if all then search_dirs access all name ds else [])
      else search_dirs access all name ds)"

definition search_path :: "(cstring \<Rightarrow> bool) \<Rightarrow> cstring option \<Rightarrow> bool \<Rightarrow> cstring \<Rightarrow> cstring list" where
  "search_path access path all name =
     search_dirs access all name
       (strtok (\<lambda>c. c = CHR '':'') (case path of Some p \<Rightarrow> p | None \<Rightarrow> ''/usr/local/bin:/usr/bin:/bin''))"

fun which_run :: "(cstring \<Rightarrow> bool) \<Rightarrow> cstring option \<Rightarrow> bool \<Rightarrow> cstring list \<Rightarrow> int \<times> cstring" where
  "which_run access path all [] = (0, [])"
| "which_run access path all (n # ns) =
     (case which_run access path all ns of
        (ret, out) \<Rightarrow>
          (if search_path access path all n = [] then 1 else ret,
           concat (map (\<lambda>p. p @ [NL]) (search_path access path all n)) @ out))"

section \<open>kill and wait\<close>

definition sig_table :: "(cstring \<times> int) list" where
  "sig_table =
     [(''HUP'', 1), (''INT'', 2), (''QUIT'', 3), (''ILL'', 4), (''TRAP'', 5), (''ABRT'', 6), (''BUS'', 7), (''FPE'', 8),
      (''KILL'', 9), (''USR1'', 10), (''SEGV'', 11), (''USR2'', 12), (''PIPE'', 13), (''ALRM'', 14), (''TERM'', 15),
      (''STKFLT'', 16), (''CHLD'', 17), (''CONT'', 18), (''STOP'', 19), (''TSTP'', 20), (''TTIN'', 21), (''TTOU'', 22),
      (''URG'', 23), (''XCPU'', 24), (''XFSZ'', 25), (''VTALRM'', 26), (''PROF'', 27), (''WINCH'', 28), (''IO'', 29),
      (''PWR'', 30), (''SYS'', 31)]"

definition same_nocase :: "cstring \<Rightarrow> cstring \<Rightarrow> bool" where
  "same_nocase s t \<longleftrightarrow> map tolower s = map tolower t"

definition parse_signal :: "cstring \<Rightarrow> int" where
  "parse_signal spec =
     (case strtol spec of
        (n, left) \<Rightarrow>
          if left = [] \<and> 0 < n \<and> n \<le> 31 then n
          else let name = (if same_nocase (take 3 spec) ''SIG'' then drop 3 spec else spec) in
            case find (\<lambda>(s, _). same_nocase s name) sig_table of Some (_, k) \<Rightarrow> k | None \<Rightarrow> -1)"

definition kill_list :: cstring where
  "kill_list =
     concat (map (\<lambda>i. pad_left 2 (show_int (snd (sig_table ! i))) @ '') SIG'' @ pad_right 10 (fst (sig_table ! i))
        @ (if (i + 1) mod 4 = 0 then [NL] else [])) [0..<length sig_table]) @ [NL]"

text \<open>The signals sent, and the status; \<open>may\<close> says which \<open>kill\<close> calls succeed.\<close>

definition kill_run :: "(int \<Rightarrow> int \<Rightarrow> bool) \<Rightarrow> bool \<Rightarrow> cstring option \<Rightarrow> int list \<Rightarrow> int \<times> (int \<times> int) list" where
  "kill_run may lst sig pids =
     (if lst then (0, [])
      else let signum = (case sig of None \<Rightarrow> 15 | Some s \<Rightarrow> parse_signal s) in
        if signum < 0 then (1, [])
        else if pids = [] then (1, [])
        else (if list_all (\<lambda>p. may p signum) pids then 0 else 1, map (\<lambda>p. (p, signum)) pids))"

definition wait_line :: "int \<Rightarrow> int \<Rightarrow> cstring" where
  "wait_line p ret = ''wait: pid '' @ show_int p @ '' finished (status '' @ show_int ret @ '')'' @ [NL]"

text \<open>Without arguments: the children in the order they end, then why \<open>waitpid\<close> stopped.\<close>

fun wait_all :: "int \<Rightarrow> (int \<times> wstatus) list \<Rightarrow> int \<times> cstring" where
  "wait_all ret [] = (ret, [])"
| "wait_all ret ((p, st) # r) =
     (case wait_all (wait_code st) r of (rc, out) \<Rightarrow> (rc, wait_line p (wait_code st) @ out))"

fun wait_pids :: "(int \<Rightarrow> 's \<Rightarrow> wstatus option \<times> 's) \<Rightarrow> int \<Rightarrow> int list \<Rightarrow> 's \<Rightarrow> int \<times> cstring \<times> 's" where
  "wait_pids waitpid ret [] s = (ret, [], s)"
| "wait_pids waitpid ret (p # ps) s =
     (case waitpid p s of
        (None, s1) \<Rightarrow> wait_pids waitpid 1 ps s1
      | (Some st, s1) \<Rightarrow>
          (case wait_pids waitpid (wait_code st) ps s1 of
             (rc, out, s2) \<Rightarrow> (rc, wait_line p (wait_code st) @ out, s2)))"

definition wait_children :: "(int \<times> wstatus) list \<Rightarrow> bool \<Rightarrow> int \<times> cstring" where
  "wait_children ended no_child = (case wait_all 0 ended of (rc, out) \<Rightarrow> (if no_child then rc else 1, out))"

section \<open>echo, true and false\<close>

definition echo_run :: "bool \<Rightarrow> cstring list \<Rightarrow> int \<times> cstring" where
  "echo_run no_newline strings = (0, joined '' '' strings @ (if no_newline then [] else [NL]))"

definition true_run :: int where "true_run = 0"
definition false_run :: int where "false_run = 1"

section \<open>jobs\<close>

record proc =
  proc_pid :: int
  proc_ppid :: int
  proc_session :: int
  proc_state :: char
  cmdline :: cstring
  proc_name :: cstring

text \<open>The conversions \<open>%d\<close> and \<open>%c\<close> of \<open>sscanf\<close>, the latter after a blank.\<close>

definition scan_int :: "cstring \<Rightarrow> (int \<times> cstring) option" where
  "scan_int s = (case strtol s of (v, r) \<Rightarrow> if r = s then None else Some (to_int v, r))"

definition scan_char :: "cstring \<Rightarrow> (char \<times> cstring) option" where
  "scan_char s = (case dropWhile isspace s of [] \<Rightarrow> None | c # r \<Rightarrow> Some (c, r))"

definition starts :: "cstring \<Rightarrow> cstring \<Rightarrow> bool" where
  "starts pre s \<longleftrightarrow> take (length pre) s = pre"

definition status_line :: "cstring \<Rightarrow> proc \<Rightarrow> proc" where
  "status_line l p =
     (if starts (''Name:'' @ [TAB]) l then p\<lparr>proc_name := takeWhile (\<lambda>c. c \<noteq> NL) (fit 256 (drop 6 l))\<rparr>
      else if starts (''State:'' @ [TAB]) l then p\<lparr>proc_state := (case drop 7 l of [] \<Rightarrow> NUL | c # _ \<Rightarrow> c)\<rparr>
      else if starts ''PPid:'' l
      then (case scan_int (drop 5 l) of None \<Rightarrow> p | Some (v, _) \<Rightarrow> p\<lparr>proc_ppid := v\<rparr>)
      else p)"

text \<open>The bytes of the command line with blanks for NULs, without the blanks at the end.\<close>

definition command_text :: "char list \<Rightarrow> cstring" where
  "command_text b = rev (dropWhile (\<lambda>c. c = CHR '' '') (rev (map (\<lambda>c. if c = NUL then CHR '' '' else c) (take 1023 b))))"

text \<open>The fourth field after the last closing parenthesis.\<close>

definition stat_session :: "cstring \<Rightarrow> int option" where
  "stat_session l =
     (if CHR '')'' \<notin> set l then None
      else case scan_char (after_last (CHR '')'') l) of
          None \<Rightarrow> None
        | Some (_, r) \<Rightarrow> (case scan_int r of
              None \<Rightarrow> None
            | Some (_, r1) \<Rightarrow> (case scan_int r1 of
                  None \<Rightarrow> None
                | Some (_, r2) \<Rightarrow> map_option fst (scan_int r2))))"

definition read_job :: "char list option \<Rightarrow> char list option \<Rightarrow> char list option \<Rightarrow> int \<Rightarrow> proc option" where
  "read_job stats args stat n =
     (case stats of
        None \<Rightarrow> None
      | Some st \<Rightarrow>
          let p = fold status_line (map c_str (fgets_all 512 st))
                    \<lparr>proc_pid = n, proc_ppid = 0, proc_session = 0, proc_state = CHR ''?'', cmdline = [], proc_name = []\<rparr>;
              c = (case args of None \<Rightarrow> [] | Some b \<Rightarrow> command_text b);
              q = p\<lparr>cmdline := (if c = [] then fit 1024 (CHR ''['' # proc_name p @ '']'') else c)\<rparr> in
          Some (case stat of
              None \<Rightarrow> q
            | Some b \<Rightarrow> (case fgets1 2048 b of
                  None \<Rightarrow> q
                | Some (l, _) \<Rightarrow> (case stat_session l of None \<Rightarrow> q | Some v \<Rightarrow> q\<lparr>proc_session := v\<rparr>))))"

text \<open>The numeric names of \<^verbatim>\<open>/proc\<close>.\<close>

definition name_pid :: "cstring \<Rightarrow> int option" where
  "name_pid m = (if list_all isdigit m \<and> 0 < fst (digits_go 0 m) then Some (fst (digits_go 0 m)) else None)"

definition session_procs :: "(int \<Rightarrow> proc option) \<Rightarrow> int \<Rightarrow> int \<Rightarrow> cstring list \<Rightarrow> proc list" where
  "session_procs job_of mysid mypid names =
     List.map_filter (\<lambda>m. case name_pid m of
         None \<Rightarrow> None
       | Some n \<Rightarrow> if n = mypid then None
           else (case job_of n of None \<Rightarrow> None | Some p \<Rightarrow> if proc_session p = mysid then Some p else None)) names"

text \<open>One step of the insertion sort: the greater ones of the sorted part move up.\<close>

definition insert_proc :: "proc \<Rightarrow> proc list \<Rightarrow> proc list" where
  "insert_proc t ps =
     rev (dropWhile (\<lambda>p. proc_pid p > proc_pid t) (rev ps)) @ t # rev (takeWhile (\<lambda>p. proc_pid p > proc_pid t) (rev ps))"

definition sort_procs :: "proc list \<Rightarrow> proc list" where
  "sort_procs ps = fold insert_proc ps []"

definition low_hex :: "nat \<Rightarrow> char" where
  "low_hex n = (if n < 10 then char_of (48 + n) else char_of (87 + n))"

definition json_char :: "char \<Rightarrow> cstring" where
  "json_char c =
     (if c = DQ then BSLASH # [DQ] else if c = BSLASH then BSLASH # [BSLASH]
      else if ord c < 32 then BSLASH # ''u00'' @ [low_hex (ord c div 16), low_hex (ord c mod 16)] else [c])"

definition ticked :: "cstring \<Rightarrow> cstring" where
  "ticked s = map (\<lambda>c. if c = BTICK then DQ else c) s"

definition proc_line :: "bool \<Rightarrow> nat \<Rightarrow> proc \<Rightarrow> cstring" where
  "proc_line json i p =
     (if json
      then ticked ''{`job`:'' @ show_nat i @ ticked '',`pid`:'' @ show_int (proc_pid p) @ ticked '',`ppid`:'' @ show_int (proc_ppid p)
        @ ticked '',`state`:`'' @ proc_state p # ticked ''`,`command`:`'' @ concat (map json_char (cmdline p)) @ ticked ''`}'' @ [NL]
      else ''['' @ show_nat i @ ''] '' @ pad_left 6 (show_int (proc_pid p)) @ CHR '' '' # proc_state p # ''  '' @ cmdline p @ [NL])"

definition jobs_run :: "(int \<Rightarrow> proc option) \<Rightarrow> int \<Rightarrow> int \<Rightarrow> cstring list option \<Rightarrow> bool \<Rightarrow> int \<times> cstring" where
  "jobs_run job_of mysid mypid names json =
     (case names of
        None \<Rightarrow> (1, [])
      | Some ms \<Rightarrow>
          let ps = sort_procs (session_procs job_of mysid mypid ms) in
          (0, if ps = [] \<and> \<not> json then ''no jobs in current session'' @ [NL]
              else concat (map (\<lambda>i. proc_line json (Suc i) (ps ! i)) [0..<length ps])))"

section \<open>Aliases and variables\<close>

theorem alias_defined_is_shown:
  assumes "CHR ''='' \<notin> set n" "name_fits n" "table_room t n"
  shows "alias_command [n @ CHR ''='' # v, n] t = (0, alias_set n v t, alias_line (n, fit 256 v) @ [NL])"
  using assms by (simp add: alias_command_def alias_get_def alias_set_eq var_set_lookup split_at_None [THEN iffD2])

theorem alias_defined_is_shown_witness:
  "alias_command [''ll=ls -l'', ''ll''] [] = (0, alias_set ''ll'' ''ls -l'' [], alias_line (''ll'', fit 256 ''ls -l'') @ [NL])"
  using alias_defined_is_shown [of "''ll''" "[]" "''ls -l''"] by (simp add: name_fits_def table_room_def)

definition env_name :: "cstring \<Rightarrow> bool" where
  "env_name n \<longleftrightarrow> n \<noteq> [] \<and> CHR ''='' \<notin> set n"

lemma set_env_lookup: "map_of (set_env n v e) = (if env_name n then (map_of e)(n \<mapsto> v) else map_of e)"
  using update_first_Some [of n v e] update_first_None [of n v e]
  by (auto simp: set_env_def env_name_def map_of_append_new simp del: map_of_append split: option.split)

lemma unset_env_lookup: "map_of (unset_env n e) = (if env_name n then (map_of e)(n := None) else map_of e)"
proof -
  have "map_of (filter (\<lambda>(k, _). k \<noteq> n) e) = (map_of e)(n := None)"
    by (induction e) (auto simp: fun_eq_iff)
  then show ?thesis by (simp add: unset_env_def env_name_def)
qed

text \<open>Every name of an entry can be a name, once they all were: \<open>environ\<close> stays well formed.\<close>

definition environ_ok :: "table \<Rightarrow> bool" where
  "environ_ok e \<longleftrightarrow> list_all (\<lambda>(n, _). env_name n) e \<and> distinct (map fst e)"

lemma set_env_ok: "environ_ok e \<Longrightarrow> environ_ok (set_env n v e)"
proof (cases "update_first n v e")
  case None
  assume "environ_ok e"
  then show ?thesis using None update_first_None [of n v e] by (auto simp: set_env_def environ_ok_def env_name_def)
next
  case (Some e1)
  assume ok: "environ_ok e"
  have keys: "list_all (\<lambda>(n, _). env_name n) x \<longleftrightarrow> list_all env_name (map fst x)" for x :: table
    by (induction x) auto
  show ?thesis using ok update_first_Some [OF Some] Some by (simp add: set_env_def environ_ok_def keys)
qed

lemma unset_env_ok: "environ_ok e \<Longrightarrow> environ_ok (unset_env n e)"
  by (auto simp: environ_ok_def unset_env_def list_all_iff distinct_map inj_on_def)

lemma env_assign_ok: "environ_ok e \<Longrightarrow> environ_ok (snd (env_assign as e))"
  by (induction as e rule: env_assign.induct) (auto simp: set_env_ok split: option.split)

lemma export_vars_ok: "environ_ok e \<Longrightarrow> environ_ok (fst (snd (export_vars as e)))"
  by (induction as e rule: export_vars.induct) (auto simp: set_env_ok split: option.split prod.split)

lemma fold_unset_env_ok: "environ_ok e \<Longrightarrow> environ_ok (fold unset_env ns e)"
  by (induction ns arbitrary: e) (auto simp: unset_env_ok)

theorem environ_stays_ok:
  assumes "environ_ok e"
  shows "environ_ok (fst (snd (env_run us vs e)))" "environ_ok (fst (snd (export_run vs e)))" "environ_ok (snd (unset_run us e))"
    "environ_ok (fst (snd (read_run opts tty ready var e inp)))"
proof -
  show "environ_ok (fst (snd (env_run us vs e)))"
    using env_assign_ok [OF fold_unset_env_ok [OF assms], of vs us] by (auto simp: env_run_def split: prod.split)
  show "environ_ok (fst (snd (export_run vs e)))" using assms export_vars_ok by (simp add: export_run_def)
  show "environ_ok (snd (unset_run us e))" using fold_unset_env_ok [OF assms] by (simp add: unset_run_def)
  show "environ_ok (fst (snd (read_run opts tty ready var e inp)))"
    using assms set_env_ok by (auto simp: read_run_def split: prod.split)
qed

text \<open>The lines of \<open>env\<close> give the environment back.\<close>

theorem env_lines_read_back:
  assumes "environ_ok e"
  shows "map (split_at (CHR ''='')) (environ_lines e) = map Some e"
  using assms by (auto simp: environ_lines_def environ_ok_def env_name_def list_all_iff)

theorem env_lines_read_back_witness:
  "map (split_at (CHR ''='')) (environ_lines [(''HOME'', ''/root''), (''A'', ''b=c'')]) = map Some [(''HOME'', ''/root''), (''A'', ''b=c'')]"
  by (rule env_lines_read_back) (simp add: environ_ok_def env_name_def)

theorem export_then_unset:
  assumes "env_name n" "length n < 256"
  shows "\<exists>e1. export_run [n @ CHR ''='' # v] e = (0, e1, []) \<and> map_of e1 = (map_of e)(n \<mapsto> v)
     \<and> map_of (snd (unset_run [n] e1)) = (map_of e)(n := None)"
  using assms by (simp add: export_run_def env_name_def fit_id set_env_lookup unset_run_def unset_env_lookup)

theorem export_then_unset_witness:
  "\<exists>e1. export_run [''A'' @ CHR ''='' # ''1''] [] = (0, e1, []) \<and> map_of e1 = (map_of [])(''A'' \<mapsto> ''1'')
     \<and> map_of (snd (unset_run [''A''] e1)) = (map_of [])(''A'' := None)"
  by (rule export_then_unset) (simp_all add: env_name_def)

section \<open>read\<close>

lemma read_loop_line:
  assumes "\<not> (tty \<and> n = 0 \<and> CR \<in> set l)" "stop \<notin> set l" "n \<le> 0 \<or> int (len + length l) < n" "len + length l < 4095"
  shows "read_loop tty n stop len (l @ stop # r) = (l, True, r)"
  using assms
proof (induction l arbitrary: len)
  case Nil
  then show ?case by (subst read_loop.simps) auto
next
  case (Cons c l)
  have "read_loop tty n stop (Suc len) (l @ stop # r) = (l, True, r)" by (rule Cons.IH) (use Cons.prems in auto)
  then show ?case using Cons.prems by (subst read_loop.simps) auto
qed

theorem read_takes_line:
  assumes "read_chars opts = 0" "read_timeout opts \<le> 0" "read_delim opts = NL" "NL \<notin> set l" "NUL \<notin> set l" "length l < 4095"
    "env_name var" "length var < 256"
  shows "\<exists>e1. read_run opts False ready var e (l @ NL # r) = (0, e1, r) \<and> map_of e1 = (map_of e)(var \<mapsto> l)"
proof -
  have "read_loop False 0 NL 0 (l @ NL # r) = (l, True, r)" by (rule read_loop_line) (use assms in auto)
  moreover have "c_str l = l" using assms(5) by (simp add: c_str_id)
  ultimately show ?thesis using assms by (simp add: read_run_def fit_id set_env_lookup)
qed

theorem read_takes_line_witness:
  "\<exists>e1. read_run \<lparr>read_chars = 0, read_delim = NL, read_timeout = 0\<rparr> False True ''X'' [] (''hello'' @ NL # ''more'') = (0, e1, ''more'')
     \<and> map_of e1 = (map_of [])(''X'' \<mapsto> ''hello'')"
  by (rule read_takes_line) (simp_all add: env_name_def NL_def NUL_def)

text \<open>
  A shell variable of the same name hides what \<open>read\<close>, \<open>export\<close> and \<open>unset\<close> do: they change the environment only,
  and \<open>var_get\<close> looks there last.
\<close>

lemma shell_variable_hides:
  "map_of t var = Some old \<Longrightarrow> var_get t (map_of (fst (snd (read_run opts tty ready var e inp)))) var = Some old"
  "map_of t var = Some old \<Longrightarrow> var_get t (map_of (fst (snd (export_run [var @ CHR ''='' # v] e)))) var = Some old"
  "map_of t var = Some old \<Longrightarrow> var_get t (map_of (snd (unset_run [var] e))) var = Some old"
  by (simp_all add: var_get_def)

section \<open>type, which, kill\<close>

text \<open>\<open>which\<close> prints the executable files of that name in the directories of the path, or the first of them.\<close>

definition path_hits :: "(cstring \<Rightarrow> bool) \<Rightarrow> cstring option \<Rightarrow> cstring \<Rightarrow> cstring list" where
  "path_hits access path name =
     filter access (map (\<lambda>d. d @ CHR ''/'' # name)
       (strtok (\<lambda>c. c = CHR '':'') (case path of Some p \<Rightarrow> p | None \<Rightarrow> ''/usr/local/bin:/usr/bin:/bin'')))"

lemma search_dirs_hits:
  "search_dirs access all name ds = (let hits = filter access (map (\<lambda>d. d @ CHR ''/'' # name) ds) in if all then hits else take 1 hits)"
  by (induction ds) (auto simp: Let_def)

theorem which_finds:
  "which_run access path all names =
     (if list_all (\<lambda>n. path_hits access path n \<noteq> []) names then 0 else 1,
      concat (map (\<lambda>n. concat (map (\<lambda>p. p @ [NL]) (if all then path_hits access path n else take 1 (path_hits access path n)))) names))"
  by (induction names) (auto simp: search_path_def search_dirs_hits path_hits_def Let_def split: option.splits)

text \<open>A signal is understood as its number, its name and its name with the prefix, in any case.\<close>

definition sig_lower :: "(cstring \<times> int) list" where
  "sig_lower =
     [(''hup'', 1), (''int'', 2), (''quit'', 3), (''ill'', 4), (''trap'', 5), (''abrt'', 6), (''bus'', 7), (''fpe'', 8),
      (''kill'', 9), (''usr1'', 10), (''segv'', 11), (''usr2'', 12), (''pipe'', 13), (''alrm'', 14), (''term'', 15),
      (''stkflt'', 16), (''chld'', 17), (''cont'', 18), (''stop'', 19), (''tstp'', 20), (''ttin'', 21), (''ttou'', 22),
      (''urg'', 23), (''xcpu'', 24), (''xfsz'', 25), (''vtalrm'', 26), (''prof'', 27), (''winch'', 28), (''io'', 29),
      (''pwr'', 30), (''sys'', 31)]"

lemma upper_letters:
  "tolower (CHR ''A'') = CHR ''a''" "tolower (CHR ''B'') = CHR ''b''" "tolower (CHR ''C'') = CHR ''c''" "tolower (CHR ''D'') = CHR ''d''"
  "tolower (CHR ''E'') = CHR ''e''" "tolower (CHR ''F'') = CHR ''f''" "tolower (CHR ''G'') = CHR ''g''" "tolower (CHR ''H'') = CHR ''h''"
  "tolower (CHR ''I'') = CHR ''i''" "tolower (CHR ''J'') = CHR ''j''" "tolower (CHR ''K'') = CHR ''k''" "tolower (CHR ''L'') = CHR ''l''"
  "tolower (CHR ''M'') = CHR ''m''" "tolower (CHR ''N'') = CHR ''n''" "tolower (CHR ''O'') = CHR ''o''" "tolower (CHR ''P'') = CHR ''p''"
  "tolower (CHR ''Q'') = CHR ''q''" "tolower (CHR ''R'') = CHR ''r''" "tolower (CHR ''S'') = CHR ''s''" "tolower (CHR ''T'') = CHR ''t''"
  "tolower (CHR ''U'') = CHR ''u''" "tolower (CHR ''V'') = CHR ''v''" "tolower (CHR ''W'') = CHR ''w''" "tolower (CHR ''X'') = CHR ''x''"
  "tolower (CHR ''Y'') = CHR ''y''" "tolower (CHR ''Z'') = CHR ''z''" "tolower (CHR ''1'') = CHR ''1''" "tolower (CHR ''2'') = CHR ''2''"
  by code_simp+

lemma sig_table_lower: "map (\<lambda>(s, k). (map tolower s, k)) sig_table = sig_lower"
  by (simp add: sig_table_def sig_lower_def upper_letters)

lemma find_signal:
  "(case find (\<lambda>(s, _). same_nocase s name) tab of Some (_, k) \<Rightarrow> k | None \<Rightarrow> d)
     = (case map_of (map (\<lambda>(s, k). (map tolower s, k)) tab) (map tolower name) of Some k \<Rightarrow> k | None \<Rightarrow> d)"
proof (induction tab)
  case (Cons e tab)
  obtain s k where e: "e = (s, k)" by (cases e)
  have "same_nocase s name \<longleftrightarrow> map tolower name = map tolower s" unfolding same_nocase_def by (rule eq_commute)
  then show ?case using Cons by (cases "same_nocase s name") (simp_all add: e)
qed simp

lemma sig_lower_distinct: "distinct (map fst sig_lower)"
  by (simp add: sig_lower_def)

lemma sig_lower_entries:
  "list_all (\<lambda>(l, k). l \<noteq> [] \<and> islower (hd l) \<and> take 3 l \<noteq> ''sig'' \<and> 1 \<le> k \<and> k \<le> 31) sig_lower"
  by (simp add: sig_lower_def islower_def)

lemma sig_lower_entry:
  "(l, k) \<in> set sig_lower \<Longrightarrow> map_of sig_lower l = Some k \<and> l \<noteq> [] \<and> islower (hd l) \<and> take 3 l \<noteq> ''sig'' \<and> 1 \<le> k \<and> k \<le> 31"
  using sig_lower_entries by (auto simp: list_all_iff map_of_is_SomeI [OF sig_lower_distinct])

lemma strtol_word: "islower (tolower (hd x)) \<Longrightarrow> x \<noteq> [] \<Longrightarrow> strtol x = (0, x)"
proof -
  assume l: "islower (tolower (hd x))" and x: "x \<noteq> []"
  then obtain c r where c: "x = c # r" by (cases x) auto
  have "65 \<le> ord c" using l c by (auto simp: tolower_def islower_def isupper_def split: if_splits)
  then have "\<not> isspace c" "\<not> isdigit c" "c \<noteq> CHR ''-''" "c \<noteq> CHR ''+''" by (auto simp: isspace_def isdigit_def)
  then show ?thesis by (simp add: strtol_def c)
qed

lemma parse_signal_word:
  assumes "x \<noteq> []" "islower (tolower (hd x))"
  shows "parse_signal x =
    (case map_of sig_lower (map tolower (if same_nocase (take 3 x) ''SIG'' then drop 3 x else x)) of Some k \<Rightarrow> k | None \<Rightarrow> - 1)"
  using strtol_word [OF assms(2,1)] assms(1) unfolding parse_signal_def Let_def find_signal sig_table_lower by simp

lemma lower_sig: "map tolower ''SIG'' = ''sig''" "islower (CHR ''s'')"
  by (simp_all add: upper_letters islower_def)

theorem signals_read_back:
  assumes "(s, k) \<in> set sig_table" "same_nocase x s" "same_nocase pre ''SIG''"
  shows "parse_signal x = k \<and> parse_signal (pre @ x) = k \<and> parse_signal (show_int k) = k"
proof -
  have m: "map tolower x = map tolower s" and p: "map tolower pre = ''sig''"
    using assms(2,3) lower_sig by (simp_all add: same_nocase_def)
  have "(map tolower s, k) \<in> set (map (\<lambda>(s, k). (map tolower s, k)) sig_table)" using assms(1) by force
  then have e: "(map tolower x, k) \<in> set sig_lower" using m by (simp add: sig_table_lower)
  note ent = sig_lower_entry [OF e]
  have x: "x \<noteq> []" using ent by auto
  have l: "length pre = 3" using arg_cong [OF p, of length] by simp
  have h: "islower (tolower (hd x))" using ent x by (simp add: hd_map)
  have "\<not> same_nocase (take 3 x) ''SIG''" using ent lower_sig by (simp add: same_nocase_def flip: take_map)
  then have 1: "parse_signal x = k" using parse_signal_word [OF x h] ent by simp
  have pne: "pre \<noteq> []" using l by auto
  then have "tolower (hd pre) = CHR ''s''" using arg_cong [OF p, of hd] by (simp add: hd_map)
  then have hp: "islower (tolower (hd (pre @ x)))" using pne lower_sig by simp
  have "same_nocase (take 3 (pre @ x)) ''SIG''" using l assms(3) by simp
  then have 2: "parse_signal (pre @ x) = k" using parse_signal_word [OF _ hp] pne ent l by simp
  have "strtol (show_int k) = (k, [])" using strtol_show_int [of k "[]"] ent by (simp add: LONG_MIN_def LONG_MAX_def)
  then have "parse_signal (show_int k) = k" using ent by (simp add: parse_signal_def)
  then show ?thesis using 1 2 by simp
qed

theorem signals_read_back_witness:
  "parse_signal ''Term'' = 15 \<and> parse_signal (''Sig'' @ ''Term'') = 15 \<and> parse_signal (show_int 15) = 15"
proof (rule signals_read_back [where s = "''TERM''"])
  show "(''TERM'', 15) \<in> set sig_table" by (simp add: sig_table_def)
  show "same_nocase ''Term'' ''TERM''" "same_nocase ''Sig'' ''SIG''" by code_simp+
qed

text \<open>\<open>kill\<close> sends one signal, of those in the table, to each process once; without one it sends nothing.\<close>

lemma parse_signal_range: "parse_signal s = - 1 \<or> 1 \<le> parse_signal s \<and> parse_signal s \<le> 31"
proof -
  have range: "v = - 1 \<or> 1 \<le> v \<and> v \<le> 31" if v: "v = (case map_of sig_lower n of Some k \<Rightarrow> k | None \<Rightarrow> - 1)" for n v
  proof (cases "map_of sig_lower n")
    case (Some k)
    then show ?thesis using v sig_lower_entry [OF map_of_SomeD [OF Some]] by simp
  qed (simp add: v)
  obtain n r where nr: "strtol s = (n, r)" by (cases "strtol s")
  show ?thesis
  proof (cases "r = [] \<and> 0 < n \<and> n \<le> 31")
    case True
    then show ?thesis by (simp add: parse_signal_def nr)
  next
    case False
    show ?thesis unfolding parse_signal_def Let_def find_signal sig_table_lower nr prod.case if_not_P [OF False]
      by (rule range [OF refl])
  qed
qed

theorem kill_signals_each:
  assumes "kill_run may False sig pids = (st, sent)"
  shows "sent = [] \<and> st = 1 \<or> (\<exists>k. 1 \<le> k \<and> k \<le> 31 \<and> sent = map (\<lambda>p. (p, k)) pids \<and> (st = 0 \<longleftrightarrow> list_all (\<lambda>p. may p k) pids))"
proof -
  define k where "k = (case sig of None \<Rightarrow> 15 | Some s \<Rightarrow> parse_signal s)"
  have "k = - 1 \<or> 1 \<le> k \<and> k \<le> 31" unfolding k_def using parse_signal_range by (simp split: option.split)
  then show ?thesis using assms by (auto simp: kill_run_def Let_def simp flip: k_def split: if_splits)
qed

theorem kill_signals_each_witness:
  "\<exists>k. 1 \<le> k \<and> k \<le> 31 \<and> [(7, 15)] = map (\<lambda>p. (p, k :: int)) [7::int] \<and> list_all (\<lambda>p. True) [7::int]"
  using kill_signals_each [of "\<lambda>_ _. True" None "[7]" 0 "[(7, 15)]"] by (simp add: kill_run_def)

text \<open>\<open>help\<close> runs inside the shell but is neither registered nor in the list \<open>type\<close> knows.\<close>

lemma type_misses_help:
  "is_builtin_cmd ''help'' \<and>
     type_run (register_all_commands (\<lambda>n. \<lparr>spec_name = n, summary = None, long_help = None\<rparr>)) [''help''] = (1, [])"
  by code_simp

section \<open>jobs\<close>

lemma insert_proc_split:
  "\<exists>a b. ps = a @ b \<and> insert_proc t ps = a @ t # b \<and> (\<forall>p \<in> set b. proc_pid t < proc_pid p) \<and> (a \<noteq> [] \<longrightarrow> proc_pid (last a) \<le> proc_pid t)"
proof -
  let ?P = "\<lambda>p. proc_pid t < proc_pid p"
  let ?a = "rev (dropWhile ?P (rev ps))" and ?b = "rev (takeWhile ?P (rev ps))"
  have "ps = ?a @ ?b" by (metis rev_append rev_rev_ident takeWhile_dropWhile_id)
  moreover have "insert_proc t ps = ?a @ t # ?b" by (simp add: insert_proc_def)
  moreover have "\<forall>p \<in> set ?b. ?P p" by (auto dest: set_takeWhileD)
  moreover have "?a \<noteq> [] \<longrightarrow> proc_pid (last ?a) \<le> proc_pid t" using hd_dropWhile [of ?P "rev ps"] by (metis last_rev not_less rev_is_Nil_conv)
  ultimately show ?thesis by blast
qed

lemma sorted_insert_proc: "sorted (map proc_pid ps) \<Longrightarrow> sorted (map proc_pid (insert_proc t ps))"
proof -
  assume s: "sorted (map proc_pid ps)"
  obtain a b where ab: "ps = a @ b" "insert_proc t ps = a @ t # b" "\<forall>p \<in> set b. proc_pid t < proc_pid p"
      "a \<noteq> [] \<longrightarrow> proc_pid (last a) \<le> proc_pid t"
    using insert_proc_split by blast
  have "proc_pid p \<le> proc_pid t" if "p \<in> set a" for p
  proof -
    have "a \<noteq> []" using that by auto
    have "p = last a \<or> proc_pid p \<le> proc_pid (last a)"
    proof (cases "p \<in> set (butlast a)")
      case True
      moreover have "sorted (map proc_pid (butlast a @ [last a]))" using s ab(1) \<open>a \<noteq> []\<close> by (simp add: sorted_append)
      ultimately show ?thesis by (simp only: map_append sorted_append) simp
    next
      case False
      then show ?thesis using that \<open>a \<noteq> []\<close> by (metis append_butlast_last_id rotate1.simps(2) set_ConsD set_rotate1)
    qed
    then show ?thesis using ab(4) \<open>a \<noteq> []\<close> by auto
  qed
  then show ?thesis using s ab by (auto simp: sorted_append intro: less_imp_le)
qed

lemma mset_insert_proc: "mset (insert_proc t ps) = add_mset t (mset ps)"
  using insert_proc_split [of ps t] by auto

theorem jobs_sorted:
  "sorted (map proc_pid (sort_procs ps)) \<and> mset (sort_procs ps) = mset ps"
proof -
  have "sorted (map proc_pid (fold insert_proc ps qs)) \<and> mset (fold insert_proc ps qs) = mset ps + mset qs"
    if "sorted (map proc_pid qs)" for qs
    using that by (induction ps arbitrary: qs) (simp_all add: sorted_insert_proc mset_insert_proc)
  from this [of "[]"] show ?thesis by (simp add: sort_procs_def)
qed

text \<open>A process of the session is listed exactly when its files can be read and it is not the shell.\<close>

theorem session_procs_iff:
  "p \<in> set (session_procs job_of sid self names) \<longleftrightarrow>
     (\<exists>m \<in> set names. \<exists>n. name_pid m = Some n \<and> n \<noteq> self \<and> job_of n = Some p \<and> proc_session p = sid)"
  by (induction names) (auto simp: session_procs_def split: option.splits if_splits)

end
