(* ===== verification/File_Cmds.thy ===== *)
theory File_Cmds
  imports File_Tree
begin

text \<open>
  Smaller commands on files after their options are parsed: \<open>cat\<close>, \<open>tee\<close>, \<open>touch\<close>, \<open>ln\<close>, \<open>file\<close> and \<open>chown\<close>
  (\<^verbatim>\<open>cmd_cat.c\<close>, \<^verbatim>\<open>cmd_tee.c\<close>, \<^verbatim>\<open>cmd_touch.c\<close>, \<^verbatim>\<open>cmd_ln.c\<close>, \<^verbatim>\<open>cmd_file.c\<close>, \<^verbatim>\<open>cmd_chown.c\<close>). What the
  system answers is a parameter; a directory tree is walked through the operations of \<open>File_Tree\<close>, with
  fuel for its depth. Messages on \<open>stderr\<close> are left out.

  The lemmas show what \<open>cat -n\<close> numbers, that \<open>tee\<close> hands its whole input on, how \<open>file\<close> tells its answer
  from the first bytes, and that \<open>chown -R\<close> visits the entries that \<open>find\<close> lists.
\<close>

section \<open>cat\<close>

definition line_number :: "nat \<Rightarrow> cstring" where
  "line_number l = pad_left 6 (show_nat l) @ ''  ''"

fun cat_numbered :: "nat \<Rightarrow> char list \<Rightarrow> cstring" where
  "cat_numbered l [] = []"
| "cat_numbered l (c # s) =
     (if c = NL then c # line_number (l + 1) @ cat_numbered (l + 1) s else c # cat_numbered l s)"

definition cat_file :: "bool \<Rightarrow> char list \<Rightarrow> cstring" where
  "cat_file num s = (if num then line_number 1 @ cat_numbered 1 s @ [NL] else s)"

fun cat_run :: "(cstring \<Rightarrow> char list option) \<Rightarrow> bool \<Rightarrow> cstring list \<Rightarrow> int \<times> cstring" where
  "cat_run contents num [] = (0, [])"
| "cat_run contents num (f # fs) =
     (case cat_run contents num fs of
        (ret, out) \<Rightarrow> (case contents f of None \<Rightarrow> (1, out) | Some s \<Rightarrow> (ret, cat_file num s @ out)))"

section \<open>tee\<close>

text \<open>
  A chunk that was read, and what the calls of \<open>write\<close> return for the output and for each file: the
  number of bytes written, or \<open>None\<close> for an error. A file that could not be opened is \<open>None\<close>.
\<close>

type_synonym tee_chunk = "char list \<times> nat option \<times> nat option list"

definition tee_write :: "char list \<Rightarrow> char list option \<Rightarrow> nat option \<Rightarrow> char list option" where
  "tee_write b f w = (case f of None \<Rightarrow> None | Some c \<Rightarrow> Some (case w of None \<Rightarrow> c | Some k \<Rightarrow> c @ take k b))"

fun tee_loop :: "int \<Rightarrow> char list \<Rightarrow> char list option list \<Rightarrow> tee_chunk list \<Rightarrow> int \<times> char list \<times> char list option list" where
  "tee_loop ret out fs [] = (ret, out, fs)"
| "tee_loop ret out fs ((b, w, ws) # r) =
     (case w of
        None \<Rightarrow> (1, out, fs)
      | Some k \<Rightarrow>
          tee_loop (if list_ex (\<lambda>(f, v). f \<noteq> None \<and> v = None) (zip fs ws) then 1 else ret)
            (out @ take k b) (map2 (tee_write b) fs ws) r)"

text \<open>\<open>old\<close> gives for each file what it holds before, \<open>None\<close> when it cannot be opened.\<close>

definition tee_run :: "bool \<Rightarrow> char list option list \<Rightarrow> tee_chunk list \<Rightarrow> int \<times> char list \<times> char list option list" where
  "tee_run add old chunks =
     tee_loop (if None \<in> set old then 1 else 0) [] (map (map_option (\<lambda>c. if add then c else [])) old) chunks"

section \<open>touch and ln\<close>

record 's touch_ops =
  there :: "'s \<Rightarrow> cstring \<Rightarrow> bool"
  set_times :: "cstring \<Rightarrow> 's \<Rightarrow> bool \<times> 's"
  create_empty :: "cstring \<Rightarrow> 's \<Rightarrow> bool \<times> 's"

definition touch_file :: "'s touch_ops \<Rightarrow> cstring \<Rightarrow> 's \<Rightarrow> int \<times> 's" where
  "touch_file ops p s =
     (case (if there ops s p then set_times ops p s else create_empty ops p s) of (ok, s1) \<Rightarrow> (if ok then 0 else 1, s1))"

fun touch_run :: "'s touch_ops \<Rightarrow> cstring list \<Rightarrow> 's \<Rightarrow> int \<times> 's" where
  "touch_run ops [] s = (0, s)"
| "touch_run ops (f # fs) s =
     (case touch_file ops f s of
        (r, s1) \<Rightarrow> (case touch_run ops fs s1 of (ret, s2) \<Rightarrow> (if r \<noteq> 0 then 1 else ret, s2)))"

datatype unlinked = Unlinked | No_Entry | Unlink_Failed

record 's ln_ops =
  ln_unlink :: "cstring \<Rightarrow> 's \<Rightarrow> unlinked \<times> 's"
  make_link :: "bool \<Rightarrow> cstring \<Rightarrow> cstring \<Rightarrow> 's \<Rightarrow> bool \<times> 's"

definition ln_run :: "'s ln_ops \<Rightarrow> bool \<Rightarrow> bool \<Rightarrow> bool \<Rightarrow> cstring \<Rightarrow> cstring \<Rightarrow> 's \<Rightarrow> int \<times> cstring \<times> 's" where
  "ln_run ops soft force verbose target name s =
     (case (if force then ln_unlink ops name s else (No_Entry, s)) of
        (Unlink_Failed, s1) \<Rightarrow> (1, [], s1)
      | (_, s1) \<Rightarrow>
          (case make_link ops soft target name s1 of
             (ok, s2) \<Rightarrow>
               if \<not> ok then (1, [], s2)
               else (0, if verbose then SQ # name @ SQ # '' -> '' @ SQ # target @ [SQ, NL] else [], s2)))"

section \<open>file\<close>

definition magic :: "nat list \<Rightarrow> char list \<Rightarrow> bool" where
  "magic m b \<longleftrightarrow> map ord (take (length m) b) = m"

text \<open>The interpreter after the two characters of the mark.\<close>

definition interpreter :: "char list \<Rightarrow> cstring" where
  "interpreter b = take 127 (takeWhile (\<lambda>c. c \<noteq> NL \<and> c \<noteq> CR) (dropWhile (\<lambda>c. c = CHR '' '') (drop 2 b)))"

definition text_byte :: "char \<Rightarrow> bool" where
  "text_byte c \<longleftrightarrow> 9 \<le> ord c \<and> ord c \<le> 13 \<or> 32 \<le> ord c \<and> ord c \<le> 126 \<or> 128 \<le> ord c"

definition detect_bytes :: "char list \<Rightarrow> cstring" where
  "detect_bytes b =
     (if b = [] then ''empty''
      else if magic [0x7F, 0x45, 0x4C, 0x46] b
      then ''ELF '' @ (if 5 \<le> length b \<and> ord (b ! 4) = 2 then ''64-bit'' else ''32-bit'') @ '' executable''
      else if magic [0x89, 0x50, 0x4E, 0x47] b then ''PNG image data''
      else if magic [0xFF, 0xD8, 0xFF] b then ''JPEG image data''
      else if magic [0x25, 0x50, 0x44, 0x46] b then ''PDF document''
      else if magic [0x50, 0x4B, 3, 4] b then ''Zip archive data''
      else if magic [0x1F, 0x8B] b then ''gzip compressed data''
      else if 262 \<le> length b \<and> take 5 (drop 257 b) = ''ustar'' then ''POSIX tar archive''
      else if magic [0x23, 0x21] b then ''shell script, interpreter: '' @ c_str (interpreter b)
      else if list_all text_byte (take 16 b) then ''ASCII text''
      else ''binary data'')"

text \<open>The error is the text of \<open>strerror\<close>.\<close>

definition detect_regular :: "cstring + char list \<Rightarrow> cstring" where
  "detect_regular r =
     fit 256 (case r of Inl e \<Rightarrow> ''cannot open: '' @ e | Inr bytes \<Rightarrow> detect_bytes (take 264 bytes))"

datatype entry_kind = Symlink "cstring option" | Directory | Block_Special | Char_Special | Fifo | Socket
  | Plain "cstring + char list" | Unknown

definition kind_text :: "entry_kind \<Rightarrow> cstring" where
  "kind_text k =
     (case k of
        Symlink t \<Rightarrow> ''symbolic link to '' @ (case t of None \<Rightarrow> [] | Some u \<Rightarrow> take 231 u)
      | Directory \<Rightarrow> ''directory'' | Block_Special \<Rightarrow> ''block special file'' | Char_Special \<Rightarrow> ''character special file''
      | Fifo \<Rightarrow> ''fifo (named pipe)'' | Socket \<Rightarrow> ''socket'' | Plain r \<Rightarrow> detect_regular r | Unknown \<Rightarrow> ''unknown type'')"

definition describe_path :: "(cstring \<Rightarrow> entry_kind option) \<Rightarrow> bool \<Rightarrow> cstring \<Rightarrow> cstring" where
  "describe_path kinds brief p =
     (case kinds p of None \<Rightarrow> [] | Some k \<Rightarrow> (if brief then [] else p @ '': '') @ kind_text k @ [NL])"

definition file_run :: "(cstring \<Rightarrow> entry_kind option) \<Rightarrow> bool \<Rightarrow> cstring list \<Rightarrow> int \<times> cstring" where
  "file_run kinds brief paths = (0, concat (map (describe_path kinds brief) paths))"

section \<open>chown\<close>

text \<open>A name of the database, or a number that ends where the text ends; ids are 32-bit words.\<close>

definition parse_id :: "(cstring \<Rightarrow> 32 word option) \<Rightarrow> cstring \<Rightarrow> 32 word option" where
  "parse_id named s =
     (case named s of
        Some i \<Rightarrow> Some i
      | None \<Rightarrow> (case strtol s of (n, r) \<Rightarrow> if r = [] then Some (word_of_int n) else None))"

definition parse_owner_spec :: "(cstring \<Rightarrow> 32 word option) \<Rightarrow> (cstring \<Rightarrow> 32 word option) \<Rightarrow> cstring \<Rightarrow> (32 word \<times> 32 word) option" where
  "parse_owner_spec user grp spec =
     (let buf = fit 256 spec in
      case split_at (CHR '':'') buf of
        None \<Rightarrow> map_option (\<lambda>u. (u, -1)) (parse_id user buf)
      | Some (w, g) \<Rightarrow>
          (case (if w = [] then Some (-1) else parse_id user w) of
             None \<Rightarrow> None
           | Some u \<Rightarrow> map_option (\<lambda>i. (u, i)) (if g = [] then Some (-1) else parse_id grp g)))"

text \<open>\<open>chown\<close> of one path, with the ids and the text of the verbose line fixed: status, output, state.\<close>

definition chown_one :: "(cstring \<Rightarrow> 's \<Rightarrow> bool \<times> 's) \<Rightarrow> bool \<Rightarrow> cstring \<Rightarrow> cstring \<Rightarrow> 's \<Rightarrow> int \<times> cstring \<times> 's" where
  "chown_one lchown verbose spec p s =
     (case lchown p s of
        (ok, s1) \<Rightarrow>
          if \<not> ok then (1, [], s1)
          else (0, if verbose then ''changed ownership of '' @ SQ # p @ SQ # '' to '' @ spec @ [NL] else [], s1))"

fun chown_recurse :: "'s fs_ops \<Rightarrow> (cstring \<Rightarrow> 's \<Rightarrow> bool \<times> 's) \<Rightarrow> bool \<Rightarrow> cstring \<Rightarrow> nat \<Rightarrow> cstring \<Rightarrow> 's \<Rightarrow> (int \<times> cstring \<times> 's) option"
  and chown_names :: "'s fs_ops \<Rightarrow> (cstring \<Rightarrow> 's \<Rightarrow> bool \<times> 's) \<Rightarrow> bool \<Rightarrow> cstring \<Rightarrow> nat \<Rightarrow> cstring \<Rightarrow> cstring list \<Rightarrow> int \<Rightarrow> 's
    \<Rightarrow> (int \<times> cstring \<times> 's) option" where
  "chown_recurse ops lchown verbose spec 0 p s = None"
| "chown_recurse ops lchown verbose spec (Suc n) p s =
     (case chown_one lchown verbose spec p s of
        (ret, out, s1) \<Rightarrow>
          (case (case lstat_of ops s1 p of Some (Dir _) \<Rightarrow> names_of ops s1 p | _ \<Rightarrow> None) of
             None \<Rightarrow> Some (ret, out, s1)
           | Some ms \<Rightarrow> map_option (\<lambda>(r, out1, s2). (r, out @ out1, s2)) (chown_names ops lchown verbose spec n p ms ret s1)))"
| "chown_names ops lchown verbose spec n p [] ret s = Some (ret, [], s)"
| "chown_names ops lchown verbose spec n p (m # ms) ret s =
     (if dot_name m then chown_names ops lchown verbose spec n p ms ret s
      else (case chown_recurse ops lchown verbose spec n (sub_path p m) s of
          None \<Rightarrow> None
        | Some (r, out, s1) \<Rightarrow>
            map_option (\<lambda>(r1, out1, s2). (r1, out @ out1, s2))
              (chown_names ops lchown verbose spec n p ms (if r \<noteq> 0 then 1 else ret) s1)))"

fun chown_all :: "(cstring \<Rightarrow> 's \<Rightarrow> (int \<times> cstring \<times> 's) option) \<Rightarrow> cstring list \<Rightarrow> 's \<Rightarrow> (int \<times> cstring \<times> 's) option" where
  "chown_all one [] s = Some (0, [], s)"
| "chown_all one (f # fs) s =
     (case one f s of
        None \<Rightarrow> None
      | Some (r, out, s1) \<Rightarrow>
          map_option (\<lambda>(ret, out1, s2). (if r \<noteq> 0 then 1 else ret, out @ out1, s2)) (chown_all one fs s1))"

text \<open>\<open>lchown\<close> takes the two ids.\<close>

definition chown_run :: "(cstring \<Rightarrow> 32 word option) \<Rightarrow> (cstring \<Rightarrow> 32 word option) \<Rightarrow> 's fs_ops
    \<Rightarrow> (32 word \<Rightarrow> 32 word \<Rightarrow> cstring \<Rightarrow> 's \<Rightarrow> bool \<times> 's) \<Rightarrow> bool \<Rightarrow> bool \<Rightarrow> nat \<Rightarrow> cstring \<Rightarrow> cstring list \<Rightarrow> 's
    \<Rightarrow> (int \<times> cstring \<times> 's) option" where
  "chown_run user grp ops lchown rec verbose n spec files s =
     (case parse_owner_spec user grp spec of
        None \<Rightarrow> Some (1, [], s)
      | Some (u, g) \<Rightarrow>
          if files = [] then Some (1, [], s)
          else chown_all (\<lambda>f s. if rec then chown_recurse ops (lchown u g) verbose spec n f s
                                else Some (chown_one (lchown u g) verbose spec f s)) files s)"

section \<open>Properties\<close>

text \<open>Every line of the file is numbered, and after the last newline so is a line that is not there.\<close>

lemma cat_numbered_line: "NL \<notin> set l \<Longrightarrow> cat_numbered k (l @ NL # s) = l @ NL # line_number (k + 1) @ cat_numbered (k + 1) s"
  by (induction l) auto

theorem cat_numbers_lines:
  assumes "\<forall>l \<in> set ls. NL \<notin> set l"
  shows "cat_file True (concat (map (\<lambda>l. l @ [NL]) ls)) =
     concat (map (\<lambda>(i, l). line_number i @ l @ [NL]) (zip [1..<Suc (length ls)] ls)) @ line_number (Suc (length ls)) @ [NL]"
proof -
  have "line_number k @ cat_numbered k (concat (map (\<lambda>l. l @ [NL]) ls)) =
     concat (map (\<lambda>(i, l). line_number i @ l @ [NL]) (zip [k..<k + length ls] ls)) @ line_number (k + length ls)" for k
    using assms
  proof (induction ls arbitrary: k)
    case (Cons l ls)
    have "[k..<k + length (l # ls)] = k # [Suc k..<Suc k + length ls]" by (simp add: upt_conv_Cons del: upt_Suc)
    then show ?case using cat_numbered_line [of l k] Cons.IH [of "Suc k"] Cons.prems by (simp del: upt_Suc)
  qed simp
  from this [of 1] show ?thesis by (simp add: cat_file_def)
qed

theorem cat_numbers_lines_witness:
  "cat_file True (''a'' @ NL # ''b'' @ [NL]) = ''     1  a'' @ NL # ''     2  b'' @ NL # ''     3  '' @ [NL]"
proof -
  have "cat_file True (concat (map (\<lambda>l. l @ [NL]) [''a'', ''b''])) =
      concat (map (\<lambda>(i, l). line_number i @ l @ [NL]) (zip [1..<Suc (length [''a'', ''b''])] [''a'', ''b'']))
        @ line_number (Suc (length [''a'', ''b''])) @ [NL]"
    by (rule cat_numbers_lines) (simp add: NL_def)
  also have "\<dots> = ''     1  a'' @ NL # ''     2  b'' @ NL # ''     3  '' @ [NL]" by code_simp
  finally show ?thesis by simp
qed

text \<open>When every write is complete, each file that opened ends with the whole input.\<close>

definition complete :: "nat \<Rightarrow> tee_chunk \<Rightarrow> bool" where
  "complete n ch = (case ch of (b, w, ws) \<Rightarrow> w = Some (length b) \<and> ws = replicate n (Some (length b)))"

lemma tee_loop_complete:
  "list_all (complete (length fs)) chunks \<Longrightarrow>
     tee_loop ret out fs chunks = (ret, out @ concat (map fst chunks), map (map_option (\<lambda>c. c @ concat (map fst chunks))) fs)"
proof (induction chunks arbitrary: out fs)
  case Nil
  then show ?case by (simp add: option.map_ident)
next
  case (Cons ch chunks)
  obtain b w ws where ch: "ch = (b, w, ws)" by (cases ch)
  have w: "w = Some (length b)" "ws = replicate (length fs) (Some (length b))" using Cons.prems by (simp_all add: ch complete_def)
  have m: "map2 (tee_write b) fs ws = map (map_option (\<lambda>c. c @ b)) fs"
    by (rule nth_equalityI) (auto simp: w tee_write_def split: option.split)
  have "\<not> list_ex (\<lambda>(f, v). f \<noteq> None \<and> v = None) (zip fs ws)" by (auto simp: w list_ex_iff set_zip)
  then show ?case
    using Cons.IH [of "map2 (tee_write b) fs ws" "out @ b"] Cons.prems w(1) unfolding ch
    by (simp add: m option.map_comp comp_def)
qed

theorem tee_hands_on:
  assumes "list_all (complete (length old)) chunks"
  shows "tee_run add old chunks = (if None \<in> set old then 1 else 0, concat (map fst chunks),
     map (map_option (\<lambda>c. (if add then c else []) @ concat (map fst chunks))) old)"
  using tee_loop_complete [of "map (map_option (\<lambda>c. if add then c else [])) old" chunks] assms
  by (simp add: tee_run_def option.map_comp comp_def)

theorem tee_hands_on_witness:
  "tee_run True [Some ''x'', None] [(''ab'', Some 2, [Some 2, Some 2]), (''c'', Some 1, [Some 1, Some 1])]
     = (1, ''abc'', [Some ''xabc'', None])"
  using tee_hands_on [of "[Some ''x'', None]" "[(''ab'', Some 2, [Some 2, Some 2]), (''c'', Some 1, [Some 1, Some 1])]" True]
  by (simp add: complete_def)

text \<open>A short write loses the end of a chunk without an error.\<close>

lemma tee_short_write: "tee_run False [Some []] [(''abcd'', Some 4, [Some 2])] = (0, ''abcd'', [Some ''ab''])"
  by (simp add: tee_run_def tee_write_def)

text \<open>The verdict on a text looks at its first 16 bytes only, and takes every byte above 127 for ASCII.\<close>

lemma late_zero_is_text: "detect_regular (Inr (replicate 16 (CHR ''a'') @ [NUL, CHR 0x01])) = ''ASCII text''"
  by code_simp

lemma high_bytes_are_ascii: "detect_regular (Inr (replicate 4 (CHR 0xFE))) = ''ASCII text''"
  by code_simp

theorem shebang_named:
  fixes i r :: "char list" and n :: nat
  defines "b \<equiv> ''#!'' @ replicate n (CHR '' '') @ i @ NL # r"
  assumes "NL \<notin> set i" "CR \<notin> set i" "NUL \<notin> set i" "i \<noteq> []" "hd i \<noteq> CHR '' ''" "length i < 100" "n < 100"
    "take 5 (drop 257 b) \<noteq> ''ustar''"
  shows "detect_regular (Inr b) = ''shell script, interpreter: '' @ i"
proof -
  have b: "take 264 b = ''#!'' @ replicate n (CHR '' '') @ i @ NL # take (261 - n - length i) r"
    using assms(7,8) by (simp add: b_def take_Cons')
  have i: "takeWhile (\<lambda>c. c \<noteq> NL \<and> c \<noteq> CR) (i @ NL # x) = i" for x using assms(2,3) by (induction i) auto
  have blanks: "dropWhile (\<lambda>c. c = CHR '' '') (replicate n (CHR '' '') @ x) = dropWhile (\<lambda>c. c = CHR '' '') x" for x
    by (induction n) auto
  have "dropWhile (\<lambda>c. c = CHR '' '') (replicate n (CHR '' '') @ i @ NL # x) = i @ NL # x" for x
    using assms(5,6) by (cases i) (simp_all add: blanks)
  then have n: "interpreter (take 264 b) = i" using i assms(7) by (simp add: interpreter_def b)
  have "take 5 (drop 257 (take 264 b)) \<noteq> ''ustar''" using assms(9) by (simp add: drop_take)
  moreover have "magic [0x23, 0x21] (take 264 b)" by (simp add: magic_def b)
  moreover have "\<not> magic (m # ms) (take 264 b)" if "m \<noteq> 0x23" for m ms using that by (auto simp: magic_def b)
  moreover have "take 264 b \<noteq> []" by (simp add: b)
  ultimately have "detect_bytes (take 264 b) = ''shell script, interpreter: '' @ c_str (interpreter (take 264 b))"
    unfolding detect_bytes_def by simp
  then show ?thesis using n assms(4,7) by (simp add: detect_regular_def c_str_id fit_id)
qed

theorem shebang_named_witness: "detect_regular (Inr (''#! /bin/sh'' @ NL # ''exit'')) = ''shell script, interpreter: /bin/sh''"
  using shebang_named [of "''/bin/sh''" 1 "''exit''"] by (simp add: NL_def CR_def NUL_def)

section \<open>chown\<close>

text \<open>An empty owner without a colon is the number zero.\<close>

lemma empty_owner_is_root: "parse_owner_spec (\<lambda>_. None) grp [] = Some (0, - 1)"
  by (simp add: parse_owner_spec_def parse_id_def split_at_def fit_def strtol_def)

lemma owner_number_wraps: "parse_owner_spec (\<lambda>_. None) grp ''4294967296'' = Some (0, - 1)"
  by code_simp

lemma parse_id_number: "named (show_nat u) = None \<Longrightarrow> u < 2 ^ 32 \<Longrightarrow> parse_id named (show_nat u) = Some (word_of_nat u)"
  using strtol_show_int [of "int u" "[]"] by (simp add: parse_id_def show_int_def LONG_MIN_def LONG_MAX_def)

theorem owner_group_numbers:
  assumes "user (show_nat u) = None" "grp (show_nat g) = None" "u < 2 ^ 32" "g < 2 ^ 32"
  shows "parse_owner_spec user grp (show_nat u @ CHR '':'' # show_nat g) = Some (word_of_nat u, word_of_nat g)"
proof -
  have c: "CHR '':'' \<notin> set (show_nat u)" using show_nat_digits [of "CHR '':''" u] by (auto simp: isdigit_def)
  have "length (show_nat u) \<le> 10" "length (show_nat g) \<le> 10" using assms(3,4) by (auto intro!: length_show_nat)
  then have "fit 256 (show_nat u @ CHR '':'' # show_nat g) = show_nat u @ CHR '':'' # show_nat g" by (simp add: fit_id)
  then show ?thesis using c parse_id_number [of user u] parse_id_number [of grp g] assms by (simp add: parse_owner_spec_def)
qed

theorem owner_group_numbers_witness:
  "parse_owner_spec (\<lambda>_. None) (\<lambda>_. None) (show_nat 1000 @ CHR '':'' # show_nat 100) = Some (word_of_nat 1000, word_of_nat 100)"
  by (rule owner_group_numbers) simp_all

text \<open>When changing an owner changes no entry, \<open>chown -R\<close> does it once for every entry \<open>find\<close> lists, in that order.\<close>

definition chown_each :: "(cstring \<Rightarrow> 's \<Rightarrow> bool \<times> 's) \<Rightarrow> cstring list \<Rightarrow> 's \<Rightarrow> 's" where
  "chown_each lchown ps s = fold (\<lambda>p s. snd (lchown p s)) ps s"

lemma chown_one_state [simp]: "snd (snd (chown_one lchown verbose spec p s)) = snd (lchown p s)"
  by (simp add: chown_one_def split: prod.split)

lemma find_names_cong:
  assumes "\<And>lev p. do_find ops opts n lev p s = do_find ops opts n lev p s0"
  shows "find_names ops opts n lev p ms s = find_names ops opts n lev p ms s0"
  using assms by (induction ms) (simp_all cong: option.case_cong)

lemma do_find_cong:
  assumes "lstat_of ops s = lstat_of ops s0" "names_of ops s = names_of ops s0"
  shows "do_find ops opts n lev p s = do_find ops opts n lev p s0"
proof (induction n arbitrary: lev p)
  case (Suc n)
  have "find_names ops opts n lev p ms s = find_names ops opts n lev p ms s0" for lev p ms
    by (rule find_names_cong) (rule Suc.IH)
  then show ?case using assms by (simp cong: option.case_cong if_cong)
qed simp

lemma chown_each_keeps:
  assumes "\<And>p s. lstat_of ops (snd (lchown p s)) = lstat_of ops s" "\<And>p s. names_of ops (snd (lchown p s)) = names_of ops s"
  shows "lstat_of ops (chown_each lchown ps s) = lstat_of ops s \<and> names_of ops (chown_each lchown ps s) = names_of ops s"
  by (induction ps arbitrary: s) (simp_all add: chown_each_def assms)

lemma chown_each_append: "chown_each lchown (ps @ qs) s = chown_each lchown qs (chown_each lchown ps s)"
  by (simp add: chown_each_def)

text \<open>\<open>L\<close> and \<open>N\<close> are what \<open>lstat\<close> and \<open>readdir\<close> give throughout.\<close>

lemma chown_names_each:
  assumes keep: "\<And>p s. lstat_of ops (snd (lchown p s)) = lstat_of ops s" "\<And>p s. names_of ops (snd (lchown p s)) = names_of ops s"
    and IH: "\<And>q lev s out. lstat_of ops s = L \<Longrightarrow> names_of ops s = N \<Longrightarrow> L q \<noteq> None \<Longrightarrow>
       do_find ops list_all_opts n lev q s = Some out \<Longrightarrow>
       \<exists>r txt. chown_recurse ops lchown verbose spec n q s = Some (r, txt, chown_each lchown out s)"
  shows "lstat_of ops s = L \<Longrightarrow> names_of ops s = N \<Longrightarrow> (\<And>m. m \<in> set ms \<Longrightarrow> \<not> dot_name m \<Longrightarrow> L (sub_path p m) \<noteq> None) \<Longrightarrow>
     find_names ops list_all_opts n lev p ms s = Some out \<Longrightarrow>
     \<exists>r txt. chown_names ops lchown verbose spec n p ms ret s = Some (r, txt, chown_each lchown out s)"
proof (induction ms arbitrary: out s ret)
  case Nil
  then show ?case by (simp add: chown_each_def)
next
  case (Cons m ms)
  show ?case
  proof (cases "dot_name m")
    case True
    then show ?thesis using Cons by simp
  next
    case False
    then obtain a b where ab: "do_find ops list_all_opts n (lev + 1) (sub_path p m) s = Some a"
        "find_names ops list_all_opts n lev p ms s = Some b" "out = a @ b"
      using Cons.prems(4) by (auto split: option.splits)
    let ?s = "chown_each lchown a s"
    have k: "lstat_of ops ?s = lstat_of ops s" "names_of ops ?s = names_of ops s" using chown_each_keeps [of ops lchown] keep by blast+
    have "find_names ops list_all_opts n lev p ms ?s = Some b"
      using find_names_cong [OF do_find_cong [OF k]] ab(2) by simp
    then have "\<exists>r txt. chown_names ops lchown verbose spec n p ms x ?s = Some (r, txt, chown_each lchown b ?s)" for x
      using Cons.IH [of ?s b x] k Cons.prems(1-3) by simp
    moreover obtain r t where "chown_recurse ops lchown verbose spec n (sub_path p m) s = Some (r, t, ?s)"
      using IH [OF Cons.prems(1,2) _ ab(1)] Cons.prems(3) False by auto
    ultimately show ?thesis using False ab(3) by (fastforce simp: chown_each_append)
  qed
qed

theorem chown_visits_what_find_lists:
  assumes keep: "\<And>p s. lstat_of ops (snd (lchown p s)) = lstat_of ops s" "\<And>p s. names_of ops (snd (lchown p s)) = names_of ops s"
    and listed: "\<And>p ms m. names_of ops s p = Some ms \<Longrightarrow> m \<in> set ms \<Longrightarrow> \<not> dot_name m \<Longrightarrow> lstat_of ops s (sub_path p m) \<noteq> None"
    and "lstat_of ops s p \<noteq> None" "do_find ops list_all_opts n 0 p s = Some out"
  shows "\<exists>r txt. chown_recurse ops lchown verbose spec n p s = Some (r, txt, chown_each lchown out s)"
proof -
  define L N where "L = lstat_of ops s" and "N = names_of ops s"
  have "lstat_of ops s = L \<Longrightarrow> names_of ops s = N \<Longrightarrow> L p \<noteq> None \<Longrightarrow> do_find ops list_all_opts n lev p s = Some out \<Longrightarrow>
      \<exists>r txt. chown_recurse ops lchown verbose spec n p s = Some (r, txt, chown_each lchown out s)" for lev p s out
  proof (induction n arbitrary: lev p s out)
    case (Suc n)
    obtain nd where nd: "L p = Some nd" using Suc.prems(3) by auto
    obtain r t s1 where one: "chown_one lchown verbose spec p s = (r, t, s1)" by (metis prod_cases3)
    have s1: "s1 = snd (lchown p s)" using one chown_one_state [of lchown verbose spec p s] by simp
    have k: "lstat_of ops s1 = L" "names_of ops s1 = N" using keep Suc.prems(1,2) by (simp_all add: s1)
    show ?case
    proof (cases "is_dir nd \<and> N p \<noteq> None")
      case True
      then obtain j ms where ms: "N p = Some ms" "nd = Dir j" by (auto simp: is_dir_def split: node.splits)
      then obtain below where b: "find_names ops list_all_opts n lev p ms s = Some below" "out = p # below"
        using Suc.prems nd True by auto
      have "find_names ops list_all_opts n lev p ms s1 = Some below"
        using find_names_cong [OF do_find_cong [of ops s1 s]] b(1) k Suc.prems(1,2) by simp
      then have "\<exists>r1 t1. chown_names ops lchown verbose spec n p ms r s1 = Some (r1, t1, chown_each lchown below s1)"
      proof (intro chown_names_each [OF keep Suc.IH k])
        fix m assume "m \<in> set ms" "\<not> dot_name m"
        then show "L (sub_path p m) \<noteq> None" using listed [of p ms m] ms(1) unfolding L_def N_def by blast
      qed
      then show ?thesis using one k nd ms b(2) by (fastforce simp: chown_each_def s1)
    next
      case False
      then have "out = [p]" using Suc.prems nd by (auto split: if_splits)
      then show ?thesis using one k nd False by (auto simp: chown_each_def s1 is_dir_def split: node.splits)
    qed
  qed simp
  then show ?thesis using assms(4,5) by (simp add: L_def N_def)
qed

text \<open>The sample tree, with a log of the paths whose owner was changed as the state.\<close>

definition log_ops :: "cstring list fs_ops" where
  "log_ops =
     \<lparr>lstat_of = (\<lambda>_. map_of sample_store), stat_of = (\<lambda>_. store_stat sample_store), names_of = (\<lambda>_. store_names sample_store),
      opens_in = (\<lambda>_ _. False), read_of = (\<lambda>_ _. ([], True)), open_out = (\<lambda>_ _. None), put = (\<lambda>_ _ s. (False, s)),
      set_mode = (\<lambda>_ _ s. s), unlink_at = (\<lambda>_ s. (False, s)), rmdir_at = (\<lambda>_ s. (False, s)),
      mkdir_at = (\<lambda>_ _ s. (Mkdir_Failed, s)), rename_at = (\<lambda>_ _ s. (Rename_Failed, s)), blocks_of = (\<lambda>_ _. 0)\<rparr>"

lemma log_ops_sel [simp]: "lstat_of log_ops s = map_of sample_store" "names_of log_ops s = store_names sample_store"
  by (simp_all add: log_ops_def)

theorem chown_visits_what_find_lists_witness:
  "\<exists>r txt. chown_recurse log_ops (\<lambda>p s. (True, s @ [p])) False ''u'' 3 ''a'' [] = Some (r, txt, [''a'', ''a/x'', ''a/d'', ''a/d/y''])"
proof -
  let ?l = "\<lambda>p s. (True, s @ [p])"
  have "\<exists>r txt. chown_recurse log_ops ?l False ''u'' 3 ''a'' []
      = Some (r, txt, chown_each ?l [''a'', ''a/x'', ''a/d'', ''a/d/y''] [])"
  proof (rule chown_visits_what_find_lists)
    fix p ms m
    assume n: "names_of log_ops [] p = Some ms" "m \<in> set ms" "\<not> dot_name m"
    then obtain k where k: "map_of sample_store p = Some (Dir k)" by (auto simp: store_names_def split: option.splits node.splits)
    have "m \<in> set (List.map_filter (\<lambda>(q, _). entry_in p q) sample_store)"
      using n store_names_dir [OF k] by (auto simp: dot_name_def)
    then have "map_of sample_store (sub_path p m) \<noteq> None" unfolding names_set by blast
    then show "lstat_of log_ops [] (sub_path p m) \<noteq> None" by simp
  next
    show "lstat_of log_ops [] ''a'' \<noteq> None" by (simp add: sample_store_def)
    show "do_find log_ops list_all_opts 3 0 ''a'' [] = Some [''a'', ''a/x'', ''a/d'', ''a/d/y'']"
      by (simp add: sample_store_def numeral_3_eq_3 store_names_def entry_in_def entry_name_def dot_name_def sub_path_def is_dir_def)
  qed simp_all
  then show ?thesis by (simp add: chown_each_def)
qed

end
