(* ===== verification/Spec2Isabelle.thy ===== *)
theory Spec2Isabelle
  imports Prelude Json_Text Job_Table Registry Shell_Store History Mcp_Tools Mcp_Client Mcp_Server
    Mcp_Exchange Mcp_Replies Ftp Edit_Ops Arith Expansion Shell_Ast Shell_Eval Exec Dispatch Pipeline
    Catalog Rag At_Query Config Line_Editor Shell_Frame Repl
    Hash Checksum Diff Char_Tools Line_Tools Test_Cmd Chmod Xargs Pkg Ai_Client Search File_Tree Old_Repl
    Shell_Cmds File_Cmds
begin

text \<open>
  A verification development of aishell: an interactive shell with job control, pipelines and a small
  script language, a line editor, some sixty registered commands, an FTP service, a server and a client
  for the Model Context Protocol (MCP), an assistant that turns questions after \<open>@\<close> into commands, and a
  package manager. Every definition is a translation of the C source; the generated parser under
  \<open>bnfc/\<close>, the vendored \<open>cJSON\<close>, libcurl, the C library's \<open>regexec\<close>, \<open>fnmatch\<close>, \<open>strtod\<close> and \<open>qsort\<close>, and the
  operating system are parameters, either functions or records of answers.

  \<^bold>\<open>How the program is put together.\<close> \<open>bnfc_repl\<close> reads a line (line editor or \<open>getline\<close>), keeps it in the
  history, hands \<open>@\<close> lines to the assistant, expands aliases, runs four textual passes over the line,
  parses it and walks the tree. The walker builds commands and runs them: a single command inside the
  shell or by \<open>fork\<close>, a pipeline as children and threads, a background command as a job of the job table,
  which the reaper, the builtin threads, \<open>jobs\<close>, \<open>kill\<close> and the MCP server's \<open>proc\<close> tools share under one
  mutex. The registered commands are run functions in one table, which the assistant also consults: its
  suggestions, from the catalog, the retrieval, the MCP server or the AI service, are run only after
  validation against that table and, where needed, a confirmation.

  \<^bold>\<open>Theories and sources.\<close> Names of definitions are those of the C functions where possible.
  \<^item> \<open>Prelude\<close>: C strings and library functions, and the locale \<open>event_machine\<close>, an invariant of
    a machine with events, which several components interpret.
  \<^item> \<open>Job_Table\<close> (\<^verbatim>\<open>aishell_main.c\<close>, \<^verbatim>\<open>jobs_api.h\<close>): each critical section on the 64 slots is one definition,
    so that an interleaving of threads is a list of them; every reachable table is well formed.
  \<^item> \<open>Shell_Store\<close>, \<open>History\<close>: alias and variable tables, and the history ring with its abstract list.
  \<^item> \<open>Arith\<close>, \<open>Expansion\<close>: \<open>$((...))\<close>, command substitution, loop syntax, quoting and word expansion; faults
    (overflow, long names, buffers overrun) are values.
  \<^item> \<open>Shell_Ast\<close>, \<open>Shell_Eval\<close>, \<open>Shell_Frame\<close>: the tree, the commands built from it, control structures; the
    two global flags are shown to implement structured \<open>break\<close> and \<open>continue\<close>.
  \<^item> \<open>Exec\<close>, \<open>Pipeline\<close>, \<open>Dispatch\<close>: descriptor tables, redirections, pipes, threads, built-ins and jobs.
  \<^item> \<open>Line_Editor\<close>, \<open>Repl\<close>: keys, completion and the session, refined to an editor on two lists and to runs
    of the parsed text of the typed lines.
  \<^item> \<open>Registry\<close> (\<^verbatim>\<open>registry.c\<close>, \<^verbatim>\<open>validate.c\<close>), \<open>Catalog\<close> (\<^verbatim>\<open>cmd_registry.c\<close>), \<open>Rag\<close> (\<^verbatim>\<open>rag_retriever.c\<close>),
    \<open>At_Query\<close>, \<open>Ai_Client\<close> (\<^verbatim>\<open>aishell_client.c\<close>), \<open>Config\<close> (\<^verbatim>\<open>config.c\<close>, \<^verbatim>\<open>cmd_server.c\<close>): the assistant.
  \<^item> \<open>Json_Text\<close>, \<open>Mcp_Tools\<close>, \<open>Mcp_Server\<close>, \<open>Mcp_Client\<close>, \<open>Mcp_Exchange\<close>, \<open>Mcp_Replies\<close> (\<^verbatim>\<open>mcp_server.c\<close>,
    \<^verbatim>\<open>mcp_client.c\<close>): tools as interaction trees, so that a statement over all nodes of a tree holds
    whatever the system answers.
  \<^item> \<open>Ftp\<close> (\<^verbatim>\<open>ftp_handler.c\<close>): a session as a list of actions per command.
  \<^item> \<open>Edit_Ops\<close> (\<^verbatim>\<open>edit_utils.c\<close>, \<^verbatim>\<open>cmd_edit*.c\<close>), \<open>Hash\<close> and \<open>Checksum\<close> (\<^verbatim>\<open>hash_utils.c\<close>, \<^verbatim>\<open>cmd_md5sum.c\<close>,
    \<^verbatim>\<open>cmd_sha256sum.c\<close>), \<open>Diff\<close>, \<open>Char_Tools\<close> (tr, cut, wc), \<open>Line_Tools\<close> (uniq, head, tail, sort), \<open>Search\<close>
    (grep, rg), \<open>Test_Cmd\<close>, \<open>Chmod\<close>, \<open>Xargs\<close>, \<open>File_Tree\<close> (rm, cp, mv, mkdir, rmdir, find, du), \<open>Pkg\<close> (\<^verbatim>\<open>pkg.c\<close>),
    \<open>Shell_Cmds\<close> (alias, env, export, unset, read, type, which, kill, wait, jobs, echo, true, false),
    \<open>File_Cmds\<close> (cat, tee, touch, ln, file, chown): the commands after
    their options are parsed.
  \<^item> \<open>Old_Repl\<close>: the tokeniser and loop of the build without the generated parser, and the modes of \<open>main\<close>.

  \<^bold>\<open>What the lemmas show.\<close> Invariants of the state by event machines (job table, history, settings, FTP
  session, server life and counters, package database); confinement whatever the system answers (MCP
  requests, FTP paths, package links, suggestions run); refinements (history to a list, editor to a
  zipper, walker to a structured semantics); equivalence with a reference (SHA-256 and MD5, shortest
  edit scripts, rg and grep, redirections inside the shell and in a child); round trips (settings, aliases,
  history file, checksum files, unified diffs, \<open>pkg.json\<close>, the answers of the AI service, JSON texts);
  termination (arithmetic, sessions, xargs, walks). Where the code departs from its documentation or
  loses data, a lemma states what it does.

  \<^bold>\<open>Interfaces.\<close> \<open>event_machine\<close>, \<open>name_table\<close>, \<open>command_catalog\<close> (registry and its clients), \<open>line_file\<close> (line
  operations over reading and writing a text file), \<open>arith_calls\<close> (the mutual recursion of the evaluator),
  \<open>package_table\<close> (the database and the commands on it) and \<open>tree_fs\<close> (a tree of files where every call is
  permitted) are locales, interpreted on the definitions of the theory that provides them. The system
  calls of \<open>tree_fs\<close> are no part of the program; it is interpreted on a file system of paths and nodes.

  \<^bold>\<open>Fuel.\<close> Loops bounded by data are structural or have a measure. Fuel is taken by the arithmetic
  evaluator (linear in the length of the text, proved enough), \<open>eval\<close> for the turns of \<open>while\<close> and \<open>until\<close>
  only (a script without them needs none), the session (one more turn than bytes of input, proved enough
  when the commands return), and the walks of \<open>grep\<close>, \<open>rg\<close>, \<open>chmod -R\<close>, \<open>rm\<close>, \<open>cp\<close>, \<open>find\<close>, \<open>du\<close> (one unit per
  level of directories, proved enough for a tree of that depth). A symbolic link is followed 40 times.

  \<^bold>\<open>Assumptions.\<close> Standard input is one stream of bytes shared by the editor's \<open>read\<close> and by \<open>getline\<close>; C
  strings have no NUL. Writes to \<open>stderr\<close> and log entries are left out unless a theory says otherwise. A
  path fits \<open>PATH_MAX\<close>. The entries \<open>grep\<close> reads from freed option tables are read as they were before
  (a finding of the manifest). The package database has lines below 255 bytes, versions below \<open>2 ^ 31\<close>.

  \<^bold>\<open>Not modelled.\<close> Option parsing by argtable3 and the usage texts of the commands, which are calls of that
  library; terminal drawing; sockets, curl handles and thread creation beyond their answers; the
  generated lexer, parser and printer and the vendored JSON library; logging. The commands that are one
  system call or one loop of calls around printing (ls, cd, df, ps, ping, nc, stat, date, sleep,
  pwd), and the durations of sleep, which are floating point. Floating point: weights, cosines and unit sizes
  are opaque. Allocation failures, except where a theory names them.
\<close>

end
